(* ===== verification/Miosix_Prelude.thy ===== *)
theory Miosix_Prelude
  imports Main "HOL-Library.Word" "HOL-Library.Monad_Syntax"
begin

text \<open>
  Shared vocabulary of the development: machine integers, pointers, the ways in which a piece
  of kernel code can go wrong, and the generic lemmas on lists and sums the components share.

  A pointer is an optional address (\<open>None\<close> is \<^verbatim>\<open>nullptr\<close>). A routine that can go wrong
  returns a sum: \<open>Inl\<close> of a \<open>fault\<close> is a call to \<^verbatim>\<open>errorHandler()\<close> (which reboots, so
  nothing after it runs, \<^verbatim>\<open>kernel/error.cpp\<close>), a dereferenced null pointer or an array access
  out of bounds. A loop that follows pointers is a \<open>partial_function (option)\<close>: \<open>None\<close> is a
  loop that does not return.
\<close>

section \<open>Machine integers and pointers\<close>

type_synonym u8 = "8 word"
type_synonym u16 = "16 word"
type_synonym u32 = "32 word"
type_synonym u64 = "64 word"
type_synonym ptr = "nat option"

abbreviation nullptr :: ptr where
  "nullptr \<equiv> None"

section \<open>Errors\<close>

text \<open>\<^verbatim>\<open>enum Error\<close> of \<^verbatim>\<open>kernel/error.h\<close>; every one of them is unrecoverable.\<close>

datatype Error =
    OUT_OF_MEMORY
  | STACK_OVERFLOW
  | UNEXPECTED
  | PAUSE_KERNEL_NESTING
  | DISABLE_INTERRUPTS_NESTING
  | MUTEX_DEADLOCK
  | NESTING_OVERFLOW
  | INTERRUPTS_ENABLED_AT_BOOT

datatype fault = ErrorHandler Error | NullDeref | OutOfBounds

type_synonym 'a result = "fault + 'a"

text \<open>Sequencing: the first fault stops the routine.\<close>

fun rbind :: "'e + 'a \<Rightarrow> ('a \<Rightarrow> 'e + 'b) \<Rightarrow> 'e + 'b" where
  "rbind (Inl e) f = Inl e"
| "rbind (Inr x) f = f x"

lemma rbind_Inr_iff: "rbind m f = Inr y \<longleftrightarrow> (\<exists>x. m = Inr x \<and> f x = Inr y)"
  by (cases m) auto

lemma rbind_assoc: "rbind (rbind m f) g = rbind m (\<lambda>x. rbind (f x) g)"
  by (cases m) auto

text \<open>The same for routines that may not return.\<close>

definition obind ::
  "('e + 'a) option \<Rightarrow> ('a \<Rightarrow> ('e + 'b) option) \<Rightarrow> ('e + 'b) option" where
  "obind m f = (case m of None \<Rightarrow> None | Some (Inl e) \<Rightarrow> Some (Inl e) | Some (Inr x) \<Rightarrow> f x)"

lemma obind_simps [simp]:
  "obind None f = None" "obind (Some (Inl e)) f = Some (Inl e)" "obind (Some (Inr x)) f = f x"
  by (simp_all add: obind_def)

lemma obind_assoc: "obind (obind m f) g = obind m (\<lambda>x. obind (f x) g)"
  by (simp add: obind_def split: option.split sum.split)

lemma obind_bind:
  "obind m f = Option.bind m (\<lambda>r. case r of Inl e \<Rightarrow> Some (Inl e) | Inr x \<Rightarrow> f x)"
  by (simp add: obind_def split: option.split sum.split)

lemma obind_mono [partial_function_mono]:
  assumes "mono_option B" "\<And>y. mono_option (\<lambda>f. C y f)"
  shows "mono_option (\<lambda>f. obind (B f) (\<lambda>y. C y f))"
  unfolding obind_bind
proof (rule bind_mono)
  show "mono_option (\<lambda>f. case y of Inl e \<Rightarrow> Some (Inl e) | Inr x \<Rightarrow> C x f)" for y
    by (cases y) (simp_all add: assms(2) option.const_mono)
qed (rule assms(1))

definition deref :: "ptr \<Rightarrow> (nat \<Rightarrow> 'a result) \<Rightarrow> 'a result" where
  "deref p f = (case p of None \<Rightarrow> Inl NullDeref | Some a \<Rightarrow> f a)"

lemma deref_simps [simp]:
  "deref None f = Inl NullDeref"
  "deref (Some a) f = f a"
  by (simp_all add: deref_def)

definition oderef :: "ptr \<Rightarrow> (nat \<Rightarrow> 'a result option) \<Rightarrow> 'a result option" where
  "oderef p f = (case p of None \<Rightarrow> Some (Inl NullDeref) | Some a \<Rightarrow> f a)"

lemma oderef_simps [simp]:
  "oderef None f = Some (Inl NullDeref)"
  "oderef (Some a) f = f a"
  by (simp_all add: oderef_def)

lemma oderef_mono [partial_function_mono]:
  assumes "\<And>a. mono_option (\<lambda>f. C a f)"
  shows "mono_option (\<lambda>f. oderef p (\<lambda>a. C a f))"
  by (cases p) (simp_all add: assms option.const_mono)

text \<open>Array accesses: an index past the end is a fault.\<close>

definition arr_get :: "'a list \<Rightarrow> nat \<Rightarrow> 'a result" where
  "arr_get xs i = (if i < length xs then Inr (xs ! i) else Inl OutOfBounds)"

definition arr_set :: "'a list \<Rightarrow> nat \<Rightarrow> 'a \<Rightarrow> 'a list result" where
  "arr_set xs i v = (if i < length xs then Inr (xs[i := v]) else Inl OutOfBounds)"

lemma arr_simps [simp]:
  "i < length xs \<Longrightarrow> arr_get xs i = Inr (xs ! i)"
  "i < length xs \<Longrightarrow> arr_set xs i v = Inr (xs[i := v])"
  by (simp_all add: arr_get_def arr_set_def)

text \<open>A loop that does not return is a fault of its own.\<close>

definition returning :: "('e + 'a) option \<Rightarrow> 'e option + 'a" where
  "returning r = (case r of None \<Rightarrow> Inl None | Some (Inl f) \<Rightarrow> Inl (Some f) | Some (Inr x) \<Rightarrow> Inr x)"

lemma returning_simps [simp]: "returning (Some (Inr x)) = Inr x"
  by (simp add: returning_def)

section \<open>Generic list lemmas\<close>

lemma hd_in_set_append: "hd (xs @ [e]) \<in> insert e (set xs)"
  by (cases xs) auto

lemma last_in_set_Cons: "last (e # xs) \<in> insert e (set xs)"
  by (cases xs rule: rev_cases) auto

lemma butlast_Cons_snoc [simp]: "butlast (e # xs @ [y]) = e # xs"
  by (simp flip: append_Cons)

lemma last_Cons_snoc [simp]: "last (e # xs @ [y]) = y"
  by simp

lemma in_set_tlD: "x \<in> set (tl xs) \<Longrightarrow> x \<in> set xs"
  by (cases xs) auto

lemma find_append:
  "find P (xs @ ys) = (case find P xs of None \<Rightarrow> find P ys | Some x \<Rightarrow> Some x)"
  by (induction xs) auto

lemma find_split:
  "find P xs = Some x \<Longrightarrow> \<exists>us ws. xs = us @ x # ws \<and> filter P us = [] \<and> P x"
proof (induction xs)
  case (Cons a xs)
  show ?case
  proof (cases "P a")
    case True
    with Cons.prems show ?thesis by (intro exI [of _ "[]"] exI [of _ xs]) simp
  next
    case False
    with Cons obtain us ws where "xs = us @ x # ws \<and> filter P us = [] \<and> P x" by auto
    with False show ?thesis by (intro exI [of _ "a # us"] exI [of _ ws]) simp
  qed
qed simp

lemma upt_0_Suc: "[0..<Suc n] = 0 # map Suc [0..<n]"
  by (subst upt_conv_Cons) (simp_all add: map_Suc_upt)

lemma in_set_concat_nth: "x \<in> set (concat L) \<longleftrightarrow> (\<exists>i<length L. x \<in> set (L ! i))"
  by (simp add: Bex_def in_set_conv_nth [where xs = L]) blast

lemma distinct_concat_nth:
  assumes "\<And>i. i < length L \<Longrightarrow> distinct (L ! i)"
    "\<And>i j x. i < length L \<Longrightarrow> j < length L \<Longrightarrow> x \<in> set (L ! i) \<Longrightarrow> x \<in> set (L ! j) \<Longrightarrow> i = j"
  shows "distinct (concat L)"
  using assms
proof (induction L)
  case (Cons a L)
  have "distinct (concat L)"
  proof (rule Cons.IH)
    show "distinct (L ! i)" if "i < length L" for i using Cons.prems(1) [of "Suc i"] that by simp
    show "i = j" if "i < length L" "j < length L" "x \<in> set (L ! i)" "x \<in> set (L ! j)" for i j x
      using Cons.prems(2) [of "Suc i" "Suc j" x] that by simp
  qed
  moreover have "x \<notin> set (concat L)" if "x \<in> set a" for x
  proof
    assume "x \<in> set (concat L)"
    then obtain j where "j < length L" "x \<in> set (L ! j)" unfolding in_set_concat_nth by blast
    with Cons.prems(2) [of 0 "Suc j" x] that show False by simp
  qed
  ultimately show ?case using Cons.prems(1) [of 0] by auto
qed simp

lemma filter_takeWhile_sorted:
  "sorted (map f xs) \<Longrightarrow> filter (\<lambda>x. f x \<le> t) xs = takeWhile (\<lambda>x. f x \<le> t) xs"
proof (induction xs)
  case (Cons a xs)
  show ?case
  proof (cases "f a \<le> t")
    case False
    with Cons.prems have "\<forall>x \<in> set xs. \<not> f x \<le> t" by auto
    with False show ?thesis by (simp add: filter_empty_conv)
  qed (use Cons in simp)
qed simp

section \<open>Machine words\<close>

lemma unat_inject: "unat a = unat b \<longleftrightarrow> a = (b :: 'a::len word)"
  by (auto intro: unsigned_word_eqI)

lemma unat_pred: "(w :: 'a::len word) \<noteq> 0 \<Longrightarrow> unat (w - 1) = unat w - 1"
  by (simp add: unat_minus_one)

section \<open>Refinement of a component by its specification\<close>

text \<open>
  A component is a step function on its concrete state, which may fault and returns an output
  for every request; its specification is a step function on abstract states, \<open>None\<close> where the
  caller breaks the contract. The locale states that the component simulates the specification;
  then every run of requests the specification allows runs without a fault, with the same
  outputs, and ends in a state that represents the specified one.
\<close>

fun run_impl :: "('s \<Rightarrow> 'o \<Rightarrow> 'e + ('s \<times> 'r)) \<Rightarrow> 's \<Rightarrow> 'o list \<Rightarrow> 'e + ('s \<times> 'r list)" where
  "run_impl f s [] = Inr (s, [])"
| "run_impl f s (x # xs) =
     rbind (f s x) (\<lambda>(s, r). rbind (run_impl f s xs) (\<lambda>(s, rs). Inr (s, r # rs)))"

fun run_spec :: "('a \<Rightarrow> 'o \<Rightarrow> ('a \<times> 'r) option) \<Rightarrow> 'a \<Rightarrow> 'o list \<Rightarrow> ('a \<times> 'r list) option" where
  "run_spec g a [] = Some (a, [])"
| "run_spec g a (x # xs) =
     (case g a x of None \<Rightarrow> None
      | Some (a, r) \<Rightarrow> (case run_spec g a xs of None \<Rightarrow> None | Some (a, rs) \<Rightarrow> Some (a, r # rs)))"

locale simulation =
  fixes R :: "'s \<Rightarrow> 'a \<Rightarrow> bool"
    and impl :: "'s \<Rightarrow> 'o \<Rightarrow> 'e + ('s \<times> 'r)"
    and spec :: "'a \<Rightarrow> 'o \<Rightarrow> ('a \<times> 'r) option"
  assumes step: "R s a \<Longrightarrow> spec a x = Some (a', r) \<Longrightarrow> \<exists>s'. impl s x = Inr (s', r) \<and> R s' a'"
begin

lemma run:
  "R s a \<Longrightarrow> run_spec spec a xs = Some (a', rs) \<Longrightarrow>
     \<exists>s'. run_impl impl s xs = Inr (s', rs) \<and> R s' a'"
proof (induction xs arbitrary: s a rs)
  case Nil
  then show ?case by auto
next
  case (Cons x xs)
  from Cons.prems obtain a1 r rs' where g: "spec a x = Some (a1, r)"
    and gs: "run_spec spec a1 xs = Some (a', rs')" and rs: "rs = r # rs'"
    by (auto split: option.splits prod.splits)
  from step [OF Cons.prems(1) g] obtain s1 where f: "impl s x = Inr (s1, r)" and r1: "R s1 a1"
    by blast
  from Cons.IH [OF r1 gs] obtain s' where "run_impl impl s1 xs = Inr (s', rs')" "R s' a'"
    by blast
  with f rs show ?case by auto
qed

end

end
