(* ===== verification/Intrusive_List.thy ===== *)
theory Intrusive_List
  imports Miosix_Prelude
begin

text \<open>
  The doubly linked list of \<^verbatim>\<open>kernel/intrusive.h\<close> (\<^verbatim>\<open>class IntrusiveListItem\<close> and
  \<^verbatim>\<open>template class IntrusiveList\<close>), at the level of its pointers: items are addresses in a store
  of \<^verbatim>\<open>next\<close>/\<^verbatim>\<open>prev\<close> cells, the list object holds \<^verbatim>\<open>head\<close>, \<^verbatim>\<open>tail\<close> and the address of its sentinel
  \<^verbatim>\<open>emptyListItem\<close>. The predicate \<open>rep\<close> relates a store to the HOL list it represents, and
  every operation is shown to implement the list operation it promises. Together they simulate
  a specification on HOL lists (\<open>list_spec\<close>), by an interpretation of the locale \<open>simulation\<close>.
\<close>

section \<open>The store\<close>

record list_item =
  item_next :: ptr
  item_prev :: ptr

record intrusive_list =
  heap :: "nat \<Rightarrow> list_item"
  head :: ptr
  tail :: ptr
  emptyListItem :: nat

definition upd_next :: "nat \<Rightarrow> ptr \<Rightarrow> intrusive_list \<Rightarrow> intrusive_list" where
  "upd_next a v s = s\<lparr>heap := (heap s)(a := (heap s a)\<lparr>item_next := v\<rparr>)\<rparr>"

definition upd_prev :: "nat \<Rightarrow> ptr \<Rightarrow> intrusive_list \<Rightarrow> intrusive_list" where
  "upd_prev a v s = s\<lparr>heap := (heap s)(a := (heap s a)\<lparr>item_prev := v\<rparr>)\<rparr>"

text \<open>Assignments through a pointer, \<^verbatim>\<open>p->next = v\<close> and \<^verbatim>\<open>p->prev = v\<close>.\<close>

definition set_next :: "ptr \<Rightarrow> ptr \<Rightarrow> intrusive_list \<Rightarrow> intrusive_list result" where
  "set_next p v s = deref p (\<lambda>a. Inr (upd_next a v s))"

definition set_prev :: "ptr \<Rightarrow> ptr \<Rightarrow> intrusive_list \<Rightarrow> intrusive_list result" where
  "set_prev p v s = deref p (\<lambda>a. Inr (upd_prev a v s))"

definition get_next :: "intrusive_list \<Rightarrow> ptr \<Rightarrow> ptr result" where
  "get_next s p = deref p (\<lambda>a. Inr (item_next (heap s a)))"

definition get_prev :: "intrusive_list \<Rightarrow> ptr \<Rightarrow> ptr result" where
  "get_prev s p = deref p (\<lambda>a. Inr (item_prev (heap s a)))"

section \<open>The operations\<close>

definition new_list :: "(nat \<Rightarrow> list_item) \<Rightarrow> nat \<Rightarrow> intrusive_list" where
  "new_list h e =
     \<lparr>heap = h(e := \<lparr>item_next = Some e, item_prev = Some e\<rparr>), head = Some e, tail = Some e,
      emptyListItem = e\<rparr>"

definition push_back :: "intrusive_list \<Rightarrow> nat \<Rightarrow> intrusive_list result" where
  "push_back s item =
     (let e = emptyListItem s;
          s = upd_next item (Some e) s;
          s = upd_prev item (tail s) s;
          s = s\<lparr>tail := Some item\<rparr>;
          s = upd_prev e (Some item) s
      in if head s = Some e
         then let s = s\<lparr>head := tail s\<rparr> in Inr (upd_next e (head s) s)
         else set_next (item_prev (heap s item)) (Some item) s)"

definition removeLastItem :: "intrusive_list \<Rightarrow> intrusive_list result" where
  "removeLastItem s =
     (let e = emptyListItem s in
      rbind (set_next (head s) nullptr s) (\<lambda>s.
      rbind (set_prev (head s) nullptr s) (\<lambda>s.
        let s = upd_next e (Some e) s;
            s = upd_prev e (Some e) s
        in Inr (s\<lparr>tail := Some e, head := Some e\<rparr>))))"

definition pop_back :: "intrusive_list \<Rightarrow> intrusive_list result" where
  "pop_back s =
     (if tail s = head s then removeLastItem s
      else let e = emptyListItem s in
       rbind (get_prev s (tail s)) (\<lambda>p.
       rbind (set_next p (Some e) s) (\<lambda>s.
       rbind (get_prev s (tail s)) (\<lambda>p.
       let s = upd_prev e p s in
       rbind (set_prev (tail s) nullptr s) (\<lambda>s.
       rbind (set_next (tail s) nullptr s) (\<lambda>s.
       Inr (s\<lparr>tail := item_prev (heap s e)\<rparr>)))))))"

definition push_front :: "intrusive_list \<Rightarrow> nat \<Rightarrow> intrusive_list result" where
  "push_front s item =
     (let e = emptyListItem s;
          s = upd_prev item (Some e) s
      in if head s \<noteq> Some e
         then let s = upd_next item (head s) s in
              rbind (set_prev (item_next (heap s item)) (Some item) s) (\<lambda>s.
              let s = upd_next e (Some item) s in
              Inr (s\<lparr>head := Some item\<rparr>))
         else let s = upd_next item (Some e) s;
                  s = s\<lparr>tail := Some item\<rparr>;
                  s = upd_prev e (Some item) s;
                  s = upd_next e (Some item) s
              in Inr (s\<lparr>head := Some item\<rparr>))"

definition pop_front :: "intrusive_list \<Rightarrow> intrusive_list result" where
  "pop_front s =
     (if tail s = head s then removeLastItem s
      else let e = emptyListItem s in
       rbind (get_next s (head s)) (\<lambda>n.
       rbind (set_prev n (Some e) s) (\<lambda>s.
       rbind (set_prev (head s) nullptr s) (\<lambda>s.
       rbind (get_next s (head s)) (\<lambda>n.
       let s = upd_next e n s in
       rbind (set_next (head s) nullptr s) (\<lambda>s.
       Inr (s\<lparr>head := item_next (heap s e)\<rparr>)))))))"

text \<open>\<^verbatim>\<open>insert(position,item)\<close>: \<open>pos\<close> is the item the iterator points to.\<close>

definition insert_before :: "intrusive_list \<Rightarrow> ptr \<Rightarrow> nat \<Rightarrow> intrusive_list result" where
  "insert_before s pos item =
     (let e = emptyListItem s in
      if head s = Some e
      then let s = s\<lparr>head := Some item, tail := Some item\<rparr>;
               s = upd_next item (Some e) s;
               s = upd_prev item (Some e) s;
               s = upd_next e (Some item) s
           in Inr (upd_prev e (Some item) s)
      else let s = upd_next item pos s in
       rbind (get_prev s pos) (\<lambda>p.
       let s = upd_prev item p s in
       rbind (set_next (item_prev (heap s item)) (Some item) s) (\<lambda>s.
       rbind (set_prev pos (Some item) s) (\<lambda>s.
       let s = (if item_prev (heap s item) = Some e then s\<lparr>head := Some item\<rparr> else s);
           s = (if item_next (heap s item) = Some e then s\<lparr>tail := Some item\<rparr> else s)
       in Inr s))))"

text \<open>\<^verbatim>\<open>erase(it)\<close> returns the iterator to the item after the erased one.\<close>

definition erase :: "intrusive_list \<Rightarrow> ptr \<Rightarrow> (intrusive_list \<times> ptr) result" where
  "erase s it =
     rbind (get_next s it) (\<lambda>n.
     rbind (get_prev s it) (\<lambda>p.
     if n = nullptr \<or> p = nullptr then Inr (s, it)
     else if it = Some (emptyListItem s) then Inr (s, it)
     else
       let result = n; e = emptyListItem s in
       rbind (set_prev n p s) (\<lambda>s.
       rbind (get_next s it) (\<lambda>n.
       rbind (get_prev s it) (\<lambda>p.
       rbind (set_next p n s) (\<lambda>s.
       rbind (set_next it nullptr s) (\<lambda>s.
       rbind (set_prev it nullptr s) (\<lambda>s.
       Inr (s\<lparr>head := item_next (heap s e), tail := item_prev (heap s e)\<rparr>, result)))))))))"

definition begin_it :: "intrusive_list \<Rightarrow> ptr" where
  "begin_it s = head s"

definition end_it :: "intrusive_list \<Rightarrow> ptr" where
  "end_it s = Some (emptyListItem s)"

definition front :: "intrusive_list \<Rightarrow> ptr" where
  "front s = head s"

definition back_item :: "intrusive_list \<Rightarrow> ptr" where
  "back_item s = tail s"

definition is_empty :: "intrusive_list \<Rightarrow> bool" where
  "is_empty s \<longleftrightarrow> head s = Some (emptyListItem s)"

abbreviation nxt :: "intrusive_list \<Rightarrow> nat \<Rightarrow> ptr" where
  "nxt s \<equiv> \<lambda>a. item_next (heap s a)"

abbreviation prv :: "intrusive_list \<Rightarrow> nat \<Rightarrow> ptr" where
  "prv s \<equiv> \<lambda>a. item_prev (heap s a)"

lemma upd_cells [simp]:
  "nxt (upd_next a v s) b = (if b = a then v else nxt s b)"
  "prv (upd_next a v s) b = prv s b"
  "prv (upd_prev a v s) b = (if b = a then v else prv s b)"
  "nxt (upd_prev a v s) b = nxt s b"
  by (simp_all add: upd_next_def upd_prev_def)

lemma upd_fields [simp]:
  "head (upd_next a v s) = head s" "tail (upd_next a v s) = tail s"
  "head (upd_prev a v s) = head s" "tail (upd_prev a v s) = tail s"
  "emptyListItem (upd_next a v s) = emptyListItem s"
  "emptyListItem (upd_prev a v s) = emptyListItem s"
  by (simp_all add: upd_next_def upd_prev_def)

lemma set_get_cells [simp]:
  "set_next (Some a) v s = Inr (upd_next a v s)" "set_prev (Some a) v s = Inr (upd_prev a v s)"
  "get_next s (Some a) = Inr (nxt s a)" "get_prev s (Some a) = Inr (prv s a)"
  "set_next nullptr v s = Inl NullDeref" "set_prev nullptr v s = Inl NullDeref"
  "get_next s nullptr = Inl NullDeref" "get_prev s nullptr = Inl NullDeref"
  by (simp_all add: set_next_def set_prev_def get_next_def get_prev_def)

section \<open>Representation\<close>

text \<open>Consecutive addresses of a list are linked in both directions.\<close>

fun linked :: "(nat \<Rightarrow> list_item) \<Rightarrow> nat list \<Rightarrow> bool" where
  "linked h (a # b # ys) \<longleftrightarrow>
     item_next (h a) = Some b \<and> item_prev (h b) = Some a \<and> linked h (b # ys)"
| "linked h _ \<longleftrightarrow> True"

lemma linked_append: "linked h (xs @ y # zs) \<longleftrightarrow> linked h (xs @ [y]) \<and> linked h (y # zs)"
  by (induction xs rule: induct_list012) auto

lemma linked_cong:
  assumes "\<And>a. a \<in> set (butlast xs) \<Longrightarrow> item_next (h' a) = item_next (h a)"
    and "\<And>a. a \<in> set (tl xs) \<Longrightarrow> item_prev (h' a) = item_prev (h a)"
  shows "linked h' xs = linked h xs"
  using assms by (induction xs rule: induct_list012) auto

text \<open>
  The list object represents \<open>xs\<close> when the sentinel, the items of \<open>xs\<close> and the sentinel
  again form a linked cycle, no address occurs twice, and \<^verbatim>\<open>head\<close> and \<^verbatim>\<open>tail\<close> point to its ends.
\<close>

definition rep :: "intrusive_list \<Rightarrow> nat list \<Rightarrow> bool" where
  "rep s xs \<longleftrightarrow>
     (let e = emptyListItem s in
      linked (heap s) (e # xs @ [e]) \<and> distinct (e # xs) \<and>
      head s = Some (hd (xs @ [e])) \<and> tail s = Some (last (e # xs)))"

lemma repI:
  assumes "linked (heap s) (e # xs @ [e])" "distinct (e # xs)" "emptyListItem s = e"
    "head s = Some (hd (xs @ [e]))" "tail s = Some (last (e # xs))"
  shows "rep s xs"
  using assms by (simp add: rep_def Let_def)

lemma repD:
  assumes "rep s xs"
  shows "linked (heap s) (emptyListItem s # xs @ [emptyListItem s])"
    "distinct (emptyListItem s # xs)"
    "head s = Some (hd (xs @ [emptyListItem s]))"
    "tail s = Some (last (emptyListItem s # xs))"
  using assms by (auto simp: rep_def Let_def)

lemma rep_new_list: "rep (new_list h e) []"
  by (rule repI [where e = e]) (simp_all add: new_list_def)

text \<open>
  Each operation is first described by the cells it leaves behind: \<open>cells s e nx pv hp tp\<close> says
  what every \<^verbatim>\<open>next\<close> and \<^verbatim>\<open>prev\<close> cell, \<^verbatim>\<open>head\<close> and \<^verbatim>\<open>tail\<close> hold. The list argument then only
  uses \<open>linked_cong\<close>.
\<close>

definition cells ::
  "intrusive_list \<Rightarrow> nat \<Rightarrow> (nat \<Rightarrow> ptr) \<Rightarrow> (nat \<Rightarrow> ptr) \<Rightarrow> ptr \<Rightarrow> ptr \<Rightarrow> bool" where
  "cells s e nx pv hp tp \<longleftrightarrow>
     emptyListItem s = e \<and> (\<forall>a. item_next (heap s a) = nx a) \<and>
     (\<forall>a. item_prev (heap s a) = pv a) \<and> head s = hp \<and> tail s = tp"

lemma linked_join:
  "us \<noteq> [] \<Longrightarrow> vs \<noteq> [] \<Longrightarrow>
     linked h (us @ vs) \<longleftrightarrow> linked h us \<and> linked h vs \<and>
       item_next (h (last us)) = Some (hd vs) \<and> item_prev (h (hd vs)) = Some (last us)"
  by (induction us rule: induct_list012) (auto simp: neq_Nil_conv)

text \<open>Where the neighbours of a position of the cycle do not occur.\<close>

lemma neighbours_notin:
  assumes "distinct (e # xs @ ys)"
  shows "last (e # xs) \<notin> set ys" "hd (ys @ [e]) \<notin> set xs"
    "last (e # xs) \<notin> set (butlast (e # xs))" "hd (ys @ [e]) \<notin> set (tl (ys @ [e]))"
proof -
  show "last (e # xs) \<notin> set ys" using assms last_in_set_Cons [of e xs] by auto
  show "hd (ys @ [e]) \<notin> set xs" using assms hd_in_set_append [of ys e] by auto
  show "last (e # xs) \<notin> set (butlast (e # xs))"
    using assms by (cases xs rule: rev_cases) auto
  show "hd (ys @ [e]) \<notin> set (tl (ys @ [e]))"
    using assms by (cases ys) auto
qed

text \<open>Changing the facing cells of the two halves, and those of an outside item, keeps both linked.\<close>

lemma linked_halves:
  assumes d: "distinct (e # xs @ ys)" and x: "x \<notin> insert e (set xs \<union> set ys)"
    and p: "p = last (e # xs)" and n: "n = hd (ys @ [e])"
    and nx: "\<And>a. a \<noteq> p \<Longrightarrow> a \<noteq> x \<Longrightarrow> item_next (h' a) = item_next (h a)"
    and pv: "\<And>a. a \<noteq> n \<Longrightarrow> a \<noteq> x \<Longrightarrow> item_prev (h' a) = item_prev (h a)"
  shows "linked h' (e # xs) = linked h (e # xs)" "linked h' (ys @ [e]) = linked h (ys @ [e])"
proof -
  note nn = neighbours_notin [OF d, folded n p]
  have "a \<noteq> p \<and> a \<noteq> x" if "a \<in> set (butlast (e # xs))" for a
    using nn(3) that x in_set_butlastD [OF that] by auto
  moreover have "a \<noteq> n \<and> a \<noteq> x" if "a \<in> set (tl (e # xs))" for a
    using nn(2) that x by auto
  ultimately show "linked h' (e # xs) = linked h (e # xs)"
    by (intro linked_cong) (simp_all add: nx pv del: butlast.simps)
  have "a \<noteq> p \<and> a \<noteq> x" if "a \<in> set (butlast (ys @ [e]))" for a
    using nn(1) that x by auto
  moreover have "a \<noteq> n \<and> a \<noteq> x" if "a \<in> set (tl (ys @ [e]))" for a
    using nn(4) that x in_set_tlD [OF that] by auto
  ultimately show "linked h' (ys @ [e]) = linked h (ys @ [e])"
    by (intro linked_cong) (simp_all add: nx pv)
qed

text \<open>A list split at a position: the two halves are linked, and so are their facing ends.\<close>

lemma rep_splitD:
  assumes "rep s (xs @ ys)"
  shows "linked (heap s) (emptyListItem s # xs)" "linked (heap s) (ys @ [emptyListItem s])"
    "nxt s (last (emptyListItem s # xs)) = Some (hd (ys @ [emptyListItem s]))"
    "prv s (hd (ys @ [emptyListItem s])) = Some (last (emptyListItem s # xs))"
  using repD(1) [OF assms]
    linked_join [of "emptyListItem s # xs" "ys @ [emptyListItem s]" "heap s"] by auto

lemma rep_endD:
  assumes "rep s xs"
  shows "nxt s (emptyListItem s) = head s" "prv s (emptyListItem s) = tail s"
  using rep_splitD(3) [of s "[]" xs] rep_splitD(4) [of s xs "[]"] repD [OF assms] assms by auto

lemma rep_joinI:
  assumes "emptyListItem s = e" "distinct (e # xs @ ys)"
    and p: "p = last (e # xs)" and n: "n = hd (ys @ [e])"
    and "linked (heap s) (e # xs)" "linked (heap s) (ys @ [e])"
    "nxt s p = Some n" "prv s n = Some p"
    "head s = Some (hd (xs @ ys @ [e]))" "tail s = Some (last (e # xs @ ys))"
  shows "rep s (xs @ ys)"
  using assms(1,2,5-) linked_join [of "e # xs" "ys @ [e]" "heap s"] unfolding p n
  by (intro repI [where e = e]) auto

lemma rep_push_front:
  assumes r: "rep s xs" and fresh: "x \<notin> insert (emptyListItem s) (set xs)"
  shows "\<exists>s'. push_front s x = Inr s' \<and> rep s' (x # xs) \<and> emptyListItem s' = emptyListItem s"
proof (cases xs)
  case Nil
  with r fresh show ?thesis
    by (auto simp: push_front_def Let_def rep_def)
next
  case (Cons y ys)
  let ?e = "emptyListItem s"
  have d: "distinct (?e # y # ys)" and l: "linked (heap s) (?e # y # ys @ [?e])"
    using repD [OF r] Cons by auto
  obtain s' where s': "push_front s x = Inr s'"
    and c: "cells s' ?e ((nxt s)(x := Some y, ?e := Some x))
      ((prv s)(x := Some ?e, y := Some x)) (Some x) (tail s)"
    using repD(3) [OF r] Cons d fresh
    by (auto simp: push_front_def Let_def cells_def)
  have "linked (heap s') (y # ys @ [?e]) = linked (heap s) (y # ys @ [?e])"
    using d fresh Cons c by (intro linked_cong) (auto simp: cells_def)
  then have "linked (heap s') (?e # (x # xs) @ [?e])"
    using l d fresh Cons c by (simp add: cells_def)
  then have "rep s' (x # xs)"
    using d fresh c Cons repD(4) [OF r] by (intro repI [where e = ?e]) (auto simp: cells_def)
  with s' c show ?thesis by (auto simp: cells_def)
qed

lemma rep_push_back:
  assumes r: "rep s xs" and fresh: "x \<notin> insert (emptyListItem s) (set xs)"
  shows "\<exists>s'. push_back s x = Inr s' \<and> rep s' (xs @ [x]) \<and> emptyListItem s' = emptyListItem s"
proof (cases xs rule: rev_cases)
  case Nil
  with r fresh show ?thesis
    by (auto simp: push_back_def Let_def rep_def)
next
  case (snoc ys y)
  let ?e = "emptyListItem s"
  have d: "distinct (?e # ys @ [y])" and l: "linked (heap s) (?e # ys @ [y])"
    and hd: "head s \<noteq> Some ?e"
    using repD(2,3) [OF r] rep_splitD(1) [of s xs "[]"] r snoc by (cases ys; auto)+
  obtain s' where s': "push_back s x = Inr s'"
    and c: "cells s' ?e ((nxt s)(x := Some ?e, y := Some x))
      ((prv s)(x := Some y, ?e := Some x)) (head s) (Some x)"
    using repD(3,4) [OF r] snoc d fresh hd
    by (auto simp: push_back_def Let_def cells_def)
  have "linked (heap s') (?e # ys @ [y]) = linked (heap s) (?e # ys @ [y])"
    using d fresh snoc c by (intro linked_cong) (auto simp: cells_def)
  then have "rep s' (xs @ [x])"
    using d fresh c snoc repD(3) [OF r] l
    by (intro rep_joinI [where e = ?e and p = y and n = x]) (auto simp: cells_def hd_append)
  with s' c show ?thesis by (auto simp: cells_def)
qed

text \<open>\<open>insert\<close> before the first item of \<open>ys\<close>, or before \<^verbatim>\<open>end()\<close> when \<open>ys\<close> is empty.\<close>

lemma rep_insert_before:
  assumes r: "rep s (xs @ ys)" and fresh: "x \<notin> insert (emptyListItem s) (set (xs @ ys))"
    and pos: "pos = Some (hd (ys @ [emptyListItem s]))"
  shows "\<exists>s'. insert_before s pos x = Inr s' \<and> rep s' (xs @ x # ys) \<and>
    emptyListItem s' = emptyListItem s"
proof (cases "xs @ ys = []")
  case True
  with r fresh show ?thesis
    by (auto simp: insert_before_def Let_def rep_def)
next
  case False
  define e where "e = emptyListItem s"
  define n where "n = hd (ys @ [e])"
  define p where "p = last (e # xs)"
  have d: "distinct (e # xs @ ys)" and hd: "head s \<noteq> Some e"
    using repD(2,3) [OF r] False by (auto simp: hd_append neq_Nil_conv e_def)
  note sp = rep_splitD [OF r, folded e_def, folded n_def p_def]
  have px: "p \<noteq> x" "n \<noteq> x" "x \<noteq> e"
    using fresh last_in_set_Cons [of e xs] hd_in_set_append [of ys e]
    by (auto simp: e_def n_def p_def)
  have p_e: "p = e \<longleftrightarrow> xs = []" using d by (cases xs rule: rev_cases) (auto simp: p_def)
  have n_e: "n = e \<longleftrightarrow> ys = []" using d by (cases ys) (auto simp: n_def)
  have pos': "pos = Some n" using pos by (simp add: n_def e_def)
  obtain s' where s': "insert_before s pos x = Inr s'"
    and c: "cells s' e ((nxt s)(x := Some n, p := Some x)) ((prv s)(x := Some p, n := Some x))
      (if xs = [] then Some x else head s) (if ys = [] then Some x else tail s)"
    using sp(3,4) hd px p_e n_e
    by (auto simp: insert_before_def Let_def cells_def pos' e_def [symmetric])
  have "linked (heap s') (e # xs) = linked (heap s) (e # xs)"
    "linked (heap s') (ys @ [e]) = linked (heap s) (ys @ [e])"
    using fresh c by (intro linked_halves [OF d _ p_def n_def, of x]; simp add: cells_def e_def)+
  then have "linked (heap s') (e # xs)" "linked (heap s') ((x # ys) @ [e])"
    using sp(1,2) c px linked_join [of "[x]" "ys @ [e]" "heap s'"]
    by (auto simp: cells_def n_def [symmetric])
  then have "rep s' (xs @ x # ys)"
    using d fresh c px repD(3,4) [OF r]
    by (intro rep_joinI [where e = e and p = p and n = x, OF _ _ p_def])
      (auto simp: cells_def e_def hd_append)
  with s' c show ?thesis by (auto simp: cells_def e_def)
qed

lemma erase_cells:
  assumes "nxt s p = Some x" "prv s x = Some p" "nxt s x = Some n" "prv s n = Some x"
    "p \<noteq> x" "n \<noteq> x" "x \<noteq> emptyListItem s"
  shows "\<exists>s'. erase s (Some x) = Inr (s', Some n) \<and>
    cells s' (emptyListItem s) ((nxt s)(p := Some n, x := nullptr))
      ((prv s)(n := Some p, x := nullptr))
      (if p = emptyListItem s then Some n else nxt s (emptyListItem s))
      (if n = emptyListItem s then Some p else prv s (emptyListItem s))"
  using assms unfolding erase_def by (auto simp: Let_def cells_def)

lemma rep_erase:
  assumes r: "rep s (xs @ x # ys)"
  shows "\<exists>s'. erase s (Some x) = Inr (s', Some (hd (ys @ [emptyListItem s]))) \<and>
    rep s' (xs @ ys) \<and> emptyListItem s' = emptyListItem s \<and>
    nxt s' x = nullptr \<and> prv s' x = nullptr"
proof -
  define e where "e = emptyListItem s"
  define n where "n = hd (ys @ [e])"
  define p where "p = last (e # xs)"
  have d: "distinct (e # xs @ ys)" and x: "x \<noteq> e" "x \<notin> set xs" "x \<notin> set ys"
    using repD(2) [OF r] by (auto simp: e_def)
  have px: "p \<noteq> x" "n \<noteq> x"
    using x last_in_set_Cons [of e xs] hd_in_set_append [of ys e] by (auto simp: n_def p_def)
  have p_e: "p = e \<longleftrightarrow> xs = []" using d by (cases xs rule: rev_cases) (auto simp: p_def)
  have n_e: "n = e \<longleftrightarrow> ys = []" using d by (cases ys) (auto simp: n_def)
  have lx: "linked (heap s) (e # xs)" "linked (heap s) (x # ys @ [e])"
    and "nxt s p = Some x" "prv s x = Some p"
    using rep_splitD [OF r, folded e_def, folded p_def] by auto
  moreover have "nxt s x = Some n" "prv s n = Some x" "linked (heap s) (ys @ [e])"
    using linked_join [of "[x]" "ys @ [e]" "heap s"] lx by (auto simp: n_def)
  ultimately have cx: "nxt s p = Some x" "prv s x = Some p" "nxt s x = Some n" "prv s n = Some x"
    "linked (heap s) (ys @ [e])" by auto
  note erase_cells [OF cx(1-4) px, folded e_def, OF x(1)]
  then obtain s' where s': "erase s (Some x) = Inr (s', Some n)"
    and c: "cells s' e ((nxt s)(p := Some n, x := nullptr)) ((prv s)(n := Some p, x := nullptr))
      (if p = e then Some n else nxt s e) (if n = e then Some p else prv s e)" by blast
  have "linked (heap s') (e # xs) = linked (heap s) (e # xs)"
    "linked (heap s') (ys @ [e]) = linked (heap s) (ys @ [e])"
    using x c by (intro linked_halves [OF d _ p_def n_def, of x]; simp add: cells_def)+
  moreover have "head s' = Some (hd (xs @ ys @ [e]))"
    using c p_e repD(3) [OF r] rep_endD(1) [OF r]
    by (cases "xs = []") (simp_all add: cells_def n_def e_def)
  moreover have "tail s' = Some (last (e # xs @ ys))"
    using c n_e repD(4) [OF r] rep_endD(2) [OF r]
    by (cases "ys = []") (simp_all add: cells_def p_def e_def)
  moreover have "nxt s' p = Some n" "prv s' n = Some p" "emptyListItem s' = e"
    using c px by (simp_all add: cells_def)
  ultimately have "rep s' (xs @ ys)"
    using lx(1) cx(5) d by (intro rep_joinI [OF _ _ p_def n_def]) simp_all
  with s' c show ?thesis by (auto simp: cells_def e_def n_def)
qed

lemma rep_removeLastItem:
  assumes "rep s xs" "tail s = head s"
  shows "\<exists>s'. removeLastItem s = Inr s' \<and> rep s' [] \<and> emptyListItem s' = emptyListItem s"
  using repD(3) [OF assms(1)] by (auto simp: removeLastItem_def Let_def intro!: repI)

lemma rep_is_empty:
  assumes "rep s xs"
  shows "is_empty s \<longleftrightarrow> xs = []"
  using repD [OF assms] by (cases xs) (auto simp: is_empty_def)

lemma rep_tail_eq_head:
  assumes "rep s xs"
  shows "tail s = head s \<longleftrightarrow> length xs \<le> 1"
  using repD [OF assms] by (cases xs; cases "tl xs" rule: rev_cases) auto

lemma rep_pop_front:
  assumes r: "rep s xs"
  shows "\<exists>s'. pop_front s = Inr s' \<and> rep s' (tl xs) \<and> emptyListItem s' = emptyListItem s"
proof (cases "length xs \<le> 1")
  case True
  then have "tl xs = []" by (cases xs) auto
  then show ?thesis
    using rep_removeLastItem [OF r] rep_tail_eq_head [OF r] True by (simp add: pop_front_def)
next
  case False
  then obtain x y ys where xs: "xs = x # y # ys" by (cases xs; cases "tl xs") auto
  let ?e = "emptyListItem s"
  have d: "distinct (?e # x # y # ys)" and l: "linked (heap s) (?e # x # y # ys @ [?e])"
    using repD(1,2) [OF r] xs by auto
  have th: "tail s \<noteq> head s" using rep_tail_eq_head [OF r] False by simp
  have "\<exists>s'. pop_front s = Inr s' \<and> cells s' ?e ((nxt s)(?e := Some y, x := nullptr))
    ((prv s)(y := Some ?e, x := nullptr)) (Some y) (tail s)"
    using th repD(3) [OF r] d l xs by (auto simp: pop_front_def Let_def cells_def)
  then obtain s' where s': "pop_front s = Inr s'"
    and c: "cells s' ?e ((nxt s)(?e := Some y, x := nullptr))
      ((prv s)(y := Some ?e, x := nullptr)) (Some y) (tail s)" by blast
  have "linked (heap s') (y # ys @ [?e]) = linked (heap s) (y # ys @ [?e])"
    using d c by (intro linked_cong) (auto simp: cells_def)
  then have "rep s' (tl xs)"
    using d c l xs repD(4) [OF r] by (intro repI [where e = ?e]) (auto simp: cells_def)
  with s' c show ?thesis by (auto simp: cells_def)
qed

lemma rep_pop_back:
  assumes r: "rep s xs"
  shows "\<exists>s'. pop_back s = Inr s' \<and> rep s' (butlast xs) \<and> emptyListItem s' = emptyListItem s"
proof (cases "length xs \<le> 1")
  case True
  then have "butlast xs = []" by (cases xs) auto
  then show ?thesis
    using rep_removeLastItem [OF r] rep_tail_eq_head [OF r] True by (simp add: pop_back_def)
next
  case False
  then obtain ys y x where xs: "xs = ys @ [y, x]"
    by (cases xs rule: rev_cases; cases "butlast xs" rule: rev_cases) auto
  let ?e = "emptyListItem s"
  have d: "distinct (?e # ys @ [y, x])" using repD(2) [OF r] xs by auto
  have l: "linked (heap s) (?e # ys @ [y])" "prv s x = Some y"
    using rep_splitD(1,4) [of s "ys @ [y]" "[x]"] r xs by auto
  have th: "tail s \<noteq> head s" using rep_tail_eq_head [OF r] False by simp
  have "\<exists>s'. pop_back s = Inr s' \<and> cells s' ?e ((nxt s)(y := Some ?e, x := nullptr))
    ((prv s)(?e := Some y, x := nullptr)) (head s) (Some y)"
    using th repD(4) [OF r] d l xs by (auto simp: pop_back_def Let_def cells_def)
  then obtain s' where s': "pop_back s = Inr s'"
    and c: "cells s' ?e ((nxt s)(y := Some ?e, x := nullptr))
      ((prv s)(?e := Some y, x := nullptr)) (head s) (Some y)" by blast
  have "linked (heap s') (?e # ys @ [y]) = linked (heap s) (?e # ys @ [y])"
    using d c by (intro linked_cong) (auto simp: cells_def)
  then have "rep s' ((ys @ [y]) @ [])"
    using d c l xs repD(3) [OF r]
    by (intro rep_joinI [where e = ?e and p = y and n = ?e]) (auto simp: cells_def hd_append)
  with s' c xs show ?thesis by (auto simp: cells_def butlast_append)
qed

text \<open>Erasing \<^verbatim>\<open>end()\<close>, or an item whose cells were cleared by an earlier removal, does nothing.\<close>

lemma erase_noop:
  assumes "rep s xs"
  shows "erase s (end_it s) = Inr (s, end_it s)"
    and "nxt s x = nullptr \<Longrightarrow> erase s (Some x) = Inr (s, Some x)"
  using rep_endD [OF assms] repD(3,4) [OF assms] by (auto simp: erase_def end_it_def)

section \<open>The contract\<close>

datatype list_req = PushBack nat | PushFront nat | PopBack | PopFront | InsertBefore nat nat
  | Erase nat | Front | Back | Empty

datatype list_out = Void | It ptr | Truth bool

fun list_impl :: "intrusive_list \<Rightarrow> list_req \<Rightarrow> (intrusive_list \<times> list_out) result" where
  "list_impl s (PushBack x) = rbind (push_back s x) (\<lambda>s. Inr (s, Void))"
| "list_impl s (PushFront x) = rbind (push_front s x) (\<lambda>s. Inr (s, Void))"
| "list_impl s PopBack = rbind (pop_back s) (\<lambda>s. Inr (s, Void))"
| "list_impl s PopFront = rbind (pop_front s) (\<lambda>s. Inr (s, Void))"
| "list_impl s (InsertBefore p x) = rbind (insert_before s (Some p) x) (\<lambda>s. Inr (s, Void))"
| "list_impl s (Erase x) = rbind (erase s (Some x)) (\<lambda>(s, it). Inr (s, It it))"
| "list_impl s Front = Inr (s, It (front s))"
| "list_impl s Back = Inr (s, It (back_item s))"
| "list_impl s Empty = Inr (s, Truth (is_empty s))"

text \<open>
  The specification, for a list whose sentinel is at \<open>e\<close>: an item may be put in the list only
  when it is not in it, a position or an item to erase is in the list or is \<^verbatim>\<open>end()\<close>.
\<close>

fun list_spec :: "nat \<Rightarrow> nat list \<Rightarrow> list_req \<Rightarrow> (nat list \<times> list_out) option" where
  "list_spec e xs (PushBack x) =
     (if x \<in> insert e (set xs) then None else Some (xs @ [x], Void))"
| "list_spec e xs (PushFront x) =
     (if x \<in> insert e (set xs) then None else Some (x # xs, Void))"
| "list_spec e xs PopBack = Some (butlast xs, Void)"
| "list_spec e xs PopFront = Some (tl xs, Void)"
| "list_spec e xs (InsertBefore p x) =
     (if x \<in> insert e (set xs) \<or> p \<notin> insert e (set xs) then None
      else Some (takeWhile (\<lambda>y. y \<noteq> p) xs @ x # dropWhile (\<lambda>y. y \<noteq> p) xs, Void))"
| "list_spec e xs (Erase x) =
     (if x = e then Some (xs, It (Some e))
      else if x \<in> set xs
      then Some (remove1 x xs, It (Some (hd (tl (dropWhile (\<lambda>y. y \<noteq> x) xs) @ [e]))))
      else None)"
| "list_spec e xs Front = Some (xs, It (Some (hd (xs @ [e]))))"
| "list_spec e xs Back = Some (xs, It (Some (last (e # xs))))"
| "list_spec e xs Empty = Some (xs, Truth (xs = []))"

lemma hd_dropWhile_neq:
  "p \<in> insert e (set xs) \<Longrightarrow> e \<notin> set xs \<Longrightarrow> hd (dropWhile (\<lambda>y. y \<noteq> p) xs @ [e]) = p"
  by (induction xs) auto

lemma split_at_item:
  assumes "x \<in> set xs"
  obtains ys zs where "xs = ys @ x # zs" "x \<notin> set ys"
    "tl (dropWhile (\<lambda>y. y \<noteq> x) xs) = zs" "remove1 x xs = ys @ zs"
proof -
  from split_list_first [OF assms] obtain ys zs where "xs = ys @ x # zs" "x \<notin> set ys" by blast
  moreover from this have "dropWhile (\<lambda>y. y \<noteq> x) xs = x # zs" by (induction ys arbitrary: xs) auto
  ultimately show thesis by (intro that [of ys zs]) (auto simp: remove1_append)
qed

lemma list_impl_step:
  assumes r: "rep s xs \<and> emptyListItem s = e" and sp: "list_spec e xs q = Some (xs', out)"
  shows "\<exists>s'. list_impl s q = Inr (s', out) \<and> rep s' xs' \<and> emptyListItem s' = e"
proof (cases q)
  case (PushBack x)
  with rep_push_back [of s xs x] r sp show ?thesis by (auto split: if_splits)
next
  case (PushFront x)
  with rep_push_front [of s xs x] r sp show ?thesis by (auto split: if_splits)
next
  case PopBack
  with rep_pop_back [of s xs] r sp show ?thesis by auto
next
  case PopFront
  with rep_pop_front [of s xs] r sp show ?thesis by auto
next
  case (InsertBefore p x)
  let ?ys = "takeWhile (\<lambda>y. y \<noteq> p) xs" and ?zs = "dropWhile (\<lambda>y. y \<noteq> p) xs"
  have "Some p = Some (hd (?zs @ [emptyListItem s]))"
    using InsertBefore r sp repD(2) hd_dropWhile_neq [of p e xs] by (auto split: if_splits)
  with rep_insert_before [of s ?ys ?zs x "Some p"] InsertBefore r sp show ?thesis
    by (auto simp del: rbind.simps simp: rbind_Inr_iff split: if_splits dest!: set_takeWhileD)
next
  case (Erase x)
  show ?thesis
  proof (cases "x = e")
    case True
    then show ?thesis using erase_noop(1) [of s xs] Erase r sp by (auto simp: end_it_def)
  next
    case False
    with Erase sp have "x \<in> set xs" by (auto split: if_splits)
    then obtain ys zs where "xs = ys @ x # zs" "tl (dropWhile (\<lambda>y. y \<noteq> x) xs) = zs"
      "remove1 x xs = ys @ zs" by (rule split_at_item)
    with rep_erase [of s ys x zs] Erase r sp False show ?thesis by (auto split: if_splits)
  qed
next
  case Empty
  with rep_is_empty [of s xs] r sp show ?thesis by auto
qed (use r sp repD(3,4) [of s xs] in \<open>auto simp: front_def back_item_def\<close>)

interpretation intrusive: simulation "\<lambda>s xs. rep s xs \<and> emptyListItem s = e" list_impl "list_spec e"
  for e
  by unfold_locales (rule list_impl_step)

text \<open>A second erase of the same item is a no-op, because the first reset its link cells.\<close>

lemma double_erase:
  assumes "rep s (xs @ x # ys)"
  shows "\<exists>s' it. erase s (Some x) = Inr (s', it) \<and> erase s' (Some x) = Inr (s', Some x)"
  using rep_erase [OF assms] erase_noop(2) by blast

section \<open>Properties\<close>

text \<open>C36. Starting from a freshly constructed IntrusiveList, every sequence of push_back,
  push_front, pop_back, pop_front, insert, erase, front, back and empty calls that keeps the
  contract (an item is inserted only while it is not in the list, a position or erased item is in
  the list or is end()) runs without dereferencing a null pointer, returns what the same calls
  return on a plain sequence, and leaves a well-formed doubly linked list that represents the
  resulting sequence.\<close>

theorem intrusive_list_refines_sequence:
  assumes "run_spec (list_spec e) [] qs = Some (xs, outs)"
  shows "\<exists>s. run_impl list_impl (new_list h e) qs = Inr (s, outs) \<and> rep s xs"
  using intrusive.run [where e = e and s = "new_list h e" and a = "[]", OF _ assms] rep_new_list [of h e]
  by (auto simp: new_list_def)

theorem intrusive_list_refines_sequence_witness:
  "\<exists>s. run_impl list_impl (new_list (\<lambda>_. \<lparr>item_next = None, item_prev = None\<rparr>) 0)
     [PushBack 1, PushFront 2, InsertBefore 1 3, Erase 2, PopBack, Front, Erase 0] =
     Inr (s, [Void, Void, Void, It (Some 3), Void, It (Some 3), It (Some 0)]) \<and> rep s [3]"
  by (rule intrusive_list_refines_sequence) simp

end
