(* ===== verification/Ref_Ptr.thy ===== *)
theory Ref_Ptr
  imports Miosix_Prelude
begin

text \<open>
  \<^verbatim>\<open>intrusive_ref_ptr\<close> (\<^verbatim>\<open>kernel/intrusive.h\<close>), the reference counted pointers that own files, filesystems and devices, with
  the atomic operations they are made of (\<^verbatim>\<open>interfaces/atomic_ops.h\<close>). The pointers are places that hold an object: shared
  variables, which several threads use through \<^verbatim>\<open>atomic_load\<close> and \<^verbatim>\<open>atomic_exchange\<close>, and the local variables of a thread. An
  operation is cut after each access to a reference count, so that the steps of all threads interleave there;
  \<open>rp_pc\<close> is where a thread is in an operation.
\<close>

section \<open>Pointers and reference counts\<close>

datatype place = Shared nat | Local nat nat | Temp nat

datatype then_do = Reset | Assign nat | AssignRaw nat

datatype rp_pc = Idle | Copied nat | Dropped nat bool then_do | Swapping nat nat

record ref_state =
  referenceCount :: "nat \<Rightarrow> int"
  object :: "place \<Rightarrow> nat option"
  rp_pc :: "nat \<Rightarrow> rp_pc"
  created :: "nat set"
  deleted :: "nat list"

definition atomicAdd :: "nat \<Rightarrow> int \<Rightarrow> ref_state \<Rightarrow> ref_state" where
  "atomicAdd x incr s = s\<lparr>referenceCount := (referenceCount s)(x := referenceCount s x + incr)\<rparr>"

definition atomicAddExchange :: "nat \<Rightarrow> int \<Rightarrow> ref_state \<Rightarrow> ref_state \<times> int" where
  "atomicAddExchange x incr s = (atomicAdd x incr s, referenceCount s x)"

definition atomicSwap :: "place \<Rightarrow> nat option \<Rightarrow> ref_state \<Rightarrow> ref_state \<times> nat option" where
  "atomicSwap p v s = (s\<lparr>object := (object s)(p := v)\<rparr>, object s p)"

definition atomicFetchAndIncrement :: "place \<Rightarrow> int \<Rightarrow> ref_state \<Rightarrow> ref_state \<times> nat option" where
  "atomicFetchAndIncrement p incr s =
     (case object s p of None \<Rightarrow> (s, None) | Some x \<Rightarrow> (atomicAdd x incr s, Some x))"

definition set_object :: "place \<Rightarrow> nat option \<Rightarrow> ref_state \<Rightarrow> ref_state" where
  "set_object p v s = s\<lparr>object := (object s)(p := v)\<rparr>"

definition set_pc :: "nat \<Rightarrow> rp_pc \<Rightarrow> ref_state \<Rightarrow> ref_state" where
  "set_pc t c s = s\<lparr>rp_pc := (rp_pc s)(t := c)\<rparr>"

definition incrementRefCount :: "place \<Rightarrow> ref_state \<Rightarrow> ref_state" where
  "incrementRefCount p s = (case object s p of None \<Rightarrow> s | Some x \<Rightarrow> atomicAdd x 1 s)"

definition decrementRefCount :: "place \<Rightarrow> ref_state \<Rightarrow> ref_state \<times> bool" where
  "decrementRefCount p s =
     (case object s p of
        None \<Rightarrow> (s, False)
      | Some x \<Rightarrow> let (s, old) = atomicAddExchange x (-1) s in (s, old = 1))"

definition delete_object :: "place \<Rightarrow> ref_state \<Rightarrow> ref_state" where
  "delete_object p s = (case object s p of None \<Rightarrow> s | Some x \<Rightarrow> s\<lparr>deleted := deleted s @ [x]\<rparr>)"

definition use_count :: "place \<Rightarrow> ref_state \<Rightarrow> int" where
  "use_count p s = (case object s p of None \<Rightarrow> 0 | Some x \<Rightarrow> referenceCount s x)"

section \<open>The operations, in parts\<close>

text \<open>Construction from a new object, and the copy constructor: the pointer is stored, then the count incremented.\<close>

definition construct_begin :: "nat \<Rightarrow> nat \<Rightarrow> nat \<Rightarrow> ref_state \<Rightarrow> ref_state" where
  "construct_begin t i x s = set_pc t (Copied i) (set_object (Local t i) (Some x) (s\<lparr>created := insert x (created s)\<rparr>))"

text \<open>\<^verbatim>\<open>shared_from_this\<close>: a pointer is constructed from an object that has pointers already.\<close>

definition shared_from_this :: "nat \<Rightarrow> nat \<Rightarrow> nat \<Rightarrow> ref_state \<Rightarrow> ref_state" where
  "shared_from_this t i x s = construct_begin t i x s"

definition copy_begin :: "nat \<Rightarrow> nat \<Rightarrow> nat \<Rightarrow> ref_state \<Rightarrow> ref_state" where
  "copy_begin t i j s = set_pc t (Copied i) (set_object (Local t i) (object s (Local t j)) s)"

definition copy_end :: "nat \<Rightarrow> nat \<Rightarrow> ref_state \<Rightarrow> ref_state" where
  "copy_end t i s = set_pc t Idle (incrementRefCount (Local t i) s)"

text \<open>\<^verbatim>\<open>reset\<close>, which is also the destructor, and the two assignments: the count is decremented first.\<close>

definition drop_begin :: "nat \<Rightarrow> nat \<Rightarrow> then_do \<Rightarrow> ref_state \<Rightarrow> ref_state" where
  "drop_begin t i k s = (case decrementRefCount (Local t i) s of (s, del) \<Rightarrow> set_pc t (Dropped i del k) s)"

definition reset_begin :: "nat \<Rightarrow> nat \<Rightarrow> ref_state \<Rightarrow> ref_state" where
  "reset_begin t i s = drop_begin t i Reset s"

definition assign_begin :: "nat \<Rightarrow> nat \<Rightarrow> nat \<Rightarrow> ref_state \<Rightarrow> ref_state" where
  "assign_begin t i j s =
     (if object s (Local t i) = object s (Local t j) then s else drop_begin t i (Assign j) s)"

definition assign_raw_begin :: "nat \<Rightarrow> nat \<Rightarrow> nat \<Rightarrow> ref_state \<Rightarrow> ref_state" where
  "assign_raw_begin t i x s = drop_begin t i (AssignRaw x) (s\<lparr>created := insert x (created s)\<rparr>)"

definition drop_end :: "nat \<Rightarrow> nat \<Rightarrow> bool \<Rightarrow> then_do \<Rightarrow> ref_state \<Rightarrow> ref_state" where
  "drop_end t i del k s =
     (let s = (if del then delete_object (Local t i) s else s) in
      case k of
        Reset \<Rightarrow> set_pc t Idle (set_object (Local t i) None s)
      | Assign j \<Rightarrow> set_pc t (Copied i) (set_object (Local t i) (object s (Local t j)) s)
      | AssignRaw x \<Rightarrow> set_pc t (Copied i) (set_object (Local t i) (Some x) s))"

definition swap_ptr :: "nat \<Rightarrow> nat \<Rightarrow> nat \<Rightarrow> ref_state \<Rightarrow> ref_state" where
  "swap_ptr t i j s =
     set_object (Local t i) (object s (Local t j)) (set_object (Local t j) (object s (Local t i)) s)"

text \<open>
  \<^verbatim>\<open>atomic_load\<close> of a shared pointer into a new local one. \<^verbatim>\<open>atomic_exchange\<close> increments the count of the new object, which
  \<open>Temp t\<close> holds meanwhile, then swaps it with the shared pointer; the old object is in the new local pointer.\<close>

definition atomic_load :: "nat \<Rightarrow> nat \<Rightarrow> nat \<Rightarrow> ref_state \<Rightarrow> ref_state" where
  "atomic_load t i sh s =
     (case atomicFetchAndIncrement (Shared sh) 1 s of (s, x) \<Rightarrow> set_object (Local t i) x s)"

definition atomic_exchange_begin :: "nat \<Rightarrow> nat \<Rightarrow> nat \<Rightarrow> nat \<Rightarrow> ref_state \<Rightarrow> ref_state" where
  "atomic_exchange_begin t sh i j s =
     set_pc t (Swapping sh j) (incrementRefCount (Temp t) (set_object (Temp t) (object s (Local t i)) s))"

definition atomic_exchange_end :: "nat \<Rightarrow> nat \<Rightarrow> nat \<Rightarrow> ref_state \<Rightarrow> ref_state" where
  "atomic_exchange_end t sh j s =
     (case atomicSwap (Shared sh) (object s (Temp t)) s of (s, old) \<Rightarrow>
        set_pc t Idle (set_object (Local t j) old (set_object (Temp t) None s)))"

text \<open>
  Any thread may start an operation when it is in none, with results in pointers that hold nothing, and go on with
  the one it is in. A raw pointer is that of a new object, or of one that the thread holds in a local pointer, as when \<open>shared_from_this\<close>
  is called through it; one that is assigned is not of the object the pointer assigned to already has.\<close>

inductive rp_step :: "ref_state \<Rightarrow> ref_state \<Rightarrow> bool" where
  construct: "rp_pc s t = Idle \<Longrightarrow> object s (Local t i) = None \<Longrightarrow> x \<notin> created s \<Longrightarrow> rp_step s (construct_begin t i x s)"
| copy: "rp_pc s t = Idle \<Longrightarrow> object s (Local t i) = None \<Longrightarrow> i \<noteq> j \<Longrightarrow> rp_step s (copy_begin t i j s)"
| copy_end: "rp_pc s t = Copied i \<Longrightarrow> rp_step s (copy_end t i s)"
| reset: "rp_pc s t = Idle \<Longrightarrow> rp_step s (reset_begin t i s)"
| assign: "rp_pc s t = Idle \<Longrightarrow> rp_step s (assign_begin t i j s)"
| shared: "rp_pc s t = Idle \<Longrightarrow> object s (Local t i) = None \<Longrightarrow> object s (Local t j) = Some x \<Longrightarrow> rp_step s (shared_from_this t i x s)"
| assign_raw: "rp_pc s t = Idle \<Longrightarrow> x \<notin> created s \<Longrightarrow> rp_step s (assign_raw_begin t i x s)"
| assign_held: "rp_pc s t = Idle \<Longrightarrow> object s (Local t j) = Some x \<Longrightarrow> object s (Local t i) \<noteq> Some x \<Longrightarrow>
    rp_step s (assign_raw_begin t i x s)"
| drop_end: "rp_pc s t = Dropped i del k \<Longrightarrow> rp_step s (drop_end t i del k s)"
| swap: "rp_pc s t = Idle \<Longrightarrow> rp_step s (swap_ptr t i j s)"
| load: "rp_pc s t = Idle \<Longrightarrow> object s (Local t i) = None \<Longrightarrow> rp_step s (atomic_load t i sh s)"
| exchange: "rp_pc s t = Idle \<Longrightarrow> object s (Local t j) = None \<Longrightarrow> rp_step s (atomic_exchange_begin t sh i j s)"
| exchange_end: "rp_pc s t = Swapping sh j \<Longrightarrow> rp_step s (atomic_exchange_end t sh j s)"

definition ref_init :: ref_state where
  "ref_init = \<lparr>referenceCount = (\<lambda>_. 0), object = (\<lambda>_. None), rp_pc = (\<lambda>_. Idle), created = {}, deleted = []\<rparr>"

lemmas rp_ops = construct_begin_def copy_begin_def copy_end_def drop_begin_def reset_begin_def assign_begin_def
  assign_raw_begin_def drop_end_def swap_ptr_def atomic_load_def atomic_exchange_begin_def atomic_exchange_end_def
  incrementRefCount_def decrementRefCount_def delete_object_def atomicAdd_def atomicAddExchange_def atomicSwap_def
  atomicFetchAndIncrement_def set_object_def set_pc_def

section \<open>The invariant\<close>

text \<open>The pointers that the counts count: not one that was stored but not yet counted, or no longer.\<close>

fun busy :: "rp_pc \<Rightarrow> nat option" where
  "busy (Copied i) = Some i"
| "busy (Dropped i b k) = Some i"
| "busy _ = None"

fun uncounted :: "ref_state \<Rightarrow> place \<Rightarrow> bool" where
  "uncounted s (Local t i) \<longleftrightarrow> busy (rp_pc s t) = Some i"
| "uncounted s _ \<longleftrightarrow> False"

definition counted :: "ref_state \<Rightarrow> place \<Rightarrow> nat option" where
  "counted s p = (if uncounted s p then None else object s p)"

definition refs :: "ref_state \<Rightarrow> nat \<Rightarrow> place set" where
  "refs s x = {p. counted s p = Some x}"

definition alive :: "ref_state \<Rightarrow> nat \<Rightarrow> bool" where
  "alive s x \<longleftrightarrow> x \<in> created s \<and> x \<notin> set (deleted s)"

text \<open>The thread that has an object to itself: a new one, or one it is about to delete.\<close>

definition pending :: "ref_state \<Rightarrow> nat \<Rightarrow> nat \<Rightarrow> bool" where
  "pending s t x \<longleftrightarrow>
     (case rp_pc s t of
        Copied i \<Rightarrow> object s (Local t i) = Some x \<and> (\<forall>j. j \<noteq> i \<longrightarrow> object s (Local t j) \<noteq> Some x)
      | Dropped i b k \<Rightarrow> b \<and> object s (Local t i) = Some x \<or> k = AssignRaw x \<and> (\<forall>j. j \<noteq> i \<longrightarrow> object s (Local t j) \<noteq> Some x)
      | _ \<Rightarrow> False)"

definition pc_ok :: "ref_state \<Rightarrow> nat \<Rightarrow> bool" where
  "pc_ok s t \<longleftrightarrow>
     (case rp_pc s t of
        Dropped i b k \<Rightarrow> object s (Temp t) = None \<and> (b \<longrightarrow> object s (Local t i) \<noteq> None)
          \<and> (\<forall>j. k = Assign j \<longrightarrow> j \<noteq> i) \<and> (\<forall>x. k = AssignRaw x \<longrightarrow> object s (Local t i) \<noteq> Some x)
      | Swapping sh j \<Rightarrow> object s (Local t j) = None
      | _ \<Rightarrow> object s (Temp t) = None)"

definition rp_inv :: "ref_state \<Rightarrow> bool" where
  "rp_inv s \<longleftrightarrow>
     finite {p. object s p \<noteq> None}
   \<and> (\<forall>x. referenceCount s x = int (card (refs s x)))
   \<and> (\<forall>x. refs s x \<noteq> {} \<longrightarrow> alive s x)
   \<and> distinct (deleted s) \<and> set (deleted s) \<subseteq> created s
   \<and> (\<forall>t x. pending s t x \<longrightarrow> alive s x \<and> refs s x = {})
   \<and> (\<forall>t u x. pending s t x \<longrightarrow> pending s u x \<longrightarrow> t = u)
   \<and> (\<forall>x. alive s x \<longrightarrow> refs s x = {} \<longrightarrow> (\<exists>t. pending s t x))
   \<and> (\<forall>t. pc_ok s t)"

lemma rp_invD:
  assumes "rp_inv s"
  shows "finite {p. object s p \<noteq> None}" "referenceCount s x = int (card (refs s x))" "refs s x \<noteq> {} \<Longrightarrow> alive s x"
    "distinct (deleted s)" "set (deleted s) \<subseteq> created s"
    "pending s t x \<Longrightarrow> alive s x" "pending s t x \<Longrightarrow> refs s x = {}" "pending s t x \<Longrightarrow> pending s u x \<Longrightarrow> t = u"
    "alive s x \<Longrightarrow> refs s x = {} \<Longrightarrow> \<exists>t. pending s t x" "pc_ok s t"
  using assms unfolding rp_inv_def by blast+

lemma finite_refs: "rp_inv s \<Longrightarrow> finite (refs s x)"
  by (rule finite_subset [OF _ rp_invD(1)]) (auto simp: refs_def counted_def split: if_splits)

lemma refs_upd:
  "counted s' = (counted s)(p := v) \<Longrightarrow> refs s' x = (if v = Some x then insert p (refs s x) else refs s x - {p})"
  by (auto simp: refs_def)

lemma refs_same: "counted s' = counted s \<Longrightarrow> refs s' = refs s"
  by (auto simp: refs_def fun_eq_iff)

lemma in_refs: "object s p = Some x \<Longrightarrow> \<not> uncounted s p \<Longrightarrow> p \<in> refs s x"
  by (simp add: refs_def counted_def)

text \<open>
  A step of a thread touches its own program counter and local pointers, and shared ones: what is left to show of the
  invariant is about that thread and about the counts.\<close>

definition own_step :: "nat \<Rightarrow> ref_state \<Rightarrow> ref_state \<Rightarrow> bool" where
  "own_step t s s' \<longleftrightarrow> (\<forall>u. u \<noteq> t \<longrightarrow> rp_pc s' u = rp_pc s u \<and> object s' (Temp u) = object s (Temp u)
     \<and> (\<forall>i. object s' (Local u i) = object s (Local u i)))"

lemma own_step_other: "own_step t s s' \<Longrightarrow> u \<noteq> t \<Longrightarrow> pending s' u x = pending s u x \<and> pc_ok s' u = pc_ok s u"
  by (simp add: own_step_def pending_def pc_ok_def split: rp_pc.split)

lemma rp_inv_step:
  assumes inv: "rp_inv s" and own: "own_step t s s'"
    and fin: "finite {p. object s' p \<noteq> None}"
    and cnt: "\<And>x. referenceCount s' x = int (card (refs s' x))"
    and al: "\<And>x. refs s' x \<noteq> {} \<Longrightarrow> alive s' x"
    and del: "distinct (deleted s')" "set (deleted s') \<subseteq> created s'"
    and mine: "\<And>x. pending s' t x \<Longrightarrow> alive s' x \<and> refs s' x = {} \<and> (\<forall>u. u \<noteq> t \<longrightarrow> \<not> pending s u x)"
    and others: "\<And>u x. u \<noteq> t \<Longrightarrow> pending s u x \<Longrightarrow> alive s' x \<and> refs s' x = {}"
    and leak: "\<And>x. alive s' x \<Longrightarrow> refs s' x = {} \<Longrightarrow> pending s' t x \<or> (\<exists>u. u \<noteq> t \<and> pending s u x)"
    and pc: "pc_ok s' t"
  shows "rp_inv s'"
proof -
  note o = own_step_other [OF own]
  have "alive s' x \<and> refs s' x = {}" if "pending s' u x" for u x
    using that mine [of x] others [of u x] o [of u x] by (cases "u = t") blast+
  moreover have "u = v" if "pending s' u x" "pending s' v x" for u v x
    using that mine [of x] o [of u x] o [of v x] rp_invD(8) [OF inv, of u x v] by (cases "u = t"; cases "v = t") blast+
  moreover have "\<exists>u. pending s' u x" if "alive s' x" "refs s' x = {}" for x using leak [OF that] o by blast
  moreover have "pc_ok s' u" for u using pc o [of u] rp_invD(10) [OF inv, of u] by (cases "u = t") blast+
  ultimately show ?thesis unfolding rp_inv_def using fin cnt al del by blast
qed

text \<open>Steps that leave the counted pointers alone, acquire one and release one.\<close>

lemma finite_change:
  assumes "rp_inv s" "finite A" "\<And>p. p \<notin> A \<Longrightarrow> object s' p = object s p"
  shows "finite {p. object s' p \<noteq> None}"
proof (rule finite_subset)
  show "{p. object s' p \<noteq> None} \<subseteq> A \<union> {p. object s p \<noteq> None}" using assms(3) by force
  show "finite (A \<union> {p. object s p \<noteq> None})" using assms(2) rp_invD(1) [OF assms(1)] by (rule finite_UnI)
qed

lemma card_acquire:
  assumes "rp_inv s" "counted s' = (counted s)(p := Some x)" "counted s p = None"
    "referenceCount s' = (referenceCount s)(x := referenceCount s x + 1)"
  shows "referenceCount s' y = int (card (refs s' y))"
proof -
  have "p \<notin> refs s y" using assms(3) by (simp add: refs_def)
  then show ?thesis using finite_refs [OF assms(1), of y] rp_invD(2) [OF assms(1), of y] assms(4)
    by (cases "y = x") (simp_all add: refs_upd [OF assms(2)])
qed

lemma card_release:
  assumes "rp_inv s" "counted s' = (counted s)(p := None)" "counted s p = Some x"
    "referenceCount s' = (referenceCount s)(x := referenceCount s x - 1)"
  shows "referenceCount s' y = int (card (refs s' y))"
proof -
  have p: "p \<in> refs s z \<longleftrightarrow> z = x" for z using assms(3) by (auto simp: refs_def)
  have "refs s' y = refs s y - {p}" by (simp add: refs_upd [OF assms(2)])
  moreover have "card (refs s x - {p}) = card (refs s x) - 1" "card (refs s x) > 0"
    using p finite_refs [OF assms(1), of x] by (auto simp: card_gt_0_iff)
  ultimately show ?thesis using p rp_invD(2) [OF assms(1), of y] assms(4) by (cases "y = x") auto
qed

lemma pending_idle [simp]: "rp_pc s t = Idle \<Longrightarrow> \<not> pending s t x" "rp_pc s t = Swapping a b \<Longrightarrow> \<not> pending s t x"
  by (simp_all add: pending_def)

lemma pc_ok_idle: "rp_inv s \<Longrightarrow> rp_pc s t = Idle \<Longrightarrow> object s (Temp t) = None"
  using rp_invD(10) [of s t] by (simp add: pc_ok_def)

section \<open>Every step keeps the invariant\<close>

lemma construct_inv:
  assumes inv: "rp_inv s" and g: "rp_pc s t = Idle" "object s (Local t i) = None" "x \<notin> created s"
  shows "rp_inv (construct_begin t i x s)" (is "rp_inv ?s")
proof (rule rp_inv_step [OF inv, of t])
  have c: "counted ?s = counted s"
  proof
    fix p show "counted ?s p = counted s p" using g by (cases p) (auto simp: rp_ops counted_def)
  qed
  note r = refs_same [OF c]
  have al: "alive ?s y \<longleftrightarrow> y = x \<or> alive s y" for y
    using g(3) rp_invD(5) [OF inv] by (auto simp: alive_def construct_begin_def set_pc_def set_object_def)
  have rx: "refs s x = {}" using rp_invD(3) [OF inv, of x] g(3) by (auto simp: alive_def)
  show "own_step t s ?s" by (simp add: own_step_def rp_ops)
  show "finite {p. object ?s p \<noteq> None}" by (rule finite_change [OF inv, of "{Local t i}"]) (simp_all add: rp_ops)
  show "referenceCount ?s y = int (card (refs ?s y))" for y using rp_invD(2) [OF inv] r by (simp add: rp_ops)
  show "alive ?s y" if "refs ?s y \<noteq> {}" for y using rp_invD(3) [OF inv, of y] that r al by simp
  show "distinct (deleted ?s)" "set (deleted ?s) \<subseteq> created ?s" using rp_invD(4,5) [OF inv] by (auto simp: rp_ops)
  show "alive ?s y \<and> refs ?s y = {} \<and> (\<forall>u. u \<noteq> t \<longrightarrow> \<not> pending s u y)" if "pending ?s t y" for y
  proof -
    have "y = x" using that by (simp add: pending_def rp_ops)
    then show ?thesis using al r rx rp_invD(6) [OF inv, of _ x] g(3) by (auto simp: alive_def)
  qed
  show "alive ?s y \<and> refs ?s y = {}" if "pending s u y" for u y using that rp_invD(6,7) [OF inv] r al by metis
  show "pending ?s t y \<or> (\<exists>u. u \<noteq> t \<and> pending s u y)" if "alive ?s y" "refs ?s y = {}" for y
  proof (cases "y = x")
    case True
    have "object s (Local t j) \<noteq> Some x" for j using in_refs [of s "Local t j" x] rx g(1) by auto
    then show ?thesis using True by (simp add: pending_def rp_ops)
  next
    case False
    then show ?thesis using that al r rp_invD(9) [OF inv, of y] g(1) pending_idle(1) by metis
  qed
  show "pc_ok ?s t" using pc_ok_idle [OF inv g(1)] by (simp add: pc_ok_def rp_ops)
qed

text \<open>The other steps do not create objects.\<close>

lemma quiet_inv:
  assumes inv: "rp_inv s" and "own_step t s s'" "finite {p. object s' p \<noteq> None}" and c: "counted s' = counted s"
    and "referenceCount s' = referenceCount s" "created s' = created s" "deleted s' = deleted s"
    and np: "\<And>x. pending s' t x = pending s t x" and "pc_ok s' t"
  shows "rp_inv s'"
proof (rule rp_inv_step [OF assms(1,2,3)])
  note r = refs_same [OF c]
  have al: "alive s' x = alive s x" for x by (simp add: alive_def assms(6,7))
  show "referenceCount s' y = int (card (refs s' y))" for y using rp_invD(2) [OF inv] r assms(5) by simp
  show "alive s' y" if "refs s' y \<noteq> {}" for y using rp_invD(3) [OF inv, of y] that r al by simp
  show "distinct (deleted s')" "set (deleted s') \<subseteq> created s'" using rp_invD(4,5) [OF inv] assms(6,7) by simp_all
  show "alive s' y \<and> refs s' y = {} \<and> (\<forall>u. u \<noteq> t \<longrightarrow> \<not> pending s u y)" if "pending s' t y" for y
    using that rp_invD(6,7,8) [OF inv] r al np by metis
  show "alive s' y \<and> refs s' y = {}" if "pending s u y" for u y using that rp_invD(6,7) [OF inv] r al by metis
  show "pending s' t y \<or> (\<exists>u. u \<noteq> t \<and> pending s u y)" if "alive s' y" "refs s' y = {}" for y
    using that rp_invD(9) [OF inv, of y] r al np by metis
qed (rule assms(9))

lemma copy_inv:
  assumes inv: "rp_inv s" and g: "rp_pc s t = Idle" "object s (Local t i) = None" "i \<noteq> j"
  shows "rp_inv (copy_begin t i j s)" (is "rp_inv ?s")
proof (rule quiet_inv [OF inv, of t])
  show "counted ?s = counted s"
  proof
    fix p show "counted ?s p = counted s p" using g by (cases p) (auto simp: rp_ops counted_def)
  qed
  show "finite {p. object ?s p \<noteq> None}" by (rule finite_change [OF inv, of "{Local t i}"]) (simp_all add: rp_ops)
  show "pending ?s t x = pending s t x" for x using g by (auto simp: pending_def rp_ops)
  show "pc_ok ?s t" using pc_ok_idle [OF inv g(1)] by (simp add: pc_ok_def rp_ops)
qed (simp_all add: own_step_def rp_ops)

lemma acquire_inv:
  assumes inv: "rp_inv s" and own: "own_step t s s'" and fin: "finite {p. object s' p \<noteq> None}"
    and c: "counted s' = (counted s)(p := Some x)" "counted s p = None"
    and n: "referenceCount s' = (referenceCount s)(x := referenceCount s x + 1)" and eq: "created s' = created s" "deleted s' = deleted s"
    and np: "\<And>y. \<not> pending s' t y" and x: "refs s x \<noteq> {} \<or> pending s t x" and only: "\<And>y. pending s t y \<Longrightarrow> y = x"
    and "pc_ok s' t"
  shows "rp_inv s'"
proof (rule rp_inv_step [OF inv own fin])
  note r = refs_upd [OF c(1)]
  have al: "alive s' y = alive s y" for y by (simp add: alive_def eq)
  have ax: "alive s x" using x rp_invD(3,6) [OF inv] by blast
  have "p \<notin> refs s y" for y using c(2) by (simp add: refs_def)
  then have ry: "refs s' y = (if y = x then insert p (refs s y) else refs s y)" for y using r [of y] by auto
  show "referenceCount s' y = int (card (refs s' y))" for y by (rule card_acquire [OF inv c n])
  show "alive s' y" if "refs s' y \<noteq> {}" for y using rp_invD(3) [OF inv, of y] that ry al ax by (cases "y = x") auto
  show "distinct (deleted s')" "set (deleted s') \<subseteq> created s'" using rp_invD(4,5) [OF inv] eq by simp_all
  show "alive s' y \<and> refs s' y = {} \<and> (\<forall>u. u \<noteq> t \<longrightarrow> \<not> pending s u y)" if "pending s' t y" for y using that np by blast
  show "alive s' y \<and> refs s' y = {}" if "u \<noteq> t" "pending s u y" for u y
  proof -
    have "y \<noteq> x" using that x rp_invD(7,8) [OF inv] by blast
    then show ?thesis using that rp_invD(6,7) [OF inv] ry al by simp
  qed
  show "pending s' t y \<or> (\<exists>u. u \<noteq> t \<and> pending s u y)" if "alive s' y" "refs s' y = {}" for y
  proof -
    have "y \<noteq> x" using that(2) ry by auto
    then show ?thesis using that rp_invD(9) [OF inv, of y] ry al only by metis
  qed
qed (rule assms(12))

lemma copy_end_inv:
  assumes inv: "rp_inv s" and g: "rp_pc s t = Copied i"
  shows "rp_inv (copy_end t i s)" (is "rp_inv ?s")
proof -
  have tmp: "object s (Temp t) = None" using rp_invD(10) [OF inv, of t] g by (simp add: pc_ok_def)
  have fin: "finite {p. object ?s p \<noteq> None}" using rp_invD(1) [OF inv] by (simp add: rp_ops split: option.split)
  have own: "own_step t s ?s" by (simp add: own_step_def rp_ops split: option.split)
  have pc: "pc_ok ?s t" using tmp by (simp add: pc_ok_def rp_ops split: option.split)
  have np: "\<not> pending ?s t y" for y by (rule pending_idle(1)) (simp add: rp_ops)
  show ?thesis
  proof (cases "object s (Local t i)")
    case None
    show ?thesis
    proof (rule quiet_inv [OF inv own fin])
      show "counted ?s = counted s"
      proof
        fix p show "counted ?s p = counted s p" using g None by (cases p) (auto simp: rp_ops counted_def)
      qed
      show "pending ?s t x = pending s t x" for x using np g None by (simp add: pending_def)
    qed (use None pc in \<open>simp_all add: rp_ops\<close>)
  next
    case (Some x)
    show ?thesis
    proof (rule acquire_inv [OF inv own fin, where p = "Local t i" and x = x])
      show "counted ?s = (counted s)(Local t i := Some x)"
      proof
        fix p show "counted ?s p = ((counted s)(Local t i := Some x)) p" using g Some by (cases p) (auto simp: rp_ops counted_def)
      qed
      show "refs s x \<noteq> {} \<or> pending s t x"
      proof (cases "\<exists>j. j \<noteq> i \<and> object s (Local t j) = Some x")
        case True
        then obtain j where "j \<noteq> i" "object s (Local t j) = Some x" by blast
        with in_refs [of s "Local t j" x] g show ?thesis by auto
      qed (use Some g in \<open>auto simp: pending_def\<close>)
      show "y = x" if "pending s t y" for y using that g Some by (simp add: pending_def)
    qed (use Some g pc np in \<open>simp_all add: rp_ops counted_def\<close>)
  qed
qed

lemma load_inv:
  assumes inv: "rp_inv s" and g: "rp_pc s t = Idle" "object s (Local t i) = None"
  shows "rp_inv (atomic_load t i sh s)" (is "rp_inv ?s")
proof (cases "object s (Shared sh)")
  case None
  have "?s = s" using None g(2) by (simp add: rp_ops fun_upd_idem)
  with inv show ?thesis by simp
next
  case (Some x)
  have s': "?s = set_object (Local t i) (Some x) (atomicAdd x 1 s)" using Some by (simp add: atomic_load_def atomicFetchAndIncrement_def)
  show ?thesis
  proof (rule acquire_inv [OF inv, of t, where p = "Local t i" and x = x])
    show "finite {p. object ?s p \<noteq> None}" unfolding s' by (rule finite_change [OF inv, of "{Local t i}"]) (simp_all add: rp_ops)
    show "counted ?s = (counted s)(Local t i := Some x)"
    proof
      fix p show "counted ?s p = ((counted s)(Local t i := Some x)) p" using g s' by (cases p) (auto simp: rp_ops counted_def)
    qed
    show "refs s x \<noteq> {} \<or> pending s t x" using in_refs [of s "Shared sh" x] Some by auto
    show "pc_ok ?s t" using pc_ok_idle [OF inv g(1)] g s' by (simp add: pc_ok_def rp_ops)
    show "\<not> pending ?s t y" for y by (rule pending_idle(1)) (use g s' in \<open>simp add: rp_ops\<close>)
  qed (use g s' in \<open>simp_all add: own_step_def rp_ops counted_def\<close>)
qed

lemma exchange_inv:
  assumes inv: "rp_inv s" and g: "rp_pc s t = Idle" "object s (Local t j) = None"
  shows "rp_inv (atomic_exchange_begin t sh i j s)" (is "rp_inv ?s")
proof -
  have tmp: "object s (Temp t) = None" by (rule pc_ok_idle [OF inv g(1)])
  have fin: "finite {p. object ?s p \<noteq> None}"
    by (rule finite_change [OF inv, of "{Temp t}"]) (simp_all add: rp_ops split: option.split)
  have own: "own_step t s ?s" by (simp add: own_step_def rp_ops split: option.split)
  have pc: "pc_ok ?s t" using g(2) by (simp add: pc_ok_def rp_ops split: option.split)
  have np: "\<not> pending ?s t y" for y by (rule pending_idle(2)) (simp add: rp_ops)
  show ?thesis
  proof (cases "object s (Local t i)")
    case None
    show ?thesis
    proof (rule quiet_inv [OF inv own fin])
      show "counted ?s = counted s"
      proof
        fix p show "counted ?s p = counted s p" using g None tmp by (cases p) (auto simp: rp_ops counted_def)
      qed
      show "pending ?s t x = pending s t x" for x using np g by simp
    qed (use None pc in \<open>simp_all add: rp_ops\<close>)
  next
    case (Some x)
    show ?thesis
    proof (rule acquire_inv [OF inv own fin, where p = "Temp t" and x = x])
      show "counted ?s = (counted s)(Temp t := Some x)"
      proof
        fix p show "counted ?s p = ((counted s)(Temp t := Some x)) p" using g Some by (cases p) (auto simp: rp_ops counted_def)
      qed
      show "refs s x \<noteq> {} \<or> pending s t x" using in_refs [of s "Local t i" x] Some g by auto
    qed (use Some g tmp pc np in \<open>simp_all add: rp_ops counted_def\<close>)
  qed
qed

text \<open>Steps that move counted pointers from place to place.\<close>

lemma move_inv:
  assumes inv: "rp_inv s" and own: "own_step t s s'" and b: "bij \<sigma>" and c: "\<And>p. counted s' (\<sigma> p) = counted s p"
    and fin: "finite {p. object s' p \<noteq> None}" and eq: "referenceCount s' = referenceCount s" "created s' = created s" "deleted s' = deleted s"
    and np: "\<And>x. \<not> pending s' t x" "\<And>x. \<not> pending s t x" and pc: "pc_ok s' t"
  shows "rp_inv s'"
proof (rule rp_inv_step [OF inv own fin])
  have r: "refs s' x = \<sigma> ` refs s x" for x
  proof
    show "refs s' x \<subseteq> \<sigma> ` refs s x"
    proof
      fix q assume q: "q \<in> refs s' x"
      obtain p where "q = \<sigma> p" using b by (metis bij_pointE)
      with q c show "q \<in> \<sigma> ` refs s x" by (auto simp: refs_def)
    qed
    show "\<sigma> ` refs s x \<subseteq> refs s' x" using c by (auto simp: refs_def)
  qed
  have al: "alive s' y = alive s y" for y by (simp add: alive_def eq)
  show "referenceCount s' y = int (card (refs s' y))" for y
    using rp_invD(2) [OF inv, of y] r [of y] eq card_image [OF inj_on_subset [OF bij_is_inj [OF b] subset_UNIV]] by simp
  show "alive s' y" if "refs s' y \<noteq> {}" for y using rp_invD(3) [OF inv, of y] that r al by simp
  show "distinct (deleted s')" "set (deleted s') \<subseteq> created s'" using rp_invD(4,5) [OF inv] eq by simp_all
  show "alive s' y \<and> refs s' y = {} \<and> (\<forall>u. u \<noteq> t \<longrightarrow> \<not> pending s u y)" if "pending s' t y" for y using that np by blast
  show "alive s' y \<and> refs s' y = {}" if "pending s u y" for u y using that rp_invD(6,7) [OF inv] r al by simp
  show "pending s' t y \<or> (\<exists>u. u \<noteq> t \<and> pending s u y)" if "alive s' y" "refs s' y = {}" for y
    using that rp_invD(9) [OF inv, of y] r al np by (metis image_is_empty)
qed (rule pc)

definition swap_places :: "place \<Rightarrow> place \<Rightarrow> place \<Rightarrow> place" where
  "swap_places a b p = (if p = a then b else if p = b then a else p)"

lemma swap_places_invol: "swap_places a b (swap_places a b p) = p"
  by (simp add: swap_places_def)

lemma bij_swap_places: "bij (swap_places a b)"
  by (rule o_bij [of "swap_places a b"]) (simp_all add: fun_eq_iff swap_places_invol)

lemma swap_inv:
  assumes inv: "rp_inv s" and g: "rp_pc s t = Idle"
  shows "rp_inv (swap_ptr t i j s)" (is "rp_inv ?s")
proof (rule move_inv [OF inv, of t])
  show "bij (swap_places (Local t i) (Local t j))" by (rule bij_swap_places)
  show "counted ?s (swap_places (Local t i) (Local t j) p) = counted s p" for p
    using g by (cases p) (auto simp: swap_places_def rp_ops counted_def)
  show "finite {p. object ?s p \<noteq> None}"
    by (rule finite_change [OF inv, of "{Local t i, Local t j}"]) (simp_all add: rp_ops)
  show "pc_ok ?s t" using pc_ok_idle [OF inv g] g by (simp add: pc_ok_def rp_ops)
  show "\<not> pending ?s t x" "\<not> pending s t x" for x using g by (auto simp: pending_def rp_ops)
qed (simp_all add: own_step_def rp_ops)

lemma exchange_end_inv:
  assumes inv: "rp_inv s" and g: "rp_pc s t = Swapping sh j"
  shows "rp_inv (atomic_exchange_end t sh j s)" (is "rp_inv ?s")
proof (rule move_inv [OF inv, of t])
  let ?f = "swap_places (Shared sh) (Local t j) \<circ> swap_places (Temp t) (Local t j)"
  have e: "object s (Local t j) = None" using rp_invD(10) [OF inv, of t] g by (simp add: pc_ok_def)
  show "bij ?f" by (intro bij_comp bij_swap_places)
  show "counted ?s (?f p) = counted s p" for p using g e by (cases p) (auto simp: swap_places_def rp_ops counted_def)
  show "finite {p. object ?s p \<noteq> None}"
    by (rule finite_change [OF inv, of "{Shared sh, Temp t, Local t j}"]) (simp_all add: rp_ops)
  show "pc_ok ?s t" by (simp add: pc_ok_def rp_ops)
  show "\<not> pending ?s t x" "\<not> pending s t x" for x using g by (auto simp: pending_def rp_ops)
qed (simp_all add: own_step_def rp_ops)

lemma release_count:
  assumes "rp_inv s" "object s p = Some x" "\<not> uncounted s p"
  shows "referenceCount s x = 1 \<longleftrightarrow> refs s x - {p} = {}"
proof -
  have p: "p \<in> refs s x" by (rule in_refs [OF assms(2,3)])
  have "referenceCount s x = 1 \<longleftrightarrow> card (refs s x) = 1" using rp_invD(2) [OF assms(1), of x] by simp
  also have "\<dots> \<longleftrightarrow> refs s x - {p} = {}" using p by (auto simp: card_1_singleton_iff)
  finally show ?thesis .
qed

text \<open>The first half of \<^verbatim>\<open>reset\<close> and of the assignments, with the object the assignment creates, if any.\<close>

lemma drop_inv:
  fixes s t i
  defines "v \<equiv> object s (Local t i)"
  assumes inv: "rp_inv s" and g: "rp_pc s t = Idle"
    and k: "\<And>j. k = Assign j \<Longrightarrow> j \<noteq> i" "\<And>y. y \<in> N \<Longrightarrow> k = AssignRaw y"
      "\<And>y. k = AssignRaw y \<Longrightarrow> y \<notin> N \<Longrightarrow> v \<noteq> Some y \<and> (\<exists>j. object s (Local t j) = Some y)" and N: "N \<inter> created s = {}"
  shows "rp_inv (drop_begin t i k (s\<lparr>created := N \<union> created s\<rparr>))" (is "rp_inv ?s")
proof -
  let ?v = "object s (Local t i)"
  have nu: "\<not> uncounted s (Local t l)" for l using g by simp
  have nr: "refs s y = {}" "\<not> alive s y" "\<And>u. \<not> pending s u y" "?v \<noteq> Some y" if "y \<in> N" for y
  proof -
    show a: "\<not> alive s y" using that N by (auto simp: alive_def)
    show r: "refs s y = {}" using a rp_invD(3) [OF inv] by blast
    show "\<not> pending s u y" for u using a rp_invD(6) [OF inv] by blast
    show "?v \<noteq> Some y" using in_refs [OF _ nu, of i y] r by blast
  qed
  define d where "d = (case ?v of None \<Rightarrow> False | Some x \<Rightarrow> referenceCount s x = 1)"
  have obj: "object ?s = object s" and pcs: "rp_pc ?s = (rp_pc s)(t := Dropped i d k)" and dl: "deleted ?s = deleted s" and cr: "created ?s = N \<union> created s"
    by (simp_all add: rp_ops d_def split: option.split)
  have c: "counted ?s = (counted s)(Local t i := None)"
  proof
    fix p show "counted ?s p = ((counted s)(Local t i := None)) p" using g by (cases p) (auto simp: counted_def obj pcs)
  qed
  have r: "refs ?s y = refs s y - {Local t i}" for y using refs_upd [OF c] by simp
  have al: "alive ?s y \<longleftrightarrow> y \<in> N \<or> alive s y" for y using N rp_invD(5) [OF inv] by (auto simp: alive_def dl cr)
  have pe: "pending ?s t y \<longleftrightarrow> d \<and> ?v = Some y \<or> k = AssignRaw y \<and> (\<forall>j. j \<noteq> i \<longrightarrow> object s (Local t j) \<noteq> Some y)" for y
    by (simp add: pending_def pcs obj)
  have pend: "pending ?s t y \<longleftrightarrow> d \<and> ?v = Some y \<or> y \<in> N" for y
  proof (cases "y \<in> N")
    case True
    have "object s (Local t j) \<noteq> Some y" for j using in_refs [OF _ nu, of j y] nr(1) [OF True] by blast
    then show ?thesis using True k(2) unfolding pe by blast
  next
    case False
    then have "k = AssignRaw y \<Longrightarrow> \<exists>j. j \<noteq> i \<and> object s (Local t j) = Some y" using k(3) [of y] unfolding v_def by metis
    then show ?thesis using False unfolding pe by blast
  qed
  have dx: "d \<longleftrightarrow> refs ?s x = {}" if "?v = Some x" for x using that release_count [OF inv that nu] r by (simp add: d_def)
  show ?thesis
  proof (rule rp_inv_step [OF inv, of t])
    show "own_step t s ?s" by (simp add: own_step_def obj pcs)
    show "finite {p. object ?s p \<noteq> None}" unfolding obj by (rule rp_invD(1) [OF inv])
    show "referenceCount ?s y = int (card (refs ?s y))" for y
    proof (cases ?v)
      case None
      then have "counted s (Local t i) = None" by (simp add: counted_def)
      then have "refs ?s y = refs s y" unfolding r by (auto simp: refs_def)
      then show ?thesis using rp_invD(2) [OF inv, of y] None by (simp add: rp_ops)
    next
      case (Some x)
      show ?thesis by (rule card_release [OF inv c, of x]) (use Some nu in \<open>simp_all add: rp_ops counted_def\<close>)
    qed
    show "alive ?s y" if "refs ?s y \<noteq> {}" for y using rp_invD(3) [OF inv, of y] that r al by blast
    show "distinct (deleted ?s)" "set (deleted ?s) \<subseteq> created ?s" using rp_invD(4,5) [OF inv] by (auto simp: dl cr)
    show "alive ?s y \<and> refs ?s y = {} \<and> (\<forall>u. u \<noteq> t \<longrightarrow> \<not> pending s u y)" if "pending ?s t y" for y
      using that pend [of y] dx nr [of y] al [of y] r [of y] in_refs [OF _ nu, of i y] rp_invD(3,7) [OF inv] by blast
    show "alive ?s y \<and> refs ?s y = {}" if "pending s u y" for u y using that rp_invD(6,7) [OF inv] r al by blast
    show "pending ?s t y \<or> (\<exists>u. u \<noteq> t \<and> pending s u y)" if a: "alive ?s y" "refs ?s y = {}" for y
    proof (cases "y \<in> N \<or> ?v = Some y")
      case True
      then show ?thesis using dx a pend by blast
    next
      case False
      then have "Local t i \<notin> refs s y" by (auto simp: refs_def counted_def split: if_splits)
      then have "refs s y = {}" "alive s y" using a r al False by auto
      then show ?thesis using rp_invD(9) [OF inv, of y] g pending_idle(1) by metis
    qed
    have "?v \<noteq> Some y" if "k = AssignRaw y" for y using nr(4) [of y] k(3) [OF that] unfolding v_def by blast
    then show "pc_ok ?s t" using pc_ok_idle [OF inv g] k(1) by (auto simp: pc_ok_def pcs obj d_def split: option.splits)
  qed
qed

lemma drop_end_inv:
  assumes inv: "rp_inv s" and g: "rp_pc s t = Dropped i b k"
  shows "rp_inv (drop_end t i b k s)" (is "rp_inv ?s")
proof -
  let ?v = "object s (Local t i)"
  have ok: "object s (Temp t) = None" "b \<longrightarrow> ?v \<noteq> None" "\<And>j. k = Assign j \<Longrightarrow> j \<noteq> i" "\<And>x. k = AssignRaw x \<Longrightarrow> ?v \<noteq> Some x"
    using rp_invD(10) [OF inv, of t] g by (simp_all add: pc_ok_def)
  define D where "D = (if b then case ?v of None \<Rightarrow> [] | Some x \<Rightarrow> [x] else [])"
  define w where "w = (case k of Reset \<Rightarrow> None | Assign j \<Rightarrow> object s (Local t j) | AssignRaw x \<Rightarrow> Some x)"
  define c where "c = (case k of Reset \<Rightarrow> Idle | _ \<Rightarrow> Copied i)"
  have f: "object ?s = (object s)(Local t i := w)" "rp_pc ?s = (rp_pc s)(t := c)" "deleted ?s = deleted s @ D" "created ?s = created s"
    "referenceCount ?s = referenceCount s"
    by (cases k; cases b; cases ?v; simp add: rp_ops D_def w_def c_def)+
  have nu: "l \<noteq> i \<Longrightarrow> \<not> uncounted s (Local t l)" for l using g by simp
  have cs: "counted ?s = counted s"
  proof
    fix p show "counted ?s p = counted s p"
      using g by (cases p) (auto simp: counted_def f c_def w_def split: then_do.splits)
  qed
  note r = refs_same [OF cs]
  define lone where "lone y \<longleftrightarrow> (\<forall>l. l \<noteq> i \<longrightarrow> object s (Local t l) \<noteq> Some y)" for y
  have pend: "pending s t y \<longleftrightarrow> y \<in> set D \<or> k = AssignRaw y \<and> lone y" for y
    using g ok(2) by (cases ?v; cases b) (simp_all add: pending_def D_def lone_def, auto)
  have al: "alive ?s y \<longleftrightarrow> alive s y \<and> y \<notin> set D" for y by (auto simp: alive_def f)
  have pe: "pending ?s t y \<longleftrightarrow> k \<noteq> Reset \<and> w = Some y \<and> (\<forall>l. l \<noteq> i \<longrightarrow> object s (Local t l) \<noteq> Some y)" for y
    unfolding pending_def f by (simp add: c_def split: then_do.split)
  have pend': "pending ?s t y \<longleftrightarrow> k = AssignRaw y \<and> lone y" for y
  proof (cases k)
    case (AssignRaw x)
    have "k \<noteq> Reset" "w = Some x" by (simp_all add: AssignRaw w_def)
    then have "pending ?s t y \<longleftrightarrow> x = y \<and> lone y" unfolding pe lone_def by auto
    then show ?thesis by (simp add: AssignRaw)
  next
    case (Assign j)
    with ok(3) have "j \<noteq> i" by simp
    moreover have "w = object s (Local t j)" by (simp add: Assign w_def)
    ultimately have "\<not> pending ?s t y" unfolding pe by auto
    then show ?thesis by (simp add: Assign)
  next
    case Reset
    then show ?thesis unfolding pe by simp
  qed
  show ?thesis
  proof (rule rp_inv_step [OF inv, of t])
    show "own_step t s ?s" by (simp add: own_step_def f)
    show "finite {p. object ?s p \<noteq> None}" by (rule finite_change [OF inv, of "{Local t i}"]) (simp_all add: f)
    show "referenceCount ?s y = int (card (refs ?s y))" for y using rp_invD(2) [OF inv, of y] r f by simp
    show "alive ?s y" if "refs ?s y \<noteq> {}" for y using that r al rp_invD(3,7) [OF inv] pend by metis
    have "distinct D" unfolding D_def by (cases ?v) simp_all
    moreover have "alive s y" if "y \<in> set D" for y using pend that rp_invD(6) [OF inv] by blast
    ultimately show "distinct (deleted ?s)" "set (deleted ?s) \<subseteq> created ?s"
      using rp_invD(4,5) [OF inv] by (auto simp: f alive_def)
    show "alive ?s y \<and> refs ?s y = {} \<and> (\<forall>u. u \<noteq> t \<longrightarrow> \<not> pending s u y)" if "pending ?s t y" for y
    proof -
      have ky: "k = AssignRaw y" "lone y" using that pend' by blast+
      have vy: "?v \<noteq> Some y" by (rule ok(4) [OF ky(1)])
      have "y \<notin> set D"
      proof (cases ?v)
        case None
        then have "D = []" by (simp add: D_def)
        then show ?thesis by simp
      next
        case (Some z)
        then have "D = (if b then [z] else [])" by (simp add: D_def)
        with vy Some show ?thesis by simp
      qed
      then show ?thesis using ky pend [of y] rp_invD(6,7,8) [OF inv] r al by metis
    qed
    show "alive ?s y \<and> refs ?s y = {}" if "u \<noteq> t" "pending s u y" for u y
      using that rp_invD(6,7,8) [OF inv] r al pend by metis
    show "pending ?s t y \<or> (\<exists>u. u \<noteq> t \<and> pending s u y)" if "alive ?s y" "refs ?s y = {}" for y
      using that rp_invD(9) [OF inv, of y] r al pend pend' by metis
    have "c = Idle \<or> c = Copied i" by (simp add: c_def split: then_do.split)
    then show "pc_ok ?s t" using ok(1) unfolding pc_ok_def f by auto
  qed
qed

lemma rp_step_inv: "rp_step s s' \<Longrightarrow> rp_inv s \<Longrightarrow> rp_inv s'"
proof (induction rule: rp_step.induct)
  case (reset s t i)
  with drop_inv [of s t Reset i "{}"] show ?case by (simp add: reset_begin_def)
next
  case (assign s t i j)
  show ?case
  proof (cases "object s (Local t i) = object s (Local t j)")
    case False
    with assign drop_inv [of s t "Assign j" i "{}"] show ?thesis by (auto simp: assign_begin_def)
  qed (use assign in \<open>simp add: assign_begin_def\<close>)
next
  case (assign_raw s t x i)
  have "rp_inv (drop_begin t i (AssignRaw x) (s\<lparr>created := {x} \<union> created s\<rparr>))"
    using assign_raw.hyps by (intro drop_inv [OF assign_raw.prems]) auto
  then show ?case by (simp add: assign_raw_begin_def)
next
  case (assign_held s t j x i)
  have "x \<in> created s" using rp_invD(3) [OF assign_held.prems, of x] in_refs [of s "Local t j" x] assign_held.hyps by (auto simp: alive_def)
  then have "s\<lparr>created := insert x (created s)\<rparr> = s\<lparr>created := {} \<union> created s\<rparr>" by (simp add: insert_absorb)
  moreover have "rp_inv (drop_begin t i (AssignRaw x) (s\<lparr>created := {} \<union> created s\<rparr>))"
    using assign_held.hyps by (intro drop_inv [OF assign_held.prems]) auto
  ultimately show ?case by (simp add: assign_raw_begin_def)
next
  case (shared s t i j x)
  have "x \<in> created s" using rp_invD(3) [OF shared.prems, of x] in_refs [of s "Local t j" x] shared.hyps by (auto simp: alive_def)
  then have "shared_from_this t i x s = copy_begin t i j s"
    using shared.hyps by (simp add: shared_from_this_def rp_ops insert_absorb)
  moreover have "i \<noteq> j" using shared.hyps by auto
  ultimately show ?case using copy_inv [OF shared.prems shared.hyps(1,2)] by simp
qed (simp_all add: construct_inv copy_inv copy_end_inv drop_end_inv swap_inv load_inv exchange_inv exchange_end_inv)

lemma rp_reachable_inv: "rp_step\<^sup>*\<^sup>* ref_init s \<Longrightarrow> rp_inv s"
proof (induction rule: rtranclp_induct)
  case base
  have "refs ref_init x = {}" for x by (simp add: refs_def counted_def ref_init_def)
  then show ?case by (simp add: rp_inv_def ref_init_def alive_def pending_def pc_ok_def)
qed (rule rp_step_inv)

section \<open>Ownership\<close>

lemma counted_idle: "rp_pc s t = Idle \<Longrightarrow> object s (Local t i) = Some x \<Longrightarrow> refs s x \<noteq> {}"
  using in_refs [of s "Local t i" x] by auto

text \<open>C18. However the threads interleave: no object is deleted twice; a shared pointer, and every local pointer of a thread
  that is in no operation, refers to an object that is not deleted. The count of an object is at any time the number of pointers to
  it, without those that an operation has stored but not yet counted, or no longer counts and is about to overwrite; such a pointer that is
  counted is never to a deleted object. An object that was created, to which no pointer refers and no raw pointer is about to be
  assigned, has been deleted. Pointers are constructed and assigned from raw pointers to new objects, and to objects that the
  thread holds in another pointer (\<open>shared_from_this\<close>); a raw pointer assigned to a pointer to the same object is excluded, as
  the code then deletes the object.\<close>

theorem ref_ptr_ownership:
  assumes "rp_step\<^sup>*\<^sup>* ref_init s"
  shows "distinct (deleted s)
   \<and> (\<forall>sh x. object s (Shared sh) = Some x \<longrightarrow> x \<in> created s \<and> x \<notin> set (deleted s))
   \<and> (\<forall>t i x. rp_pc s t = Idle \<and> object s (Local t i) = Some x \<longrightarrow> x \<in> created s \<and> x \<notin> set (deleted s) \<and> use_count (Local t i) s > 0)
   \<and> (\<forall>x. referenceCount s x = int (card {p. object s p = Some x \<and> \<not> uncounted s p}))
   \<and> (\<forall>p x. object s p = Some x \<and> \<not> uncounted s p \<longrightarrow> x \<in> created s \<and> x \<notin> set (deleted s))
   \<and> (\<forall>x. x \<in> created s \<and> (\<forall>p. object s p \<noteq> Some x) \<and> (\<forall>t i b. rp_pc s t \<noteq> Dropped i b (AssignRaw x)) \<longrightarrow> x \<in> set (deleted s))
   \<and> ((\<forall>t. rp_pc s t = Idle) \<longrightarrow> (\<forall>x. referenceCount s x = int (card {p. object s p = Some x})
        \<and> (x \<in> created s \<and> {p. object s p = Some x} = {} \<longrightarrow> x \<in> set (deleted s))))"
proof -
  have inv: "rp_inv s" by (rule rp_reachable_inv [OF assms])
  have refs: "refs s x = {p. object s p = Some x \<and> \<not> uncounted s p}" for x by (auto simp: refs_def counted_def)
  have cnt: "referenceCount s x = int (card {p. object s p = Some x \<and> \<not> uncounted s p})" for x
    using rp_invD(2) [OF inv, of x] by (simp add: refs)
  have held: "alive s x" if "object s p = Some x" "\<not> uncounted s p" for p x using rp_invD(3) [OF inv] in_refs [OF that] by auto
  have lo: "use_count (Local t i) s > 0" if i: "rp_pc s t = Idle" and o: "object s (Local t i) = Some x" for t i x
  proof -
    have "card (refs s x) > 0" using counted_idle [OF i o] finite_refs [OF inv, of x] by (simp add: card_gt_0_iff)
    then show ?thesis using rp_invD(2) [OF inv, of x] o by (simp add: use_count_def)
  qed
  have gone: "x \<in> set (deleted s)"
    if h: "x \<in> created s" "\<forall>p. object s p \<noteq> Some x" "\<forall>t i b. rp_pc s t \<noteq> Dropped i b (AssignRaw x)" for x
  proof (rule ccontr)
    assume "x \<notin> set (deleted s)"
    with h(1) have "alive s x" by (simp add: alive_def)
    with rp_invD(9) [OF inv] h(2) obtain t where "pending s t x" unfolding refs by blast
    then show False using h(2,3) by (auto simp: pending_def split: rp_pc.splits)
  qed
  have "\<not> uncounted s p" if "\<forall>t. rp_pc s t = Idle" for p using that by (cases p) simp_all
  then have all: "referenceCount s x = int (card {p. object s p = Some x}) \<and> (x \<in> created s \<and> {p. object s p = Some x} = {} \<longrightarrow> x \<in> set (deleted s))"
    if "\<forall>t. rp_pc s t = Idle" for x
    using that cnt [of x] gone [of x] by auto
  have sh: "\<not> uncounted s (Shared i)" and loc: "rp_pc s t = Idle \<Longrightarrow> \<not> uncounted s (Local t i)" for i t by simp_all
  show ?thesis
  proof (intro conjI)
    show "distinct (deleted s)" by (rule rp_invD(4) [OF inv])
    show "\<forall>sh x. object s (Shared sh) = Some x \<longrightarrow> x \<in> created s \<and> x \<notin> set (deleted s)" using held sh unfolding alive_def by blast
    show "\<forall>t i x. rp_pc s t = Idle \<and> object s (Local t i) = Some x \<longrightarrow> x \<in> created s \<and> x \<notin> set (deleted s) \<and> use_count (Local t i) s > 0"
      using held loc lo unfolding alive_def by blast
    show "\<forall>x. referenceCount s x = int (card {p. object s p = Some x \<and> \<not> uncounted s p})" using cnt by blast
    show "\<forall>p x. object s p = Some x \<and> \<not> uncounted s p \<longrightarrow> x \<in> created s \<and> x \<notin> set (deleted s)" using held unfolding alive_def by blast
    show "\<forall>x. x \<in> created s \<and> (\<forall>p. object s p \<noteq> Some x) \<and> (\<forall>t i b. rp_pc s t \<noteq> Dropped i b (AssignRaw x)) \<longrightarrow> x \<in> set (deleted s)"
      using gone by blast
    show "(\<forall>t. rp_pc s t = Idle) \<longrightarrow> (\<forall>x. referenceCount s x = int (card {p. object s p = Some x})
        \<and> (x \<in> created s \<and> {p. object s p = Some x} = {} \<longrightarrow> x \<in> set (deleted s)))" using all by blast
  qed
qed

text \<open>A thread stores a new object in a shared pointer, another one loads it, the first empties its pointer and the shared one.\<close>

theorem ref_ptr_ownership_witness:
  "\<exists>s. rp_step\<^sup>*\<^sup>* ref_init s \<and> object s (Shared 0) = Some 7 \<and> 7 \<notin> set (deleted s) \<and> referenceCount s 7 = 2"
proof -
  define s1 where "s1 = construct_begin 0 0 7 ref_init"
  define s2 where "s2 = copy_end 0 0 s1"
  define s3 where "s3 = atomic_exchange_begin 0 0 0 1 s2"
  define s4 where "s4 = atomic_exchange_end 0 0 1 s3"
  note d = s1_def s2_def s3_def s4_def ref_init_def rp_ops
  have st1: "rp_step ref_init s1" unfolding s1_def by (rule rp_step.construct) (simp_all add: ref_init_def)
  have st2: "rp_step s1 s2" unfolding s2_def by (rule rp_step.copy_end) (simp add: d)
  have st3: "rp_step s2 s3" unfolding s3_def by (rule rp_step.exchange) (simp_all add: d)
  have st4: "rp_step s3 s4" unfolding s4_def by (rule rp_step.exchange_end) (simp add: d)
  have "rp_step\<^sup>*\<^sup>* ref_init s4"
    by (rule r_into_rtranclp [of rp_step, OF st1, THEN rtranclp.rtrancl_into_rtrancl, OF st2, THEN rtranclp.rtrancl_into_rtrancl, OF st3,
      THEN rtranclp.rtrancl_into_rtrancl, OF st4])
  moreover have "object s4 (Shared 0) = Some 7" "referenceCount s4 7 = 2" by (simp_all add: d)
  ultimately show ?thesis using ref_ptr_ownership [of s4] by blast
qed

text \<open>
  The assignment of a raw pointer does not check for self assignment: assigning to the only pointer to an object the
  object itself deletes it, and the pointer still refers to it.\<close>

theorem raw_self_assignment_dangles:
  assumes "object s (Local t i) = Some x" "referenceCount s x = 1"
  shows "let s1 = drop_begin t i (AssignRaw x) s; s2 = copy_end t i (drop_end t i True (AssignRaw x) s1) in
    rp_pc s1 t = Dropped i True (AssignRaw x) \<and> x \<in> set (deleted s2) \<and> object s2 (Local t i) = Some x \<and> rp_pc s2 t = Idle"
  using assms by (simp add: rp_ops Let_def)

end
