(* ===== verification/Kernel_State.thy ===== *)
theory Kernel_State
  imports Intrusive_List
begin

text \<open>
  The state the kernel's components share: \<^verbatim>\<open>class Thread\<close> with its \<^verbatim>\<open>ThreadFlags\<close> and the data of the
  priority scheduler (\<^verbatim>\<open>kernel/kernel.h\<close>, \<^verbatim>\<open>priority_scheduler_types.h\<close>), \<^verbatim>\<open>class Mutex\<close>
  (\<^verbatim>\<open>kernel/sync.h\<close>), \<^verbatim>\<open>struct SleepData\<close>, and the global variables of \<^verbatim>\<open>kernel/kernel.cpp\<close> and
  \<^verbatim>\<open>priority_scheduler.cpp\<close>. Threads, mutexes and sleep records are addresses in stores, so that
  aliasing is what it is in the code. The configuration is the repository's default one: priority
  scheduler, no processes, no deep sleep.
\<close>

unbundle bit_operations_syntax

section \<open>Thread flags\<close>

definition WAIT :: u16 where "WAIT = push_bit 0 1"
definition SLEEP :: u16 where "SLEEP = push_bit 1 1"
definition DELETED :: u16 where "DELETED = push_bit 2 1"
definition DELETING :: u16 where "DELETING = push_bit 3 1"
definition DETACHED :: u16 where "DETACHED = push_bit 4 1"
definition WAIT_JOIN :: u16 where "WAIT_JOIN = push_bit 5 1"
definition WAIT_COND :: u16 where "WAIT_COND = push_bit 6 1"
definition USERSPACE :: u16 where "USERSPACE = push_bit 7 1"

lemmas flag_consts = WAIT_def SLEEP_def DELETED_def DELETING_def DETACHED_def WAIT_JOIN_def
  WAIT_COND_def USERSPACE_def

definition set_flag :: "u16 \<Rightarrow> bool \<Rightarrow> u16 \<Rightarrow> u16" where
  "set_flag m b f = (if b then f OR m else f AND NOT m)"

definition IRQsetWait :: "bool \<Rightarrow> u16 \<Rightarrow> u16" where
  "IRQsetWait waiting f = set_flag WAIT waiting f"

definition IRQsetJoinWait :: "bool \<Rightarrow> u16 \<Rightarrow> u16" where
  "IRQsetJoinWait waiting f = set_flag WAIT_JOIN waiting f"

definition IRQsetCondWait :: "bool \<Rightarrow> u16 \<Rightarrow> u16" where
  "IRQsetCondWait waiting f = set_flag WAIT_COND waiting f"

definition IRQsetSleep :: "bool \<Rightarrow> u16 \<Rightarrow> u16" where
  "IRQsetSleep sleeping f = set_flag SLEEP sleeping f"

definition IRQsetDeleted :: "u16 \<Rightarrow> u16" where
  "IRQsetDeleted f = f OR DELETED"

definition IRQsetDeleting :: "u16 \<Rightarrow> u16" where
  "IRQsetDeleting f = f OR DELETING"

definition IRQsetDetached :: "u16 \<Rightarrow> u16" where
  "IRQsetDetached f = f OR DETACHED"

definition IRQsetUserspace :: "bool \<Rightarrow> u16 \<Rightarrow> u16" where
  "IRQsetUserspace userspace f = set_flag USERSPACE userspace f"

definition isWaiting :: "u16 \<Rightarrow> bool" where
  "isWaiting f \<longleftrightarrow> f AND WAIT \<noteq> 0"

definition isSleeping :: "u16 \<Rightarrow> bool" where
  "isSleeping f \<longleftrightarrow> f AND SLEEP \<noteq> 0"

definition isDeleted :: "u16 \<Rightarrow> bool" where
  "isDeleted f \<longleftrightarrow> f AND 0x14 = 0x14"

definition isDeletedJoin :: "u16 \<Rightarrow> bool" where
  "isDeletedJoin f \<longleftrightarrow> f AND DELETED \<noteq> 0"

definition isDeleting :: "u16 \<Rightarrow> bool" where
  "isDeleting f \<longleftrightarrow> f AND DELETING \<noteq> 0"

definition isReady :: "u16 \<Rightarrow> bool" where
  "isReady f \<longleftrightarrow> f AND 0x67 = 0"

definition isDetached :: "u16 \<Rightarrow> bool" where
  "isDetached f \<longleftrightarrow> f AND DETACHED \<noteq> 0"

definition isWaitingJoin :: "u16 \<Rightarrow> bool" where
  "isWaitingJoin f \<longleftrightarrow> f AND WAIT_JOIN \<noteq> 0"

definition isWaitingCond :: "u16 \<Rightarrow> bool" where
  "isWaitingCond f \<longleftrightarrow> f AND WAIT_COND \<noteq> 0"

definition isInUserspace :: "u16 \<Rightarrow> bool" where
  "isInUserspace f \<longleftrightarrow> f AND USERSPACE \<noteq> 0"

lemmas flag_defs = IRQsetWait_def IRQsetJoinWait_def IRQsetCondWait_def IRQsetSleep_def
  IRQsetDeleted_def IRQsetDeleting_def IRQsetDetached_def IRQsetUserspace_def set_flag_def
  isWaiting_def isSleeping_def isDeleted_def isDeletedJoin_def isDeleting_def isReady_def
  isDetached_def isWaitingJoin_def isWaitingCond_def isInUserspace_def flag_consts

text \<open>Every flag is one bit; the tests with two masks read several of them.\<close>

lemma word_and_bit_neq_0: "(f :: u16) AND push_bit n 1 \<noteq> 0 \<longleftrightarrow> bit f n"
proof
  assume "f AND push_bit n 1 \<noteq> 0"
  then obtain m where "bit (f AND push_bit n 1) m" by (auto simp: bit_eq_iff)
  then show "bit f n" by (auto simp: bit_simps split: if_splits)
next
  assume b: "bit f n"
  then have "n < 16" using bit_imp_le_length [of f n] by simp
  with b have "bit (f AND push_bit n 1) n" by (simp add: bit_simps)
  then show "f AND push_bit n 1 \<noteq> 0" by (metis bit_0_eq bot_apply bot_bool_def)
qed

lemma flag_tests:
  "isWaiting f \<longleftrightarrow> bit f 0" "isSleeping f \<longleftrightarrow> bit f 1" "isDeletedJoin f \<longleftrightarrow> bit f 2"
  "isDeleting f \<longleftrightarrow> bit f 3" "isDetached f \<longleftrightarrow> bit f 4" "isWaitingJoin f \<longleftrightarrow> bit f 5"
  "isWaitingCond f \<longleftrightarrow> bit f 6" "isInUserspace f \<longleftrightarrow> bit f 7"
  by (simp_all only: isWaiting_def isSleeping_def isDeletedJoin_def isDeleting_def isDetached_def
      isWaitingJoin_def isWaitingCond_def isInUserspace_def flag_consts word_and_bit_neq_0)

lemma all_less_16:
  "(\<forall>n<16. P n) \<longleftrightarrow> P 0 \<and> P 1 \<and> P 2 \<and> P 3 \<and> P 4 \<and> P 5 \<and> P 6 \<and> P 7 \<and> P 8 \<and>
     P 9 \<and> P 10 \<and> P 11 \<and> P 12 \<and> P 13 \<and> P 14 \<and> P (15 :: nat)"
  by (simp add: eval_nat_numeral All_less_Suc) blast

lemma word16_eq_iff: "(a :: u16) = b \<longleftrightarrow> (\<forall>n<16. bit a n \<longleftrightarrow> bit b n)"
  by (auto intro: bit_word_eqI)

lemma isReady_bits:
  "isReady f \<longleftrightarrow> \<not> bit f 0 \<and> \<not> bit f 1 \<and> \<not> bit f 2 \<and> \<not> bit f 5 \<and> \<not> bit f 6"
  unfolding isReady_def word16_eq_iff all_less_16 by (simp add: bit_simps)

lemma isDeleted_bits: "isDeleted f \<longleftrightarrow> bit f 2 \<and> bit f 4"
  unfolding isDeleted_def word16_eq_iff all_less_16 by (simp add: bit_simps)

lemmas flag_setters = IRQsetWait_def IRQsetJoinWait_def IRQsetCondWait_def IRQsetSleep_def
  IRQsetDeleted_def IRQsetDeleting_def IRQsetDetached_def IRQsetUserspace_def flag_consts

text \<open>The status word as the status it stands for.\<close>

record status =
  waiting_st :: bool
  sleeping_st :: bool
  deleted_st :: bool
  deleting_st :: bool
  detached_st :: bool
  join_st :: bool
  cond_st :: bool
  user_st :: bool

definition status_of :: "u16 \<Rightarrow> status" where
  "status_of f = \<lparr>waiting_st = isWaiting f, sleeping_st = isSleeping f,
     deleted_st = isDeletedJoin f, deleting_st = isDeleting f, detached_st = isDetached f,
     join_st = isWaitingJoin f, cond_st = isWaitingCond f, user_st = isInUserspace f\<rparr>"

lemma status_of_setters:
  "status_of (IRQsetWait b f) = (status_of f)\<lparr>waiting_st := b\<rparr>"
  "status_of (IRQsetSleep b f) = (status_of f)\<lparr>sleeping_st := b\<rparr>"
  "status_of (IRQsetJoinWait b f) = (status_of f)\<lparr>join_st := b\<rparr>"
  "status_of (IRQsetCondWait b f) = (status_of f)\<lparr>cond_st := b\<rparr>"
  "status_of (IRQsetUserspace b f) = (status_of f)\<lparr>user_st := b\<rparr>"
  "status_of (IRQsetDeleted f) = (status_of f)\<lparr>deleted_st := True\<rparr>"
  "status_of (IRQsetDeleting f) = (status_of f)\<lparr>deleting_st := True\<rparr>"
  "status_of (IRQsetDetached f) = (status_of f)\<lparr>detached_st := True\<rparr>"
  by (simp_all add: status_of_def flag_tests flag_setters set_flag_def bit_simps)

lemma isReady_status:
  "isReady f \<longleftrightarrow> \<not> isWaiting f \<and> \<not> isSleeping f \<and> \<not> isDeletedJoin f \<and>
     \<not> isWaitingJoin f \<and> \<not> isWaitingCond f"
  by (simp add: isReady_bits flag_tests)

lemma isDeleted_status: "isDeleted f \<longleftrightarrow> isDeletedJoin f \<and> isDetached f"
  by (simp add: isDeleted_bits flag_tests)

lemma flag_set_test [simp]:
  "isWaiting (IRQsetWait b f) = b" "isSleeping (IRQsetSleep b f) = b"
  "isWaiting (IRQsetSleep b f) = isWaiting f" "isSleeping (IRQsetWait b f) = isSleeping f"
  "isWaitingJoin (IRQsetJoinWait b f) = b" "isWaitingCond (IRQsetCondWait b f) = b"
  "isDeleted (IRQsetWait b f) = isDeleted f" "isDeleted (IRQsetSleep b f) = isDeleted f"
  "isDeleted (IRQsetCondWait b f) = isDeleted f"
  "isWaiting (IRQsetCondWait b f) = isWaiting f"
  "isDeletedJoin (IRQsetDeleted f)" "isDetached (IRQsetDeleted f) = isDetached f"
  "isDetached (IRQsetDetached f)" "isDeletedJoin (IRQsetDetached f) = isDeletedJoin f"
  "isDeletedJoin (IRQsetJoinWait b f) = isDeletedJoin f"
  "isDetached (IRQsetJoinWait b f) = isDetached f"
  "isDeleting (IRQsetDeleting f)"
  "isWaitingJoin (IRQsetDetached f) = isWaitingJoin f" "isWaitingJoin (IRQsetDeleted f) = isWaitingJoin f"
  "isWaitingJoin (IRQsetWait b f) = isWaitingJoin f" "isDetached (IRQsetWait b f) = isDetached f"
  "isDeletedJoin (IRQsetWait b f) = isDeletedJoin f"
  by (simp_all add: flag_tests isDeleted_bits flag_setters set_flag_def bit_simps)

lemma flag_tests_0 [simp]:
  "\<not> isWaiting 0" "\<not> isSleeping 0" "\<not> isDeleted 0" "\<not> isDeletedJoin 0" "\<not> isDeleting 0"
  "\<not> isDetached 0" "\<not> isWaitingJoin 0" "\<not> isWaitingCond 0" "isReady 0"
  by (simp_all add: flag_tests isDeleted_bits isReady_bits)

section \<open>Threads, mutexes and the kernel's global state\<close>

datatype join_data = WaitingForJoin ptr | JoinResult nat

record thread =
  flags :: u16
  priority :: int
  sched_next :: ptr
  savedPriority :: int
  mutexLocked :: ptr
  mutexWaiting :: ptr
  joinData :: join_data

record mutex =
  owner :: ptr
  mutex_next :: ptr
  mutex_waiting :: "nat list"
  recursiveDepth :: int

record sleep_data =
  sleep_p :: ptr
  wakeup_time :: int

record kernel =
  threads :: "nat \<Rightarrow> thread"
  mutexes :: "nat \<Rightarrow> mutex"
  sleepData :: "nat \<Rightarrow> sleep_data"
  cur :: nat
  idle :: nat
  thread_list :: "ptr list"
  sleepingList :: intrusive_list
  kernel_running :: int
  pendingWakeup :: bool
  kernel_started :: bool
  interruptDisableNesting :: u8
  interruptsEnabled :: bool
  exist_deleted :: bool
  nextPeriodicPreemption :: int
  osTimerIrq :: int
  freed :: "nat list"

definition upd_thread :: "nat \<Rightarrow> (thread \<Rightarrow> thread) \<Rightarrow> kernel \<Rightarrow> kernel" where
  "upd_thread t f k = k\<lparr>threads := (threads k)(t := f (threads k t))\<rparr>"

definition upd_mutex :: "nat \<Rightarrow> (mutex \<Rightarrow> mutex) \<Rightarrow> kernel \<Rightarrow> kernel" where
  "upd_mutex m f k = k\<lparr>mutexes := (mutexes k)(m := f (mutexes k m))\<rparr>"

definition upd_flags :: "nat \<Rightarrow> (u16 \<Rightarrow> u16) \<Rightarrow> kernel \<Rightarrow> kernel" where
  "upd_flags t f k = upd_thread t (\<lambda>th. th\<lparr>flags := f (flags th)\<rparr>) k"

lemma upd_thread_get [simp]:
  "threads (upd_thread t f k) a = (if a = t then f (threads k t) else threads k a)"
  "threads (upd_flags t g k) a =
     (if a = t then (threads k t)\<lparr>flags := g (flags (threads k t))\<rparr> else threads k a)"
  "threads (upd_mutex m h k) = threads k"
  by (simp_all add: upd_thread_def upd_flags_def upd_mutex_def)

lemma upd_mutex_get [simp]:
  "mutexes (upd_mutex m f k) a = (if a = m then f (mutexes k m) else mutexes k a)"
  "mutexes (upd_thread t g k) = mutexes k" "mutexes (upd_flags t h k) = mutexes k"
  by (simp_all add: upd_thread_def upd_flags_def upd_mutex_def)

lemma upd_frame [simp]:
  "cur (upd_thread t f k) = cur k" "cur (upd_flags t g k) = cur k" "cur (upd_mutex m h k) = cur k"
  "idle (upd_thread t f k) = idle k" "idle (upd_flags t g k) = idle k"
  "idle (upd_mutex m h k) = idle k"
  "thread_list (upd_thread t f k) = thread_list k"
  "thread_list (upd_flags t g k) = thread_list k"
  "thread_list (upd_mutex m h k) = thread_list k"
  "sleepingList (upd_thread t f k) = sleepingList k"
  "sleepingList (upd_flags t g k) = sleepingList k"
  "sleepingList (upd_mutex m h k) = sleepingList k"
  "sleepData (upd_thread t f k) = sleepData k" "sleepData (upd_flags t g k) = sleepData k"
  "sleepData (upd_mutex m h k) = sleepData k"
  "kernel_running (upd_thread t f k) = kernel_running k"
  "kernel_running (upd_flags t g k) = kernel_running k"
  "kernel_running (upd_mutex m h k) = kernel_running k"
  "freed (upd_thread t f k) = freed k" "freed (upd_flags t g k) = freed k"
  "freed (upd_mutex m h k) = freed k"
  by (simp_all add: upd_thread_def upd_flags_def upd_mutex_def)

text \<open>
  A thread as its constructor leaves it, and the kernel's global variables as they are initialised,
  with \<^verbatim>\<open>cur\<close> the idle thread (\<^verbatim>\<open>Thread::allocateIdleThread\<close>) and \<open>e\<close> the address of the sentinel of
  the sleeping list.
\<close>

definition new_thread :: thread where
  "new_thread = \<lparr>flags = 0, priority = 1, sched_next = nullptr, savedPriority = 0,
     mutexLocked = nullptr, mutexWaiting = nullptr, joinData = WaitingForJoin nullptr\<rparr>"

definition new_mutex :: mutex where
  "new_mutex = \<lparr>owner = nullptr, mutex_next = nullptr, mutex_waiting = [], recursiveDepth = -1\<rparr>"

definition boot_kernel :: "nat \<Rightarrow> nat \<Rightarrow> kernel" where
  "boot_kernel idl e = \<lparr>threads = (\<lambda>_. new_thread), mutexes = (\<lambda>_. new_mutex),
     sleepData = (\<lambda>_. \<lparr>sleep_p = nullptr, wakeup_time = 0\<rparr>), cur = idl, idle = idl,
     thread_list = replicate 4 nullptr,
     sleepingList = new_list (\<lambda>_. \<lparr>item_next = nullptr, item_prev = nullptr\<rparr>) e,
     kernel_running = 0, pendingWakeup = False, kernel_started = False,
     interruptDisableNesting = 0, interruptsEnabled = False, exist_deleted = False,
     nextPeriodicPreemption = 2 ^ 63 - 1, osTimerIrq = 2 ^ 63 - 1, freed = []\<rparr>"

section \<open>Waiting and waking\<close>

text \<open>
  The wait primitives of \<^verbatim>\<open>class Thread\<close> that run with interrupts disabled. \<^verbatim>\<open>IRQwaitStatusHook\<close> is
  empty in the priority scheduler.
\<close>

definition IRQgetPriority :: "kernel \<Rightarrow> nat \<Rightarrow> int" where
  "IRQgetPriority k t = priority (threads k t)"

definition IRQwait :: "kernel \<Rightarrow> kernel" where
  "IRQwait k = upd_flags (cur k) (IRQsetWait True) k"

definition IRQwakeup :: "nat \<Rightarrow> kernel \<Rightarrow> kernel" where
  "IRQwakeup t k = upd_flags t (IRQsetWait False) k"

abbreviation blocked :: "kernel \<Rightarrow> nat \<Rightarrow> bool" where
  "blocked k t \<equiv> isWaiting (flags (threads k t))"

lemma blocked_wait [simp]:
  "blocked (IRQwait k) t \<longleftrightarrow> t = cur k \<or> blocked k t"
  "blocked (IRQwakeup u k) t \<longleftrightarrow> t \<noteq> u \<and> blocked k t"
  "cur (IRQwait k) = cur k" "cur (IRQwakeup u k) = cur k"
  by (auto simp: IRQwait_def IRQwakeup_def)

section \<open>Properties\<close>

text \<open>The thread status word behaves as eight independent booleans: each ThreadFlags setter
  changes exactly the status it names and no other, a thread is ready exactly when it is not
  waiting, sleeping, deleted, waiting for a join or on a condition variable, and its memory may be
  reclaimed exactly when it is both deleted and detached.\<close>

theorem thread_flags_status:
  "status_of (IRQsetWait b f) = (status_of f)\<lparr>waiting_st := b\<rparr>
   \<and> status_of (IRQsetSleep b f) = (status_of f)\<lparr>sleeping_st := b\<rparr>
   \<and> status_of (IRQsetJoinWait b f) = (status_of f)\<lparr>join_st := b\<rparr>
   \<and> status_of (IRQsetCondWait b f) = (status_of f)\<lparr>cond_st := b\<rparr>
   \<and> status_of (IRQsetUserspace b f) = (status_of f)\<lparr>user_st := b\<rparr>
   \<and> status_of (IRQsetDeleted f) = (status_of f)\<lparr>deleted_st := True\<rparr>
   \<and> status_of (IRQsetDeleting f) = (status_of f)\<lparr>deleting_st := True\<rparr>
   \<and> status_of (IRQsetDetached f) = (status_of f)\<lparr>detached_st := True\<rparr>
   \<and> (isReady f \<longleftrightarrow> \<not> waiting_st (status_of f) \<and> \<not> sleeping_st (status_of f)
        \<and> \<not> deleted_st (status_of f) \<and> \<not> join_st (status_of f) \<and> \<not> cond_st (status_of f))
   \<and> (isDeleted f \<longleftrightarrow> deleted_st (status_of f) \<and> detached_st (status_of f))"
  by (simp add: status_of_setters isReady_status isDeleted_status) (simp add: status_of_def)

end
