(* ===== verification/Ring_Queues.thy ===== *)
theory Ring_Queues
  imports Kernel_State
begin

text \<open>
  The queues of \<^verbatim>\<open>kernel/queue.h\<close>: \<^verbatim>\<open>DynUnsyncQueue\<close> (a circular buffer), \<^verbatim>\<open>BufferQueue\<close>
  (N-buffering) and \<^verbatim>\<open>Queue\<close> (a synchronized circular buffer between two threads or a thread and an
  interrupt). Positions and counters are machine words. The locale \<open>bounded_fifo\<close> is the contract
  of a bounded FIFO; it is interpreted on \<^verbatim>\<open>DynUnsyncQueue\<close> and on the interrupt side of \<^verbatim>\<open>Queue\<close>. The
  blocking side of \<^verbatim>\<open>Queue\<close> is a step relation over two threads, in which a blocked thread runs
  again only when its wait flag is cleared.
\<close>

section \<open>Circular buffers\<close>

text \<open>The \<open>n\<close> elements of a circular buffer that start at position \<open>g\<close>.\<close>

definition ring :: "'a list \<Rightarrow> nat \<Rightarrow> nat \<Rightarrow> 'a list" where
  "ring buf g n = map (\<lambda>i. buf ! ((g + i) mod length buf)) [0..<n]"

lemma length_ring [simp]: "length (ring buf g n) = n"
  by (simp add: ring_def)

lemma ring_0 [simp]: "ring buf g 0 = []"
  by (simp add: ring_def)

lemma mod_eq_imp_eq:
  assumes "(g + i) mod L = (g + j) mod L" "i < L" "j < L"
  shows "i = (j :: nat)"
proof -
  have "i mod L = j mod L"
    using assms(1) by (simp add: nat_mod_eq_iff add.assoc)
  then show ?thesis using assms(2,3) by simp
qed

text \<open>Writing at the put position appends, advancing the get position drops the first element.\<close>

lemma ring_put:
  assumes "n < length buf" "p = (g + n) mod length buf"
  shows "ring (buf[p := x]) g (Suc n) = ring buf g n @ [x]"
proof -
  have "length buf > 0" using assms(1) by linarith
  then have "buf[p := x] ! ((g + i) mod length buf) = buf ! ((g + i) mod length buf)"
    if "i < n" for i
    using that assms mod_eq_imp_eq [of g i "length buf" n] by (auto simp: nth_list_update)
  moreover have "buf[p := x] ! ((g + n) mod length buf) = x"
    using assms \<open>length buf > 0\<close> by simp
  ultimately show ?thesis by (simp add: ring_def)
qed

lemma ring_get:
  assumes "g < length buf"
  shows "ring buf g (Suc n) = buf ! g # ring buf (Suc g mod length buf) n"
proof -
  have "ring buf g (Suc n) = buf ! (g mod length buf) #
      map (\<lambda>i. buf ! ((g + Suc i) mod length buf)) [0..<n]"
    by (simp add: ring_def comp_def upt_0_Suc del: upt_Suc)
  with assms show ?thesis by (simp add: ring_def mod_simps)
qed

text \<open>The two ways the code advances a position, at the width it has.\<close>

lemma word_advance:
  fixes p c :: "'a::len word"
  assumes "p < c"
  shows "unat (p + 1) = Suc (unat p)"
    "unat (if c \<le> p + 1 then 0 else p + 1) = Suc (unat p) mod unat c"
    "unat (if p + 1 = c then 0 else p + 1) = Suc (unat p) mod unat c"
proof -
  have lt: "unat p < unat c" using assms by (simp add: word_less_nat_alt)
  moreover have "unat c < 2 ^ LENGTH('a)" by (rule unsigned_less)
  ultimately have "Suc (unat p) < 2 ^ LENGTH('a)" by linarith
  then show s: "unat (p + 1) = Suc (unat p)"
    by (simp add: unat_word_ariths del: unsigned_less)
  show "unat (if c \<le> p + 1 then 0 else p + 1) = Suc (unat p) mod unat c"
    using lt s by (cases "unat c = Suc (unat p)") (auto simp: word_le_nat_alt)
  show "unat (if p + 1 = c then 0 else p + 1) = Suc (unat p) mod unat c"
  proof (cases "p + 1 = c")
    case True
    then have "unat c = Suc (unat p)" using s by simp
    with True show ?thesis by simp
  next
    case False
    then have "Suc (unat p) \<noteq> unat c" using s by (metis unat_inject)
    with False lt s show ?thesis by simp
  qed
qed

text \<open>
  The invariant the three queues share, at any word width: \<open>n\<close> of \<open>c\<close> places are in use from \<open>g\<close> on
  and \<open>p\<close> is the first free one.
\<close>

definition ring_ok :: "'b list \<Rightarrow> 'w::len word \<Rightarrow> 'w word \<Rightarrow> 'w word \<Rightarrow> 'w word \<Rightarrow> bool" where
  "ring_ok buf p g n c \<longleftrightarrow> length buf = unat c \<and> n \<le> c \<and>
     (c \<noteq> 0 \<longrightarrow> g < c \<and> unat p = (unat g + unat n) mod unat c)"

lemma ring_ok_put:
  assumes ok: "ring_ok buf p g n c" and room: "n \<noteq> c"
  shows "unat p < length buf" "p < c" "unat (n + 1) = Suc (unat n)"
    "unat p' = Suc (unat p) mod unat c \<Longrightarrow> ring_ok (buf[unat p := x]) p' g (n + 1) c"
    "ring (buf[unat p := x]) (unat g) (unat (n + 1)) = ring buf (unat g) (unat n) @ [x]"
proof -
  have le: "n \<le> c" and len: "length buf = unat c" using ok by (auto simp: ring_ok_def)
  with room have nc: "n < c" by simp
  then have nat: "unat n < unat c" by (simp add: word_less_nat_alt)
  then have c: "c \<noteq> 0" by auto
  then have g: "g < c" and p: "unat p = (unat g + unat n) mod unat c"
    using ok by (auto simp: ring_ok_def)
  show pl: "unat p < length buf" using p len nat by simp
  show "p < c" using p nat by (simp add: word_less_nat_alt)
  show n1: "unat (n + 1) = Suc (unat n)" by (rule word_advance(1) [OF nc])
  show "ring_ok (buf[unat p := x]) p' g (n + 1) c" if "unat p' = Suc (unat p) mod unat c"
    using that len g c p n1 nat by (simp add: ring_ok_def word_le_nat_alt mod_simps)
  show "ring (buf[unat p := x]) (unat g) (unat (n + 1)) = ring buf (unat g) (unat n) @ [x]"
    using ring_put [of "unat n" buf "unat p" "unat g" x] p n1 len nat by simp
qed

lemma ring_ok_get:
  assumes ok: "ring_ok buf p g n c" and some: "n \<noteq> 0"
  shows "unat g < length buf" "g < c" "unat n = Suc (unat (n - 1))"
    "unat g' = Suc (unat g) mod unat c \<Longrightarrow> ring_ok buf p g' (n - 1) c"
    "unat g' = Suc (unat g) mod unat c \<Longrightarrow>
       ring buf (unat g) (unat n) = buf ! unat g # ring buf (unat g') (unat (n - 1))"
proof -
  have le: "n \<le> c" and len: "length buf = unat c" using ok by (auto simp: ring_ok_def)
  with some have c: "c \<noteq> 0" by auto
  then show g: "g < c" using ok by (auto simp: ring_ok_def)
  from c have p: "unat p = (unat g + unat n) mod unat c" using ok by (auto simp: ring_ok_def)
  show gl: "unat g < length buf" using g len by (simp add: word_less_nat_alt)
  show n: "unat n = Suc (unat (n - 1))" using some by (simp add: unat_pred unat_gt_0)
  show "ring_ok buf p g' (n - 1) c" if "unat g' = Suc (unat g) mod unat c"
    using that len p n le g by (simp add: ring_ok_def word_le_nat_alt word_less_nat_alt mod_simps)
  show "ring buf (unat g) (unat n) = buf ! unat g # ring buf (unat g') (unat (n - 1))"
    if "unat g' = Suc (unat g) mod unat c"
    using ring_get [OF gl, of "unat (n - 1)"] that n len by simp
qed

lemma ring_ok_reset: "ring_ok buf p g n c \<Longrightarrow> ring_ok buf 0 0 0 c"
  by (auto simp: ring_ok_def word_neq_0_conv)

section \<open>The contract of a bounded FIFO\<close>

datatype 'a fifo_req = Put 'a | Get | Reset

datatype 'a fifo_out = PutDone bool | GetDone "'a option" | ResetDone

fun fifo_spec :: "'a list \<times> nat \<Rightarrow> 'a fifo_req \<Rightarrow> (('a list \<times> nat) \<times> 'a fifo_out) option" where
  "fifo_spec (xs, c) (Put x) =
     Some (if length xs < c then ((xs @ [x], c), PutDone True) else ((xs, c), PutDone False))"
| "fifo_spec (xs, c) Get =
     Some (case xs of [] \<Rightarrow> (([], c), GetDone None) | x # ys \<Rightarrow> ((ys, c), GetDone (Some x)))"
| "fifo_spec (xs, c) Reset = Some (([], c), ResetDone)"

fun fifo_impl ::
  "('s \<Rightarrow> 'a \<Rightarrow> ('s \<times> bool) result) \<Rightarrow> ('s \<Rightarrow> ('s \<times> 'a option) result) \<Rightarrow> ('s \<Rightarrow> 's) \<Rightarrow>
     's \<Rightarrow> 'a fifo_req \<Rightarrow> ('s \<times> 'a fifo_out) result" where
  "fifo_impl put get clear s (Put x) = rbind (put s x) (\<lambda>(s, b). Inr (s, PutDone b))"
| "fifo_impl put get clear s Get = rbind (get s) (\<lambda>(s, r). Inr (s, GetDone r))"
| "fifo_impl put get clear s Reset = Inr (clear s, ResetDone)"

text \<open>
  \<open>contents\<close> is the sequence stored, oldest first; a put fails exactly when the queue is full and a
  get exactly when it is empty, and neither changes the sequence then.
\<close>

locale bounded_fifo =
  fixes inv :: "'s \<Rightarrow> bool"
    and contents :: "'s \<Rightarrow> 'a list"
    and cap :: "'s \<Rightarrow> nat"
    and put :: "'s \<Rightarrow> 'a \<Rightarrow> ('s \<times> bool) result"
    and get :: "'s \<Rightarrow> ('s \<times> 'a option) result"
    and clear :: "'s \<Rightarrow> 's"
  assumes put_room: "inv s \<Longrightarrow> length (contents s) < cap s \<Longrightarrow>
      \<exists>s'. put s x = Inr (s', True) \<and> inv s' \<and> contents s' = contents s @ [x] \<and> cap s' = cap s"
    and put_full: "inv s \<Longrightarrow> \<not> length (contents s) < cap s \<Longrightarrow>
      \<exists>s'. put s x = Inr (s', False) \<and> inv s' \<and> contents s' = contents s \<and> cap s' = cap s"
    and get_some: "inv s \<Longrightarrow> contents s = x # xs \<Longrightarrow>
      \<exists>s'. get s = Inr (s', Some x) \<and> inv s' \<and> contents s' = xs \<and> cap s' = cap s"
    and get_none: "inv s \<Longrightarrow> contents s = [] \<Longrightarrow>
      \<exists>s'. get s = Inr (s', None) \<and> inv s' \<and> contents s' = [] \<and> cap s' = cap s"
    and clear: "inv s \<Longrightarrow> inv (clear s) \<and> contents (clear s) = [] \<and> cap (clear s) = cap s"
begin

definition fifo_rep :: "'s \<Rightarrow> 'a list \<times> nat \<Rightarrow> bool" where
  "fifo_rep s = (\<lambda>(xs, c). inv s \<and> contents s = xs \<and> cap s = c)"

lemma fifo_step:
  assumes "fifo_rep s a" "fifo_spec a x = Some (a', r)"
  shows "\<exists>s'. fifo_impl put get clear s x = Inr (s', r) \<and> fifo_rep s' a'"
proof (cases x)
  case (Put e)
  then show ?thesis
    using assms put_room [of s e] put_full [of s e]
    by (cases "length (contents s) < cap s") (auto simp: fifo_rep_def split: prod.splits)
next
  case Get
  then show ?thesis
    using assms get_none [of s] get_some [of s]
    by (cases "contents s") (fastforce simp: fifo_rep_def split: prod.splits)+
next
  case Reset
  then show ?thesis using assms clear [of s] by (auto simp: fifo_rep_def split: prod.splits)
qed

end

sublocale bounded_fifo \<subseteq> fifo: simulation fifo_rep "fifo_impl put get clear" fifo_spec
  by unfold_locales (rule fifo_step)

section \<open>DynUnsyncQueue\<close>

record 'a dyn_queue =
  dq_data :: "'a list"
  dq_putPos :: u32
  dq_getPos :: u32
  dq_queueSize :: u32
  dq_queueCapacity :: u32

definition new_dyn_queue :: "'a list \<Rightarrow> u32 \<Rightarrow> 'a dyn_queue" where
  "new_dyn_queue buf elem = \<lparr>dq_data = buf, dq_putPos = 0, dq_getPos = 0, dq_queueSize = 0,
     dq_queueCapacity = elem\<rparr>"

definition dq_isEmpty :: "'a dyn_queue \<Rightarrow> bool" where
  "dq_isEmpty q \<longleftrightarrow> dq_queueSize q = 0"

definition dq_isFull :: "'a dyn_queue \<Rightarrow> bool" where
  "dq_isFull q \<longleftrightarrow> dq_queueSize q = dq_queueCapacity q"

definition tryPut :: "'a dyn_queue \<Rightarrow> 'a \<Rightarrow> ('a dyn_queue \<times> bool) result" where
  "tryPut q elem =
     (if dq_isFull q then Inr (q, False)
      else
        let q = q\<lparr>dq_queueSize := dq_queueSize q + 1\<rparr>; p = dq_putPos q in
        let q = q\<lparr>dq_putPos := p + 1\<rparr> in
        rbind (arr_set (dq_data q) (unat p) elem) (\<lambda>d.
        let q = q\<lparr>dq_data := d\<rparr>;
            q = (if dq_putPos q \<ge> dq_queueCapacity q then q\<lparr>dq_putPos := 0\<rparr> else q)
        in Inr (q, True)))"

definition tryGet :: "'a dyn_queue \<Rightarrow> ('a dyn_queue \<times> 'a option) result" where
  "tryGet q =
     (if dq_isEmpty q then Inr (q, None)
      else
        let q = q\<lparr>dq_queueSize := dq_queueSize q - 1\<rparr>; p = dq_getPos q in
        let q = q\<lparr>dq_getPos := p + 1\<rparr> in
        rbind (arr_get (dq_data q) (unat p)) (\<lambda>elem.
        let q = (if dq_getPos q \<ge> dq_queueCapacity q then q\<lparr>dq_getPos := 0\<rparr> else q)
        in Inr (q, Some elem)))"

definition dq_reset :: "'a dyn_queue \<Rightarrow> 'a dyn_queue" where
  "dq_reset q = q\<lparr>dq_queueSize := 0, dq_getPos := 0, dq_putPos := 0\<rparr>"

definition dq_inv :: "'a dyn_queue \<Rightarrow> bool" where
  "dq_inv q \<longleftrightarrow>
     ring_ok (dq_data q) (dq_putPos q) (dq_getPos q) (dq_queueSize q) (dq_queueCapacity q)"

definition dq_contents :: "'a dyn_queue \<Rightarrow> 'a list" where
  "dq_contents q = ring (dq_data q) (unat (dq_getPos q)) (unat (dq_queueSize q))"

definition dq_capacity :: "'a dyn_queue \<Rightarrow> u32" where
  "dq_capacity q = dq_queueCapacity q"

lemma dq_put_room:
  assumes inv: "dq_inv q" and room: "dq_queueSize q \<noteq> dq_queueCapacity q"
  shows "\<exists>q'. tryPut q x = Inr (q', True) \<and> dq_inv q' \<and> dq_contents q' = dq_contents q @ [x] \<and>
    dq_queueCapacity q' = dq_queueCapacity q"
proof -
  note put = ring_ok_put [OF inv [unfolded dq_inv_def] room]
  note adv = word_advance(2) [OF put(2)]
  show ?thesis
    using room put(1) put(4) [OF adv, of x] put(5) [of x]
    by (simp add: tryPut_def dq_isFull_def Let_def dq_inv_def dq_contents_def split: if_splits)
qed

lemma dq_get_some:
  assumes inv: "dq_inv q" and some: "dq_queueSize q \<noteq> 0"
  shows "\<exists>q' x. tryGet q = Inr (q', Some x) \<and> dq_inv q' \<and> dq_contents q = x # dq_contents q' \<and>
    dq_queueCapacity q' = dq_queueCapacity q"
proof -
  note get = ring_ok_get [OF inv [unfolded dq_inv_def] some]
  note adv = word_advance(2) [OF get(2)]
  show ?thesis
    using some get(1) get(4) [OF adv] get(5) [OF adv]
    by (simp add: tryGet_def dq_isEmpty_def Let_def dq_inv_def dq_contents_def split: if_splits)
qed

interpretation dyn: bounded_fifo dq_inv dq_contents "\<lambda>q. unat (dq_capacity q)" tryPut tryGet
  dq_reset
proof unfold_locales
  fix q :: "'a dyn_queue" and x :: 'a and xs
  assume inv: "dq_inv q"
  have len: "length (dq_contents q) = unat (dq_queueSize q)" by (simp add: dq_contents_def)
  note cap = dq_capacity_def
  show "\<exists>q'. tryPut q x = Inr (q', True) \<and> dq_inv q' \<and> dq_contents q' = dq_contents q @ [x] \<and>
      unat (dq_capacity q') = unat (dq_capacity q)"
    if "length (dq_contents q) < unat (dq_capacity q)"
    using that dq_put_room [OF inv, of x] by (cases "dq_queueSize q = dq_queueCapacity q") (auto simp: len cap)
  show "\<exists>q'. tryPut q x = Inr (q', False) \<and> dq_inv q' \<and> dq_contents q' = dq_contents q \<and>
      unat (dq_capacity q') = unat (dq_capacity q)"
    if "\<not> length (dq_contents q) < unat (dq_capacity q)"
    using that inv by (auto simp: len cap tryPut_def dq_isFull_def dq_inv_def ring_ok_def
        word_le_nat_alt simp flip: unat_inject)
  show "\<exists>q'. tryGet q = Inr (q', Some x) \<and> dq_inv q' \<and> dq_contents q' = xs \<and>
      unat (dq_capacity q') = unat (dq_capacity q)"
    if "dq_contents q = x # xs"
    using dq_get_some [OF inv] that len by (fastforce simp: cap)
  show "\<exists>q'. tryGet q = Inr (q', None) \<and> dq_inv q' \<and> dq_contents q' = [] \<and>
      unat (dq_capacity q') = unat (dq_capacity q)"
    if "dq_contents q = []"
    using that inv len by (auto simp: tryGet_def dq_isEmpty_def unat_eq_zero)
  show "dq_inv (dq_reset q) \<and> dq_contents (dq_reset q) = [] \<and>
      unat (dq_capacity (dq_reset q)) = unat (dq_capacity q)"
    using inv ring_ok_reset by (fastforce simp: dq_inv_def dq_reset_def dq_contents_def cap)
qed

section \<open>BufferQueue\<close>

text \<open>
  A pointer to a buffer is its index in \<^verbatim>\<open>buf\<close>; the template parameter \<^verbatim>\<open>numbuf\<close> is an argument.
\<close>

record 'a buffer_queue =
  bq_buf :: "'a list list"
  bq_bufSize :: "u32 list"
  bq_put :: u8
  bq_get :: u8
  bq_cnt :: u8

definition new_buffer_queue :: "'a list list \<Rightarrow> u32 list \<Rightarrow> 'a buffer_queue" where
  "new_buffer_queue bs ss = \<lparr>bq_buf = bs, bq_bufSize = ss, bq_put = 0, bq_get = 0, bq_cnt = 0\<rparr>"

definition bq_isEmpty :: "'a buffer_queue \<Rightarrow> bool" where
  "bq_isEmpty q \<longleftrightarrow> bq_cnt q = 0"

definition bq_isFull :: "u8 \<Rightarrow> 'a buffer_queue \<Rightarrow> bool" where
  "bq_isFull numbuf q \<longleftrightarrow> bq_cnt q = numbuf"

definition tryGetWritableBuffer :: "u8 \<Rightarrow> 'a buffer_queue \<Rightarrow> nat option" where
  "tryGetWritableBuffer numbuf q = (if bq_isFull numbuf q then None else Some (unat (bq_put q)))"

definition bufferFilled :: "u8 \<Rightarrow> 'a buffer_queue \<Rightarrow> u32 \<Rightarrow> 'a buffer_queue result" where
  "bufferFilled numbuf q actualSize =
     (if bq_isFull numbuf q then Inl (ErrorHandler UNEXPECTED)
      else
        let q = q\<lparr>bq_cnt := bq_cnt q + 1\<rparr>; p = bq_put q in
        let q = q\<lparr>bq_put := p + 1\<rparr> in
        rbind (arr_set (bq_bufSize q) (unat p) actualSize) (\<lambda>ss.
        let q = q\<lparr>bq_bufSize := ss\<rparr> in
        Inr (if bq_put q \<ge> numbuf then q\<lparr>bq_put := 0\<rparr> else q)))"

definition availableForWriting :: "u8 \<Rightarrow> 'a buffer_queue \<Rightarrow> u8" where
  "availableForWriting numbuf q = numbuf - bq_cnt q"

definition tryGetReadableBuffer :: "'a buffer_queue \<Rightarrow> (nat \<times> u32) option result" where
  "tryGetReadableBuffer q =
     (if bq_isEmpty q then Inr None
      else rbind (arr_get (bq_bufSize q) (unat (bq_get q))) (\<lambda>sz.
           Inr (Some (unat (bq_get q), sz))))"

definition bufferEmptied :: "u8 \<Rightarrow> 'a buffer_queue \<Rightarrow> 'a buffer_queue result" where
  "bufferEmptied numbuf q =
     (if bq_isEmpty q then Inl (ErrorHandler UNEXPECTED)
      else
        let q = q\<lparr>bq_cnt := bq_cnt q - 1\<rparr>;
            q = q\<lparr>bq_get := bq_get q + 1\<rparr>
        in Inr (if bq_get q \<ge> numbuf then q\<lparr>bq_get := 0\<rparr> else q))"

definition availableForReading :: "'a buffer_queue \<Rightarrow> u8" where
  "availableForReading q = bq_cnt q"

definition bq_reset :: "'a buffer_queue \<Rightarrow> 'a buffer_queue" where
  "bq_reset q = q\<lparr>bq_cnt := 0, bq_get := 0, bq_put := 0\<rparr>"

text \<open>
  The protocol the comments of the class prescribe: the writer asks for a buffer, fills it and
  declares it filled; the reader asks for a buffer, reads it and declares it emptied.
\<close>

definition bq_write ::
  "u8 \<Rightarrow> 'a buffer_queue \<Rightarrow> 'a list \<times> u32 \<Rightarrow> ('a buffer_queue \<times> bool) result" where
  "bq_write numbuf q = (\<lambda>(d, sz).
     case tryGetWritableBuffer numbuf q of
       None \<Rightarrow> Inr (q, False)
     | Some i \<Rightarrow> rbind (arr_set (bq_buf q) i d) (\<lambda>bs.
                rbind (bufferFilled numbuf (q\<lparr>bq_buf := bs\<rparr>) sz) (\<lambda>q. Inr (q, True))))"

definition bq_read ::
  "u8 \<Rightarrow> 'a buffer_queue \<Rightarrow> ('a buffer_queue \<times> ('a list \<times> u32) option) result" where
  "bq_read numbuf q =
     rbind (tryGetReadableBuffer q) (\<lambda>r.
     case r of
       None \<Rightarrow> Inr (q, None)
     | Some (i, sz) \<Rightarrow> rbind (arr_get (bq_buf q) i) (\<lambda>d.
                      rbind (bufferEmptied numbuf q) (\<lambda>q. Inr (q, Some (d, sz)))))"

definition bq_inv :: "u8 \<Rightarrow> 'a buffer_queue \<Rightarrow> bool" where
  "bq_inv numbuf q \<longleftrightarrow> length (bq_buf q) = length (bq_bufSize q) \<and>
     ring_ok (zip (bq_buf q) (bq_bufSize q)) (bq_put q) (bq_get q) (bq_cnt q) numbuf"

text \<open>The frames ready to be read, oldest first, and the buffers they are in.\<close>

definition bq_contents :: "'a buffer_queue \<Rightarrow> ('a list \<times> u32) list" where
  "bq_contents q = ring (zip (bq_buf q) (bq_bufSize q)) (unat (bq_get q)) (unat (bq_cnt q))"

definition bq_filled :: "'a buffer_queue \<Rightarrow> nat list" where
  "bq_filled q = ring [0..<length (bq_buf q)] (unat (bq_get q)) (unat (bq_cnt q))"

lemma bq_write_room:
  assumes inv: "bq_inv nb q" and room: "bq_cnt q \<noteq> nb"
  shows "\<exists>q'. bq_write nb q f = Inr (q', True) \<and> bq_inv nb q' \<and> bq_contents q' = bq_contents q @ [f]"
proof -
  obtain d sz where f: "f = (d, sz)" by fastforce
  have len: "length (bq_buf q) = length (bq_bufSize q)" using inv by (simp add: bq_inv_def)
  note put = ring_ok_put [OF inv [unfolded bq_inv_def, THEN conjunct2] room]
  note adv = word_advance(2) [OF put(2)]
  have zip: "zip ((bq_buf q)[unat (bq_put q) := d]) ((bq_bufSize q)[unat (bq_put q) := sz]) =
      (zip (bq_buf q) (bq_bufSize q))[unat (bq_put q) := f]"
    by (simp add: update_zip f)
  show ?thesis
    using room put(1) put(4) [OF adv, of f] put(5) [of f] len
    by (simp add: bq_write_def tryGetWritableBuffer_def bufferFilled_def bq_isFull_def Let_def
        bq_inv_def bq_contents_def f zip [unfolded f] split: if_splits)
qed

lemma bq_read_some:
  assumes inv: "bq_inv nb q" and some: "bq_cnt q \<noteq> 0"
  shows "\<exists>q' f. bq_read nb q = Inr (q', Some f) \<and> bq_inv nb q' \<and> bq_contents q = f # bq_contents q'"
proof -
  have len: "length (bq_buf q) = length (bq_bufSize q)" using inv by (simp add: bq_inv_def)
  note get = ring_ok_get [OF inv [unfolded bq_inv_def, THEN conjunct2] some]
  note adv = word_advance(2) [OF get(2)]
  show ?thesis
    using some get(1) get(4) [OF adv] get(5) [OF adv] len
    by (simp add: bq_read_def tryGetReadableBuffer_def bufferEmptied_def bq_isEmpty_def Let_def
        bq_inv_def bq_contents_def split: if_splits)
qed

interpretation bq: bounded_fifo "bq_inv nb" bq_contents "\<lambda>_. unat nb" "bq_write nb" "bq_read nb"
  bq_reset for nb
proof unfold_locales
  fix q :: "'a buffer_queue" and f fs
  assume inv: "bq_inv nb q"
  have len: "length (bq_contents q) = unat (bq_cnt q)" by (simp add: bq_contents_def)
  show "\<exists>q'. bq_write nb q f = Inr (q', True) \<and> bq_inv nb q' \<and> bq_contents q' = bq_contents q @ [f] \<and>
      unat nb = unat nb"
    if "length (bq_contents q) < unat nb"
    using that bq_write_room [OF inv, of f] by (cases "bq_cnt q = nb") (auto simp: len)
  show "\<exists>q'. bq_write nb q f = Inr (q', False) \<and> bq_inv nb q' \<and> bq_contents q' = bq_contents q \<and>
      unat nb = unat nb"
    if "\<not> length (bq_contents q) < unat nb"
  proof -
    have "bq_cnt q = nb"
      using that inv by (simp add: len bq_inv_def ring_ok_def word_le_nat_alt flip: unat_inject)
    with inv show ?thesis
      by (simp add: bq_write_def tryGetWritableBuffer_def bq_isFull_def split: prod.splits)
  qed
  show "\<exists>q'. bq_read nb q = Inr (q', Some f) \<and> bq_inv nb q' \<and> bq_contents q' = fs \<and> unat nb = unat nb"
    if "bq_contents q = f # fs"
    using bq_read_some [OF inv] that len by fastforce
  show "\<exists>q'. bq_read nb q = Inr (q', None) \<and> bq_inv nb q' \<and> bq_contents q' = [] \<and> unat nb = unat nb"
    if "bq_contents q = []"
    using that inv len by (auto simp: bq_read_def tryGetReadableBuffer_def bq_isEmpty_def unat_eq_zero)
  show "bq_inv nb (bq_reset q) \<and> bq_contents (bq_reset q) = [] \<and> unat nb = unat nb"
    using inv ring_ok_reset by (fastforce simp: bq_inv_def bq_reset_def bq_contents_def)
qed

text \<open>The buffer handed to the writer is none of those ready to be read.\<close>

lemma bq_writable_not_filled:
  assumes inv: "bq_inv nb q" and w: "tryGetWritableBuffer nb q = Some i"
  shows "i < length (bq_buf q)" "i \<notin> set (bq_filled q)"
proof -
  have room: "bq_cnt q \<noteq> nb" and i: "i = unat (bq_put q)"
    using w by (auto simp: tryGetWritableBuffer_def bq_isFull_def split: if_splits)
  have len: "length (bq_buf q) = unat nb" and le: "bq_cnt q \<le> nb" and eq: "length (bq_buf q) = length (bq_bufSize q)"
    using inv by (auto simp: bq_inv_def ring_ok_def)
  show il: "i < length (bq_buf q)"
    using ring_ok_put(1) [OF inv [unfolded bq_inv_def, THEN conjunct2] room] i eq by simp
  then have n0: "nb \<noteq> 0" using len by auto
  then have p: "i = (unat (bq_get q) + unat (bq_cnt q)) mod unat nb"
    using inv i by (auto simp: bq_inv_def ring_ok_def)
  have n: "unat (bq_cnt q) < unat nb" using room le by (simp add: word_le_nat_alt le_less unat_inject)
  have "(unat (bq_get q) + j) mod unat nb \<noteq> i" if "j < unat (bq_cnt q)" for j
    using that n p mod_eq_imp_eq [of "unat (bq_get q)" j "unat nb" "unat (bq_cnt q)"] by auto
  then show "i \<notin> set (bq_filled q)"
    using len n by (fastforce simp: bq_filled_def ring_def)
qed

section \<open>Queue\<close>

text \<open>
  The template parameter \<^verbatim>\<open>len\<close> is an argument. An operation works on the queue and on the threads,
  since it wakes and blocks them.
\<close>

record 'a queue =
  q_buffer :: "'a list"
  q_waiting :: ptr
  q_numElem :: u32
  q_putPos :: u32
  q_getPos :: u32

type_synonym 'a queue_state = "'a queue \<times> kernel"

definition new_queue :: "'a list \<Rightarrow> 'a queue" where
  "new_queue buf =
     \<lparr>q_buffer = buf, q_waiting = nullptr, q_numElem = 0, q_putPos = 0, q_getPos = 0\<rparr>"

definition q_isEmpty :: "'a queue \<Rightarrow> bool" where
  "q_isEmpty q \<longleftrightarrow> q_numElem q = 0"

definition q_isFull :: "u32 \<Rightarrow> 'a queue \<Rightarrow> bool" where
  "q_isFull len q \<longleftrightarrow> q_numElem q = len"

definition IRQwakeWaitingThread :: "'a queue_state \<Rightarrow> 'a queue_state" where
  "IRQwakeWaitingThread = (\<lambda>(q, k).
     case q_waiting q of
       None \<Rightarrow> (q, k)
     | Some t \<Rightarrow> (q\<lparr>q_waiting := nullptr\<rparr>, IRQwakeup t k))"

text \<open>The three statements every get and every put ends with.\<close>

definition q_dequeue :: "u32 \<Rightarrow> 'a queue \<Rightarrow> ('a queue \<times> 'a) result" where
  "q_dequeue len q =
     (let q = q\<lparr>q_numElem := q_numElem q - 1\<rparr> in
      rbind (arr_get (q_buffer q) (unat (q_getPos q))) (\<lambda>elem.
      let q = q\<lparr>q_getPos := q_getPos q + 1\<rparr> in
      Inr (if q_getPos q = len then q\<lparr>q_getPos := 0\<rparr> else q, elem)))"

definition q_enqueue :: "u32 \<Rightarrow> 'a queue \<Rightarrow> 'a \<Rightarrow> 'a queue result" where
  "q_enqueue len q elem =
     (let q = q\<lparr>q_numElem := q_numElem q + 1\<rparr> in
      rbind (arr_set (q_buffer q) (unat (q_putPos q)) elem) (\<lambda>b.
      let q = q\<lparr>q_buffer := b\<rparr>;
          q = q\<lparr>q_putPos := q_putPos q + 1\<rparr>
      in Inr (if q_putPos q = len then q\<lparr>q_putPos := 0\<rparr> else q)))"

definition q_IRQget :: "u32 \<Rightarrow> 'a queue_state \<Rightarrow> ('a queue_state \<times> 'a option) result" where
  "q_IRQget len s =
     (let (q, k) = IRQwakeWaitingThread s in
      if q_isEmpty q then Inr ((q, k), None)
      else rbind (q_dequeue len q) (\<lambda>(q, elem). Inr ((q, k), Some elem)))"

definition q_IRQput :: "u32 \<Rightarrow> 'a queue_state \<Rightarrow> 'a \<Rightarrow> ('a queue_state \<times> bool) result" where
  "q_IRQput len s elem =
     (let (q, k) = IRQwakeWaitingThread s in
      if q_isFull len q then Inr ((q, k), False)
      else rbind (q_enqueue len q elem) (\<lambda>q. Inr ((q, k), True)))"

definition q_hppw :: "'a queue_state \<Rightarrow> bool \<Rightarrow> bool" where
  "q_hppw = (\<lambda>(q, k) hppw.
     case q_waiting q of
       None \<Rightarrow> hppw
     | Some t \<Rightarrow> if IRQgetPriority k (cur k) < IRQgetPriority k t then True else hppw)"

definition q_IRQget_hppw ::
  "u32 \<Rightarrow> 'a queue_state \<Rightarrow> bool \<Rightarrow> ('a queue_state \<times> 'a option \<times> bool) result" where
  "q_IRQget_hppw len s hppw =
     (let hppw = q_hppw s hppw; (q, k) = IRQwakeWaitingThread s in
      if q_isEmpty q then Inr ((q, k), None, hppw)
      else rbind (q_dequeue len q) (\<lambda>(q, elem). Inr ((q, k), Some elem, hppw)))"

definition q_IRQput_hppw ::
  "u32 \<Rightarrow> 'a queue_state \<Rightarrow> 'a \<Rightarrow> bool \<Rightarrow> ('a queue_state \<times> bool \<times> bool) result" where
  "q_IRQput_hppw len s elem hppw =
     (let hppw = q_hppw s hppw; (q, k) = IRQwakeWaitingThread s in
      if q_isFull len q then Inr ((q, k), False, hppw)
      else rbind (q_enqueue len q elem) (\<lambda>q. Inr ((q, k), True, hppw)))"

definition q_IRQreset :: "'a queue_state \<Rightarrow> 'a queue_state" where
  "q_IRQreset s =
     (let (q, k) = IRQwakeWaitingThread s in
      (q\<lparr>q_numElem := 0, q_getPos := 0, q_putPos := 0\<rparr>, k))"

text \<open>
  The blocking calls loop: each turn, with interrupts disabled, wakes the waiting thread and either
  finishes or registers the current thread as waiting, blocks it and yields. A turn is a function
  (\<open>None\<close>: the thread has blocked, the next turn runs when it is scheduled again).
\<close>

definition q_block :: "'a queue_state \<Rightarrow> 'a queue_state" where
  "q_block = (\<lambda>(q, k). (q\<lparr>q_waiting := Some (cur k)\<rparr>, IRQwait k))"

definition q_get_turn :: "u32 \<Rightarrow> 'a queue_state \<Rightarrow> ('a queue_state \<times> 'a option) result" where
  "q_get_turn len s =
     (let (q, k) = IRQwakeWaitingThread s in
      if q_isEmpty q then Inr (q_block (q, k), None)
      else rbind (q_dequeue len q) (\<lambda>(q, elem). Inr ((q, k), Some elem)))"

definition q_put_turn :: "u32 \<Rightarrow> 'a queue_state \<Rightarrow> 'a \<Rightarrow> ('a queue_state \<times> bool) result" where
  "q_put_turn len s elem =
     (let (q, k) = IRQwakeWaitingThread s in
      if q_isFull len q then Inr (q_block (q, k), False)
      else rbind (q_enqueue len q elem) (\<lambda>q. Inr ((q, k), True)))"

definition waitUntilNotEmpty_turn :: "'a queue_state \<Rightarrow> 'a queue_state \<times> bool" where
  "waitUntilNotEmpty_turn s =
     (let (q, k) = IRQwakeWaitingThread s in
      if q_isEmpty q then (q_block (q, k), False) else ((q, k), True))"

definition waitUntilNotFull_turn :: "u32 \<Rightarrow> 'a queue_state \<Rightarrow> 'a queue_state \<times> bool" where
  "waitUntilNotFull_turn len s =
     (let (q, k) = IRQwakeWaitingThread s in
      if q_isFull len q then (q_block (q, k), False) else ((q, k), True))"

definition q_ok :: "u32 \<Rightarrow> 'a queue \<Rightarrow> bool" where
  "q_ok len q \<longleftrightarrow> ring_ok (q_buffer q) (q_putPos q) (q_getPos q) (q_numElem q) len"

definition q_contents :: "'a queue \<Rightarrow> 'a list" where
  "q_contents q = ring (q_buffer q) (unat (q_getPos q)) (unat (q_numElem q))"

lemma q_enqueue_room:
  assumes inv: "q_ok len q" and room: "q_numElem q \<noteq> len"
  shows "\<exists>q'. q_enqueue len q x = Inr q' \<and> q_ok len q' \<and> q_contents q' = q_contents q @ [x] \<and>
    q_waiting q' = q_waiting q"
proof -
  note put = ring_ok_put [OF inv [unfolded q_ok_def] room]
  note adv = word_advance(3) [OF put(2)]
  show ?thesis
    using room put(1) put(4) [OF adv, of x] put(5) [of x]
    by (simp add: q_enqueue_def Let_def q_ok_def q_contents_def split: if_splits)
qed

lemma q_dequeue_some:
  assumes inv: "q_ok len q" and some: "q_numElem q \<noteq> 0"
  shows "\<exists>q' x. q_dequeue len q = Inr (q', x) \<and> q_ok len q' \<and> q_contents q = x # q_contents q' \<and>
    q_waiting q' = q_waiting q"
proof -
  note get = ring_ok_get [OF inv [unfolded q_ok_def] some]
  note adv = word_advance(3) [OF get(2)]
  show ?thesis
    using some get(1) get(4) [OF adv] get(5) [OF adv]
    by (simp add: q_dequeue_def Let_def q_ok_def q_contents_def split: if_splits)
qed

lemma wake_frame [simp]:
  "q_ok len (fst (IRQwakeWaitingThread s)) = q_ok len (fst s)"
  "q_contents (fst (IRQwakeWaitingThread s)) = q_contents (fst s)"
  "q_numElem (fst (IRQwakeWaitingThread s)) = q_numElem (fst s)"
  "q_waiting (fst (IRQwakeWaitingThread s)) = None"
  "cur (snd (IRQwakeWaitingThread s)) = cur (snd s)"
  by (auto simp: IRQwakeWaitingThread_def q_ok_def q_contents_def split: prod.splits option.splits)

lemma wake_blocked:
  "blocked (snd (IRQwakeWaitingThread s)) t \<longleftrightarrow> q_waiting (fst s) \<noteq> Some t \<and> blocked (snd s) t"
  by (auto simp: IRQwakeWaitingThread_def split: prod.splits option.splits)

lemma q_contents_Nil: "q_contents q = [] \<longleftrightarrow> q_isEmpty q"
  using length_ring [of "q_buffer q" "unat (q_getPos q)" "unat (q_numElem q)"]
  by (auto simp: q_contents_def q_isEmpty_def unat_eq_zero simp del: length_ring)

lemma q_contents_full:
  "q_ok len q \<Longrightarrow> length (q_contents q) < unat len \<longleftrightarrow> \<not> q_isFull len q"
  by (auto simp: q_contents_def q_isFull_def q_ok_def ring_ok_def word_le_nat_alt le_less
      unat_inject)

text \<open>Each call on every branch, in terms of the sequence stored.\<close>

lemma wakeE:
  obtains q' k' where "IRQwakeWaitingThread s = (q', k')" "q_ok len q' = q_ok len (fst s)"
    "q_contents q' = q_contents (fst s)" "q_numElem q' = q_numElem (fst s)" "q_waiting q' = None"
    "cur k' = cur (snd s)"
    "\<And>t. blocked k' t \<longleftrightarrow> q_waiting (fst s) \<noteq> Some t \<and> blocked (snd s) t"
proof -
  obtain q' k' where w: "IRQwakeWaitingThread s = (q', k')" by fastforce
  show thesis
    using that [OF w] wake_frame(1) [of len s] wake_frame(2-) [of s] wake_blocked [of s]
    unfolding w by simp
qed

definition woken :: "'a queue_state \<Rightarrow> 'a queue_state \<Rightarrow> bool" where
  "woken s s' \<longleftrightarrow> q_waiting (fst s') = None \<and>
     (\<forall>t. blocked (snd s') t \<longleftrightarrow> q_waiting (fst s) \<noteq> Some t \<and> blocked (snd s) t)"

definition put_blocked :: "'a queue_state \<Rightarrow> 'a queue_state \<Rightarrow> bool" where
  "put_blocked s s' \<longleftrightarrow> q_waiting (fst s') = Some (cur (snd s)) \<and>
     (\<forall>t. blocked (snd s') t \<longleftrightarrow>
        t = cur (snd s) \<or> q_waiting (fst s) \<noteq> Some t \<and> blocked (snd s) t)"

lemma q_block_contents [simp]:
  "q_contents (q\<lparr>q_waiting := w\<rparr>) = q_contents q" "q_ok len (q\<lparr>q_waiting := w\<rparr>) = q_ok len q"
  by (simp_all add: q_contents_def q_ok_def)

lemma q_put_branches:
  assumes inv: "q_ok len (fst s)"
  shows "\<not> q_isFull len (fst s) \<Longrightarrow>
      \<exists>s'. q_IRQput len s x = Inr (s', True) \<and> q_put_turn len s x = Inr (s', True) \<and>
        q_ok len (fst s') \<and> q_contents (fst s') = q_contents (fst s) @ [x] \<and> woken s s'"
    "q_isFull len (fst s) \<Longrightarrow>
      \<exists>s'. q_IRQput len s x = Inr (s', False) \<and> q_ok len (fst s') \<and>
        q_contents (fst s') = q_contents (fst s) \<and> woken s s'"
    "q_isFull len (fst s) \<Longrightarrow>
      \<exists>s'. q_put_turn len s x = Inr (s', False) \<and> q_ok len (fst s') \<and>
        q_contents (fst s') = q_contents (fst s) \<and> put_blocked s s'"
proof -
  obtain q' k' where w: "IRQwakeWaitingThread s = (q', k')" "q_ok len q' = q_ok len (fst s)"
    "q_contents q' = q_contents (fst s)" "q_numElem q' = q_numElem (fst s)" "q_waiting q' = None"
    "cur k' = cur (snd s)"
    "\<And>t. blocked k' t \<longleftrightarrow> q_waiting (fst s) \<noteq> Some t \<and> blocked (snd s) t"
    by (rule wakeE [of s len]) blast
  have ok: "q_ok len q'" using inv w(2) by simp
  show "\<not> q_isFull len (fst s) \<Longrightarrow>
      \<exists>s'. q_IRQput len s x = Inr (s', True) \<and> q_put_turn len s x = Inr (s', True) \<and>
        q_ok len (fst s') \<and> q_contents (fst s') = q_contents (fst s) @ [x] \<and> woken s s'"
    using q_enqueue_room [OF ok, of x] w(3-) unfolding q_IRQput_def q_put_turn_def w(1)
    by (auto simp: q_isFull_def woken_def)
  show "q_isFull len (fst s) \<Longrightarrow> \<exists>s'. q_IRQput len s x = Inr (s', False) \<and> q_ok len (fst s') \<and>
        q_contents (fst s') = q_contents (fst s) \<and> woken s s'"
    using ok w(3-) unfolding q_IRQput_def w(1) by (auto simp: q_isFull_def woken_def)
  show "q_isFull len (fst s) \<Longrightarrow> \<exists>s'. q_put_turn len s x = Inr (s', False) \<and> q_ok len (fst s') \<and>
        q_contents (fst s') = q_contents (fst s) \<and> put_blocked s s'"
    using ok w(3-) unfolding q_put_turn_def w(1)
    by (auto simp: q_isFull_def put_blocked_def q_block_def)
qed

lemma q_get_branches:
  assumes inv: "q_ok len (fst s)"
  shows "\<not> q_isEmpty (fst s) \<Longrightarrow>
      \<exists>s' x. q_IRQget len s = Inr (s', Some x) \<and> q_get_turn len s = Inr (s', Some x) \<and>
        q_ok len (fst s') \<and> q_contents (fst s) = x # q_contents (fst s') \<and> woken s s'"
    "q_isEmpty (fst s) \<Longrightarrow>
      \<exists>s'. q_IRQget len s = Inr (s', None) \<and> q_ok len (fst s') \<and>
        q_contents (fst s') = q_contents (fst s) \<and> woken s s'"
    "q_isEmpty (fst s) \<Longrightarrow>
      \<exists>s'. q_get_turn len s = Inr (s', None) \<and> q_ok len (fst s') \<and>
        q_contents (fst s') = q_contents (fst s) \<and> put_blocked s s'"
proof -
  obtain q' k' where w: "IRQwakeWaitingThread s = (q', k')" "q_ok len q' = q_ok len (fst s)"
    "q_contents q' = q_contents (fst s)" "q_numElem q' = q_numElem (fst s)" "q_waiting q' = None"
    "cur k' = cur (snd s)"
    "\<And>t. blocked k' t \<longleftrightarrow> q_waiting (fst s) \<noteq> Some t \<and> blocked (snd s) t"
    by (rule wakeE [of s len]) blast
  have ok: "q_ok len q'" using inv w(2) by simp
  show "\<not> q_isEmpty (fst s) \<Longrightarrow>
      \<exists>s' x. q_IRQget len s = Inr (s', Some x) \<and> q_get_turn len s = Inr (s', Some x) \<and>
        q_ok len (fst s') \<and> q_contents (fst s) = x # q_contents (fst s') \<and> woken s s'"
    using q_dequeue_some [OF ok] w(3-) unfolding q_IRQget_def q_get_turn_def w(1)
    by (auto simp: q_isEmpty_def woken_def)
  show "q_isEmpty (fst s) \<Longrightarrow> \<exists>s'. q_IRQget len s = Inr (s', None) \<and> q_ok len (fst s') \<and>
        q_contents (fst s') = q_contents (fst s) \<and> woken s s'"
    using ok w(3-) unfolding q_IRQget_def w(1) by (auto simp: q_isEmpty_def woken_def)
  show "q_isEmpty (fst s) \<Longrightarrow> \<exists>s'. q_get_turn len s = Inr (s', None) \<and> q_ok len (fst s') \<and>
        q_contents (fst s') = q_contents (fst s) \<and> put_blocked s s'"
    using ok w(3-) unfolding q_get_turn_def w(1)
    by (auto simp: q_isEmpty_def put_blocked_def q_block_def)
qed

lemma q_reset_effect:
  assumes "q_ok len (fst s)"
  shows "q_ok len (fst (q_IRQreset s))" "q_contents (fst (q_IRQreset s)) = []"
    "woken s (q_IRQreset s)"
proof -
  obtain q' k' where w: "IRQwakeWaitingThread s = (q', k')" "q_ok len q' = q_ok len (fst s)"
    "q_waiting q' = None" "\<And>t. blocked k' t \<longleftrightarrow> q_waiting (fst s) \<noteq> Some t \<and> blocked (snd s) t"
    by (rule wakeE [of s len]) blast
  with assms show "q_ok len (fst (q_IRQreset s))" "q_contents (fst (q_IRQreset s)) = []"
    "woken s (q_IRQreset s)"
    using ring_ok_reset by (auto simp: q_IRQreset_def q_ok_def q_contents_def woken_def)
qed

interpretation irqq: bounded_fifo "\<lambda>s. q_ok len (fst s)" "\<lambda>s. q_contents (fst s)"
  "\<lambda>_. unat len" "q_IRQput len" "q_IRQget len" q_IRQreset for len
proof unfold_locales
  fix s :: "'a queue_state" and x :: 'a and xs
  assume inv: "q_ok len (fst s)"
  note put = q_put_branches [OF inv, of x] and get = q_get_branches [OF inv]
    and full = q_contents_full [OF inv]
  show "\<exists>s'. q_IRQput len s x = Inr (s', True) \<and> q_ok len (fst s') \<and>
      q_contents (fst s') = q_contents (fst s) @ [x] \<and> unat len = unat len"
    if "length (q_contents (fst s)) < unat len" using that put(1) full by blast
  show "\<exists>s'. q_IRQput len s x = Inr (s', False) \<and> q_ok len (fst s') \<and>
      q_contents (fst s') = q_contents (fst s) \<and> unat len = unat len"
    if "\<not> length (q_contents (fst s)) < unat len" using that put(2) full by blast
  show "\<exists>s'. q_IRQget len s = Inr (s', Some x) \<and> q_ok len (fst s') \<and>
      q_contents (fst s') = xs \<and> unat len = unat len"
    if "q_contents (fst s) = x # xs"
    using that get(1) q_contents_Nil [of "fst s"] by fastforce
  show "\<exists>s'. q_IRQget len s = Inr (s', None) \<and> q_ok len (fst s') \<and>
      q_contents (fst s') = [] \<and> unat len = unat len"
    if "q_contents (fst s) = []"
    using that get(2) q_contents_Nil [of "fst s"] by fastforce
  show "q_ok len (fst (q_IRQreset s)) \<and> q_contents (fst (q_IRQreset s)) = [] \<and>
      unat len = unat len"
    using q_reset_effect [OF inv] by blast
qed

section \<open>A queue between two threads\<close>

text \<open>
  A consumer thread \<open>C\<close> calls \<open>get\<close> and \<open>waitUntilNotEmpty\<close>, a producer \<open>P\<close> calls \<open>put\<close> and
  \<open>waitUntilNotFull\<close>, interrupts call \<open>IRQget\<close> and \<open>IRQput\<close>, anybody resets the queue. A thread runs
  a turn only while its wait flag is clear. Any thread may be woken for another reason (\<open>wakeup\<close>) and
  the rest of the system may change the kernel state in any way that does not touch the two wait
  flags (\<open>other\<close>). The last two components record the elements accepted and those delivered; a
  reset takes the discarded ones off the record.
\<close>

type_synonym 'a queue_sys = "'a queue \<times> kernel \<times> 'a list \<times> 'a list"

inductive queue_step :: "u32 \<Rightarrow> nat \<Rightarrow> nat \<Rightarrow> 'a queue_sys \<Rightarrow> 'a queue_sys \<Rightarrow> bool"
  for len :: u32 and C P :: nat
where
  get_blocks: "\<not> blocked k C \<Longrightarrow> q_get_turn len (q, k\<lparr>cur := C\<rparr>) = Inr ((q', k'), None) \<Longrightarrow>
    queue_step len C P (q, k, sent, recv) (q', k', sent, recv)"
| get_done: "\<not> blocked k C \<Longrightarrow> q_get_turn len (q, k\<lparr>cur := C\<rparr>) = Inr ((q', k'), Some x) \<Longrightarrow>
    queue_step len C P (q, k, sent, recv) (q', k', sent, recv @ [x])"
| put_blocks: "\<not> blocked k P \<Longrightarrow> q_put_turn len (q, k\<lparr>cur := P\<rparr>) x = Inr ((q', k'), False) \<Longrightarrow>
    queue_step len C P (q, k, sent, recv) (q', k', sent, recv)"
| put_done: "\<not> blocked k P \<Longrightarrow> q_put_turn len (q, k\<lparr>cur := P\<rparr>) x = Inr ((q', k'), True) \<Longrightarrow>
    queue_step len C P (q, k, sent, recv) (q', k', sent @ [x], recv)"
| wait_not_empty: "\<not> blocked k C \<Longrightarrow> waitUntilNotEmpty_turn (q, k\<lparr>cur := C\<rparr>) = ((q', k'), b) \<Longrightarrow>
    queue_step len C P (q, k, sent, recv) (q', k', sent, recv)"
| wait_not_full: "\<not> blocked k P \<Longrightarrow> waitUntilNotFull_turn len (q, k\<lparr>cur := P\<rparr>) = ((q', k'), b) \<Longrightarrow>
    queue_step len C P (q, k, sent, recv) (q', k', sent, recv)"
| irq_get: "q_IRQget len (q, k) = Inr ((q', k'), r) \<Longrightarrow>
    queue_step len C P (q, k, sent, recv)
      (q', k', sent, recv @ (case r of None \<Rightarrow> [] | Some x \<Rightarrow> [x]))"
| irq_put: "q_IRQput len (q, k) x = Inr ((q', k'), b) \<Longrightarrow>
    queue_step len C P (q, k, sent, recv) (q', k', sent @ (if b then [x] else []), recv)"
| reset: "q_IRQreset (q, k) = (q', k') \<Longrightarrow>
    queue_step len C P (q, k, sent, recv) (q', k', recv, recv)"
| wakeup: "queue_step len C P (q, k, sent, recv) (q, IRQwakeup t k, sent, recv)"
| other: "blocked k' C = blocked k C \<Longrightarrow> blocked k' P = blocked k P \<Longrightarrow>
    queue_step len C P (q, k, sent, recv) (q, k', sent, recv)"

definition queue_sys_inv :: "u32 \<Rightarrow> nat \<Rightarrow> nat \<Rightarrow> 'a queue_sys \<Rightarrow> bool" where
  "queue_sys_inv len C P = (\<lambda>(q, k, sent, recv).
     q_ok len q \<and> sent = recv @ q_contents q \<and>
     (blocked k C \<longrightarrow> q_isEmpty q \<and> q_waiting q = Some C) \<and>
     (blocked k P \<longrightarrow> q_isFull len q \<and> q_waiting q = Some P))"

text \<open>Waking keeps the invariant whatever the queue holds then; blocking keeps it for the caller.\<close>

lemma woken_cur [simp]: "woken (q, k\<lparr>cur := c\<rparr>) s = woken (q, k) s"
  by (simp add: woken_def)

lemma inv_woken:
  assumes "queue_sys_inv len C P (q, k, sent, recv)" "woken (q, k) (q', k')"
    "q_ok len q'" "sent' = recv' @ q_contents q'"
  shows "queue_sys_inv len C P (q', k', sent', recv')"
  using assms by (auto simp: queue_sys_inv_def woken_def)

lemma inv_blocked_C:
  assumes "queue_sys_inv len C P (q, k, sent, recv)" "C \<noteq> P"
    "put_blocked (q, k\<lparr>cur := C\<rparr>) (q', k')" "q_ok len q'" "q_contents q' = q_contents q"
    "q_isEmpty q"
  shows "queue_sys_inv len C P (q', k', sent, recv)"
  using assms q_contents_Nil [of q] q_contents_Nil [of q'] by (auto simp: queue_sys_inv_def put_blocked_def)

lemma inv_blocked_P:
  assumes "queue_sys_inv len C P (q, k, sent, recv)" "C \<noteq> P"
    "put_blocked (q, k\<lparr>cur := P\<rparr>) (q', k')" "q_ok len q'" "q_contents q' = q_contents q"
    "q_isFull len q"
  shows "queue_sys_inv len C P (q', k', sent, recv)"
  using assms q_contents_full [of len q] q_contents_full [of len q']
  by (auto simp: queue_sys_inv_def put_blocked_def)

lemma wait_turns:
  assumes inv: "q_ok len (fst s)"
  shows "waitUntilNotEmpty_turn s = (s', b) \<Longrightarrow> q_ok len (fst s') \<and>
      q_contents (fst s') = q_contents (fst s) \<and> (b \<longleftrightarrow> \<not> q_isEmpty (fst s)) \<and>
      (if b then woken s s' else put_blocked s s')"
    "waitUntilNotFull_turn len s = (s', b) \<Longrightarrow> q_ok len (fst s') \<and>
      q_contents (fst s') = q_contents (fst s) \<and> (b \<longleftrightarrow> \<not> q_isFull len (fst s)) \<and>
      (if b then woken s s' else put_blocked s s')"
proof -
  obtain q' k' where w: "IRQwakeWaitingThread s = (q', k')" "q_ok len q' = q_ok len (fst s)"
    "q_contents q' = q_contents (fst s)" "q_numElem q' = q_numElem (fst s)" "q_waiting q' = None"
    "cur k' = cur (snd s)"
    "\<And>t. blocked k' t \<longleftrightarrow> q_waiting (fst s) \<noteq> Some t \<and> blocked (snd s) t"
    by (rule wakeE [of s len]) blast
  have awake: "woken s (q', k')" using w(5,7) by (simp add: woken_def)
  have block: "put_blocked s (q_block (q', k'))" using w(6,7) by (simp add: put_blocked_def q_block_def)
  have same: "q_isEmpty q' = q_isEmpty (fst s)" "q_isFull len q' = q_isFull len (fst s)"
    using w(4) by (simp_all add: q_isEmpty_def q_isFull_def)
  have qb: "q_ok len (fst (q_block (q', k')))"
    "q_contents (fst (q_block (q', k'))) = q_contents (fst s)"
    using inv w(2,3) by (simp_all add: q_block_def)
  show "waitUntilNotEmpty_turn s = (s', b) \<Longrightarrow> q_ok len (fst s') \<and>
      q_contents (fst s') = q_contents (fst s) \<and> (b \<longleftrightarrow> \<not> q_isEmpty (fst s)) \<and>
      (if b then woken s s' else put_blocked s s')"
    unfolding waitUntilNotEmpty_turn_def w(1)
    using awake block same(1) qb inv w(2,3) by (cases "q_isEmpty q'") auto
  show "waitUntilNotFull_turn len s = (s', b) \<Longrightarrow> q_ok len (fst s') \<and>
      q_contents (fst s') = q_contents (fst s) \<and> (b \<longleftrightarrow> \<not> q_isFull len (fst s)) \<and>
      (if b then woken s s' else put_blocked s s')"
    unfolding waitUntilNotFull_turn_def w(1)
    using awake block same(2) qb inv w(2,3) by (cases "q_isFull len q'") auto
qed

lemma queue_step_inv:
  assumes "queue_step len C P s s'" "queue_sys_inv len C P s" "C \<noteq> P"
  shows "queue_sys_inv len C P s'"
  using assms
proof (induction rule: queue_step.induct)
  case (get_blocks k q q' k' sent recv)
  have "q_ok len q" using get_blocks by (simp add: queue_sys_inv_def)
  with get_blocks q_get_branches [of len "(q, k\<lparr>cur := C\<rparr>)"] show ?case
    by (cases "q_isEmpty q") (auto intro: inv_blocked_C)
next
  case (get_done k q q' k' x sent recv)
  have "q_ok len q" "sent = recv @ q_contents q" using get_done by (simp_all add: queue_sys_inv_def)
  with get_done q_get_branches [of len "(q, k\<lparr>cur := C\<rparr>)"] show ?case
    by (cases "q_isEmpty q") (auto intro: inv_woken)
next
  case (put_blocks k q x q' k' sent recv)
  have "q_ok len q" using put_blocks by (simp add: queue_sys_inv_def)
  with put_blocks q_put_branches [of len "(q, k\<lparr>cur := P\<rparr>)" x] show ?case
    by (cases "q_isFull len q") (auto intro: inv_blocked_P)
next
  case (put_done k q x q' k' sent recv)
  have "q_ok len q" "sent = recv @ q_contents q" using put_done by (simp_all add: queue_sys_inv_def)
  with put_done q_put_branches [of len "(q, k\<lparr>cur := P\<rparr>)" x] show ?case
    by (cases "q_isFull len q") (auto intro: inv_woken)
next
  case (wait_not_empty k q q' k' b sent recv)
  have "q_ok len q" "sent = recv @ q_contents q"
    using wait_not_empty by (simp_all add: queue_sys_inv_def)
  with wait_not_empty wait_turns(1) [of len "(q, k\<lparr>cur := C\<rparr>)" "(q', k')" b] show ?case
    by (cases b) (auto intro: inv_woken inv_blocked_C)
next
  case (wait_not_full k q q' k' b sent recv)
  have "q_ok len q" "sent = recv @ q_contents q"
    using wait_not_full by (simp_all add: queue_sys_inv_def)
  with wait_not_full wait_turns(2) [of len "(q, k\<lparr>cur := P\<rparr>)" "(q', k')" b] show ?case
    by (cases b) (auto intro: inv_woken inv_blocked_P)
next
  case (irq_get q k q' k' r sent recv)
  have "q_ok len q" "sent = recv @ q_contents q" using irq_get by (simp_all add: queue_sys_inv_def)
  then have "woken (q, k) (q', k') \<and> q_ok len q' \<and>
      sent = (recv @ (case r of None \<Rightarrow> [] | Some x \<Rightarrow> [x])) @ q_contents q'"
    using irq_get(1) q_get_branches(1,2) [of len "(q, k)"] by (cases "q_isEmpty q") auto
  then show ?case using irq_get(2) by (blast intro: inv_woken)
next
  case (irq_put q k x q' k' b sent recv)
  have "q_ok len q" "sent = recv @ q_contents q" using irq_put by (simp_all add: queue_sys_inv_def)
  then have "woken (q, k) (q', k') \<and> q_ok len q' \<and>
      sent @ (if b then [x] else []) = recv @ q_contents q'"
    using irq_put(1) q_put_branches(1,2) [of len "(q, k)" x] by (cases "q_isFull len q") auto
  then show ?case using irq_put(2) by (blast intro: inv_woken)
next
  case (reset q k q' k' sent recv)
  have "q_ok len q" using reset by (simp add: queue_sys_inv_def)
  then show ?case
    using reset(1,2) q_reset_effect [of len "(q, k)"]
      inv_woken [of len C P q k sent recv q' k' recv recv] by simp
qed (auto simp: queue_sys_inv_def)

lemma queue_sys_invariant:
  assumes "(queue_step len C P)\<^sup>*\<^sup>* (new_queue buf, k, [], []) s" "C \<noteq> P"
    "length buf = unat len" "\<not> blocked k C" "\<not> blocked k P"
  shows "queue_sys_inv len C P s"
  using assms(1)
proof (induction rule: rtranclp_induct)
  case base
  show ?case
    using assms(3-5)
    by (auto simp: queue_sys_inv_def new_queue_def q_ok_def ring_ok_def q_contents_def
        word_neq_0_conv)
next
  case (step s s')
  then show ?case using queue_step_inv assms(2) by blast
qed

section \<open>Properties\<close>

text \<open>A freshly built DynUnsyncQueue with a storage of its capacity behaves, over every sequence
  of tryPut, tryGet and reset calls, as a bounded FIFO: no access is out of bounds, a put fails exactly
  when the queue is full, a get exactly when it is empty and otherwise it returns the oldest element.\<close>

theorem dyn_unsync_queue_is_bounded_fifo:
  assumes "length buf = unat c" "run_spec fifo_spec ([], unat c) reqs = Some ((xs, n), outs)"
  shows "\<exists>q. run_impl (fifo_impl tryPut tryGet dq_reset) (new_dyn_queue buf c) reqs = Inr (q, outs) \<and>
    dq_contents q = xs \<and> dq_inv q"
proof -
  have "dyn.fifo_rep (new_dyn_queue buf c) ([], unat c)"
    unfolding dyn.fifo_rep_def using assms(1) by (auto simp: new_dyn_queue_def dq_inv_def ring_ok_def
        dq_contents_def dq_capacity_def word_neq_0_conv)
  from dyn.fifo.run [OF this assms(2)] show ?thesis by (auto simp: dyn.fifo_rep_def)
qed

theorem dyn_unsync_queue_is_bounded_fifo_witness:
  "\<exists>q. run_impl (fifo_impl tryPut tryGet dq_reset) (new_dyn_queue [0, 0::nat] 2)
      [Put 5, Put 6, Put 7, Get, Put 8] =
      Inr (q, [PutDone True, PutDone True, PutDone False, GetDone (Some 5), PutDone True]) \<and>
    dq_contents q = [6, 8] \<and> dq_inv q"
  by (rule dyn_unsync_queue_is_bounded_fifo) simp_all

text \<open>C35. A BufferQueue used as its comments prescribe (ask for a writable buffer, fill it, declare it
  filled; ask for a readable buffer, read it, declare it emptied) transfers whole frames in FIFO order
  without loss: over every sequence of such writes, reads and resets it never calls the error
  handler, and each read returns the data and size of the oldest frame.\<close>

theorem buffer_queue_transfers_frames:
  assumes "length bs = unat nb" "length ss = unat nb"
    "run_spec fifo_spec ([], unat nb) reqs = Some ((xs, n), outs)"
  shows "\<exists>q. run_impl (fifo_impl (bq_write nb) (bq_read nb) bq_reset) (new_buffer_queue bs ss) reqs =
      Inr (q, outs) \<and> bq_contents q = xs \<and> bq_inv nb q"
proof -
  have "bq.fifo_rep nb (new_buffer_queue bs ss) ([], unat nb)"
    unfolding bq.fifo_rep_def using assms(1,2) by (auto simp: new_buffer_queue_def bq_inv_def ring_ok_def
        bq_contents_def word_neq_0_conv)
  from bq.fifo.run [OF this assms(3)] show ?thesis by (auto simp: bq.fifo_rep_def)
qed

theorem buffer_queue_transfers_frames_witness:
  "\<exists>q. run_impl (fifo_impl (bq_write 2) (bq_read 2) bq_reset)
      (new_buffer_queue [[0, 0], [0, 0::nat]] [0, 0])
      [Put ([1, 2], 2), Put ([3, 0], 1), Get, Put ([4, 5], 2)] =
      Inr (q, [PutDone True, PutDone True, GetDone (Some ([1, 2], 2)), PutDone True]) \<and>
    bq_contents q = [([3, 0], 1), ([4, 5], 2)] \<and> bq_inv 2 q"
  by (rule buffer_queue_transfers_frames) simp_all

text \<open>While a BufferQueue is consistent, the buffer tryGetWritableBuffer hands to the writer is a
  valid one and is none of the buffers waiting to be read, so a writer filling it (possibly in an
  interrupt, while the reader is still reading) never overwrites data not yet consumed.\<close>

theorem buffer_queue_writer_disjoint:
  assumes "bq_inv nb q" "tryGetWritableBuffer nb q = Some i"
  shows "i < length (bq_buf q) \<and> i \<notin> set (bq_filled q)"
  using bq_writable_not_filled [OF assms] by blast

theorem buffer_queue_writer_disjoint_witness:
  "(1::nat) < 2 \<and> 1 \<notin> set (bq_filled \<lparr>bq_buf = [[7], [8::nat]], bq_bufSize = [1, 1], bq_put = 1,
     bq_get = 0, bq_cnt = 1\<rparr>)"
proof -
  let ?q = "\<lparr>bq_buf = [[7], [8::nat]], bq_bufSize = [1, 1], bq_put = 1, bq_get = 0, bq_cnt = 1\<rparr>"
  have "bq_inv 2 ?q" "tryGetWritableBuffer 2 ?q = Some 1"
    by (simp_all add: bq_inv_def ring_ok_def tryGetWritableBuffer_def bq_isFull_def)
  from buffer_queue_writer_disjoint [OF this] show ?thesis by simp
qed

text \<open>The interrupt side of Queue is a bounded FIFO: over every sequence of IRQput, IRQget and
  IRQreset calls, from any kernel state, no access is out of bounds, a put is refused exactly when the
  queue is full, a get exactly when it is empty, and elements come out in the order they went in.\<close>

theorem queue_irq_side_is_bounded_fifo:
  assumes "length buf = unat len" "run_spec fifo_spec ([], unat len) reqs = Some ((xs, n), outs)"
  shows "\<exists>s. run_impl (fifo_impl (q_IRQput len) (q_IRQget len) q_IRQreset) (new_queue buf, k) reqs =
      Inr (s, outs) \<and> q_contents (fst s) = xs"
proof -
  have "irqq.fifo_rep len (new_queue buf, k) ([], unat len)"
    unfolding irqq.fifo_rep_def using assms(1) by (auto simp: new_queue_def q_ok_def ring_ok_def
        q_contents_def word_neq_0_conv)
  from irqq.fifo.run [OF this assms(2)] show ?thesis by (auto simp: irqq.fifo_rep_def)
qed

theorem queue_irq_side_is_bounded_fifo_witness:
  "\<forall>k. \<exists>s. run_impl (fifo_impl (q_IRQput 2) (q_IRQget 2) q_IRQreset) (new_queue [0, 0::nat], k)
      [Put 1, Put 2, Put 3, Get, Get, Get] =
      Inr (s, [PutDone True, PutDone True, PutDone False, GetDone (Some 1), GetDone (Some 2),
        GetDone None]) \<and> q_contents (fst s) = []"
  by (intro allI, rule queue_irq_side_is_bounded_fifo) simp_all

text \<open>C33. For a Queue shared by a consumer and a producer thread (and interrupts, resets, unrelated
  wakeups and any other kernel activity), in every reachable state: the elements accepted are exactly
  those delivered followed by those stored, in order; a blocked consumer implies an empty queue and a
  blocked producer a full one (no wakeup is lost); and the two threads are never blocked together.\<close>

theorem queue_no_lost_wakeup:
  assumes "(queue_step len C P)\<^sup>*\<^sup>* (new_queue buf, k0, [], []) (q, k, sent, recv)" "C \<noteq> P"
    "length buf = unat len" "\<not> blocked k0 C" "\<not> blocked k0 P"
  shows "sent = recv @ q_contents q \<and> length (q_contents q) \<le> unat len \<and>
    (blocked k C \<longrightarrow> q_contents q = []) \<and> (blocked k P \<longrightarrow> length (q_contents q) = unat len) \<and>
    \<not> (blocked k C \<and> blocked k P)"
proof -
  have inv: "queue_sys_inv len C P (q, k, sent, recv)"
    by (rule queue_sys_invariant [OF assms])
  then have "q_ok len q" by (simp add: queue_sys_inv_def)
  then have "length (q_contents q) \<le> unat len" "q_isFull len q \<Longrightarrow> length (q_contents q) = unat len"
    by (auto simp: q_ok_def ring_ok_def q_contents_def q_isFull_def word_le_nat_alt)
  with inv assms(2) show ?thesis by (auto simp: queue_sys_inv_def q_contents_Nil)
qed

theorem queue_no_lost_wakeup_witness:
  "\<exists>q1 k1 q2 k2. queue_step 1 1 2 (new_queue [0::nat], boot_kernel 9 8, [], []) (q1, k1, [], []) \<and>
     blocked k1 1 \<and> queue_step 1 1 2 (q1, k1, [], []) (q2, k2, [5], []) \<and>
     [5] = [] @ q_contents q2 \<and> \<not> (blocked k2 1 \<and> blocked k2 2)"
proof -
  let ?q0 = "new_queue [0::nat]" and ?k0 = "boot_kernel 9 8"
  obtain q1 k1 where g: "q_get_turn 1 (?q0, ?k0\<lparr>cur := 1\<rparr>) = Inr ((q1, k1), None)"
    and k1: "blocked k1 1" "\<not> blocked k1 2"
    by (simp add: q_get_turn_def IRQwakeWaitingThread_def new_queue_def q_isEmpty_def q_block_def
        boot_kernel_def IRQwait_def new_thread_def)
  have s1: "queue_step 1 1 2 (?q0, ?k0, [], []) (q1, k1, [], [])"
    by (rule get_blocks [OF _ g]) (simp add: boot_kernel_def new_thread_def)
  have ok: "q_ok 1 q1" "\<not> q_isFull 1 q1"
    using g by (auto simp: q_get_turn_def IRQwakeWaitingThread_def new_queue_def q_isEmpty_def
        q_block_def q_ok_def ring_ok_def q_isFull_def)
  then obtain q2 k2 where "q_put_turn 1 (q1, k1\<lparr>cur := 2\<rparr>) 5 = Inr ((q2, k2), True)"
    using q_put_branches(1) [of 1 "(q1, k1\<lparr>cur := 2\<rparr>)" 5] by auto
  then have s2: "queue_step 1 1 2 (q1, k1, [], []) (q2, k2, [5], [])"
    using put_done [of k1 2 1 q1 5 q2 k2 1 "[]" "[]"] k1 by simp
  have "(queue_step 1 1 2)\<^sup>*\<^sup>* (?q0, ?k0, [], []) (q2, k2, [5], [])" using s1 s2 by auto
  from queue_no_lost_wakeup [OF this] show ?thesis
    using s1 s2 k1 by (auto simp: boot_kernel_def new_thread_def)
qed

end
