(* ===== verification/Sleeping_List.thy ===== *)
theory Sleeping_List
  imports Kernel_State
begin

text \<open>
  The list of sleeping threads (\<^verbatim>\<open>kernel/kernel.cpp\<close>): \<^verbatim>\<open>IRQaddToSleepingList\<close>, \<^verbatim>\<open>IRQwakeThreads\<close> and the
  sleep calls of \<^verbatim>\<open>class Thread\<close>. A \<^verbatim>\<open>SleepData\<close> is an item of the intrusive list and a record of
  \<open>sleepData\<close> at the same address. The loops follow the list's pointers, so they are partial
  functions. The contract the rest of the kernel uses is a map from sleeping threads to
  wakeup times (\<open>sleep_spec\<close>), which the list is shown to simulate.
\<close>

section \<open>Adding and waking\<close>

abbreviation wt :: "kernel \<Rightarrow> nat \<Rightarrow> int" where
  "wt k a \<equiv> wakeup_time (sleepData k a)"

abbreviation sp :: "kernel \<Rightarrow> nat \<Rightarrow> ptr" where
  "sp k a \<equiv> sleep_p (sleepData k a)"

text \<open>\<^verbatim>\<open>while(it != end() && (*it)->wakeup_time < x->wakeup_time) ++it;\<close>\<close>

partial_function (option) find_sleep_pos :: "kernel \<Rightarrow> int \<Rightarrow> ptr \<Rightarrow> ptr result option" where
  "find_sleep_pos k t it =
     (if it = end_it (sleepingList k) then Some (Inr it)
      else case it of
        None \<Rightarrow> Some (Inl NullDeref)
      | Some a \<Rightarrow>
          if wt k a < t then find_sleep_pos k t (item_next (heap (sleepingList k) a))
          else Some (Inr it))"

definition IRQaddToSleepingList :: "nat \<Rightarrow> kernel \<Rightarrow> kernel result option" where
  "IRQaddToSleepingList x k =
     (case sp k x of
        None \<Rightarrow> Some (Inl NullDeref)
      | Some t \<Rightarrow>
          let k = upd_flags t (IRQsetSleep True) k; sl = sleepingList k;
              put = (\<lambda>r. rbind r (\<lambda>sl. Inr (k\<lparr>sleepingList := sl\<rparr>)))
          in if is_empty sl then Some (put (push_front sl x))
             else case front sl of
               None \<Rightarrow> Some (Inl NullDeref)
             | Some f \<Rightarrow>
                 if wt k f \<ge> wt k x then Some (put (push_front sl x))
                 else case find_sleep_pos k (wt k x) (begin_it sl) of
                   None \<Rightarrow> None
                 | Some r \<Rightarrow> Some (rbind r (\<lambda>it. put (insert_before sl it x))))"

text \<open>The loop of \<^verbatim>\<open>IRQwakeThreads\<close>; \<open>res\<close> is its local variable \<^verbatim>\<open>result\<close>.\<close>

partial_function (option) wake_loop ::
  "int \<Rightarrow> ptr \<Rightarrow> bool \<Rightarrow> kernel \<Rightarrow> (kernel \<times> bool) result option" where
  "wake_loop now it res k =
     (if it = end_it (sleepingList k) then Some (Inr (k, res))
      else case it of
        None \<Rightarrow> Some (Inl NullDeref)
      | Some a \<Rightarrow>
          if now < wt k a then Some (Inr (k, res))
          else case sp k a of
            None \<Rightarrow> wake_loop now (item_next (heap (sleepingList k) a)) res k
          | Some t \<Rightarrow>
              let k = upd_flags t (IRQsetSleep False) k;
                  res = (if priority (threads k (cur k)) < priority (threads k t) then True else res)
              in case erase (sleepingList k) it of
                   Inl e \<Rightarrow> Some (Inl e)
                 | Inr (sl, it) \<Rightarrow> wake_loop now it res (k\<lparr>sleepingList := sl\<rparr>))"

definition IRQwakeThreads :: "int \<Rightarrow> kernel \<Rightarrow> (kernel \<times> bool) result option" where
  "IRQwakeThreads now k =
     (if is_empty (sleepingList k) then Some (Inr (k, False))
      else wake_loop now (begin_it (sleepingList k)) False k)"

text \<open>
  The sleep calls: \<open>d\<close> is the address of the \<^verbatim>\<open>SleepData\<close> on the caller's stack, \<open>now\<close> what
  \<^verbatim>\<open>getTime()\<close> returns. Both end with a \<^verbatim>\<open>yield\<close>, which runs the scheduler.
\<close>

definition nanoSleepUntil :: "nat \<Rightarrow> int \<Rightarrow> kernel \<Rightarrow> kernel result option" where
  "nanoSleepUntil d absoluteTimeNs k =
     (let t = max absoluteTimeNs 100000 in
      IRQaddToSleepingList d
        (k\<lparr>sleepData := (sleepData k)(d := \<lparr>sleep_p = Some (cur k), wakeup_time = t\<rparr>)\<rparr>))"

definition nanoSleep :: "nat \<Rightarrow> int \<Rightarrow> int \<Rightarrow> kernel \<Rightarrow> kernel result option" where
  "nanoSleep d now ns k = (if ns \<le> 0 then Some (Inr k) else nanoSleepUntil d (now + ns) k)"

definition thread_sleep :: "nat \<Rightarrow> int \<Rightarrow> u32 \<Rightarrow> kernel \<Rightarrow> kernel result option" where
  "thread_sleep d now ms k = nanoSleep d now (int (unat ms) * 1000000) k"

section \<open>What the loops compute\<close>

lemma rep_hd_neq_end:
  "rep s (xs @ y # ys) \<Longrightarrow> y \<noteq> emptyListItem s"
  using repD(2) [of s "xs @ y # ys"] by auto

lemma rep_next:
  "rep s (xs @ y # ys) \<Longrightarrow> nxt s y = Some (hd (ys @ [emptyListItem s]))"
  using rep_splitD(3) [of s "xs @ [y]" ys] by simp

lemma find_sleep_pos_eq:
  assumes "rep (sleepingList k) (us @ xs)"
  shows "find_sleep_pos k t (Some (hd (xs @ [emptyListItem (sleepingList k)]))) =
    Some (Inr (Some (hd (dropWhile (\<lambda>a. wt k a < t) xs @ [emptyListItem (sleepingList k)]))))"
  using assms
proof (induction xs arbitrary: us)
  case Nil
  then show ?case by (subst find_sleep_pos.simps) (simp add: end_it_def)
next
  case (Cons x xs)
  have "x \<noteq> emptyListItem (sleepingList k)" by (rule rep_hd_neq_end [OF Cons.prems])
  moreover note rep_next [OF Cons.prems]
  moreover have "find_sleep_pos k t (Some (hd (xs @ [emptyListItem (sleepingList k)]))) =
    Some (Inr (Some (hd (dropWhile (\<lambda>a. wt k a < t) xs @ [emptyListItem (sleepingList k)]))))"
    using Cons.IH [of "us @ [x]"] Cons.prems by simp
  ultimately show ?case
    by (subst find_sleep_pos.simps) (simp add: end_it_def)
qed

lemma sorted_insert_pos:
  assumes "sorted (map f xs)"
  shows "sorted (map f (takeWhile (\<lambda>a. f a < f x) xs @ x # dropWhile (\<lambda>a. f a < (f x :: int)) xs))"
  using assms
proof (induction xs)
  case (Cons y ys)
  then show ?case by (auto dest: set_takeWhileD set_dropWhileD)
qed simp

lemma add_sleeping:
  assumes r: "rep (sleepingList k) xs" and p: "sp k x = Some t"
    and fresh: "x \<notin> insert (emptyListItem (sleepingList k)) (set xs)"
  shows "\<exists>sl. IRQaddToSleepingList x k =
      Some (Inr ((upd_flags t (IRQsetSleep True) k)\<lparr>sleepingList := sl\<rparr>)) \<and>
    rep sl (takeWhile (\<lambda>a. wt k a < wt k x) xs @ x # dropWhile (\<lambda>a. wt k a < wt k x) xs) \<and>
    emptyListItem sl = emptyListItem (sleepingList k)"
proof -
  let ?e = "emptyListItem (sleepingList k)" and ?P = "\<lambda>a. wt k a < wt k x"
  define k' where "k' = upd_flags t (IRQsetSleep True) k"
  have k': "sleepingList k' = sleepingList k" "sleepData k' = sleepData k" by (simp_all add: k'_def)
  have hd: "front (sleepingList k) = Some (hd (xs @ [?e]))" using repD(3) [OF r] by (simp add: front_def)
  have ne: "is_empty (sleepingList k) \<longleftrightarrow> xs = []" by (rule rep_is_empty [OF r])
  note unf = IRQaddToSleepingList_def p k'_def [symmetric] Let_def k' hd ne
  show ?thesis
  proof (cases "xs = [] \<or> \<not> ?P (hd xs)")
    case True
    then have tw: "takeWhile ?P xs = []" "dropWhile ?P xs = xs" by (cases xs; auto)+
    from True rep_push_front [OF r fresh] show ?thesis
      by (cases xs) (auto simp: unf tw)
  next
    case False
    have r': "rep (sleepingList k) (takeWhile ?P xs @ dropWhile ?P xs)" using r by simp
    have "find_sleep_pos k' (wt k x) (begin_it (sleepingList k)) =
        Some (Inr (Some (hd (dropWhile ?P xs @ [?e]))))"
      using find_sleep_pos_eq [of k' "[]" xs] r hd k' by (simp add: begin_it_def front_def)
    moreover from rep_insert_before [OF r' _ refl, of x] fresh
    obtain sl where "insert_before (sleepingList k) (Some (hd (dropWhile ?P xs @ [?e]))) x = Inr sl"
      "rep sl (takeWhile ?P xs @ x # dropWhile ?P xs)" "emptyListItem sl = ?e" by auto
    ultimately show ?thesis using False by (cases xs) (auto simp: unf)
  qed
qed

definition expired :: "kernel \<Rightarrow> int \<Rightarrow> nat \<Rightarrow> bool" where
  "expired k now a \<longleftrightarrow> wt k a \<le> now \<and> sp k a \<noteq> None"

text \<open>The state after waking the expired items of \<open>xs\<close>, and whether that calls for a preemption.\<close>

definition wake_threads :: "kernel \<Rightarrow> int \<Rightarrow> nat list \<Rightarrow> nat \<Rightarrow> thread" where
  "wake_threads k now xs t =
     (if Some t \<in> sp k ` set (filter (expired k now) xs)
      then (threads k t)\<lparr>flags := IRQsetSleep False (flags (threads k t))\<rparr> else threads k t)"

definition wakes_higher :: "kernel \<Rightarrow> int \<Rightarrow> nat list \<Rightarrow> bool" where
  "wakes_higher k now xs \<longleftrightarrow>
     (\<exists>a\<in>set xs. expired k now a \<and>
        priority (threads k (cur k)) < priority (threads k (the (sp k a))))"

lemma setSleep_idem [simp]: "IRQsetSleep b (IRQsetSleep c f) = IRQsetSleep b f"
  by (rule bit_word_eqI) (auto simp: flag_setters set_flag_def bit_simps)

lemma wake_head:
  assumes "\<not> now < wt k a" "sp k a = Some t"
    and k1_def: "k1 = (upd_flags t (IRQsetSleep False) k)\<lparr>sleepingList := sl\<rparr>"
  shows "wake_threads k1 now xs = wake_threads k now (a # xs)"
    "wakes_higher k now (a # xs) \<longleftrightarrow>
       priority (threads k1 (cur k1)) < priority (threads k1 t) \<or> wakes_higher k1 now xs"
proof -
  have e: "expired k1 now = expired k now" by (auto simp: k1_def expired_def fun_eq_iff)
  show "wake_threads k1 now xs = wake_threads k now (a # xs)"
    using assms(1,2) unfolding wake_threads_def e
    by (auto simp: k1_def expired_def fun_eq_iff)
  show "wakes_higher k now (a # xs) \<longleftrightarrow>
       priority (threads k1 (cur k1)) < priority (threads k1 t) \<or> wakes_higher k1 now xs"
  proof -
    have "priority (threads k1 b) = priority (threads k b)" "cur k1 = cur k"
      "sleepData k1 = sleepData k" for b
      by (simp_all add: k1_def)
    then show ?thesis using assms(1,2) unfolding wakes_higher_def e by (auto simp: expired_def)
  qed
qed

lemma wake_loop_eq:
  assumes "rep (sleepingList k) (us @ xs)" "sorted (map (wt k) xs)"
    "emptyListItem (sleepingList k) = e"
  shows "\<exists>sl. wake_loop now (Some (hd (xs @ [e]))) res k =
      Some (Inr (k\<lparr>threads := wake_threads k now xs, sleepingList := sl\<rparr>,
        res \<or> wakes_higher k now xs)) \<and>
    rep sl (us @ filter (\<lambda>a. \<not> expired k now a) xs) \<and> emptyListItem sl = e"
  using assms
proof (induction xs arbitrary: us k res)
  case Nil
  have "wake_threads k now [] = threads k" by (simp add: wake_threads_def fun_eq_iff)
  then have "k\<lparr>threads := wake_threads k now [], sleepingList := sleepingList k\<rparr> = k" by simp
  then show ?case
    using Nil.prems
    by (subst wake_loop.simps) (force simp: end_it_def wakes_higher_def intro: exI [of _ "sleepingList k"])
next
  case (Cons x xs)
  note xe = rep_hd_neq_end [OF Cons.prems(1)] and nx = rep_next [OF Cons.prems(1)]
  consider (late) "now < wt k x" | (none) "\<not> now < wt k x" "sp k x = None"
    | (some) t where "\<not> now < wt k x" "sp k x = Some t" by force
  then show ?case
  proof cases
    case late
    with Cons.prems(2) have ne: "\<not> expired k now a" if "a \<in> set (x # xs)" for a
      using that by (auto simp: expired_def)
    then have "filter (expired k now) (x # xs) = []" "filter (\<lambda>a. \<not> expired k now a) (x # xs) = x # xs"
      by (auto simp: filter_empty_conv filter_id_conv)
    moreover from this(1) have "wake_threads k now (x # xs) = threads k"
      by (simp add: wake_threads_def fun_eq_iff del: filter.simps)
    then have "k\<lparr>threads := wake_threads k now (x # xs), sleepingList := sleepingList k\<rparr> = k" by simp
    ultimately show ?thesis
      using late Cons.prems xe ne
      by (subst wake_loop.simps)
        (force simp: end_it_def wakes_higher_def simp del: filter.simps intro: exI [of _ "sleepingList k"])
  next
    case none
    then have "wake_threads k now (x # xs) = wake_threads k now xs"
      "wakes_higher k now (x # xs) = wakes_higher k now xs" "\<not> expired k now x"
      by (auto simp: wake_threads_def wakes_higher_def expired_def fun_eq_iff)
    moreover have "rep (sleepingList k) ((us @ [x]) @ xs)" "sorted (map (wt k) xs)"
      using Cons.prems by simp_all
    note Cons.IH [OF this Cons.prems(3), of res]
    ultimately show ?thesis
      using none xe nx Cons.prems(3) by (subst wake_loop.simps) (auto simp: end_it_def)
  next
    case some
    from rep_erase [OF Cons.prems(1)] Cons.prems(3)
    obtain sl where sl: "erase (sleepingList k) (Some x) = Inr (sl, Some (hd (xs @ [e])))"
      "rep sl (us @ xs)" "emptyListItem sl = e" by auto
    let ?k = "(upd_flags t (IRQsetSleep False) k)\<lparr>sleepingList := sl\<rparr>"
    let ?res = "if priority (threads ?k (cur ?k)) < priority (threads ?k t) then True else res"
    have e: "expired ?k now = expired k now" by (auto simp: expired_def fun_eq_iff)
    note wh = wake_head [where sl = sl and xs = xs, OF some refl]
    have ex: "expired k now x" using some by (simp add: expired_def)
    from Cons.IH [of ?k us ?res] sl Cons.prems(2)
    obtain sl' where IH: "wake_loop now (Some (hd (xs @ [e]))) ?res ?k =
        Some (Inr (?k\<lparr>threads := wake_threads ?k now xs, sleepingList := sl'\<rparr>,
          ?res \<or> wakes_higher ?k now xs))"
      "rep sl' (us @ filter (\<lambda>a. \<not> expired ?k now a) xs)" "emptyListItem sl' = e" by auto
    have "wake_loop now (Some x) res k = wake_loop now (Some (hd (xs @ [e]))) ?res ?k"
      using some xe Cons.prems(3) sl(1)
      by (subst wake_loop.simps) (simp add: end_it_def Let_def)
    moreover have "?k\<lparr>threads := wake_threads ?k now xs, sleepingList := sl'\<rparr> =
        k\<lparr>threads := wake_threads k now (x # xs), sleepingList := sl'\<rparr>"
      by (simp only: wh(1)) (simp add: upd_flags_def upd_thread_def)
    moreover have "(?res \<or> wakes_higher ?k now xs) = (res \<or> wakes_higher k now (x # xs))"
      unfolding wh(2) by auto
    ultimately show ?thesis using IH ex by (auto simp: e)
  qed
qed

lemma IRQwakeThreads_eq:
  assumes xs: "rep (sleepingList k) xs" "sorted (map (wt k) xs)"
  shows "\<exists>sl. IRQwakeThreads now k =
      Some (Inr (k\<lparr>threads := wake_threads k now xs, sleepingList := sl\<rparr>, wakes_higher k now xs)) \<and>
    rep sl (filter (\<lambda>a. \<not> expired k now a) xs) \<and>
    emptyListItem sl = emptyListItem (sleepingList k)"
proof (cases "xs = []")
  case True
  then have "wake_threads k now xs = threads k" "\<not> wakes_higher k now xs"
    by (auto simp: wake_threads_def wakes_higher_def fun_eq_iff)
  with True show ?thesis
    using xs(1) rep_is_empty [OF xs(1)]
    by (intro exI [of _ "sleepingList k"]) (simp add: IRQwakeThreads_def)
next
  case False
  then show ?thesis
    using wake_loop_eq [of k "[]" xs _ now False] xs rep_is_empty [OF xs(1)] repD(3) [OF xs(1)]
    by (simp add: IRQwakeThreads_def begin_it_def)
qed

section \<open>The contract: a map from sleeping threads to wakeup times\<close>

text \<open>
  The abstract state lists the sleeping threads with the address of their record and the time they
  asked for, in the order they went to sleep, with the running thread and the priorities.
\<close>

type_synonym sleepers = "(nat \<times> nat \<times> int) list \<times> nat \<times> (nat \<Rightarrow> int)"

datatype sleep_req = SleepUntil nat nat int | WakeExpired int

fun sleep_spec :: "nat \<Rightarrow> sleepers \<Rightarrow> sleep_req \<Rightarrow> (sleepers \<times> bool) option" where
  "sleep_spec e (m, c, pr) (SleepUntil t d w) =
     (if t \<in> fst ` set m \<or> d = e \<or> d \<in> (fst \<circ> snd) ` set m then None
      else Some (((t, d, max w 100000) # m, t, pr), False))"
| "sleep_spec e (m, c, pr) (WakeExpired now) =
     Some ((filter (\<lambda>(t, d, w). now < w) m, c, pr),
       list_ex (\<lambda>(t, d, w). w \<le> now \<and> pr c < pr t) m)"

fun sleep_impl :: "kernel \<Rightarrow> sleep_req \<Rightarrow> fault option + (kernel \<times> bool)" where
  "sleep_impl k (SleepUntil t d w) =
     rbind (returning (nanoSleepUntil d w (k\<lparr>cur := t\<rparr>))) (\<lambda>k. Inr (k, False))"
| "sleep_impl k (WakeExpired now) = returning (IRQwakeThreads now k)"

definition sleep_inv :: "nat \<Rightarrow> kernel \<Rightarrow> sleepers \<Rightarrow> bool" where
  "sleep_inv e k = (\<lambda>(m, c, pr).
     emptyListItem (sleepingList k) = e \<and> cur k = c \<and> (\<lambda>t. priority (threads k t)) = pr \<and>
     distinct (map fst m) \<and>
     (\<forall>t. isSleeping (flags (threads k t)) \<longleftrightarrow> t \<in> fst ` set m) \<and>
     (\<exists>xs. rep (sleepingList k) xs \<and> sorted (map (wt k) xs) \<and>
        set m = (\<lambda>a. (the (sp k a), a, wt k a)) ` set xs \<and> (\<forall>a\<in>set xs. sp k a \<noteq> None)))"

lemma sleep_inv_add:
  assumes inv: "sleep_inv e k (m, c, pr)"
    and t: "t \<notin> fst ` set m" and d: "d \<noteq> e" "d \<notin> (fst \<circ> snd) ` set m"
  shows "\<exists>k'. nanoSleepUntil d w (k\<lparr>cur := t\<rparr>) = Some (Inr k') \<and>
    sleep_inv e k' ((t, d, max w 100000) # m, t, pr)"
proof -
  define w' where "w' = max w 100000"
  define k1 where "k1 = k\<lparr>cur := t, sleepData := (sleepData k)(d := \<lparr>sleep_p = Some t, wakeup_time = w'\<rparr>)\<rparr>"
  from inv obtain xs where xs: "rep (sleepingList k) xs" "sorted (map (wt k) xs)"
    "set m = (\<lambda>a. (the (sp k a), a, wt k a)) ` set xs" "\<forall>a\<in>set xs. sp k a \<noteq> None"
    by (auto simp: sleep_inv_def)
  have dx: "d \<notin> set xs" using d(2) unfolding xs(3) by (auto simp: image_image)
  have e: "emptyListItem (sleepingList k) = e" using inv by (simp add: sleep_inv_def)
  have same: "sleepData k1 a = sleepData k a" if "a \<in> set xs" for a
    using that dx by (auto simp: k1_def)
  let ?ys = "takeWhile (\<lambda>a. wt k1 a < wt k1 d) xs @ d # dropWhile (\<lambda>a. wt k1 a < wt k1 d) xs"
  have "rep (sleepingList k1) xs" "sp k1 d = Some t" using xs(1) by (simp_all add: k1_def)
  from add_sleeping [OF this] obtain sl where
    sl: "IRQaddToSleepingList d k1 = Some (Inr ((upd_flags t (IRQsetSleep True) k1)\<lparr>sleepingList := sl\<rparr>))"
      "rep sl ?ys" "emptyListItem sl = e"
    using dx d(1) e by (auto simp: k1_def)
  let ?k = "(upd_flags t (IRQsetSleep True) k1)\<lparr>sleepingList := sl\<rparr>"
  have ys: "set ?ys = insert d (set xs)"
    by (metis Un_insert_right list.simps(15) set_append takeWhile_dropWhile_id)
  have "sorted (map (wt k1) xs)" using xs(2) same by (metis (mono_tags, lifting) map_eq_conv)
  then have so: "sorted (map (wt ?k) ?ys)" using sorted_insert_pos [of "wt k1" xs d] by simp
  have mm: "set ((t, d, w') # m) = (\<lambda>a. (the (sp ?k a), a, wt ?k a)) ` set ?ys"
    using xs(3) same dx unfolding ys by (auto simp: k1_def image_def)
  have ns: "\<forall>a\<in>set ?ys. sp ?k a \<noteq> None" using xs(4) same unfolding ys by (auto simp: k1_def)
  have fl: "\<forall>u. isSleeping (flags (threads ?k u)) \<longleftrightarrow> u \<in> fst ` set ((t, d, w') # m)"
    using inv by (simp add: sleep_inv_def k1_def)
  have pr: "(\<lambda>u. priority (threads ?k u)) = pr"
    using inv by (auto simp: sleep_inv_def k1_def fun_eq_iff)
  have di: "distinct (map fst ((t, d, w') # m))" using inv t by (simp add: sleep_inv_def)
  have ec: "emptyListItem (sleepingList ?k) = e" "cur ?k = t" "rep (sleepingList ?k) ?ys"
    using sl(2,3) by (simp_all add: k1_def)
  have "sleep_inv e ?k ((t, d, w') # m, t, pr)"
    unfolding sleep_inv_def split_conv using ec pr di fl so mm ns by blast
  moreover have "nanoSleepUntil d w (k\<lparr>cur := t\<rparr>) = Some (Inr ?k)"
    using sl(1) by (simp add: nanoSleepUntil_def k1_def w'_def)
  ultimately show ?thesis by (auto simp: w'_def)
qed

lemma sleep_inv_wake:
  assumes inv: "sleep_inv e k (m, c, pr)"
  shows "\<exists>k'. IRQwakeThreads now k =
      Some (Inr (k', list_ex (\<lambda>(t, d, w). w \<le> now \<and> pr c < pr t) m)) \<and>
    sleep_inv e k' (filter (\<lambda>(t, d, w). now < w) m, c, pr)"
proof -
  from inv obtain xs where xs: "rep (sleepingList k) xs" "sorted (map (wt k) xs)"
    and m: "set m = (\<lambda>a. (the (sp k a), a, wt k a)) ` set xs" and ns: "\<forall>a\<in>set xs. sp k a \<noteq> None"
    by (auto simp: sleep_inv_def)
  have e: "emptyListItem (sleepingList k) = e" and c: "cur k = c"
    and di: "distinct (map fst m)" and pr: "pr = (\<lambda>t. priority (threads k t))"
    and fl: "\<And>t. isSleeping (flags (threads k t)) \<longleftrightarrow> t \<in> fst ` set m"
    using inv by (auto simp: sleep_inv_def)
  have ex: "expired k now a \<longleftrightarrow> wt k a \<le> now" if "a \<in> set xs" for a
    using that ns by (auto simp: expired_def)
  have res: "wakes_higher k now xs = list_ex (\<lambda>(t, d, w). w \<le> now \<and> pr c < pr t) m"
    using ex unfolding wakes_higher_def list_ex_iff m by (auto simp: c pr)
  obtain sl where sl: "IRQwakeThreads now k =
      Some (Inr (k\<lparr>threads := wake_threads k now xs, sleepingList := sl\<rparr>, wakes_higher k now xs))"
    "rep sl (filter (\<lambda>a. \<not> expired k now a) xs)" "emptyListItem sl = e"
    using IRQwakeThreads_eq [OF xs, of now] e by blast
  let ?k = "k\<lparr>threads := wake_threads k now xs, sleepingList := sl\<rparr>"
  let ?m = "filter (\<lambda>(t, d, w). now < w) m" and ?xs = "filter (\<lambda>a. \<not> expired k now a) xs"
  have set_m: "set ?m = (\<lambda>a. (the (sp k a), a, wt k a)) ` set ?xs"
    using m ex by (auto simp: image_iff)
  have "isSleeping (flags (threads ?k t)) \<longleftrightarrow> t \<in> fst ` set ?m" for t
  proof -
    have "Some t \<in> sp k ` set (filter (expired k now) xs) \<longleftrightarrow> (\<exists>d w. (t, d, w) \<in> set m \<and> w \<le> now)"
      using m ex ns by (force simp: image_iff)
    moreover have "t \<in> fst ` set ?m \<longleftrightarrow> (\<exists>d w. (t, d, w) \<in> set m \<and> now < w)" by force
    moreover have "t \<in> fst ` set m \<longleftrightarrow> (\<exists>d w. (t, d, w) \<in> set m)" by force
    moreover have "w = w'" if "(t, d, w) \<in> set m" "(t, d', w') \<in> set m" for d w d' w'
      using eq_key_imp_eq_value [OF di, of t] that by blast
    ultimately show ?thesis using fl [of t] by (auto simp: wake_threads_def not_less)
  qed
  moreover have "(\<lambda>t. priority (threads ?k t)) = pr"
    by (auto simp: pr wake_threads_def fun_eq_iff)
  moreover have "distinct (map fst ?m)" using di by (rule distinct_map_filter)
  moreover have "sorted (map (wt ?k) ?xs)" using xs(2) by (simp add: sorted_filter)
  moreover have "\<forall>a\<in>set ?xs. sp ?k a \<noteq> None" using ns by simp
  ultimately have "sleep_inv e ?k (?m, c, pr)"
    unfolding sleep_inv_def split_conv
    using sl(2,3) c set_m by (intro conjI exI [of _ ?xs]) simp_all
  with sl(1) res show ?thesis by auto
qed

interpretation sleeping: simulation "sleep_inv e" sleep_impl "sleep_spec e" for e
proof unfold_locales
  fix k a q a' r
  assume R: "sleep_inv e k a" and S: "sleep_spec e a q = Some (a', r)"
  obtain m c pr where a: "a = (m, c, pr)" by (cases a) auto
  show "\<exists>k'. sleep_impl k q = Inr (k', r) \<and> sleep_inv e k' a'"
  proof (cases q)
    case (SleepUntil t d w)
    with S a have "t \<notin> fst ` set m" "d \<noteq> e" "d \<notin> (fst \<circ> snd) ` set m"
      and a': "a' = ((t, d, max w 100000) # m, t, pr)" "\<not> r" by (auto split: if_splits)
    from sleep_inv_add [OF R [unfolded a] this(1-3), of w] SleepUntil a' show ?thesis by auto
  next
    case (WakeExpired now)
    from sleep_inv_wake [OF R [unfolded a], of now] S WakeExpired a show ?thesis by auto
  qed
qed

section \<open>Properties\<close>

text \<open>C31. From a kernel with no sleeping thread, over every sequence of threads going to sleep (each with
  its own SleepData) and of timer interrupts, the loops over the sleeping list terminate without
  dereferencing null, each interrupt wakes exactly the threads whose time has passed (a thread's
  SLEEP flag is set exactly while it has not been woken), reports a preemption exactly when one of
  them has a higher priority than the running thread, and the list stays sorted by wakeup time.\<close>

theorem sleeping_list_refines_map:
  assumes "rep (sleepingList k) []" "emptyListItem (sleepingList k) = e"
    "\<forall>t. \<not> isSleeping (flags (threads k t))"
    "run_spec (sleep_spec e) ([], cur k, \<lambda>t. priority (threads k t)) reqs = Some ((m, c, pr), outs)"
  shows "\<exists>k' xs. run_impl sleep_impl k reqs = Inr (k', outs) \<and>
    (\<forall>t. isSleeping (flags (threads k' t)) \<longleftrightarrow> t \<in> fst ` set m) \<and>
    rep (sleepingList k') xs \<and> sorted (map (wt k') xs) \<and>
    set m = (\<lambda>a. (the (sp k' a), a, wt k' a)) ` set xs"
proof -
  have "sleep_inv e k ([], cur k, \<lambda>t. priority (threads k t))"
    using assms(1-3) by (simp add: sleep_inv_def)
  from sleeping.run [OF this assms(4)] obtain k' where "run_impl sleep_impl k reqs = Inr (k', outs)"
    "sleep_inv e k' (m, c, pr)" by blast
  then show ?thesis by (auto simp: sleep_inv_def)
qed

theorem sleeping_list_refines_map_witness:
  "\<exists>k' xs. run_impl sleep_impl (boot_kernel 9 8)
      [SleepUntil 1 20 300000, SleepUntil 2 21 50, SleepUntil 3 22 200000, WakeExpired 200000] =
      Inr (k', [False, False, False, False]) \<and>
    (\<forall>t. isSleeping (flags (threads k' t)) \<longleftrightarrow> t \<in> fst ` set [(1, 20 :: nat, 300000 :: int)]) \<and>
    rep (sleepingList k') xs \<and> sorted (map (wt k') xs) \<and>
    set [(1, 20, 300000)] = (\<lambda>a. (the (sp k' a), a, wt k' a)) ` set xs"
proof (rule sleeping_list_refines_map [where e = 8])
  show "run_spec (sleep_spec 8) ([], cur (boot_kernel 9 8), \<lambda>t. priority (threads (boot_kernel 9 8) t))
     [SleepUntil 1 20 300000, SleepUntil 2 21 50, SleepUntil 3 22 200000, WakeExpired 200000] =
     Some (([(1, 20, 300000)], 3, \<lambda>t. 1), [False, False, False, False])"
    by (simp add: boot_kernel_def new_thread_def)
qed (simp_all add: boot_kernel_def new_thread_def rep_new_list, simp add: new_list_def)

end
