(* ===== verification/Priority_Scheduler.thy ===== *)
theory Priority_Scheduler
  imports Sleeping_List
begin

text \<open>
  \<^verbatim>\<open>class PriorityScheduler\<close> (\<^verbatim>\<open>scheduler/priority/priority_scheduler.cpp\<close>) and the timer interrupt
  (\<^verbatim>\<open>scheduler/timer_interrupt.h\<close>), at the level of the pointers: one circular singly linked list of
  threads per priority, \<^verbatim>\<open>thread_list[i]\<close> pointing to the thread that ran last. The relation
  \<open>sched_rep\<close> says which lists of threads the pointers represent; every operation is shown to
  implement an operation on those lists (\<open>sched_spec\<close>), from which follow that the highest
  priority ready thread runs and that threads of one priority take turns.
\<close>

section \<open>The scheduler\<close>

definition PRIORITY_MAX :: nat where "PRIORITY_MAX = 4"
definition MAX_TIME_SLICE :: int where "MAX_TIME_SLICE = 1000000"
definition LLONG_MAX :: int where "LLONG_MAX = 9223372036854775807"

abbreviation snext :: "kernel \<Rightarrow> nat \<Rightarrow> ptr" where
  "snext k t \<equiv> sched_next (threads k t)"

definition set_snext :: "nat \<Rightarrow> ptr \<Rightarrow> kernel \<Rightarrow> kernel" where
  "set_snext t v k = upd_thread t (\<lambda>th. th\<lparr>sched_next := v\<rparr>) k"

definition set_prio :: "nat \<Rightarrow> int \<Rightarrow> kernel \<Rightarrow> kernel" where
  "set_prio t p k = upd_thread t (\<lambda>th. th\<lparr>priority := p\<rparr>) k"

text \<open>\<^verbatim>\<open>PrioritySchedulerPriority::validate\<close>, and \<^verbatim>\<open>thread_list\<close> indexed by a priority.\<close>

definition prio_validate :: "int \<Rightarrow> bool" where
  "prio_validate p \<longleftrightarrow> 0 \<le> p \<and> p < int PRIORITY_MAX"

definition tl_get :: "kernel \<Rightarrow> int \<Rightarrow> ptr result" where
  "tl_get k p = (if p < 0 then Inl OutOfBounds else arr_get (thread_list k) (nat p))"

definition tl_set :: "int \<Rightarrow> ptr \<Rightarrow> kernel \<Rightarrow> kernel result" where
  "tl_set p v k =
     (if p < 0 then Inl OutOfBounds
      else rbind (arr_set (thread_list k) (nat p) v) (\<lambda>l. Inr (k\<lparr>thread_list := l\<rparr>)))"

text \<open>The insertion both \<^verbatim>\<open>PKaddThread\<close> and \<^verbatim>\<open>PKsetPriority\<close> end with.\<close>

definition link_thread :: "nat \<Rightarrow> int \<Rightarrow> kernel \<Rightarrow> kernel result" where
  "link_thread t p k =
     rbind (tl_get k p) (\<lambda>h.
     case h of
       None \<Rightarrow> rbind (tl_set p (Some t) k) (\<lambda>k. Inr (set_snext t (Some t) k))
     | Some a \<Rightarrow> let k = set_snext t (snext k a) k in Inr (set_snext a (Some t) k))"

definition PKaddThread :: "nat \<Rightarrow> int \<Rightarrow> kernel \<Rightarrow> (kernel \<times> bool) result" where
  "PKaddThread t p k = rbind (link_thread t p (set_prio t p k)) (\<lambda>k. Inr (k, True))"

partial_function (option) exists_loop :: "kernel \<Rightarrow> nat \<Rightarrow> ptr \<Rightarrow> ptr \<Rightarrow> bool result option" where
  "exists_loop k t h temp =
     oderef temp (\<lambda>a.
          if a = t \<and> \<not> isDeleted (flags (threads k a)) then Some (Inr True)
          else if snext k a = h then Some (Inr False)
          else exists_loop k t h (snext k a))"

fun exists_levels :: "nat \<Rightarrow> nat \<Rightarrow> kernel \<Rightarrow> bool result option" where
  "exists_levels 0 t k = Some (Inr False)"
| "exists_levels (Suc i) t k =
     (case thread_list k ! i of
        None \<Rightarrow> exists_levels i t k
      | Some h \<Rightarrow> obind (exists_loop k t (Some h) (Some h)) (\<lambda>found.
          if found then Some (Inr True) else exists_levels i t k))"

definition PKexists :: "nat \<Rightarrow> kernel \<Rightarrow> bool result option" where
  "PKexists t k = exists_levels PRIORITY_MAX t k"

text \<open>\<^verbatim>\<open>while(tail->schedData.next!=thread_list[i]) tail=tail->schedData.next;\<close>\<close>

partial_function (option) find_tail :: "kernel \<Rightarrow> ptr \<Rightarrow> ptr \<Rightarrow> ptr result option" where
  "find_tail k h tl_ptr =
     oderef tl_ptr (\<lambda>a. if snext k a = h then Some (Inr tl_ptr) else find_tail k h (snext k a))"

definition free_thread :: "nat \<Rightarrow> kernel \<Rightarrow> kernel" where
  "free_thread t k = k\<lparr>freed := freed k @ [t]\<rparr>"

text \<open>The loop that removes dead threads from the front of level \<open>i\<close>; \<open>first\<close> and \<open>tl_ptr\<close> are its
  local variables.\<close>

partial_function (option) remove_front ::
  "nat \<Rightarrow> bool \<Rightarrow> ptr \<Rightarrow> kernel \<Rightarrow> kernel result option" where
  "remove_front i first tl_ptr k =
     oderef (thread_list k ! i) (\<lambda>h.
          if \<not> isDeleted (flags (threads k h)) then Some (Inr k)
          else if snext k h = Some h
          then Some (Inr ((free_thread h k)\<lparr>thread_list := (thread_list k)[i := nullptr]\<rparr>))
          else obind (if first then Some (Inr tl_ptr) else find_tail k (Some h) (Some h)) (\<lambda>tl_ptr.
            oderef tl_ptr (\<lambda>b.
              remove_front i True tl_ptr
                (free_thread h (set_snext b (snext k h)
                  (k\<lparr>thread_list := (thread_list k)[i := snext k h]\<rparr>))))))"

partial_function (option) remove_rest :: "nat \<Rightarrow> ptr \<Rightarrow> kernel \<Rightarrow> kernel result option" where
  "remove_rest i temp k =
     oderef temp (\<lambda>a.
          if snext k a = thread_list k ! i then Some (Inr k)
          else oderef (snext k a) (\<lambda>d.
              if isDeleted (flags (threads k d))
              then remove_rest i temp (free_thread d (set_snext a (snext k d) k))
              else remove_rest i (Some d) k))"

definition remove_dead_level :: "nat \<Rightarrow> kernel \<Rightarrow> kernel result option" where
  "remove_dead_level i k =
     (if thread_list k ! i = nullptr then Some (Inr k)
      else obind (remove_front i False nullptr k) (\<lambda>k.
        if thread_list k ! i = nullptr then Some (Inr k)
        else remove_rest i (thread_list k ! i) k))"

fun remove_dead_levels :: "nat \<Rightarrow> kernel \<Rightarrow> kernel result option" where
  "remove_dead_levels 0 k = Some (Inr k)"
| "remove_dead_levels (Suc i) k = obind (remove_dead_level i k) (remove_dead_levels i)"

definition PKremoveDeadThreads :: "kernel \<Rightarrow> kernel result option" where
  "PKremoveDeadThreads k = remove_dead_levels PRIORITY_MAX k"

text \<open>The general case of the removal in \<^verbatim>\<open>PKsetPriority\<close>: \<open>h\<close> is the head of the old list.\<close>

partial_function (option) unlink_loop :: "nat \<Rightarrow> ptr \<Rightarrow> ptr \<Rightarrow> kernel \<Rightarrow> kernel result option" where
  "unlink_loop t h temp k =
     oderef temp (\<lambda>a.
          if snext k a = h then Some (Inl (ErrorHandler UNEXPECTED))
          else if snext k a = Some t then Some (Inr (set_snext a (snext k t) k))
          else unlink_loop t h (snext k a) k)"

definition unlink_thread :: "nat \<Rightarrow> int \<Rightarrow> kernel \<Rightarrow> kernel result option" where
  "unlink_thread t p k =
     obind (Some (tl_get k p)) (\<lambda>h.
     if h = Some t
     then if snext k t = Some t then Some (tl_set p nullptr k)
          else obind (find_tail k h h) (\<lambda>tl_ptr.
               obind (Some (tl_set p (snext k t) k)) (\<lambda>k.
               oderef tl_ptr (\<lambda>b. obind (Some (tl_get k p)) (\<lambda>h'. Some (Inr (set_snext b h' k))))))
     else unlink_loop t h h k)"

definition PKsetPriority :: "nat \<Rightarrow> int \<Rightarrow> kernel \<Rightarrow> kernel result option" where
  "PKsetPriority t newPriority k =
     (let oldPriority = priority (threads k t);
          k = set_prio t newPriority k
      in obind (unlink_thread t oldPriority k) (\<lambda>k. Some (link_thread t newPriority k)))"

definition IRQsetIdleThread :: "nat \<Rightarrow> kernel \<Rightarrow> kernel" where
  "IRQsetIdleThread t k = (set_prio t (-1) k)\<lparr>idle := t\<rparr>"

definition IRQgetNextPreemption :: "kernel \<Rightarrow> int" where
  "IRQgetNextPreemption k = nextPeriodicPreemption k"

text \<open>\<open>now\<close> is what \<^verbatim>\<open>IRQgetTime()\<close> returns; \<open>osTimerIrq\<close> is the interrupt the timer is set to.\<close>

definition IRQsetNextPreemption :: "int \<Rightarrow> bool \<Rightarrow> kernel \<Rightarrow> kernel result" where
  "IRQsetNextPreemption now curIsIdleThread k =
     rbind (if is_empty (sleepingList k) then Inr LLONG_MAX
            else deref (front (sleepingList k)) (\<lambda>a. Inr (wt k a))) (\<lambda>firstWakeupInList.
     let n = (if curIsIdleThread then firstWakeupInList
              else min firstWakeupInList (now + MAX_TIME_SLICE))
     in Inr (k\<lparr>nextPeriodicPreemption := n, osTimerIrq := n\<rparr>))"

partial_function (option) find_ready :: "kernel \<Rightarrow> ptr \<Rightarrow> ptr \<Rightarrow> ptr result option" where
  "find_ready k start temp =
     oderef temp (\<lambda>a.
          if isReady (flags (threads k a)) then Some (Inr temp)
          else if snext k a = start then Some (Inr nullptr)
          else find_ready k start (snext k a))"

fun find_levels :: "int \<Rightarrow> nat \<Rightarrow> kernel \<Rightarrow> kernel result option" where
  "find_levels now 0 k = Some (IRQsetNextPreemption now True (k\<lparr>cur := idle k\<rparr>))"
| "find_levels now (Suc i) k =
     (case thread_list k ! i of
        None \<Rightarrow> find_levels now i k
      | Some h \<Rightarrow> obind (find_ready k (snext k h) (snext k h)) (\<lambda>r.
          case r of
            None \<Rightarrow> find_levels now i k
          | Some t \<Rightarrow>
              Some (IRQsetNextPreemption now False
                (k\<lparr>cur := t, thread_list := (thread_list k)[i := Some t]\<rparr>))))"

definition IRQfindNextThread :: "int \<Rightarrow> kernel \<Rightarrow> kernel result option" where
  "IRQfindNextThread now k =
     (if kernel_running k \<noteq> 0 then Some (Inr k) else find_levels now PRIORITY_MAX k)"

definition IRQtimerInterrupt :: "int \<Rightarrow> int \<Rightarrow> kernel \<Rightarrow> kernel result option" where
  "IRQtimerInterrupt currentTime now k =
     obind (IRQwakeThreads currentTime k) (\<lambda>(k, hptw).
     if currentTime \<ge> IRQgetNextPreemption k \<or> hptw
     then obind (IRQfindNextThread now k) (\<lambda>k.
          Some (Inr (if kernel_running k \<noteq> 0 then k\<lparr>pendingWakeup := True\<rparr> else k)))
     else Some (Inr k))"

section \<open>Circular lists\<close>

text \<open>\<open>chain nx xs b\<close>: following \<open>nx\<close> from the first of \<open>xs\<close> visits \<open>xs\<close> and arrives at \<open>b\<close>.\<close>

fun chain :: "(nat \<Rightarrow> ptr) \<Rightarrow> nat list \<Rightarrow> nat \<Rightarrow> bool" where
  "chain nx [] b \<longleftrightarrow> True"
| "chain nx (x # xs) b \<longleftrightarrow> nx x = Some (hd (xs @ [b])) \<and> chain nx xs b"

lemma chain_append: "chain nx (xs @ ys) b \<longleftrightarrow> chain nx xs (hd (ys @ [b])) \<and> chain nx ys b"
  by (induction xs) (auto simp: hd_append)

lemma chain_cong: "(\<And>a. a \<in> set xs \<Longrightarrow> nx' a = nx a) \<Longrightarrow> chain nx' xs b = chain nx xs b"
  by (induction xs) auto

lemma chain_rotate: "chain nx (xs @ y # ys) (hd (xs @ [y])) \<Longrightarrow> chain nx (y # ys @ xs) y"
  by (cases xs) (auto simp: chain_append hd_append)

lemma chain_relink:
  assumes "chain nx (ys @ [z]) c" "z \<notin> set ys"
  shows "chain (\<lambda>a. if a = z then Some d else nx a) (ys @ [z]) d"
proof -
  have "chain (\<lambda>a. if a = z then Some d else nx a) ys b = chain nx ys b" for b
    by (rule chain_cong) (use assms(2) in auto)
  with assms(1) show ?thesis by (simp add: chain_append)
qed

lemma chain_remove:
  assumes "chain nx (us @ a # t # ws) b" "a \<notin> set us" "a \<notin> set ws"
  shows "chain (\<lambda>x. if x = a then nx t else nx x) (us @ a # ws) b"
proof -
  have "chain (\<lambda>x. if x = a then nx t else nx x) us c = chain nx us c"
    "chain (\<lambda>x. if x = a then nx t else nx x) ws c = chain nx ws c" for c
    using assms(2,3) by (auto intro!: chain_cong)
  with assms(1) show ?thesis by (simp add: chain_append)
qed

lemma chain_insert:
  assumes "chain nx (h # ws) b" "t \<notin> set (h # ws)" "h \<notin> set ws"
  shows "chain (\<lambda>x. if x = h then Some t else if x = t then nx h else nx x) (h # t # ws) b"
proof -
  have "chain (\<lambda>x. if x = h then Some t else if x = t then nx h else nx x) ws c = chain nx ws c" for c
    using assms(2,3) by (auto intro!: chain_cong)
  with assms show ?thesis by auto
qed

text \<open>The pointer of a level and the threads of the level, from the one that ran last on.\<close>

definition level :: "kernel \<Rightarrow> nat \<Rightarrow> nat list \<Rightarrow> bool" where
  "level k i xs \<longleftrightarrow> thread_list k ! i = (if xs = [] then nullptr else Some (hd xs)) \<and>
     chain (\<lambda>t. snext k t) xs (hd xs)"

definition sched_rep :: "kernel \<Rightarrow> nat list list \<Rightarrow> bool" where
  "sched_rep k L \<longleftrightarrow> length (thread_list k) = PRIORITY_MAX \<and> length L = PRIORITY_MAX \<and>
     (\<forall>i<PRIORITY_MAX. level k i (L ! i) \<and> distinct (L ! i) \<and>
        (\<forall>t\<in>set (L ! i). priority (threads k t) = int i))"

lemma set_snext_simps [simp]:
  "snext (set_snext t v k) a = (if a = t then v else snext k a)"
  "priority (threads (set_snext t v k) a) = priority (threads k a)"
  "flags (threads (set_snext t v k) a) = flags (threads k a)"
  "thread_list (set_snext t v k) = thread_list k" "freed (set_snext t v k) = freed k"
  "threads (k\<lparr>thread_list := l\<rparr>) = threads k"
  by (simp_all add: set_snext_def)

lemma set_prio_simps [simp]:
  "snext (set_prio t p k) a = snext k a"
  "priority (threads (set_prio t p k) a) = (if a = t then p else priority (threads k a))"
  "flags (threads (set_prio t p k) a) = flags (threads k a)"
  "thread_list (set_prio t p k) = thread_list k" "freed (set_prio t p k) = freed k"
  by (simp_all add: set_prio_def)

lemma free_thread_simps [simp]:
  "threads (free_thread t k) = threads k" "thread_list (free_thread t k) = thread_list k"
  "freed (free_thread t k) = freed k @ [t]"
  by (simp_all add: free_thread_def)

text \<open>What the scheduler's list operations never touch.\<close>

definition sched_frame :: "kernel \<Rightarrow> kernel \<Rightarrow> bool" where
  "sched_frame k k' \<longleftrightarrow>
     k' = k\<lparr>threads := threads k', thread_list := thread_list k', freed := freed k'\<rparr> \<and>
     (\<forall>t. (threads k' t)\<lparr>sched_next := None, priority := 0\<rparr> =
          (threads k t)\<lparr>sched_next := None, priority := 0\<rparr>)"

lemma sched_frame_refl [simp]: "sched_frame k k"
  by (simp add: sched_frame_def)

lemma sched_frame_fields:
  assumes "sched_frame k k'"
  shows "flags (threads k' t) = flags (threads k t)"
    "savedPriority (threads k' t) = savedPriority (threads k t)"
    "mutexLocked (threads k' t) = mutexLocked (threads k t)"
    "mutexWaiting (threads k' t) = mutexWaiting (threads k t)"
    "joinData (threads k' t) = joinData (threads k t)"
    "mutexes k' = mutexes k" "cur k' = cur k" "idle k' = idle k" "kernel_running k' = kernel_running k"
    "sleepingList k' = sleepingList k" "sleepData k' = sleepData k"
proof -
  have eq: "(threads k' t)\<lparr>sched_next := None, priority := 0\<rparr> =
      (threads k t)\<lparr>sched_next := None, priority := 0\<rparr>"
    using assms by (simp add: sched_frame_def)
  show "flags (threads k' t) = flags (threads k t)"
    "savedPriority (threads k' t) = savedPriority (threads k t)"
    "mutexLocked (threads k' t) = mutexLocked (threads k t)"
    "mutexWaiting (threads k' t) = mutexWaiting (threads k t)"
    "joinData (threads k' t) = joinData (threads k t)"
    using arg_cong [OF eq, of flags] arg_cong [OF eq, of savedPriority]
      arg_cong [OF eq, of mutexLocked] arg_cong [OF eq, of mutexWaiting]
      arg_cong [OF eq, of joinData] by simp_all
  have "k' = k\<lparr>threads := threads k', thread_list := thread_list k', freed := freed k'\<rparr>"
    using assms by (simp add: sched_frame_def)
  then have "f k' = f (k\<lparr>threads := threads k', thread_list := thread_list k', freed := freed k'\<rparr>)" for f
    by (rule arg_cong)
  from this [of mutexes] this [of cur] this [of idle] this [of kernel_running] this [of sleepingList]
    this [of sleepData]
  show "mutexes k' = mutexes k" "cur k' = cur k" "idle k' = idle k"
    "kernel_running k' = kernel_running k" "sleepingList k' = sleepingList k"
    "sleepData k' = sleepData k" by simp_all
qed

lemmas sched_frame_flags = sched_frame_fields(1)

lemma sched_frame_trans:
  assumes "sched_frame k k'" "sched_frame k' k''"
  shows "sched_frame k k''"
proof -
  obtain ts tl fr where 1: "k' = k\<lparr>threads := ts, thread_list := tl, freed := fr\<rparr>"
    using assms(1) by (auto simp: sched_frame_def)
  obtain ts' tl' fr' where 2: "k'' = k'\<lparr>threads := ts', thread_list := tl', freed := fr'\<rparr>"
    using assms(2) by (auto simp: sched_frame_def)
  have "k'' = k\<lparr>threads := threads k'', thread_list := thread_list k'', freed := freed k''\<rparr>"
    unfolding 2 1 by simp
  with assms show ?thesis unfolding sched_frame_def by simp
qed

lemma sched_frame_steps [simp]:
  "sched_frame k (set_snext t v k)" "sched_frame k (set_prio t p k)" "sched_frame k (free_thread t k)"
  "sched_frame k (k\<lparr>thread_list := l\<rparr>)"
  by (simp_all add: sched_frame_def set_snext_def set_prio_def free_thread_def upd_thread_def)

lemma sched_frameI:
  "sched_frame k k' \<Longrightarrow> sched_frame k (set_snext t v k')"
  "sched_frame k k' \<Longrightarrow> sched_frame k (set_prio t p k')"
  "sched_frame k k' \<Longrightarrow> sched_frame k (free_thread t k')"
  "sched_frame k k' \<Longrightarrow> sched_frame k (k'\<lparr>thread_list := l\<rparr>)"
  using sched_frame_trans sched_frame_steps by blast+

lemma sched_repD:
  assumes "sched_rep k L" "i < PRIORITY_MAX"
  shows "level k i (L ! i)" "distinct (L ! i)" "t \<in> set (L ! i) \<Longrightarrow> priority (threads k t) = int i"
    "length (thread_list k) = PRIORITY_MAX" "length L = PRIORITY_MAX"
  using assms by (auto simp: sched_rep_def)

lemma sched_rep_cong:
  assumes "thread_list k' = thread_list k" "\<And>t. snext k' t = snext k t"
    "\<And>t. priority (threads k' t) = priority (threads k t)"
  shows "sched_rep k' L = sched_rep k L"
  unfolding sched_rep_def level_def assms ..

lemma sched_rep_flags [simp]:
  "sched_rep (upd_flags t f k) L = sched_rep k L" "sched_rep (k\<lparr>cur := c\<rparr>) L = sched_rep k L"
  "sched_rep (k\<lparr>exist_deleted := b\<rparr>) L = sched_rep k L"
  "sched_rep (k\<lparr>kernel_running := n\<rparr>) L = sched_rep k L"
  "sched_rep (upd_mutex m g k) L = sched_rep k L"
  by (rule sched_rep_cong; simp)+

text \<open>A change confined to level \<open>i\<close> and to the links of its threads keeps the other levels.\<close>

lemma sched_rep_update:
  assumes r: "sched_rep k L" and i: "i < PRIORITY_MAX"
    and lists: "length (thread_list k') = PRIORITY_MAX"
      "\<And>j. j < PRIORITY_MAX \<Longrightarrow> j \<noteq> i \<Longrightarrow> thread_list k' ! j = thread_list k ! j"
    and links: "\<And>j a. j < PRIORITY_MAX \<Longrightarrow> j \<noteq> i \<Longrightarrow> a \<in> set (L ! j) \<Longrightarrow>
      snext k' a = snext k a \<and> priority (threads k' a) = priority (threads k a)"
    and new: "level k' i xs" "distinct xs" "\<And>t. t \<in> set xs \<Longrightarrow> priority (threads k' t) = int i"
  shows "sched_rep k' (L[i := xs])"
proof -
  have "level k' j (L ! j)" if "j < PRIORITY_MAX" "j \<noteq> i" for j
  proof -
    have "chain (\<lambda>t. snext k' t) (L ! j) b = chain (\<lambda>t. snext k t) (L ! j) b" for b
      by (rule chain_cong) (use links [OF that] in simp)
    with that lists(2) sched_repD(1) [OF r that(1)] show ?thesis by (simp add: level_def)
  qed
  with assms show ?thesis by (auto simp: sched_rep_def nth_list_update)
qed

text \<open>The loops that walk a level.\<close>

lemma find_ready_eq:
  assumes "chain (\<lambda>t. snext k t) ys (hd zs)" "zs = us @ ys" "distinct zs" "ys \<noteq> []"
  shows "find_ready k (Some (hd zs)) (Some (hd ys)) =
    Some (Inr (find (\<lambda>t. isReady (flags (threads k t))) ys))"
  using assms
proof (induction ys arbitrary: us)
  case (Cons a ys)
  show ?case
  proof (cases ys)
    case Nil
    with Cons.prems show ?thesis by (subst find_ready.simps) simp
  next
    case (Cons b bs)
    then have "b \<noteq> hd zs" using Cons.prems(2,3) by (cases us) auto
    moreover have "find_ready k (Some (hd zs)) (Some (hd ys)) =
        Some (Inr (find (\<lambda>t. isReady (flags (threads k t))) ys))"
      using Cons.IH [of "us @ [a]"] Cons.prems Cons by simp
    ultimately show ?thesis using Cons.prems(1) Cons by (subst find_ready.simps) simp
  qed
qed simp

lemma exists_loop_eq:
  assumes "chain (\<lambda>t. snext k t) ys (hd zs)" "zs = us @ ys" "distinct zs" "ys \<noteq> []"
  shows "exists_loop k t (Some (hd zs)) (Some (hd ys)) =
    Some (Inr (t \<in> set ys \<and> \<not> isDeleted (flags (threads k t))))"
  using assms
proof (induction ys arbitrary: us)
  case (Cons a ys)
  show ?case
  proof (cases ys)
    case Nil
    with Cons.prems show ?thesis by (subst exists_loop.simps) auto
  next
    case (Cons b bs)
    then have "b \<noteq> hd zs" using Cons.prems(2,3) by (cases us) auto
    moreover have "exists_loop k t (Some (hd zs)) (Some (hd ys)) =
        Some (Inr (t \<in> set ys \<and> \<not> isDeleted (flags (threads k t))))"
      using Cons.IH [of "us @ [a]"] Cons.prems Cons by simp
    ultimately show ?thesis using Cons.prems(1) Cons by (subst exists_loop.simps) auto
  qed
qed simp

lemma find_tail_eq:
  assumes "chain (\<lambda>t. snext k t) ys (hd zs)" "zs = us @ ys" "distinct zs" "ys \<noteq> []"
  shows "find_tail k (Some (hd zs)) (Some (hd ys)) = Some (Inr (Some (last ys)))"
  using assms
proof (induction ys arbitrary: us)
  case (Cons a ys)
  show ?case
  proof (cases ys)
    case Nil
    with Cons.prems show ?thesis by (subst find_tail.simps) simp
  next
    case (Cons b bs)
    then have "b \<noteq> hd zs" using Cons.prems(2,3) by (cases us) auto
    moreover have "find_tail k (Some (hd zs)) (Some (hd ys)) = Some (Inr (Some (last ys)))"
      using Cons.IH [of "us @ [a]"] Cons.prems Cons by simp
    ultimately show ?thesis using Cons.prems(1) Cons by (subst find_tail.simps) simp
  qed
qed simp

section \<open>What the operations do to the lists\<close>

fun link_spec :: "nat \<Rightarrow> nat list \<Rightarrow> nat list" where
  "link_spec t [] = [t]"
| "link_spec t (h # ws) = h # t # ws"

lemma set_link_spec [simp]: "set (link_spec t xs) = insert t (set xs)"
  by (cases xs) auto

lemma tl_get_eq: "length (thread_list k) = PRIORITY_MAX \<Longrightarrow> i < PRIORITY_MAX \<Longrightarrow>
    tl_get k (int i) = Inr (thread_list k ! i)"
  "length (thread_list k) = PRIORITY_MAX \<Longrightarrow> i < PRIORITY_MAX \<Longrightarrow>
    tl_set (int i) v k = Inr (k\<lparr>thread_list := (thread_list k)[i := v]\<rparr>)"
  by (simp_all add: tl_get_def tl_set_def)

lemma link_thread_eq:
  assumes r: "sched_rep k L" and i: "i < PRIORITY_MAX" and p: "priority (threads k t) = int i"
    and fresh: "t \<notin> set (concat L)"
  shows "\<exists>k'. link_thread t (int i) k = Inr k' \<and> sched_rep k' (L[i := link_spec t (L ! i)]) \<and>
    sched_frame k k' \<and> freed k' = freed k \<and> (\<forall>a. priority (threads k' a) = priority (threads k a))"
proof -
  note lv = sched_repD [OF r i]
  have nt: "t \<notin> set (L ! j)" if "j < PRIORITY_MAX" for j
    using fresh that lv(5) nth_mem [of j L] by auto
  have other: "a \<notin> set (L ! i)" if "j < PRIORITY_MAX" "j \<noteq> i" "a \<in> set (L ! j)" for j a
    using that sched_repD(3) [OF r that(1)] lv(3) by fastforce
  show ?thesis
  proof (cases "L ! i")
    case Nil
    let ?k = "set_snext t (Some t) (k\<lparr>thread_list := (thread_list k)[i := Some t]\<rparr>)"
    have "link_thread t (int i) k = Inr ?k"
      using Nil lv(1,4) i by (simp add: link_thread_def tl_get_eq level_def)
    moreover have "sched_rep ?k (L[i := link_spec t (L ! i)])"
      by (rule sched_rep_update [OF r i]) (use Nil nt p i lv(4) in \<open>auto simp: level_def\<close>)
    moreover have "sched_frame k ?k" by (intro sched_frameI) simp
    ultimately show ?thesis by (intro exI [of _ ?k]) simp
  next
    case (Cons h ws)
    let ?k = "set_snext h (Some t) (set_snext t (snext k h) k)"
    have th: "t \<noteq> h" using nt [OF i] Cons by auto
    have "link_thread t (int i) k = Inr ?k"
      using Cons lv(1,4) i th by (simp add: link_thread_def tl_get_eq level_def)
    moreover have lk: "level ?k i (h # t # ws)"
      using chain_insert [of "\<lambda>t. snext k t" h ws h t] Cons lv(1,2) nt [OF i] th
      by (simp add: level_def cong: if_cong)
    have "sched_rep ?k (L[i := link_spec t (L ! i)])"
    proof (rule sched_rep_update [OF r i])
      show "snext ?k a = snext k a \<and> priority (threads ?k a) = priority (threads k a)"
        if "j < PRIORITY_MAX" "j \<noteq> i" "a \<in> set (L ! j)" for j a
        using that nt [OF that(1)] other [OF that] Cons by auto
      show "distinct (link_spec t (L ! i))" using Cons lv(2) nt [OF i] by auto
    qed (use Cons lk lv(3,4) p in auto)
    moreover have "sched_frame k ?k" by (intro sched_frameI) simp
    ultimately show ?thesis by (intro exI [of _ ?k]) simp
  qed
qed

lemma unlink_loop_eq:
  assumes "chain (\<lambda>t. snext k t) (us @ vs @ a # t # ws) (hd (us @ vs @ [a]))"
    "distinct (us @ vs @ a # t # ws)"
  shows "unlink_loop t (Some (hd (us @ vs @ [a]))) (Some (hd (vs @ [a]))) k =
    Some (Inr (set_snext a (snext k t) k))"
  using assms
proof (induction vs arbitrary: us)
  case Nil
  have "t \<noteq> hd (us @ [a])" using Nil.prems(2) by (cases us) auto
  moreover have "snext k a = Some t" using Nil.prems(1) by (simp add: chain_append)
  ultimately show ?case by (subst unlink_loop.simps) simp
next
  case (Cons v vs)
  let ?n = "hd (vs @ [a])"
  have "snext k v = Some ?n" using Cons.prems(1) by (simp add: chain_append hd_append)
  moreover have "?n \<noteq> hd (us @ (v # vs) @ [a])" "?n \<noteq> t"
    using Cons.prems(2) by (cases us; cases vs; auto)+
  moreover have "unlink_loop t (Some (hd ((us @ [v]) @ vs @ [a]))) (Some ?n) k =
      Some (Inr (set_snext a (snext k t) k))"
    using Cons.IH [of "us @ [v]"] Cons.prems by simp
  ultimately show ?case by (subst unlink_loop.simps) simp
qed

text \<open>Removal from one level, given as the state it leaves: only the level's pointer and the links of
  its threads change.\<close>

definition level_change :: "kernel \<Rightarrow> nat \<Rightarrow> nat list \<Rightarrow> nat list \<Rightarrow> kernel \<Rightarrow> bool" where
  "level_change k i xs ys k' \<longleftrightarrow> level k' i ys \<and> sched_frame k k' \<and>
     (\<forall>a. priority (threads k' a) = priority (threads k a)) \<and>
     length (thread_list k') = length (thread_list k) \<and>
     (\<forall>j. j \<noteq> i \<longrightarrow> thread_list k' ! j = thread_list k ! j) \<and>
     (\<forall>a. a \<notin> set xs \<longrightarrow> snext k' a = snext k a)"

lemma drop_head:
  assumes lv: "level k i (t # b # r)" "distinct (t # b # r)" "i < length (thread_list k)"
    and z: "z = last (b # r)"
  defines "k' \<equiv> set_snext z (Some b) (k\<lparr>thread_list := (thread_list k)[i := Some b]\<rparr>)"
  shows "level_change k i (t # b # r) (b # r) k'" "snext k t = Some b" "z \<noteq> t"
    "find_tail k (Some t) (Some t) = Some (Inr (Some z))"
proof -
  obtain ws where ws: "b # r = ws @ [z]" using z by (metis append_butlast_last_id list.discI)
  have ch: "chain (\<lambda>t. snext k t) (t # ws @ [z]) t" using lv(1) ws by (simp add: level_def)
  show nx: "snext k t = Some b" using lv(1) by (simp add: level_def)
  show zt: "z \<noteq> t" using lv(2) z by (metis distinct.simps(2) last_in_set list.discI)
  have "distinct (ws @ [z])" using lv(2) by (simp flip: ws)
  then have "z \<notin> set ws" by simp
  then have "level k' i (b # r)"
    using chain_relink [of "\<lambda>t. snext k t" ws z t b] ch lv(3)
    unfolding level_def ws by (simp add: k'_def flip: ws cong: if_cong)
  moreover have "sched_frame k k'" unfolding k'_def by (intro sched_frameI) simp
  moreover have "z \<in> set (b # r)" unfolding ws by simp
  ultimately show "level_change k i (t # b # r) (b # r) k'"
    by (auto simp: level_change_def k'_def)
  show "find_tail k (Some t) (Some t) = Some (Inr (Some z))"
    using find_tail_eq [of k "t # b # r" "t # b # r" "[]"] lv z by (simp add: level_def)
qed

lemma drop_inner:
  assumes lv: "level k i (vs @ a # t # ws)" "distinct (vs @ a # t # ws)"
  shows "level_change k i (vs @ a # t # ws) (vs @ a # ws) (set_snext a (snext k t) k)"
proof -
  have "hd (vs @ a # t # ws) = hd (vs @ a # ws)" by (simp add: hd_append)
  then have "level (set_snext a (snext k t) k) i (vs @ a # ws)"
    using chain_remove [of "\<lambda>t. snext k t" vs a t ws] lv by (simp add: level_def)
  then show ?thesis by (auto simp: level_change_def intro: sched_frameI)
qed

lemma unlink_level:
  assumes lv: "level k i xs" "distinct xs" "t \<in> set xs"
    and i: "i < PRIORITY_MAX" "length (thread_list k) = PRIORITY_MAX"
  shows "\<exists>k'. unlink_thread t (int i) k = Some (Inr k') \<and> freed k' = freed k \<and>
    level_change k i xs (remove1 t xs) k'"
proof (cases "t = hd xs")
  case True
  then obtain r where r: "xs = t # r" using lv(3) by (cases xs) auto
  show ?thesis
  proof (cases r)
    case Nil
    let ?k = "k\<lparr>thread_list := (thread_list k)[i := nullptr]\<rparr>"
    have "unlink_thread t (int i) k = Some (Inr ?k)"
      using Nil r lv i by (simp add: unlink_thread_def tl_get_eq level_def)
    then show ?thesis
      using Nil r i by (intro exI [of _ ?k]) (simp add: level_def level_change_def)
  next
    case (Cons b ws)
    note drop = drop_head [of k i t b ws, OF _ _ _ refl]
    have "unlink_thread t (int i) k =
        Some (Inr (set_snext (last (b # ws)) (Some b) (k\<lparr>thread_list := (thread_list k)[i := Some b]\<rparr>)))"
      using drop(2-4) lv r Cons i by (auto simp: unlink_thread_def tl_get_eq level_def)
    then show ?thesis using drop(1) lv r Cons i by simp
  qed
next
  case False
  from split_list_first [OF lv(3)] obtain us ws where sp: "xs = us @ t # ws" "t \<notin> set us" by blast
  with False obtain vs a where us: "us = vs @ [a]" by (cases us rule: rev_cases) auto
  have xs: "xs = vs @ a # t # ws" using sp us by simp
  have hd: "hd xs = hd (vs @ [a])" using xs by (simp add: hd_append)
  have "unlink_loop t (Some (hd xs)) (Some (hd xs)) k = Some (Inr (set_snext a (snext k t) k))"
    using unlink_loop_eq [of k "[]" vs a t ws] lv xs hd by (simp add: level_def)
  then have "unlink_thread t (int i) k = Some (Inr (set_snext a (snext k t) k))"
    using False lv i xs by (auto simp: unlink_thread_def tl_get_eq level_def)
  moreover have "remove1 t xs = vs @ a # ws" using sp us by (simp add: remove1_append)
  ultimately show ?thesis using drop_inner [of k i vs a t ws] lv xs by simp
qed

text \<open>
  A level change on a kernel \<open>k1\<close> that differs from \<open>k\<close> at most in the priority of a thread the
  level loses.
\<close>

lemma sched_rep_change:
  assumes r: "sched_rep k L" and i: "i < PRIORITY_MAX"
    and ch: "level_change k1 i (L ! i) ys k'" and ys: "distinct ys" "set ys \<subseteq> set (L ! i)"
    and k1: "thread_list k1 = thread_list k" "\<And>a. snext k1 a = snext k a"
      "\<And>a. a \<in> set ys \<or> a \<notin> set (L ! i) \<Longrightarrow> priority (threads k1 a) = priority (threads k a)"
  shows "sched_rep k' (L[i := ys])"
proof (rule sched_rep_update [OF r i])
  note lv = sched_repD [OF r i]
  show "length (thread_list k') = PRIORITY_MAX" using ch k1(1) lv(4) by (simp add: level_change_def)
  show "thread_list k' ! j = thread_list k ! j" if "j \<noteq> i" for j
    using ch k1(1) that by (simp add: level_change_def)
  show "snext k' a = snext k a \<and> priority (threads k' a) = priority (threads k a)"
    if "j < PRIORITY_MAX" "j \<noteq> i" "a \<in> set (L ! j)" for j a
  proof -
    have "a \<notin> set (L ! i)" using that sched_repD(3) [OF r that(1)] lv(3) by fastforce
    then show ?thesis using ch k1(2,3) by (simp add: level_change_def)
  qed
  show "level k' i ys" "distinct ys" using ch ys by (simp_all add: level_change_def)
  show "priority (threads k' a) = int i" if "a \<in> set ys" for a
    using that ch k1(3) lv(3) ys(2) by (auto simp: level_change_def)
qed

lemma PKsetPriority_eq:
  assumes r: "sched_rep k L" and i: "i < PRIORITY_MAX" "t \<in> set (L ! i)" and j: "j < PRIORITY_MAX"
  shows "\<exists>k'. PKsetPriority t (int j) k = Some (Inr k') \<and> sched_frame k k' \<and> freed k' = freed k \<and>
    (let M = L[i := remove1 t (L ! i)] in sched_rep k' (M[j := link_spec t (M ! j)])) \<and>
    (\<forall>a. priority (threads k' a) = (if a = t then int j else priority (threads k a)))"
proof -
  note lv = sched_repD [OF r i(1)]
  let ?k1 = "set_prio t (int j) k" and ?M = "L[i := remove1 t (L ! i)]"
  have "level ?k1 i (L ! i)" using lv(1) by (simp add: level_def)
  from unlink_level [OF this lv(2) i(2,1)] obtain k2 where
    k2: "unlink_thread t (int i) ?k1 = Some (Inr k2)" "freed k2 = freed k"
      "level_change ?k1 i (L ! i) (remove1 t (L ! i)) k2"
    using lv(4) by auto
  have M: "sched_rep k2 ?M"
    by (rule sched_rep_change [OF r i(1) k2(3)]) (use lv(2) i(2) in \<open>auto simp: set_remove1_subset\<close>)
  have nt: "t \<notin> set (concat ?M)"
  proof
    assume "t \<in> set (concat ?M)"
    then obtain m where m: "m < PRIORITY_MAX" "t \<in> set (?M ! m)"
      using lv(5) unfolding in_set_concat_nth by auto
    show False
    proof (cases "m = i")
      case True
      with m lv(2,5) i show False by simp
    next
      case False
      with m have "t \<in> set (L ! m)" by simp
      with sched_repD(3) [OF r m(1)] lv(3) [OF i(2)] False show False by fastforce
    qed
  qed
  have p: "priority (threads k2 a) = (if a = t then int j else priority (threads k a))" for a
    using k2(3) by (simp add: level_change_def)
  from link_thread_eq [OF M j _ nt] p obtain k' where
    k': "link_thread t (int j) k2 = Inr k'" "sched_rep k' (?M[j := link_spec t (?M ! j)])"
      "sched_frame k2 k'" "freed k' = freed k2" "\<forall>a. priority (threads k' a) = priority (threads k2 a)"
    by auto
  have "sched_frame k k'"
    using k'(3) k2(3) sched_frame_trans [of k ?k1 k2] sched_frame_trans [of k k2 k']
    by (simp add: level_change_def)
  moreover have "PKsetPriority t (int j) k = Some (Inr k')"
    using k2(1) k'(1) lv(3) [OF i(2)] by (simp add: PKsetPriority_def Let_def)
  ultimately show ?thesis using k' k2(2) p by (simp add: Let_def)
qed

lemma PKaddThread_eq:
  assumes r: "sched_rep k L" and i: "i < PRIORITY_MAX" and fresh: "t \<notin> set (concat L)"
  shows "\<exists>k'. PKaddThread t (int i) k = Inr (k', True) \<and>
    sched_rep k' (L[i := link_spec t (L ! i)]) \<and> sched_frame k k' \<and> freed k' = freed k"
proof -
  have "sched_rep (set_prio t (int i) k) L"
    using r fresh unfolding in_set_concat_nth by (auto simp: sched_rep_def level_def)
  from link_thread_eq [OF this i _ fresh] obtain k' where
    "link_thread t (int i) (set_prio t (int i) k) = Inr k'"
    "sched_rep k' (L[i := link_spec t (L ! i)])" "sched_frame (set_prio t (int i) k) k'"
    "freed k' = freed k" by auto
  then show ?thesis
    using sched_frame_trans [of k "set_prio t (int i) k" k'] by (simp add: PKaddThread_def)
qed

lemma exists_levels_eq:
  assumes r: "sched_rep k L"
  shows "n \<le> PRIORITY_MAX \<Longrightarrow> exists_levels n t k =
    Some (Inr (\<exists>i<n. t \<in> set (L ! i) \<and> \<not> isDeleted (flags (threads k t))))"
proof (induction n)
  case (Suc n)
  then have n: "n < PRIORITY_MAX" by simp
  note lv = sched_repD [OF r n]
  have eq: "exists_loop k t (Some (hd (L ! n))) (Some (hd (L ! n))) =
      Some (Inr (t \<in> set (L ! n) \<and> \<not> isDeleted (flags (threads k t))))" if "L ! n \<noteq> []"
    using exists_loop_eq [of k "L ! n" "L ! n" "[]" t] lv that by (simp add: level_def)
  show ?case
    using Suc eq lv(1) by (cases "L ! n = []") (auto simp: level_def less_Suc_eq)
qed simp

lemma PKexists_eq:
  assumes "sched_rep k L"
  shows "PKexists t k =
    Some (Inr (t \<in> set (concat L) \<and> \<not> isDeleted (flags (threads k t))))"
proof -
  have "length L = PRIORITY_MAX" using assms by (simp add: sched_rep_def)
  then show ?thesis
    using exists_levels_eq [OF assms order.refl]
    unfolding PKexists_def in_set_concat_nth by auto
qed

lemma level_change_trans:
  "level_change k i xs ys k1 \<Longrightarrow> level_change k1 i ys zs k2 \<Longrightarrow> set ys \<subseteq> set xs \<Longrightarrow>
     level_change k i xs zs k2"
  unfolding level_change_def by (auto intro: sched_frame_trans)

lemma level_change_refl: "level k i xs \<Longrightarrow> level_change k i xs xs k"
  by (simp add: level_change_def)

lemma level_change_free:
  "level_change k i xs ys k' \<Longrightarrow> level_change k i xs ys (free_thread d k')"
  by (auto simp: level_change_def level_def intro: sched_frameI)

lemma level_changeD:
  assumes "level_change k i xs ys k'"
  shows "level k' i ys" "length (thread_list k') = length (thread_list k)"
    "flags (threads k' t) = flags (threads k t)"
  using assms sched_frame_flags by (auto simp: level_change_def)

abbreviation dead :: "kernel \<Rightarrow> nat \<Rightarrow> bool" where
  "dead k t \<equiv> isDeleted (flags (threads k t))"

lemma remove_rest_eq:
  assumes "level k i (us @ a # ys)" "distinct (us @ a # ys)"
  shows "\<exists>k'. remove_rest i (Some a) k = Some (Inr k') \<and>
    level_change k i (us @ a # ys) (us @ a # filter (\<lambda>t. \<not> dead k t) ys) k' \<and>
    freed k' = freed k @ filter (dead k) ys"
  using assms
proof (induction ys arbitrary: us a k)
  case Nil
  then have "snext k a = thread_list k ! i" by (simp add: level_def chain_append hd_append)
  then have "remove_rest i (Some a) k = Some (Inr k)" by (subst remove_rest.simps) simp
  with Nil.prems show ?case by (auto intro: level_change_refl)
next
  case (Cons d ys)
  have nx: "snext k a = Some d" using Cons.prems(1) by (simp add: level_def chain_append)
  have tl: "thread_list k ! i = Some (hd (us @ [a]))" "hd (us @ [a]) \<noteq> d"
    using Cons.prems by (cases us; auto simp: level_def)+
  show ?case
  proof (cases "dead k d")
    case True
    let ?k = "free_thread d (set_snext a (snext k d) k)"
    have lc: "level_change k i (us @ a # d # ys) (us @ a # ys) ?k"
      by (rule level_change_free, rule drop_inner [OF Cons.prems])
    have dd: "dead ?k = dead k" by auto
    from Cons.IH [of ?k us a] level_changeD(1) [OF lc] Cons.prems(2) obtain k' where
      "remove_rest i (Some a) ?k = Some (Inr k')"
      "level_change ?k i (us @ a # ys) (us @ a # filter (\<lambda>t. \<not> dead k t) ys) k'"
      "freed k' = freed ?k @ filter (dead k) ys" unfolding dd by auto
    moreover from this(1) have "remove_rest i (Some a) k = Some (Inr k')"
      using True nx tl by (subst remove_rest.simps) simp
    moreover have "set (us @ a # ys) \<subseteq> set (us @ a # d # ys)" by auto
    ultimately show ?thesis using level_change_trans [OF lc] True by auto
  next
    case False
    from Cons.IH [of k "us @ [a]" d] Cons.prems obtain k' where
      "remove_rest i (Some d) k = Some (Inr k')"
      "level_change k i (us @ a # d # ys) (us @ a # d # filter (\<lambda>t. \<not> dead k t) ys) k'"
      "freed k' = freed k @ filter (dead k) ys" by auto
    moreover from this(1) have "remove_rest i (Some a) k = Some (Inr k')"
      using False nx tl by (subst remove_rest.simps) simp
    ultimately show ?thesis using False by auto
  qed
qed

lemma remove_front_eq:
  assumes "level k i xs" "distinct xs" "xs \<noteq> []" "i < length (thread_list k)"
    "first \<longrightarrow> tlp = Some (last xs)"
  shows "\<exists>k'. remove_front i first tlp k = Some (Inr k') \<and>
    level_change k i xs (dropWhile (dead k) xs) k' \<and> freed k' = freed k @ takeWhile (dead k) xs"
  using assms
proof (induction xs arbitrary: k first tlp)
  case (Cons t r)
  have h: "thread_list k ! i = Some t" using Cons.prems(1) by (simp add: level_def)
  show ?case
  proof (cases "dead k t")
    case False
    then have "remove_front i first tlp k = Some (Inr k)" using h by (subst remove_front.simps) simp
    then show ?thesis using False Cons.prems(1) by (auto intro: level_change_refl)
  next
    case True
    show ?thesis
    proof (cases r)
      case Nil
      let ?k = "(free_thread t k)\<lparr>thread_list := (thread_list k)[i := nullptr]\<rparr>"
      have "remove_front i first tlp k = Some (Inr ?k)"
        using True h Nil Cons.prems(1) by (subst remove_front.simps) (simp add: level_def)
      moreover have "level_change k i [t] [] ?k"
        using Cons.prems(4) by (auto simp: level_change_def level_def intro: sched_frameI)
      ultimately show ?thesis using True Nil by auto
    next
      case (Cons b ws)
      let ?z = "last (b # ws)"
      let ?k = "free_thread t (set_snext ?z (Some b) (k\<lparr>thread_list := (thread_list k)[i := Some b]\<rparr>))"
      note dh = drop_head [of k i t b ws, OF _ _ _ refl]
      have lc: "level_change k i (t # b # ws) (b # ws) ?k"
        using dh(1) Cons.prems(1,2,4) Cons by (blast intro: level_change_free)
      have dd: "dead ?k = dead k" by auto
      from Cons.IH [of ?k True "Some ?z"] level_changeD(1,2) [OF lc] Cons.prems(2,4) Cons
      obtain k' where k': "remove_front i True (Some ?z) ?k = Some (Inr k')"
        "level_change ?k i (b # ws) (dropWhile (dead k) (b # ws)) k'"
        "freed k' = freed ?k @ takeWhile (dead k) (b # ws)" unfolding dd by auto
      have bt: "b \<noteq> t" using Cons.prems(2) Cons by auto
      have "remove_front i first tlp k = remove_front i True (Some ?z) ?k"
        using True h dh(2,4) Cons.prems(1,2,4,5) Cons bt
        by (subst remove_front.simps) (cases first; simp)
      moreover have "set (b # ws) \<subseteq> set (t # b # ws)" by auto
      ultimately show ?thesis using level_change_trans [OF lc k'(2)] k' True Cons by auto
    qed
  qed
qed simp

lemma filter_dropWhile:
  "filter P xs = takeWhile P xs @ filter P (dropWhile P xs)"
  "filter (\<lambda>x. \<not> P x) xs = filter (\<lambda>x. \<not> P x) (dropWhile P xs)"
  by (induction xs) auto

lemma remove_dead_level_eq:
  assumes lv: "level k i xs" "distinct xs" "i < length (thread_list k)"
  shows "\<exists>k'. remove_dead_level i k = Some (Inr k') \<and>
    level_change k i xs (filter (\<lambda>t. \<not> dead k t) xs) k' \<and> freed k' = freed k @ filter (dead k) xs"
proof (cases "xs = []")
  case True
  with lv show ?thesis
    by (auto simp: remove_dead_level_def level_def intro!: level_change_refl)
next
  case False
  from remove_front_eq [of k i xs False None] lv False obtain k1 where
    k1: "remove_front i False nullptr k = Some (Inr k1)"
      "level_change k i xs (dropWhile (dead k) xs) k1" "freed k1 = freed k @ takeWhile (dead k) xs"
    by auto
  have ne: "thread_list k ! i \<noteq> nullptr" using lv(1) False by (simp add: level_def)
  note l1 = level_changeD [OF k1(2)]
  have dd: "flags (threads k1 t) = flags (threads k t)" for t by (rule l1(3))
  show ?thesis
  proof (cases "dropWhile (dead k) xs")
    case Nil
    then have "filter (\<lambda>t. \<not> dead k t) xs = []" "takeWhile (dead k) xs = xs" "filter (dead k) xs = xs"
      using filter_dropWhile [of "dead k" xs] takeWhile_dropWhile_id [of "dead k" xs] by simp_all
    moreover have "level_change k i xs [] k1" using k1(2) unfolding Nil .
    moreover from level_changeD(1) [OF this] have "thread_list k1 ! i = nullptr" by (simp add: level_def)
    ultimately show ?thesis using k1(1,3) ne by (auto simp: remove_dead_level_def)
  next
    case (Cons a ys)
    then have na: "\<not> dead k a" by (metis hd_dropWhile list.discI list.sel(1))
    have d: "distinct (a # ys)" using distinct_dropWhile [OF lv(2)] Cons by metis
    from remove_rest_eq [of k1 i "[]" a ys] l1(1) Cons d obtain k2 where
      k2: "remove_rest i (Some a) k1 = Some (Inr k2)"
        "level_change k1 i (a # ys) (a # filter (\<lambda>t. \<not> dead k t) ys) k2"
        "freed k2 = freed k1 @ filter (dead k) ys" unfolding dd by auto
    have f: "filter (\<lambda>t. \<not> dead k t) xs = a # filter (\<lambda>t. \<not> dead k t) ys"
      "filter (dead k) xs = takeWhile (dead k) xs @ filter (dead k) ys"
      using filter_dropWhile [of "dead k" xs] Cons na by auto
    have "set (a # ys) \<subseteq> set xs" using Cons set_dropWhileD by (metis subsetI)
    then have "level_change k i xs (a # filter (\<lambda>t. \<not> dead k t) ys) k2"
      using level_change_trans [OF k1(2) _ _] k2(2) Cons by metis
    moreover have "remove_dead_level i k = Some (Inr k2)"
      using k1(1) k2(1) ne l1(1) Cons by (auto simp: remove_dead_level_def level_def)
    ultimately show ?thesis using k1(3) k2(3) f by simp
  qed
qed

lemma remove_dead_levels_eq:
  assumes "sched_rep k L" "n \<le> PRIORITY_MAX"
  shows "\<exists>k'. remove_dead_levels n k = Some (Inr k') \<and>
    sched_rep k' (map (filter (\<lambda>t. \<not> dead k t)) (take n L) @ drop n L) \<and> sched_frame k k' \<and>
    freed k' = freed k @ concat (map (filter (dead k)) (rev (take n L))) \<and>
    (\<forall>a. priority (threads k' a) = priority (threads k a))"
  using assms
proof (induction n arbitrary: k L)
  case (Suc n)
  then have n: "n < PRIORITY_MAX" by simp
  note lv = sched_repD [OF Suc.prems(1) n]
  from remove_dead_level_eq [OF lv(1,2)] n lv(4) obtain k1 where
    k1: "remove_dead_level n k = Some (Inr k1)"
      "level_change k n (L ! n) (filter (\<lambda>t. \<not> dead k t) (L ! n)) k1"
      "freed k1 = freed k @ filter (dead k) (L ! n)" by auto
  let ?L = "L[n := filter (\<lambda>t. \<not> dead k t) (L ! n)]"
  have r1: "sched_rep k1 ?L"
    by (rule sched_rep_change [OF Suc.prems(1) n k1(2)]) (use lv(2) in auto)
  have dd: "flags (threads k1 t) = flags (threads k t)" for t by (rule level_changeD(3) [OF k1(2)])
  have tk: "take n ?L = take n L" "drop n ?L = filter (\<lambda>t. \<not> dead k t) (L ! n) # drop (Suc n) L"
    "take (Suc n) L = take n L @ [L ! n]"
    using n lv(5) by (simp_all add: take_Suc_conv_app_nth drop_update_swap Cons_nth_drop_Suc [symmetric])
  from Suc.IH [OF r1] n obtain k' where
    "remove_dead_levels n k1 = Some (Inr k')"
    "sched_rep k' (map (filter (\<lambda>t. \<not> dead k t)) (take n L) @ filter (\<lambda>t. \<not> dead k t) (L ! n) # drop (Suc n) L)"
    "sched_frame k1 k'" "freed k' = freed k1 @ concat (map (filter (dead k)) (rev (take n L)))"
    "\<forall>a. priority (threads k' a) = priority (threads k1 a)"
    unfolding dd tk by auto
  with k1 show ?case
    using sched_frame_trans [of k k1 k'] by (simp add: tk(3) level_change_def)
qed simp

lemma PKremoveDeadThreads_eq:
  assumes "sched_rep k L"
  shows "\<exists>k'. PKremoveDeadThreads k = Some (Inr k') \<and>
    sched_rep k' (map (filter (\<lambda>t. \<not> dead k t)) L) \<and> sched_frame k k' \<and>
    freed k' = freed k @ concat (map (filter (dead k)) (rev L)) \<and>
    (\<forall>a. priority (threads k' a) = priority (threads k a))"
proof -
  have "length L = PRIORITY_MAX" using assms by (simp add: sched_rep_def)
  with remove_dead_levels_eq [OF assms order.refl] show ?thesis
    by (simp add: PKremoveDeadThreads_def)
qed

section \<open>Choosing the next thread\<close>

fun pick_spec :: "(nat \<Rightarrow> bool) \<Rightarrow> nat \<Rightarrow> nat list list \<Rightarrow> (nat \<times> nat) option" where
  "pick_spec rdy 0 L = None"
| "pick_spec rdy (Suc i) L =
     (case find rdy (rotate1 (L ! i)) of Some t \<Rightarrow> Some (i, t) | None \<Rightarrow> pick_spec rdy i L)"

definition rotate_to :: "nat \<Rightarrow> nat list \<Rightarrow> nat list" where
  "rotate_to t xs = dropWhile (\<lambda>x. x \<noteq> t) xs @ takeWhile (\<lambda>x. x \<noteq> t) xs"

abbreviation ready :: "kernel \<Rightarrow> nat \<Rightarrow> bool" where
  "ready k t \<equiv> isReady (flags (threads k t))"

lemma level_find_ready:
  assumes "level k i xs" "distinct xs" "xs \<noteq> []"
  shows "find_ready k (snext k (hd xs)) (snext k (hd xs)) = Some (Inr (find (ready k) (rotate1 xs)))"
proof -
  obtain h r where xs: "xs = h # r" using assms(3) by (cases xs) auto
  have "chain (\<lambda>t. snext k t) (r @ [h]) (hd (r @ [h]))" "snext k h = Some (hd (r @ [h]))"
    using assms(1) xs by (auto simp: level_def chain_append)
  then show ?thesis
    using find_ready_eq [of k "r @ [h]" "r @ [h]" "[]"] assms(2) xs by simp
qed

lemma set_rotate_to [simp]: "set (rotate_to t xs) = set xs"
proof -
  have "set (takeWhile (\<lambda>x. x \<noteq> t) xs @ dropWhile (\<lambda>x. x \<noteq> t) xs) = set xs" by simp
  then show ?thesis unfolding rotate_to_def set_append by blast
qed

lemma rotate_to_split: "t \<notin> set us \<Longrightarrow> rotate_to t (us @ t # ws) = t # ws @ us"
  unfolding rotate_to_def by (subst dropWhile_append2, force, subst takeWhile_append2, force) simp

lemma level_rotate:
  assumes "level k i xs" "distinct xs" "t \<in> set xs" "i < length (thread_list k)"
  shows "level_change k i xs (rotate_to t xs) (k\<lparr>thread_list := (thread_list k)[i := Some t]\<rparr>)"
    "distinct (rotate_to t xs)"
proof -
  from split_list_first [OF assms(3)] obtain us ws where xs: "xs = us @ t # ws" "t \<notin> set us" by blast
  have "hd (us @ t # ws) = hd (us @ [t])" by (cases us) simp_all
  then have "chain (\<lambda>t. snext k t) (t # ws @ us) t"
    using assms(1) xs chain_rotate [of "\<lambda>t. snext k t" us t ws] by (simp add: level_def)
  then show "level_change k i xs (rotate_to t xs) (k\<lparr>thread_list := (thread_list k)[i := Some t]\<rparr>)"
    using xs assms(4) by (auto simp: level_change_def level_def rotate_to_split)
  show "distinct (rotate_to t xs)" using assms(2) xs by (auto simp: rotate_to_split)
qed

definition next_preemption :: "kernel \<Rightarrow> int \<Rightarrow> bool \<Rightarrow> nat list \<Rightarrow> int" where
  "next_preemption k now idl sl =
     (let w = (if sl = [] then LLONG_MAX else wt k (hd sl))
      in if idl then w else min w (now + MAX_TIME_SLICE))"

definition timer_set :: "int \<Rightarrow> kernel \<Rightarrow> kernel" where
  "timer_set n k = k\<lparr>nextPeriodicPreemption := n, osTimerIrq := n\<rparr>"

lemma IRQsetNextPreemption_eq:
  assumes "rep (sleepingList k) sl"
  shows "IRQsetNextPreemption now idl k = Inr (timer_set (next_preemption k now idl sl) k)"
  using rep_is_empty [OF assms] repD(3) [OF assms]
  by (cases sl) (auto simp: IRQsetNextPreemption_def front_def next_preemption_def Let_def timer_set_def)

lemma find_levels_eq:
  assumes r: "sched_rep k L" and sl: "rep (sleepingList k) sl"
  shows "n \<le> PRIORITY_MAX \<Longrightarrow> find_levels now n k = Some (Inr (
    case pick_spec (ready k) n L of
      None \<Rightarrow> timer_set (next_preemption k now True sl) (k\<lparr>cur := idle k\<rparr>)
    | Some (i, t) \<Rightarrow> timer_set (next_preemption k now False sl)
        (k\<lparr>cur := t, thread_list := (thread_list k)[i := Some t]\<rparr>)))"
proof (induction n)
  case 0
  show ?case
    using IRQsetNextPreemption_eq [of "k\<lparr>cur := idle k\<rparr>" sl now True] sl
    by (simp add: next_preemption_def)
next
  case (Suc n)
  then have n: "n < PRIORITY_MAX" by simp
  note lv = sched_repD [OF r n]
  show ?case
  proof (cases "L ! n = []")
    case True
    with Suc lv(1) show ?thesis by (simp add: level_def)
  next
    case False
    then have "thread_list k ! n = Some (hd (L ! n))" using lv(1) by (simp add: level_def)
    moreover note level_find_ready [OF lv(1,2) False]
    moreover have "IRQsetNextPreemption now False (k\<lparr>cur := t, thread_list := l\<rparr>) =
        Inr (timer_set (next_preemption k now False sl) (k\<lparr>cur := t, thread_list := l\<rparr>))" for t l
      using IRQsetNextPreemption_eq [of "k\<lparr>cur := t, thread_list := l\<rparr>" sl now False] sl
      by (simp add: next_preemption_def)
    ultimately show ?thesis using Suc by (auto split: option.split)
  qed
qed

text \<open>The thread picked is a ready one of the highest level that has any.\<close>

lemma find_rotate1:
  "find P (rotate1 xs) = None \<longleftrightarrow> (\<forall>u\<in>set xs. \<not> P u)"
  "find P (rotate1 xs) = Some t \<Longrightarrow> t \<in> set xs \<and> P t"
  by (auto simp: find_None_iff) (metis find_Some_iff nth_mem set_rotate1)+

lemma pick_spec_Some:
  assumes "pick_spec rdy n L = Some (i, t)"
  shows "i < n" "t \<in> set (L ! i)" "rdy t" "\<And>j u. j < n \<Longrightarrow> u \<in> set (L ! j) \<Longrightarrow> rdy u \<Longrightarrow> j \<le> i"
    "find rdy (rotate1 (L ! i)) = Some t"
proof -
  have "i < n \<and> t \<in> set (L ! i) \<and> rdy t \<and> find rdy (rotate1 (L ! i)) = Some t \<and>
      (\<forall>j<n. \<forall>u\<in>set (L ! j). rdy u \<longrightarrow> j \<le> i)"
    using assms
  proof (induction n)
    case (Suc n)
    show ?case
    proof (cases "find rdy (rotate1 (L ! n))")
      case None
      with Suc find_rotate1(1) [of rdy "L ! n"] show ?thesis by (auto simp: less_Suc_eq)
    next
      case (Some u)
      with Suc.prems find_rotate1(2) [OF Some] show ?thesis by auto
    qed
  qed simp
  then show "i < n" "t \<in> set (L ! i)" "rdy t"
    "\<And>j u. j < n \<Longrightarrow> u \<in> set (L ! j) \<Longrightarrow> rdy u \<Longrightarrow> j \<le> i"
    "find rdy (rotate1 (L ! i)) = Some t" by blast+
qed

lemma pick_spec_None:
  "pick_spec rdy n L = None \<longleftrightarrow> (\<forall>j<n. \<forall>u\<in>set (L ! j). \<not> rdy u)"
proof (induction n)
  case (Suc n)
  show ?case
  proof (cases "find rdy (rotate1 (L ! n))")
    case None
    with Suc find_rotate1(1) [of rdy "L ! n"] show ?thesis by (auto simp: less_Suc_eq)
  next
    case (Some u)
    with find_rotate1(2) [OF Some] show ?thesis by auto
  qed
qed simp

section \<open>The contract of the scheduler\<close>

text \<open>
  The abstract scheduler: for each priority the list of its threads, the flags, the running and the
  idle thread and the depth of \<^verbatim>\<open>pauseKernel\<close>. The caller's part of the contract is that a thread is
  added once and with a valid priority, and that the priority of an added thread is set to a valid
  one. \<open>SetFlags\<close> stands for whatever the rest of the kernel does to the flags.
\<close>

type_synonym sched = "nat list list \<times> (nat \<Rightarrow> u16) \<times> nat \<times> nat \<times> int"

datatype sched_req =
    AddThread nat nat
  | SetPriority nat nat
  | RemoveDead
  | FindNext int
  | Exists nat
  | SetFlags nat u16

datatype sched_out = Done | Running nat | Found bool

definition level_of :: "nat \<Rightarrow> nat list list \<Rightarrow> nat option" where
  "level_of t L = find (\<lambda>i. t \<in> set (L ! i)) [0..<PRIORITY_MAX]"

definition pick_next :: "sched \<Rightarrow> sched" where
  "pick_next = (\<lambda>(L, fl, c, idl, run).
     if run \<noteq> 0 then (L, fl, c, idl, run)
     else case pick_spec (\<lambda>t. isReady (fl t)) PRIORITY_MAX L of
       None \<Rightarrow> (L, fl, idl, idl, run)
     | Some (i, t) \<Rightarrow> (L[i := rotate_to t (L ! i)], fl, t, idl, run))"

fun sched_spec :: "sched \<Rightarrow> sched_req \<Rightarrow> (sched \<times> sched_out) option" where
  "sched_spec (L, fl, c, idl, run) (AddThread t p) =
     (if t \<in> set (concat L) \<or> p \<ge> PRIORITY_MAX then None
      else Some ((L[p := link_spec t (L ! p)], fl, c, idl, run), Done))"
| "sched_spec (L, fl, c, idl, run) (SetPriority t p) =
     (if p \<ge> PRIORITY_MAX then None
      else case level_of t L of
        None \<Rightarrow> None
      | Some i \<Rightarrow>
          let M = L[i := remove1 t (L ! i)]
          in Some ((M[p := link_spec t (M ! p)], fl, c, idl, run), Done))"
| "sched_spec (L, fl, c, idl, run) RemoveDead =
     Some ((map (filter (\<lambda>t. \<not> isDeleted (fl t))) L, fl, c, idl, run), Done)"
| "sched_spec a (FindNext now) = Some (let b = pick_next a in (b, Running (fst (snd (snd b)))))"
| "sched_spec (L, fl, c, idl, run) (Exists t) =
     Some ((L, fl, c, idl, run), Found (t \<in> set (concat L) \<and> \<not> isDeleted (fl t)))"
| "sched_spec (L, fl, c, idl, run) (SetFlags t f) = Some ((L, fl(t := f), c, idl, run), Done)"

fun sched_impl :: "kernel \<Rightarrow> sched_req \<Rightarrow> fault option + (kernel \<times> sched_out)" where
  "sched_impl k (AddThread t p) =
     rbind (returning (Some (PKaddThread t (int p) k))) (\<lambda>(k, _). Inr (k, Done))"
| "sched_impl k (SetPriority t p) =
     rbind (returning (PKsetPriority t (int p) k)) (\<lambda>k. Inr (k, Done))"
| "sched_impl k RemoveDead = rbind (returning (PKremoveDeadThreads k)) (\<lambda>k. Inr (k, Done))"
| "sched_impl k (FindNext now) =
     rbind (returning (IRQfindNextThread now k)) (\<lambda>k. Inr (k, Running (cur k)))"
| "sched_impl k (Exists t) = rbind (returning (PKexists t k)) (\<lambda>b. Inr (k, Found b))"
| "sched_impl k (SetFlags t f) = Inr (upd_flags t (\<lambda>_. f) k, Done)"

definition sched_rel :: "kernel \<Rightarrow> sched \<Rightarrow> bool" where
  "sched_rel k = (\<lambda>(L, fl, c, idl, run).
     sched_rep k L \<and> (\<lambda>t. flags (threads k t)) = fl \<and> cur k = c \<and> idle k = idl \<and>
     kernel_running k = run \<and> (\<exists>sl. rep (sleepingList k) sl))"

lemma sched_frame_rel:
  assumes "sched_frame k k'" "sched_rep k' L'" "sched_rel k (L, fl, c, idl, run)"
  shows "sched_rel k' (L', fl, c, idl, run)"
proof -
  obtain ts tl fr where "k' = k\<lparr>threads := ts, thread_list := tl, freed := fr\<rparr>"
    using assms(1) by (auto simp: sched_frame_def)
  then have "cur k' = cur k" "idle k' = idle k" "kernel_running k' = kernel_running k"
    "sleepingList k' = sleepingList k" by simp_all
  with assms sched_frame_flags [OF assms(1)] show ?thesis by (auto simp: sched_rel_def)
qed

lemma findNext_rel:
  assumes "sched_rel k a"
  shows "\<exists>k'. IRQfindNextThread now k = Some (Inr k') \<and> sched_rel k' (pick_next a)"
proof -
  obtain L fl c idl run where a: "a = (L, fl, c, idl, run)" by (cases a) auto
  obtain sl where r: "sched_rep k L" and fl: "fl = (\<lambda>t. flags (threads k t))" "cur k = c"
    "idle k = idl" "kernel_running k = run" and sl: "rep (sleepingList k) sl"
    using assms a by (auto simp: sched_rel_def)
  show ?thesis
  proof (cases "run \<noteq> 0 \<or> pick_spec (ready k) PRIORITY_MAX L = None")
    case True
    have "sched_rep (timer_set n (k\<lparr>cur := x\<rparr>)) L" for n x
      using r by (simp add: sched_rep_def level_def timer_set_def)
    with True show ?thesis
      using find_levels_eq [OF r sl order.refl, of now] assms fl sl
      by (auto simp: IRQfindNextThread_def pick_next_def a sched_rel_def timer_set_def)
  next
    case False
    then obtain i t where p: "pick_spec (ready k) PRIORITY_MAX L = Some (i, t)" by auto
    note ps = pick_spec_Some [OF p]
    note lv = sched_repD [OF r ps(1)]
    let ?k = "k\<lparr>thread_list := (thread_list k)[i := Some t]\<rparr>"
    note rot = level_rotate [OF lv(1,2) ps(2)]
    have "sched_rep ?k (L[i := rotate_to t (L ! i)])"
      by (rule sched_rep_change [OF r ps(1)]) (use rot lv(4) ps(1) in auto)
    then have "sched_rep (timer_set n (k\<lparr>cur := t, thread_list := (thread_list k)[i := Some t]\<rparr>))
        (L[i := rotate_to t (L ! i)])" for n
      by (simp add: sched_rep_def level_def timer_set_def)
    with False p show ?thesis
      using find_levels_eq [OF r sl order.refl, of now] fl sl
      by (auto simp: IRQfindNextThread_def pick_next_def a sched_rel_def timer_set_def)
  qed
qed

interpretation prio: simulation sched_rel sched_impl sched_spec
proof unfold_locales
  fix k a q a' out
  assume R: "sched_rel k a" and S: "sched_spec a q = Some (a', out)"
  obtain L fl c idl run where a: "a = (L, fl, c, idl, run)" by (cases a) auto
  have r: "sched_rep k L" and fl: "fl = (\<lambda>t. flags (threads k t))" using R a by (auto simp: sched_rel_def)
  note rel = sched_frame_rel [OF _ _ R [unfolded a]]
  show "\<exists>k'. sched_impl k q = Inr (k', out) \<and> sched_rel k' a'"
  proof (cases q)
    case (AddThread t p)
    with S a PKaddThread_eq [OF r, of p t] rel show ?thesis by (fastforce split: if_splits)
  next
    case (SetPriority t p)
    with S a obtain i where i: "level_of t L = Some i" and p: "p < PRIORITY_MAX"
      by (auto split: if_splits option.splits)
    then have "i < PRIORITY_MAX" "t \<in> set (L ! i)" by (auto simp: level_of_def find_Some_iff)
    from PKsetPriority_eq [OF r this p] S a i p SetPriority rel show ?thesis
      by (fastforce simp: Let_def split: if_splits)
  next
    case RemoveDead
    with S a PKremoveDeadThreads_eq [OF r] rel fl show ?thesis by fastforce
  next
    case (FindNext now)
    obtain k' where k': "IRQfindNextThread now k = Some (Inr k')" "sched_rel k' (pick_next a)"
      using findNext_rel [OF R] by blast
    then have "cur k' = fst (snd (snd (pick_next a)))" by (auto simp: sched_rel_def split: prod.splits)
    with k' S FindNext show ?thesis by (auto simp: Let_def)
  next
    case (Exists t)
    with S a PKexists_eq [OF r, of t] R fl show ?thesis by auto
  next
    case (SetFlags t f)
    have "sched_rep (upd_flags t (\<lambda>_. f) k) L" using r by simp
    with SetFlags S a R show ?thesis
      by (auto simp: sched_rel_def fun_eq_iff)
  qed
qed

section \<open>Round robin\<close>

lemma filter_rotate_to:
  assumes "find P (rotate1 xs) = Some t" "distinct xs"
  shows "\<exists>zs. filter P (rotate1 xs) = t # zs \<and> filter P (rotate1 (rotate_to t xs)) = zs @ [t]"
proof -
  obtain h r where xs: "xs = h # r" using assms(1) by (cases xs) auto
  show ?thesis
  proof (cases "find P r")
    case None
    then have "filter P r = []" by (auto simp: find_None_iff filter_empty_conv)
    moreover have "t = h" "P h"
      using assms(1) None xs by (auto simp: find_append split: if_splits option.splits)
    ultimately show ?thesis using xs by (simp add: rotate_to_def)
  next
    case (Some u)
    then have u: "u = t" using assms(1) xs by (simp add: find_append)
    from find_split [OF Some] u obtain us ws where r: "r = us @ t # ws" "filter P us = []" "P t" by blast
    have tn: "t \<notin> set (h # us)" using assms(2) xs r(1) by auto
    have "rotate_to t xs = t # ws @ h # us"
      using rotate_to_split [OF tn, of ws] xs r(1) by simp
    then show ?thesis using r xs by simp
  qed
qed

lemma pick_next_rotates:
  assumes p: "pick_spec (\<lambda>t. isReady (fl t)) PRIORITY_MAX L = Some (i, t)" and d: "distinct (L ! i)"
    and len: "length L = PRIORITY_MAX"
  defines "L' \<equiv> L[i := rotate_to t (L ! i)]"
  shows "pick_next (L, fl, c, idl, 0) = (L', fl, t, idl, 0)"
    "\<exists>zs. filter (\<lambda>t. isReady (fl t)) (rotate1 (L ! i)) = t # zs \<and>
      filter (\<lambda>t. isReady (fl t)) (rotate1 (L' ! i)) = zs @ [t]"
    "\<exists>t'. pick_spec (\<lambda>t. isReady (fl t)) PRIORITY_MAX L' = Some (i, t')" "length L' = PRIORITY_MAX"
proof -
  let ?P = "\<lambda>t. isReady (fl t)"
  note ps = pick_spec_Some [OF p]
  show "pick_next (L, fl, c, idl, 0) = (L', fl, t, idl, 0)" using p by (simp add: pick_next_def L'_def)
  show "\<exists>zs. filter ?P (rotate1 (L ! i)) = t # zs \<and> filter ?P (rotate1 (L' ! i)) = zs @ [t]"
    using filter_rotate_to [OF ps(5) d] ps(1) len by (simp add: L'_def)
  show "length L' = PRIORITY_MAX" using len by (simp add: L'_def)
  have same: "set (L' ! j) = set (L ! j)" if "j < PRIORITY_MAX" for j
    using that len by (cases "j = i") (auto simp: L'_def)
  have "pick_spec ?P PRIORITY_MAX L' \<noteq> None"
    using ps(1-3) same unfolding pick_spec_None by blast
  then obtain j u where q: "pick_spec ?P PRIORITY_MAX L' = Some (j, u)" by auto
  note qs = pick_spec_Some [OF q]
  have "i \<le> j" using qs(4) [OF ps(1) _ ps(3)] ps(2) same [OF ps(1)] by simp
  moreover have "j \<le> i" using ps(4) [OF qs(1) _ qs(3)] qs(2) same [OF qs(1)] by simp
  ultimately show "\<exists>t'. pick_spec ?P PRIORITY_MAX L' = Some (i, t')" using q by auto
qed

lemma round_robin_spec:
  assumes "pick_spec (\<lambda>t. isReady (fl t)) PRIORITY_MAX L = Some (i, t)" "distinct (L ! i)"
    "length L = PRIORITY_MAX" "rs = filter (\<lambda>t. isReady (fl t)) (rotate1 (L ! i))"
  shows "\<exists>L' c'. run_spec sched_spec (L, fl, c, idl, 0) (map FindNext ts) =
    Some ((L', fl, c', idl, 0), map (\<lambda>j. Running (rs ! (j mod length rs))) [0..<length ts])"
  using assms
proof (induction ts arbitrary: L c rs t)
  case (Cons now ts)
  note pn = pick_next_rotates [OF Cons.prems(1-3)]
  let ?P = "\<lambda>t. isReady (fl t)"
  let ?L = "L[i := rotate_to t (L ! i)]"
  obtain zs where zs: "rs = t # zs" "filter ?P (rotate1 (?L ! i)) = zs @ [t]"
    using pn(2) Cons.prems(4) by metis
  obtain t' where t': "pick_spec ?P PRIORITY_MAX ?L = Some (i, t')" using pn(3) by blast
  have i: "i < PRIORITY_MAX" by (rule pick_spec_Some(1) [OF Cons.prems(1)])
  have t: "t \<in> set (L ! i)" by (rule pick_spec_Some(2) [OF Cons.prems(1)])
  have d: "distinct (?L ! i)"
    using Cons.prems(2,3) i level_rotate(2) [of _ i "L ! i" t] split_list_first [OF t]
    by (auto simp: rotate_to_split)
  from Cons.IH [OF t' d pn(4) refl] obtain L' c' where
    IH: "run_spec sched_spec (?L, fl, t, idl, 0) (map FindNext ts) = Some ((L', fl, c', idl, 0),
      map (\<lambda>j. Running ((zs @ [t]) ! (j mod length (zs @ [t])))) [0..<length ts])"
    unfolding zs(2) by blast
  have rot: "(zs @ [t]) ! (j mod Suc (length zs)) = rs ! (Suc j mod Suc (length zs))" for j
  proof -
    let ?n = "Suc (length zs)"
    have "Suc j mod ?n = (if Suc (j mod ?n) = ?n then 0 else Suc (j mod ?n))" by (rule mod_Suc)
    moreover have "j mod ?n < length zs \<or> j mod ?n = length zs"
      by (metis less_Suc_eq mod_less_divisor zero_less_Suc)
    ultimately show ?thesis using zs(1) by (auto simp: nth_append)
  qed
  show ?case using pn(1) IH rot zs(1) by (simp add: Let_def comp_def upt_0_Suc del: upt_Suc)
qed simp

section \<open>The timer interrupt\<close>

text \<open>No ready thread has a higher priority than the running one.\<close>

definition highest_runs :: "kernel \<Rightarrow> nat list list \<Rightarrow> bool" where
  "highest_runs k L \<longleftrightarrow>
     (\<forall>u\<in>set (concat L). ready k u \<longrightarrow> priority (threads k u) \<le> priority (threads k (cur k)))"

lemma find_next_effect:
  assumes r: "sched_rep k L" and sl: "rep (sleepingList k) sl" and run: "kernel_running k = 0"
  shows "\<exists>k' L'. IRQfindNextThread now k = Some (Inr k') \<and> sched_rep k' L' \<and>
    set (concat L') = set (concat L) \<and> threads k' = threads k \<and> kernel_running k' = 0 \<and>
    sleepingList k' = sleepingList k \<and> sleepData k' = sleepData k \<and> idle k' = idle k \<and>
    osTimerIrq k' = next_preemption k now (\<forall>u\<in>set (concat L). \<not> ready k u) sl \<and>
    nextPeriodicPreemption k' = osTimerIrq k' \<and>
    (if \<exists>u\<in>set (concat L). ready k u
     then cur k' \<in> set (concat L) \<and> ready k (cur k') \<and> highest_runs k' L'
     else cur k' = idle k)"
proof -
  let ?a = "(L, \<lambda>t. flags (threads k t), cur k, idle k, 0 :: int)"
  have rel: "sched_rel k ?a" using r sl run by (auto simp: sched_rel_def)
  from findNext_rel [OF rel, of now] obtain k' where
    k': "IRQfindNextThread now k = Some (Inr k')" "sched_rel k' (pick_next ?a)" by blast
  have lenL: "length L = PRIORITY_MAX" using r by (simp add: sched_rep_def)
  note fe = find_levels_eq [OF r sl order.refl, of now]
  show ?thesis
  proof (cases "pick_spec (ready k) PRIORITY_MAX L")
    case None
    then have "\<not> (\<exists>u\<in>set (concat L). ready k u)"
      using lenL unfolding pick_spec_None in_set_concat_nth Bex_def by auto
    moreover have "k' = timer_set (next_preemption k now True sl) (k\<lparr>cur := idle k\<rparr>)"
      using k'(1) fe None run by (simp add: IRQfindNextThread_def)
    moreover have "sched_rep k' L" using k'(2) None by (simp add: pick_next_def sched_rel_def)
    ultimately show ?thesis using k'(1) run by (intro exI [of _ k'] exI [of _ L]) (simp add: timer_set_def)
  next
    case (Some it)
    then obtain i t where p: "pick_spec (ready k) PRIORITY_MAX L = Some (i, t)" by (cases it) auto
    note ps = pick_spec_Some [OF p]
    let ?L = "L[i := rotate_to t (L ! i)]"
    have tl: "t \<in> set (concat L)" using ps(1,2) lenL unfolding in_set_concat_nth by auto
    have setL: "set (concat ?L) = set (concat L)"
    proof -
      have "set (?L ! j) = set (L ! j)" for j
        using ps(1) lenL by (cases "j = i") auto
      then show ?thesis unfolding set_eq_iff in_set_concat_nth by simp
    qed
    have kk: "k' = timer_set (next_preemption k now False sl)
        (k\<lparr>cur := t, thread_list := (thread_list k)[i := Some t]\<rparr>)"
      using k'(1) fe p run by (simp add: IRQfindNextThread_def)
    have rL: "sched_rep k' ?L" using k'(2) p by (simp add: pick_next_def sched_rel_def)
    have "priority (threads k u) \<le> priority (threads k t)" if "u \<in> set (concat L)" "ready k u" for u
    proof -
      obtain j where "j < PRIORITY_MAX" "u \<in> set (L ! j)"
        using \<open>u \<in> set (concat L)\<close> lenL unfolding in_set_concat_nth by auto
      with ps sched_repD(3) [OF r] that(2) show ?thesis by fastforce
    qed
    then have hr: "highest_runs k' ?L" unfolding highest_runs_def setL by (simp add: kk timer_set_def)
    have ex: "\<exists>u\<in>set (concat L). ready k u" using tl ps(3) by blast
    then have "(\<forall>u\<in>set (concat L). \<not> ready k u) = False" by blast
    with ex tl setL kk rL hr ps(3) k'(1) run show ?thesis
      by (intro exI [of _ k'] exI [of _ ?L]) (simp only:, simp add: timer_set_def)
  qed
qed

lemma wake_effect:
  assumes r: "sched_rep k L" and xs: "rep (sleepingList k) xs" "sorted (map (wt k) xs)"
  shows "\<exists>k'. IRQwakeThreads now k = Some (Inr (k', wakes_higher k now xs)) \<and> sched_rep k' L \<and>
    rep (sleepingList k') (filter (\<lambda>a. \<not> expired k now a) xs) \<and> sleepData k' = sleepData k \<and>
    threads k' = wake_threads k now xs \<and> cur k' = cur k \<and> kernel_running k' = kernel_running k \<and>
    idle k' = idle k \<and> nextPeriodicPreemption k' = nextPeriodicPreemption k"
proof -
  from IRQwakeThreads_eq [OF xs, of now] obtain sl where
    sl: "IRQwakeThreads now k = Some (Inr (k\<lparr>threads := wake_threads k now xs, sleepingList := sl\<rparr>,
      wakes_higher k now xs))" "rep sl (filter (\<lambda>a. \<not> expired k now a) xs)" by blast
  let ?k = "k\<lparr>threads := wake_threads k now xs, sleepingList := sl\<rparr>"
  have eq: "(\<lambda>t. snext ?k t) = (\<lambda>t. snext k t)" "priority (threads ?k t) = priority (threads k t)" for t
    by (auto simp: wake_threads_def fun_eq_iff)
  have "sched_rep ?k L" using r unfolding sched_rep_def level_def eq by simp
  with sl show ?thesis by auto
qed

lemma highest_runs_wake:
  assumes hr: "highest_runs k L" and nw: "\<not> wakes_higher k now xs"
    and k': "threads k' = wake_threads k now xs" "cur k' = cur k"
  shows "highest_runs k' L"
  unfolding highest_runs_def
proof (intro ballI impI)
  fix u
  assume u: "u \<in> set (concat L)" and rd: "ready k' u"
  have p: "priority (threads k' t) = priority (threads k t)" for t by (simp add: k'(1) wake_threads_def)
  show "priority (threads k' u) \<le> priority (threads k' (cur k'))"
  proof (cases "Some u \<in> sp k ` set (filter (expired k now) xs)")
    case True
    then obtain a where "a \<in> set xs" "expired k now a" "sp k a = Some u"
      by (auto simp: image_iff eq_commute)
    with nw show ?thesis unfolding wakes_higher_def p k'(2) by force
  next
    case False
    then have "ready k u" using rd by (simp add: k'(1) wake_threads_def)
    with hr u show ?thesis unfolding highest_runs_def p k'(2) by blast
  qed
qed

section \<open>Properties\<close>

text \<open>C4. The priority scheduler implements its contract: over every sequence of PKaddThread,
  PKsetPriority, PKremoveDeadThreads, PKexists and IRQfindNextThread calls, interleaved with
  arbitrary changes of thread flags, that adds each thread once and with a valid priority, the
  walks of the circular lists terminate and dereference no null pointer, PKexists answers and
  the threads chosen to run are those of the abstract scheduler on plain lists, and the pointers
  represent the abstract lists at the end.\<close>

theorem priority_scheduler_refines_lists:
  assumes "sched_rel k a" "run_spec sched_spec a reqs = Some (a', outs)"
  shows "\<exists>k'. run_impl sched_impl k reqs = Inr (k', outs) \<and> sched_rel k' a'"
  by (rule prio.run [OF assms])

lemma sched_rel_boot: "sched_rel (boot_kernel idl e) ([[], [], [], []], \<lambda>_. 0, idl, idl, 0)"
proof -
  have "level (boot_kernel idl e) i ([[], [], [], []] ! i)" "distinct ([[], [], [], []] ! i)"
    "[[], [], [], []] ! i = ([] :: nat list)" if "i < 4" for i
    using that by (auto simp: level_def boot_kernel_def less_Suc_eq eval_nat_numeral)
  then have "sched_rep (boot_kernel idl e) [[], [], [], []]"
    by (auto simp: sched_rep_def PRIORITY_MAX_def boot_kernel_def)
  moreover have "rep (sleepingList (boot_kernel idl e)) []" by (simp add: boot_kernel_def rep_new_list)
  ultimately show ?thesis
    by (auto simp: sched_rel_def boot_kernel_def new_thread_def)
qed

theorem priority_scheduler_refines_lists_witness:
  "\<exists>k'. run_impl sched_impl (boot_kernel 9 8)
     [AddThread 1 0, AddThread 2 1, AddThread 3 1, FindNext 0, FindNext 0, SetPriority 1 3,
      FindNext 0, SetFlags 1 0x14, FindNext 0, RemoveDead, Exists 1, Exists 3] =
     Inr (k', [Done, Done, Done, Running 3, Running 2, Done, Running 1, Done, Running 3, Done,
       Found False, Found True]) \<and>
     sched_rel k' ([[], [3, 2], [], []], (\<lambda>_. 0)(1 := 0x14), 3, 9, 0)"
proof (rule priority_scheduler_refines_lists [OF sched_rel_boot])
  have "\<not> isReady 0x14" "isDeleted 0x14" by (simp_all add: isReady_def isDeleted_def)
  then show "run_spec sched_spec ([[], [], [], []], \<lambda>_. 0, 9, 9, 0)
     [AddThread 1 0, AddThread 2 1, AddThread 3 1, FindNext 0, FindNext 0, SetPriority 1 3,
      FindNext 0, SetFlags 1 0x14, FindNext 0, RemoveDead, Exists 1, Exists 3] =
     Some (([[], [3, 2], [], []], (\<lambda>_. 0)(1 := 0x14), 3, 9, 0),
       [Done, Done, Done, Running 3, Running 2, Done, Running 1, Done, Running 3, Done,
         Found False, Found True])"
    by (simp add: PRIORITY_MAX_def eval_nat_numeral pick_next_def rotate_to_def level_of_def Let_def)
qed

text \<open>C5. When the kernel is running, IRQfindNextThread always returns and chooses a ready thread
  of the scheduler than which no ready thread has a higher priority; if no thread is ready it
  chooses the idle thread. It changes no thread and loses none from the lists.\<close>

theorem highest_priority_thread_runs:
  assumes "sched_rep k L" "rep (sleepingList k) sl" "kernel_running k = 0"
  shows "\<exists>k' L'. IRQfindNextThread now k = Some (Inr k') \<and> sched_rep k' L' \<and>
    set (concat L') = set (concat L) \<and> threads k' = threads k \<and>
    (if \<exists>u\<in>set (concat L). ready k u
     then cur k' \<in> set (concat L) \<and> ready k (cur k') \<and>
       (\<forall>u\<in>set (concat L). ready k u \<longrightarrow> priority (threads k u) \<le> priority (threads k (cur k')))
     else cur k' = idle k)"
proof -
  from find_next_effect [OF assms, of now] obtain k' L' where
    k': "IRQfindNextThread now k = Some (Inr k')" "sched_rep k' L'"
      "set (concat L') = set (concat L)" "threads k' = threads k" and
    pick: "if \<exists>u\<in>set (concat L). ready k u
     then cur k' \<in> set (concat L) \<and> ready k (cur k') \<and> highest_runs k' L' else cur k' = idle k"
    by blast
  have "if \<exists>u\<in>set (concat L). ready k u
     then cur k' \<in> set (concat L) \<and> ready k (cur k') \<and>
       (\<forall>u\<in>set (concat L). ready k u \<longrightarrow> priority (threads k u) \<le> priority (threads k (cur k')))
     else cur k' = idle k"
    using pick unfolding highest_runs_def k'(3,4) .
  with k' show ?thesis by blast
qed

theorem highest_priority_thread_runs_witness:
  "\<exists>k L k' L'. L = [[1], [], [2], []] \<and> sched_rep k L \<and> IRQfindNextThread 0 k = Some (Inr k') \<and>
     sched_rep k' L' \<and> cur k' = 2"
proof -
  have "run_spec sched_spec ([[], [], [], []], \<lambda>_. 0, 9, 9, 0) [AddThread 1 0, AddThread 2 2] =
      Some (([[1], [], [2], []], \<lambda>_. 0, 9, 9, 0), [Done, Done])"
    by (simp add: PRIORITY_MAX_def eval_nat_numeral)
  from prio.run [OF sched_rel_boot [of 9 8] this] obtain k where
    "sched_rel k ([[1], [], [2], []], \<lambda>_. 0, 9, 9, 0)" by blast
  then obtain sl where k: "sched_rep k [[1], [], [2], []]" "rep (sleepingList k) sl"
    "kernel_running k = 0" and fl: "flags (threads k t) = 0" for t
    by (auto simp: sched_rel_def fun_eq_iff)
  have p: "priority (threads k 1) = 0" "priority (threads k 2) = 2"
    using sched_repD(3) [OF k(1), of 0 1] sched_repD(3) [OF k(1), of 2 2] by (simp_all add: PRIORITY_MAX_def)
  have s: "set (concat [[1], [], [2], []]) = {1, 2 :: nat}" by simp
  from highest_priority_thread_runs [OF k, of 0] obtain k' L' where
    k': "IRQfindNextThread 0 k = Some (Inr k')" "sched_rep k' L'" "cur k' \<in> {1, 2}"
      "priority (threads k 2) \<le> priority (threads k (cur k'))"
    unfolding s fl by (auto split: if_splits)
  with p have "cur k' = 2" by auto
  with k k' show ?thesis by blast
qed

text \<open>C6. Threads of equal priority run in round robin: as long as the flags do not change, the
  consecutive choices of IRQfindNextThread go cyclically through exactly the ready threads of the
  highest priority that has one, in list order starting after the thread that ran last, so none of
  them waits for more than one turn of each of the others.\<close>

theorem round_robin_within_priority:
  assumes "sched_rel k (L, fl, c, idl, 0)"
    and "i < PRIORITY_MAX" "\<forall>j. i < j \<and> j < PRIORITY_MAX \<longrightarrow> (\<forall>u\<in>set (L ! j). \<not> isReady (fl u))"
    and "rs = filter (\<lambda>t. isReady (fl t)) (rotate1 (L ! i))" "rs \<noteq> []"
  shows "\<exists>k'. run_impl sched_impl k (map FindNext ts) =
    Inr (k', map (\<lambda>j. Running (rs ! (j mod length rs))) [0..<length ts])"
proof -
  let ?P = "\<lambda>t. isReady (fl t)"
  have r: "sched_rep k L" using assms(1) by (simp add: sched_rel_def)
  note lv = sched_repD [OF r assms(2)]
  obtain u where u: "u \<in> set (L ! i)" "?P u" using assms(4,5) by (auto simp: filter_empty_conv)
  then obtain j t where p: "pick_spec ?P PRIORITY_MAX L = Some (j, t)"
    using assms(2) pick_spec_None [of ?P PRIORITY_MAX L] by fastforce
  note ps = pick_spec_Some [OF p]
  have "j = i" using ps(4) [OF assms(2) u] ps(1-3) assms(3) le_neq_implies_less by blast
  from round_robin_spec [OF p [unfolded this] lv(2,5) assms(4)] obtain a' where
    "run_spec sched_spec (L, fl, c, idl, 0) (map FindNext ts) =
      Some (a', map (\<lambda>j. Running (rs ! (j mod length rs))) [0..<length ts])" by blast
  from prio.run [OF assms(1) this] show ?thesis by blast
qed

theorem round_robin_within_priority_witness:
  "\<exists>k k'. run_impl sched_impl k (map FindNext [0, 0, 0, 0]) =
     Inr (k', [Running 3, Running 2, Running 1, Running 3])"
proof -
  have "run_spec sched_spec ([[], [], [], []], \<lambda>_. 0, 9, 9, 0) [AddThread 1 1, AddThread 2 1, AddThread 3 1] =
      Some (([[], [1, 3, 2], [], []], \<lambda>_. 0, 9, 9, 0), [Done, Done, Done])"
    by (simp add: PRIORITY_MAX_def eval_nat_numeral)
  from prio.run [OF sched_rel_boot [of 9 8] this] obtain k where
    "sched_rel k ([[], [1, 3, 2], [], []], \<lambda>_. 0, 9, 9, 0)" by blast
  moreover have "\<forall>j. 1 < j \<and> j < PRIORITY_MAX \<longrightarrow>
      (\<forall>u\<in>set ([[], [1, 3, 2], [], []] ! j). \<not> isReady 0)"
    by (auto simp: PRIORITY_MAX_def less_Suc_eq eval_nat_numeral)
  moreover have "[3, 2, 1] = filter (\<lambda>t. isReady 0) (rotate1 ([[], [1, 3, 2], [], []] ! 1))"
    "[3, 2, 1] \<noteq> ([] :: nat list)" "1 < PRIORITY_MAX" by (simp_all add: PRIORITY_MAX_def)
  ultimately obtain k' where "run_impl sched_impl k (map FindNext [0, 0, 0, 0]) =
      Inr (k', map (\<lambda>j. Running ([3, 2, 1] ! (j mod length [3, 2, 1 :: nat]))) [0..<length [0, 0, 0, 0 :: int]])"
    using round_robin_within_priority [where ts = "[0, 0, 0, 0]"] by blast
  moreover have "map (\<lambda>j. Running ([3, 2, 1] ! (j mod length [3, 2, 1 :: nat])))
      [0..<length [0, 0, 0, 0 :: int]] = [Running 3, Running 2, Running 1, Running 3]"
    by code_simp
  ultimately show ?thesis by metis
qed

text \<open>C7. PKremoveDeadThreads always returns, frees exactly the threads of the scheduler that are both
  deleted and detached, each once, and leaves all others in their lists in the same order, with
  flags and priorities unchanged.\<close>

theorem dead_threads_freed_once:
  assumes "sched_rep k L"
  shows "\<exists>k' ds. PKremoveDeadThreads k = Some (Inr k') \<and> freed k' = freed k @ ds \<and> distinct ds \<and>
    set ds = {t \<in> set (concat L). dead k t} \<and>
    sched_rep k' (map (filter (\<lambda>t. \<not> dead k t)) L) \<and>
    (\<forall>t. flags (threads k' t) = flags (threads k t) \<and>
         priority (threads k' t) = priority (threads k t))"
proof -
  from PKremoveDeadThreads_eq [OF assms] obtain k' where
    k': "PKremoveDeadThreads k = Some (Inr k')" "sched_rep k' (map (filter (\<lambda>t. \<not> dead k t)) L)"
      "sched_frame k k'" "freed k' = freed k @ concat (map (filter (dead k)) (rev L))"
      "\<forall>a. priority (threads k' a) = priority (threads k a)" by blast
  have "distinct (concat (map rev L))"
  proof (rule distinct_concat_nth)
    show "i = j" if "i < length (map rev L)" "j < length (map rev L)" "x \<in> set (map rev L ! i)"
      "x \<in> set (map rev L ! j)" for i j x
    proof -
      have "length L = PRIORITY_MAX" using assms by (simp add: sched_rep_def)
      with that sched_repD(3) [OF assms, of i x] sched_repD(3) [OF assms, of j x] show ?thesis by simp
    qed
  qed (use assms in \<open>auto simp: sched_rep_def\<close>)
  then have "distinct (concat (rev L))" by (metis distinct_rev rev_concat rev_rev_ident)
  then have "distinct (concat (map (filter (dead k)) (rev L)))"
    by (metis distinct_filter filter_concat)
  with k' sched_frame_flags [OF k'(3)] show ?thesis
    by (intro exI [of _ k'] exI [of _ "concat (map (filter (dead k)) (rev L))"]) auto
qed

theorem dead_threads_freed_once_witness:
  "\<exists>k k' ds. sched_rep k [[1], [3, 2], [], []] \<and> dead k 2 \<and>
     PKremoveDeadThreads k = Some (Inr k') \<and> set ds = {2} \<and> freed k' = freed k @ ds \<and>
     sched_rep k' [[1], [3], [], []]"
proof -
  have "run_spec sched_spec ([[], [], [], []], \<lambda>_. 0, 9, 9, 0)
      [AddThread 1 0, AddThread 3 1, AddThread 2 1, SetFlags 2 0x14] =
      Some (([[1], [3, 2], [], []], (\<lambda>_. 0)(2 := 0x14), 9, 9, 0), [Done, Done, Done, Done])"
    by (simp add: PRIORITY_MAX_def eval_nat_numeral)
  from prio.run [OF sched_rel_boot [of 9 8] this] obtain k where
    "sched_rel k ([[1], [3, 2], [], []], (\<lambda>_. 0)(2 := 0x14), 9, 9, 0)" by blast
  then have k: "sched_rep k [[1], [3, 2], [], []]"
    and "flags (threads k t) = ((\<lambda>_. 0)(2 := 0x14)) t" for t
    by (auto simp: sched_rel_def fun_eq_iff)
  then have d: "dead k t \<longleftrightarrow> t = 2" for t by (simp add: isDeleted_def)
  from dead_threads_freed_once [OF k] obtain k' ds where
    "PKremoveDeadThreads k = Some (Inr k')" "freed k' = freed k @ ds"
    "set ds = {t \<in> set (concat [[1], [3, 2], [], []]). dead k t}"
    "sched_rep k' (map (filter (\<lambda>t. \<not> dead k t)) [[1], [3, 2], [], []])" by blast
  with k d show ?thesis by (intro exI [of _ k] exI [of _ k'] exI [of _ ds]) auto
qed

text \<open>C8. When the timer interrupt fires while the kernel is running, it always returns and leaves running
  a thread than which no ready thread has a higher priority, provided this held before it: a
  woken thread of higher priority preempts the running one in the same interrupt.\<close>

theorem timer_interrupt_preempts:
  assumes "sched_rep k L" "rep (sleepingList k) xs" "sorted (map (wt k) xs)" "kernel_running k = 0"
    "highest_runs k L"
  shows "\<exists>k' L'. IRQtimerInterrupt t now k = Some (Inr k') \<and> sched_rep k' L' \<and>
    set (concat L') = set (concat L) \<and> highest_runs k' L' \<and> threads k' = wake_threads k t xs"
proof -
  from wake_effect [OF assms(1-3), of t] obtain k1 where
    k1: "IRQwakeThreads t k = Some (Inr (k1, wakes_higher k t xs))" "sched_rep k1 L"
      "rep (sleepingList k1) (filter (\<lambda>a. \<not> expired k t a) xs)" "threads k1 = wake_threads k t xs"
      "cur k1 = cur k" "kernel_running k1 = 0"
    using assms(4) by auto
  show ?thesis
  proof (cases "t \<ge> IRQgetNextPreemption k1 \<or> wakes_higher k t xs")
    case True
    from find_next_effect [OF k1(2,3,6), of now] obtain k2 L2 where
      k2: "IRQfindNextThread now k1 = Some (Inr k2)" "sched_rep k2 L2"
        "set (concat L2) = set (concat L)" "threads k2 = threads k1" "kernel_running k2 = 0"
        and pick: "if \<exists>u\<in>set (concat L). ready k1 u
         then cur k2 \<in> set (concat L) \<and> ready k1 (cur k2) \<and> highest_runs k2 L2 else cur k2 = idle k1"
      by blast
    have "highest_runs k2 L2"
    proof (cases "\<exists>u\<in>set (concat L). ready k1 u")
      case True
      with pick show ?thesis by (simp only: if_True)
    next
      case False
      then show ?thesis unfolding highest_runs_def k2(3,4) by blast
    qed
    with True k1(1,4) k2 show ?thesis
      by (intro exI [of _ k2] exI [of _ L2]) (simp add: IRQtimerInterrupt_def)
  next
    case False
    then have "highest_runs k1 L" using highest_runs_wake [OF assms(5) _ k1(4,5)] by blast
    with False k1 show ?thesis
      by (intro exI [of _ k1] exI [of _ L]) (simp add: IRQtimerInterrupt_def)
  qed
qed

theorem timer_interrupt_preempts_witness:
  "\<exists>k k' L'. sched_rep k [[1], [], [], []] \<and> highest_runs k [[1], [], [], []] \<and>
     IRQtimerInterrupt 5 5 k = Some (Inr k') \<and> sched_rep k' L' \<and> highest_runs k' L'"
proof -
  have "run_spec sched_spec ([[], [], [], []], \<lambda>_. 0, 9, 9, 0) [AddThread 1 0, FindNext 0] =
      Some (([[1], [], [], []], \<lambda>_. 0, 1, 9, 0), [Done, Running 1])"
    by (simp add: PRIORITY_MAX_def eval_nat_numeral pick_next_def rotate_to_def Let_def)
  from prio.run [OF sched_rel_boot [of 9 8] this] obtain k where
    rk: "sched_rel k ([[1], [], [], []], \<lambda>_. 0, 1, 9, 0)" by blast
  let ?k = "k\<lparr>sleepingList := new_list (\<lambda>_. \<lparr>item_next = nullptr, item_prev = nullptr\<rparr>) 8\<rparr>"
  have "sched_rep ?k [[1], [], [], []]" "kernel_running ?k = 0" "cur ?k = 1"
    using rk by (auto simp: sched_rel_def sched_rep_def level_def)
  moreover from this have "highest_runs ?k [[1], [], [], []]" by (simp add: highest_runs_def)
  moreover have "rep (sleepingList ?k) []" by (simp add: rep_new_list)
  ultimately show ?thesis
    using timer_interrupt_preempts [of ?k "[[1], [], [], []]" "[]" 5 5] by auto
qed

text \<open>While the kernel is paused the timer interrupt never switches threads nor touches the
  scheduler's lists: expired threads are still woken, and if a preemption was due it is recorded
  in pendingWakeup.\<close>

theorem timer_interrupt_paused:
  assumes "rep (sleepingList k) xs" "sorted (map (wt k) xs)" "kernel_running k \<noteq> 0"
  shows "\<exists>k'. IRQtimerInterrupt t now k = Some (Inr k') \<and> cur k' = cur k \<and>
    thread_list k' = thread_list k \<and> threads k' = wake_threads k t xs \<and>
    (pendingWakeup k' \<longleftrightarrow>
       pendingWakeup k \<or> t \<ge> nextPeriodicPreemption k \<or> wakes_higher k t xs)"
  using IRQwakeThreads_eq [OF assms(1,2), of t] assms(3)
  by (auto simp: IRQtimerInterrupt_def IRQfindNextThread_def IRQgetNextPreemption_def)

theorem timer_interrupt_paused_witness:
  "\<exists>k'. IRQtimerInterrupt 7 7 ((boot_kernel 9 8)\<lparr>kernel_running := 1, nextPeriodicPreemption := 6\<rparr>) =
     Some (Inr k') \<and> cur k' = 9 \<and> pendingWakeup k'"
  using timer_interrupt_paused [of "(boot_kernel 9 8)\<lparr>kernel_running := 1, nextPeriodicPreemption := 6\<rparr>"
      "[]" 7 7] rep_new_list
  by (auto simp: boot_kernel_def)

text \<open>After IRQfindNextThread the timer is set so that no wakeup is missed: it fires no later than
  the wakeup time of any sleeping thread, and, unless the idle thread was chosen, no later than the
  end of the time slice.\<close>

theorem timer_covers_wakeups:
  assumes "sched_rep k L" "rep (sleepingList k) sl" "sorted (map (wt k) sl)" "kernel_running k = 0"
  shows "\<exists>k'. IRQfindNextThread now k = Some (Inr k') \<and>
    (\<forall>a\<in>set sl. osTimerIrq k' \<le> wt k a) \<and>
    ((\<exists>u\<in>set (concat L). ready k u) \<longrightarrow> osTimerIrq k' \<le> now + MAX_TIME_SLICE) \<and>
    IRQgetNextPreemption k' = osTimerIrq k'"
proof -
  from find_next_effect [OF assms(1,2,4), of now] obtain k' where
    k': "IRQfindNextThread now k = Some (Inr k')"
      "osTimerIrq k' = next_preemption k now (\<forall>u\<in>set (concat L). \<not> ready k u) sl"
      "nextPeriodicPreemption k' = osTimerIrq k'" by blast
  have h: "wt k (hd sl) \<le> wt k a" if "a \<in> set sl" for a
    using that assms(3) by (cases sl) auto
  have 1: "next_preemption k now b sl \<le> wt k a" if "a \<in> set sl" for a b
  proof -
    have "sl \<noteq> []" using that by auto
    with h [OF that] show ?thesis by (simp add: next_preemption_def Let_def min.coboundedI1)
  qed
  have 2: "next_preemption k now b sl \<le> now + MAX_TIME_SLICE" if "\<not> b" for b
    using that by (auto simp: next_preemption_def Let_def)
  have "\<forall>a\<in>set sl. osTimerIrq k' \<le> wt k a" unfolding k'(2) by (intro ballI 1)
  moreover have "(\<exists>u\<in>set (concat L). ready k u) \<longrightarrow> osTimerIrq k' \<le> now + MAX_TIME_SLICE"
    unfolding k'(2) by (intro impI 2) blast
  ultimately show ?thesis using k'(1,3) unfolding IRQgetNextPreemption_def by blast
qed

theorem timer_covers_wakeups_witness:
  "\<exists>k'. IRQfindNextThread 0 (boot_kernel 9 8) = Some (Inr k') \<and>
     IRQgetNextPreemption k' = osTimerIrq k'"
proof -
  have "sched_rep (boot_kernel 9 8) [[], [], [], []]" using sched_rel_boot [of 9 8]
    by (simp add: sched_rel_def)
  moreover have "rep (sleepingList (boot_kernel 9 8)) []" "kernel_running (boot_kernel 9 8) = 0"
    by (simp_all add: boot_kernel_def rep_new_list)
  ultimately show ?thesis using timer_covers_wakeups [of "boot_kernel 9 8" "[[], [], [], []]" "[]" 0] by auto
qed

end
