(* ===== verification/Edf_Scheduler.thy ===== *)
theory Edf_Scheduler
  imports Priority_Scheduler
begin

text \<open>
  \<^verbatim>\<open>class EDFScheduler\<close> (\<^verbatim>\<open>scheduler/edf/edf_scheduler.cpp\<close>), the earliest deadline first scheduler: one null
  terminated list of threads, \<^verbatim>\<open>head\<close>, linked through \<^verbatim>\<open>schedData.next\<close>. The state is the kernel's, with the deadline of a
  thread in its priority field, and the head of the list. \<open>edf_rep\<close> says which list of threads the pointers
  represent, in order of deadline.
\<close>

section \<open>The scheduler\<close>

record edf =
  kern :: kernel
  edf_head :: ptr

abbreviation deadline :: "kernel \<Rightarrow> nat \<Rightarrow> int" where
  "deadline k t \<equiv> priority (threads k t)"

partial_function (option) edf_add_loop :: "nat \<Rightarrow> int \<Rightarrow> ptr \<Rightarrow> kernel \<Rightarrow> kernel result option" where
  "edf_add_loop t newDeadline walk k =
     oderef walk (\<lambda>a.
       case snext k a of
         None \<Rightarrow> Some (Inr (set_snext a (Some t) (set_snext t (snext k a) k)))
       | Some b \<Rightarrow>
           if newDeadline \<le> deadline k b
           then Some (Inr (set_snext a (Some t) (set_snext t (snext k a) k)))
           else edf_add_loop t newDeadline (snext k a) k)"

definition edf_add :: "nat \<Rightarrow> edf \<Rightarrow> edf result option" where
  "edf_add t e =
     (let k = kern e; newDeadline = deadline k t in
      case edf_head e of
        None \<Rightarrow> Some (Inr (e\<lparr>edf_head := Some t\<rparr>))
      | Some h \<Rightarrow>
          if newDeadline \<le> deadline k h
          then Some (Inr (e\<lparr>kern := set_snext t (Some h) k, edf_head := Some t\<rparr>))
          else obind (edf_add_loop t newDeadline (Some h) k) (\<lambda>k. Some (Inr (e\<lparr>kern := k\<rparr>))))"

partial_function (option) edf_remove_loop :: "nat \<Rightarrow> ptr \<Rightarrow> kernel \<Rightarrow> kernel result option" where
  "edf_remove_loop t walk k =
     oderef walk (\<lambda>a.
       case snext k a of
         None \<Rightarrow> Some (Inl (ErrorHandler UNEXPECTED))
       | Some b \<Rightarrow>
           if b = t then Some (Inr (set_snext a (snext k b) k))
           else edf_remove_loop t (snext k a) k)"

definition edf_remove :: "nat \<Rightarrow> edf \<Rightarrow> edf result option" where
  "edf_remove t e =
     (case edf_head e of
        None \<Rightarrow> Some (Inl (ErrorHandler UNEXPECTED))
      | Some h \<Rightarrow>
          if h = t then Some (Inr (e\<lparr>edf_head := snext (kern e) h\<rparr>))
          else obind (edf_remove_loop t (Some h) (kern e)) (\<lambda>k. Some (Inr (e\<lparr>kern := k\<rparr>))))"

definition edf_PKaddThread :: "nat \<Rightarrow> int \<Rightarrow> edf \<Rightarrow> (edf \<times> bool) result option" where
  "edf_PKaddThread t p e = obind (edf_add t (e\<lparr>kern := set_prio t p (kern e)\<rparr>)) (\<lambda>e. Some (Inr (e, True)))"

partial_function (option) edf_exists_loop :: "nat \<Rightarrow> ptr \<Rightarrow> kernel \<Rightarrow> bool option" where
  "edf_exists_loop t walk k =
     (case walk of
        None \<Rightarrow> Some False
      | Some a \<Rightarrow> if a = t \<and> \<not> isDeleted (flags (threads k a)) then Some True else edf_exists_loop t (snext k a) k)"

definition edf_PKexists :: "nat \<Rightarrow> edf \<Rightarrow> bool option" where
  "edf_PKexists t e = edf_exists_loop t (edf_head e) (kern e)"

partial_function (option) edf_dead_front :: "edf \<Rightarrow> edf result option" where
  "edf_dead_front e =
     (case edf_head e of
        None \<Rightarrow> Some (Inl (ErrorHandler UNEXPECTED))
      | Some h \<Rightarrow>
          if \<not> isDeleted (flags (threads (kern e) h)) then Some (Inr e)
          else edf_dead_front (e\<lparr>edf_head := snext (kern e) h, kern := free_thread h (kern e)\<rparr>))"

partial_function (option) edf_dead_rest :: "ptr \<Rightarrow> kernel \<Rightarrow> kernel result option" where
  "edf_dead_rest walk k =
     oderef walk (\<lambda>a.
       case snext k a of
         None \<Rightarrow> Some (Inr k)
       | Some d \<Rightarrow>
           if isDeleted (flags (threads k d))
           then edf_dead_rest walk (free_thread d (set_snext a (snext k d) k))
           else edf_dead_rest (snext k a) k)"

definition edf_PKremoveDeadThreads :: "edf \<Rightarrow> edf result option" where
  "edf_PKremoveDeadThreads e =
     obind (edf_dead_front e) (\<lambda>e.
     obind (edf_dead_rest (edf_head e) (kern e)) (\<lambda>k. Some (Inr (e\<lparr>kern := k\<rparr>))))"

definition edf_PKsetPriority :: "nat \<Rightarrow> int \<Rightarrow> edf \<Rightarrow> edf result option" where
  "edf_PKsetPriority t newPriority e =
     obind (edf_remove t e) (\<lambda>e. edf_add t (e\<lparr>kern := set_prio t newPriority (kern e)\<rparr>))"

definition edf_IRQsetIdleThread :: "nat \<Rightarrow> edf \<Rightarrow> edf result option" where
  "edf_IRQsetIdleThread t e = edf_add t (e\<lparr>kern := set_prio t (LLONG_MAX - 1) (kern e)\<rparr>)"

definition edf_IRQsetNextPreemption :: "kernel \<Rightarrow> kernel result" where
  "edf_IRQsetNextPreemption k =
     rbind (if is_empty (sleepingList k) then Inr LLONG_MAX
            else deref (front (sleepingList k)) (\<lambda>a. Inr (wt k a))) (\<lambda>n.
     Inr (k\<lparr>nextPeriodicPreemption := n, osTimerIrq := n\<rparr>))"

partial_function (option) edf_find_loop :: "ptr \<Rightarrow> kernel \<Rightarrow> kernel result option" where
  "edf_find_loop walk k =
     (case walk of
        None \<Rightarrow> Some (Inl (ErrorHandler UNEXPECTED))
      | Some a \<Rightarrow>
          if isReady (flags (threads k a)) then Some (edf_IRQsetNextPreemption (k\<lparr>cur := a\<rparr>))
          else edf_find_loop (snext k a) k)"

definition edf_IRQfindNextThread :: "edf \<Rightarrow> (edf \<times> bool) result option" where
  "edf_IRQfindNextThread e =
     (if kernel_running (kern e) \<noteq> 0 then Some (Inr (e, False))
      else obind (edf_find_loop (edf_head e) (kern e)) (\<lambda>k. Some (Inr (e\<lparr>kern := k\<rparr>, True))))"

section \<open>Null terminated lists\<close>

fun nchain :: "(nat \<Rightarrow> ptr) \<Rightarrow> nat list \<Rightarrow> bool" where
  "nchain nx [] \<longleftrightarrow> True"
| "nchain nx (x # xs) \<longleftrightarrow> nx x = (case xs of [] \<Rightarrow> None | y # _ \<Rightarrow> Some y) \<and> nchain nx xs"

definition ptr_of :: "nat list \<Rightarrow> ptr" where
  "ptr_of xs = (case xs of [] \<Rightarrow> None | y # _ \<Rightarrow> Some y)"

lemma ptr_of_simps [simp]: "ptr_of [] = None" "ptr_of (x # xs) = Some x"
  by (simp_all add: ptr_of_def)

lemma nchain_Cons [simp]: "nchain nx (x # xs) \<longleftrightarrow> nx x = ptr_of xs \<and> nchain nx xs"
  by (simp add: ptr_of_def)

declare nchain.simps(2) [simp del]

lemma nchain_append: "nchain nx (xs @ ys) \<Longrightarrow> nchain nx ys"
  by (induction xs) auto

lemma nchain_cong: "(\<And>a. a \<in> set xs \<Longrightarrow> nx' a = nx a) \<Longrightarrow> nchain nx' xs = nchain nx xs"
  by (induction xs) auto

lemma nchain_relink:
  assumes "nchain nx (us @ a # ws)" "distinct (us @ a # ws)" "nchain nx' vs" "nx' a = ptr_of vs"
    "\<And>x. x \<in> set us \<Longrightarrow> nx' x = nx x"
  shows "nchain nx' (us @ a # vs)"
  using assms
proof (induction us)
  case (Cons u us)
  have "ptr_of (us @ a # vs) = ptr_of (us @ a # ws)" by (cases us) simp_all
  with Cons show ?case by simp
qed simp

definition edf_rep :: "edf \<Rightarrow> nat list \<Rightarrow> bool" where
  "edf_rep e xs \<longleftrightarrow> edf_head e = ptr_of xs \<and> nchain (\<lambda>t. snext (kern e) t) xs \<and> distinct xs \<and>
     sorted (map (deadline (kern e)) xs)"

section \<open>Insertion\<close>

lemma edf_add_loop_spec:
  assumes "nchain (\<lambda>x. snext k x) (a # ws)"
  shows "edf_add_loop t d (Some a) k = Some (Inr (set_snext (last (a # takeWhile (\<lambda>x. deadline k x < d) ws)) (Some t)
      (set_snext t (ptr_of (dropWhile (\<lambda>x. deadline k x < d) ws)) k)))"
  using assms
proof (induction ws arbitrary: a)
  case Nil
  then show ?case by (subst edf_add_loop.simps) simp
next
  case (Cons b ws)
  then have n: "snext k a = Some b" by simp
  show ?case
  proof (cases "d \<le> deadline k b")
    case True
    then show ?thesis using n by (subst edf_add_loop.simps) simp
  next
    case False
    have "edf_add_loop t d (Some b) k = Some (Inr (set_snext (last (b # takeWhile (\<lambda>x. deadline k x < d) ws)) (Some t)
        (set_snext t (ptr_of (dropWhile (\<lambda>x. deadline k x < d) ws)) k)))"
      by (rule Cons.IH) (use Cons.prems in simp)
    then show ?thesis using n False by (subst edf_add_loop.simps) simp
  qed
qed

text \<open>The list with a thread in its place: before those with the same deadline.\<close>

definition edf_insert :: "(nat \<Rightarrow> int) \<Rightarrow> nat \<Rightarrow> nat list \<Rightarrow> nat list" where
  "edf_insert dl t xs = takeWhile (\<lambda>x. dl x < dl t) xs @ t # dropWhile (\<lambda>x. dl x < dl t) xs"

lemma set_edf_insert [simp]: "set (edf_insert dl t xs) = insert t (set xs)"
  unfolding edf_insert_def by (metis Un_insert_right list.simps(15) set_append takeWhile_dropWhile_id)

lemma distinct_edf_insert:
  assumes "distinct xs" "t \<notin> set xs"
  shows "distinct (edf_insert dl t xs)"
proof -
  let ?P = "\<lambda>x. dl x < dl t"
  have "distinct (takeWhile ?P xs @ dropWhile ?P xs)" "t \<notin> set (takeWhile ?P xs @ dropWhile ?P xs)" using assms by simp_all
  then show ?thesis unfolding edf_insert_def by (auto simp del: takeWhile_dropWhile_id)
qed

lemma sorted_edf_insert:
  assumes "sorted (map dl xs)"
  shows "sorted (map dl (edf_insert dl t xs))"
proof -
  let ?P = "\<lambda>x. dl x < dl t"
  have t: "dl x < dl t" if "x \<in> set (takeWhile ?P xs)" for x using that by (auto dest: set_takeWhileD)
  have d: "dl t \<le> dl x" if "x \<in> set (dropWhile ?P xs)" for x
    using assms that by (induction xs) (auto split: if_splits)
  have "sorted (map dl (takeWhile ?P xs @ dropWhile ?P xs))" using assms by simp
  then have "sorted (map dl (takeWhile ?P xs))" "sorted (map dl (dropWhile ?P xs))"
    unfolding map_append sorted_append by blast+
  then show ?thesis unfolding edf_insert_def map_append list.map sorted_append
    using t d by (fastforce simp: sorted_append)
qed

lemma edf_add_spec:
  assumes "edf_rep e xs" "t \<notin> set xs" "xs = [] \<Longrightarrow> snext (kern e) t = None"
  shows "\<exists>e'. edf_add t e = Some (Inr e') \<and> edf_rep e' (edf_insert (deadline (kern e)) t xs) \<and>
    sched_frame (kern e) (kern e') \<and> (\<forall>x. deadline (kern e') x = deadline (kern e) x) \<and> freed (kern e') = freed (kern e)"
proof -
  let ?k = "kern e" let ?d = "deadline ?k t" let ?P = "\<lambda>x. deadline ?k x < ?d"
  have h: "edf_head e = ptr_of xs" and ch: "nchain (\<lambda>x. snext ?k x) xs" and di: "distinct xs"
    and so: "sorted (map (deadline ?k) xs)" using assms(1) by (simp_all add: edf_rep_def)
  note s' = sorted_edf_insert [OF so, of t] and d' = distinct_edf_insert [OF di assms(2), of "deadline ?k"]
  show ?thesis
  proof (cases xs)
    case Nil
    then show ?thesis using h assms(3) by (simp add: edf_add_def edf_rep_def edf_insert_def)
  next
    case (Cons a ws)
    show ?thesis
    proof (cases "?P a")
      case False
      have "nchain (\<lambda>x. if x = t then Some a else snext ?k x) xs = nchain (\<lambda>x. snext ?k x) xs"
        by (rule nchain_cong) (use assms(2) in auto)
      then show ?thesis using False Cons ch h s' d' by (auto simp: edf_add_def edf_rep_def edf_insert_def)
    next
      case True
      define us where "us = takeWhile ?P ws"
      define vs where "vs = dropWhile ?P ws"
      define z where "z = last (a # us)"
      define k' where "k' = set_snext z (Some t) (set_snext t (ptr_of vs) ?k)"
      have loop: "edf_add_loop t ?d (Some a) ?k = Some (Inr k')"
        using edf_add_loop_spec [of ?k a ws t ?d] ch Cons unfolding us_def vs_def z_def k'_def by simp
      have ins: "edf_insert (deadline ?k) t xs = butlast (a # us) @ z # t # vs"
        using Cons True by (simp add: edf_insert_def us_def vs_def z_def flip: append_butlast_last_id)
      have split: "xs = butlast (a # us) @ z # vs"
      proof -
        have "a # us = butlast (a # us) @ [z]" unfolding z_def by simp
        moreover have "xs = (a # us) @ vs" using Cons by (simp add: us_def vs_def)
        ultimately show ?thesis by (metis append_Cons append_assoc append_Nil)
      qed
      have dist: "distinct (butlast (a # us) @ z # t # vs)" using d' ins by simp
      have "nchain (\<lambda>x. snext k' x) (butlast (a # us) @ z # t # vs)"
      proof (rule nchain_relink [where nx = "\<lambda>x. snext ?k x" and ws = vs])
        show "nchain (\<lambda>x. snext ?k x) (butlast (a # us) @ z # vs)" "distinct (butlast (a # us) @ z # vs)"
          using ch di split by simp_all
        have "nchain (\<lambda>x. snext ?k x) vs" using ch split nchain_append [of _ "butlast (a # us) @ [z]" vs] by simp
        moreover have "nchain (\<lambda>x. snext k' x) vs = nchain (\<lambda>x. snext ?k x) vs"
          by (rule nchain_cong) (use dist in \<open>auto simp: k'_def\<close>)
        ultimately show "nchain (\<lambda>x. snext k' x) (t # vs)" using dist by (auto simp: k'_def)
        show "snext k' z = ptr_of (t # vs)" by (simp add: k'_def)
        show "snext k' x = snext ?k x" if "x \<in> set (butlast (a # us))" for x
          using that dist by (auto simp: k'_def)
      qed
      moreover have "\<forall>x. deadline k' x = deadline ?k x" "freed k' = freed ?k" by (simp_all add: k'_def)
      moreover have "sched_frame ?k k'" unfolding k'_def by (metis sched_frame_steps(1) sched_frame_trans)
      moreover have "edf_head e = ptr_of (butlast (a # us) @ z # t # vs)"
        using h Cons by (cases us) (simp_all add: z_def)
      moreover have "edf_add t e = Some (Inr (e\<lparr>kern := k'\<rparr>))" using h Cons True loop by (simp add: edf_add_def Let_def)
      ultimately show ?thesis using s' d' unfolding ins edf_rep_def by auto
    qed
  qed
qed

section \<open>Removal\<close>

lemma edf_remove_loop_spec:
  "nchain (\<lambda>x. snext k x) (a # us @ t # ws) \<Longrightarrow> distinct (a # us @ t # ws) \<Longrightarrow>
     edf_remove_loop t (Some a) k = Some (Inr (set_snext (last (a # us)) (ptr_of ws) k))"
proof (induction us arbitrary: a)
  case Nil
  then show ?case by (subst edf_remove_loop.simps) simp
next
  case (Cons b us)
  then have "edf_remove_loop t (Some b) k = Some (Inr (set_snext (last (b # us)) (ptr_of ws) k))" by simp
  then show ?case using Cons.prems by (subst edf_remove_loop.simps) auto
qed

lemma nchain_set_snext:
  assumes "nchain (\<lambda>x. snext k x) (us @ a # ws @ vs)" "distinct (us @ a # ws @ vs)"
  shows "nchain (\<lambda>x. snext (set_snext a (ptr_of vs) k) x) (us @ a # vs)"
proof (rule nchain_relink [OF assms])
  have "nchain (\<lambda>x. snext k x) vs" using assms(1) nchain_append [of _ "us @ a # ws" vs] by simp
  moreover have "nchain (\<lambda>x. snext (set_snext a (ptr_of vs) k) x) vs = nchain (\<lambda>x. snext k x) vs"
    by (rule nchain_cong) (use assms(2) in auto)
  ultimately show "nchain (\<lambda>x. snext (set_snext a (ptr_of vs) k) x) vs" by simp
  show "snext (set_snext a (ptr_of vs) k) x = snext k x" if "x \<in> set us" for x using that assms(2) by auto
qed simp

lemma sorted_remove: "sorted (map f (us @ t # ws)) \<Longrightarrow> sorted (map f (us @ ws))"
  by (auto simp: sorted_append)

lemma edf_remove_spec:
  assumes "edf_rep e (us @ t # ws)"
  shows "\<exists>e'. edf_remove t e = Some (Inr e') \<and> edf_rep e' (us @ ws) \<and> sched_frame (kern e) (kern e') \<and>
    (\<forall>x. deadline (kern e') x = deadline (kern e) x) \<and> freed (kern e') = freed (kern e) \<and>
    (us @ ws = [] \<longrightarrow> snext (kern e') t = None)"
proof (cases us)
  case Nil
  then show ?thesis using assms by (auto simp: edf_remove_def edf_rep_def)
next
  case (Cons a vs)
  have ch: "nchain (\<lambda>x. snext (kern e) x) (us @ t # ws)" and di: "distinct (us @ t # ws)"
    and so: "sorted (map (deadline (kern e)) (us @ t # ws))" and h: "edf_head e = Some a"
    using assms Cons by (auto simp: edf_rep_def)
  define z where "z = last (a # vs)"
  have us: "us = butlast us @ [z]" using Cons unfolding z_def by simp
  define k' where "k' = set_snext z (ptr_of ws) (kern e)"
  have "edf_remove_loop t (Some a) (kern e) = Some (Inr k')"
    using edf_remove_loop_spec [of "kern e" a vs t ws] ch di Cons unfolding z_def k'_def by simp
  moreover have "a \<noteq> t" using di Cons by auto
  ultimately have r: "edf_remove t e = Some (Inr (e\<lparr>kern := k'\<rparr>))" using h by (simp add: edf_remove_def)
  have "nchain (\<lambda>x. snext k' x) (butlast us @ z # ws)"
    unfolding k'_def by (rule nchain_set_snext [of _ _ _ "[t]"]) (use ch di us in \<open>metis append_Cons append_Nil append_assoc\<close>)+
  then have "nchain (\<lambda>x. snext k' x) (us @ ws)" using us by (metis append_Cons append_Nil append_assoc)
  moreover have "sorted (map (deadline k') (us @ ws))" using sorted_remove [OF so] by (simp add: k'_def)
  ultimately have "edf_rep (e\<lparr>kern := k'\<rparr>) (us @ ws)" using di h Cons by (simp add: edf_rep_def)
  then show ?thesis using r Cons by (simp add: k'_def)
qed

section \<open>Dead threads\<close>

lemma edf_dead_front_spec:
  assumes "edf_rep e xs" "\<exists>x\<in>set xs. \<not> dead (kern e) x"
  shows "\<exists>e'. edf_dead_front e = Some (Inr e') \<and> edf_rep e' (dropWhile (dead (kern e)) xs) \<and>
    threads (kern e') = threads (kern e) \<and> freed (kern e') = freed (kern e) @ takeWhile (dead (kern e)) xs \<and>
    sched_frame (kern e) (kern e')"
  using assms
proof (induction xs arbitrary: e)
  case (Cons x xs)
  show ?case
  proof (cases "dead (kern e) x")
    case False
    then show ?thesis using Cons.prems by (subst edf_dead_front.simps) (simp add: edf_rep_def)
  next
    case True
    define e1 where "e1 = e\<lparr>edf_head := snext (kern e) x, kern := free_thread x (kern e)\<rparr>"
    have "edf_rep e1 xs" "\<exists>y\<in>set xs. \<not> dead (kern e1) y" using Cons.prems True by (auto simp: edf_rep_def e1_def)
    from Cons.IH [OF this] obtain e' where e': "edf_dead_front e1 = Some (Inr e')"
      "edf_rep e' (dropWhile (dead (kern e1)) xs)" "threads (kern e') = threads (kern e1)"
      "freed (kern e') = freed (kern e1) @ takeWhile (dead (kern e1)) xs" "sched_frame (kern e1) (kern e')" by blast
    have "edf_dead_front e = edf_dead_front e1"
      using Cons.prems True by (subst edf_dead_front.simps) (simp add: edf_rep_def e1_def)
    moreover have "sched_frame (kern e) (kern e1)" by (simp add: e1_def)
    ultimately show ?thesis using e' True sched_frame_trans [of "kern e" "kern e1" "kern e'"] by (auto simp: e1_def)
  qed
qed simp

lemma edf_dead_rest_spec:
  assumes "nchain (\<lambda>x. snext k x) (us @ a # ws)" "distinct (us @ a # ws)"
  shows "\<exists>k'. edf_dead_rest (Some a) k = Some (Inr k') \<and>
    nchain (\<lambda>x. snext k' x) (us @ a # filter (\<lambda>x. \<not> dead k x) ws) \<and>
    freed k' = freed k @ filter (dead k) ws \<and> (\<forall>x. deadline k' x = deadline k x) \<and> sched_frame k k'"
  using assms
proof (induction ws arbitrary: us a k)
  case Nil
  then have "snext k a = None" using nchain_append [of _ us "[a]"] by simp
  then show ?case using Nil by (subst edf_dead_rest.simps) simp
next
  case (Cons d ws)
  have n: "snext k a = Some d" "snext k d = ptr_of ws" using nchain_append [OF Cons.prems(1)] by simp_all
  show ?case
  proof (cases "dead k d")
    case True
    define k1 where "k1 = free_thread d (set_snext a (ptr_of ws) k)"
    have "nchain (\<lambda>x. snext k1 x) (us @ a # ws)" "distinct (us @ a # ws)"
      using nchain_set_snext [of k us a "[d]" ws] Cons.prems by (simp_all add: k1_def)
    from Cons.IH [OF this] obtain k' where k': "edf_dead_rest (Some a) k1 = Some (Inr k')"
      "nchain (\<lambda>x. snext k' x) (us @ a # filter (\<lambda>x. \<not> dead k1 x) ws)" "freed k' = freed k1 @ filter (dead k1) ws"
      "\<forall>x. deadline k' x = deadline k1 x" "sched_frame k1 k'" by blast
    have "sched_frame k k1" unfolding k1_def by (metis sched_frame_steps(1,3) sched_frame_trans)
    moreover have "edf_dead_rest (Some a) k = edf_dead_rest (Some a) k1"
      using n True by (subst edf_dead_rest.simps) (simp add: k1_def)
    ultimately show ?thesis using k' True sched_frame_trans [of k k1 k'] by (auto simp: k1_def)
  next
    case False
    have "edf_dead_rest (Some a) k = edf_dead_rest (Some d) k" using n False by (subst edf_dead_rest.simps) simp
    moreover have "nchain (\<lambda>x. snext k x) ((us @ [a]) @ d # ws)" "distinct ((us @ [a]) @ d # ws)" using Cons.prems by simp_all
    ultimately show ?thesis using Cons.IH [of k "us @ [a]" d] False by simp
  qed
qed

lemma sorted_filter_map: "sorted (map f xs) \<Longrightarrow> sorted (map f (filter P xs))"
  by (induction xs) auto

lemma filter_dropWhile_not: "filter (\<lambda>x. \<not> P x) (dropWhile P xs) = filter (\<lambda>x. \<not> P x) xs"
  by (induction xs) auto

lemma filter_split: "takeWhile P xs @ filter P (dropWhile P xs) = filter P xs"
  by (induction xs) auto

lemma edf_removeDead_spec:
  assumes "edf_rep e xs" "\<exists>x\<in>set xs. \<not> dead (kern e) x"
  shows "\<exists>e'. edf_PKremoveDeadThreads e = Some (Inr e') \<and> edf_rep e' (filter (\<lambda>x. \<not> dead (kern e) x) xs) \<and>
    freed (kern e') = freed (kern e) @ filter (dead (kern e)) xs \<and>
    (\<forall>x. deadline (kern e') x = deadline (kern e) x) \<and> sched_frame (kern e) (kern e')"
proof -
  let ?D = "dead (kern e)"
  from edf_dead_front_spec [OF assms] obtain e1 where e1: "edf_dead_front e = Some (Inr e1)"
    "edf_rep e1 (dropWhile ?D xs)" "threads (kern e1) = threads (kern e)"
    "freed (kern e1) = freed (kern e) @ takeWhile ?D xs" "sched_frame (kern e) (kern e1)" by blast
  have "dropWhile ?D xs \<noteq> []" using assms(2) by (auto simp: dropWhile_eq_Nil_conv)
  then obtain a ws where d: "dropWhile ?D xs = a # ws" by (cases "dropWhile ?D xs") auto
  then have na: "\<not> ?D a" by (metis hd_dropWhile list.discI list.sel(1))
  have h: "edf_head e1 = Some a" "nchain (\<lambda>x. snext (kern e1) x) ([] @ a # ws)" "distinct ([] @ a # ws)"
    "sorted (map (deadline (kern e1)) (a # ws))" using e1(2) d by (simp_all add: edf_rep_def)
  from edf_dead_rest_spec [OF h(2,3)] obtain k' where k': "edf_dead_rest (Some a) (kern e1) = Some (Inr k')"
    "nchain (\<lambda>x. snext k' x) ([] @ a # filter (\<lambda>x. \<not> dead (kern e1) x) ws)"
    "freed k' = freed (kern e1) @ filter (dead (kern e1)) ws" "\<forall>x. deadline k' x = deadline (kern e1) x" "sched_frame (kern e1) k'"
    by blast
  have f: "a # filter (\<lambda>x. \<not> ?D x) ws = filter (\<lambda>x. \<not> ?D x) xs" "takeWhile ?D xs @ filter ?D ws = filter ?D xs"
    using filter_dropWhile_not [of ?D xs] filter_split [of ?D xs] d na by simp_all
  have "sorted (map (deadline k') (a # filter (\<lambda>x. \<not> ?D x) ws))"
    using sorted_filter_map [OF h(4), of "\<lambda>x. \<not> ?D x"] na k'(4) by simp
  then have "edf_rep (e1\<lparr>kern := k'\<rparr>) (filter (\<lambda>x. \<not> ?D x) xs)"
    using k'(2) h e1(3) unfolding f(1) [symmetric] by (simp add: edf_rep_def)
  moreover have "edf_PKremoveDeadThreads e = Some (Inr (e1\<lparr>kern := k'\<rparr>))"
    using e1(1) h(1) k'(1) by (simp add: edf_PKremoveDeadThreads_def)
  moreover have "freed k' = freed (kern e) @ filter ?D xs" using k'(3) e1(3,4) f(2) by simp
  ultimately show ?thesis using k'(4,5) e1(3,5) sched_frame_trans [of "kern e" "kern e1" k'] by auto
qed

section \<open>The choice of the next thread\<close>

lemma edf_exists_loop_spec:
  "nchain (\<lambda>x. snext k x) xs \<Longrightarrow> edf_exists_loop t (ptr_of xs) k = Some (t \<in> set xs \<and> \<not> dead k t)"
proof (induction xs)
  case Nil
  then show ?case by (subst edf_exists_loop.simps) simp
next
  case (Cons x xs)
  then show ?case by (subst edf_exists_loop.simps) auto
qed

lemma edf_find_loop_spec:
  "nchain (\<lambda>x. snext k x) xs \<Longrightarrow> \<exists>x\<in>set xs. ready k x \<Longrightarrow>
     edf_find_loop (ptr_of xs) k = Some (edf_IRQsetNextPreemption (k\<lparr>cur := hd (dropWhile (\<lambda>x. \<not> ready k x) xs)\<rparr>))"
proof (induction xs)
  case (Cons x xs)
  then show ?case by (cases "ready k x"; subst edf_find_loop.simps) auto
qed simp

lemma edf_find_loop_none:
  "nchain (\<lambda>x. snext k x) xs \<Longrightarrow> \<forall>x\<in>set xs. \<not> ready k x \<Longrightarrow> edf_find_loop (ptr_of xs) k = Some (Inl (ErrorHandler UNEXPECTED))"
proof (induction xs)
  case Nil
  then show ?case by (subst edf_find_loop.simps) simp
next
  case (Cons x xs)
  then show ?case by (subst edf_find_loop.simps) auto
qed

lemma edf_setNext_spec:
  assumes "rep (sleepingList k) sl"
  shows "\<exists>n. edf_IRQsetNextPreemption k = Inr (k\<lparr>nextPeriodicPreemption := n, osTimerIrq := n\<rparr>) \<and>
    n = (if sl = [] then LLONG_MAX else wt k (hd sl))"
  using rep_is_empty [OF assms] repD(3) [OF assms] by (cases sl) (auto simp: edf_IRQsetNextPreemption_def front_def)

lemma sorted_hd_dropWhile:
  assumes "sorted (map f xs)" "\<exists>x\<in>set xs. P x"
  defines "t \<equiv> hd (dropWhile (\<lambda>x. \<not> P x) xs)"
  shows "t \<in> set xs \<and> P t \<and> (\<forall>x\<in>set xs. P x \<longrightarrow> f t \<le> f x)"
  using assms(1,2) unfolding t_def by (induction xs) auto

lemma edf_find_spec:
  assumes "edf_rep e xs" "rep (sleepingList (kern e)) sl" "kernel_running (kern e) = 0" "\<exists>x\<in>set xs. ready (kern e) x"
  shows "\<exists>n. edf_IRQfindNextThread e = Some (Inr (e\<lparr>kern := (kern e)\<lparr>cur := hd (dropWhile (\<lambda>x. \<not> ready (kern e) x) xs),
      nextPeriodicPreemption := n, osTimerIrq := n\<rparr>\<rparr>, True)) \<and> n = (if sl = [] then LLONG_MAX else wt (kern e) (hd sl))"
proof -
  let ?k = "(kern e)\<lparr>cur := hd (dropWhile (\<lambda>x. \<not> ready (kern e) x) xs)\<rparr>"
  have "rep (sleepingList ?k) sl" using assms(2) by simp
  from edf_setNext_spec [OF this] obtain n where
    "edf_IRQsetNextPreemption ?k = Inr (?k\<lparr>nextPeriodicPreemption := n, osTimerIrq := n\<rparr>)"
    "n = (if sl = [] then LLONG_MAX else wt ?k (hd sl))" by blast
  then show ?thesis using assms edf_find_loop_spec [of "kern e" xs] by (simp add: edf_IRQfindNextThread_def edf_rep_def)
qed

section \<open>Runs of the scheduler\<close>

text \<open>The states the scheduler goes through, with the set of the threads it has.\<close>

inductive edf_reach :: "edf \<Rightarrow> nat set \<Rightarrow> bool" where
  start: "edf_head e = None \<Longrightarrow> rep (sleepingList (kern e)) sl \<Longrightarrow> edf_reach e {}"
| add: "edf_reach e S \<Longrightarrow> t \<notin> S \<Longrightarrow> snext (kern e) t = None \<Longrightarrow> edf_PKaddThread t p e = Some (Inr (e', b)) \<Longrightarrow>
    edf_reach e' (insert t S)"
| idle: "edf_reach e S \<Longrightarrow> t \<notin> S \<Longrightarrow> snext (kern e) t = None \<Longrightarrow> edf_IRQsetIdleThread t e = Some (Inr e') \<Longrightarrow>
    edf_reach e' (insert t S)"
| prio: "edf_reach e S \<Longrightarrow> t \<in> S \<Longrightarrow> edf_PKsetPriority t p e = Some (Inr e') \<Longrightarrow> edf_reach e' S"
| flags: "edf_reach e S \<Longrightarrow> edf_reach (e\<lparr>kern := upd_flags t g (kern e)\<rparr>) S"
| collect: "edf_reach e S \<Longrightarrow> \<exists>x\<in>S. \<not> dead (kern e) x \<Longrightarrow> edf_PKremoveDeadThreads e = Some (Inr e') \<Longrightarrow>
    edf_reach e' {x \<in> S. \<not> dead (kern e) x}"
| switch: "edf_reach e S \<Longrightarrow> edf_IRQfindNextThread e = Some (Inr (e', b)) \<Longrightarrow> edf_reach e' S"

definition edf_inv :: "edf \<Rightarrow> nat set \<Rightarrow> bool" where
  "edf_inv e S \<longleftrightarrow> (\<exists>xs sl. edf_rep e xs \<and> set xs = S \<and> rep (sleepingList (kern e)) sl)"

lemma edf_rep_set_prio:
  "t \<notin> set xs \<Longrightarrow> edf_rep e xs \<Longrightarrow> edf_rep (e\<lparr>kern := set_prio t p (kern e)\<rparr>) xs"
proof -
  assume t: "t \<notin> set xs" and r: "edf_rep e xs"
  have m: "map (deadline (set_prio t p (kern e))) xs = map (deadline (kern e)) xs"
    using t by (intro map_cong) auto
  have "sorted (map (deadline (set_prio t p (kern e))) xs)" unfolding m using r by (simp add: edf_rep_def)
  then show ?thesis using r by (simp add: edf_rep_def)
qed

lemma edf_add_prio_inv:
  assumes "edf_rep e xs" "rep (sleepingList (kern e)) sl" "t \<notin> set xs" "snext (kern e) t = None \<or> xs \<noteq> []"
    "edf_add t (e\<lparr>kern := set_prio t p (kern e)\<rparr>) = r"
  shows "\<exists>e'. r = Some (Inr e') \<and> edf_inv e' (insert t (set xs))"
proof -
  let ?e = "e\<lparr>kern := set_prio t p (kern e)\<rparr>"
  have "xs = [] \<Longrightarrow> snext (kern ?e) t = None" using assms(4) by auto
  from edf_add_spec [OF edf_rep_set_prio [OF assms(3,1), of p] assms(3) this] obtain e' where
    "r = Some (Inr e')" "edf_rep e' (edf_insert (deadline (kern ?e)) t xs)" "sched_frame (kern ?e) (kern e')"
    using assms(5) by blast
  moreover have "rep (sleepingList (kern e')) sl"
    using sched_frame_fields(10) [OF calculation(3)] assms(2) by (simp add: set_prio_def)
  moreover have "set (edf_insert (deadline (kern ?e)) t xs) = insert t (set xs)" by simp
  ultimately show ?thesis unfolding edf_inv_def by blast
qed

lemma edf_setPriority_inv:
  assumes "edf_inv e S" "t \<in> S"
  shows "\<exists>e'. edf_PKsetPriority t p e = Some (Inr e') \<and> edf_inv e' S"
proof -
  from assms obtain us ws sl where r: "edf_rep e (us @ t # ws)" "set (us @ t # ws) = S" "rep (sleepingList (kern e)) sl"
    unfolding edf_inv_def by (metis split_list)
  from edf_remove_spec [OF r(1)] obtain e1 where e1: "edf_remove t e = Some (Inr e1)" "edf_rep e1 (us @ ws)"
    "sched_frame (kern e) (kern e1)" "us @ ws = [] \<longrightarrow> snext (kern e1) t = None" by blast
  have "t \<notin> set (us @ ws)" using r(1) by (auto simp: edf_rep_def)
  moreover have "rep (sleepingList (kern e1)) sl" using sched_frame_fields(10) [OF e1(3)] r(3) by simp
  moreover have "insert t (set (us @ ws)) = S" using r(2) by auto
  ultimately show ?thesis using edf_add_prio_inv [OF e1(2), of sl t p] e1(1,4) by (auto simp: edf_PKsetPriority_def)
qed

lemma edf_collect_inv:
  assumes "edf_inv e S" "\<exists>x\<in>S. \<not> dead (kern e) x"
  shows "\<exists>e' ds. edf_PKremoveDeadThreads e = Some (Inr e') \<and> edf_inv e' {x \<in> S. \<not> dead (kern e) x} \<and>
    freed (kern e') = freed (kern e) @ ds \<and> distinct ds \<and> set ds = {x \<in> S. dead (kern e) x}"
proof -
  from assms(1) obtain xs sl where r: "edf_rep e xs" "set xs = S" "rep (sleepingList (kern e)) sl" unfolding edf_inv_def by blast
  from edf_removeDead_spec [OF r(1)] assms(2) r(2) obtain e' where e': "edf_PKremoveDeadThreads e = Some (Inr e')"
    "edf_rep e' (filter (\<lambda>x. \<not> dead (kern e) x) xs)" "freed (kern e') = freed (kern e) @ filter (dead (kern e)) xs"
    "sched_frame (kern e) (kern e')" by blast
  have "rep (sleepingList (kern e')) sl" using sched_frame_fields(10) [OF e'(4)] r(3) by simp
  then have "edf_inv e' {x \<in> S. \<not> dead (kern e) x}" using e'(2) r(2) unfolding edf_inv_def by fastforce
  moreover have "distinct (filter (dead (kern e)) xs)" using r(1) by (simp add: edf_rep_def)
  ultimately show ?thesis using e'(1,3) r(2) by force
qed

lemma edf_reach_inv: "edf_reach e S \<Longrightarrow> edf_inv e S"
proof (induction rule: edf_reach.induct)
  case (start e sl)
  then have "edf_rep e []" by (simp add: edf_rep_def)
  with start show ?case unfolding edf_inv_def by (metis empty_set)
next
  case (add e S t p e' b)
  then show ?case unfolding edf_inv_def [of e]
    using edf_add_prio_inv [of e _ _ t p] by (fastforce simp: edf_PKaddThread_def)
next
  case (idle e S t e')
  then show ?case unfolding edf_inv_def [of e]
    using edf_add_prio_inv [of e _ _ t "LLONG_MAX - 1"] by (fastforce simp: edf_IRQsetIdleThread_def)
next
  case (prio e S t p e')
  then show ?case using edf_setPriority_inv [OF prio.IH prio.hyps(2), of p] by auto
next
  case (flags e S t g)
  define k' where "k' = upd_flags t g (kern e)"
  have "snext k' = snext (kern e)" "deadline k' = deadline (kern e)" "sleepingList k' = sleepingList (kern e)"
    by (auto simp: k'_def fun_eq_iff)
  then show ?case using flags.IH unfolding k'_def [symmetric] by (simp add: edf_inv_def edf_rep_def)
next
  case (collect e S e')
  then show ?case using edf_collect_inv [OF collect.IH collect.hyps(2)] by auto
next
  case (switch e S e' b)
  then obtain xs sl where r: "edf_rep e xs" "set xs = S" "rep (sleepingList (kern e)) sl" unfolding edf_inv_def by blast
  show ?case
  proof (cases "kernel_running (kern e) \<noteq> 0")
    case True
    then show ?thesis using switch by (simp add: edf_IRQfindNextThread_def)
  next
    case False
    have "\<exists>x\<in>set xs. ready (kern e) x"
    proof (rule ccontr)
      assume "\<not> (\<exists>x\<in>set xs. ready (kern e) x)"
      then have "edf_find_loop (edf_head e) (kern e) = Some (Inl (ErrorHandler UNEXPECTED))"
        using edf_find_loop_none [of "kern e" xs] r(1) by (simp add: edf_rep_def)
      then show False using switch(2) False by (simp add: edf_IRQfindNextThread_def)
    qed
    from edf_find_spec [OF r(1,3) _ this] False switch(2) obtain n where
      "e' = e\<lparr>kern := (kern e)\<lparr>cur := hd (dropWhile (\<lambda>x. \<not> ready (kern e) x) xs), nextPeriodicPreemption := n, osTimerIrq := n\<rparr>\<rparr>"
      by auto
    then show ?thesis using r unfolding edf_inv_def edf_rep_def by auto
  qed
qed

section \<open>Properties\<close>

text \<open>C9. The earliest deadline runs. In every state the EDF scheduler reaches, by adding threads, changing deadlines and flags,
  collecting dead threads and switching, it has exactly the threads that were added and not collected: \<open>PKexists\<close> finds those
  that are not dead, \<open>PKsetPriority\<close> returns for each of them, and \<open>PKremoveDeadThreads\<close> frees each dead thread once. If the
  kernel is not paused and some thread is ready, \<open>IRQfindNextThread\<close> returns with a ready thread whose deadline
  is not later than that of any other ready thread.\<close>

theorem edf_earliest_deadline_runs:
  assumes "edf_reach e S"
  shows "(\<forall>t. edf_PKexists t e = Some (t \<in> S \<and> \<not> isDeleted (flags (threads (kern e) t))))
    \<and> (\<forall>t\<in>S. \<forall>p. \<exists>e'. edf_PKsetPriority t p e = Some (Inr e'))
    \<and> ((\<exists>x\<in>S. \<not> isDeleted (flags (threads (kern e) x))) \<longrightarrow> (\<exists>e' ds. edf_PKremoveDeadThreads e = Some (Inr e')
         \<and> freed (kern e') = freed (kern e) @ ds \<and> distinct ds \<and> set ds = {x \<in> S. isDeleted (flags (threads (kern e) x))}))
    \<and> (kernel_running (kern e) = 0 \<and> (\<exists>x\<in>S. isReady (flags (threads (kern e) x))) \<longrightarrow>
         (\<exists>e'. edf_IRQfindNextThread e = Some (Inr (e', True)) \<and> cur (kern e') \<in> S
           \<and> isReady (flags (threads (kern e) (cur (kern e'))))
           \<and> (\<forall>x\<in>S. isReady (flags (threads (kern e) x)) \<longrightarrow> deadline (kern e) (cur (kern e')) \<le> deadline (kern e) x)))"
proof -
  have inv: "edf_inv e S" by (rule edf_reach_inv [OF assms])
  then obtain xs sl where r: "edf_rep e xs" "set xs = S" "rep (sleepingList (kern e)) sl" unfolding edf_inv_def by blast
  have "edf_PKexists t e = Some (t \<in> S \<and> \<not> dead (kern e) t)" for t
    using edf_exists_loop_spec [of "kern e" xs t] r by (simp add: edf_PKexists_def edf_rep_def)
  moreover have "\<exists>e'. edf_PKsetPriority t p e = Some (Inr e')" if "t \<in> S" for t p using edf_setPriority_inv [OF inv that] by blast
  moreover have "\<exists>e'. edf_IRQfindNextThread e = Some (Inr (e', True)) \<and> cur (kern e') \<in> S \<and> ready (kern e) (cur (kern e'))
      \<and> (\<forall>x\<in>S. ready (kern e) x \<longrightarrow> deadline (kern e) (cur (kern e')) \<le> deadline (kern e) x)"
    if "kernel_running (kern e) = 0" "\<exists>x\<in>S. ready (kern e) x"
  proof -
    have s: "sorted (map (deadline (kern e)) xs)" "\<exists>x\<in>set xs. ready (kern e) x" using r that by (simp_all add: edf_rep_def)
    from edf_find_spec [OF r(1,3) that(1) s(2)] sorted_hd_dropWhile [OF s] r(2) show ?thesis by fastforce
  qed
  ultimately show ?thesis using edf_collect_inv [OF inv] by blast
qed

definition edf_demo :: edf where
  "edf_demo = \<lparr>kern = boot_kernel 0 9, edf_head = nullptr\<rparr>"

theorem edf_earliest_deadline_runs_witness:
  "\<exists>e S e'. edf_reach e S \<and> S = {0, 1, 2} \<and> edf_IRQfindNextThread e = Some (Inr (e', True)) \<and> cur (kern e') = 2"
proof -
  have r0: "edf_reach edf_demo {}"
    by (rule edf_reach.start [of _ "[]"]) (simp_all add: edf_demo_def boot_kernel_def rep_new_list)
  have n: "snext (kern edf_demo) t = None" "deadline (kern edf_demo) t = 1" for t by (simp_all add: edf_demo_def boot_kernel_def new_thread_def)
  define e1 where "e1 = edf_demo\<lparr>kern := set_prio 0 (LLONG_MAX - 1) (kern edf_demo), edf_head := Some 0\<rparr>"
  have e1: "edf_IRQsetIdleThread 0 edf_demo = Some (Inr e1)" "edf_head e1 = Some 0"
    "kern e1 = set_prio 0 (LLONG_MAX - 1) (kern edf_demo)"
    by (simp_all add: e1_def edf_IRQsetIdleThread_def edf_add_def edf_demo_def)
  have r1: "edf_reach e1 {0}" using edf_reach.idle [OF r0 _ n(1) e1(1)] by simp
  define e2 where "e2 = e1\<lparr>kern := set_snext 1 (Some 0) (set_prio 1 500 (kern e1)), edf_head := Some 1\<rparr>"
  have e2: "edf_PKaddThread 1 500 e1 = Some (Inr (e2, True))" "edf_head e2 = Some 1"
    "kern e2 = set_snext 1 (Some 0) (set_prio 1 500 (kern e1))"
    by (simp_all add: e2_def edf_PKaddThread_def edf_add_def e1 LLONG_MAX_def)
  have r2: "edf_reach e2 {0, 1}" using edf_reach.add [OF r1 _ _ e2(1)] n(1) by (simp add: e1(3) insert_commute)
  define e3 where "e3 = e2\<lparr>kern := set_snext 2 (Some 1) (set_prio 2 300 (kern e2)), edf_head := Some 2\<rparr>"
  have e3: "edf_PKaddThread 2 300 e2 = Some (Inr (e3, True))" "kern e3 = set_snext 2 (Some 1) (set_prio 2 300 (kern e2))"
    by (simp_all add: e3_def edf_PKaddThread_def edf_add_def e2)
  have r3: "edf_reach e3 {0, 1, 2}" using edf_reach.add [OF r2 _ _ e3(1)] n(1) by (simp add: e2(3) e1(3) insert_commute)
  have f: "flags (threads (kern e3) t) = 0" "kernel_running (kern e3) = 0" for t
    by (simp_all add: e3(2) e2(3) e1(3) edf_demo_def boot_kernel_def new_thread_def set_snext_def set_prio_def)
  have d: "deadline (kern e3) 0 = LLONG_MAX - 1" "deadline (kern e3) 1 = 500" "deadline (kern e3) 2 = 300"
    by (simp_all add: e3(2) e2(3) e1(3))
  from edf_earliest_deadline_runs [OF r3] obtain e' where e': "edf_IRQfindNextThread e3 = Some (Inr (e', True))"
    "cur (kern e') \<in> {0, 1, 2}" "deadline (kern e3) (cur (kern e')) \<le> 300" using f d by auto
  then have "cur (kern e') = 2" using d by (auto simp: LLONG_MAX_def)
  then show ?thesis using r3 e'(1) by blast
qed

end
