(* ===== verification/Control_Scheduler.thy ===== *)
theory Control_Scheduler
  imports Complex_Main Edf_Scheduler
begin

text \<open>
  \<^verbatim>\<open>class ControlScheduler\<close> (\<^verbatim>\<open>scheduler/control/control_scheduler.cpp\<close>), the control based scheduler, in the configuration its
  headers select: \<^verbatim>\<open>SCHED_CONTROL_MULTIBURST\<close> (\<^verbatim>\<open>control_scheduler.h\<close>), feedforward and regulator reinitialisation on and
  floating point arithmetic (\<^verbatim>\<open>parameters.h\<close>). All threads are on a null terminated list, \<^verbatim>\<open>threadList\<close>, and those that are
  ready also on the doubly linked list \<^verbatim>\<open>activeThreads\<close>, in which \<^verbatim>\<open>curInRound\<close> is the place of the round. The processor's
  floating point arithmetic is a parameter, \<open>F\<close>; the signed integers wrap at 32 bits. The relation \<open>round_of\<close> reads a list and
  the place in it as the order in which the active threads will run, and every operation is shown to change that order as
  the code does.
\<close>

section \<open>Parameters and data\<close>

definition multFactor :: int where "multFactor = 2"
definition bNominal :: int where "bNominal = 4000000"
definition bMin :: int where "bMin = 200000"
definition bMax :: int where "bMax = 20000000"
definition CTL_PRIORITY_MAX :: int where "CTL_PRIORITY_MAX = 64"

definition REALTIME_PRIORITY_IMMEDIATE :: int where "REALTIME_PRIORITY_IMMEDIATE = 1"
definition REALTIME_PRIORITY_NEXT_BURST :: int where "REALTIME_PRIORITY_NEXT_BURST = 2"
definition REALTIME_PRIORITY_END_OF_ROUND :: int where "REALTIME_PRIORITY_END_OF_ROUND = 3"

lemmas ctl_consts = multFactor_def bNominal_def bMin_def bMax_def
lemmas realtime_consts = REALTIME_PRIORITY_IMMEDIATE_def REALTIME_PRIORITY_NEXT_BURST_def REALTIME_PRIORITY_END_OF_ROUND_def

definition wrap32 :: "int \<Rightarrow> int" where
  "wrap32 x = signed_take_bit 31 x"

text \<open>Division of C, towards zero.\<close>

definition cdiv :: "int \<Rightarrow> int \<Rightarrow> int" where
  "cdiv a b = sgn a * sgn b * (\<bar>a\<bar> div \<bar>b\<bar>)"

text \<open>The floating point operations the regulators use; \<open>f_lit n d\<close> is the literal for \<open>n / d\<close>.\<close>

record 'f float_ops =
  f_lit :: "int \<Rightarrow> int \<Rightarrow> 'f"
  f_of_int :: "int \<Rightarrow> 'f"
  f_mul :: "'f \<Rightarrow> 'f \<Rightarrow> 'f"
  f_div :: "'f \<Rightarrow> 'f \<Rightarrow> 'f"
  f_sub :: "'f \<Rightarrow> 'f \<Rightarrow> 'f"
  f_to_int :: "'f \<Rightarrow> int"

definition krr :: "'f float_ops \<Rightarrow> 'f" where "krr F = f_lit F 9 10"
definition zrr :: "'f float_ops \<Rightarrow> 'f" where "zrr F = f_lit F 88 100"

record ctl_priority =
  pget :: int
  pgetRealtime :: int

definition ctl_priority_of :: "int \<Rightarrow> ctl_priority" where
  "ctl_priority_of p = \<lparr>pget = p, pgetRealtime = REALTIME_PRIORITY_END_OF_ROUND\<rparr>"

definition ctl_validate :: "ctl_priority \<Rightarrow> bool" where
  "ctl_validate p \<longleftrightarrow> 0 \<le> pget p \<and> pget p < CTL_PRIORITY_MAX \<and> 1 \<le> pgetRealtime p \<and> pgetRealtime p \<le> 3"

definition ctl_less :: "ctl_priority \<Rightarrow> ctl_priority \<Rightarrow> bool" where
  "ctl_less a b \<longleftrightarrow> pget a = -1 \<or> (pgetRealtime a \<noteq> 1 \<and> pgetRealtime b = 1)"

definition ctl_greater :: "ctl_priority \<Rightarrow> ctl_priority \<Rightarrow> bool" where
  "ctl_greater a b \<longleftrightarrow> pget b = -1 \<or> (pgetRealtime a = 1 \<and> pgetRealtime b \<noteq> 1)"

definition mutexLessOp :: "ctl_priority \<Rightarrow> ctl_priority \<Rightarrow> bool" where
  "mutexLessOp a b \<longleftrightarrow> False"

lemma ctl_less_greater: "ctl_less a b \<longleftrightarrow> ctl_greater b a"
  by (auto simp: ctl_less_def ctl_greater_def)

text \<open>\<^verbatim>\<open>class ControlSchedulerData\<close>; its \<^verbatim>\<open>next\<close> and the value of its priority are in the record of the thread.\<close>

record 'f sched_data =
  realtime :: int
  bo :: int
  alfa :: 'f
  SP_Tp :: int
  Tp :: int
  atl_t :: ptr
  lastReadyStatus :: bool

definition new_sched_data :: "'f float_ops \<Rightarrow> 'f sched_data" where
  "new_sched_data F = \<lparr>realtime = REALTIME_PRIORITY_END_OF_ROUND, bo = bNominal * multFactor, alfa = f_of_int F 0, SP_Tp = 0,
     Tp = bNominal, atl_t = nullptr, lastReadyStatus = False\<rparr>"

text \<open>The static variables of the scheduler with the kernel's. The item of a thread in \<^verbatim>\<open>activeThreads\<close>,
  \<^verbatim>\<open>schedData.atlEntry\<close>, has the address of the thread it is part of.\<close>

record 'f control =
  ckern :: kernel
  sdata :: "nat \<Rightarrow> 'f sched_data"
  activeThreads :: intrusive_list
  curInRound :: ptr
  burstStart :: int
  threadList :: ptr
  threadListSize :: u32
  SP_Tr :: int
  Tr :: int
  bco :: int
  eTro :: int
  reinitRegulator :: bool

definition upd_sdata :: "nat \<Rightarrow> ('f sched_data \<Rightarrow> 'f sched_data) \<Rightarrow> 'f control \<Rightarrow> 'f control" where
  "upd_sdata t f c = c\<lparr>sdata := (sdata c)(t := f (sdata c t))\<rparr>"

definition set_ctl_prio :: "nat \<Rightarrow> ctl_priority \<Rightarrow> 'f control \<Rightarrow> 'f control" where
  "set_ctl_prio t p c = upd_sdata t (\<lambda>d. d\<lparr>realtime := pgetRealtime p\<rparr>) (c\<lparr>ckern := set_prio t (pget p) (ckern c)\<rparr>)"

definition ctl_init :: "'f float_ops \<Rightarrow> kernel \<Rightarrow> (nat \<Rightarrow> list_item) \<Rightarrow> nat \<Rightarrow> 'f control" where
  "ctl_init F k h e = \<lparr>ckern = k, sdata = (\<lambda>_. new_sched_data F), activeThreads = new_list h e, curInRound = Some e, burstStart = 0,
     threadList = nullptr, threadListSize = 0, SP_Tr = 0, Tr = bNominal, bco = 0, eTro = 0, reinitRegulator = False\<rparr>"

section \<open>The active threads\<close>

definition addThreadToActiveList :: "nat \<Rightarrow> 'f control \<Rightarrow> 'f control result" where
  "addThreadToActiveList atlEntry c =
     deref (atl_t (sdata c atlEntry)) (\<lambda>t.
     if realtime (sdata c t) = REALTIME_PRIORITY_IMMEDIATE then
       rbind (insert_before (activeThreads c) (curInRound c) atlEntry) (\<lambda>l.
       rbind (get_prev l (curInRound c)) (\<lambda>p.
       rbind (get_prev l p) (\<lambda>p. Inr (c\<lparr>activeThreads := l, curInRound := p\<rparr>))))
     else if realtime (sdata c t) = REALTIME_PRIORITY_NEXT_BURST then
       rbind (get_next (activeThreads c) (curInRound c)) (\<lambda>temp.
       rbind (insert_before (activeThreads c) temp atlEntry) (\<lambda>l. Inr (c\<lparr>activeThreads := l\<rparr>)))
     else rbind (push_back (activeThreads c) atlEntry) (\<lambda>l. Inr (c\<lparr>activeThreads := l\<rparr>)))"

definition remThreadfromActiveList :: "nat \<Rightarrow> 'f control \<Rightarrow> 'f control result" where
  "remThreadfromActiveList atlEntry c =
     rbind (if curInRound c = Some atlEntry then get_next (activeThreads c) (curInRound c) else Inr (curInRound c)) (\<lambda>p.
     rbind (erase (activeThreads c) (Some atlEntry)) (\<lambda>(l, _). Inr (c\<lparr>activeThreads := l, curInRound := p\<rparr>)))"

section \<open>The regulators\<close>

partial_function (option) sum_priority :: "'f control \<Rightarrow> ptr \<Rightarrow> u32 \<Rightarrow> u32 result option" where
  "sum_priority c it sumPriority =
     (if it = end_it (activeThreads c) then Some (Inr sumPriority)
      else oderef it (\<lambda>a. oderef (atl_t (sdata c a)) (\<lambda>t.
        sum_priority c (nxt (activeThreads c) a)
          (if isReady (flags (threads (ckern c) t)) then sumPriority + word_of_int (priority (threads (ckern c) t) + 1)
           else sumPriority))))"

text \<open>\<^verbatim>\<open>for(Thread *it=threadList;it!=0;it=it->schedData.next)\<close> with a body that changes the data of \<^verbatim>\<open>it\<close>.\<close>

partial_function (option) each_thread :: "(nat \<Rightarrow> 'f sched_data \<Rightarrow> 'f sched_data) \<Rightarrow> ptr \<Rightarrow> 'f control \<Rightarrow> 'f control result option" where
  "each_thread f it c =
     (case it of None \<Rightarrow> Some (Inr c)
      | Some t \<Rightarrow> each_thread f (snext (ckern c) t) (upd_sdata t (f t) c))"

definition IRQrecalculateAlfa :: "'f float_ops \<Rightarrow> 'f control \<Rightarrow> 'f control result option" where
  "IRQrecalculateAlfa F c =
     obind (sum_priority c (begin_it (activeThreads c)) 0) (\<lambda>sumPriority.
     if sumPriority = 0 then Some (Inr c)
     else let base = f_div F (f_of_int F 1) (f_of_int F (uint sumPriority)); k = ckern c in
       obind (each_thread (\<lambda>t d. d\<lparr>alfa := if isReady (flags (threads k t))
           then f_mul F base (f_of_int F (priority (threads k t) + 1)) else f_of_int F 0\<rparr>) (threadList c) c) (\<lambda>c.
       Some (Inr (c\<lparr>reinitRegulator := True\<rparr>))))"

text \<open>The integral regulator of a thread, and its reinitialisation.\<close>

definition saturate :: "int \<Rightarrow> int" where
  "saturate b = min (max b (bMin * multFactor)) (bMax * multFactor)"

definition regulate_thread :: "'f float_ops \<Rightarrow> 'f \<Rightarrow> 'f sched_data \<Rightarrow> 'f sched_data" where
  "regulate_thread F nextRoundTime d =
     (let sp = f_to_int F (f_mul F (alfa d) nextRoundTime);
          eTp = wrap32 (sp - Tp d);
          b = wrap32 (bo d + eTp)
      in d\<lparr>SP_Tp := sp, bo := saturate b\<rparr>)"

definition reinit_thread :: "'f float_ops \<Rightarrow> int \<Rightarrow> 'f sched_data \<Rightarrow> 'f sched_data" where
  "reinit_thread F spTr d =
     (let sp = f_to_int F (f_mul F (alfa d) (f_of_int F spTr));
          b = wrap32 (sp * multFactor)
      in d\<lparr>SP_Tp := sp, bo := saturate b\<rparr>)"

definition IRQrunRegulator :: "'f float_ops \<Rightarrow> bool \<Rightarrow> 'f control \<Rightarrow> 'f control result option" where
  "IRQrunRegulator F allReadyThreadsSaturated c =
     (if \<not> reinitRegulator c then
        let eTr = wrap32 (SP_Tr c - Tr c);
            bc = wrap32 (bco c + f_to_int F (f_sub F (f_mul F (krr F) (f_of_int F eTr))
                   (f_mul F (f_mul F (krr F) (zrr F)) (f_of_int F (eTro c)))));
            b = (if allReadyThreadsSaturated then if bc < bco c then bc else bco c else bc);
            b = min (max b (wrap32 (- Tr c))) (wrap32 (bMax * uint (threadListSize c)));
            nextRoundTime = f_of_int F (wrap32 (Tr c + b))
        in each_thread (\<lambda>t. regulate_thread F nextRoundTime) (threadList c) (c\<lparr>bco := b, eTro := eTr, Tr := 0\<rparr>)
      else each_thread (\<lambda>t. reinit_thread F (SP_Tr c)) (threadList c) (c\<lparr>reinitRegulator := False, Tr := 0, eTro := 0, bco := 0\<rparr>))"

section \<open>The operations\<close>

definition ctl_PKaddThread :: "'f float_ops \<Rightarrow> nat \<Rightarrow> ctl_priority \<Rightarrow> 'f control \<Rightarrow> ('f control \<times> bool) result option" where
  "ctl_PKaddThread F t p c =
     (let c = upd_sdata t (\<lambda>d. d\<lparr>atl_t := Some t\<rparr>) (set_ctl_prio t p c);
          c = c\<lparr>ckern := set_snext t (threadList c) (ckern c), threadList := Some t, threadListSize := threadListSize c + 1,
                SP_Tr := wrap32 (SP_Tr c + bNominal)\<rparr>
      in obind (if isReady (flags (threads (ckern c) t))
                then Some (rbind (addThreadToActiveList t c) (\<lambda>c. Inr (upd_sdata t (\<lambda>d. d\<lparr>lastReadyStatus := True\<rparr>) c)))
                else Some (Inr (upd_sdata t (\<lambda>d. d\<lparr>lastReadyStatus := False\<rparr>) c))) (\<lambda>c.
         obind (IRQrecalculateAlfa F c) (\<lambda>c. Some (Inr (c, True)))))"

partial_function (option) ctl_exists_loop :: "nat \<Rightarrow> ptr \<Rightarrow> kernel \<Rightarrow> bool option" where
  "ctl_exists_loop t it k =
     (case it of None \<Rightarrow> Some False
      | Some a \<Rightarrow> if a = t then Some (\<not> isDeleted (flags (threads k a))) else ctl_exists_loop t (snext k a) k)"

definition ctl_PKexists :: "ptr \<Rightarrow> 'f control \<Rightarrow> bool option" where
  "ctl_PKexists p c = (case p of None \<Rightarrow> Some False | Some t \<Rightarrow> ctl_exists_loop t (threadList c) (ckern c))"

definition one_thread_less :: "'f control \<Rightarrow> 'f control" where
  "one_thread_less c = c\<lparr>threadListSize := threadListSize c - 1, SP_Tr := wrap32 (SP_Tr c - bNominal)\<rparr>"

partial_function (option) ctl_dead_front :: "'f control \<Rightarrow> 'f control option" where
  "ctl_dead_front c =
     (case threadList c of None \<Rightarrow> Some c
      | Some h \<Rightarrow>
          if isDeleted (flags (threads (ckern c) h))
          then ctl_dead_front ((one_thread_less c)\<lparr>threadList := snext (ckern c) h, ckern := free_thread h (ckern c)\<rparr>)
          else Some c)"

partial_function (option) ctl_dead_rest :: "ptr \<Rightarrow> 'f control \<Rightarrow> 'f control result option" where
  "ctl_dead_rest it c =
     oderef it (\<lambda>a.
       case snext (ckern c) a of
         None \<Rightarrow> Some (Inr c)
       | Some d \<Rightarrow>
           if \<not> isDeleted (flags (threads (ckern c) d)) then ctl_dead_rest (Some d) c
           else let c = (one_thread_less c)\<lparr>ckern := free_thread d (set_snext a (snext (ckern c) d) (ckern c))\<rparr>
                in ctl_dead_rest (snext (ckern c) a) c)"

definition ctl_PKremoveDeadThreads :: "'f float_ops \<Rightarrow> 'f control \<Rightarrow> 'f control result option" where
  "ctl_PKremoveDeadThreads F c =
     (case ctl_dead_front c of None \<Rightarrow> None
      | Some c \<Rightarrow> obind (if threadList c \<noteq> nullptr then ctl_dead_rest (threadList c) c else Some (Inr c)) (IRQrecalculateAlfa F))"

definition ctl_PKsetPriority :: "'f float_ops \<Rightarrow> nat \<Rightarrow> ctl_priority \<Rightarrow> 'f control \<Rightarrow> 'f control result option" where
  "ctl_PKsetPriority F t newPriority c = IRQrecalculateAlfa F (set_ctl_prio t newPriority c)"

definition ctl_IRQsetIdleThread :: "nat \<Rightarrow> 'f control \<Rightarrow> 'f control result" where
  "ctl_IRQsetIdleThread idleThread c =
     (let c = set_ctl_prio idleThread (ctl_priority_of (-1)) c;
          c = c\<lparr>ckern := (ckern c)\<lparr>idle := idleThread\<rparr>\<rparr>
      in if threadListSize c \<noteq> 1 then Inl (ErrorHandler UNEXPECTED)
         else Inr (c\<lparr>curInRound := end_it (activeThreads c)\<rparr>))"

definition first_wakeup :: "kernel \<Rightarrow> int result" where
  "first_wakeup k = (if is_empty (sleepingList k) then Inr LLONG_MAX else deref (front (sleepingList k)) (\<lambda>a. Inr (wt k a)))"

definition IRQsetNextPreemptionForIdle :: "'f control \<Rightarrow> 'f control result" where
  "IRQsetNextPreemptionForIdle c =
     rbind (first_wakeup (ckern c)) (\<lambda>n. Inr (c\<lparr>ckern := (ckern c)\<lparr>nextPeriodicPreemption := n, osTimerIrq := n\<rparr>\<rparr>))"

definition ctl_IRQsetNextPreemption :: "int \<Rightarrow> int \<Rightarrow> 'f control \<Rightarrow> 'f control result" where
  "ctl_IRQsetNextPreemption now burst c =
     rbind (first_wakeup (ckern c)) (\<lambda>firstWakeupInList.
     let n = min firstWakeupInList (now + burst) in
     Inr (c\<lparr>burstStart := now, ckern := (ckern c)\<lparr>nextPeriodicPreemption := n, osTimerIrq := n\<rparr>\<rparr>))"

partial_function (option) all_saturated :: "'f control \<Rightarrow> ptr \<Rightarrow> bool result option" where
  "all_saturated c it =
     (if it = end_it (activeThreads c) then Some (Inr True)
      else oderef it (\<lambda>a. oderef (atl_t (sdata c a)) (\<lambda>t.
        if bo (sdata c t) < bMax * multFactor then Some (Inr False) else all_saturated c (nxt (activeThreads c) a))))"

definition UINT_MAX :: u32 where "UINT_MAX = 0xFFFFFFFF"

text \<open>The end of \<^verbatim>\<open>IRQfindNextThread\<close>: the thread at \<^verbatim>\<open>curInRound\<close> runs.\<close>

definition run_curInRound :: "int \<Rightarrow> 'f control \<Rightarrow> ('f control \<times> u32) result" where
  "run_curInRound now c =
     deref (curInRound c) (\<lambda>a. deref (atl_t (sdata c a)) (\<lambda>t.
       if isReady (flags (threads (ckern c) t))
       then let c = c\<lparr>ckern := (ckern c)\<lparr>cur := t\<rparr>\<rparr> in
            rbind (ctl_IRQsetNextPreemption now (cdiv (bo (sdata c t)) multFactor) c) (\<lambda>c. Inr (c, 0))
       else Inr (c, UINT_MAX)))"

text \<open>\<open>t0\<close> and \<open>t1\<close> are the times \<^verbatim>\<open>IRQgetTime()\<close> returns to the two calls. Either branch of the body of the loop returns, so
  that it runs once.\<close>

definition ctl_IRQfindNextThread :: "'f float_ops \<Rightarrow> int \<Rightarrow> int \<Rightarrow> 'f control \<Rightarrow> ('f control \<times> u32) result option" where
  "ctl_IRQfindNextThread F t0 t1 c =
     (if kernel_running (ckern c) \<noteq> 0 then Some (Inr (c, 0))
      else
        let c = (if cur (ckern c) \<noteq> idle (ckern c)
                 then let tp = wrap32 (t0 - burstStart c) in
                      (upd_sdata (cur (ckern c)) (\<lambda>d. d\<lparr>Tp := tp\<rparr>) c)\<lparr>Tr := wrap32 (Tr c + tp)\<rparr>
                 else c)
        in obind (Some (if curInRound c \<noteq> end_it (activeThreads c) then get_next (activeThreads c) (curInRound c)
                        else Inr (curInRound c))) (\<lambda>p.
           let c = c\<lparr>curInRound := p\<rparr> in
           if p = end_it (activeThreads c)
           then obind (all_saturated c (begin_it (activeThreads c))) (\<lambda>allReadyThreadsSaturated.
                if is_empty (activeThreads c)
                then Some (rbind (IRQsetNextPreemptionForIdle (c\<lparr>curInRound := end_it (activeThreads c),
                       ckern := (ckern c)\<lparr>cur := idle (ckern c)\<rparr>\<rparr>)) (\<lambda>c. Inr (c, 0)))
                else obind (IRQrunRegulator F allReadyThreadsSaturated (c\<lparr>curInRound := front (activeThreads c)\<rparr>)) (\<lambda>c.
                     Some (run_curInRound t1 c)))
           else Some (run_curInRound t1 c)))"

definition IRQwaitStatusHook :: "'f float_ops \<Rightarrow> nat \<Rightarrow> 'f control \<Rightarrow> 'f control result option" where
  "IRQwaitStatusHook F t c =
     obind (Some (
       if isReady (flags (threads (ckern c) t)) \<and> \<not> lastReadyStatus (sdata c t)
       then rbind (addThreadToActiveList t c) (\<lambda>c. Inr (upd_sdata t (\<lambda>d. d\<lparr>lastReadyStatus := True\<rparr>) c))
       else if \<not> isReady (flags (threads (ckern c) t)) \<and> lastReadyStatus (sdata c t)
       then rbind (remThreadfromActiveList t c) (\<lambda>c. Inr (upd_sdata t (\<lambda>d. d\<lparr>lastReadyStatus := False\<rparr>) c))
       else Inr c)) (IRQrecalculateAlfa F)"

text \<open>A setter of \<^verbatim>\<open>class ThreadFlags\<close>: it changes the flags and calls the hook.\<close>

definition ctl_set_flags :: "'f float_ops \<Rightarrow> nat \<Rightarrow> (u16 \<Rightarrow> u16) \<Rightarrow> 'f control \<Rightarrow> 'f control result option" where
  "ctl_set_flags F t g c = IRQwaitStatusHook F t (c\<lparr>ckern := upd_flags t g (ckern c)\<rparr>)"

section \<open>What the loops compute\<close>

lemma upd_sdata_simps [simp]:
  "ckern (upd_sdata t f c) = ckern c" "activeThreads (upd_sdata t f c) = activeThreads c"
  "curInRound (upd_sdata t f c) = curInRound c" "threadList (upd_sdata t f c) = threadList c"
  "threadListSize (upd_sdata t f c) = threadListSize c" "SP_Tr (upd_sdata t f c) = SP_Tr c"
  "sdata (upd_sdata t f c) x = (if x = t then f (sdata c t) else sdata c x)"
  by (simp_all add: upd_sdata_def)

lemma set_ctl_prio_simps [simp]:
  "ckern (set_ctl_prio t p c) = set_prio t (pget p) (ckern c)" "activeThreads (set_ctl_prio t p c) = activeThreads c"
  "curInRound (set_ctl_prio t p c) = curInRound c" "threadList (set_ctl_prio t p c) = threadList c"
  "threadListSize (set_ctl_prio t p c) = threadListSize c" "SP_Tr (set_ctl_prio t p c) = SP_Tr c"
  "sdata (set_ctl_prio t p c) x = (if x = t then (sdata c t)\<lparr>realtime := pgetRealtime p\<rparr> else sdata c x)"
  by (simp_all add: set_ctl_prio_def)

lemma sum_priority_spec:
  assumes "rep (activeThreads c) (us @ vs)" "\<forall>t\<in>set vs. atl_t (sdata c t) = Some t"
  shows "sum_priority c (Some (hd (vs @ [emptyListItem (activeThreads c)]))) s =
    Some (Inr (s + (\<Sum>t\<leftarrow>vs. if ready (ckern c) t then word_of_int (priority (threads (ckern c) t) + 1) else 0)))"
  using assms
proof (induction vs arbitrary: us s)
  case Nil
  then show ?case by (subst sum_priority.simps) (simp add: end_it_def)
next
  case (Cons v vs)
  have r: "rep (activeThreads c) ((us @ [v]) @ vs)" using Cons.prems by simp
  show ?case using Cons.IH [OF r] Cons.prems rep_next [of "activeThreads c" us v vs] rep_hd_neq_end [of "activeThreads c" us v vs]
    by (subst sum_priority.simps) (simp add: end_it_def add.assoc)
qed

lemma all_saturated_spec:
  assumes "rep (activeThreads c) (us @ vs)" "\<forall>t\<in>set vs. atl_t (sdata c t) = Some t"
  shows "all_saturated c (Some (hd (vs @ [emptyListItem (activeThreads c)]))) =
    Some (Inr (\<forall>t\<in>set vs. bMax * multFactor \<le> bo (sdata c t)))"
  using assms
proof (induction vs arbitrary: us)
  case Nil
  then show ?case by (subst all_saturated.simps) (simp add: end_it_def)
next
  case (Cons v vs)
  have r: "rep (activeThreads c) ((us @ [v]) @ vs)" using Cons.prems by simp
  show ?case using Cons.IH [OF r] Cons.prems rep_next [of "activeThreads c" us v vs] rep_hd_neq_end [of "activeThreads c" us v vs]
    by (subst all_saturated.simps) (auto simp: end_it_def)
qed

lemma each_thread_spec:
  "nchain (\<lambda>x. snext (ckern c) x) xs \<Longrightarrow> distinct xs \<Longrightarrow>
     each_thread f (ptr_of xs) c = Some (Inr (c\<lparr>sdata := \<lambda>t. if t \<in> set xs then f t (sdata c t) else sdata c t\<rparr>))"
proof (induction xs arbitrary: c)
  case Nil
  then show ?case by (subst each_thread.simps) simp
next
  case (Cons x xs)
  have "each_thread f (ptr_of xs) (upd_sdata x (f x) c) = Some (Inr ((upd_sdata x (f x) c)\<lparr>sdata :=
      \<lambda>t. if t \<in> set xs then f t (sdata (upd_sdata x (f x) c) t) else sdata (upd_sdata x (f x) c) t\<rparr>))"
    by (rule Cons.IH) (use Cons.prems in simp_all)
  moreover have "(\<lambda>t. if t \<in> set xs then f t (sdata (upd_sdata x (f x) c) t) else sdata (upd_sdata x (f x) c) t) =
      (\<lambda>t. if t \<in> set (x # xs) then f t (sdata c t) else sdata c t)" using Cons.prems(2) by (auto simp: fun_eq_iff)
  ultimately show ?case using Cons.prems(1) by (subst each_thread.simps) (simp add: upd_sdata_def)
qed

lemma ctl_exists_loop_spec:
  "nchain (\<lambda>x. snext k x) xs \<Longrightarrow> ctl_exists_loop t (ptr_of xs) k = Some (t \<in> set xs \<and> \<not> dead k t)"
proof (induction xs)
  case Nil
  then show ?case by (subst ctl_exists_loop.simps) simp
next
  case (Cons x xs)
  then show ?case by (subst ctl_exists_loop.simps) auto
qed

section \<open>The order of the round\<close>

text \<open>
  What the place of the round means: the threads that still have to run in it, and those that have run, the
  last of them at \<^verbatim>\<open>curInRound\<close>. At \<^verbatim>\<open>end()\<close> a new round is about to start.
\<close>

type_synonym round = "nat list \<times> nat list"

definition round_of :: "nat \<Rightarrow> ptr \<Rightarrow> nat list \<Rightarrow> round \<Rightarrow> bool" where
  "round_of e p as r \<longleftrightarrow> (p = Some e \<and> r = (as, [])) \<or> (\<exists>us a ws. as = us @ a # ws \<and> p = Some a \<and> r = (ws, us @ [a]))"

text \<open>A thread becomes ready: an immediate one runs next and the current one again after it, one of the
  next burst runs next, any other when the round ends.\<close>

fun wake_round :: "int \<Rightarrow> nat \<Rightarrow> round \<Rightarrow> round" where
  "wake_round rt t (rest, past) =
     (if rt = REALTIME_PRIORITY_IMMEDIATE then (if past = [] then ([t], rest) else (t # last past # rest, butlast past))
      else if rt = REALTIME_PRIORITY_NEXT_BURST then (t # rest, past)
      else (rest @ [t], past))"

text \<open>A thread is no longer ready. If it is the current one, the thread after it takes its place in the round.\<close>

fun block_round :: "nat \<Rightarrow> round \<Rightarrow> round" where
  "block_round t (rest, past) =
     (if past \<noteq> [] \<and> last past = t
      then (case rest of [] \<Rightarrow> (butlast past, []) | w # ws \<Rightarrow> (ws, butlast past @ [w]))
      else (remove1 t rest, remove1 t past))"

fun next_round :: "round \<Rightarrow> round" where
  "next_round (t # rest, past) = (rest, past @ [t])"
| "next_round ([], t # past) = (past, [t])"
| "next_round ([], []) = ([], [])"

abbreviation upcoming :: "round \<Rightarrow> nat list" where
  "upcoming r \<equiv> fst r @ snd r"

lemma round_of_set: "round_of e p as r \<Longrightarrow> set (upcoming r) = set as"
  by (auto simp: round_of_def)

lemma round_of_distinct: "round_of e p as r \<Longrightarrow> distinct as \<Longrightarrow> distinct (upcoming r)"
  by (auto simp: round_of_def)

text \<open>The threads behind the place of the round in the list; at \<^verbatim>\<open>end()\<close>, all.\<close>

definition behind :: "nat \<Rightarrow> ptr \<Rightarrow> nat list \<Rightarrow> nat list" where
  "behind e p as = tl (dropWhile (\<lambda>x. Some x \<noteq> p) (e # as))"

lemma round_of_behind:
  assumes "round_of e p as r" "distinct (e # as)"
  shows "behind e p as = fst r" "hd (upcoming r) = hd (behind e p as @ as)"
proof -
  have "behind e p as = fst r \<and> hd (upcoming r) = hd (behind e p as @ as)"
    using assms(1) unfolding round_of_def
  proof (elim disjE exE conjE)
    fix us a ws assume s: "as = us @ a # ws" "p = Some a" "r = (ws, us @ [a])"
    have "behind e p as = ws" using s assms(2) by (auto simp: behind_def dropWhile_append)
    then show ?thesis using s by (cases ws; cases us) simp_all
  qed (cases as, simp_all add: behind_def)
  then show "behind e p as = fst r" "hd (upcoming r) = hd (behind e p as @ as)" by simp_all
qed

text \<open>
  Where a thread that becomes ready enters the list, between \<open>us\<close> and \<open>vs\<close>: in front of the place of the round, behind it,
  or at the end.
\<close>

definition enters_at :: "int \<Rightarrow> nat \<Rightarrow> ptr \<Rightarrow> nat list \<Rightarrow> nat list \<Rightarrow> bool" where
  "enters_at rt e p us vs \<longleftrightarrow>
     (if rt = REALTIME_PRIORITY_IMMEDIATE then p = Some (hd (vs @ [e]))
      else if rt = REALTIME_PRIORITY_NEXT_BURST then p = Some (last (e # us))
      else vs = [])"

lemma add_active_spec:
  assumes "rep (activeThreads c) as" "round_of (emptyListItem (activeThreads c)) (curInRound c) as r"
    "t \<notin> insert (emptyListItem (activeThreads c)) (set as)" "atl_t (sdata c t) = Some t"
  shows "\<exists>l p as'. addThreadToActiveList t c = Inr (c\<lparr>activeThreads := l, curInRound := p\<rparr>) \<and> rep l as' \<and>
    emptyListItem l = emptyListItem (activeThreads c) \<and> set as' = insert t (set as) \<and>
    round_of (emptyListItem l) p as' (wake_round (realtime (sdata c t)) t r) \<and>
    (\<exists>us vs. as = us @ vs \<and> as' = us @ t # vs \<and>
       enters_at (realtime (sdata c t)) (emptyListItem (activeThreads c)) (curInRound c) us vs)"
proof -
  let ?l = "activeThreads c" let ?e = "emptyListItem ?l"
  obtain us vs where s: "as = us @ vs" "curInRound c = Some (hd (vs @ [?e]))" and
    r: "vs = [] \<and> r = (us, []) \<or> (\<exists>a ws. vs = a # ws \<and> r = (ws, us @ [a]))"
    using assms(2) unfolding round_of_def by force
  show ?thesis
  proof (cases "realtime (sdata c t) = REALTIME_PRIORITY_IMMEDIATE")
    case True
    have "rep ?l (us @ vs)" "t \<notin> insert ?e (set (us @ vs))" using assms s by simp_all
    from rep_insert_before [OF this s(2)] obtain l where l: "insert_before ?l (curInRound c) t = Inr l" "rep l (us @ t # vs)"
      "emptyListItem l = ?e" by blast
    have "prv l (hd (vs @ [?e])) = Some t" using rep_splitD(4) [of l "us @ [t]" vs] l(2,3) by simp
    moreover have "prv l t = Some (last (?e # us))" using rep_splitD(4) [of l us "t # vs"] l(2,3) by simp
    ultimately have "addThreadToActiveList t c = Inr (c\<lparr>activeThreads := l, curInRound := Some (last (?e # us))\<rparr>)"
      using True l(1) s(2) assms(4) by (simp add: addThreadToActiveList_def)
    moreover have "round_of ?e (Some (last (?e # us))) (us @ t # vs) (wake_round (realtime (sdata c t)) t r)"
      using r True by (cases us rule: rev_cases) (auto simp: round_of_def butlast_append)
    moreover have "enters_at (realtime (sdata c t)) ?e (curInRound c) us vs" using s(2) True by (simp add: enters_at_def)
    ultimately show ?thesis using l(2,3) s(1)
      by (intro exI [of _ l] exI [of _ "Some (last (?e # us))"] exI [of _ "us @ t # vs"] conjI exI [of _ us] exI [of _ vs]) simp_all
  next
    case nimm: False
    show ?thesis
    proof (cases "realtime (sdata c t) = REALTIME_PRIORITY_NEXT_BURST")
      case True
      obtain us' vs' where s': "as = us' @ vs'" "get_next ?l (curInRound c) = Inr (Some (hd (vs' @ [?e])))"
        and r': "us' = [] \<and> curInRound c = Some ?e \<and> r = (vs', []) \<or>
          (\<exists>us a. us' = us @ [a] \<and> curInRound c = Some a \<and> r = (vs', us @ [a]))"
      proof (cases vs)
        case Nil
        then show ?thesis using that [of "[]" us] s r rep_splitD(3) [of ?l "[]" as] assms(1) by simp
      next
        case (Cons a ws)
        then show ?thesis using that [of "us @ [a]" ws] s r rep_next [of ?l us a ws] assms(1) by simp
      qed
      have "rep ?l (us' @ vs')" "t \<notin> insert ?e (set (us' @ vs'))" using assms s' by simp_all
      from rep_insert_before [OF this refl] obtain l where l: "insert_before ?l (Some (hd (vs' @ [?e]))) t = Inr l"
        "rep l (us' @ t # vs')" "emptyListItem l = ?e" by blast
      have "addThreadToActiveList t c = Inr (c\<lparr>activeThreads := l, curInRound := curInRound c\<rparr>)"
        using nimm True l(1) s'(2) assms(4) by (simp add: addThreadToActiveList_def)
      moreover have "round_of ?e (curInRound c) (us' @ t # vs') (wake_round (realtime (sdata c t)) t r)"
        using r' nimm True by (auto simp: round_of_def)
      moreover have "enters_at (realtime (sdata c t)) ?e (curInRound c) us' vs'"
        using r' nimm True by (auto simp: enters_at_def)
      ultimately show ?thesis using l(2,3) s'(1)
        by (intro exI [of _ l] exI [of _ "curInRound c"] exI [of _ "us' @ t # vs'"] conjI exI [of _ us'] exI [of _ vs']) simp_all
    next
      case False
      from rep_push_back [OF assms(1,3)] obtain l where l: "push_back ?l t = Inr l" "rep l (as @ [t])" "emptyListItem l = ?e"
        by blast
      have "addThreadToActiveList t c = Inr (c\<lparr>activeThreads := l, curInRound := curInRound c\<rparr>)"
        using nimm False l(1) assms(4) by (simp add: addThreadToActiveList_def)
      moreover have "round_of ?e (curInRound c) (as @ [t]) (wake_round (realtime (sdata c t)) t r)"
        using assms(2) nimm False unfolding round_of_def by force
      moreover have "enters_at (realtime (sdata c t)) ?e (curInRound c) as []" using nimm False by (simp add: enters_at_def)
      ultimately show ?thesis using l(2,3)
        by (intro exI [of _ l] exI [of _ "curInRound c"] exI [of _ "as @ [t]"] conjI exI [of _ as] exI [of _ "[]"]) simp_all
    qed
  qed
qed

lemma distinct_split_eq:
  "a \<notin> set us \<Longrightarrow> a \<notin> set ws \<Longrightarrow> us @ a # ws = us' @ a # ws' \<Longrightarrow> us' = us \<and> ws' = ws"
  by (simp add: append_Cons_eq_iff)

lemma round_block:
  assumes "distinct (e # us @ t # vs)" "round_of e p (us @ t # vs) r"
  shows "round_of e (if p = Some t then Some (hd (vs @ [e])) else p) (us @ vs) (block_round t r)"
  using assms(2) unfolding round_of_def [of e p]
proof (elim disjE exE conjE)
  assume "p = Some e" "r = (us @ t # vs, [])"
  then show ?thesis using assms(1) by (auto simp: round_of_def remove1_append)
next
  fix us' a ws assume s: "us @ t # vs = us' @ a # ws" "p = Some a" "r = (ws, us' @ [a])"
  show ?thesis
  proof (cases "a = t")
    case True
    have "t \<notin> set us" "t \<notin> set vs" using assms(1) by auto
    from distinct_split_eq [OF this] have "us' = us \<and> ws = vs" using True s(1) by simp
    then show ?thesis using True s by (cases vs) (auto simp: round_of_def)
  next
    case False
    then have "a \<in> set us \<or> a \<in> set vs" using arg_cong [OF s(1), of set] by auto
    then show ?thesis
    proof
      assume "a \<in> set us"
      then obtain u1 u2 where u: "us = u1 @ a # u2" by (meson split_list)
      then have "us' = u1 \<and> ws = u2 @ t # vs"
        by (intro distinct_split_eq [of a]) (use u assms(1) s(1) in auto)
      then show ?thesis using False s u assms(1) by (auto simp: round_of_def remove1_append)
    next
      assume "a \<in> set vs"
      then obtain u1 u2 where u: "vs = u1 @ a # u2" by (meson split_list)
      then have "us' = us @ t # u1 \<and> ws = u2"
        by (intro distinct_split_eq [of a]) (use u assms(1) s(1) in auto)
      then show ?thesis using False s u assms(1) by (auto simp: round_of_def remove1_append remove1_idem)
    qed
  qed
qed

lemma rem_active_spec:
  assumes "rep (activeThreads c) as" "round_of (emptyListItem (activeThreads c)) (curInRound c) as r" "t \<in> set as"
  shows "\<exists>l p as'. remThreadfromActiveList t c = Inr (c\<lparr>activeThreads := l, curInRound := p\<rparr>) \<and> rep l as' \<and>
    emptyListItem l = emptyListItem (activeThreads c) \<and> set as' = set as - {t} \<and> round_of (emptyListItem l) p as' (block_round t r)"
proof -
  let ?l = "activeThreads c" let ?e = "emptyListItem ?l"
  from assms(3) obtain us vs where s: "as = us @ t # vs" by (meson split_list)
  have r: "rep ?l (us @ t # vs)" and d: "distinct (?e # us @ t # vs)" using assms(1) repD(2) [OF assms(1)] s by simp_all
  from rep_erase [OF r] obtain l where l: "erase ?l (Some t) = Inr (l, Some (hd (vs @ [?e])))" "rep l (us @ vs)" "emptyListItem l = ?e"
    by blast
  define p where "p = (if curInRound c = Some t then Some (hd (vs @ [?e])) else curInRound c)"
  have "remThreadfromActiveList t c = Inr (c\<lparr>activeThreads := l, curInRound := p\<rparr>)"
    using l(1) rep_next [OF r] by (simp add: remThreadfromActiveList_def p_def)
  moreover have "set (us @ vs) = set as - {t}" using d s by auto
  moreover have "round_of ?e p (us @ vs) (block_round t r)"
    unfolding p_def using round_block [of ?e us t vs] d assms(2) s by simp
  ultimately show ?thesis using l(2,3) by fastforce
qed

section \<open>The invariant\<close>

abbreviation burst_ok :: "int \<Rightarrow> bool" where
  "burst_ok b \<equiv> bMin * multFactor \<le> b \<and> b \<le> bMax * multFactor"

lemma burst_ok_saturate [simp]: "burst_ok (saturate b)"
  by (simp add: saturate_def ctl_consts)

definition ctl_rep :: "'f control \<Rightarrow> nat list \<Rightarrow> nat list \<Rightarrow> round \<Rightarrow> bool" where
  "ctl_rep c xs as r \<longleftrightarrow> threadList c = ptr_of xs \<and> nchain (\<lambda>t. snext (ckern c) t) xs \<and> distinct xs \<and>
     rep (activeThreads c) as \<and> round_of (emptyListItem (activeThreads c)) (curInRound c) as r \<and>
     emptyListItem (activeThreads c) \<notin> set xs \<and> set as \<subseteq> set xs \<and>
     (\<forall>t\<in>set xs. atl_t (sdata c t) = Some t \<and> burst_ok (bo (sdata c t))) \<and>
     threadListSize c = of_nat (length xs) \<and> SP_Tr c = wrap32 (bNominal * int (length xs)) \<and>
     (\<exists>sl. rep (sleepingList (ckern c)) sl)"

definition in_step :: "'f control \<Rightarrow> nat list \<Rightarrow> nat \<Rightarrow> bool" where
  "in_step c as t \<longleftrightarrow> (t \<in> set as \<longleftrightarrow> ready (ckern c) t) \<and> lastReadyStatus (sdata c t) = ready (ckern c) t"

definition ctl_inv :: "'f control \<Rightarrow> nat set \<Rightarrow> round \<Rightarrow> bool" where
  "ctl_inv c S r \<longleftrightarrow> (\<exists>xs as. ctl_rep c xs as r \<and> set xs = S \<and> (\<forall>t\<in>S. in_step c as t))"

lemma ctl_repD:
  assumes "ctl_rep c xs as r"
  shows "threadList c = ptr_of xs" "nchain (\<lambda>t. snext (ckern c) t) xs" "distinct xs" "rep (activeThreads c) as"
    "round_of (emptyListItem (activeThreads c)) (curInRound c) as r" "emptyListItem (activeThreads c) \<notin> set xs"
    "set as \<subseteq> set xs" "\<forall>t\<in>set xs. atl_t (sdata c t) = Some t" "\<forall>t\<in>set xs. burst_ok (bo (sdata c t))"
    "\<forall>t\<in>set as. atl_t (sdata c t) = Some t"
  using assms by (auto simp: ctl_rep_def)

lemma rep_begin: "rep l as \<Longrightarrow> begin_it l = Some (hd (as @ [emptyListItem l]))"
  by (simp add: begin_it_def repD(3))

lemma recalculate_spec:
  assumes "ctl_rep c xs as r"
  shows "\<exists>f b. IRQrecalculateAlfa F c = Some (Inr (c\<lparr>sdata := \<lambda>t. (sdata c t)\<lparr>alfa := f t\<rparr>, reinitRegulator := b\<rparr>))"
proof -
  note D = ctl_repD [OF assms]
  define s where "s = (\<Sum>t\<leftarrow>as. if ready (ckern c) t then word_of_int (priority (threads (ckern c) t) + 1) else 0 :: u32)"
  have s: "sum_priority c (begin_it (activeThreads c)) 0 = Some (Inr s)"
    using sum_priority_spec [of c "[]" as 0] D(4,10) rep_begin [OF D(4)] by (simp add: s_def)
  show ?thesis
  proof (cases "s = 0")
    case True
    then show ?thesis using s by (auto simp: IRQrecalculateAlfa_def intro!: exI [of _ "\<lambda>t. alfa (sdata c t)"] exI [of _ "reinitRegulator c"])
  next
    case False
    define g where "g = (\<lambda>t. if ready (ckern c) t then f_mul F (f_div F (f_of_int F 1) (f_of_int F (uint s)))
      (f_of_int F (priority (threads (ckern c) t) + 1)) else f_of_int F 0)"
    have "(\<lambda>t. if t \<in> set xs then (sdata c t)\<lparr>alfa := g t\<rparr> else sdata c t) =
        (\<lambda>t. (sdata c t)\<lparr>alfa := if t \<in> set xs then g t else alfa (sdata c t)\<rparr>)" by (simp add: fun_eq_iff)
    then have "IRQrecalculateAlfa F c = Some (Inr (c\<lparr>sdata := \<lambda>t. (sdata c t)\<lparr>alfa := if t \<in> set xs then g t else alfa (sdata c t)\<rparr>,
        reinitRegulator := True\<rparr>))"
      using s False each_thread_spec [OF D(2,3), of "\<lambda>t d. d\<lparr>alfa := g t\<rparr>"] D(1)
      by (simp add: IRQrecalculateAlfa_def Let_def g_def)
    then show ?thesis by (intro exI)
  qed
qed

lemma ctl_rep_alfa [simp]:
  "ctl_rep (c\<lparr>sdata := \<lambda>t. (sdata c t)\<lparr>alfa := f t\<rparr>, reinitRegulator := b\<rparr>) xs as r = ctl_rep c xs as r"
  "in_step (c\<lparr>sdata := \<lambda>t. (sdata c t)\<lparr>alfa := f t\<rparr>, reinitRegulator := b\<rparr>) as t = in_step c as t"
  by (simp_all add: ctl_rep_def in_step_def)

lemma regulator_spec:
  assumes "ctl_rep c xs as r"
  shows "\<exists>sp b d e R. IRQrunRegulator F sat c = Some (Inr (c\<lparr>
    sdata := \<lambda>t. if t \<in> set xs then (sdata c t)\<lparr>SP_Tp := sp t, bo := saturate (b t)\<rparr> else sdata c t,
    bco := d, eTro := e, Tr := 0, reinitRegulator := R\<rparr>))"
proof -
  note D = ctl_repD [OF assms]
  have run: "\<exists>sp b. each_thread f (threadList c) c' = Some (Inr (c'\<lparr>
      sdata := \<lambda>t. if t \<in> set xs then (sdata c t)\<lparr>SP_Tp := sp t, bo := saturate (b t)\<rparr> else sdata c t\<rparr>))"
    if "ckern c' = ckern c" "sdata c' = sdata c" "\<And>t d. \<exists>sp b. f t d = d\<lparr>SP_Tp := sp, bo := saturate b\<rparr>" for f c'
  proof -
    have "\<forall>t. \<exists>sp b. f t (sdata c t) = (sdata c t)\<lparr>SP_Tp := sp, bo := saturate b\<rparr>" using that(3) by blast
    then obtain sp b where f: "f t (sdata c t) = (sdata c t)\<lparr>SP_Tp := sp t, bo := saturate (b t)\<rparr>" for t by metis
    show ?thesis using each_thread_spec [of c' xs f] D(1-3) that(1,2) unfolding that(2) f by auto
  qed
  have body: "\<exists>sp b. regulate_thread F x d = d\<lparr>SP_Tp := sp, bo := saturate b\<rparr>"
    "\<exists>sp b. reinit_thread F y d = d\<lparr>SP_Tp := sp, bo := saturate b\<rparr>" for x y d
    unfolding regulate_thread_def reinit_thread_def Let_def by (rule exI, rule exI, rule refl)+
  show ?thesis
  proof (cases "reinitRegulator c")
    case True
    from run [of "c\<lparr>reinitRegulator := False, Tr := 0, eTro := 0, bco := 0\<rparr>" "\<lambda>t. reinit_thread F (SP_Tr c)"] body(2)
    obtain sp b where "IRQrunRegulator F sat c = Some (Inr (c\<lparr>reinitRegulator := False, Tr := 0, eTro := 0, bco := 0,
        sdata := \<lambda>t. if t \<in> set xs then (sdata c t)\<lparr>SP_Tp := sp t, bo := saturate (b t)\<rparr> else sdata c t\<rparr>))"
      using True by (auto simp: IRQrunRegulator_def)
    then have "IRQrunRegulator F sat c = Some (Inr (c\<lparr>
      sdata := \<lambda>t. if t \<in> set xs then (sdata c t)\<lparr>SP_Tp := sp t, bo := saturate (b t)\<rparr> else sdata c t,
      bco := 0, eTro := 0, Tr := 0, reinitRegulator := False\<rparr>))" by simp
    then show ?thesis by blast
  next
    case False
    then obtain x d e where x: "IRQrunRegulator F sat c = each_thread (\<lambda>t. regulate_thread F x) (threadList c) (c\<lparr>bco := d, eTro := e, Tr := 0\<rparr>)"
      by (simp add: IRQrunRegulator_def Let_def)
    from run [of "c\<lparr>bco := d, eTro := e, Tr := 0\<rparr>" "\<lambda>t. regulate_thread F x"] body(1) obtain sp b where
      "IRQrunRegulator F sat c = Some (Inr (c\<lparr>bco := d, eTro := e, Tr := 0,
        sdata := \<lambda>t. if t \<in> set xs then (sdata c t)\<lparr>SP_Tp := sp t, bo := saturate (b t)\<rparr> else sdata c t\<rparr>))" using x by auto
    then have "IRQrunRegulator F sat c = Some (Inr (c\<lparr>
      sdata := \<lambda>t. if t \<in> set xs then (sdata c t)\<lparr>SP_Tp := sp t, bo := saturate (b t)\<rparr> else sdata c t,
      bco := d, eTro := e, Tr := 0, reinitRegulator := reinitRegulator c\<rparr>))" by simp
    then show ?thesis by blast
  qed
qed

section \<open>The switch\<close>

lemma first_wakeup_spec: "rep (sleepingList k) sl \<Longrightarrow> first_wakeup k = Inr (if sl = [] then LLONG_MAX else wt k (hd sl))"
  using rep_is_empty [of "sleepingList k" sl] repD(3) [of "sleepingList k" sl] by (cases sl) (auto simp: first_wakeup_def front_def)

lemma first_wakeup_cong:
  "sleepingList k' = sleepingList k \<Longrightarrow> sleepData k' = sleepData k \<Longrightarrow> first_wakeup k' = first_wakeup k"
  by (simp add: first_wakeup_def)

lemma cdiv_burst: "burst_ok b \<Longrightarrow> bMin \<le> cdiv b multFactor \<and> cdiv b multFactor \<le> bMax"
  by (auto simp: cdiv_def ctl_consts sgn_if)

lemma run_cur_spec:
  assumes "ctl_rep c xs as r" "curInRound c = Some t" "t \<in> set as" "ready (ckern c) t" "first_wakeup (ckern c) = Inr n"
  shows "\<exists>burst. bMin \<le> burst \<and> burst \<le> bMax \<and> run_curInRound t1 c = Inr (c\<lparr>burstStart := t1, ckern := (ckern c)\<lparr>cur := t,
    nextPeriodicPreemption := min n (t1 + burst), osTimerIrq := min n (t1 + burst)\<rparr>\<rparr>, 0)"
proof -
  note D = ctl_repD [OF assms(1)]
  have t: "atl_t (sdata c t) = Some t" "burst_ok (bo (sdata c t))" using D(7-9) assms(3) by auto
  have "first_wakeup ((ckern c)\<lparr>cur := t\<rparr>) = Inr n" using assms(5) first_wakeup_cong [of "(ckern c)\<lparr>cur := t\<rparr>" "ckern c"] by simp
  then show ?thesis using t cdiv_burst [OF t(2)] assms(2,4)
    by (intro exI [of _ "cdiv (bo (sdata c t)) multFactor"]) (simp add: run_curInRound_def ctl_IRQsetNextPreemption_def Let_def)
qed

lemma ctl_rep_regulated:
  assumes "ctl_rep c xs as r"
  shows "ctl_rep (c\<lparr>sdata := \<lambda>t. if t \<in> set xs then (sdata c t)\<lparr>SP_Tp := pt t, bo := saturate (b t)\<rparr> else sdata c t,
      bco := d, eTro := e, Tr := 0, reinitRegulator := R\<rparr>) xs as r"
    "in_step (c\<lparr>sdata := \<lambda>t. if t \<in> set xs then (sdata c t)\<lparr>SP_Tp := pt t, bo := saturate (b t)\<rparr> else sdata c t,
      bco := d, eTro := e, Tr := 0, reinitRegulator := R\<rparr>) as t = in_step c as t"
  using assms by (auto simp: ctl_rep_def in_step_def)

lemma ctl_rep_Tp:
  "ctl_rep ((upd_sdata u (\<lambda>d. d\<lparr>Tp := x\<rparr>) c)\<lparr>Tr := y\<rparr>) xs as r = ctl_rep c xs as r"
  "in_step ((upd_sdata u (\<lambda>d. d\<lparr>Tp := x\<rparr>) c)\<lparr>Tr := y\<rparr>) as t = in_step c as t"
  by (auto simp: ctl_rep_def in_step_def)

lemma round_of_next:
  assumes "round_of (emptyListItem l) p as r" "rep l as" "as \<noteq> []"
  shows "hd (upcoming r) \<in> set as" "round_of (emptyListItem l) (Some (hd (upcoming r))) as (next_round r)"
    "(if p \<noteq> end_it l then get_next l p else Inr p) = Inr (Some (hd (upcoming r))) \<or>
     (if p \<noteq> end_it l then get_next l p else Inr p) = Inr (end_it l) \<and> hd (upcoming r) = hd as"
proof -
  let ?e = "emptyListItem l"
  consider "p = Some ?e" "r = (as, [])" | us a ws where "as = us @ a # ws" "p = Some a" "r = (ws, us @ [a])"
    using assms(1) unfolding round_of_def by blast
  then have "hd (upcoming r) \<in> set as \<and> round_of ?e (Some (hd (upcoming r))) as (next_round r) \<and>
    ((if p \<noteq> end_it l then get_next l p else Inr p) = Inr (Some (hd (upcoming r))) \<or>
     (if p \<noteq> end_it l then get_next l p else Inr p) = Inr (end_it l) \<and> hd (upcoming r) = hd as)"
  proof cases
    case 1
    from assms(3) obtain x xs where "as = x # xs" by (cases as) auto
    with 1 show ?thesis by (auto simp: round_of_def end_it_def)
  next
    case 2
    have n: "nxt l a = Some (hd (ws @ [?e]))" and d: "a \<noteq> ?e"
      using rep_next [of l us a ws] rep_hd_neq_end [of l us a ws] assms(2) 2(1) by simp_all
    show ?thesis
    proof (cases ws)
      case Nil
      then show ?thesis using 2 n d by (cases us) (auto simp: round_of_def end_it_def)
    next
      case (Cons w ws')
      then have "as = (us @ [a]) @ w # ws'" using 2(1) by simp
      moreover have "r = (w # ws', us @ [a])" using 2(3) Cons by simp
      ultimately show ?thesis using 2(2) n d Cons unfolding round_of_def by (auto simp: end_it_def)
    qed
  qed
  then show "hd (upcoming r) \<in> set as" "round_of ?e (Some (hd (upcoming r))) as (next_round r)"
    "(if p \<noteq> end_it l then get_next l p else Inr p) = Inr (Some (hd (upcoming r))) \<or>
     (if p \<noteq> end_it l then get_next l p else Inr p) = Inr (end_it l) \<and> hd (upcoming r) = hd as" by blast+
qed

text \<open>The thread at the place of the round is ready: it runs, and the invariant stays.\<close>

lemma run_cur_inv:
  assumes "ctl_rep c xs as r" "curInRound c = Some t" "t \<in> set as" "\<forall>t\<in>set xs. in_step c as t" "first_wakeup (ckern c) = Inr n"
  shows "\<exists>c' burst. run_curInRound t1 c = Inr (c', 0) \<and> ctl_inv c' (set xs) r \<and> cur (ckern c') = t \<and>
    activeThreads c' = activeThreads c \<and> curInRound c' = curInRound c \<and> bMin \<le> burst \<and> burst \<le> bMax \<and> osTimerIrq (ckern c') = min n (t1 + burst)"
proof -
  have "ready (ckern c) t" using assms(1,3,4) by (auto simp: ctl_rep_def in_step_def)
  from run_cur_spec [OF assms(1-3) this assms(5)] obtain burst where b: "bMin \<le> burst" "burst \<le> bMax"
    "run_curInRound t1 c = Inr (c\<lparr>burstStart := t1, ckern := (ckern c)\<lparr>cur := t,
      nextPeriodicPreemption := min n (t1 + burst), osTimerIrq := min n (t1 + burst)\<rparr>\<rparr>, 0)" by blast
  moreover have "ctl_inv (c\<lparr>burstStart := t1, ckern := (ckern c)\<lparr>cur := t,
      nextPeriodicPreemption := min n (t1 + burst), osTimerIrq := min n (t1 + burst)\<rparr>\<rparr>) (set xs) r"
    unfolding ctl_inv_def by (intro exI [of _ xs] exI [of _ as]) (use assms(1,4) in \<open>simp add: ctl_rep_def in_step_def\<close>)
  ultimately show ?thesis by fastforce
qed

definition switch_result :: "round \<Rightarrow> int \<Rightarrow> int \<Rightarrow> kernel \<Rightarrow> kernel \<Rightarrow> bool" where
  "switch_result r n now k k' \<longleftrightarrow>
     (case upcoming r of
        [] \<Rightarrow> cur k' = idle k \<and> osTimerIrq k' = n
      | t # _ \<Rightarrow> cur k' = t \<and> (\<exists>burst. bMin \<le> burst \<and> burst \<le> bMax \<and> osTimerIrq k' = min n (now + burst)))"

lemma ctl_find_spec:
  assumes "ctl_inv c S r" "kernel_running (ckern c) = 0"
  shows "\<exists>n c'. first_wakeup (ckern c) = Inr n \<and> ctl_IRQfindNextThread F t0 t1 c = Some (Inr (c', 0)) \<and>
    ctl_inv c' S (next_round r) \<and> switch_result r n t1 (ckern c) (ckern c') \<and> activeThreads c' = activeThreads c \<and>
    curInRound c' = (case upcoming r of [] \<Rightarrow> end_it (activeThreads c) | t # _ \<Rightarrow> Some t)"
proof -
  from assms(1) obtain xs as where r0: "ctl_rep c xs as r" "set xs = S" "\<forall>t\<in>S. in_step c as t" unfolding ctl_inv_def by blast
  obtain n where n: "first_wakeup (ckern c) = Inr n" using r0(1) first_wakeup_spec unfolding ctl_rep_def by blast
  define c1 where "c1 = (if cur (ckern c) \<noteq> idle (ckern c)
      then (upd_sdata (cur (ckern c)) (\<lambda>d. d\<lparr>Tp := wrap32 (t0 - burstStart c)\<rparr>) c)\<lparr>Tr := wrap32 (Tr c + wrap32 (t0 - burstStart c))\<rparr> else c)"
  have c1: "ctl_rep c1 xs as r" "\<forall>t\<in>set xs. in_step c1 as t" "ckern c1 = ckern c"
    using r0 by (simp_all add: c1_def ctl_rep_Tp)
  have l1: "activeThreads c1 = activeThreads c" by (simp add: c1_def)
  note D = ctl_repD [OF c1(1)]
  let ?l = "activeThreads c1" let ?p = "if curInRound c1 \<noteq> end_it ?l then get_next ?l (curInRound c1) else Inr (curInRound c1)"
  have eq: "ctl_IRQfindNextThread F t0 t1 c = obind (Some ?p) (\<lambda>p.
     if p = end_it ?l
     then obind (all_saturated (c1\<lparr>curInRound := p\<rparr>) (begin_it ?l)) (\<lambda>sat.
          if is_empty ?l
          then Some (rbind (IRQsetNextPreemptionForIdle (c1\<lparr>curInRound := end_it ?l, ckern := (ckern c1)\<lparr>cur := idle (ckern c1)\<rparr>\<rparr>))
                 (\<lambda>c. Inr (c, 0)))
          else obind (IRQrunRegulator F sat (c1\<lparr>curInRound := front ?l\<rparr>)) (\<lambda>c. Some (run_curInRound t1 c)))
     else Some (run_curInRound t1 (c1\<lparr>curInRound := p\<rparr>)))"
    using assms(2) unfolding ctl_IRQfindNextThread_def Let_def c1_def [symmetric] by (simp cong: if_cong)
  have sat: "\<exists>b. all_saturated (c1\<lparr>curInRound := p\<rparr>) (begin_it ?l) = Some (Inr b)" for p
    using all_saturated_spec [of "c1\<lparr>curInRound := p\<rparr>" "[]" as] D(4,10) rep_begin [OF D(4)] by simp
  show ?thesis
  proof (cases "as = []")
    case True
    then have r: "r = ([], [])" "?p = Inr (end_it ?l)" "is_empty ?l"
      using D(5) rep_is_empty [OF D(4)] by (auto simp: round_of_def end_it_def)
    let ?c = "c1\<lparr>curInRound := end_it ?l, ckern := (ckern c)\<lparr>cur := idle (ckern c), nextPeriodicPreemption := n, osTimerIrq := n\<rparr>\<rparr>"
    have "first_wakeup ((ckern c)\<lparr>cur := idle (ckern c)\<rparr>) = Inr n" using n first_wakeup_cong [of "(ckern c)\<lparr>cur := idle (ckern c)\<rparr>" "ckern c"] by simp
    then have "ctl_IRQfindNextThread F t0 t1 c = Some (Inr (?c, 0))"
      using eq r sat [of "end_it ?l"] c1(3) by (auto simp: IRQsetNextPreemptionForIdle_def)
    moreover have "ctl_inv ?c S (next_round r)" unfolding ctl_inv_def
      by (intro exI [of _ xs] exI [of _ as]) (use c1 r0(2) r True in \<open>simp add: ctl_rep_def in_step_def end_it_def round_of_def\<close>)
    ultimately show ?thesis using n r(1) l1 by (auto simp: switch_result_def)
  next
    case False
    define t where "t = hd (upcoming r)"
    note N = round_of_next [OF D(5,4) False, folded t_def]
    obtain us where up: "upcoming r = t # us" using round_of_set [OF D(5)] False unfolding t_def by (cases "upcoming r") auto
    have rep: "ctl_rep (c1\<lparr>curInRound := Some t\<rparr>) xs as (next_round r)" "\<forall>u\<in>set xs. in_step (c1\<lparr>curInRound := Some t\<rparr>) as u"
      using c1(1,2) N(2) by (auto simp: ctl_rep_def in_step_def)
    have te: "Some t \<noteq> end_it ?l" using N(1) D(6,7) by (auto simp: end_it_def)
    obtain c2 where c2: "ctl_IRQfindNextThread F t0 t1 c = Some (run_curInRound t1 c2)" "ctl_rep c2 xs as (next_round r)"
      "\<forall>u\<in>set xs. in_step c2 as u" "ckern c2 = ckern c" "curInRound c2 = Some t"
      "activeThreads c2 = activeThreads c"
    proof (cases "?p = Inr (Some t)")
      case True
      then show ?thesis using that [of "c1\<lparr>curInRound := Some t\<rparr>"] eq rep te c1(3) l1 by simp
    next
      case pe: False
      then have p: "?p = Inr (end_it ?l)" "t = hd as" using N(3) by blast+
      obtain b where b: "all_saturated (c1\<lparr>curInRound := end_it ?l\<rparr>) (begin_it ?l) = Some (Inr b)" using sat by blast
      have "front ?l = Some t" "\<not> is_empty ?l" using repD(3) [OF D(4)] rep_is_empty [OF D(4)] False p(2) by (simp_all add: front_def)
      then have "ctl_IRQfindNextThread F t0 t1 c = obind (IRQrunRegulator F b (c1\<lparr>curInRound := Some t\<rparr>)) (\<lambda>c. Some (run_curInRound t1 c))"
        using eq p b by simp
      moreover obtain sp bb d e R where "IRQrunRegulator F b (c1\<lparr>curInRound := Some t\<rparr>) = Some (Inr ((c1\<lparr>curInRound := Some t\<rparr>)\<lparr>
        sdata := \<lambda>u. if u \<in> set xs then (sdata (c1\<lparr>curInRound := Some t\<rparr>) u)\<lparr>SP_Tp := sp u, bo := saturate (bb u)\<rparr> else sdata (c1\<lparr>curInRound := Some t\<rparr>) u,
        bco := d, eTro := e, Tr := 0, reinitRegulator := R\<rparr>))" using regulator_spec [OF rep(1)] by blast
      ultimately show ?thesis using that ctl_rep_regulated [OF rep(1), where pt = sp and b = bb and d = d and e = e and R = R] rep(2) c1(3) l1 by simp
    qed
    have "first_wakeup (ckern c2) = Inr n" using c2(4) n by simp
    from run_cur_inv [OF c2(2,5) N(1) c2(3) this] obtain c' burst where "run_curInRound t1 c2 = Inr (c', 0)"
      "ctl_inv c' (set xs) (next_round r)" "cur (ckern c') = t" "bMin \<le> burst" "burst \<le> bMax"
      "osTimerIrq (ckern c') = min n (t1 + burst)" "activeThreads c' = activeThreads c" "curInRound c' = Some t"
      unfolding c2(5,6) by blast
    then show ?thesis using n c2(1) r0(2) up by (auto simp: switch_result_def)
  qed
qed

section \<open>Changes of the flags\<close>

text \<open>The round after the flags of \<open>t\<close> changed.\<close>

definition status_round :: "bool \<Rightarrow> bool \<Rightarrow> int \<Rightarrow> nat \<Rightarrow> round \<Rightarrow> round" where
  "status_round was is_now rt t r =
     (if is_now \<and> \<not> was then wake_round rt t r else if \<not> is_now \<and> was then block_round t r else r)"

lemma ctl_rep_active:
  assumes "ctl_rep c xs as r" "rep l as'" "emptyListItem l = emptyListItem (activeThreads c)" "set as' \<subseteq> set xs"
    "round_of (emptyListItem l) p as' r'"
  shows "ctl_rep (upd_sdata t (\<lambda>d. d\<lparr>lastReadyStatus := b\<rparr>) (c\<lparr>activeThreads := l, curInRound := p\<rparr>)) xs as' r'"
  using assms by (auto simp: ctl_rep_def)

definition same_shape :: "'f control \<Rightarrow> 'f control \<Rightarrow> bool" where
  "same_shape c c' \<longleftrightarrow> emptyListItem (activeThreads c') = emptyListItem (activeThreads c) \<and>
     (\<forall>u. realtime (sdata c' u) = realtime (sdata c u))"

definition entered :: "'f control \<Rightarrow> 'f control \<Rightarrow> nat \<Rightarrow> nat list \<Rightarrow> bool" where
  "entered c c' t as \<longleftrightarrow> (\<exists>us vs. as = us @ vs \<and> rep (activeThreads c') (us @ t # vs) \<and>
     enters_at (realtime (sdata c t)) (emptyListItem (activeThreads c)) (curInRound c) us vs)"

lemma hook_spec:
  assumes "ctl_rep c xs as r" "t \<in> set xs" "lastReadyStatus (sdata c t) \<longleftrightarrow> t \<in> set as" "\<forall>u\<in>set xs - {t}. in_step c as u"
  shows "\<exists>c'. IRQwaitStatusHook F t c = Some (Inr c') \<and> ckern c' = ckern c \<and> same_shape c c' \<and>
    ctl_inv c' (set xs) (status_round (t \<in> set as) (ready (ckern c) t) (realtime (sdata c t)) t r) \<and>
    (t \<notin> set as \<longrightarrow> ready (ckern c) t \<longrightarrow> entered c c' t as)"
proof -
  note D = ctl_repD [OF assms(1)]
  let ?st = "status_round (t \<in> set as) (ready (ckern c) t) (realtime (sdata c t)) t r"
  have fin: ?thesis if h: "IRQwaitStatusHook F t c = IRQrecalculateAlfa F c1" and "ctl_rep c1 xs as' ?st" "ckern c1 = ckern c"
    "\<forall>u\<in>set xs. in_step c1 as' u" "same_shape c c1" "t \<notin> set as \<longrightarrow> ready (ckern c) t \<longrightarrow> entered c c1 t as" for c1 as'
  proof -
    from recalculate_spec [OF that(2)] obtain f b where
      "IRQrecalculateAlfa F c1 = Some (Inr (c1\<lparr>sdata := \<lambda>t. (sdata c1 t)\<lparr>alfa := f t\<rparr>, reinitRegulator := b\<rparr>))" by blast
    moreover have "ctl_inv (c1\<lparr>sdata := \<lambda>t. (sdata c1 t)\<lparr>alfa := f t\<rparr>, reinitRegulator := b\<rparr>) (set xs) ?st"
      unfolding ctl_inv_def by (intro exI [of _ xs] exI [of _ as']) (use that in simp)
    ultimately show ?thesis using h that(3,5,6) by (simp add: same_shape_def entered_def)
  qed
  consider "ready (ckern c) t" "t \<notin> set as" | "\<not> ready (ckern c) t" "t \<in> set as" | "t \<in> set as \<longleftrightarrow> ready (ckern c) t" by blast
  then show ?thesis
  proof cases
    case 1
    have "t \<notin> insert (emptyListItem (activeThreads c)) (set as)" "atl_t (sdata c t) = Some t" using D(6,8) assms(2) 1(2) by auto
    from add_active_spec [OF D(4,5) this] obtain l p as' where a: "addThreadToActiveList t c = Inr (c\<lparr>activeThreads := l, curInRound := p\<rparr>)"
      "rep l as'" "emptyListItem l = emptyListItem (activeThreads c)" "set as' = insert t (set as)"
      "round_of (emptyListItem l) p as' (wake_round (realtime (sdata c t)) t r)"
      "\<exists>us vs. as = us @ vs \<and> as' = us @ t # vs \<and> enters_at (realtime (sdata c t)) (emptyListItem (activeThreads c)) (curInRound c) us vs"
      by blast
    show ?thesis
    proof (rule fin [of "upd_sdata t (\<lambda>d. d\<lparr>lastReadyStatus := True\<rparr>) (c\<lparr>activeThreads := l, curInRound := p\<rparr>)" as'])
      show "IRQwaitStatusHook F t c = IRQrecalculateAlfa F (upd_sdata t (\<lambda>d. d\<lparr>lastReadyStatus := True\<rparr>) (c\<lparr>activeThreads := l, curInRound := p\<rparr>))"
        using 1 a(1) assms(3) by (simp add: IRQwaitStatusHook_def)
      show "ctl_rep (upd_sdata t (\<lambda>d. d\<lparr>lastReadyStatus := True\<rparr>) (c\<lparr>activeThreads := l, curInRound := p\<rparr>)) xs as' ?st"
        by (rule ctl_rep_active [OF assms(1)]) (use a 1 D(7) assms(2) in \<open>simp_all add: status_round_def\<close>)
      show "t \<notin> set as \<longrightarrow> ready (ckern c) t \<longrightarrow>
          entered c (upd_sdata t (\<lambda>d. d\<lparr>lastReadyStatus := True\<rparr>) (c\<lparr>activeThreads := l, curInRound := p\<rparr>)) t as"
        using a(2,6) by (auto simp: entered_def)
    qed (use a(3,4) 1 assms(4) in \<open>auto simp: in_step_def same_shape_def\<close>)
  next
    case 2
    from rem_active_spec [OF D(4,5) 2(2)] obtain l p as' where a: "remThreadfromActiveList t c = Inr (c\<lparr>activeThreads := l, curInRound := p\<rparr>)"
      "rep l as'" "emptyListItem l = emptyListItem (activeThreads c)" "set as' = set as - {t}"
      "round_of (emptyListItem l) p as' (block_round t r)" by blast
    show ?thesis
    proof (rule fin [of "upd_sdata t (\<lambda>d. d\<lparr>lastReadyStatus := False\<rparr>) (c\<lparr>activeThreads := l, curInRound := p\<rparr>)" as'])
      show "IRQwaitStatusHook F t c = IRQrecalculateAlfa F (upd_sdata t (\<lambda>d. d\<lparr>lastReadyStatus := False\<rparr>) (c\<lparr>activeThreads := l, curInRound := p\<rparr>))"
        using 2 a(1) assms(3) by (simp add: IRQwaitStatusHook_def)
      show "ctl_rep (upd_sdata t (\<lambda>d. d\<lparr>lastReadyStatus := False\<rparr>) (c\<lparr>activeThreads := l, curInRound := p\<rparr>)) xs as' ?st"
        by (rule ctl_rep_active [OF assms(1)]) (use a 2 D(7) in \<open>auto simp: status_round_def\<close>)
    qed (use a(3,4) 2 assms(4) in \<open>auto simp: in_step_def same_shape_def\<close>)
  next
    case 3
    show ?thesis
    proof (rule fin [of c as])
      show "IRQwaitStatusHook F t c = IRQrecalculateAlfa F c" using 3 assms(3) by (auto simp: IRQwaitStatusHook_def)
      show "\<forall>u\<in>set xs. in_step c as u" using 3 assms(3,4) by (auto simp: in_step_def)
      have "?st = r" using 3 by (auto simp: status_round_def)
      then show "ctl_rep c xs as ?st" using assms(1) by simp
    qed (use 3 in \<open>simp_all add: same_shape_def\<close>)
  qed
qed

lemma ctl_set_flags_spec:
  assumes "ctl_inv c S r" "t \<in> S"
  shows "\<exists>c'. ctl_set_flags F t g c = Some (Inr c') \<and> ckern c' = upd_flags t g (ckern c) \<and>
    ctl_inv c' S (status_round (ready (ckern c) t) (isReady (g (flags (threads (ckern c) t)))) (realtime (sdata c t)) t r) \<and>
    (\<not> ready (ckern c) t \<longrightarrow> isReady (g (flags (threads (ckern c) t))) \<longrightarrow>
       (\<exists>as. rep (activeThreads c) as \<and> round_of (emptyListItem (activeThreads c)) (curInRound c) as r \<and>
          distinct (emptyListItem (activeThreads c) # as) \<and> entered c c' t as))"
proof -
  from assms obtain xs as where r0: "ctl_rep c xs as r" "set xs = S" "\<forall>t\<in>S. in_step c as t" unfolding ctl_inv_def by blast
  let ?c = "c\<lparr>ckern := upd_flags t g (ckern c)\<rparr>"
  have "nchain (\<lambda>x. snext (ckern ?c) x) xs = nchain (\<lambda>x. snext (ckern c) x) xs" by (rule nchain_cong) simp
  then have "ctl_rep ?c xs as r" using r0(1) unfolding ctl_rep_def by simp
  moreover have "lastReadyStatus (sdata ?c t) \<longleftrightarrow> t \<in> set as" "\<forall>u\<in>set xs - {t}. in_step ?c as u" "t \<in> set as \<longleftrightarrow> ready (ckern c) t"
    using r0 assms(2) by (auto simp: in_step_def)
  moreover have "entered ?c = entered c" by (simp add: entered_def fun_eq_iff)
  moreover note D = ctl_repD(4,5) [OF r0(1)] and repD(2) [OF ctl_repD(4) [OF r0(1)]]
  ultimately show ?thesis using hook_spec [of ?c xs as r t F] r0(2) assms(2) by (auto simp: ctl_set_flags_def)
qed

section \<open>Threads come and change priority\<close>

lemma wrap32_add: "wrap32 (wrap32 a + b) = wrap32 (a + b)" "wrap32 (b + wrap32 a) = wrap32 (b + a)" "wrap32 (wrap32 a - b) = wrap32 (a - b)"
  unfolding wrap32_def
  by (metis signed_take_bit_add signed_take_bit_signed_take_bit min.idem, metis signed_take_bit_add signed_take_bit_signed_take_bit min.idem,
      metis signed_take_bit_diff signed_take_bit_signed_take_bit min.idem)

text \<open>The constructor of a thread, before it is added.\<close>

definition construct :: "'f float_ops \<Rightarrow> nat \<Rightarrow> thread \<Rightarrow> 'f control \<Rightarrow> 'f control" where
  "construct F t th c = c\<lparr>ckern := upd_thread t (\<lambda>_. th) (ckern c), sdata := (sdata c)(t := new_sched_data F)\<rparr>"

lemma ctl_add_spec:
  assumes "ctl_inv c S r" "t \<notin> S" "t \<noteq> emptyListItem (activeThreads c)"
  shows "\<exists>c'. ctl_PKaddThread F t p (construct F t th c) = Some (Inr (c', True)) \<and>
    ctl_inv c' (insert t S) (status_round False (isReady (flags th)) (pgetRealtime p) t r) \<and>
    emptyListItem (activeThreads c') = emptyListItem (activeThreads c) \<and> realtime (sdata c' t) = pgetRealtime p"
proof -
  from assms(1) obtain xs as where r0: "ctl_rep c xs as r" "set xs = S" "\<forall>t\<in>S. in_step c as t" unfolding ctl_inv_def by blast
  note D = ctl_repD [OF r0(1)]
  have ta: "t \<notin> set as" using D(7) r0(2) assms(2) by blast
  define c0 where "c0 = upd_sdata t (\<lambda>d. d\<lparr>atl_t := Some t\<rparr>) (set_ctl_prio t p (construct F t th c))"
  define c1 where "c1 = c0\<lparr>ckern := set_snext t (threadList c0) (ckern c0), threadList := Some t, threadListSize := threadListSize c0 + 1,
    SP_Tr := wrap32 (SP_Tr c0 + bNominal)\<rparr>"
  note defs = c1_def c0_def construct_def
  have nx: "nchain (\<lambda>x. snext (ckern c1) x) xs = nchain (\<lambda>x. snext (ckern c) x) xs"
    by (rule nchain_cong) (use assms(2) r0(2) in \<open>auto simp: defs\<close>)
  have sl: "sleepingList (ckern c1) = sleepingList (ckern c)" by (simp add: defs set_snext_def set_prio_def)
  have sd: "sdata c1 u = sdata c u" if "u \<noteq> t" for u using that by (simp add: defs)
  have st: "atl_t (sdata c1 t) = Some t" "burst_ok (bo (sdata c1 t))" "realtime (sdata c1 t) = pgetRealtime p"
    "\<not> lastReadyStatus (sdata c1 t)" by (simp_all add: defs new_sched_data_def ctl_consts)
  have fl: "flags (threads (ckern c1) u) = (if u = t then flags th else flags (threads (ckern c) u))" for u
    by (simp add: defs)
  have fields: "threadList c1 = ptr_of (t # xs)" "snext (ckern c1) t = ptr_of xs" "activeThreads c1 = activeThreads c" "curInRound c1 = curInRound c"
    "threadListSize c1 = of_nat (length (t # xs))" "SP_Tr c1 = wrap32 (bNominal * int (length (t # xs)))"
    using r0(1) D(1) by (simp_all add: defs ctl_rep_def wrap32_add algebra_simps)
  have "\<forall>u\<in>set (t # xs). atl_t (sdata c1 u) = Some u \<and> burst_ok (bo (sdata c1 u))"
    using D(8,9) sd st assms(2) r0(2) by (metis set_ConsD)
  then have rep: "ctl_rep c1 (t # xs) as r"
    using r0 D nx sl fields assms(2,3) unfolding ctl_rep_def by auto
  have "\<forall>u\<in>set (t # xs) - {t}. in_step c1 as u" using r0 sd fl by (auto simp: in_step_def)
  from hook_spec [OF rep _ _ this, of F] st(3,4) ta fl obtain c' where c': "IRQwaitStatusHook F t c1 = Some (Inr c')"
    "ctl_inv c' (insert t S) (status_round False (isReady (flags th)) (pgetRealtime p) t r)" "same_shape c1 c'" using r0(2) by auto
  have "ctl_PKaddThread F t p (construct F t th c) = obind (IRQwaitStatusHook F t c1) (\<lambda>c. Some (Inr (c, True)))"
  proof -
    have "upd_sdata t (\<lambda>d. d\<lparr>lastReadyStatus := False\<rparr>) c1 = c1"
      using st(4) by (simp add: upd_sdata_def fun_upd_idem)
    then show ?thesis using st(4) unfolding ctl_PKaddThread_def Let_def IRQwaitStatusHook_def c0_def [symmetric] c1_def [symmetric]
      by (cases "ready (ckern c1) t") (simp_all add: obind_assoc)
  qed
  then show ?thesis using c' st(3) fields(3) by (simp add: same_shape_def)
qed

lemma recalculate_inv:
  assumes "ctl_rep c xs as r" "set xs = S" "\<forall>t\<in>S. in_step c as t"
  shows "\<exists>c'. IRQrecalculateAlfa F c = Some (Inr c') \<and> ctl_inv c' S r \<and> ckern c' = ckern c"
proof -
  from recalculate_spec [OF assms(1)] obtain f b where
    "IRQrecalculateAlfa F c = Some (Inr (c\<lparr>sdata := \<lambda>t. (sdata c t)\<lparr>alfa := f t\<rparr>, reinitRegulator := b\<rparr>))" by blast
  moreover have "ctl_inv (c\<lparr>sdata := \<lambda>t. (sdata c t)\<lparr>alfa := f t\<rparr>, reinitRegulator := b\<rparr>) S r"
    unfolding ctl_inv_def by (intro exI [of _ xs] exI [of _ as]) (use assms in simp)
  ultimately show ?thesis by simp
qed

lemma set_ctl_prio_rep:
  assumes "ctl_rep c xs as r"
  shows "ctl_rep (set_ctl_prio t p c) xs as r" "in_step (set_ctl_prio t p c) as u = in_step c as u"
proof -
  have "nchain (\<lambda>x. snext (ckern (set_ctl_prio t p c)) x) xs = nchain (\<lambda>x. snext (ckern c) x) xs" by (rule nchain_cong) simp
  moreover have "sleepingList (set_prio t (pget p) (ckern c)) = sleepingList (ckern c)" by (simp add: set_prio_def)
  ultimately show "ctl_rep (set_ctl_prio t p c) xs as r" using assms unfolding ctl_rep_def by auto
  show "in_step (set_ctl_prio t p c) as u = in_step c as u" by (simp add: in_step_def)
qed

lemma ctl_setPriority_spec:
  assumes "ctl_inv c S r"
  shows "\<exists>c'. ctl_PKsetPriority F t p c = Some (Inr c') \<and> ctl_inv c' S r"
proof -
  from assms obtain xs as where r0: "ctl_rep c xs as r" "set xs = S" "\<forall>t\<in>S. in_step c as t" unfolding ctl_inv_def by blast
  then show ?thesis using recalculate_inv [OF set_ctl_prio_rep(1) [OF r0(1), of t p] r0(2), of F] set_ctl_prio_rep(2) [OF r0(1)]
    by (auto simp: ctl_PKsetPriority_def)
qed

lemma ctl_setIdle_spec:
  assumes "ctl_inv c S r" "ctl_IRQsetIdleThread t c = Inr c'"
  shows "ctl_inv c' S (snd r @ fst r, [])"
proof -
  from assms(1) obtain xs as where r0: "ctl_rep c xs as r" "set xs = S" "\<forall>t\<in>S. in_step c as t" unfolding ctl_inv_def by blast
  define c1 where "c1 = set_ctl_prio t (ctl_priority_of (-1)) c"
  have c1: "ctl_rep c1 xs as r" "\<forall>t\<in>S. in_step c1 as t" "activeThreads c1 = activeThreads c"
    using set_ctl_prio_rep [OF r0(1)] r0(3) by (simp_all add: c1_def)
  have c': "c' = c1\<lparr>ckern := (ckern c1)\<lparr>idle := t\<rparr>, curInRound := end_it (activeThreads c1)\<rparr>"
    using assms(2) by (auto simp: ctl_IRQsetIdleThread_def Let_def c1_def split: if_splits)
  have "snd r @ fst r = as" using ctl_repD(5) [OF r0(1)] by (auto simp: round_of_def)
  then have "ctl_rep c' xs as (snd r @ fst r, [])" "\<forall>t\<in>S. in_step c' as t"
    using c1 unfolding c' by (auto simp: ctl_rep_def in_step_def round_of_def end_it_def)
  then show ?thesis unfolding ctl_inv_def using r0(2) by blast
qed

section \<open>Dead threads\<close>

text \<open>
  What the second loop of \<^verbatim>\<open>PKremoveDeadThreads\<close> does to the threads after the one \<^verbatim>\<open>it\<close> points to: those it keeps and
  those it frees. After freeing a thread it moves on without looking at the next one, and if there
  is none it dereferences the null pointer.
\<close>

fun sweep :: "('a \<Rightarrow> bool) \<Rightarrow> 'a list \<Rightarrow> ('a list \<times> 'a list) option" where
  "sweep D [] = Some ([], [])"
| "sweep D [d] = (if D d then None else Some ([d], []))"
| "sweep D (d # e # ws) =
     (if D d then map_option (\<lambda>(ks, fs). (e # ks, d # fs)) (sweep D ws)
      else map_option (\<lambda>(ks, fs). (d # ks, fs)) (sweep D (e # ws)))"

lemma sweep_set:
  "sweep D ws = Some (ks, fs) \<Longrightarrow> distinct ws \<Longrightarrow>
     set ks = set ws - set fs \<and> set fs \<subseteq> set ws \<and> (\<forall>x\<in>set fs. D x) \<and> distinct fs \<and> distinct ks \<and> length ks + length fs = length ws"
proof (induction D ws arbitrary: ks fs rule: sweep.induct)
  case (3 D d e ws)
  show ?case
  proof (cases "D d")
    case True
    then obtain ks' fs' where s: "sweep D ws = Some (ks', fs')" "ks = e # ks'" "fs = d # fs'" using "3.prems" by auto
    then show ?thesis using "3.IH"(1) [OF True s(1)] "3.prems"(2) True by auto
  next
    case False
    then obtain ks' fs' where s: "sweep D (e # ws) = Some (ks', fs')" "ks = d # ks'" "fs = fs'" using "3.prems" by auto
    have "d \<noteq> e" "d \<notin> set ws" "distinct (e # ws)" using "3.prems"(2) by auto
    then show ?thesis using "3.IH"(2) [OF False s(1)] s by auto
  qed
qed (auto split: if_splits)

lemma ctl_dead_rest_spec:
  assumes "nchain (\<lambda>x. snext (ckern c) x) (us @ a # ws)" "distinct (us @ a # ws)" "\<And>x. dead (ckern c) x = D x" "SP_Tr c = wrap32 y"
  shows "case sweep D ws of
      None \<Rightarrow> ctl_dead_rest (Some a) c = Some (Inl NullDeref)
    | Some (ks, fs) \<Rightarrow> \<exists>k'. ctl_dead_rest (Some a) c = Some (Inr (c\<lparr>ckern := k',
          threadListSize := threadListSize c - of_nat (length fs),
          SP_Tr := wrap32 (y - bNominal * int (length fs))\<rparr>)) \<and>
        nchain (\<lambda>x. snext k' x) (us @ a # ks) \<and> freed k' = freed (ckern c) @ fs \<and> sched_frame (ckern c) k'"
  using assms
proof (induction D ws arbitrary: us a c y rule: sweep.induct)
  case (1 D)
  then have "snext (ckern c) a = None" using nchain_append [of _ us "[a]"] by simp
  then have "ctl_dead_rest (Some a) c = Some (Inr c)" by (subst ctl_dead_rest.simps) simp
  moreover have "c\<lparr>ckern := ckern c, threadListSize := threadListSize c, SP_Tr := SP_Tr c\<rparr> = c" by simp
  ultimately show ?case using 1 by (auto intro!: exI [of _ "ckern c"])
next
  case (2 D d)
  have n: "snext (ckern c) a = Some d" "snext (ckern c) d = None" using nchain_append [OF "2.prems"(1)] by simp_all
  show ?case
  proof (cases "D d")
    case True
    then have "ctl_dead_rest (Some a) c = Some (Inl NullDeref)" using n "2.prems"(3)
      by (subst ctl_dead_rest.simps) (simp add: ctl_dead_rest.simps [of None])
    then show ?thesis using True by simp
  next
    case False
    then have "ctl_dead_rest (Some a) c = Some (Inr c)" using n "2.prems"(3)
      by (subst ctl_dead_rest.simps) (simp add: ctl_dead_rest.simps [of "Some d"])
    moreover have "c\<lparr>ckern := ckern c, threadListSize := threadListSize c, SP_Tr := SP_Tr c\<rparr> = c" by simp
    ultimately show ?thesis using False "2.prems" by (auto intro!: exI [of _ "ckern c"])
  qed
next
  case (3 D d e ws)
  have n: "snext (ckern c) a = Some d" "snext (ckern c) d = Some e" using nchain_append [OF "3.prems"(1)] by simp_all
  show ?case
  proof (cases "D d")
    case False
    have eq: "ctl_dead_rest (Some a) c = ctl_dead_rest (Some d) c" using n False "3.prems"(3) by (subst ctl_dead_rest.simps) simp
    have "nchain (\<lambda>x. snext (ckern c) x) ((us @ [a]) @ d # e # ws)" "distinct ((us @ [a]) @ d # e # ws)" using "3.prems" by simp_all
    from "3.IH"(2) [OF False this "3.prems"(3,4)] show ?thesis unfolding eq using False by (auto split: option.splits)
  next
    case True
    define c1 where "c1 = (one_thread_less c)\<lparr>ckern := free_thread d (set_snext a (snext (ckern c) d) (ckern c))\<rparr>"
    have "nchain (\<lambda>x. snext (ckern c1) x) (us @ a # e # ws)"
      using nchain_set_snext [of "ckern c" us a "[d]" "e # ws"] "3.prems"(1,2) n by (simp add: c1_def)
    then have ch: "nchain (\<lambda>x. snext (ckern c1) x) ((us @ [a]) @ e # ws)" by simp
    have eq: "ctl_dead_rest (Some a) c = ctl_dead_rest (Some e) c1"
      using n True "3.prems"(3) by (subst ctl_dead_rest.simps) (simp add: c1_def Let_def)
    have f: "sched_frame (ckern c) (ckern c1)" unfolding c1_def by (simp add: sched_frameI)
    have d: "distinct ((us @ [a]) @ e # ws)" "dead (ckern c1) x = D x" "SP_Tr c1 = wrap32 (y - bNominal)" for x
      using "3.prems" by (auto simp: c1_def one_thread_less_def wrap32_add)
    note IH = "3.IH"(1) [OF True ch d]
    show ?thesis
    proof (cases "sweep D ws")
      case None
      then show ?thesis using IH eq True by simp
    next
      case (Some kf)
      obtain ks fs where kf: "sweep D ws = Some (ks, fs)" using Some by (cases kf) auto
      with IH obtain k' where k': "ctl_dead_rest (Some e) c1 = Some (Inr (c1\<lparr>ckern := k', threadListSize := threadListSize c1 - of_nat (length fs),
          SP_Tr := wrap32 (y - bNominal - bNominal * int (length fs))\<rparr>))" "nchain (\<lambda>x. snext k' x) ((us @ [a]) @ e # ks)"
        "freed k' = freed (ckern c1) @ fs" "sched_frame (ckern c1) k'" by auto
      moreover have "c1\<lparr>ckern := k', threadListSize := threadListSize c1 - of_nat (length fs), SP_Tr := wrap32 (y - bNominal - bNominal * int (length fs))\<rparr>
        = c\<lparr>ckern := k', threadListSize := threadListSize c - of_nat (length (d # fs)), SP_Tr := wrap32 (y - bNominal * int (length (d # fs)))\<rparr>"
        by (simp add: c1_def one_thread_less_def algebra_simps)
      ultimately show ?thesis using kf eq True sched_frame_trans [OF f k'(4)] by (auto simp: c1_def)
    qed
  qed
qed

lemma ctl_dead_front_spec:
  assumes "threadList c = ptr_of xs" "nchain (\<lambda>x. snext (ckern c) x) xs" "\<And>x. dead (ckern c) x = D x" "SP_Tr c = wrap32 y"
  shows "ctl_dead_front c = Some (c\<lparr>threadList := ptr_of (dropWhile D xs), ckern := (ckern c)\<lparr>freed := freed (ckern c) @ takeWhile D xs\<rparr>,
    threadListSize := threadListSize c - of_nat (length (takeWhile D xs)), SP_Tr := wrap32 (y - bNominal * int (length (takeWhile D xs)))\<rparr>)"
  using assms
proof (induction xs arbitrary: c y)
  case Nil
  then show ?case by (subst ctl_dead_front.simps) simp
next
  case (Cons x xs)
  show ?case
  proof (cases "D x")
    case False
    then show ?thesis using Cons.prems by (subst ctl_dead_front.simps) simp
  next
    case True
    define c1 where "c1 = (one_thread_less c)\<lparr>threadList := snext (ckern c) x, ckern := free_thread x (ckern c)\<rparr>"
    have "ctl_dead_front c1 = Some (c1\<lparr>threadList := ptr_of (dropWhile D xs), ckern := (ckern c1)\<lparr>freed := freed (ckern c1) @ takeWhile D xs\<rparr>,
      threadListSize := threadListSize c1 - of_nat (length (takeWhile D xs)), SP_Tr := wrap32 (y - bNominal - bNominal * int (length (takeWhile D xs)))\<rparr>)"
      by (rule Cons.IH) (use Cons.prems in \<open>simp_all add: c1_def one_thread_less_def wrap32_add\<close>)
    moreover have "ctl_dead_front c = ctl_dead_front c1" using Cons.prems True by (subst ctl_dead_front.simps) (simp add: c1_def)
    ultimately show ?thesis using True by (simp add: c1_def one_thread_less_def free_thread_def algebra_simps)
  qed
qed

text \<open>The whole of \<^verbatim>\<open>PKremoveDeadThreads\<close> on the list of threads: what it keeps and what it frees, if it returns.\<close>

definition collect_list :: "('a \<Rightarrow> bool) \<Rightarrow> 'a list \<Rightarrow> ('a list \<times> 'a list) option" where
  "collect_list D xs =
     (case dropWhile D xs of
        [] \<Rightarrow> Some ([], takeWhile D xs)
      | a # ws \<Rightarrow> map_option (\<lambda>(ks, fs). (a # ks, takeWhile D xs @ fs)) (sweep D ws))"

lemma collect_list_set:
  assumes "collect_list D xs = Some (ks, fs)" "distinct xs"
  shows "set ks = set xs - set fs" "set fs \<subseteq> {x \<in> set xs. D x}" "distinct fs" "distinct ks" "length ks + length fs = length xs"
proof -
  have x: "xs = takeWhile D xs @ dropWhile D xs" by simp
  have "distinct (takeWhile D xs @ dropWhile D xs)" using assms(2) by simp
  then have d: "distinct (takeWhile D xs)" "distinct (dropWhile D xs)" "set (takeWhile D xs) \<inter> set (dropWhile D xs) = {}"
    unfolding distinct_append by blast+
  have t: "D y" if "y \<in> set (takeWhile D xs)" for y using that by (rule set_takeWhileD [THEN conjunct2])
  have "set ks = set xs - set fs \<and> set fs \<subseteq> {x \<in> set xs. D x} \<and> distinct fs \<and> distinct ks \<and> length ks + length fs = length xs"
  proof (cases "dropWhile D xs")
    case Nil
    then have tw: "takeWhile D xs = xs" using x by simp
    then have "ks = [] \<and> fs = xs" using assms(1) unfolding collect_list_def Nil tw by simp
    then show ?thesis using assms(2) t unfolding tw by auto
  next
    case (Cons a ws)
    then obtain gs where s: "sweep D ws = Some (tl ks, gs)" "ks = a # tl ks" "fs = takeWhile D xs @ gs"
      using assms(1) by (auto simp: collect_list_def)
    have "distinct ws" "a \<notin> set ws" using d(2) Cons by auto
    note W = sweep_set [OF s(1) this(1)]
    have a: "set xs = set (takeWhile D xs) \<union> insert a (set ws)" "length xs = length (takeWhile D xs) + Suc (length ws)"
      using arg_cong [OF x, of set] arg_cong [OF x, of length] Cons by simp_all
    have k: "set ks = insert a (set (tl ks))" "length ks = Suc (length (tl ks))" "distinct ks = (a \<notin> set (tl ks) \<and> distinct (tl ks))"
      by (subst s(2), simp)+
    show ?thesis unfolding k s(3) set_append distinct_append length_append a
      using W d Cons t \<open>a \<notin> set ws\<close> by auto
  qed
  then show "set ks = set xs - set fs" "set fs \<subseteq> {x \<in> set xs. D x}" "distinct fs" "distinct ks" "length ks + length fs = length xs" by blast+
qed

lemma dead_not_ready: "dead k t \<Longrightarrow> \<not> ready k t"
  by (simp add: isDeleted_bits isReady_bits)

lemma collected_inv:
  assumes "ctl_rep c xs as r" "\<forall>t\<in>set xs. in_step c as t" "collect_list (dead (ckern c)) xs = Some (ks, fs)"
    and k: "nchain (\<lambda>x. snext k' x) ks" "sched_frame (ckern c) k'"
  defines "c2 \<equiv> c\<lparr>threadList := ptr_of ks, ckern := k', threadListSize := threadListSize c - of_nat (length fs),
    SP_Tr := wrap32 (bNominal * int (length xs) - bNominal * int (length fs))\<rparr>"
  shows "ctl_rep c2 ks as r" "\<forall>t\<in>set ks. in_step c2 as t"
proof -
  note D = ctl_repD [OF assms(1)]
  note K = collect_list_set [OF assms(3) D(3)]
  have "t \<notin> set fs" if "t \<in> set as" for t
    using K(2) that assms(2) D(7) dead_not_ready [of "ckern c" t] by (auto simp: in_step_def)
  then have "set as \<subseteq> set ks" using K(1) D(7) by auto
  moreover have "of_nat (length xs) - of_nat (length fs) = (of_nat (length ks) :: u32)" "int (length xs) - int (length fs) = int (length ks)"
    using K(5) by (simp_all flip: K(5))
  then have "threadListSize c - of_nat (length fs) = of_nat (length ks)"
    "wrap32 (bNominal * int (length xs) - bNominal * int (length fs)) = wrap32 (bNominal * int (length ks))"
    using assms(1) by (simp_all add: ctl_rep_def flip: right_diff_distrib)
  ultimately show "ctl_rep c2 ks as r"
    using assms(1) K(1,4) k(1) sched_frame_fields(10) [OF k(2)] by (auto simp: ctl_rep_def c2_def)
  show "\<forall>t\<in>set ks. in_step c2 as t" using assms(2) K(1) sched_frame_fields(1) [OF k(2)] by (auto simp: in_step_def c2_def)
qed

lemma ctl_collect_spec:
  assumes "ctl_rep c xs as r" "\<forall>t\<in>set xs. in_step c as t"
  shows "case collect_list (dead (ckern c)) xs of
      None \<Rightarrow> ctl_PKremoveDeadThreads F c = Some (Inl NullDeref)
    | Some (ks, fs) \<Rightarrow> \<exists>c'. ctl_PKremoveDeadThreads F c = Some (Inr c') \<and> ctl_inv c' (set ks) r \<and>
        freed (ckern c') = freed (ckern c) @ fs \<and> sched_frame (ckern c) (ckern c')"
proof -
  note D = ctl_repD [OF assms(1)]
  let ?D = "dead (ckern c)" let ?fs = "takeWhile ?D xs" let ?y = "bNominal * int (length xs)"
  define c1 where "c1 = c\<lparr>threadList := ptr_of (dropWhile ?D xs), ckern := (ckern c)\<lparr>freed := freed (ckern c) @ ?fs\<rparr>,
    threadListSize := threadListSize c - of_nat (length ?fs), SP_Tr := wrap32 (?y - bNominal * int (length ?fs))\<rparr>"
  have front: "ctl_dead_front c = Some c1" unfolding c1_def
    by (rule ctl_dead_front_spec) (use assms(1) D in \<open>simp_all add: ctl_rep_def\<close>)
  have f1: "sched_frame (ckern c) (ckern c1)" by (simp add: c1_def sched_frame_def)
  have "nchain (\<lambda>x. snext (ckern c) x) (?fs @ dropWhile ?D xs)" using D(2) by simp
  then have ch: "nchain (\<lambda>x. snext (ckern c1) x) (dropWhile ?D xs)" using nchain_append by (fastforce simp: c1_def)
  have fin: "\<exists>c'. IRQrecalculateAlfa F c2 = Some (Inr c') \<and> ctl_inv c' (set ks) r \<and> ckern c' = k'"
    if "collect_list ?D xs = Some (ks, fs)" "nchain (\<lambda>x. snext k' x) ks" "sched_frame (ckern c) k'"
      "c2 = c\<lparr>threadList := ptr_of ks, ckern := k', threadListSize := threadListSize c - of_nat (length fs),
        SP_Tr := wrap32 (?y - bNominal * int (length fs))\<rparr>" for ks fs k' c2
    using recalculate_inv [OF collected_inv(1) [OF assms that(1-3)] refl collected_inv(2) [OF assms that(1-3)], of F] that(4) by simp
  show ?thesis
  proof (cases "dropWhile ?D xs")
    case Nil
    then have "ctl_PKremoveDeadThreads F c = IRQrecalculateAlfa F c1" "collect_list ?D xs = Some ([], ?fs)"
      using front by (simp_all add: ctl_PKremoveDeadThreads_def c1_def collect_list_def del: dropWhile_eq_Nil_conv)
    moreover from fin [OF this(2) _ f1, of c1] Nil have "\<exists>c'. IRQrecalculateAlfa F c1 = Some (Inr c') \<and> ctl_inv c' (set []) r \<and> ckern c' = ckern c1"
      by (simp add: c1_def del: dropWhile_eq_Nil_conv)
    ultimately show ?thesis using f1 by (auto simp: c1_def)
  next
    case (Cons a ws)
    have ch': "nchain (\<lambda>x. snext (ckern c1) x) ([] @ a # ws)" "distinct ([] @ a # ws)" "SP_Tr c1 = wrap32 (?y - bNominal * int (length ?fs))"
      using ch D(3) Cons distinct_dropWhile [OF D(3), of ?D] by (simp_all add: c1_def)
    have d: "dead (ckern c1) x = ?D x" for x by (simp add: c1_def)
    have eq: "ctl_PKremoveDeadThreads F c = obind (ctl_dead_rest (Some a) c1) (IRQrecalculateAlfa F)"
      using front Cons by (simp add: ctl_PKremoveDeadThreads_def c1_def)
    note R = ctl_dead_rest_spec [OF ch'(1,2) d ch'(3)]
    show ?thesis
    proof (cases "sweep ?D ws")
      case None
      then show ?thesis using R eq Cons by (simp add: collect_list_def)
    next
      case (Some kf)
      obtain ks gs where kf: "sweep ?D ws = Some (ks, gs)" using Some by (cases kf) auto
      with R obtain k' where k': "ctl_dead_rest (Some a) c1 = Some (Inr (c1\<lparr>ckern := k', threadListSize := threadListSize c1 - of_nat (length gs),
          SP_Tr := wrap32 (?y - bNominal * int (length ?fs) - bNominal * int (length gs))\<rparr>))" "nchain (\<lambda>x. snext k' x) (a # ks)"
        "freed k' = freed (ckern c1) @ gs" "sched_frame (ckern c1) k'" by auto
      have cl: "collect_list ?D xs = Some (a # ks, ?fs @ gs)" using kf Cons by (simp add: collect_list_def)
      let ?c2 = "c1\<lparr>ckern := k', threadListSize := threadListSize c1 - of_nat (length gs),
          SP_Tr := wrap32 (?y - bNominal * int (length ?fs) - bNominal * int (length gs))\<rparr>"
      have "?c2 = c\<lparr>threadList := ptr_of (a # ks), ckern := k', threadListSize := threadListSize c - of_nat (length (?fs @ gs)),
          SP_Tr := wrap32 (?y - bNominal * int (length (?fs @ gs)))\<rparr>" using Cons by (simp add: c1_def algebra_simps)
      from fin [OF cl k'(2) sched_frame_trans [OF f1 k'(4)] this] obtain c' where
        "IRQrecalculateAlfa F ?c2 = Some (Inr c')" "ctl_inv c' (set (a # ks)) r" "ckern c' = k'" by blast
      then show ?thesis using eq k'(1,3) cl sched_frame_trans [OF f1 k'(4)] by (auto simp: c1_def)
    qed
  qed
qed

section \<open>Runs of the scheduler\<close>

text \<open>
  The states the scheduler goes through, with its threads: a thread is
  created and added, the flags of a thread change, and so on. \<open>outside\<close> stands for the parts of the kernel
  that the scheduler only reads.
\<close>

inductive ctl_reach :: "'f float_ops \<Rightarrow> 'f control \<Rightarrow> nat set \<Rightarrow> bool" for F where
  start: "rep (sleepingList k) sl \<Longrightarrow> ctl_reach F (ctl_init F k h e) {}"
| add: "ctl_reach F c S \<Longrightarrow> t \<notin> S \<Longrightarrow> t \<noteq> emptyListItem (activeThreads c) \<Longrightarrow>
    ctl_PKaddThread F t p (construct F t th c) = Some (Inr (c', b)) \<Longrightarrow> ctl_reach F c' (insert t S)"
| idle: "ctl_reach F c S \<Longrightarrow> ctl_IRQsetIdleThread t c = Inr c' \<Longrightarrow> ctl_reach F c' S"
| prio: "ctl_reach F c S \<Longrightarrow> ctl_PKsetPriority F t p c = Some (Inr c') \<Longrightarrow> ctl_reach F c' S"
| flags: "ctl_reach F c S \<Longrightarrow> t \<in> S \<Longrightarrow> ctl_set_flags F t g c = Some (Inr c') \<Longrightarrow> ctl_reach F c' S"
| collect: "ctl_reach F c S \<Longrightarrow> ctl_PKremoveDeadThreads F c = Some (Inr c') \<Longrightarrow> freed (ckern c') = freed (ckern c) @ fs \<Longrightarrow>
    ctl_reach F c' (S - set fs)"
| switch: "ctl_reach F c S \<Longrightarrow> kernel_running (ckern c) = 0 \<Longrightarrow> ctl_IRQfindNextThread F t0 t1 c = Some (Inr (c', v)) \<Longrightarrow>
    ctl_reach F c' S"
| outside: "ctl_reach F c S \<Longrightarrow> rep l sl \<Longrightarrow>
    ctl_reach F (c\<lparr>ckern := (ckern c)\<lparr>kernel_running := n, sleepingList := l, sleepData := sd\<rparr>\<rparr>) S"

lemma ctl_inv_collect:
  assumes "ctl_inv c S r" "ctl_PKremoveDeadThreads F c = Some (Inr c')"
  shows "\<exists>fs. freed (ckern c') = freed (ckern c) @ fs \<and> ctl_inv c' (S - set fs) r \<and> distinct fs \<and> set fs \<subseteq> {t \<in> S. dead (ckern c) t}"
proof -
  from assms(1) obtain xs as where r0: "ctl_rep c xs as r" "set xs = S" "\<forall>t\<in>S. in_step c as t" unfolding ctl_inv_def by blast
  have r1: "\<forall>t\<in>set xs. in_step c as t" using r0(2,3) by simp
  obtain ks fs where cl: "collect_list (dead (ckern c)) xs = Some (ks, fs)"
    using ctl_collect_spec [OF r0(1) r1, of F] assms(2) by (auto split: option.splits)
  have "ctl_inv c' (set ks) r \<and> freed (ckern c') = freed (ckern c) @ fs"
    using ctl_collect_spec [OF r0(1) r1, of F] assms(2) unfolding cl by auto
  moreover note collect_list_set [OF cl ctl_repD(3) [OF r0(1)]]
  ultimately show ?thesis using r0(2) by auto
qed

lemma ctl_inv_outside:
  assumes "ctl_inv c S r" "rep l sl"
  shows "ctl_inv (c\<lparr>ckern := (ckern c)\<lparr>kernel_running := n, sleepingList := l, sleepData := sd\<rparr>\<rparr>) S r"
proof -
  from assms(1) obtain xs as where r0: "ctl_rep c xs as r" "set xs = S" "\<forall>t\<in>S. in_step c as t" unfolding ctl_inv_def by blast
  then show ?thesis unfolding ctl_inv_def using assms(2)
    by (intro exI [of _ xs] exI [of _ as]) (auto simp: ctl_rep_def in_step_def)
qed

lemma ctl_reach_inv: "ctl_reach F c S \<Longrightarrow> \<exists>r. ctl_inv c S r"
proof (induction rule: ctl_reach.induct)
  case (start k sl h e)
  have "emptyListItem (new_list h e) = e" by (simp add: new_list_def)
  with start have "ctl_rep (ctl_init F k h e) [] [] ([], [])"
    by (auto simp: ctl_rep_def ctl_init_def rep_new_list round_of_def wrap32_def)
  then show ?case unfolding ctl_inv_def by fastforce
next
  case (add c S t p th c' b)
  then obtain r where "ctl_inv c S r" by blast
  from ctl_add_spec [OF this add.hyps(2,3), of F p th] obtain c'' where
    c'': "ctl_PKaddThread F t p (construct F t th c) = Some (Inr (c'', True))"
      "ctl_inv c'' (insert t S) (status_round False (isReady (flags th)) (pgetRealtime p) t r)" by blast
  from c''(1) add.hyps(4) have "c' = c''" by simp
  with c''(2) show ?case by blast
next
  case (idle c S t c')
  then show ?case using ctl_setIdle_spec by blast
next
  case (prio c S t p c')
  then obtain r where "ctl_inv c S r" by blast
  from ctl_setPriority_spec [OF this, of F t p] prio.hyps(2) have "ctl_inv c' S r" by auto
  then show ?case by blast
next
  case (flags c S t g c')
  then obtain r where "ctl_inv c S r" by blast
  from ctl_set_flags_spec [OF this flags.hyps(2), of F g] obtain c'' r' where
    "ctl_set_flags F t g c = Some (Inr c'')" "ctl_inv c'' S r'" by blast
  with flags.hyps(3) have "ctl_inv c' S r'" by simp
  then show ?case by blast
next
  case (collect c S c' fs)
  then obtain r where "ctl_inv c S r" by blast
  from ctl_inv_collect [OF this collect.hyps(2)] collect.hyps(3) have "ctl_inv c' (S - set fs) r" by auto
  then show ?case by blast
next
  case (switch c S t0 t1 c' v)
  then obtain r where "ctl_inv c S r" by blast
  from ctl_find_spec [OF this switch.hyps(2), of F t0 t1] switch.hyps(3) have "ctl_inv c' S (next_round r)" by auto
  then show ?case by blast
next
  case (outside c S l sl n sd)
  then show ?case using ctl_inv_outside by blast
qed

text \<open>The list of active threads, the place in it, and what the switch makes of them.\<close>

lemma ctl_reach_active:
  assumes "ctl_reach F c S"
  shows "\<exists>as. rep (activeThreads c) as \<and> distinct as \<and> set as = {t \<in> S. ready (ckern c) t} \<and> emptyListItem (activeThreads c) \<notin> S
    \<and> curInRound c \<in> Some ` insert (emptyListItem (activeThreads c)) (set as)
    \<and> (kernel_running (ckern c) = 0 \<longrightarrow> (\<forall>t0 t1. \<exists>n c'. first_wakeup (ckern c) = Inr n
         \<and> ctl_IRQfindNextThread F t0 t1 c = Some (Inr (c', 0)) \<and> activeThreads c' = activeThreads c
         \<and> (case behind (emptyListItem (activeThreads c)) (curInRound c) as @ as of
              [] \<Rightarrow> cur (ckern c') = idle (ckern c) \<and> osTimerIrq (ckern c') = n \<and> curInRound c' = end_it (activeThreads c)
            | t # _ \<Rightarrow> cur (ckern c') = t \<and> curInRound c' = Some t
                \<and> (\<exists>burst. bMin \<le> burst \<and> burst \<le> bMax \<and> osTimerIrq (ckern c') = min n (t1 + burst)))))"
proof -
  from ctl_reach_inv [OF assms] obtain r where inv: "ctl_inv c S r" by blast
  then obtain xs as where r0: "ctl_rep c xs as r" "set xs = S" "\<forall>t\<in>S. in_step c as t" unfolding ctl_inv_def by blast
  note D = ctl_repD [OF r0(1)]
  let ?e = "emptyListItem (activeThreads c)"
  have d: "distinct (?e # as)" using repD(2) [OF D(4)] by simp
  have u: "upcoming r = [] \<longleftrightarrow> as = []" using round_of_set [OF D(5)] by (metis set_empty)
  have e: "hd (upcoming r) = hd (behind ?e (curInRound c) as @ as)" by (rule round_of_behind(2) [OF D(5) d])
  have find: "\<exists>n c'. first_wakeup (ckern c) = Inr n \<and> ctl_IRQfindNextThread F t0 t1 c = Some (Inr (c', 0))
         \<and> activeThreads c' = activeThreads c
         \<and> (case behind ?e (curInRound c) as @ as of
              [] \<Rightarrow> cur (ckern c') = idle (ckern c) \<and> osTimerIrq (ckern c') = n \<and> curInRound c' = end_it (activeThreads c)
            | t # _ \<Rightarrow> cur (ckern c') = t \<and> curInRound c' = Some t
                \<and> (\<exists>burst. bMin \<le> burst \<and> burst \<le> bMax \<and> osTimerIrq (ckern c') = min n (t1 + burst)))"
    if "kernel_running (ckern c) = 0" for t0 t1
  proof (cases "as = []")
    case True
    then have "behind ?e (curInRound c) as = []" "upcoming r = []" using u round_of_behind(1) [OF D(5) d] by simp_all
    then show ?thesis using ctl_find_spec [OF inv that, of F t0 t1] True by (auto simp: switch_result_def)
  next
    case False
    then obtain t us vs where "upcoming r = t # us" "behind ?e (curInRound c) as @ as = t # vs"
      using u e by (cases "upcoming r"; cases "behind ?e (curInRound c) as @ as") auto
    then show ?thesis using ctl_find_spec [OF inv that, of F t0 t1] by (auto simp: switch_result_def)
  qed
  show ?thesis
  proof (intro exI [of _ as] conjI impI allI find)
    show "set as = {t \<in> S. ready (ckern c) t}" using D(7) r0(2,3) by (auto simp: in_step_def)
    show "?e \<notin> S" using D(6) r0(2) by simp
    show "curInRound c \<in> Some ` insert ?e (set as)" using D(5) by (auto simp: round_of_def)
  qed (use D(4) d in simp_all)
qed

section \<open>Properties\<close>

text \<open>C10. The round of the control scheduler. In every state it reaches, whatever the floating point arithmetic computes,
  \<open>activeThreads\<close> holds exactly the ready threads, each once, and \<open>curInRound\<close> is one of them or the end of the list.
  If the kernel is not paused, \<open>IRQfindNextThread\<close> never takes the branch that the code marks as impossible: it returns
  0, keeps the list, and moves \<open>curInRound\<close> to the thread behind it in the list, from the end of the list to the first one.
  That thread runs, for a burst between \<open>bMin\<close> and \<open>bMax\<close> (or until the first wakeup, if that is earlier); the idle thread runs
  only when no thread is ready. (When the thread at \<open>curInRound\<close> blocks, \<open>curInRound\<close> moves to the thread behind it, which the
  switch then passes over: it does not run in that round.) \<open>PKexists\<close> finds the threads that are not dead, and changes of
  priority and of flags return; \<open>PKremoveDeadThreads\<close> frees only dead threads, each once.\<close>

theorem control_scheduler_round:
  assumes "ctl_reach F c S"
  shows "(\<exists>as. rep (activeThreads c) as \<and> distinct as \<and> set as = {t \<in> S. isReady (flags (threads (ckern c) t))}
      \<and> emptyListItem (activeThreads c) \<notin> S \<and> curInRound c \<in> Some ` insert (emptyListItem (activeThreads c)) (set as)
      \<and> (kernel_running (ckern c) = 0 \<longrightarrow> (\<forall>t0 t1. \<exists>n c'. first_wakeup (ckern c) = Inr n
         \<and> ctl_IRQfindNextThread F t0 t1 c = Some (Inr (c', 0)) \<and> activeThreads c' = activeThreads c
         \<and> (case behind (emptyListItem (activeThreads c)) (curInRound c) as @ as of
              [] \<Rightarrow> cur (ckern c') = idle (ckern c) \<and> osTimerIrq (ckern c') = n \<and> curInRound c' = end_it (activeThreads c)
            | t # _ \<Rightarrow> cur (ckern c') = t \<and> curInRound c' = Some t
                \<and> (\<exists>burst. bMin \<le> burst \<and> burst \<le> bMax \<and> osTimerIrq (ckern c') = min n (t1 + burst))))))
    \<and> (\<forall>t. ctl_PKexists (Some t) c = Some (t \<in> S \<and> \<not> isDeleted (flags (threads (ckern c) t))))
    \<and> (\<forall>t p. \<exists>c'. ctl_PKsetPriority F t p c = Some (Inr c'))
    \<and> (\<forall>t\<in>S. \<forall>g. \<exists>c'. ctl_set_flags F t g c = Some (Inr c'))
    \<and> (\<forall>c'. ctl_PKremoveDeadThreads F c = Some (Inr c') \<longrightarrow> (\<exists>fs. freed (ckern c') = freed (ckern c) @ fs
         \<and> distinct fs \<and> set fs \<subseteq> {t \<in> S. isDeleted (flags (threads (ckern c) t))}))"
proof -
  from ctl_reach_inv [OF assms] obtain r where inv: "ctl_inv c S r" by blast
  then obtain xs as where r0: "ctl_rep c xs as r" "set xs = S" "\<forall>t\<in>S. in_step c as t" unfolding ctl_inv_def by blast
  note D = ctl_repD [OF r0(1)]
  have "ctl_PKexists (Some t) c = Some (t \<in> S \<and> \<not> dead (ckern c) t)" for t
    using ctl_exists_loop_spec [OF D(2), of t] D(1) r0(2) by (simp add: ctl_PKexists_def)
  moreover have "\<exists>c'. ctl_PKsetPriority F t p c = Some (Inr c')" for t p using ctl_setPriority_spec [OF inv] by blast
  moreover have "\<exists>c'. ctl_set_flags F t g c = Some (Inr c')" if "t \<in> S" for t g using ctl_set_flags_spec [OF inv that] by blast
  moreover have "\<exists>fs. freed (ckern c') = freed (ckern c) @ fs \<and> distinct fs \<and> set fs \<subseteq> {t \<in> S. dead (ckern c) t}"
    if "ctl_PKremoveDeadThreads F c = Some (Inr c')" for c' using ctl_inv_collect [OF inv that] by blast
  ultimately show ?thesis using ctl_reach_active [OF assms] by (intro conjI) blast+
qed

text \<open>The arithmetic of the witnesses: exact rationals, rounded towards zero.\<close>

definition rat_ops :: "rat float_ops" where
  "rat_ops = \<lparr>f_lit = (\<lambda>n d. of_int n / of_int d), f_of_int = of_int, f_mul = (*), f_div = (/), f_sub = (-),
     f_to_int = (\<lambda>x. if x < 0 then - \<lfloor>- x\<rfloor> else \<lfloor>x\<rfloor>)\<rparr>"

text \<open>Two threads: the first is ready, the second waits.\<close>

lemma ctl_demo:
  "\<exists>c. ctl_reach rat_ops c {1, 2} \<and> kernel_running (ckern c) = 0 \<and> realtime (sdata c 2) = REALTIME_PRIORITY_IMMEDIATE
    \<and> {t \<in> {1, 2}. isReady (flags (threads (ckern c) t))} = {1}"
proof -
  have r0: "ctl_reach rat_ops (ctl_init rat_ops (boot_kernel 0 9) h 8) {}" for h
    by (rule ctl_reach.start [of _ "[]"]) (simp add: boot_kernel_def rep_new_list)
  obtain h :: "nat \<Rightarrow> list_item" where True by blast
  let ?c = "ctl_init rat_ops (boot_kernel 0 9) h 8" let ?w = "new_thread\<lparr>flags := 1\<rparr>"
  have e: "emptyListItem (activeThreads ?c) = 8" by (simp add: ctl_init_def new_list_def)
  have i0: "ctl_inv ?c {} ([], [])"
    unfolding ctl_inv_def by (intro exI [of _ "[]"])
      (auto simp: ctl_rep_def ctl_init_def new_list_def rep_new_list [unfolded new_list_def] round_of_def wrap32_def boot_kernel_def
         intro: exI [of _ "[]"])
  have f: "isReady (flags new_thread)" "\<not> isReady (flags ?w)" by (simp_all add: new_thread_def isReady_bits)
  from ctl_add_spec [OF i0, of 1 rat_ops "ctl_priority_of 1" new_thread] obtain c1 where
    c1: "ctl_PKaddThread rat_ops 1 (ctl_priority_of 1) (construct rat_ops 1 new_thread ?c) = Some (Inr (c1, True))"
      "emptyListItem (activeThreads c1) = 8" "ctl_inv c1 {1} ([1], [])"
    using e f by (auto simp: status_round_def ctl_priority_of_def realtime_consts)
  have r1: "ctl_reach rat_ops c1 {1}" using ctl_reach.add [OF r0 _ _ c1(1)] e by simp
  define p where "p = \<lparr>pget = 5, pgetRealtime = REALTIME_PRIORITY_IMMEDIATE\<rparr>"
  from ctl_add_spec [OF c1(3), of 2 rat_ops p ?w] c1(2) f obtain c2 where
    c2: "ctl_PKaddThread rat_ops 2 p (construct rat_ops 2 ?w c1) = Some (Inr (c2, True))" "realtime (sdata c2 2) = REALTIME_PRIORITY_IMMEDIATE"
      "ctl_inv c2 {2, 1} ([1], [])" by (auto simp: p_def status_round_def)
  have r2: "ctl_reach rat_ops c2 {1, 2}"
    using ctl_reach.add [OF r1 _ _ c2(1)] c1(2) by (simp add: insert_commute)
  have sl: "rep (sleepingList (boot_kernel 0 9)) []" by (simp add: boot_kernel_def rep_new_list)
  let ?d = "c2\<lparr>ckern := (ckern c2)\<lparr>kernel_running := 0, sleepingList := sleepingList (boot_kernel 0 9), sleepData := sleepData (ckern c2)\<rparr>\<rparr>"
  have "ctl_inv ?d {2, 1} ([1], [])" by (rule ctl_inv_outside [OF c2(3) sl])
  then obtain xs as where i: "ctl_rep ?d xs as ([1], [])" "set xs = {2, 1}" "\<forall>t\<in>{2, 1}. in_step ?d as t" unfolding ctl_inv_def by blast
  have "set as = {1}" using round_of_set [OF ctl_repD(5) [OF i(1)]] by simp
  then have "{t \<in> {1, 2}. isReady (flags (threads (ckern ?d) t))} = {1}" using i(3) unfolding in_step_def by auto
  moreover have "ctl_reach rat_ops ?d {1, 2}" by (rule ctl_reach.outside [OF r2 sl])
  ultimately show ?thesis using c2(2) by (intro exI [of _ ?d] conjI) simp_all
qed

theorem control_scheduler_round_witness:
  "\<exists>c S. ctl_reach rat_ops c S \<and> S = {1, 2} \<and> rep (activeThreads c) [1]
    \<and> (\<exists>c'. ctl_IRQfindNextThread rat_ops 5 7 c = Some (Inr (c', 0)) \<and> cur (ckern c') = 1)"
proof -
  obtain c where c: "ctl_reach rat_ops c {1, 2}" "kernel_running (ckern c) = 0"
    "{t \<in> {1, 2}. isReady (flags (threads (ckern c) t))} = {1}" using ctl_demo by blast
  from control_scheduler_round [OF c(1)] obtain as where as: "rep (activeThreads c) as" "distinct as"
    "set as = {t \<in> {1, 2}. isReady (flags (threads (ckern c) t))}" "emptyListItem (activeThreads c) \<notin> {1, 2}"
    "curInRound c \<in> Some ` insert (emptyListItem (activeThreads c)) (set as)"
    and find: "kernel_running (ckern c) = 0 \<longrightarrow> (\<forall>t0 t1. \<exists>n c'. first_wakeup (ckern c) = Inr n
         \<and> ctl_IRQfindNextThread rat_ops t0 t1 c = Some (Inr (c', 0)) \<and> activeThreads c' = activeThreads c
         \<and> (case behind (emptyListItem (activeThreads c)) (curInRound c) as @ as of
              [] \<Rightarrow> cur (ckern c') = idle (ckern c) \<and> osTimerIrq (ckern c') = n \<and> curInRound c' = end_it (activeThreads c)
            | t # _ \<Rightarrow> cur (ckern c') = t \<and> curInRound c' = Some t
                \<and> (\<exists>burst. bMin \<le> burst \<and> burst \<le> bMax \<and> osTimerIrq (ckern c') = min n (t1 + burst))))"
    by blast
  have s1: "set as = {1}" unfolding as(3) by (rule c(3))
  then have a1: "as = [1]" using as(2) by (cases as; cases "tl as") auto
  have "hd (behind (emptyListItem (activeThreads c)) (curInRound c) as @ as) = 1"
    using as(4,5) unfolding a1 by (auto simp: behind_def)
  moreover obtain x ys where "behind (emptyListItem (activeThreads c)) (curInRound c) as @ as = x # ys" using a1
    by (cases "behind (emptyListItem (activeThreads c)) (curInRound c) as @ as") auto
  ultimately have "\<exists>c'. ctl_IRQfindNextThread rat_ops 5 7 c = Some (Inr (c', 0)) \<and> cur (ckern c') = 1"
    using mp [OF find c(2), rule_format, of 5 7] by auto
  then show ?thesis using c(1) as(1) a1 by blast
qed



section \<open>Findings\<close>

text \<open>A list represents one sequence.\<close>

lemma linked_unique:
  "linked h (xs @ [e]) \<Longrightarrow> linked h (ys @ [e]) \<Longrightarrow> e \<notin> set xs \<Longrightarrow> e \<notin> set ys \<Longrightarrow> hd (xs @ [e]) = hd (ys @ [e]) \<Longrightarrow> xs = ys"
proof (induction xs arbitrary: ys)
  case Nil
  then show ?case by (cases ys) auto
next
  case (Cons x xs)
  then obtain ys' where y: "ys = x # ys'" by (cases ys) auto
  have l: "linked h (x # zs @ [e]) \<Longrightarrow> item_next (h x) = Some (hd (zs @ [e])) \<and> linked h (zs @ [e])" for zs by (cases zs) auto
  have "xs = ys'" by (rule Cons.IH) (use l [of xs] l [of ys'] Cons.prems y in simp_all)
  then show ?case using y by simp
qed

lemma rep_unique:
  assumes "rep l as" "rep l bs"
  shows "as = bs"
proof (rule linked_unique)
  show "linked (heap l) (as @ [emptyListItem l])" "linked (heap l) (bs @ [emptyListItem l])"
    using rep_splitD(2) [of l "[]"] assms by simp_all
  show "emptyListItem l \<notin> set as" "emptyListItem l \<notin> set bs" using repD(2) assms by auto
  show "hd (as @ [emptyListItem l]) = hd (bs @ [emptyListItem l])" using repD(3) [OF assms(1)] repD(3) [OF assms(2)] by simp
qed

text \<open>When the running thread \<open>t\<close> blocks, \<open>remThreadfromActiveList\<close> moves \<^verbatim>\<open>curInRound\<close> on to the thread \<open>w\<close> behind it and the switch
  moves it once more: \<open>x\<close> runs, and \<open>w\<close>, whose turn it was, does not run in this round.\<close>

theorem blocking_skips_the_next_thread:
  assumes "ctl_reach F c S" "rep (activeThreads c) (us @ t # w # x # ws)" "curInRound c = Some t"
    "t \<in> S" "\<not> isReady (g (flags (threads (ckern c) t)))" "kernel_running (ckern c) = 0"
  shows "\<exists>c' c''. ctl_set_flags F t g c = Some (Inr c') \<and> ctl_IRQfindNextThread F t0 t1 c' = Some (Inr (c'', 0)) \<and> cur (ckern c'') = x"
proof -
  from ctl_reach_inv [OF assms(1)] obtain r where inv: "ctl_inv c S r" by blast
  then obtain xs as where i: "ctl_rep c xs as r" "set xs = S" "\<forall>t\<in>S. in_step c as t" unfolding ctl_inv_def by blast
  note D = ctl_repD [OF i(1)]
  have as: "as = us @ t # w # x # ws" by (rule rep_unique [OF D(4) assms(2)])
  have d: "distinct (emptyListItem (activeThreads c) # as)" using repD(2) [OF D(4)] by simp
  have r: "r = (w # x # ws, us @ [t])"
    using D(5) unfolding round_of_def
  proof (elim disjE exE conjE)
    fix us' a ws' assume h: "as = us' @ a # ws'" "curInRound c = Some a" "r = (ws', us' @ [a])"
    have "t \<notin> set us" "t \<notin> set (w # x # ws)" using d unfolding as by auto
    from distinct_split_eq [OF this, of us' ws'] have "us' = us \<and> ws' = w # x # ws" using assms(3) as h(1,2) by simp
    then show ?thesis using h(2,3) assms(3) by simp
  qed (use d as assms(3) in auto)
  have "isReady (flags (threads (ckern c) t))" using i(3) assms(4) as by (auto simp: in_step_def)
  with ctl_set_flags_spec [OF inv assms(4), of F g] assms(5) r obtain c' where c': "ctl_set_flags F t g c = Some (Inr c')"
    "ckern c' = upd_flags t g (ckern c)" "ctl_inv c' S (x # ws, us @ [w])" by (auto simp: status_round_def)
  have "kernel_running (ckern c') = 0" using c'(2) assms(6) by simp
  from ctl_find_spec [OF c'(3) this, of F t0 t1] show ?thesis using c'(1) by (fastforce simp: switch_result_def)
qed

lemma sweep_last_dead: "(\<And>x. x \<in> set us \<Longrightarrow> \<not> D x) \<Longrightarrow> D d \<Longrightarrow> sweep D (us @ [d]) = None"
proof (induction us)
  case (Cons u us)
  then show ?case by (cases us) auto
qed simp

text \<open>If the only dead thread is the last of the list, and not the only one, \<^verbatim>\<open>PKremoveDeadThreads\<close> dereferences the null pointer.\<close>

theorem removing_the_last_thread_faults:
  assumes "ctl_rep c (a # us @ [d]) as r" "\<forall>t\<in>set (a # us @ [d]). in_step c as t"
    "\<forall>x\<in>set (a # us). \<not> isDeleted (flags (threads (ckern c) x))" "isDeleted (flags (threads (ckern c) d))"
  shows "ctl_PKremoveDeadThreads F c = Some (Inl NullDeref)"
proof -
  have "collect_list (dead (ckern c)) (a # us @ [d]) = None"
    using assms(3,4) sweep_last_dead [of us "dead (ckern c)" d] by (simp add: collect_list_def)
  with ctl_collect_spec [OF assms(1,2), of F] show ?thesis by simp
qed

end
