(* ===== verification/Kernel_Core.thy ===== *)
theory Kernel_Core
  imports Priority_Scheduler
begin

text \<open>
  The rest of \<^verbatim>\<open>kernel/kernel.cpp\<close>: nested disabling of interrupts and pausing of the kernel, the wait,
  terminate, detach and join operations of \<^verbatim>\<open>class Thread\<close>, thread creation and exit, and the body of
  the idle thread. An operation that ends in \<^verbatim>\<open>Thread::yield()\<close> returns with a flag saying so; a
  blocking operation is a turn that runs until it yields.
\<close>

section \<open>Interrupts and pausing\<close>

definition disableInterrupts :: "kernel \<Rightarrow> kernel result" where
  "disableInterrupts k =
     (let k = k\<lparr>interruptsEnabled := False\<rparr> in
      if interruptDisableNesting k = 0xff then Inl (ErrorHandler NESTING_OVERFLOW)
      else Inr (k\<lparr>interruptDisableNesting := interruptDisableNesting k + 1\<rparr>))"

definition enableInterrupts :: "kernel \<Rightarrow> kernel result" where
  "enableInterrupts k =
     (if interruptDisableNesting k = 0 then Inl (ErrorHandler DISABLE_INTERRUPTS_NESTING)
      else let k = k\<lparr>interruptDisableNesting := interruptDisableNesting k - 1\<rparr> in
        Inr (if interruptDisableNesting k = 0 \<and> kernel_started k
             then k\<lparr>interruptsEnabled := True\<rparr> else k))"

definition pauseKernel :: "kernel \<Rightarrow> kernel result" where
  "pauseKernel k =
     (let old = kernel_running k; k = k\<lparr>kernel_running := old + 1\<rparr> in
      if old \<ge> 0xff then Inl (ErrorHandler NESTING_OVERFLOW) else Inr k)"

text \<open>The flag returned: the missed preemption is made up for by a \<^verbatim>\<open>yield\<close>.\<close>

definition restartKernel :: "kernel \<Rightarrow> (kernel \<times> bool) result" where
  "restartKernel k =
     (let old = kernel_running k; k = k\<lparr>kernel_running := old - 1\<rparr> in
      if old \<le> 0 then Inl (ErrorHandler PAUSE_KERNEL_NESTING)
      else if interruptDisableNesting k = 0 \<and> old = 1 \<and> pendingWakeup k
      then Inr (k\<lparr>pendingWakeup := False\<rparr>, True)
      else Inr (k, False))"

definition areInterruptsEnabled :: "kernel \<Rightarrow> bool" where
  "areInterruptsEnabled k = interruptsEnabled k"

definition isKernelRunning :: "kernel \<Rightarrow> bool" where
  "isKernelRunning k \<longleftrightarrow> kernel_running k = 0 \<and> kernel_started k"

text \<open>The contract: two nesting depths, at most 255, and a preemption owed by the outermost restart.\<close>

datatype lock_req = Disable | Enable | Pause | Restart | MissPreemption

fun lock_spec :: "nat \<times> nat \<times> bool \<Rightarrow> lock_req \<Rightarrow> ((nat \<times> nat \<times> bool) \<times> bool) option" where
  "lock_spec (d, p, w) Disable = (if d < 255 then Some ((Suc d, p, w), False) else None)"
| "lock_spec (d, p, w) Enable = (if d > 0 then Some ((d - 1, p, w), False) else None)"
| "lock_spec (d, p, w) Pause = (if p < 255 then Some ((d, Suc p, w), False) else None)"
| "lock_spec (d, p, w) Restart =
     (if p = 0 then None
      else if d = 0 \<and> p = 1 \<and> w then Some ((d, 0, False), True) else Some ((d, p - 1, w), False))"
| "lock_spec (d, p, w) MissPreemption = (if p > 0 then Some ((d, p, True), False) else None)"

fun lock_impl :: "kernel \<Rightarrow> lock_req \<Rightarrow> (kernel \<times> bool) result" where
  "lock_impl k Disable = rbind (disableInterrupts k) (\<lambda>k. Inr (k, False))"
| "lock_impl k Enable = rbind (enableInterrupts k) (\<lambda>k. Inr (k, False))"
| "lock_impl k Pause = rbind (pauseKernel k) (\<lambda>k. Inr (k, False))"
| "lock_impl k Restart = restartKernel k"
| "lock_impl k MissPreemption = Inr (k\<lparr>pendingWakeup := True\<rparr>, False)"

definition lock_rel :: "kernel \<Rightarrow> nat \<times> nat \<times> bool \<Rightarrow> bool" where
  "lock_rel k = (\<lambda>(d, p, w).
     unat (interruptDisableNesting k) = d \<and> kernel_running k = int p \<and> pendingWakeup k = w \<and>
     (interruptsEnabled k \<longleftrightarrow> d = 0) \<and> kernel_started k)"

lemma unat_u8_succ: "unat n < 255 \<Longrightarrow> unat (n + 1 :: u8) = Suc (unat n)"
  by (simp add: unat_word_ariths)

interpretation locks: simulation lock_rel lock_impl lock_spec
proof unfold_locales
  fix k a q a' out
  assume R: "lock_rel k a" and S: "lock_spec a q = Some (a', out)"
  obtain d p w where a: "a = (d, p, w)" by (cases a) auto
  have n: "interruptDisableNesting k = 0xff \<longleftrightarrow> d = 255" "interruptDisableNesting k = 0 \<longleftrightarrow> d = 0"
    using R a by (auto simp: lock_rel_def simp flip: unat_inject)
  show "\<exists>k'. lock_impl k q = Inr (k', out) \<and> lock_rel k' a'"
  proof (cases q)
    case Disable
    with S a R n show ?thesis
      by (auto simp: lock_rel_def disableInterrupts_def Let_def unat_u8_succ split: if_splits)
  next
    case Enable
    then have d: "d > 0" and a': "a' = (d - 1, p, w)" "\<not> out" using S a by (auto split: if_splits)
    have u: "unat (interruptDisableNesting k - 1) = d - 1"
      using R a d n by (simp add: lock_rel_def unat_pred)
    then have "interruptDisableNesting k - 1 = 0 \<longleftrightarrow> d - 1 = 0" by (simp flip: unat_inject)
    with Enable d a a' R n u show ?thesis
      by (auto simp: lock_rel_def enableInterrupts_def Let_def)
  next
    case Restart
    with S a R n show ?thesis
      by (auto simp: lock_rel_def restartKernel_def Let_def split: if_splits)
  qed (use S a R in \<open>auto simp: lock_rel_def pauseKernel_def Let_def split: if_splits\<close>)
qed

section \<open>Waiting, terminating, detaching and joining\<close>

definition thread_wait :: "kernel \<Rightarrow> kernel" where
  "thread_wait k = upd_flags (cur k) (IRQsetWait True) k"

definition thread_wakeup :: "nat \<Rightarrow> kernel \<Rightarrow> kernel" where
  "thread_wakeup t k = upd_flags t (IRQsetWait False) k"

definition PKwakeup :: "nat \<Rightarrow> kernel \<Rightarrow> kernel" where
  "PKwakeup t k = upd_flags t (IRQsetWait False) k"

definition terminate :: "nat \<Rightarrow> kernel \<Rightarrow> kernel" where
  "terminate t k = upd_flags t IRQsetDeleting k"

definition testTerminate :: "kernel \<Rightarrow> bool" where
  "testTerminate k = isDeleting (flags (threads k (cur k)))"

text \<open>
  \<^verbatim>\<open>joinData\<close> is a union of the pointer \<^verbatim>\<open>waitingForJoin\<close> and of \<^verbatim>\<open>result\<close>: reading one while the other
  is stored reinterprets it.
\<close>

fun waitingForJoin :: "join_data \<Rightarrow> ptr" where
  "waitingForJoin (WaitingForJoin p) = p"
| "waitingForJoin (JoinResult r) = (if r = 0 then nullptr else Some r)"

fun join_result :: "join_data \<Rightarrow> nat" where
  "join_result (JoinResult r) = r"
| "join_result (WaitingForJoin p) = (case p of None \<Rightarrow> 0 | Some a \<Rightarrow> a)"

definition set_joinData :: "nat \<Rightarrow> join_data \<Rightarrow> kernel \<Rightarrow> kernel" where
  "set_joinData t d k = upd_thread t (\<lambda>th. th\<lparr>joinData := d\<rparr>) k"

definition detach :: "nat \<Rightarrow> kernel \<Rightarrow> kernel" where
  "detach t k =
     (let k = upd_flags t IRQsetDetached k;
          k = (if isDeletedJoin (flags (threads k t)) then k\<lparr>exist_deleted := True\<rparr> else k)
      in case waitingForJoin (joinData (threads k t)) of
           None \<Rightarrow> k
         | Some j \<Rightarrow>
             if \<not> isDeletedJoin (flags (threads k t)) then upd_flags j (IRQsetJoinWait False) k
             else k)"

datatype join_turn = Blocked | Returned "nat option"

definition join_complete :: "nat \<Rightarrow> kernel \<Rightarrow> (kernel \<times> join_turn) result option" where
  "join_complete t k =
     (let k = upd_flags t IRQsetDetached k; r = join_result (joinData (threads k t)) in
      obind (PKremoveDeadThreads k) (\<lambda>k. Some (Inr (k, Returned (Some r)))))"

definition join_block :: "kernel \<Rightarrow> (kernel \<times> join_turn) result option" where
  "join_block k = Some (Inr (upd_flags (cur k) (IRQsetJoinWait True) k, Blocked))"

text \<open>\<^verbatim>\<open>join\<close> up to its first \<^verbatim>\<open>yield\<close>, and a turn of its loop after one.\<close>

definition join_begin :: "nat \<Rightarrow> kernel \<Rightarrow> (kernel \<times> join_turn) result option" where
  "join_begin t k =
     (if t = cur k then Some (Inr (k, Returned None))
      else obind (PKexists t k) (\<lambda>ex.
        if \<not> ex then Some (Inr (k, Returned None))
        else if isDetached (flags (threads k t)) then Some (Inr (k, Returned None))
        else if \<not> isDeletedJoin (flags (threads k t))
        then if waitingForJoin (joinData (threads k t)) \<noteq> nullptr then Some (Inr (k, Returned None))
             else join_block (set_joinData t (WaitingForJoin (Some (cur k))) k)
        else join_complete t k))"

definition join_resume :: "nat \<Rightarrow> kernel \<Rightarrow> (kernel \<times> join_turn) result option" where
  "join_resume t k =
     obind (PKexists t k) (\<lambda>ex.
       if \<not> ex then Some (Inr (k, Returned None))
       else if isDetached (flags (threads k t)) then Some (Inr (k, Returned None))
       else if isDeletedJoin (flags (threads k t)) then join_complete t k
       else join_block k)"

text \<open>The end of \<^verbatim>\<open>threadLauncher\<close>: the entry point of the current thread returned \<open>result\<close>.\<close>

definition thread_exit :: "nat \<Rightarrow> kernel \<Rightarrow> kernel" where
  "thread_exit result k =
     (let c = cur k; k = upd_flags c IRQsetDeleted k in
      if \<not> isDetached (flags (threads k c))
      then let k = (case waitingForJoin (joinData (threads k c)) of
                      None \<Rightarrow> k
                    | Some j \<Rightarrow> upd_flags j (IRQsetJoinWait False) k)
           in set_joinData c (JoinResult result) k
      else k\<lparr>exist_deleted := True\<rparr>)"

text \<open>One turn of the idle thread's loop, before it puts the CPU to sleep.\<close>

definition idle_turn :: "kernel \<Rightarrow> kernel result option" where
  "idle_turn k =
     (if exist_deleted k then PKremoveDeadThreads (k\<lparr>exist_deleted := False\<rparr>) else Some (Inr k))"

section \<open>Thread creation\<close>

definition STACK_MIN :: u32 where "STACK_MIN = 256"

text \<open>
  The stack a thread gets (\<^verbatim>\<open>doCreate\<close>): watermark, saved context and requested size, rounded up to the
  alignment of the platform. The first three arguments are \<^verbatim>\<open>WATERMARK_LEN\<close>, \<^verbatim>\<open>CTXSAVE_ON_STACK\<close> and
  \<^verbatim>\<open>CTXSAVE_STACK_ALIGNMENT\<close>.
\<close>

definition fullStackSize :: "u32 \<Rightarrow> u32 \<Rightarrow> u32 \<Rightarrow> u32 \<Rightarrow> u32" where
  "fullStackSize wm ctx align stacksize =
     (let n = wm + ctx + stacksize; n = n + (align - 1); n = n div align in n * align)"

text \<open>
  \<open>mem\<close> is where \<^verbatim>\<open>malloc\<close> puts the thread object (null: out of memory) and \<open>reent\<close> whether its C
  reentrancy data could be allocated.
\<close>

definition doCreate :: "ptr \<Rightarrow> bool \<Rightarrow> bool \<Rightarrow> kernel \<Rightarrow> kernel \<times> ptr" where
  "doCreate mem reent joinable k =
     (case mem of
        None \<Rightarrow> (k, nullptr)
      | Some t \<Rightarrow>
          let k = upd_thread t (\<lambda>_. new_thread) k in
          if \<not> reent then (free_thread t k, nullptr)
          else (if \<not> joinable then upd_flags t IRQsetDetached k else k, Some t))"

definition thread_create ::
  "ptr \<Rightarrow> bool \<Rightarrow> u32 \<Rightarrow> int \<Rightarrow> bool \<Rightarrow> kernel \<Rightarrow> (kernel \<times> ptr) result" where
  "thread_create mem reent stacksize p joinable k =
     (if \<not> prio_validate p \<or> stacksize < STACK_MIN then Inr (k, nullptr)
      else case doCreate mem reent joinable k of
        (k, None) \<Rightarrow> Inr (k, nullptr)
      | (k, Some t) \<Rightarrow>
          rbind (PKaddThread t p k) (\<lambda>(k, ok).
          if \<not> ok then Inr (free_thread t k, nullptr) else Inr (k, Some t)))"

lemma fullStackSize_unat:
  assumes "0 < unat al" "unat wm + unat ctx + unat s + unat al \<le> 2 ^ 32"
  shows "unat (fullStackSize wm ctx al s) =
    (unat wm + unat ctx + unat s + (unat al - 1)) div unat al * unat al"
proof -
  have a: "al \<noteq> 0" using assms(1) by auto
  define n where "n = wm + ctx + s + (al - 1)"
  have al1: "unat (al - 1) = unat al - 1" by (rule unat_pred [OF a])
  have lt: "unat wm + unat ctx + unat s + (unat al - 1) < 2 ^ 32" using assms by linarith
  have u1: "unat (wm + ctx) = unat wm + unat ctx"
    using lt by (subst unat_add_lem [THEN iffD1]) simp_all
  have u2: "unat (wm + ctx + s) = unat wm + unat ctx + unat s"
    using lt u1 by (subst unat_add_lem [THEN iffD1]) simp_all
  have un: "unat n = unat wm + unat ctx + unat s + (unat al - 1)"
    using lt u2 al1 unfolding n_def by (subst unat_add_lem [THEN iffD1]) simp_all
  have "unat (n div al) * unat al \<le> unat n" by (simp add: unat_div)
  then have "unat (n div al) * unat al < 2 ^ 32" using un lt by linarith
  then have "unat (n div al * al) = unat (n div al) * unat al"
    by (subst unat_mult_lem [THEN iffD1]) simp_all
  then show ?thesis using un by (simp add: fullStackSize_def Let_def n_def unat_div)
qed

section \<open>The join protocol\<close>

datatype joiner = NotCalled | Waiting | Finished "nat option"

type_synonym join_sys = "kernel \<times> joiner \<times> nat option"

abbreviation fl :: "kernel \<Rightarrow> nat \<Rightarrow> u16" where
  "fl k t \<equiv> flags (threads k t)"

definition managed :: "nat \<Rightarrow> kernel \<Rightarrow> bool" where
  "managed T k \<longleftrightarrow> (\<exists>L. sched_rep k L \<and> (T \<in> set (concat L) \<or> dead k T))"

text \<open>
  Thread \<open>J\<close> joins thread \<open>T\<close>, which exits or is detached at any time; dead threads are reaped at any
  time. The rest of the kernel may do anything that leaves \<open>T\<close> in the scheduler, the status of \<open>T\<close>
  and its join data, and the join flag of \<open>J\<close>. The last component records the value \<open>T\<close> returned.
\<close>

inductive join_step :: "nat \<Rightarrow> nat \<Rightarrow> join_sys \<Rightarrow> join_sys \<Rightarrow> bool" for T J :: nat where
  call_blocks: "\<not> isWaitingJoin (fl k J) \<Longrightarrow>
    join_begin T (k\<lparr>cur := J\<rparr>) = Some (Inr (k', Blocked)) \<Longrightarrow>
    join_step T J (k, NotCalled, res) (k', Waiting, res)"
| call_returns: "\<not> isWaitingJoin (fl k J) \<Longrightarrow>
    join_begin T (k\<lparr>cur := J\<rparr>) = Some (Inr (k', Returned r)) \<Longrightarrow>
    join_step T J (k, NotCalled, res) (k', Finished r, res)"
| resume_blocks: "\<not> isWaitingJoin (fl k J) \<Longrightarrow>
    join_resume T (k\<lparr>cur := J\<rparr>) = Some (Inr (k', Blocked)) \<Longrightarrow>
    join_step T J (k, Waiting, res) (k', Waiting, res)"
| resume_returns: "\<not> isWaitingJoin (fl k J) \<Longrightarrow>
    join_resume T (k\<lparr>cur := J\<rparr>) = Some (Inr (k', Returned r)) \<Longrightarrow>
    join_step T J (k, Waiting, res) (k', Finished r, res)"
| exits: "\<not> isDeletedJoin (fl k T) \<Longrightarrow>
    join_step T J (k, j, res) (thread_exit r (k\<lparr>cur := T\<rparr>), j, Some r)"
| detaches: "join_step T J (k, j, res) (detach T k, j, res)"
| reaps: "PKremoveDeadThreads k = Some (Inr k') \<Longrightarrow> join_step T J (k, j, res) (k', j, res)"
| other: "managed T k' \<Longrightarrow> isDeletedJoin (fl k' T) = isDeletedJoin (fl k T) \<Longrightarrow>
    isDetached (fl k' T) = isDetached (fl k T) \<Longrightarrow> joinData (threads k' T) = joinData (threads k T) \<Longrightarrow>
    isWaitingJoin (fl k' J) = isWaitingJoin (fl k J) \<Longrightarrow>
    join_step T J (k, j, res) (k', j, res)"

definition join_inv :: "nat \<Rightarrow> nat \<Rightarrow> join_sys \<Rightarrow> bool" where
  "join_inv T J = (\<lambda>(k, j, res).
     managed T k \<and>
     (isDeletedJoin (fl k T) \<longleftrightarrow> res \<noteq> None) \<and>
     (isDeletedJoin (fl k T) \<and> \<not> isDetached (fl k T) \<longrightarrow> joinData (threads k T) = JoinResult (the res)) \<and>
     (isWaitingJoin (fl k J) \<longrightarrow> j = Waiting \<and> \<not> isDeletedJoin (fl k T) \<and> \<not> isDetached (fl k T)) \<and>
     (j = Waiting \<and> \<not> isDeletedJoin (fl k T) \<longrightarrow> joinData (threads k T) = WaitingForJoin (Some J)) \<and>
     (\<forall>r. j = Finished (Some r) \<longrightarrow> res = Some r \<and> dead k T))"

lemma set_joinData_simps [simp]:
  "flags (threads (set_joinData t d k) a) = flags (threads k a)"
  "joinData (threads (set_joinData t d k) a) = (if a = t then d else joinData (threads k a))"
  "cur (set_joinData t d k) = cur k"
  by (simp_all add: set_joinData_def)

lemma sched_rep_joinData [simp]: "sched_rep (set_joinData t d k) L = sched_rep k L"
  unfolding set_joinData_def by (rule sched_rep_cong) simp_all

lemma managedI:
  "managed T k \<Longrightarrow> (\<And>L. sched_rep k L \<Longrightarrow> sched_rep k' L) \<Longrightarrow> (dead k T \<Longrightarrow> dead k' T) \<Longrightarrow> managed T k'"
  by (auto simp: managed_def)

lemma managed_exists: "managed T k \<Longrightarrow> PKexists T k = Some (Inr (\<not> dead k T))"
  using PKexists_eq by (fastforce simp: managed_def)

lemma managed_reap:
  assumes "managed T k"
  shows "\<exists>k'. PKremoveDeadThreads k = Some (Inr k') \<and> sched_frame k k' \<and> managed T k'"
proof -
  obtain L where L: "sched_rep k L" "T \<in> set (concat L) \<or> dead k T"
    using assms by (auto simp: managed_def)
  from PKremoveDeadThreads_eq [OF L(1)] obtain k' where
    k': "PKremoveDeadThreads k = Some (Inr k')" "sched_rep k' (map (filter (\<lambda>t. \<not> dead k t)) L)"
      "sched_frame k k'" by blast
  have "T \<in> set (concat (map (filter (\<lambda>t. \<not> dead k t)) L)) \<or> dead k' T"
    using L(2) sched_frame_flags [OF k'(3), of T] by auto
  with k' show ?thesis unfolding managed_def by blast
qed

lemma join_complete_eq:
  assumes m: "managed T k" and d: "isDeletedJoin (fl k T)"
  shows "\<exists>k'. join_complete T k = Some (Inr (k', Returned (Some (join_result (joinData (threads k T)))))) \<and>
    managed T k' \<and> dead k' T \<and> (\<forall>t. isWaitingJoin (fl k' t) = isWaitingJoin (fl k t)) \<and>
    (\<forall>t. joinData (threads k' t) = joinData (threads k t))"
proof -
  let ?k = "upd_flags T IRQsetDetached k"
  have "managed T ?k" by (rule managedI [OF m]) (auto simp: isDeleted_status)
  from managed_reap [OF this] obtain k' where
    k': "PKremoveDeadThreads ?k = Some (Inr k')" "sched_frame ?k k'" "managed T k'" by blast
  note fr = sched_frame_fields(1,5) [OF k'(2)]
  have "join_complete T k = Some (Inr (k', Returned (Some (join_result (joinData (threads k T))))))"
    using k'(1) by (simp add: join_complete_def Let_def)
  moreover have "dead k' T" using d by (simp add: fr isDeleted_status)
  ultimately show ?thesis using k'(3) fr by auto
qed

text \<open>A join that finds its thread exited, gone or detached returns; otherwise it blocks.\<close>

lemma join_resume_eq:
  assumes m: "managed T k"
  shows "isDetached (fl k T) \<Longrightarrow> join_resume T k = Some (Inr (k, Returned None))"
    "\<not> isDetached (fl k T) \<Longrightarrow> isDeletedJoin (fl k T) \<Longrightarrow> join_resume T k = join_complete T k"
    "\<not> isDetached (fl k T) \<Longrightarrow> \<not> isDeletedJoin (fl k T) \<Longrightarrow> join_resume T k = join_block k"
  using managed_exists [OF m] by (auto simp: join_resume_def isDeleted_status)

lemma join_begin_eq:
  assumes m: "managed T k" and c: "cur k \<noteq> T"
  shows "isDetached (fl k T) \<Longrightarrow> join_begin T k = Some (Inr (k, Returned None))"
    "\<not> isDetached (fl k T) \<Longrightarrow> isDeletedJoin (fl k T) \<Longrightarrow> join_begin T k = join_complete T k"
    "\<not> isDetached (fl k T) \<Longrightarrow> \<not> isDeletedJoin (fl k T) \<Longrightarrow> join_begin T k =
       (if waitingForJoin (joinData (threads k T)) \<noteq> nullptr then Some (Inr (k, Returned None))
        else join_block (set_joinData T (WaitingForJoin (Some (cur k))) k))"
  using managed_exists [OF m] c by (auto simp: join_begin_def isDeleted_status)

lemma join_inv_done:
  assumes "join_inv T J (k, j, res)" "\<not> isWaitingJoin (fl k J)" "isDeletedJoin (fl k T)"
    "\<not> isDetached (fl k T)" "join_complete T (k\<lparr>cur := J\<rparr>) = Some (Inr (k', out))"
  shows "\<exists>r. out = Returned (Some r) \<and> join_inv T J (k', Finished (Some r), res)"
proof -
  have m: "managed T (k\<lparr>cur := J\<rparr>)" using assms(1) by (auto simp: join_inv_def intro: managedI)
  from join_complete_eq [OF m] assms show ?thesis
    by (auto simp: join_inv_def isDeleted_status)
qed

lemma join_inv_None:
  "join_inv T J (k, j, res) \<Longrightarrow> \<not> isWaitingJoin (fl k J) \<Longrightarrow>
     join_inv T J (k\<lparr>cur := c\<rparr>, Finished None, res)"
  by (auto simp: join_inv_def intro: managedI)

lemma join_inv_block:
  assumes "join_inv T J (k, j, res)" "\<not> isDeletedJoin (fl k T)" "\<not> isDetached (fl k T)"
    "join_block (set_joinData T (WaitingForJoin (Some J)) (k\<lparr>cur := J\<rparr>)) = Some (Inr (k', out))" "T \<noteq> J"
  shows "out = Blocked \<and> join_inv T J (k', Waiting, res)"
proof -
  have "k' = upd_flags J (IRQsetJoinWait True) (set_joinData T (WaitingForJoin (Some J)) (k\<lparr>cur := J\<rparr>))"
    "out = Blocked" using assms(4) by (auto simp: join_block_def)
  with assms show ?thesis by (auto simp: join_inv_def intro: managedI)
qed

lemma join_inv_block_again:
  assumes "join_inv T J (k, Waiting, res)" "\<not> isDeletedJoin (fl k T)" "\<not> isDetached (fl k T)"
    "join_block (k\<lparr>cur := J\<rparr>) = Some (Inr (k', out))" "T \<noteq> J"
  shows "out = Blocked \<and> join_inv T J (k', Waiting, res)"
proof -
  have "k' = upd_flags J (IRQsetJoinWait True) (k\<lparr>cur := J\<rparr>)" "out = Blocked"
    using assms(4) by (auto simp: join_block_def)
  with assms show ?thesis by (auto simp: join_inv_def intro: managedI)
qed

lemma join_call_inv:
  assumes inv: "join_inv T J (k, NotCalled, res)" and w: "\<not> isWaitingJoin (fl k J)" and d: "T \<noteq> J"
    and b: "join_begin T (k\<lparr>cur := J\<rparr>) = Some (Inr (k', out))"
  shows "join_inv T J (k', case out of Blocked \<Rightarrow> Waiting | Returned r \<Rightarrow> Finished r, res)"
proof -
  have m: "managed T (k\<lparr>cur := J\<rparr>)" using inv by (auto simp: join_inv_def intro: managedI)
  have c: "cur (k\<lparr>cur := J\<rparr>) \<noteq> T" using d by simp
  note jb = join_begin_eq [OF m c]
  consider (det) "isDetached (fl k T)" | (dn) "\<not> isDetached (fl k T)" "isDeletedJoin (fl k T)"
    | (live) "\<not> isDetached (fl k T)" "\<not> isDeletedJoin (fl k T)" by blast
  then show ?thesis
  proof cases
    case det
    with jb(1) b join_inv_None [OF inv w, of J] show ?thesis by auto
  next
    case dn
    with jb(2) b join_inv_done [OF inv w, of k' out] show ?thesis by auto
  next
    case live
    with jb(3) b join_inv_None [OF inv w, of J] join_inv_block [OF inv, of k' out] d show ?thesis
      by (auto split: if_splits)
  qed
qed

lemma join_resume_inv:
  assumes inv: "join_inv T J (k, Waiting, res)" and w: "\<not> isWaitingJoin (fl k J)" and d: "T \<noteq> J"
    and b: "join_resume T (k\<lparr>cur := J\<rparr>) = Some (Inr (k', out))"
  shows "join_inv T J (k', case out of Blocked \<Rightarrow> Waiting | Returned r \<Rightarrow> Finished r, res)"
proof -
  have m: "managed T (k\<lparr>cur := J\<rparr>)" using inv by (auto simp: join_inv_def intro: managedI)
  note jr = join_resume_eq [OF m]
  consider (det) "isDetached (fl k T)" | (dn) "\<not> isDetached (fl k T)" "isDeletedJoin (fl k T)"
    | (live) "\<not> isDetached (fl k T)" "\<not> isDeletedJoin (fl k T)" by blast
  then show ?thesis
  proof cases
    case det
    with jr(1) b join_inv_None [OF inv w, of J] show ?thesis by auto
  next
    case dn
    with jr(2) b join_inv_done [OF inv w, of k' out] show ?thesis by auto
  next
    case live
    with jr(3) b join_inv_block_again [OF inv, of k' out] d show ?thesis by auto
  qed
qed

lemma thread_exit_inv:
  assumes inv: "join_inv T J (k, j, res)" and live: "\<not> isDeletedJoin (fl k T)" and d: "T \<noteq> J"
  shows "join_inv T J (thread_exit r (k\<lparr>cur := T\<rparr>), j, Some r)"
proof -
  let ?k = "thread_exit r (k\<lparr>cur := T\<rparr>)"
  have nf: "j \<noteq> Finished (Some x)" for x using inv live by (auto simp: join_inv_def isDeleted_status)
  have mk: "managed T k" using inv by (simp add: join_inv_def)
  have s: "sched_rep ?k L = sched_rep k L" for L
    by (auto simp: thread_exit_def Let_def split: option.split)
  have "isDeletedJoin (fl ?k T)" "isDetached (fl ?k T) = isDetached (fl k T)"
    by (auto simp: thread_exit_def Let_def split: option.split)
  moreover from this have "managed T ?k"
    by (intro managedI [OF mk]) (simp_all add: s isDeleted_status)
  moreover have "\<not> isWaitingJoin (fl ?k J)"
    using inv live d by (auto simp: thread_exit_def Let_def join_inv_def split: option.split)
  moreover have "\<not> isDetached (fl k T) \<Longrightarrow> joinData (threads ?k T) = JoinResult r"
    by (simp add: thread_exit_def Let_def)
  ultimately show ?thesis using nf by (auto simp: join_inv_def)
qed

lemma detach_inv:
  assumes inv: "join_inv T J (k, j, res)" and d: "T \<noteq> J"
  shows "join_inv T J (detach T k, j, res)"
proof -
  let ?k = "detach T k"
  have mk: "managed T k" using inv by (simp add: join_inv_def)
  have s: "sched_rep ?k L = sched_rep k L" for L
    by (auto simp: detach_def Let_def split: option.split)
  have "isDetached (fl ?k T)" "isDeletedJoin (fl ?k T) = isDeletedJoin (fl k T)"
    "joinData (threads ?k T) = joinData (threads k T)"
    by (auto simp: detach_def Let_def split: option.split)
  moreover from this have "managed T ?k"
    by (intro managedI [OF mk]) (simp_all add: s isDeleted_status)
  moreover have "\<not> isWaitingJoin (fl ?k J)"
    using inv d by (auto simp: detach_def Let_def join_inv_def split: option.split)
  ultimately show ?thesis using inv by (auto simp: join_inv_def isDeleted_status)
qed

lemma join_step_inv:
  assumes "join_step T J s s'" "join_inv T J s" "T \<noteq> J"
  shows "join_inv T J s'"
  using assms
proof (induction rule: join_step.induct)
  case (call_blocks k k' res)
  then show ?case using join_call_inv [of T J k res k' Blocked] by simp
next
  case (call_returns k k' r res)
  then show ?case using join_call_inv [of T J k res k' "Returned r"] by simp
next
  case (resume_blocks k k' res)
  then show ?case using join_resume_inv [of T J k res k' Blocked] by simp
next
  case (resume_returns k k' r res)
  then show ?case using join_resume_inv [of T J k res k' "Returned r"] by simp
next
  case (exits k j res r)
  then show ?case using thread_exit_inv by blast
next
  case (detaches k j res)
  then show ?case using detach_inv by blast
next
  case (reaps k k' j res)
  then have "managed T k" by (simp add: join_inv_def)
  from managed_reap [OF this] reaps(1) have "sched_frame k k'" "managed T k'" by auto
  with reaps(2) sched_frame_fields(1,5) [OF this(1)] show ?case by (auto simp: join_inv_def)
next
  case (other k' k j res)
  then show ?case by (auto simp: join_inv_def isDeleted_status)
qed

section \<open>Properties\<close>

text \<open>Nested interrupt disabling and kernel pausing behave as two counters: over every balanced
  sequence of disableInterrupts, enableInterrupts, pauseKernel and restartKernel calls nested at
  most 255 deep (with preemptions missed while paused at any point), none calls the error handler,
  interrupts are enabled exactly when every disable has been undone, and the outermost restart yields
  exactly when a preemption was missed.\<close>

theorem nesting_refines_counters:
  assumes "lock_rel k a" "run_spec lock_spec a reqs = Some ((d, p, w), outs)"
  shows "\<exists>k'. run_impl lock_impl k reqs = Inr (k', outs) \<and> lock_rel k' (d, p, w) \<and>
    areInterruptsEnabled k' = (d = 0) \<and> isKernelRunning k' = (p = 0)"
  using locks.run [OF assms]
  by (auto simp: lock_rel_def areInterruptsEnabled_def isKernelRunning_def)

theorem nesting_refines_counters_witness:
  "\<exists>k'. run_impl lock_impl ((boot_kernel 9 8)\<lparr>kernel_started := True, interruptsEnabled := True\<rparr>)
     [Disable, Pause, MissPreemption, Enable, Restart, Pause, Restart] =
     Inr (k', [False, False, False, False, True, False, False]) \<and> lock_rel k' (0, 0, False) \<and>
     areInterruptsEnabled k' = (0 = (0 :: nat)) \<and> isKernelRunning k' = (0 = (0 :: nat))"
proof (rule nesting_refines_counters)
  show "lock_rel ((boot_kernel 9 8)\<lparr>kernel_started := True, interruptsEnabled := True\<rparr>) (0, 0, False)"
    by (simp add: lock_rel_def boot_kernel_def)
qed simp

text \<open>The nesting counters never wrap: disabling interrupts or pausing the kernel 256 times, and
  enabling or restarting once too often, is reported through the error handler with the
  documented error instead of corrupting the counters.\<close>

theorem nesting_errors:
  "(interruptDisableNesting k = 255 \<longrightarrow> disableInterrupts k = Inl (ErrorHandler NESTING_OVERFLOW)) \<and>
   (interruptDisableNesting k = 0 \<longrightarrow>
      enableInterrupts k = Inl (ErrorHandler DISABLE_INTERRUPTS_NESTING)) \<and>
   (kernel_running k \<ge> 255 \<longrightarrow> pauseKernel k = Inl (ErrorHandler NESTING_OVERFLOW)) \<and>
   (kernel_running k \<le> 0 \<longrightarrow> restartKernel k = Inl (ErrorHandler PAUSE_KERNEL_NESTING))"
  by (simp add: disableInterrupts_def enableInterrupts_def pauseKernel_def restartKernel_def)

theorem nesting_errors_witness:
  "disableInterrupts ((boot_kernel 9 8)\<lparr>interruptDisableNesting := 255\<rparr>) =
     Inl (ErrorHandler NESTING_OVERFLOW) \<and>
   restartKernel (boot_kernel 9 8) = Inl (ErrorHandler PAUSE_KERNEL_NESTING)"
  using nesting_errors [of "(boot_kernel 9 8)\<lparr>interruptDisableNesting := 255\<rparr>"]
    nesting_errors [of "boot_kernel 9 8"]
  by (simp add: boot_kernel_def)

text \<open>C32. Joining a thread neither hangs nor returns a wrong value. In every state reachable while thread
  J joins thread T, with T exiting or being detached and dead threads being reaped at any moment:
  if J is blocked then T is still alive and joinable and will wake it (its join data points to J), and
  if the join returned success then T has exited and the value delivered is the one T returned.\<close>

theorem join_protocol:
  assumes "(join_step T J)\<^sup>*\<^sup>* (k0, NotCalled, None) (k, j, res)" "T \<noteq> J" "managed T k0"
    "\<not> isDeletedJoin (fl k0 T)" "\<not> isWaitingJoin (fl k0 J)"
  shows "(isWaitingJoin (fl k J) \<longrightarrow> \<not> isDeletedJoin (fl k T) \<and> \<not> isDetached (fl k T) \<and>
      joinData (threads k T) = WaitingForJoin (Some J)) \<and>
    (\<forall>r. j = Finished (Some r) \<longrightarrow> res = Some r \<and> dead k T)"
proof -
  have "join_inv T J (k, j, res)"
    using assms(1)
  proof (induction rule: rtranclp_induct)
    case base
    then show ?case using assms(3-5) by (auto simp: join_inv_def)
  next
    case (step s s')
    then show ?case using join_step_inv assms(2) by blast
  qed
  then show ?thesis by (auto simp: join_inv_def)
qed

theorem join_protocol_witness:
  "\<exists>k0 k. (join_step 1 2)\<^sup>*\<^sup>* (k0, NotCalled, None) (k, Finished (Some 7), Some 7) \<and> dead k 1"
proof -
  have "run_spec sched_spec ([[], [], [], []], \<lambda>_. 0, 9, 9, 0) [AddThread 1 0] =
      Some (([[1], [], [], []], \<lambda>_. 0, 9, 9, 0), [Done])"
    by (simp add: PRIORITY_MAX_def eval_nat_numeral)
  from prio.run [OF sched_rel_boot [of 9 8] this] obtain k0 where
    "sched_rel k0 ([[1], [], [], []], \<lambda>_. 0, 9, 9, 0)" by blast
  then have r: "sched_rep k0 [[1], [], [], []]" and f: "fl k0 t = 0" for t
    by (auto simp: sched_rel_def fun_eq_iff)
  then have m: "managed 1 k0" unfolding managed_def by (intro exI [of _ "[[1], [], [], []]"]) simp
  let ?k = "thread_exit 7 (k0\<lparr>cur := 1\<rparr>)"
  have s1: "join_step 1 2 (k0, NotCalled, None) (?k, NotCalled, Some 7)"
    by (rule join_step.exits) (simp add: f)
  have inv: "join_inv 1 2 (?k, NotCalled, Some 7)"
    by (rule thread_exit_inv [where res = None]) (use m f in \<open>simp_all add: join_inv_def\<close>)
  have st: "isDeletedJoin (fl ?k 1)" "\<not> isDetached (fl ?k 1)" "joinData (threads ?k 1) = JoinResult 7"
    "\<not> isWaitingJoin (fl ?k 2)"
    using f by (auto simp: thread_exit_def Let_def split: option.split)
  have mk: "managed 1 (?k\<lparr>cur := 2\<rparr>)" using inv by (auto simp: join_inv_def intro: managedI)
  from join_complete_eq [OF mk] st obtain k' where
    "join_complete 1 (?k\<lparr>cur := 2\<rparr>) = Some (Inr (k', Returned (Some 7)))" by auto
  then have "join_step 1 2 (?k, NotCalled, Some 7) (k', Finished (Some 7), Some 7)"
    using join_begin_eq(2) [OF mk] st by (intro join_step.call_returns) simp_all
  with s1 have "(join_step 1 2)\<^sup>*\<^sup>* (k0, NotCalled, None) (k', Finished (Some 7), Some 7)"
    by (meson converse_rtranclp_into_rtranclp rtranclp.rtrancl_refl)
  with join_protocol [OF this _ m] f show ?thesis by auto
qed

text \<open>Thread::create with a valid priority and stack size, when memory is available, adds one new
  thread to the scheduler: the thread exists, is ready, has the requested priority and is joinable
  exactly if so requested, and no other thread is lost.\<close>

theorem create_adds_ready_thread:
  assumes "sched_rep k L" "t \<notin> set (concat L)" "i < PRIORITY_MAX" "stacksize \<ge> STACK_MIN"
  shows "\<exists>k' L'. thread_create (Some t) True stacksize (int i) joinable k = Inr (k', Some t) \<and>
    sched_rep k' L' \<and> set (concat L') = insert t (set (concat L)) \<and>
    PKexists t k' = Some (Inr True) \<and> ready k' t \<and> priority (threads k' t) = int i \<and>
    (isDetached (fl k' t) \<longleftrightarrow> \<not> joinable)"
proof -
  let ?k0 = "upd_thread t (\<lambda>_. new_thread) k"
  let ?k1 = "if \<not> joinable then upd_flags t IRQsetDetached ?k0 else ?k0"
  have "sched_rep ?k0 L"
  proof -
    have "a \<noteq> t" if "j < PRIORITY_MAX" "a \<in> set (L ! j)" for j a
      using that assms(2) sched_repD(5) [OF assms(1,3)] unfolding in_set_concat_nth by auto
    then have "chain (\<lambda>a. snext ?k0 a) (L ! j) b = chain (\<lambda>a. snext k a) (L ! j) b"
      "a \<in> set (L ! j) \<Longrightarrow> priority (threads ?k0 a) = priority (threads k a)" if "j < PRIORITY_MAX" for j b a
      using that by (auto intro!: chain_cong)
    then show ?thesis using assms(1) unfolding sched_rep_def level_def by simp
  qed
  then have r1: "sched_rep ?k1 L" by simp
  from PKaddThread_eq [OF r1 assms(3,2)] obtain k' where
    k': "PKaddThread t (int i) ?k1 = Inr (k', True)" "sched_rep k' (L[i := link_spec t (L ! i)])"
      "sched_frame ?k1 k'" by blast
  let ?L = "L[i := link_spec t (L ! i)]"
  have len: "length L = PRIORITY_MAX" using assms(1) by (simp add: sched_rep_def)
  have t: "t \<in> set (?L ! i)" using assms(3) len by simp
  have set: "set (concat ?L) = insert t (set (concat L))"
  proof (rule set_eqI)
    have "x \<in> set (?L ! j) \<longleftrightarrow> x \<in> set (L ! j) \<or> j = i \<and> x = t" if "j < length L" for x j
      using that by (cases "j = i") auto
    then show "x \<in> set (concat ?L) \<longleftrightarrow> x \<in> insert t (set (concat L))" for x
      unfolding insert_iff in_set_concat_nth using assms(3) len by auto
  qed
  have fl: "fl k' t = (if joinable then 0 else IRQsetDetached 0)"
    using sched_frame_flags [OF k'(3), of t] by (simp add: new_thread_def)
  then have st: "ready k' t" "isDetached (fl k' t) \<longleftrightarrow> \<not> joinable" "\<not> dead k' t"
    by (auto simp: isReady_bits isDeleted_bits flag_tests flag_setters bit_simps)
  have "thread_create (Some t) True stacksize (int i) joinable k = Inr (k', Some t)"
    using k'(1) assms(3,4) by (auto simp: thread_create_def prio_validate_def doCreate_def Let_def)
  moreover have "PKexists t k' = Some (Inr True)"
    using st(3) unfolding PKexists_eq [OF k'(2)] set by simp
  ultimately show ?thesis
    using k'(2) set st sched_repD(3) [OF k'(2) assms(3) t] by blast
qed

theorem create_adds_ready_thread_witness:
  "\<exists>k' L'. thread_create (Some 5) True 1024 (int 2) True (boot_kernel 9 8) = Inr (k', Some 5) \<and>
    sched_rep k' L' \<and> PKexists 5 k' = Some (Inr True) \<and> ready k' 5"
proof -
  have "sched_rep (boot_kernel 9 8) [[], [], [], []]" using sched_rel_boot [of 9 8]
    by (simp add: sched_rel_def)
  from create_adds_ready_thread [OF this, of 5 2 1024 True] show ?thesis
    by (auto simp: PRIORITY_MAX_def STACK_MIN_def)
qed

text \<open>The stack allocated for a thread is a multiple of the platform's stack alignment and holds the
  watermark, the saved context and the requested size, wasting less than one alignment unit, whenever
  the sum fits the 32-bit arithmetic.\<close>

theorem stack_size_aligned_and_sufficient:
  assumes "0 < unat al" "unat wm + unat ctx + unat s + unat al \<le> 2 ^ 32"
  shows "unat (fullStackSize wm ctx al s) mod unat al = 0 \<and>
    unat wm + unat ctx + unat s \<le> unat (fullStackSize wm ctx al s) \<and>
    unat (fullStackSize wm ctx al s) < unat wm + unat ctx + unat s + unat al"
proof -
  let ?n = "unat wm + unat ctx + unat s + (unat al - 1)" and ?a = "unat al"
  have "?n = ?n div ?a * ?a + ?n mod ?a" "?n mod ?a < ?a" using assms(1) by simp_all
  then show ?thesis unfolding fullStackSize_unat [OF assms] by (intro conjI) (simp, linarith, linarith)
qed

theorem stack_size_aligned_and_sufficient_witness:
  "unat (fullStackSize 16 32 8 1021) mod unat (8 :: u32) = 0 \<and>
   unat (16 :: u32) + unat (32 :: u32) + unat (1021 :: u32) \<le> unat (fullStackSize 16 32 8 1021) \<and>
   unat (fullStackSize 16 32 8 1021) < unat (16 :: u32) + unat (32 :: u32) + unat (1021 :: u32) + unat (8 :: u32)"
  by (rule stack_size_aligned_and_sufficient) simp_all

end
