(* ===== verification/Std_Heap.thy ===== *)
theory Std_Heap
  imports Miosix_Prelude "HOL-Library.Multiset"
begin

text \<open>
  The binary max-heap algorithms of the C++ library on a vector (\<^verbatim>\<open>std::push_heap\<close>, \<^verbatim>\<open>std::pop_heap\<close>,
  \<^verbatim>\<open>std::make_heap\<close>), as the mutexes use them on their vectors of waiting threads. The comparator is
  given by a key, here the priority. Each is shown to permute the vector and to establish the heap
  order, whose first element has a maximal key.
\<close>

section \<open>The algorithms\<close>

definition swap :: "'a list \<Rightarrow> nat \<Rightarrow> nat \<Rightarrow> 'a list" where
  "swap xs i j = xs[j := xs ! i, i := xs ! j]"

abbreviation parent :: "nat \<Rightarrow> nat" where
  "parent i \<equiv> (i - 1) div 2"

lemma parent_less: "0 < i \<Longrightarrow> parent i < i"
  by simp

function sift_up :: "('a \<Rightarrow> int) \<Rightarrow> 'a list \<Rightarrow> nat \<Rightarrow> 'a list" where
  "sift_up key xs i =
     (if i \<noteq> 0 \<and> key (xs ! parent i) < key (xs ! i) then sift_up key (swap xs (parent i) i) (parent i)
      else xs)"
  by pat_completeness auto

termination by (relation "measure (\<lambda>(key, xs, i). i)") auto

declare sift_up.simps [simp del]

definition push_heap :: "('a \<Rightarrow> int) \<Rightarrow> 'a list \<Rightarrow> 'a list" where
  "push_heap key xs = sift_up key xs (length xs - 1)"

definition bigger_child :: "('a \<Rightarrow> int) \<Rightarrow> 'a list \<Rightarrow> nat \<Rightarrow> nat \<Rightarrow> nat" where
  "bigger_child key xs i n =
     (let l = 2 * i + 1 in if l + 1 < n \<and> key (xs ! l) < key (xs ! (l + 1)) then l + 1 else l)"

function sift_down :: "('a \<Rightarrow> int) \<Rightarrow> 'a list \<Rightarrow> nat \<Rightarrow> nat \<Rightarrow> 'a list" where
  "sift_down key xs i n =
     (let c = bigger_child key xs i n in
      if 2 * i + 1 < n \<and> key (xs ! i) < key (xs ! c) then sift_down key (swap xs i c) c n
      else xs)"
  by pat_completeness auto

termination
  by (relation "measure (\<lambda>(key, xs, i, n). n - i)") (auto simp: bigger_child_def Let_def split: if_splits)

declare sift_down.simps [simp del]

definition pop_heap :: "('a \<Rightarrow> int) \<Rightarrow> 'a list \<Rightarrow> 'a list" where
  "pop_heap key xs =
     (if length xs \<le> 1 then xs
      else let n = length xs - 1 in sift_down key (swap xs 0 n) 0 n)"

fun heapify :: "('a \<Rightarrow> int) \<Rightarrow> nat \<Rightarrow> 'a list \<Rightarrow> 'a list" where
  "heapify key 0 xs = xs"
| "heapify key (Suc i) xs = heapify key i (sift_down key xs i (length xs))"

definition make_heap :: "('a \<Rightarrow> int) \<Rightarrow> 'a list \<Rightarrow> 'a list" where
  "make_heap key xs = heapify key (length xs div 2) xs"

section \<open>Permutation\<close>

lemma length_swap [simp]: "length (swap xs i j) = length xs"
  by (simp add: swap_def)

lemma nth_swap:
  "i < length xs \<Longrightarrow> j < length xs \<Longrightarrow>
     swap xs i j ! m = (if m = i then xs ! j else if m = j then xs ! i else xs ! m)"
  by (auto simp: swap_def nth_list_update)

lemma mset_swap': "i < length xs \<Longrightarrow> j < length xs \<Longrightarrow> mset (swap xs i j) = mset xs"
  unfolding swap_def by (rule mset_swap)

lemma mset_sift_up: "i < length xs \<Longrightarrow> mset (sift_up key xs i) = mset xs \<and> length (sift_up key xs i) = length xs"
proof (induction key xs i rule: sift_up.induct)
  case (1 key xs i)
  then show ?case by (subst (1 2) sift_up.simps) (auto simp: mset_swap')
qed

lemma bigger_child_bounds:
  "2 * i + 1 < n \<Longrightarrow> bigger_child key xs i n < n \<and> i < bigger_child key xs i n"
  by (auto simp: bigger_child_def Let_def)

lemma mset_sift_down:
  "n \<le> length xs \<Longrightarrow> mset (sift_down key xs i n) = mset xs \<and> length (sift_down key xs i n) = length xs"
proof (induction key xs i n rule: sift_down.induct)
  case (1 key xs i n)
  show ?case
  proof (cases "2 * i + 1 < n \<and> key (xs ! i) < key (xs ! bigger_child key xs i n)")
    case True
    then have "i < length xs" "bigger_child key xs i n < length xs"
      using 1(2) bigger_child_bounds [of i n key xs] by auto
    with 1 True show ?thesis by (subst (1 2) sift_down.simps) (simp add: Let_def mset_swap')
  next
    case False
    then show ?thesis by (subst (1 2) sift_down.simps) (auto simp: Let_def)
  qed
qed

lemma sift_down_frame: "n \<le> m \<Longrightarrow> n \<le> length xs \<Longrightarrow> sift_down key xs i n ! m = xs ! m"
proof (induction key xs i n rule: sift_down.induct)
  case (1 key xs i n)
  show ?case
  proof (cases "2 * i + 1 < n \<and> key (xs ! i) < key (xs ! bigger_child key xs i n)")
    case True
    then have "i < length xs" "bigger_child key xs i n < length xs" "i < m" "bigger_child key xs i n < m"
      using 1(2,3) bigger_child_bounds [of i n key xs] by auto
    with 1 True show ?thesis by (subst sift_down.simps) (simp add: Let_def nth_swap)
  qed (subst sift_down.simps, auto simp: Let_def)
qed

section \<open>Heap order\<close>

definition heap_order :: "('a \<Rightarrow> int) \<Rightarrow> 'a list \<Rightarrow> nat \<Rightarrow> nat \<Rightarrow> bool" where
  "heap_order key xs lo n \<longleftrightarrow>
     (\<forall>j<n. 0 < j \<and> lo \<le> parent j \<longrightarrow> key (xs ! j) \<le> key (xs ! parent j))"

definition is_heap :: "('a \<Rightarrow> int) \<Rightarrow> 'a list \<Rightarrow> bool" where
  "is_heap key xs \<longleftrightarrow> heap_order key xs 0 (length xs)"

lemma heap_front_max: "is_heap key xs \<Longrightarrow> j < length xs \<Longrightarrow> key (xs ! j) \<le> key (xs ! 0)"
proof (induction j rule: less_induct)
  case (less j)
  show ?case
  proof (cases "j = 0")
    case False
    then have "key (xs ! j) \<le> key (xs ! parent j)" using less.prems by (simp add: is_heap_def heap_order_def)
    also have "\<dots> \<le> key (xs ! 0)" using less False by simp
    finally show ?thesis .
  qed simp
qed

lemma heap_hd_max: "is_heap key xs \<Longrightarrow> x \<in> set xs \<Longrightarrow> key x \<le> key (hd xs)"
  using heap_front_max [of key xs] by (metis hd_conv_nth in_set_conv_nth list.size(3) not_less_zero)

text \<open>The order holds everywhere but between \<open>i\<close> and its parent.\<close>

lemma sift_up_heap:
  assumes "i < length xs"
    "\<And>j. j < length xs \<Longrightarrow> 0 < j \<Longrightarrow> j \<noteq> i \<Longrightarrow> key (xs ! j) \<le> key (xs ! parent j)"
    "\<And>j. j < length xs \<Longrightarrow> 0 < j \<Longrightarrow> 0 < i \<Longrightarrow> parent j = i \<Longrightarrow> key (xs ! j) \<le> key (xs ! parent i)"
  shows "is_heap key (sift_up key xs i)"
  using assms
proof (induction key xs i rule: sift_up.induct)
  case (1 key xs i)
  show ?case
  proof (cases "i \<noteq> 0 \<and> key (xs ! parent i) < key (xs ! i)")
    case False
    have "key (xs ! j) \<le> key (xs ! parent j)" if "j < length xs" "0 < j" for j
      using that False 1(3) [of j] by (cases "j = i") auto
    then show ?thesis using False
      by (subst sift_up.simps) (auto simp: is_heap_def heap_order_def)
  next
    case True
    let ?p = "parent i" and ?ys = "swap xs (parent i) i"
    have p: "?p < i" "?p < length xs" using True 1(2) by auto
    note ys = nth_swap [OF p(2) 1(2)]
    have "is_heap key (sift_up key ?ys ?p)"
    proof (rule 1(1) [OF True])
      show "?p < length ?ys" using p by simp
      show "key (?ys ! j) \<le> key (?ys ! parent j)" if "j < length ?ys" "0 < j" "j \<noteq> ?p" for j
        using that True 1(3) [of j] 1(4) [of j] p unfolding ys by auto
      show "key (?ys ! j) \<le> key (?ys ! parent ?p)"
        if "j < length ?ys" "0 < j" "0 < ?p" "parent j = ?p" for j
      proof -
        have "key (xs ! ?p) \<le> key (xs ! parent ?p)" using 1(3) [of ?p] that p by auto
        moreover have "j \<noteq> ?p" "parent ?p \<noteq> ?p" "parent ?p \<noteq> i"
          using parent_less [of j] parent_less [of ?p] that p by linarith+
        moreover have "key (xs ! j) \<le> key (xs ! ?p)" if "j \<noteq> i"
          using 1(3) [of j] that \<open>j < length ?ys\<close> \<open>0 < j\<close> \<open>parent j = ?p\<close> by simp
        ultimately show ?thesis unfolding ys by auto
      qed
    qed
    with True show ?thesis by (subst sift_up.simps) simp
  qed
qed

lemma push_heap_heap:
  assumes "is_heap key xs"
  shows "is_heap key (push_heap key (xs @ [x]))" "mset (push_heap key (xs @ [x])) = mset (xs @ [x])"
    "length (push_heap key (xs @ [x])) = Suc (length xs)"
proof -
  let ?n = "length xs"
  show "is_heap key (push_heap key (xs @ [x]))"
    unfolding push_heap_def
  proof (rule sift_up_heap)
    show "key ((xs @ [x]) ! j) \<le> key ((xs @ [x]) ! parent j)"
      if "j < length (xs @ [x])" "0 < j" "j \<noteq> length (xs @ [x]) - 1" for j
    proof -
      have "j < ?n" "parent j < ?n" using that by auto
      with assms that(2) show ?thesis by (simp add: is_heap_def heap_order_def nth_append)
    qed
  qed auto
  show "mset (push_heap key (xs @ [x])) = mset (xs @ [x])"
    "length (push_heap key (xs @ [x])) = Suc (length xs)"
    using mset_sift_up [of ?n "xs @ [x]" key] by (simp_all add: push_heap_def)
qed

text \<open>The order holds from \<open>lo\<close> on but between \<open>i\<close> and its children.\<close>

lemma bigger_child_max:
  assumes "2 * i + 1 < n" "0 < j" "j < n" "parent j = i"
  shows "key (xs ! j) \<le> key (xs ! bigger_child key xs i n)" "parent (bigger_child key xs i n) = i"
proof -
  have "j = 2 * i + 1 \<or> j = 2 * i + 2" using assms by linarith
  with assms show "key (xs ! j) \<le> key (xs ! bigger_child key xs i n)"
    by (auto simp: bigger_child_def Let_def)
  show "parent (bigger_child key xs i n) = i" by (auto simp: bigger_child_def Let_def)
qed

lemma sift_down_heap:
  assumes "n \<le> length xs" "lo \<le> i"
    "\<And>j. j < n \<Longrightarrow> 0 < j \<Longrightarrow> lo \<le> parent j \<Longrightarrow> parent j \<noteq> i \<Longrightarrow> key (xs ! j) \<le> key (xs ! parent j)"
    "\<And>j. j < n \<Longrightarrow> 0 < j \<Longrightarrow> 0 < i \<Longrightarrow> lo \<le> parent i \<Longrightarrow> parent j = i \<Longrightarrow>
      key (xs ! j) \<le> key (xs ! parent i)"
  shows "heap_order key (sift_down key xs i n) lo n"
  using assms
proof (induction key xs i n rule: sift_down.induct)
  case (1 key xs i n)
  let ?c = "bigger_child key xs i n"
  show ?case
  proof (cases "2 * i + 1 < n \<and> key (xs ! i) < key (xs ! ?c)")
    case False
    have "key (xs ! j) \<le> key (xs ! parent j)" if j: "j < n" "0 < j" "lo \<le> parent j" for j
    proof (cases "parent j = i")
      case True
      then have "2 * i + 1 < n" using j by linarith
      with bigger_child_max(1) [OF this j(2,1) True, of key xs] False True show ?thesis by simp
    qed (use 1(4) j in blast)
    moreover have "sift_down key xs i n = xs" using False by (subst sift_down.simps) (auto simp: Let_def)
    ultimately show ?thesis by (simp add: heap_order_def)
  next
    case True
    let ?ys = "swap xs i ?c"
    have c: "?c < n" "i < ?c" using bigger_child_bounds True by blast+
    have cp: "parent ?c = i" by (auto simp: bigger_child_def Let_def)
    have il: "i < length xs" "?c < length xs" using c 1(2) by linarith+
    note ys = nth_swap [OF il]
    have "heap_order key (sift_down key ?ys ?c n) lo n"
    proof (rule 1(1) [OF refl True])
      show "n \<le> length ?ys" "lo \<le> ?c" using 1(2,3) c by simp_all
      show "key (?ys ! j) \<le> key (?ys ! parent j)"
        if j: "j < n" "0 < j" "lo \<le> parent j" "parent j \<noteq> ?c" for j
      proof -
        have pj: "parent j < j" by (rule parent_less [OF j(2)])
        consider (i) "j = i" | (c) "j = ?c" | (sib) "j \<noteq> i" "j \<noteq> ?c" "parent j = i"
          | (far) "j \<noteq> i" "j \<noteq> ?c" "parent j \<noteq> i" by blast
        then show ?thesis
        proof cases
          case i
          then have "key (xs ! ?c) \<le> key (xs ! parent i)" using 1(5) [of ?c] c j cp by auto
          with i j pj show ?thesis unfolding ys by auto
        next
          case c
          with True cp show ?thesis unfolding ys by auto
        next
          case sib
          then show ?thesis using bigger_child_max(1) [of i n j key xs] True j unfolding ys by auto
        next
          case far
          then show ?thesis using 1(4) j unfolding ys by auto
        qed
      qed
      show "key (?ys ! j) \<le> key (?ys ! parent ?c)" if j: "j < n" "0 < j" "parent j = ?c" for j
      proof -
        have "key (xs ! j) \<le> key (xs ! ?c)" using 1(4) [of j] j c 1(3) by simp
        moreover have "j \<noteq> i" "j \<noteq> ?c" using parent_less [OF j(2)] j(3) c by linarith+
        ultimately show ?thesis using cp unfolding ys by auto
      qed
    qed
    with True show ?thesis by (subst sift_down.simps) (simp add: Let_def)
  qed
qed

lemma pop_heap_heap:
  assumes h: "is_heap key xs" and ne: "xs \<noteq> []"
  shows "is_heap key (butlast (pop_heap key xs))" "last (pop_heap key xs) = hd xs"
    "mset (butlast (pop_heap key xs)) = mset (tl xs)"
proof -
  let ?n = "length xs - 1" and ?zs = "pop_heap key xs"
  have n: "?n < length xs" "0 < length xs" using ne by auto
  have zs: "length ?zs = length xs" "mset ?zs = mset xs" "?zs ! ?n = xs ! 0" "heap_order key ?zs 0 ?n"
  proof -
    let ?ys = "swap xs 0 ?n"
    have m: "mset (sift_down key ?ys 0 ?n) = mset xs" "length (sift_down key ?ys 0 ?n) = length xs"
      using mset_sift_down [of ?n ?ys key 0] mset_swap' [OF n(2,1)] by simp_all
    have "heap_order key (sift_down key ?ys 0 ?n) 0 ?n"
    proof (rule sift_down_heap)
      show "key (?ys ! j) \<le> key (?ys ! parent j)" if "j < ?n" "0 < j" "parent j \<noteq> 0" for j
      proof -
        have "parent j \<noteq> ?n" "j \<noteq> 0" "j < length xs" using that by auto
        moreover have "key (xs ! j) \<le> key (xs ! parent j)"
          using h that by (simp add: is_heap_def heap_order_def)
        ultimately show ?thesis using that unfolding nth_swap [OF n(2,1)] by auto
      qed
    qed simp_all
    moreover have "sift_down key ?ys 0 ?n ! ?n = xs ! 0"
      using sift_down_frame [of ?n ?n ?ys key 0] nth_swap [OF n(2,1)] by simp
    ultimately show "length ?zs = length xs" "mset ?zs = mset xs" "?zs ! ?n = xs ! 0"
      "heap_order key ?zs 0 ?n"
      using m by (auto simp: pop_heap_def Let_def heap_order_def le_Suc_eq)
  qed
  have zne: "?zs \<noteq> []" using zs(1) ne by auto
  show l: "last ?zs = hd xs" using zs(1,3) zne ne by (simp add: last_conv_nth hd_conv_nth)
  show "is_heap key (butlast ?zs)"
    using zs(1,4) by (auto simp: is_heap_def heap_order_def nth_butlast)
  have "mset (butlast ?zs @ [last ?zs]) = mset (hd xs # tl xs)"
    using zne ne zs(2) by simp
  then show "mset (butlast ?zs) = mset (tl xs)" using l by simp
qed

lemma heapify_heap:
  "heap_order key xs m (length xs) \<Longrightarrow> is_heap key (heapify key m xs) \<and> mset (heapify key m xs) = mset xs"
proof (induction m arbitrary: xs)
  case 0
  then show ?case by (simp add: is_heap_def)
next
  case (Suc m)
  let ?ys = "sift_down key xs m (length xs)"
  have m: "mset ?ys = mset xs" "length ?ys = length xs" using mset_sift_down [of "length xs" xs key m] by auto
  have "heap_order key ?ys m (length xs)"
  proof (rule sift_down_heap)
    show "key (xs ! j) \<le> key (xs ! parent j)"
      if "j < length xs" "0 < j" "m \<le> parent j" "parent j \<noteq> m" for j
      using Suc.prems that by (simp add: heap_order_def)
    show "key (xs ! j) \<le> key (xs ! parent m)"
      if "0 < m" "m \<le> parent m" for j
      using parent_less [OF that(1)] that(2) by linarith
  qed simp_all
  with Suc.IH [of ?ys] m show ?case by simp
qed

lemma make_heap_heap: "is_heap key (make_heap key xs)" "mset (make_heap key xs) = mset xs"
proof -
  have "heap_order key xs (length xs div 2) (length xs)"
    unfolding heap_order_def by (intro allI impI) linarith
  from heapify_heap [OF this] show "is_heap key (make_heap key xs)" "mset (make_heap key xs) = mset xs"
    by (simp_all add: make_heap_def)
qed

section \<open>The contract of a priority queue\<close>

text \<open>
  What the mutexes rely on: a vector kept by push, pop and make operations, whose first element has a
  maximal key; popping moves it to the end.
\<close>

locale priority_heap =
  fixes ordered :: "('a \<Rightarrow> int) \<Rightarrow> 'a list \<Rightarrow> bool"
    and push pop make :: "('a \<Rightarrow> int) \<Rightarrow> 'a list \<Rightarrow> 'a list"
  assumes push: "ordered key xs \<Longrightarrow>
      ordered key (push key (xs @ [x])) \<and> mset (push key (xs @ [x])) = mset (xs @ [x])"
    and pop: "ordered key xs \<Longrightarrow> xs \<noteq> [] \<Longrightarrow>
      ordered key (butlast (pop key xs)) \<and> mset (butlast (pop key xs)) = mset (tl xs)"
    and make: "ordered key (make key xs) \<and> mset (make key xs) = mset xs"
    and front: "ordered key xs \<Longrightarrow> x \<in> set xs \<Longrightarrow> key x \<le> key (hd xs)"
    and cong: "(\<And>x. x \<in> set xs \<Longrightarrow> key' x = key x) \<Longrightarrow> ordered key' xs = ordered key xs"
begin

lemma push_set:
  assumes "ordered key xs" "distinct xs" "x \<notin> set xs"
  shows "ordered key (push key (xs @ [x]))" "set (push key (xs @ [x])) = insert x (set xs)"
    "distinct (push key (xs @ [x]))"
  using push [OF assms(1), of x] assms(2,3)
  by (auto simp: mset_eq_setD [of _ "xs @ [x]"] mset_eq_imp_distinct_iff [of _ "xs @ [x]"])

lemma pop_set:
  assumes "ordered key xs" "distinct xs" "xs \<noteq> []"
  shows "ordered key (butlast (pop key xs))" "set (butlast (pop key xs)) = set xs - {hd xs}"
    "distinct (butlast (pop key xs))"
proof -
  note p = pop [OF assms(1,3)]
  show "ordered key (butlast (pop key xs))" using p by blast
  have "set (butlast (pop key xs)) = set (tl xs)" using p mset_eq_setD by blast
  then show "set (butlast (pop key xs)) = set xs - {hd xs}" using assms(2,3) by (cases xs) auto
  show "distinct (butlast (pop key xs))"
    using p assms(2) mset_eq_imp_distinct_iff distinct_tl by blast
qed

lemma make_set:
  assumes "distinct xs"
  shows "ordered key (make key xs)" "set (make key xs) = set xs" "distinct (make key xs)"
  using make [of key xs] assms mset_eq_setD mset_eq_imp_distinct_iff by blast+

end

lemma is_heap_cong: "(\<And>x. x \<in> set xs \<Longrightarrow> key' x = key x) \<Longrightarrow> is_heap key' xs = is_heap key xs"
  by (auto simp: is_heap_def heap_order_def)

interpretation wq: priority_heap is_heap push_heap pop_heap make_heap
proof unfold_locales
  fix key key' :: "'a \<Rightarrow> int" and xs :: "'a list" and x :: 'a
  show "is_heap key (push_heap key (xs @ [x])) \<and> mset (push_heap key (xs @ [x])) = mset (xs @ [x])"
    if "is_heap key xs" using push_heap_heap [OF that, of x] by blast
  show "is_heap key (butlast (pop_heap key xs)) \<and> mset (butlast (pop_heap key xs)) = mset (tl xs)"
    if "is_heap key xs" "xs \<noteq> []" using pop_heap_heap [OF that] by blast
  show "is_heap key (make_heap key xs) \<and> mset (make_heap key xs) = mset xs"
    using make_heap_heap [of key xs] by blast
  show "key x \<le> key (hd xs)" if "is_heap key xs" "x \<in> set xs" using that by (rule heap_hd_max)
  show "is_heap key' xs = is_heap key xs" if "\<And>x. x \<in> set xs \<Longrightarrow> key' x = key x"
    using that by (rule is_heap_cong)
qed

end
