(* ===== verification/Mutex_Sync.thy ===== *)
theory Mutex_Sync
  imports Kernel_Core Std_Heap
begin

text \<open>
  \<^verbatim>\<open>class Mutex\<close> (\<^verbatim>\<open>kernel/sync.cpp\<close>, \<^verbatim>\<open>kernel/sync.h\<close>): recursive mutexes with priority inheritance, and
  \<^verbatim>\<open>Thread::setPriority\<close>. A mutex holds a heap of the threads waiting for it, a thread the list of the
  mutexes it has locked and the mutex it waits for. A lock that has to wait is a turn: the flag of
  the result says whether the mutex has been acquired or the thread has blocked.
\<close>

section \<open>The operations\<close>

abbreviation prio :: "kernel \<Rightarrow> nat \<Rightarrow> int" where
  "prio k t \<equiv> priority (threads k t)"

abbreviation waitq :: "kernel \<Rightarrow> nat \<Rightarrow> nat list" where
  "waitq k m \<equiv> mutex_waiting (mutexes k m)"

abbreviation own :: "kernel \<Rightarrow> nat \<Rightarrow> ptr" where
  "own k m \<equiv> owner (mutexes k m)"

definition new_mutex_opt :: "bool \<Rightarrow> mutex" where
  "new_mutex_opt recursive = \<lparr>owner = nullptr, mutex_next = nullptr, mutex_waiting = [],
     recursiveDepth = (if recursive then 0 else -1)\<rparr>"

text \<open>Making thread \<open>t\<close> the owner of \<open>m\<close>, the four statements every acquisition shares.\<close>

definition take_mutex :: "nat \<Rightarrow> nat \<Rightarrow> kernel \<Rightarrow> kernel" where
  "take_mutex m t k =
     (let k = upd_mutex m (\<lambda>x. x\<lparr>owner := Some t\<rparr>) k;
          k = (if mutexLocked (threads k t) = nullptr
               then upd_thread t (\<lambda>x. x\<lparr>savedPriority := priority x\<rparr>) k else k);
          k = upd_mutex m (\<lambda>x. x\<lparr>mutex_next := mutexLocked (threads k t)\<rparr>) k
      in upd_thread t (\<lambda>x. x\<lparr>mutexLocked := Some m\<rparr>) k)"

text \<open>The loop of the priority inheritance; \<open>p\<close> is the thread that has to wait.\<close>

partial_function (option) inherit_loop :: "nat \<Rightarrow> nat \<Rightarrow> kernel \<Rightarrow> kernel result option" where
  "inherit_loop p walk k =
     obind (PKsetPriority walk (prio k p) k) (\<lambda>k.
     case mutexWaiting (threads k walk) of
       None \<Rightarrow> Some (Inr k)
     | Some m \<Rightarrow>
         oderef (own k m) (\<lambda>w.
           inherit_loop p w
             (upd_mutex m (\<lambda>x. x\<lparr>mutex_waiting := make_heap (\<lambda>t. prio k t) (mutex_waiting x)\<rparr>) k)))"

text \<open>Entering the queue of \<open>m\<close>, owned by \<open>w\<close>: the part of a lock between the checks and the wait.\<close>

definition enqueue_waiter :: "nat \<Rightarrow> nat \<Rightarrow> kernel \<Rightarrow> kernel result option" where
  "enqueue_waiter m w k =
     (let p = cur k;
          k = upd_mutex m (\<lambda>x. x\<lparr>mutex_waiting := push_heap (\<lambda>t. prio k t) (mutex_waiting x @ [p])\<rparr>) k
      in if mutexWaiting (threads k p) \<noteq> nullptr then Some (Inl (ErrorHandler UNEXPECTED))
         else let k = upd_thread p (\<lambda>x. x\<lparr>mutexWaiting := Some m\<rparr>) k in
              if prio k w < prio k p then inherit_loop p w k else Some (Inr k))"

text \<open>A turn of \<^verbatim>\<open>while(owner!=p)\<close>.\<close>

definition lock_wait :: "nat \<Rightarrow> kernel \<Rightarrow> kernel \<times> bool" where
  "lock_wait m k = (if own k m = Some (cur k) then (k, True) else (IRQwait k, False))"

definition PKlock :: "nat \<Rightarrow> kernel \<Rightarrow> (kernel \<times> bool) result option" where
  "PKlock m k =
     (case own k m of
        None \<Rightarrow> Some (Inr (take_mutex m (cur k) k, True))
      | Some w \<Rightarrow>
          if w = cur k
          then if recursiveDepth (mutexes k m) \<ge> 0
               then Some (Inr (upd_mutex m (\<lambda>x. x\<lparr>recursiveDepth := recursiveDepth x + 1\<rparr>) k, True))
               else Some (Inl (ErrorHandler MUTEX_DEADLOCK))
          else obind (enqueue_waiter m w k) (\<lambda>k. Some (Inr (lock_wait m k))))"

definition set_depth :: "nat \<Rightarrow> int \<Rightarrow> kernel \<Rightarrow> kernel" where
  "set_depth m d k =
     (if recursiveDepth (mutexes k m) \<ge> 0 then upd_mutex m (\<lambda>x. x\<lparr>recursiveDepth := d\<rparr>) k else k)"

definition PKlockToDepth :: "nat \<Rightarrow> int \<Rightarrow> kernel \<Rightarrow> (kernel \<times> bool) result option" where
  "PKlockToDepth m depth k =
     (case own k m of
        None \<Rightarrow> Some (Inr (take_mutex m (cur k) (set_depth m depth k), True))
      | Some w \<Rightarrow>
          if w = cur k
          then if recursiveDepth (mutexes k m) \<ge> 0
               then Some (Inr (set_depth m depth k, True))
               else Some (Inl (ErrorHandler MUTEX_DEADLOCK))
          else obind (enqueue_waiter m w k) (\<lambda>k.
               case lock_wait m k of
                 (k, True) \<Rightarrow> Some (Inr (set_depth m depth k, True))
               | (k, False) \<Rightarrow> Some (Inr (k, False))))"

definition PKtryLock :: "nat \<Rightarrow> kernel \<Rightarrow> kernel \<times> bool" where
  "PKtryLock m k =
     (if own k m = nullptr then (take_mutex m (cur k) k, True)
      else if own k m = Some (cur k) \<and> recursiveDepth (mutexes k m) \<ge> 0
      then (upd_mutex m (\<lambda>x. x\<lparr>recursiveDepth := recursiveDepth x + 1\<rparr>) k, True)
      else (k, False))"

text \<open>Removing \<open>m\<close> from the list of mutexes locked by its owner.\<close>

partial_function (option) unlist_loop :: "nat \<Rightarrow> ptr \<Rightarrow> kernel \<Rightarrow> kernel result option" where
  "unlist_loop m walk k =
     oderef walk (\<lambda>w.
       if mutex_next (mutexes k w) = nullptr then Some (Inl (ErrorHandler UNEXPECTED))
       else if mutex_next (mutexes k w) = Some m
       then Some (Inr (upd_mutex w (\<lambda>x. x\<lparr>mutex_next := mutex_next (mutexes k m)\<rparr>) k))
       else unlist_loop m (mutex_next (mutexes k w)) k)"

definition unlist_mutex :: "nat \<Rightarrow> nat \<Rightarrow> kernel \<Rightarrow> kernel result option" where
  "unlist_mutex m t k =
     (if mutexLocked (threads k t) = Some m
      then Some (Inr (upd_thread t (\<lambda>x. x\<lparr>mutexLocked := mutex_next (mutexes k m)\<rparr>) k))
      else unlist_loop m (mutexLocked (threads k t)) k)"

text \<open>The maximum of a priority and those inherited through the mutexes from \<open>walk\<close> on.\<close>

partial_function (option) inherited :: "kernel \<Rightarrow> int \<Rightarrow> ptr \<Rightarrow> int option" where
  "inherited k pr walk =
     (case walk of
        None \<Rightarrow> Some pr
      | Some w \<Rightarrow>
          inherited k
            (if waitq k w \<noteq> [] then if pr < prio k (hd (waitq k w)) then prio k (hd (waitq k w)) else pr
             else pr)
            (mutex_next (mutexes k w)))"

definition restore_priority :: "nat \<Rightarrow> kernel \<Rightarrow> kernel result option" where
  "restore_priority t k =
     (if mutexLocked (threads k t) = nullptr
      then if savedPriority (threads k t) \<noteq> prio k t
           then PKsetPriority t (savedPriority (threads k t)) k else Some (Inr k)
      else case inherited k (savedPriority (threads k t)) (mutexLocked (threads k t)) of
        None \<Rightarrow> None
      | Some pr \<Rightarrow> if pr \<noteq> prio k t then PKsetPriority t pr k else Some (Inr k))"

text \<open>Handing \<open>m\<close> over to the first waiting thread, or freeing it.\<close>

definition handover :: "nat \<Rightarrow> kernel \<Rightarrow> (kernel \<times> ptr) result option" where
  "handover m k =
     (case waitq k m of
        [] \<Rightarrow> Some (Inr (upd_mutex m (\<lambda>x. x\<lparr>owner := nullptr, mutex_waiting := []\<rparr>) k, nullptr))
      | t # _ \<Rightarrow>
          let k = upd_mutex m (\<lambda>x. x\<lparr>owner := Some t,
                    mutex_waiting := butlast (pop_heap (\<lambda>t. prio k t) (mutex_waiting x))\<rparr>) k in
          if mutexWaiting (threads k t) \<noteq> Some m then Some (Inl (ErrorHandler UNEXPECTED))
          else
            let k = upd_thread t (\<lambda>x. x\<lparr>mutexWaiting := nullptr\<rparr>) k;
                k = PKwakeup t k;
                k = take_mutex m t k
            in obind (if waitq k m \<noteq> [] \<and> prio k t < prio k (hd (waitq k m))
                      then PKsetPriority t (prio k (hd (waitq k m))) k else Some (Inr k))
                 (\<lambda>k. Some (Inr (k, Some t))))"

definition PKunlock :: "nat \<Rightarrow> kernel \<Rightarrow> (kernel \<times> bool) result option" where
  "PKunlock m k =
     (let p = cur k in
      if own k m \<noteq> Some p then Some (Inr (k, False))
      else if recursiveDepth (mutexes k m) > 0
      then Some (Inr (upd_mutex m (\<lambda>x. x\<lparr>recursiveDepth := recursiveDepth x - 1\<rparr>) k, False))
      else
        obind (unlist_mutex m p k) (\<lambda>k.
        obind (restore_priority p k) (\<lambda>k.
        obind (handover m k) (\<lambda>(k, new).
        Some (Inr (k, case new of None \<Rightarrow> False | Some t \<Rightarrow> prio k p < prio k t))))))"

definition PKunlockAllDepthLevels :: "nat \<Rightarrow> kernel \<Rightarrow> (kernel \<times> int) result option" where
  "PKunlockAllDepthLevels m k =
     (let p = cur k in
      if own k m \<noteq> Some p then Some (Inr (k, 0))
      else
        obind (unlist_mutex m p k) (\<lambda>k.
        obind (restore_priority p k) (\<lambda>k.
        obind (handover m k) (\<lambda>(k, _).
        let d = recursiveDepth (mutexes k m) in
        if d < 0 then Some (Inr (k, 0))
        else Some (Inr (upd_mutex m (\<lambda>x. x\<lparr>recursiveDepth := 0\<rparr>) k, d))))))"

text \<open>\<^verbatim>\<open>Thread::setPriority\<close>, which only changes the priority of the current thread.\<close>

definition thread_setPriority :: "int \<Rightarrow> kernel \<Rightarrow> kernel result option" where
  "thread_setPriority pr k =
     (let c = cur k in
      if \<not> prio_validate pr then Some (Inr k)
      else if mutexLocked (threads k c) \<noteq> nullptr
      then if savedPriority (threads k c) = pr then Some (Inr k)
           else let k = upd_thread c (\<lambda>x. x\<lparr>savedPriority := pr\<rparr>) k in
             (case inherited k pr (mutexLocked (threads k c)) of
                None \<Rightarrow> None
              | Some pr \<Rightarrow> if pr = prio k c then Some (Inr k) else PKsetPriority c pr k)
      else if pr = prio k c then Some (Inr k) else PKsetPriority c pr k)"

section \<open>Consistency of threads and mutexes\<close>

text \<open>The list of mutexes that starts at \<open>p\<close>.\<close>

fun mchain :: "kernel \<Rightarrow> ptr \<Rightarrow> nat list \<Rightarrow> bool" where
  "mchain k p [] \<longleftrightarrow> p = nullptr"
| "mchain k p (m # ms) \<longleftrightarrow> p = Some m \<and> mchain k (mutex_next (mutexes k m)) ms"

lemma mchain_cong:
  "(\<And>m. m \<in> set ms \<Longrightarrow> mutex_next (mutexes k' m) = mutex_next (mutexes k m)) \<Longrightarrow>
     mchain k' p ms = mchain k p ms"
  by (induction ms arbitrary: p) auto

text \<open>
  \<open>S\<close> are the threads of the scheduler; the mutexes of \<open>X\<close> have been taken off the lists of locked
  mutexes but not yet handed over (nonempty only inside an unlock).
\<close>

definition mwf :: "nat set \<Rightarrow> nat set \<Rightarrow> kernel \<Rightarrow> bool" where
  "mwf S X k \<longleftrightarrow>
     (\<forall>t m. mutexWaiting (threads k t) = Some m \<longleftrightarrow> t \<in> set (waitq k m)) \<and>
     (\<forall>m. is_heap (\<lambda>t. prio k t) (waitq k m) \<and> distinct (waitq k m) \<and> set (waitq k m) \<subseteq> S) \<and>
     (\<forall>m. own k m = nullptr \<longrightarrow> waitq k m = []) \<and>
     (\<forall>m t. own k m = Some t \<longrightarrow> t \<in> S \<and> t \<notin> set (waitq k m)) \<and>
     (\<forall>t. \<exists>ms. mchain k (mutexLocked (threads k t)) ms \<and> distinct ms \<and>
        (\<forall>m. m \<in> set ms \<longleftrightarrow> own k m = Some t \<and> m \<notin> X)) \<and>
     (\<forall>t. mutexLocked (threads k t) \<noteq> nullptr \<longrightarrow> prio_validate (savedPriority (threads k t)))"

definition mutex_wf :: "kernel \<Rightarrow> nat list list \<Rightarrow> bool" where
  "mutex_wf k L \<longleftrightarrow> sched_rep k L \<and> mwf (set (concat L)) {} k"

lemma mwfD:
  assumes "mwf S X k"
  shows "mutexWaiting (threads k t) = Some m \<longleftrightarrow> t \<in> set (waitq k m)"
    "is_heap (\<lambda>t. prio k t) (waitq k m)" "distinct (waitq k m)" "set (waitq k m) \<subseteq> S"
    "own k m = nullptr \<Longrightarrow> waitq k m = []"
    "own k m = Some t \<Longrightarrow> t \<in> S" "own k m = Some t \<Longrightarrow> t \<notin> set (waitq k m)"
    "mutexLocked (threads k t) \<noteq> nullptr \<Longrightarrow> prio_validate (savedPriority (threads k t))"
  using assms unfolding mwf_def by blast+

lemma mwfI:
  assumes "\<And>t m. mutexWaiting (threads k t) = Some m \<longleftrightarrow> t \<in> set (waitq k m)"
    "\<And>m. is_heap (\<lambda>t. prio k t) (waitq k m)" "\<And>m. distinct (waitq k m)" "\<And>m. set (waitq k m) \<subseteq> S"
    "\<And>m. own k m = nullptr \<longrightarrow> waitq k m = []"
    "\<And>m t. own k m = Some t \<longrightarrow> t \<in> S \<and> t \<notin> set (waitq k m)"
    "\<And>t. \<exists>ms. mchain k (mutexLocked (threads k t)) ms \<and> distinct ms \<and>
      (\<forall>m. m \<in> set ms \<longleftrightarrow> own k m = Some t \<and> m \<notin> X)"
    "\<And>t. mutexLocked (threads k t) \<noteq> nullptr \<longrightarrow> prio_validate (savedPriority (threads k t))"
  shows "mwf S X k"
  unfolding mwf_def using assms by (intro conjI allI) assumption+

lemma mwf_chain:
  assumes "mwf S X k"
  obtains ms where "mchain k (mutexLocked (threads k t)) ms" "distinct ms"
    "\<And>m. m \<in> set ms \<longleftrightarrow> own k m = Some t \<and> m \<notin> X"
  using assms unfolding mwf_def by blast

lemma sched_valid_prio:
  assumes "sched_rep k L" "t \<in> set (concat L)"
  shows "prio_validate (prio k t)"
proof -
  obtain i where "i < PRIORITY_MAX" "t \<in> set (L ! i)"
    using assms sched_repD(5) [OF assms(1), of 0] unfolding in_set_concat_nth
    by (auto simp: sched_rep_def)
  with sched_repD(3) [OF assms(1)] show ?thesis by (simp add: prio_validate_def)
qed

lemma setPriority_ok:
  assumes r: "sched_rep k L" and t: "t \<in> set (concat L)" and v: "prio_validate pr"
  shows "\<exists>k' L'. PKsetPriority t pr k = Some (Inr k') \<and> sched_rep k' L' \<and>
    set (concat L') = set (concat L) \<and> sched_frame k k' \<and>
    (\<forall>a. prio k' a = (if a = t then pr else prio k a))"
proof -
  have len: "length L = PRIORITY_MAX" using r by (simp add: sched_rep_def)
  obtain i where i: "i < PRIORITY_MAX" "t \<in> set (L ! i)"
    using t len unfolding in_set_concat_nth by auto
  obtain j where j: "pr = int j" "j < PRIORITY_MAX"
    using v zero_le_imp_eq_int [of pr] by (auto simp: prio_validate_def)
  let ?M = "L[i := remove1 t (L ! i)]"
  let ?L = "?M[j := link_spec t (?M ! j)]"
  from PKsetPriority_eq [OF r i j(2)] obtain k' where
    k': "PKsetPriority t (int j) k = Some (Inr k')" "sched_frame k k'" "sched_rep k' ?L"
      "\<forall>a. prio k' a = (if a = t then int j else prio k a)" by (auto simp: Let_def)
  have dist: "distinct (L ! i)" by (rule sched_repD(2) [OF r i(1)])
  have "set (concat ?L) = set (concat L)"
  proof (rule set_eqI)
    fix x
    have M: "x \<in> set (?M ! n) \<longleftrightarrow> x \<in> set (L ! n) \<and> (n = i \<longrightarrow> x \<noteq> t)" if "n < PRIORITY_MAX" for n
      using that len dist by (cases "n = i") auto
    have N: "x \<in> set (?L ! n) \<longleftrightarrow> x \<in> set (?M ! n) \<or> n = j \<and> x = t" if "n < PRIORITY_MAX" for n
      using that len by (cases "n = j") auto
    show "x \<in> set (concat ?L) \<longleftrightarrow> x \<in> set (concat L)"
      unfolding in_set_concat_nth using M N i j(2) len by auto
  qed
  with k' j(1) show ?thesis by blast
qed

text \<open>Changing the priority of a thread that waits for no mutex keeps everything consistent.\<close>

lemma mwf_prio:
  assumes wf: "mwf S X k" and fr: "sched_frame k k'"
    and p: "\<forall>a. prio k' a = (if a = t then pr else prio k a)" and nw: "mutexWaiting (threads k t) = nullptr"
  shows "mwf S X k'"
proof -
  note f = sched_frame_fields [OF fr]
  have nt: "t \<notin> set (waitq k m)" for m using mwfD(1) [OF wf, of t m] nw by auto
  then have h: "is_heap (\<lambda>t. prio k' t) (waitq k m) = is_heap (\<lambda>t. prio k t) (waitq k m)" for m
    by (intro is_heap_cong) (use p nt in auto)
  have c: "mchain k' q ms = mchain k q ms" for q ms by (rule mchain_cong) (simp add: f)
  show ?thesis using wf unfolding mwf_def f c h .
qed

text \<open>
  Changing the priority of a thread that waits for \<open>m\<close> and rebuilding the heap of \<open>m\<close>, as the
  inheritance loop does.
\<close>

lemma mwf_prio_heap:
  assumes wf: "mwf S X k" and fr: "sched_frame k k1"
    and p: "\<forall>a. prio k1 a = (if a = t then pr else prio k a)" and w: "mutexWaiting (threads k t) = Some m"
  defines "k' \<equiv> upd_mutex m (\<lambda>x. x\<lparr>mutex_waiting := make_heap (\<lambda>t. prio k1 t) (mutex_waiting x)\<rparr>) k1"
  shows "mwf S X k'" "set (waitq k' n) = set (waitq k n)"
proof -
  note f = sched_frame_fields [OF fr]
  note mk = wq.make_set [OF mwfD(3) [OF wf, of m], of "\<lambda>t. prio k1 t"]
  have q: "waitq k' n = (if n = m then make_heap (\<lambda>t. prio k1 t) (waitq k m) else waitq k n)" for n
    by (simp add: k'_def f)
  then show sq: "set (waitq k' n) = set (waitq k n)" for n using mk by simp
  have d: "distinct (waitq k' n)" for n using q mk mwfD(3) [OF wf] by simp
  have th: "threads k' = threads k1" "own k' n = own k n"
    "mutex_next (mutexes k' n) = mutex_next (mutexes k n)" for n
    by (simp_all add: k'_def f)
  have "is_heap (\<lambda>t. prio k' t) (waitq k' n)" for n
  proof (cases "n = m")
    case True
    then show ?thesis using q mk(1) by (simp add: th)
  next
    case False
    then have nt: "t \<notin> set (waitq k n)" using mwfD(1) [OF wf, of t n] w by auto
    have "is_heap (\<lambda>t. prio k' t) (waitq k n) = is_heap (\<lambda>t. prio k t) (waitq k n)"
      by (rule is_heap_cong) (use p nt in \<open>auto simp: th\<close>)
    with False q mwfD(2) [OF wf, of n] show ?thesis by simp
  qed
  moreover have c: "mchain k' r ms = mchain k r ms" for r ms by (rule mchain_cong) (simp add: th)
  moreover have "waitq k' n = [] \<longleftrightarrow> waitq k n = []" for n using sq [of n] by (metis set_empty)
  ultimately show "mwf S X k'" using wf d unfolding mwf_def th sq f by simp
qed

section \<open>Priority inheritance\<close>

text \<open>
  The threads that keep a thread from running: \<open>ws\<close> starts at the owner of a mutex and goes on to the
  owner of the mutex that one waits for, up to a thread that waits for none.
\<close>

fun wchain :: "kernel \<Rightarrow> nat list \<Rightarrow> bool" where
  "wchain k [] \<longleftrightarrow> False"
| "wchain k [w] \<longleftrightarrow> mutexWaiting (threads k w) = nullptr"
| "wchain k (w # v # ws) \<longleftrightarrow>
     (\<exists>m. mutexWaiting (threads k w) = Some m \<and> own k m = Some v) \<and> wchain k (v # ws)"

definition mframe :: "kernel \<Rightarrow> kernel \<Rightarrow> bool" where
  "mframe k k' \<longleftrightarrow> cur k' = cur k \<and>
     (\<forall>t. flags (threads k' t) = flags (threads k t) \<and>
        mutexLocked (threads k' t) = mutexLocked (threads k t) \<and>
        mutexWaiting (threads k' t) = mutexWaiting (threads k t) \<and>
        savedPriority (threads k' t) = savedPriority (threads k t)) \<and>
     (\<forall>m. own k' m = own k m \<and> set (waitq k' m) = set (waitq k m) \<and>
        recursiveDepth (mutexes k' m) = recursiveDepth (mutexes k m))"

lemma mframe_trans: "mframe k k' \<Longrightarrow> mframe k' k'' \<Longrightarrow> mframe k k''"
  by (simp add: mframe_def)

lemma mframe_sched: "sched_frame k k' \<Longrightarrow> mframe k k'"
  by (simp add: mframe_def sched_frame_fields)

lemma wchain_frame: "mframe k k' \<Longrightarrow> wchain k' ws = wchain k ws"
  by (induction ws rule: induct_list012) (auto simp: mframe_def)

lemma inherit_loop_eq:
  assumes "sched_rep k L" "mwf (set (concat L)) X k" "wchain k ws" "distinct ws"
    "p \<notin> set ws" "set ws \<subseteq> set (concat L)" "p \<in> set (concat L)"
  shows "\<exists>k' L'. inherit_loop p (hd ws) k = Some (Inr k') \<and> sched_rep k' L' \<and>
    set (concat L') = set (concat L) \<and> mwf (set (concat L)) X k' \<and> mframe k k' \<and>
    (\<forall>a. prio k' a = (if a \<in> set ws then prio k p else prio k a))"
  using assms
proof (induction ws arbitrary: k L)
  case (Cons w ws)
  have v: "prio_validate (prio k p)" by (rule sched_valid_prio [OF Cons.prems(1,7)])
  have wL: "w \<in> set (concat L)" using Cons.prems(6) by simp
  from setPriority_ok [OF Cons.prems(1) wL v] obtain k1 L1 where
    k1: "PKsetPriority w (prio k p) k = Some (Inr k1)" "sched_rep k1 L1"
      "set (concat L1) = set (concat L)" "sched_frame k k1"
      and p1: "\<forall>a. prio k1 a = (if a = w then prio k p else prio k a)" by blast
  note f = sched_frame_fields [OF k1(4)]
  show ?case
  proof (cases ws)
    case Nil
    then have "mutexWaiting (threads k w) = nullptr" using Cons.prems(3) by simp
    with k1 p1 Nil mwf_prio [OF Cons.prems(2) k1(4) p1] mframe_sched [OF k1(4)] show ?thesis
      by (subst inherit_loop.simps) (auto simp: f)
  next
    case (Cons w2 vs)
    then obtain m where m: "mutexWaiting (threads k w) = Some m" "own k m = Some w2"
      using Cons.prems(3) by auto
    let ?k = "upd_mutex m (\<lambda>x. x\<lparr>mutex_waiting := make_heap (\<lambda>t. prio k1 t) (mutex_waiting x)\<rparr>) k1"
    note wf = mwf_prio_heap [OF Cons.prems(2) k1(4) p1 m(1)]
    have fr: "mframe k ?k" using wf(2) f by (auto simp: mframe_def)
    have pk: "prio ?k a = (if a = w then prio k p else prio k a)" for a using p1 by simp
    have wp: "w \<noteq> p" "w \<notin> set ws" using Cons.prems(4,5) by auto
    have ch: "wchain ?k ws" using Cons.prems(3) wchain_frame [OF fr] Cons by auto
    have "sched_rep ?k L1" "mwf (set (concat L1)) X ?k" "distinct ws" "p \<notin> set ws"
      "set ws \<subseteq> set (concat L1)" "p \<in> set (concat L1)"
      unfolding k1(3) using k1(2) wf(1) Cons.prems(4-7) by simp_all
    from Cons.IH [OF this(1,2) ch this(3-6)] obtain k' L' where
      IH: "inherit_loop p (hd ws) ?k = Some (Inr k')" "sched_rep k' L'"
        "set (concat L') = set (concat L)" "mwf (set (concat L)) X k'" "mframe ?k k'"
        "\<forall>a. prio k' a = (if a \<in> set ws then prio ?k p else prio ?k a)"
      unfolding k1(3) by blast
    have "inherit_loop p (hd (w # ws)) k = Some (Inr k')"
      using k1(1) m Cons IH(1) by (subst inherit_loop.simps) (simp add: f)
    moreover have "\<forall>a. prio k' a = (if a \<in> set (w # ws) then prio k p else prio k a)"
      using IH(6) pk wp by simp
    ultimately show ?thesis using IH(2-4) mframe_trans [OF fr IH(5)] by blast
  qed
qed simp

lemma enqueue_waiter_eq:
  assumes r: "sched_rep k L" and wf: "mwf (set (concat L)) {} k" and c: "cur k \<in> set (concat L)"
    and nw: "mutexWaiting (threads k (cur k)) = nullptr" and o: "own k m = Some w" "w \<noteq> cur k"
    and ch: "wchain k (w # ws)" "distinct (w # ws)" "cur k \<notin> set ws" "set ws \<subseteq> set (concat L)"
  shows "\<exists>k' L'. enqueue_waiter m w k = Some (Inr k') \<and> sched_rep k' L' \<and>
    set (concat L') = set (concat L) \<and> mwf (set (concat L)) {} k' \<and> cur k' = cur k \<and>
    (\<forall>t. flags (threads k' t) = flags (threads k t)) \<and> (\<forall>n. own k' n = own k n) \<and>
    mutexWaiting (threads k' (cur k)) = Some m \<and>
    (\<forall>a. prio k' a = (if prio k w < prio k (cur k) \<and> a \<in> set (w # ws) then prio k (cur k) else prio k a)) \<and>
    (\<forall>a. a \<noteq> cur k \<longrightarrow> mutexWaiting (threads k' a) = mutexWaiting (threads k a))"
proof -
  let ?p = "cur k"
  let ?k1 = "upd_mutex m (\<lambda>x. x\<lparr>mutex_waiting := push_heap (\<lambda>t. prio k t) (mutex_waiting x @ [?p])\<rparr>) k"
  let ?k2 = "upd_thread ?p (\<lambda>x. x\<lparr>mutexWaiting := Some m\<rparr>) ?k1"
  have np: "?p \<notin> set (waitq k n)" for n using mwfD(1) [OF wf, of ?p n] nw by auto
  note ps = wq.push_set [OF mwfD(2,3) [OF wf, of m] np]
  have q: "waitq ?k2 n = (if n = m then push_heap (\<lambda>t. prio k t) (waitq k m @ [?p]) else waitq k n)" for n
    by simp
  have pr: "prio ?k2 a = prio k a" for a by simp
  have s2: "sched_rep ?k2 L" using r by (subst sched_rep_cong [of _ k]) simp_all
  have wf2: "mwf (set (concat L)) {} ?k2"
  proof -
    have mc: "mchain ?k2 x ms = mchain k x ms" for x ms by (rule mchain_cong) simp
    have "set (waitq ?k2 n) = (if n = m then insert ?p (set (waitq k m)) else set (waitq k n))" for n
      using q ps(2) by simp
    moreover have "is_heap (\<lambda>t. prio ?k2 t) (waitq ?k2 n)" "distinct (waitq ?k2 n)" for n
      using q ps(1,3) mwfD(2,3) [OF wf, of n] unfolding pr by auto
    moreover have "own ?k2 n = own k n" "mutexLocked (threads ?k2 t) = mutexLocked (threads k t)"
      "savedPriority (threads ?k2 t) = savedPriority (threads k t)"
      "mutexWaiting (threads ?k2 t) = (if t = ?p then Some m else mutexWaiting (threads k t))" for n t
      by simp_all
    moreover have "waitq k n = [] \<Longrightarrow> n \<noteq> m \<Longrightarrow> waitq ?k2 n = []" for n using q by simp
    ultimately show ?thesis
      using wf nw np o c unfolding mwf_def mc by auto
  qed
  have w2: "wchain ?k2 (w # ws)"
  proof -
    have "wchain ?k2 xs = wchain k xs" if "?p \<notin> set xs" for xs
      using that by (induction xs rule: induct_list012) auto
    then show ?thesis using ch(1,3) o(2) by simp
  qed
  show ?thesis
  proof (cases "prio k w < prio k ?p")
    case True
    have wS: "w \<in> set (concat L)" by (rule mwfD(6) [OF wf o(1)])
    from inherit_loop_eq [OF s2 wf2 w2 ch(2), of ?p] obtain k' L' where
      "inherit_loop ?p (hd (w # ws)) ?k2 = Some (Inr k')" "sched_rep k' L'"
      "set (concat L') = set (concat L)" "mwf (set (concat L)) {} k'" "mframe ?k2 k'"
      "\<forall>a. prio k' a = (if a \<in> set (w # ws) then prio ?k2 ?p else prio ?k2 a)"
      using ch(3,4) o(2) c wS by auto
    moreover from this(1) have "enqueue_waiter m w k = Some (Inr k')"
      using True nw o(2) by (simp add: enqueue_waiter_def Let_def)
    ultimately show ?thesis using True by (auto simp: mframe_def)
  next
    case False
    then have "enqueue_waiter m w k = Some (Inr ?k2)" using nw by (simp add: enqueue_waiter_def Let_def)
    with False s2 wf2 show ?thesis by (intro exI [of _ ?k2] exI [of _ L]) simp
  qed
qed

section \<open>Acquiring and releasing\<close>

lemma take_mutex_fields:
  "own (take_mutex m t k) n = (if n = m then Some t else own k n)"
  "mutex_next (mutexes (take_mutex m t k) n) =
     (if n = m then mutexLocked (threads k t) else mutex_next (mutexes k n))"
  "waitq (take_mutex m t k) n = waitq k n"
  "recursiveDepth (mutexes (take_mutex m t k) n) = recursiveDepth (mutexes k n)"
  "mutexLocked (threads (take_mutex m t k) a) = (if a = t then Some m else mutexLocked (threads k a))"
  "savedPriority (threads (take_mutex m t k) a) =
     (if a = t \<and> mutexLocked (threads k t) = nullptr then prio k t else savedPriority (threads k a))"
  "mutexWaiting (threads (take_mutex m t k) a) = mutexWaiting (threads k a)"
  "prio (take_mutex m t k) a = prio k a" "flags (threads (take_mutex m t k) a) = flags (threads k a)"
  "cur (take_mutex m t k) = cur k"
  by (auto simp: take_mutex_def Let_def)

lemma sched_rep_take [simp]: "sched_rep (take_mutex m t k) L = sched_rep k L"
  by (rule sched_rep_cong) (auto simp: take_mutex_def Let_def)

lemma take_mutex_mwf:
  assumes wf: "mwf S X k" and t: "t \<in> S" "prio_validate (prio k t)" "t \<notin> set (waitq k m)"
    and X: "own k m = nullptr \<and> X = {} \<or> X = {m}"
  shows "mwf S {} (take_mutex m t k)"
proof -
  have ch: "\<exists>ms. mchain (take_mutex m t k) (mutexLocked (threads (take_mutex m t k) a)) ms \<and> distinct ms \<and>
      (\<forall>n. n \<in> set ms \<longleftrightarrow> own (take_mutex m t k) n = Some a \<and> n \<notin> {})" for a
  proof -
    obtain ms where ms: "mchain k (mutexLocked (threads k a)) ms" "distinct ms"
      "\<And>n. n \<in> set ms \<longleftrightarrow> own k n = Some a \<and> n \<notin> X" using mwf_chain [OF wf] by blast
    have nm: "m \<notin> set ms" using ms(3) X by auto
    have c: "mchain (take_mutex m t k) q ms = mchain k q ms" for q
      by (rule mchain_cong) (use nm in \<open>auto simp: take_mutex_fields\<close>)
    have own: "n \<in> set ms \<longleftrightarrow> own k n = Some a \<and> n \<noteq> m" for n using ms(3) X nm by auto
    show ?thesis
    proof (cases "a = t")
      case True
      then show ?thesis using ms(1,2) nm c own
        by (intro exI [of _ "m # ms"]) (auto simp: take_mutex_fields)
    next
      case False
      then show ?thesis using ms(1,2) nm c own
        by (intro exI [of _ ms]) (auto simp: take_mutex_fields)
    qed
  qed
  show ?thesis
    unfolding mwf_def
  proof (intro conjI)
    show "\<forall>n. own (take_mutex m t k) n = nullptr \<longrightarrow> waitq (take_mutex m t k) n = []"
      using mwfD(5) [OF wf] by (auto simp: take_mutex_fields)
    show "\<forall>n a. own (take_mutex m t k) n = Some a \<longrightarrow> a \<in> S \<and> a \<notin> set (waitq (take_mutex m t k) n)"
      using mwfD(6,7) [OF wf] t(1,3) by (auto simp: take_mutex_fields)
    show "\<forall>a. mutexLocked (threads (take_mutex m t k) a) \<noteq> nullptr \<longrightarrow>
        prio_validate (savedPriority (threads (take_mutex m t k) a))"
      using mwfD(8) [OF wf] t(2) by (auto simp: take_mutex_fields)
  qed (use ch mwfD(1-4) [OF wf] in \<open>simp_all add: take_mutex_fields\<close>)
qed

lemma unlist_loop_eq:
  assumes "mchain k q (us @ m # vs)" "us \<noteq> []" "m \<notin> set us"
  shows "unlist_loop m q k =
    Some (Inr (upd_mutex (last us) (\<lambda>x. x\<lparr>mutex_next := mutex_next (mutexes k m)\<rparr>) k))"
  using assms
proof (induction us arbitrary: q)
  case (Cons u us)
  then have q: "q = Some u" by simp
  show ?case
  proof (cases us)
    case Nil
    then show ?thesis using Cons.prems by (subst unlist_loop.simps) simp
  next
    case (Cons v ws)
    then have "mutex_next (mutexes k u) = Some v" "v \<noteq> m" using Cons.prems by auto
    then show ?thesis
      using Cons.IH [of "mutex_next (mutexes k u)"] Cons.prems Cons
      by (subst unlist_loop.simps) (simp add: q)
  qed
qed simp

lemma mchain_drop:
  assumes "mchain k q (us @ m # vs)" "distinct (us @ m # vs)" "us \<noteq> []"
  shows "mchain (upd_mutex (last us) (\<lambda>x. x\<lparr>mutex_next := mutex_next (mutexes k m)\<rparr>) k) q (us @ vs)"
  using assms
proof (induction us arbitrary: q)
  case (Cons u us)
  show ?case
  proof (cases us)
    case Nil
    let ?k = "upd_mutex u (\<lambda>x. x\<lparr>mutex_next := mutex_next (mutexes k m)\<rparr>) k"
    have "mchain ?k r vs = mchain k r vs" for r by (rule mchain_cong) (use Cons.prems in auto)
    with Nil Cons.prems show ?thesis by simp
  next
    case (Cons v ws)
    have "last us \<noteq> u" using Cons.prems(2) Cons by (metis distinct.simps(2) in_set_conv_decomp last_in_set list.discI append_Cons Un_iff set_append)
    with Cons.IH Cons.prems Cons show ?thesis by simp
  qed
qed simp

text \<open>Taking a mutex off its owner's list changes nothing else.\<close>

definition lists_only :: "kernel \<Rightarrow> kernel \<Rightarrow> bool" where
  "lists_only k k' \<longleftrightarrow> cur k' = cur k \<and> (\<forall>L. sched_rep k' L = sched_rep k L) \<and>
     (\<forall>t. flags (threads k' t) = flags (threads k t) \<and> prio k' t = prio k t \<and>
        mutexWaiting (threads k' t) = mutexWaiting (threads k t) \<and>
        savedPriority (threads k' t) = savedPriority (threads k t)) \<and>
     (\<forall>m. own k' m = own k m \<and> waitq k' m = waitq k m \<and>
        recursiveDepth (mutexes k' m) = recursiveDepth (mutexes k m))"

lemma unlist_mwf:
  assumes wf: "mwf S {} k" and o: "own k m = Some p" and lo: "lists_only k k'"
    and other: "\<And>a ms. a \<noteq> p \<Longrightarrow> mchain k (mutexLocked (threads k a)) ms \<Longrightarrow> (\<And>n. n \<in> set ms \<Longrightarrow> own k n = Some a) \<Longrightarrow>
      mchain k' (mutexLocked (threads k' a)) ms"
    and mine: "mchain k' (mutexLocked (threads k' p)) ms" "distinct ms"
      "\<And>n. n \<in> set ms \<longleftrightarrow> own k n = Some p \<and> n \<noteq> m"
    and saved: "\<And>t. mutexLocked (threads k' t) \<noteq> nullptr \<Longrightarrow> mutexLocked (threads k t) \<noteq> nullptr"
  shows "mwf S {m} k'"
proof -
  note l = lo [unfolded lists_only_def]
  have pr: "(\<lambda>t. prio k' t) = (\<lambda>t. prio k t)" using l by auto
  have "\<exists>ms. mchain k' (mutexLocked (threads k' t)) ms \<and> distinct ms \<and>
      (\<forall>n. n \<in> set ms \<longleftrightarrow> own k' n = Some t \<and> n \<notin> {m})" for t
  proof (cases "t = p")
    case True
    with mine l show ?thesis by auto
  next
    case False
    obtain ns where ns: "mchain k (mutexLocked (threads k t)) ns" "distinct ns"
      "\<And>n. n \<in> set ns \<longleftrightarrow> own k n = Some t \<and> n \<notin> {}" using mwf_chain [OF wf] by blast
    have "mchain k' (mutexLocked (threads k' t)) ns" by (rule other [OF False ns(1)]) (use ns(3) in simp)
    moreover have "\<forall>n. n \<in> set ns \<longleftrightarrow> own k' n = Some t \<and> n \<notin> {m}" using ns(3) l o False by auto
    ultimately show ?thesis using ns(2) by blast
  qed
  moreover have "\<forall>t. mutexLocked (threads k' t) \<noteq> nullptr \<longrightarrow> prio_validate (savedPriority (threads k' t))"
    using saved mwfD(8) [OF wf] l by auto
  ultimately show ?thesis using mwfD(1-7) [OF wf] l unfolding mwf_def pr by auto
qed

lemma unlist_mutex_eq:
  assumes wf: "mwf S {} k" and o: "own k m = Some p"
  shows "\<exists>k'. unlist_mutex m p k = Some (Inr k') \<and> mwf S {m} k' \<and> lists_only k k'"
proof -
  obtain ms where ms: "mchain k (mutexLocked (threads k p)) ms" "distinct ms"
    "\<And>n. n \<in> set ms \<longleftrightarrow> own k n = Some p \<and> n \<notin> {}" using mwf_chain [OF wf] by blast
  then have "m \<in> set ms" using o by simp
  from split_list_first [OF this] obtain us vs where sp: "ms = us @ m # vs" "m \<notin> set us" by blast
  have mem: "n \<in> set (us @ vs) \<longleftrightarrow> own k n = Some p \<and> n \<noteq> m" for n using ms(2,3) sp by auto
  have d: "distinct (us @ vs)" using ms(2) sp by simp
  have ne: "mutexLocked (threads k p) \<noteq> nullptr" using ms(1) sp(1) by (cases us) auto
  show ?thesis
  proof (cases "us = []")
    case True
    let ?k = "upd_thread p (\<lambda>x. x\<lparr>mutexLocked := mutex_next (mutexes k m)\<rparr>) k"
    have c: "mchain ?k q ns = mchain k q ns" for q ns by (rule mchain_cong) simp
    have "sched_rep ?k L = sched_rep k L" for L by (rule sched_rep_cong) simp_all
    then have lo: "lists_only k ?k" by (auto simp: lists_only_def)
    have "unlist_mutex m p k = Some (Inr ?k)" using ms(1) sp True by (simp add: unlist_mutex_def)
    moreover have "mwf S {m} ?k"
    proof (rule unlist_mwf [OF wf o lo])
      show "mchain ?k (mutexLocked (threads ?k p)) (us @ vs)" using ms(1) sp True c by simp
      show "n \<in> set (us @ vs) \<longleftrightarrow> own k n = Some p \<and> n \<noteq> m" for n by (rule mem)
      show "mchain ?k (mutexLocked (threads ?k a)) ns"
        if "a \<noteq> p" "mchain k (mutexLocked (threads k a)) ns" for a ns using that c by simp
      show "mutexLocked (threads k a) \<noteq> nullptr" if "mutexLocked (threads ?k a) \<noteq> nullptr" for a
        using that ne by (cases "a = p") simp_all
    qed (rule d)
    ultimately show ?thesis using lo by blast
  next
    case False
    let ?k = "upd_mutex (last us) (\<lambda>x. x\<lparr>mutex_next := mutex_next (mutexes k m)\<rparr>) k"
    have lo: "lists_only k ?k" by (auto simp: lists_only_def)
    have lu: "own k (last us) = Some p"
      using last_in_set [OF False] sp(1) ms(3) [of "last us"] by simp
    have nm: "mutexLocked (threads k p) \<noteq> Some m" using ms(1) sp False by (cases us) auto
    have "unlist_mutex m p k = Some (Inr ?k)"
      using unlist_loop_eq [of k _ us m vs] ms(1) sp False nm by (simp add: unlist_mutex_def)
    moreover have "mwf S {m} ?k"
    proof (rule unlist_mwf [OF wf o lo])
      show "mchain ?k (mutexLocked (threads ?k p)) (us @ vs)"
        using mchain_drop [of k _ us m vs] ms(1,2) sp False by simp
      show "n \<in> set (us @ vs) \<longleftrightarrow> own k n = Some p \<and> n \<noteq> m" for n by (rule mem)
      show "mchain ?k (mutexLocked (threads ?k a)) ns"
        if "a \<noteq> p" "mchain k (mutexLocked (threads k a)) ns" "\<And>n. n \<in> set ns \<Longrightarrow> own k n = Some a" for a ns
      proof -
        have "last us \<notin> set ns" using that(1,3) lu by auto
        then have "mchain ?k q ns = mchain k q ns" for q by (intro mchain_cong) auto
        with that(2) show ?thesis by simp
      qed
    qed (use d in auto)
    ultimately show ?thesis using lo by blast
  qed
qed

lemma inherited_eq:
  assumes "mchain k q ms" "\<And>m. is_heap (\<lambda>t. prio k t) (waitq k m)"
  shows "\<exists>v. inherited k pr q = Some v \<and> pr \<le> v \<and> (\<forall>m\<in>set ms. \<forall>t\<in>set (waitq k m). prio k t \<le> v) \<and>
    (v = pr \<or> (\<exists>m\<in>set ms. \<exists>t\<in>set (waitq k m). v = prio k t))"
  using assms(1)
proof (induction ms arbitrary: q pr)
  case Nil
  then show ?case by (subst inherited.simps) simp
next
  case (Cons m ms)
  then have q: "q = Some m" and ch: "mchain k (mutex_next (mutexes k m)) ms" by auto
  let ?pr = "if waitq k m \<noteq> [] then if pr < prio k (hd (waitq k m)) then prio k (hd (waitq k m)) else pr
             else pr"
  from Cons.IH [OF ch, of ?pr] obtain v where
    v: "inherited k ?pr (mutex_next (mutexes k m)) = Some v" "?pr \<le> v"
      "\<forall>m\<in>set ms. \<forall>t\<in>set (waitq k m). prio k t \<le> v"
      "v = ?pr \<or> (\<exists>m\<in>set ms. \<exists>t\<in>set (waitq k m). v = prio k t)" by blast
  have "inherited k pr q = Some v" using v(1) q by (subst inherited.simps) simp
  moreover have "pr \<le> v" using v(2) by (auto split: if_splits)
  moreover have "prio k t \<le> v" if "t \<in> set (waitq k m)" for t
  proof -
    have "prio k t \<le> prio k (hd (waitq k m))" using wq.front [OF assms(2) that] .
    moreover have "waitq k m \<noteq> []" using that by auto
    ultimately show ?thesis using v(2) by (auto split: if_splits)
  qed
  moreover have "v = pr \<or> (\<exists>n\<in>set (m # ms). \<exists>t\<in>set (waitq k n). v = prio k t)"
    using v(4) by (auto split: if_splits)
  ultimately show ?case using v(3) by auto
qed

text \<open>The priority an owner keeps: its own or the highest of those waiting for its other mutexes.\<close>

definition kept_priority :: "kernel \<Rightarrow> nat \<Rightarrow> nat \<Rightarrow> int \<Rightarrow> bool" where
  "kept_priority k p m v \<longleftrightarrow> savedPriority (threads k p) \<le> v \<and>
     (\<forall>n. own k n = Some p \<and> n \<noteq> m \<longrightarrow> (\<forall>t\<in>set (waitq k n). prio k t \<le> v)) \<and>
     (v = savedPriority (threads k p) \<or>
      (\<exists>n. own k n = Some p \<and> n \<noteq> m \<and> (\<exists>t\<in>set (waitq k n). v = prio k t)))"

lemma restore_priority_eq:
  assumes r: "sched_rep k L" and wf: "mwf (set (concat L)) {m} k" and p: "p \<in> set (concat L)"
    and nw: "mutexWaiting (threads k p) = nullptr" and sv: "prio_validate (savedPriority (threads k p))"
  shows "\<exists>k' L' v. restore_priority p k = Some (Inr k') \<and> sched_rep k' L' \<and>
    set (concat L') = set (concat L) \<and> mwf (set (concat L)) {m} k' \<and> sched_frame k k' \<and>
    (\<forall>a. prio k' a = (if a = p then v else prio k a)) \<and> kept_priority k p m v"
proof -
  obtain ms where ms: "mchain k (mutexLocked (threads k p)) ms" "distinct ms"
    "\<And>n. n \<in> set ms \<longleftrightarrow> own k n = Some p \<and> n \<notin> {m}" by (rule mwf_chain [OF wf, of p]) blast
  from inherited_eq [OF ms(1) mwfD(2) [OF wf]] obtain v where
    v: "inherited k (savedPriority (threads k p)) (mutexLocked (threads k p)) = Some v"
      "savedPriority (threads k p) \<le> v" "\<forall>m\<in>set ms. \<forall>t\<in>set (waitq k m). prio k t \<le> v"
      "v = savedPriority (threads k p) \<or> (\<exists>m\<in>set ms. \<exists>t\<in>set (waitq k m). v = prio k t)" by blast
  have kp: "kept_priority k p m v"
    unfolding kept_priority_def using v(2-4) ms(3) by (simp only: Bex_def Ball_def) auto
  have "prio_validate v" using v(4) sv sched_valid_prio [OF r] mwfD(4) [OF wf] by blast
  then obtain k1 L1 where
    k1: "PKsetPriority p v k = Some (Inr k1)" "sched_rep k1 L1" "set (concat L1) = set (concat L)"
      "sched_frame k k1" "\<forall>a. prio k1 a = (if a = p then v else prio k a)"
    using setPriority_ok [OF r p] by blast
  have none: "mutexLocked (threads k p) = nullptr \<Longrightarrow> v = savedPriority (threads k p)"
    using v(1) by (subst (asm) inherited.simps) simp
  have eq: "restore_priority p k = (if v \<noteq> prio k p then PKsetPriority p v k else Some (Inr k))"
    using v(1) none by (auto simp: restore_priority_def)
  show ?thesis
  proof (cases "v = prio k p")
    case True
    then have "restore_priority p k = Some (Inr k)" "\<forall>a. prio k a = (if a = p then v else prio k a)"
      using eq by simp_all
    with r wf kp sched_frame_refl [of k] show ?thesis by blast
  next
    case False
    then have "restore_priority p k = Some (Inr k1)" using eq k1(1) by simp
    with k1 kp mwf_prio [OF wf k1(4,5) nw] show ?thesis by blast
  qed
qed

lemma PKwakeup_fields [simp]:
  "flags (threads (PKwakeup t k) a) =
     (if a = t then IRQsetWait False (flags (threads k t)) else flags (threads k a))"
  "mutexWaiting (threads (PKwakeup t k) a) = mutexWaiting (threads k a)"
  "mutexLocked (threads (PKwakeup t k) a) = mutexLocked (threads k a)"
  "savedPriority (threads (PKwakeup t k) a) = savedPriority (threads k a)"
  "prio (PKwakeup t k) a = prio k a" "mutexes (PKwakeup t k) = mutexes k" "cur (PKwakeup t k) = cur k"
  "sched_rep (PKwakeup t k) L = sched_rep k L"
  by (auto simp: PKwakeup_def)

text \<open>The state between the choice of the new owner \<open>t\<close> and \<open>take_mutex\<close>.\<close>

definition chosen :: "nat \<Rightarrow> nat \<Rightarrow> kernel \<Rightarrow> kernel" where
  "chosen m t k =
     PKwakeup t (upd_thread t (\<lambda>x. x\<lparr>mutexWaiting := nullptr\<rparr>)
       (upd_mutex m (\<lambda>x. x\<lparr>owner := Some t,
          mutex_waiting := butlast (pop_heap (\<lambda>t. prio k t) (mutex_waiting x))\<rparr>) k))"

lemma chosen_mwf:
  assumes wf: "mwf S {m} k" and q: "waitq k m = t # q"
  shows "mwf S {m} (chosen m t k)" "set (waitq (chosen m t k) m) = set (waitq k m) - {t}"
proof -
  let ?k = "chosen m t k"
  have "waitq k m \<noteq> []" using q by simp
  note ps = wq.pop_set [OF mwfD(2,3) [OF wf] this]
  have sq: "set (waitq ?k n) = (if n = m then set (waitq k m) - {t} else set (waitq k n))" for n
    using ps(2) q by (simp add: chosen_def)
  then show "set (waitq (chosen m t k) m) = set (waitq k m) - {t}" by simp
  have pr: "prio ?k a = prio k a" for a by (simp add: chosen_def)
  have hp: "is_heap (\<lambda>t. prio ?k t) (waitq ?k n)" "distinct (waitq ?k n)" for n
    unfolding pr using ps(1,3) mwfD(2,3) [OF wf, of n] by (auto simp: chosen_def)
  have tS: "t \<in> S" using mwfD(4) [OF wf, of m] q by auto
  have c: "mchain ?k x ms = mchain k x ms" for x ms by (rule mchain_cong) (simp add: chosen_def)
  have w: "mutexWaiting (threads ?k a) = (if a = t then nullptr else mutexWaiting (threads k a))" for a
    by (simp add: chosen_def)
  have ow: "own ?k n = (if n = m then Some t else own k n)" for n by (simp add: chosen_def)
  have lk: "mutexLocked (threads ?k a) = mutexLocked (threads k a)"
    "savedPriority (threads ?k a) = savedPriority (threads k a)" for a by (auto simp: chosen_def)
  have tw: "mutexWaiting (threads k t) = Some m" using mwfD(1) [OF wf, of t m] q by simp
  have w1: "mutexWaiting (threads ?k a) = Some n \<longleftrightarrow> a \<in> set (waitq ?k n)" for a n
    using mwfD(1) [OF wf, of a n] mwfD(1) [OF wf, of t n] tw unfolding sq w by auto
  have w2: "own ?k n = nullptr \<longrightarrow> waitq ?k n = []" for n
    using mwfD(5) [OF wf, of n] unfolding ow by (auto simp: chosen_def)
  have w3: "own ?k n = Some a \<longrightarrow> a \<in> S \<and> a \<notin> set (waitq ?k n)" for n a
    using mwfD(6,7) [OF wf, of n a] tS unfolding ow sq by auto
  have w4: "\<exists>ms. mchain ?k (mutexLocked (threads ?k a)) ms \<and> distinct ms \<and>
      (\<forall>n. n \<in> set ms \<longleftrightarrow> own ?k n = Some a \<and> n \<notin> {m})" for a
  proof -
    obtain ms where ms: "mchain k (mutexLocked (threads k a)) ms" "distinct ms"
      "\<And>n. n \<in> set ms \<longleftrightarrow> own k n = Some a \<and> n \<notin> {m}" by (rule mwf_chain [OF wf, of a]) blast
    then show ?thesis unfolding c lk ow by (intro exI [of _ ms]) auto
  qed
  have w5: "set (waitq ?k n) \<subseteq> S" for n using mwfD(4) [OF wf] unfolding sq by auto
  have w6: "mutexLocked (threads ?k a) \<noteq> nullptr \<longrightarrow> prio_validate (savedPriority (threads ?k a))" for a
    using mwfD(8) [OF wf] lk by simp
  show "mwf S {m} ?k" by (rule mwfI) (fact w1 hp w5 w2 w3 w4 w6)+
qed

lemma handover_eq:
  assumes r: "sched_rep k L" and wf: "mwf (set (concat L)) {m} k" and q: "waitq k m = t # q"
  shows "\<exists>k' L'. handover m k = Some (Inr (k', Some t)) \<and> sched_rep k' L' \<and>
    set (concat L') = set (concat L) \<and> mwf (set (concat L)) {} k' \<and> cur k' = cur k \<and>
    (\<forall>n. own k' n = (if n = m then Some t else own k n)) \<and>
    set (waitq k' m) = set (waitq k m) - {t} \<and>
    (\<forall>a. flags (threads k' a) =
       (if a = t then IRQsetWait False (flags (threads k t)) else flags (threads k a))) \<and>
    (\<forall>a. a \<noteq> t \<longrightarrow> prio k' a = prio k a) \<and>
    (\<forall>n. recursiveDepth (mutexes k' n) = recursiveDepth (mutexes k n))"
proof -
  let ?k1 = "chosen m t k" and ?k2 = "take_mutex m t (chosen m t k)"
  note ch = chosen_mwf [OF wf q]
  have tw: "mutexWaiting (threads k t) = Some m" using mwfD(1) [OF wf, of t m] q by simp
  have tS: "t \<in> set (concat L)" using mwfD(4) [OF wf, of m] q by auto
  have f1: "prio ?k1 a = prio k a" "cur ?k1 = cur k" "sched_rep ?k1 L"
    "mutexWaiting (threads ?k1 t) = nullptr"
    "flags (threads ?k1 a) = (if a = t then IRQsetWait False (flags (threads k t)) else flags (threads k a))"
    "own ?k1 n = (if n = m then Some t else own k n)"
    "recursiveDepth (mutexes ?k1 n) = recursiveDepth (mutexes k n)" for a n
    using r by (auto simp: chosen_def) (subst sched_rep_cong [of _ k]; simp)+
  have wf2: "mwf (set (concat L)) {} ?k2"
  proof (rule take_mutex_mwf [OF ch(1) tS])
    show "prio_validate (prio ?k1 t)" unfolding f1 by (rule sched_valid_prio [OF r tS])
  qed (use ch(2) in auto)
  have s2: "sched_rep ?k2 L" using f1 by simp
  have "handover m k = obind (if waitq ?k2 m \<noteq> [] \<and> prio ?k2 t < prio ?k2 (hd (waitq ?k2 m))
      then PKsetPriority t (prio ?k2 (hd (waitq ?k2 m))) ?k2 else Some (Inr ?k2)) (\<lambda>k. Some (Inr (k, Some t)))"
    unfolding handover_def chosen_def using q tw by (simp add: Let_def)
  moreover have "\<exists>k' L'. (if waitq ?k2 m \<noteq> [] \<and> prio ?k2 t < prio ?k2 (hd (waitq ?k2 m))
      then PKsetPriority t (prio ?k2 (hd (waitq ?k2 m))) ?k2 else Some (Inr ?k2)) = Some (Inr k') \<and>
      sched_rep k' L' \<and> set (concat L') = set (concat L) \<and> mwf (set (concat L)) {} k' \<and>
      sched_frame ?k2 k' \<and> (\<forall>a. a \<noteq> t \<longrightarrow> prio k' a = prio ?k2 a)"
  proof (cases "waitq ?k2 m \<noteq> [] \<and> prio ?k2 t < prio ?k2 (hd (waitq ?k2 m))")
    case True
    then have "hd (waitq ?k2 m) \<in> set (concat L)" using mwfD(4) [OF wf2, of m] hd_in_set by blast
    from setPriority_ok [OF s2 tS sched_valid_prio [OF s2 this]] obtain k' L' where
      k': "PKsetPriority t (prio ?k2 (hd (waitq ?k2 m))) ?k2 = Some (Inr k')" "sched_rep k' L'"
        "set (concat L') = set (concat L)" "sched_frame ?k2 k'"
        "\<forall>a. prio k' a = (if a = t then prio ?k2 (hd (waitq ?k2 m)) else prio ?k2 a)" by blast
    have "mutexWaiting (threads ?k2 t) = nullptr" using f1 by (simp add: take_mutex_fields)
    from mwf_prio [OF wf2 k'(4,5) this] k' True show ?thesis by (simp only: if_True) auto
  next
    case False
    with s2 wf2 show ?thesis by (simp only: if_False) (auto intro!: exI [of _ ?k2] exI [of _ L])
  qed
  then obtain k' L' where
    k': "(if waitq ?k2 m \<noteq> [] \<and> prio ?k2 t < prio ?k2 (hd (waitq ?k2 m))
      then PKsetPriority t (prio ?k2 (hd (waitq ?k2 m))) ?k2 else Some (Inr ?k2)) = Some (Inr k')"
      "sched_rep k' L'" "set (concat L') = set (concat L)" "mwf (set (concat L)) {} k'"
      "sched_frame ?k2 k'" "\<forall>a. a \<noteq> t \<longrightarrow> prio k' a = prio ?k2 a" by blast
  ultimately have "handover m k = Some (Inr (k', Some t))" by (simp only: k'(1) obind_simps)
  moreover note f = sched_frame_fields [OF k'(5)]
  ultimately show ?thesis
    using k'(2-4,6) ch(2) f1 by (intro exI [of _ k'] exI [of _ L']) (simp add: f take_mutex_fields)
qed

lemma handover_free:
  assumes wf: "mwf S {m} k" and q: "waitq k m = []"
  shows "\<exists>k'. handover m k = Some (Inr (k', nullptr)) \<and> mwf S {} k' \<and> (\<forall>L. sched_rep k' L = sched_rep k L) \<and>
    (\<forall>n. own k' n = (if n = m then nullptr else own k n)) \<and> threads k' = threads k \<and> cur k' = cur k \<and>
    (\<forall>n. waitq k' n = waitq k n) \<and> (\<forall>n. recursiveDepth (mutexes k' n) = recursiveDepth (mutexes k n))"
proof -
  let ?k = "upd_mutex m (\<lambda>x. x\<lparr>owner := nullptr, mutex_waiting := []\<rparr>) k"
  have wq: "waitq ?k n = waitq k n" for n using q by simp
  have c: "mchain ?k x ms = mchain k x ms" for x ms by (rule mchain_cong) simp
  have "mwf S {} ?k"
  proof (rule mwfI)
    show "\<exists>ms. mchain ?k (mutexLocked (threads ?k t)) ms \<and> distinct ms \<and>
        (\<forall>n. n \<in> set ms \<longleftrightarrow> own ?k n = Some t \<and> n \<notin> {})" for t
    proof -
      obtain ms where "mchain k (mutexLocked (threads k t)) ms" "distinct ms"
        "\<And>n. n \<in> set ms \<longleftrightarrow> own k n = Some t \<and> n \<notin> {m}" by (rule mwf_chain [OF wf, of t]) blast
      then show ?thesis using c by (intro exI [of _ ms]) auto
    qed
    show "own ?k n = nullptr \<longrightarrow> waitq ?k n = []" for n
      unfolding wq using mwfD(5) [OF wf, of n] q by auto
    show "own ?k n = Some t \<longrightarrow> t \<in> S \<and> t \<notin> set (waitq ?k n)" for n t
      unfolding wq using mwfD(6,7) [OF wf, of n t] by auto
    show "mutexWaiting (threads ?k t) = Some n \<longleftrightarrow> t \<in> set (waitq ?k n)" for t n
      unfolding wq using mwfD(1) [OF wf] by simp
    show "is_heap (\<lambda>t. prio ?k t) (waitq ?k n)" "distinct (waitq ?k n)" "set (waitq ?k n) \<subseteq> S" for n
      unfolding wq using mwfD(2-4) [OF wf] by simp_all
  qed (use mwfD(8) [OF wf] in simp)
  then show ?thesis using q by (intro exI [of _ ?k]) (auto simp: handover_def)
qed

text \<open>The whole release: \<open>unlist\<close>, \<open>restore\<close>, \<open>handover\<close>.\<close>

definition release :: "nat \<Rightarrow> nat \<Rightarrow> kernel \<Rightarrow> (kernel \<times> ptr) result option" where
  "release m p k =
     obind (unlist_mutex m p k) (\<lambda>k. obind (restore_priority p k) (\<lambda>k. handover m k))"

definition first_waiter :: "nat list \<Rightarrow> ptr" where
  "first_waiter q = (case q of [] \<Rightarrow> nullptr | t # _ \<Rightarrow> Some t)"

lemma release_eq:
  assumes wf: "mutex_wf k L" and o: "own k m = Some p" and nw: "mutexWaiting (threads k p) = nullptr"
  shows "\<exists>k' L' v. release m p k = Some (Inr (k', first_waiter (waitq k m))) \<and> mutex_wf k' L' \<and>
    set (concat L') = set (concat L) \<and> cur k' = cur k \<and>
    (\<forall>n. own k' n = (if n = m then first_waiter (waitq k m) else own k n)) \<and>
    set (waitq k' m) = set (waitq k m) - set_option (first_waiter (waitq k m)) \<and>
    (\<forall>a. flags (threads k' a) = (if first_waiter (waitq k m) = Some a
       then IRQsetWait False (flags (threads k a)) else flags (threads k a))) \<and>
    kept_priority k p m v \<and> prio k' p = v \<and>
    (\<forall>n. recursiveDepth (mutexes k' n) = recursiveDepth (mutexes k n))"
proof -
  let ?S = "set (concat L)"
  have r: "sched_rep k L" and w0: "mwf ?S {} k" using wf by (auto simp: mutex_wf_def)
  have pS: "p \<in> ?S" by (rule mwfD(6) [OF w0 o])
  from unlist_mutex_eq [OF w0 o] obtain k1 where
    k1: "unlist_mutex m p k = Some (Inr k1)" "mwf ?S {m} k1" "lists_only k k1" by blast
  note l1 = k1(3) [unfolded lists_only_def]
  obtain ms where ms: "mchain k (mutexLocked (threads k p)) ms" "distinct ms"
    "\<And>n. n \<in> set ms \<longleftrightarrow> own k n = Some p \<and> n \<notin> {}" by (rule mwf_chain [OF w0, of p]) blast
  have "mutexLocked (threads k p) \<noteq> nullptr" using ms(1) ms(3) [of m] o by (cases ms) auto
  then have sv: "prio_validate (savedPriority (threads k1 p))" using mwfD(8) [OF w0] l1 by simp
  have "sched_rep k1 L" "mutexWaiting (threads k1 p) = nullptr" using r nw l1 by auto
  from restore_priority_eq [OF this(1) k1(2) pS this(2) sv] obtain k2 L2 v where
    k2: "restore_priority p k1 = Some (Inr k2)" "sched_rep k2 L2" "set (concat L2) = ?S"
      "mwf ?S {m} k2" "sched_frame k1 k2" "\<forall>a. prio k2 a = (if a = p then v else prio k1 a)"
      "kept_priority k1 p m v" by blast
  note f2 = sched_frame_fields [OF k2(5)]
  have q: "waitq k2 n = waitq k n" "own k2 n = own k n" "recursiveDepth (mutexes k2 n) = recursiveDepth (mutexes k n)"
    for n using l1 by (auto simp: f2)
  have fl: "flags (threads k2 a) = flags (threads k a)" "cur k2 = cur k" for a using l1 by (auto simp: f2)
  have kp: "kept_priority k p m v" using k2(7) l1 unfolding kept_priority_def by simp
  have rel: "release m p k = handover m k2" using k1(1) k2(1) by (simp add: release_def)
  have np: "p \<notin> set (waitq k m)" by (rule mwfD(7) [OF w0 o])
  show ?thesis
  proof (cases "waitq k m")
    case Nil
    then have "waitq k2 m = []" using q by simp
    from handover_free [OF k2(4) this] obtain k3 where
      k3: "handover m k2 = Some (Inr (k3, nullptr))" "mwf ?S {} k3" "\<forall>L. sched_rep k3 L = sched_rep k2 L"
        "\<forall>n. own k3 n = (if n = m then nullptr else own k2 n)" "threads k3 = threads k2" "cur k3 = cur k2"
        "\<forall>n. waitq k3 n = waitq k2 n" "\<forall>n. recursiveDepth (mutexes k3 n) = recursiveDepth (mutexes k2 n)" by blast
    have "mutex_wf k3 L2" using k3(2,3) k2(2,3) unfolding mutex_wf_def by metis
    with Nil k3 k2(3,6) rel q fl kp show ?thesis
      by (intro exI [of _ k3] exI [of _ L2] exI [of _ v]) (simp add: first_waiter_def)
  next
    case (Cons t ts)
    then have "waitq k2 m = t # ts" "p \<noteq> t" using q np by auto
    from handover_eq [OF k2(2) k2(4) [folded k2(3)] this(1)] obtain k3 L3 where
      k3: "handover m k2 = Some (Inr (k3, Some t))" "sched_rep k3 L3" "set (concat L3) = set (concat L2)"
        "mwf (set (concat L2)) {} k3" "cur k3 = cur k2" "\<forall>n. own k3 n = (if n = m then Some t else own k2 n)"
        "set (waitq k3 m) = set (waitq k2 m) - {t}"
        "\<forall>a. flags (threads k3 a) =
          (if a = t then IRQsetWait False (flags (threads k2 t)) else flags (threads k2 a))"
        "\<forall>a. a \<noteq> t \<longrightarrow> prio k3 a = prio k2 a"
        "\<forall>n. recursiveDepth (mutexes k3 n) = recursiveDepth (mutexes k2 n)" by blast
    have "mutex_wf k3 L3" using k3(2-4) unfolding mutex_wf_def by metis
    moreover have "prio k3 p = v" using k3(9) k2(6) \<open>p \<noteq> t\<close> by simp
    ultimately show ?thesis using Cons k3 k2(3) rel q fl kp
      by (intro exI [of _ k3] exI [of _ L3] exI [of _ v]) (auto simp: first_waiter_def)
  qed
qed

lemma PKunlock_release:
  assumes "own k m = Some (cur k)" "recursiveDepth (mutexes k m) \<le> 0"
  shows "PKunlock m k = obind (release m (cur k) k) (\<lambda>(k', new).
    Some (Inr (k', case new of None \<Rightarrow> False | Some t \<Rightarrow> prio k' (cur k) < prio k' t)))"
  using assms by (simp add: PKunlock_def release_def Let_def obind_assoc)

lemma mutex_wf_cur [simp]: "mutex_wf (k\<lparr>cur := c\<rparr>) L = mutex_wf k L"
proof -
  have "mchain (k\<lparr>cur := c\<rparr>) q ms = mchain k q ms" for q ms by (rule mchain_cong) simp
  then show ?thesis by (simp add: mutex_wf_def mwf_def)
qed

lemma wchain_owner:
  "wchain k (w # ws) \<Longrightarrow> mwf S X k \<Longrightarrow> set ws \<subseteq> S"
proof (induction ws arbitrary: w)
  case (Cons v ws)
  from Cons.prems(1) obtain m where "own k m = Some v" "wchain k (v # ws)" by auto
  with Cons.IH Cons.prems(2) mwfD(6) [OF Cons.prems(2)] show ?case by auto
qed simp

text \<open>No waiting cycle is closed when \<open>t\<close> waits for \<open>m\<close>.\<close>

definition no_cycle :: "kernel \<Rightarrow> nat \<Rightarrow> nat \<Rightarrow> bool" where
  "no_cycle k t m \<longleftrightarrow> own k m = nullptr \<or> own k m = Some t \<or>
     (\<exists>w ws. own k m = Some w \<and> wchain k (w # ws) \<and> distinct (w # ws) \<and> t \<notin> set (w # ws))"

lemma PKlock_free:
  assumes wf: "mutex_wf k L" and o: "own k m = nullptr" and c: "cur k \<in> set (concat L)"
  shows "PKlock m k = Some (Inr (take_mutex m (cur k) k, True))"
    "PKtryLock m k = (take_mutex m (cur k) k, True)" "mutex_wf (take_mutex m (cur k) k) L"
proof -
  have r: "sched_rep k L" and w: "mwf (set (concat L)) {} k" using wf by (auto simp: mutex_wf_def)
  have "mwf (set (concat L)) {} (take_mutex m (cur k) k)"
    by (rule take_mutex_mwf [OF w c sched_valid_prio [OF r c]]) (use mwfD(5) [OF w o] o in auto)
  then show "mutex_wf (take_mutex m (cur k) k) L" using r by (simp add: mutex_wf_def)
qed (simp_all add: PKlock_def PKtryLock_def o)

lemma mwf_flags:
  assumes "\<And>t. mutexWaiting (threads k' t) = mutexWaiting (threads k t)"
    "\<And>t. mutexLocked (threads k' t) = mutexLocked (threads k t)"
    "\<And>t. savedPriority (threads k' t) = savedPriority (threads k t)" "\<And>t. prio k' t = prio k t"
    "\<And>m. own k' m = own k m" "\<And>m. waitq k' m = waitq k m"
    "\<And>m. mutex_next (mutexes k' m) = mutex_next (mutexes k m)"
  shows "mwf S X k' = mwf S X k"
proof -
  have "mchain k' q ms = mchain k q ms" for q ms by (rule mchain_cong) (rule assms)
  then show ?thesis unfolding mwf_def assms by simp
qed

lemma mutex_wf_flags [simp]: "mutex_wf (upd_flags t f k) L = mutex_wf k L"
  unfolding mutex_wf_def by (subst mwf_flags [of _ k]) auto

lemma mutex_wf_depth [simp]:
  "mutex_wf (upd_mutex m (\<lambda>x. x\<lparr>recursiveDepth := f x\<rparr>) k) L = mutex_wf k L"
  unfolding mutex_wf_def by (subst mwf_flags [of _ k]) auto

lemma PKlock_blocks:
  assumes wf: "mutex_wf k L" and c: "cur k \<in> set (concat L)"
    and nw: "mutexWaiting (threads k (cur k)) = nullptr"
    and o: "own k m = Some w" and ch: "wchain k (w # ws)" "distinct (w # ws)" "cur k \<notin> set (w # ws)"
  shows "\<exists>k' L'. PKlock m k = Some (Inr (k', False)) \<and> mutex_wf k' L' \<and>
    set (concat L') = set (concat L) \<and> cur k' = cur k \<and> blocked k' (cur k) \<and>
    mutexWaiting (threads k' (cur k)) = Some m \<and> (\<forall>n. own k' n = own k n) \<and>
    (\<forall>a. prio k' a = (if prio k w < prio k (cur k) \<and> a \<in> set (w # ws) then prio k (cur k) else prio k a)) \<and>
    (\<forall>a. a \<noteq> cur k \<longrightarrow> mutexWaiting (threads k' a) = mutexWaiting (threads k a))"
proof -
  have r: "sched_rep k L" and w: "mwf (set (concat L)) {} k" using wf by (auto simp: mutex_wf_def)
  have wc: "w \<noteq> cur k" "cur k \<notin> set ws" using ch(3) by auto
  from enqueue_waiter_eq [OF r w c nw o wc(1) ch(1,2) wc(2) wchain_owner [OF ch(1) w]] obtain k' L' where
    k': "enqueue_waiter m w k = Some (Inr k')" "sched_rep k' L'" "set (concat L') = set (concat L)"
      "mwf (set (concat L)) {} k'" "cur k' = cur k" "\<forall>n. own k' n = own k n"
      "mutexWaiting (threads k' (cur k)) = Some m"
      "\<forall>a. prio k' a = (if prio k w < prio k (cur k) \<and> a \<in> set (w # ws) then prio k (cur k) else prio k a)"
      "\<forall>a. a \<noteq> cur k \<longrightarrow> mutexWaiting (threads k' a) = mutexWaiting (threads k a)"
    by blast
  have wf': "mutex_wf k' L'" using k'(2-4) unfolding mutex_wf_def by metis
  have "PKlock m k = Some (Inr (IRQwait k', False))"
    using k'(1,5,6) o wc(1) by (simp add: PKlock_def lock_wait_def)
  then show ?thesis
    using wf' k' by (intro exI [of _ "IRQwait k'"] exI [of _ L']) (auto simp: IRQwait_def)
qed

section \<open>Mutual exclusion\<close>

text \<open>
  Threads lock, try to lock and unlock any number of mutexes, in any interleaving; a blocked lock is
  resumed whenever its thread runs again, for whatever reason it was woken. The second component
  records the pairs of a thread and a mutex such that the thread has locked the mutex and not
  unlocked it yet. Lock calls that would close a waiting cycle are left out.
\<close>

inductive mutex_step ::
  "nat set \<Rightarrow> kernel \<times> (nat \<times> nat) set \<Rightarrow> kernel \<times> (nat \<times> nat) set \<Rightarrow> bool"
  for S :: "nat set"
where
  lock: "t \<in> S \<Longrightarrow> mutexWaiting (threads k t) = nullptr \<Longrightarrow> no_cycle k t m \<Longrightarrow>
    PKlock m (k\<lparr>cur := t\<rparr>) = Some (Inr (k', b)) \<Longrightarrow>
    mutex_step S (k, H) (k', if b then insert (t, m) H else H)"
| resume: "t \<in> S \<Longrightarrow> lock_wait m (k\<lparr>cur := t\<rparr>) = (k', b) \<Longrightarrow>
    mutex_step S (k, H) (k', if b then insert (t, m) H else H)"
| try_lock: "t \<in> S \<Longrightarrow> PKtryLock m (k\<lparr>cur := t\<rparr>) = (k', b) \<Longrightarrow>
    mutex_step S (k, H) (k', if b then insert (t, m) H else H)"
| unlock: "t \<in> S \<Longrightarrow> mutexWaiting (threads k t) = nullptr \<Longrightarrow>
    PKunlock m (k\<lparr>cur := t\<rparr>) = Some (Inr (k', b)) \<Longrightarrow>
    mutex_step S (k, H) (k', if recursiveDepth (mutexes k m) > 0 then H else H - {(t, m)})"
| wakeup: "mutex_step S (k, H) (IRQwakeup t k, H)"

definition mutex_sys_inv :: "nat set \<Rightarrow> kernel \<times> (nat \<times> nat) set \<Rightarrow> bool" where
  "mutex_sys_inv S = (\<lambda>(k, H).
     (\<exists>L. mutex_wf k L \<and> set (concat L) = S) \<and> (\<forall>t m. (t, m) \<in> H \<longrightarrow> own k m = Some t))"

lemma mutex_sys_invI:
  "mutex_wf k L \<Longrightarrow> set (concat L) = S \<Longrightarrow> (\<And>t m. (t, m) \<in> H \<Longrightarrow> own k m = Some t) \<Longrightarrow>
     mutex_sys_inv S (k, H)"
  by (auto simp: mutex_sys_inv_def)

lemma mutex_lock_inv:
  assumes inv: "mutex_sys_inv S (k, H)" and t: "t \<in> S" "mutexWaiting (threads k t) = nullptr"
    and nc: "no_cycle k t m" and lk: "PKlock m (k\<lparr>cur := t\<rparr>) = Some (Inr (k', b))"
  shows "mutex_sys_inv S (k', if b then insert (t, m) H else H)"
proof -
  obtain L where L: "mutex_wf k L" "set (concat L) = S" and H: "\<And>a n. (a, n) \<in> H \<Longrightarrow> own k n = Some a"
    using inv by (auto simp: mutex_sys_inv_def)
  let ?k = "k\<lparr>cur := t\<rparr>"
  have wf: "mutex_wf ?k L" and c: "cur ?k \<in> set (concat L)" using L t by simp_all
  consider (free) "own k m = nullptr" | (mine) "own k m = Some t"
    | (busy) w ws where "own k m = Some w" "wchain k (w # ws)" "distinct (w # ws)" "t \<notin> set (w # ws)"
    using nc unfolding no_cycle_def by (elim disjE exE conjE) metis+
  then show ?thesis
  proof cases
    case free
    then have "own ?k m = nullptr" by simp
    from PKlock_free [OF wf this c] lk have k': "k' = take_mutex m t ?k" "b" "mutex_wf k' L" by auto
    show ?thesis
      by (rule mutex_sys_invI [OF k'(3) L(2)])
        (use k'(1,2) H free in \<open>auto simp: take_mutex_fields split: if_splits\<close>)
  next
    case mine
    then have "k' = upd_mutex m (\<lambda>x. x\<lparr>recursiveDepth := recursiveDepth x + 1\<rparr>) ?k" "b"
      using lk by (auto simp: PKlock_def split: if_splits)
    with wf L(2) H mine show ?thesis by (auto intro!: mutex_sys_invI [of _ L])
  next
    case busy
    have "wchain ?k xs = wchain k xs" for xs by (induction xs rule: induct_list012) auto
    with PKlock_blocks [OF wf c, of m w ws] busy t(2) lk obtain L' where
      "mutex_wf k' L'" "set (concat L') = set (concat L)" "\<forall>n. own k' n = own k n" "\<not> b"
      by auto
    with L(2) H show ?thesis by (auto intro!: mutex_sys_invI [of _ L'])
  qed
qed

lemma mutex_unlock_inv:
  assumes inv: "mutex_sys_inv S (k, H)" and t: "mutexWaiting (threads k t) = nullptr"
    and ul: "PKunlock m (k\<lparr>cur := t\<rparr>) = Some (Inr (k', b))"
  shows "mutex_sys_inv S (k', if recursiveDepth (mutexes k m) > 0 then H else H - {(t, m)})"
proof -
  obtain L where L: "mutex_wf k L" "set (concat L) = S" and H: "\<And>a n. (a, n) \<in> H \<Longrightarrow> own k n = Some a"
    using inv by (auto simp: mutex_sys_inv_def)
  let ?k = "k\<lparr>cur := t\<rparr>"
  have wf: "mutex_wf ?k L" using L by simp
  consider (other) "own k m \<noteq> Some t" | (nested) "own k m = Some t" "recursiveDepth (mutexes k m) > 0"
    | (last) "own k m = Some t" "recursiveDepth (mutexes k m) \<le> 0" by linarith
  then show ?thesis
  proof cases
    case other
    then have "k' = ?k" using ul by (simp add: PKunlock_def)
    with wf L(2) H show ?thesis by (auto intro!: mutex_sys_invI [of _ L])
  next
    case nested
    then have "k' = upd_mutex m (\<lambda>x. x\<lparr>recursiveDepth := recursiveDepth x - 1\<rparr>) ?k"
      using ul by (simp add: PKunlock_def)
    with wf L(2) H nested(2) show ?thesis by (auto intro!: mutex_sys_invI [of _ L])
  next
    case last
    have o: "own ?k m = Some t" "mutexWaiting (threads ?k t) = nullptr" using last t by simp_all
    from release_eq [OF wf o] obtain k2 L2 where
      k2: "release m t ?k = Some (Inr (k2, first_waiter (waitq ?k m)))" "mutex_wf k2 L2"
        "set (concat L2) = set (concat L)"
        "\<forall>n. own k2 n = (if n = m then first_waiter (waitq ?k m) else own ?k n)" by blast
    have "k' = k2" using PKunlock_release [of ?k m] ul k2(1) last by simp
    have H2: "own k2 n = Some a" if "(a, n) \<in> H - {(t, m)}" for a n
    proof -
      have "own k n = Some a" using H that by blast
      with that last(1) have "n \<noteq> m" by auto
      with k2(4) \<open>own k n = Some a\<close> show ?thesis by simp
    qed
    have "set (concat L2) = S" using k2(3) L(2) by simp
    then have "mutex_sys_inv S (k2, H - {(t, m)})" by (rule mutex_sys_invI [OF k2(2) _ H2])
    with last(2) \<open>k' = k2\<close> show ?thesis by simp
  qed
qed

lemma mutex_step_inv:
  assumes "mutex_step S s s'" "mutex_sys_inv S s"
  shows "mutex_sys_inv S s'"
  using assms
proof (induction rule: mutex_step.induct)
  case (lock t k m k' b H)
  then show ?case using mutex_lock_inv by blast
next
  case (resume t m k k' b H)
  then show ?case
    by (auto simp: lock_wait_def mutex_sys_inv_def IRQwait_def split: if_splits)
next
  case (try_lock t m k k' b H)
  obtain L where L: "mutex_wf k L" "set (concat L) = S" and H: "\<And>a n. (a, n) \<in> H \<Longrightarrow> own k n = Some a"
    using try_lock.prems by (auto simp: mutex_sys_inv_def)
  show ?case
  proof (cases "own k m = nullptr")
    case True
    then have "own (k\<lparr>cur := t\<rparr>) m = nullptr" "cur (k\<lparr>cur := t\<rparr>) \<in> set (concat L)" using L try_lock(1) by simp_all
    from PKlock_free(2,3) [OF _ this] L(1) try_lock(2)
    have k': "k' = take_mutex m t (k\<lparr>cur := t\<rparr>)" "b" "mutex_wf k' L" by auto
    show ?thesis
      by (rule mutex_sys_invI [OF k'(3) L(2)])
        (use k'(1,2) H True in \<open>auto simp: take_mutex_fields split: if_splits\<close>)
  next
    case False
    then have "(k' = k\<lparr>cur := t\<rparr> \<and> \<not> b) \<or> (own k m = Some t \<and> b \<and>
        k' = upd_mutex m (\<lambda>x. x\<lparr>recursiveDepth := recursiveDepth x + 1\<rparr>) (k\<lparr>cur := t\<rparr>))"
      using try_lock(2) by (auto simp: PKtryLock_def split: if_splits)
    with L H show ?thesis by (auto intro!: mutex_sys_invI [of _ L])
  qed
next
  case (unlock t k m k' b H)
  then show ?case using mutex_unlock_inv by blast
next
  case (wakeup k H t)
  then show ?case by (auto simp: mutex_sys_inv_def IRQwakeup_def)
qed

text \<open>A system of three threads with priorities 0, 1 and 3 to try the theorems on.\<close>

lemma mwf_boot: "sched_frame (boot_kernel idl e) k \<Longrightarrow> mwf S {} k"
proof (rule mwfI)
  assume fr: "sched_frame (boot_kernel idl e) k"
  note f = sched_frame_fields [OF fr]
  show "\<exists>ms. mchain k (mutexLocked (threads k t)) ms \<and> distinct ms \<and>
      (\<forall>m. m \<in> set ms \<longleftrightarrow> own k m = Some t \<and> m \<notin> {})" for t
    by (intro exI [of _ "[]"]) (simp add: f boot_kernel_def new_thread_def new_mutex_def)
  show "is_heap (\<lambda>t. prio k t) (waitq k m)" for m
    by (simp add: f boot_kernel_def new_mutex_def is_heap_def heap_order_def)
qed (simp_all add: sched_frame_fields boot_kernel_def new_thread_def new_mutex_def)

lemma boot_three:
  "\<exists>k. mutex_wf k [[1], [2], [], [3]] \<and> sched_frame (boot_kernel 9 8) k \<and>
     prio k 1 = 0 \<and> prio k 2 = 1 \<and> prio k 3 = 3"
proof -
  let ?k0 = "boot_kernel 9 8"
  have "sched_rep ?k0 [[], [], [], []]" using sched_rel_boot [of 9 8] by (simp add: sched_rel_def)
  from PKaddThread_eq [OF this, of 0 1] obtain k1 where
    k1: "sched_rep k1 [[1], [], [], []]" "sched_frame ?k0 k1" by (auto simp: PRIORITY_MAX_def)
  from PKaddThread_eq [OF k1(1), of 1 2] obtain k2 where
    k2: "sched_rep k2 [[1], [2], [], []]" "sched_frame k1 k2" by (auto simp: PRIORITY_MAX_def)
  from PKaddThread_eq [OF k2(1), of 3 3] obtain k3 where
    k3: "sched_rep k3 [[1], [2], [], [3]]" "sched_frame k2 k3"
    by (auto simp: PRIORITY_MAX_def eval_nat_numeral)
  have fr: "sched_frame ?k0 k3" using k1(2) k2(2) k3(2) sched_frame_trans by blast
  have "prio k3 1 = int 0" "prio k3 2 = int 1" "prio k3 3 = int 3"
    by (rule sched_repD(3) [OF k3(1)]; simp add: PRIORITY_MAX_def)+
  with fr k3(1) mwf_boot [OF fr] show ?thesis by (auto simp: mutex_wf_def)
qed

section \<open>Properties\<close>

text \<open>C1. Mutual exclusion with priority inheritance, for any number of threads and (recursive or plain)
  mutexes and any interleaving of lock, tryLock and unlock calls, resumed waits and unrelated wakeups
  in which no waiting cycle is closed: two threads never hold the same mutex at once, and in every
  reachable state the waiting queues, lock lists, owners and scheduler lists are consistent.\<close>

theorem mutual_exclusion:
  assumes "(mutex_step S)\<^sup>*\<^sup>* (k0, {}) (k, H)" "mutex_wf k0 L" "set (concat L) = S"
  shows "(\<forall>t u m. (t, m) \<in> H \<and> (u, m) \<in> H \<longrightarrow> t = u) \<and>
    (\<exists>L'. mutex_wf k L' \<and> set (concat L') = S)"
proof -
  have "mutex_sys_inv S (k, H)"
    using assms(1)
  proof (induction rule: rtranclp_induct)
    case base
    then show ?case using assms(2,3) by (auto simp: mutex_sys_inv_def)
  next
    case (step s s')
    then show ?case using mutex_step_inv by blast
  qed
  then show ?thesis unfolding mutex_sys_inv_def by (auto; metis option.inject)
qed

theorem mutual_exclusion_witness:
  "\<exists>k0 k H. (mutex_step {1, 2, 3})\<^sup>*\<^sup>* (k0, {}) (k, H) \<and> H = {(2, 7)} \<and>
     (\<exists>L'. mutex_wf k L' \<and> set (concat L') = {1, 2, 3})"
proof -
  obtain k where wf: "mutex_wf k [[1], [2], [], [3]]" and fr: "sched_frame (boot_kernel 9 8) k"
    using boot_three by blast
  note f = sched_frame_fields [OF fr]
  have o: "own k 7 = nullptr" "mutexWaiting (threads k 2) = nullptr"
    by (simp_all add: f boot_kernel_def new_mutex_def new_thread_def)
  have "own (k\<lparr>cur := 2\<rparr>) 7 = nullptr" "cur (k\<lparr>cur := 2\<rparr>) \<in> set (concat [[1], [2], [], [3]])"
    using o by simp_all
  from PKlock_free(1) [OF _ this] wf
  have "PKlock 7 (k\<lparr>cur := 2\<rparr>) = Some (Inr (take_mutex 7 2 (k\<lparr>cur := 2\<rparr>), True))" by simp
  from mutex_step.lock [OF _ o(2) _ this, of "{1, 2, 3}" "{}"] o(1)
  have "mutex_step {1, 2, 3} (k, {}) (take_mutex 7 2 (k\<lparr>cur := 2\<rparr>), {(2, 7)})"
    by (simp add: no_cycle_def)
  then have st: "(mutex_step {1, 2, 3})\<^sup>*\<^sup>* (k, {}) (take_mutex 7 2 (k\<lparr>cur := 2\<rparr>), {(2, 7)})" by blast
  have "set (concat [[1], [2], [], [3]]) = {1, 2, 3 :: nat}" by auto
  from mutual_exclusion [OF st wf this] st show ?thesis by blast
qed



text \<open>C3. The last unlock by the owner gives the mutex to a waiting thread of the highest priority, which
  leaves the queue with its wait flag cleared, or frees the mutex when none waits; the caller's
  priority becomes the highest of its own and of the threads waiting for the other mutexes it still
  holds; the result tells whether the new owner has a higher priority than the caller.\<close>

theorem unlock_hands_over:
  assumes "mutex_wf k L" "own k m = Some (cur k)" "recursiveDepth (mutexes k m) \<le> 0"
    "mutexWaiting (threads k (cur k)) = nullptr"
  shows "\<exists>k' L' b. PKunlock m k = Some (Inr (k', b)) \<and> mutex_wf k' L' \<and> set (concat L') = set (concat L) \<and>
    kept_priority k (cur k) m (prio k' (cur k)) \<and>
    (case own k' m of
       None \<Rightarrow> waitq k m = [] \<and> \<not> b
     | Some t \<Rightarrow> t \<in> set (waitq k m) \<and> (\<forall>u\<in>set (waitq k m). prio k u \<le> prio k t) \<and>
         set (waitq k' m) = set (waitq k m) - {t} \<and> mutexWaiting (threads k' t) \<noteq> Some m \<and>
         flags (threads k' t) = IRQsetWait False (flags (threads k t)) \<and>
         (b \<longleftrightarrow> prio k' (cur k) < prio k' t))"
proof -
  let ?f = "first_waiter (waitq k m)"
  from release_eq [OF assms(1,2,4)] obtain k' L' where
    k': "release m (cur k) k = Some (Inr (k', ?f))" "mutex_wf k' L'" "set (concat L') = set (concat L)"
      "\<forall>n. own k' n = (if n = m then ?f else own k n)" "set (waitq k' m) = set (waitq k m) - set_option ?f"
      "\<forall>a. flags (threads k' a) = (if ?f = Some a then IRQsetWait False (flags (threads k a)) else flags (threads k a))"
      "kept_priority k (cur k) m (prio k' (cur k))" by blast
  have w: "mwf (set (concat L)) {} k" "mwf (set (concat L')) {} k'"
    using assms(1) k'(2) by (auto simp: mutex_wf_def)
  let ?b = "case ?f of None \<Rightarrow> False | Some t \<Rightarrow> prio k' (cur k) < prio k' t"
  have u: "PKunlock m k = Some (Inr (k', ?b))" unfolding PKunlock_release [OF assms(2,3)] k'(1) by simp
  have o: "own k' m = ?f" using k'(4) by simp
  have mx: "\<forall>u\<in>set (waitq k m). prio k u \<le> prio k (hd (waitq k m))"
    using heap_hd_max [OF mwfD(2) [OF w(1)]] by blast
  have nw: "?f = Some t \<Longrightarrow> mutexWaiting (threads k' t) \<noteq> Some m" for t
    using mwfD(1) [OF w(2), of t m] k'(5) by auto
  have "case own k' m of None \<Rightarrow> waitq k m = [] \<and> \<not> ?b
     | Some t \<Rightarrow> t \<in> set (waitq k m) \<and> (\<forall>u\<in>set (waitq k m). prio k u \<le> prio k t) \<and>
         set (waitq k' m) = set (waitq k m) - {t} \<and> mutexWaiting (threads k' t) \<noteq> Some m \<and>
         flags (threads k' t) = IRQsetWait False (flags (threads k t)) \<and>
         (?b \<longleftrightarrow> prio k' (cur k) < prio k' t)"
  proof (cases "waitq k m")
    case Nil
    then show ?thesis unfolding o by (simp add: first_waiter_def)
  next
    case (Cons t ts)
    then have f: "?f = Some t" by (simp add: first_waiter_def)
    show ?thesis using mx nw [OF f] k'(5,6) Cons unfolding o f by simp
  qed
  with u k'(2,3,7) show ?thesis by blast
qed

theorem unlock_hands_over_witness:
  "\<exists>k k' L' b. own k 7 = Some 1 \<and> PKunlock 7 k = Some (Inr (k', b)) \<and> mutex_wf k' L' \<and> own k' 7 = nullptr"
proof -
  obtain k where wf: "mutex_wf k [[1], [2], [], [3]]" and fr: "sched_frame (boot_kernel 9 8) k"
    using boot_three by blast
  note f = sched_frame_fields [OF fr]
  let ?k = "k\<lparr>cur := 1\<rparr>" let ?k2 = "take_mutex 7 1 ?k"
  have "own ?k 7 = nullptr" "cur ?k \<in> set (concat [[1], [2], [], [3]])"
    by (simp_all add: f boot_kernel_def new_mutex_def)
  from PKlock_free(3) [OF _ this] wf have w: "mutex_wf ?k2 [[1], [2], [], [3]]" by simp
  have h: "own ?k2 7 = Some (cur ?k2)" "recursiveDepth (mutexes ?k2 7) \<le> 0"
    "mutexWaiting (threads ?k2 (cur ?k2)) = nullptr" "waitq ?k2 7 = []"
    by (simp_all add: take_mutex_fields f boot_kernel_def new_thread_def new_mutex_def)
  from unlock_hands_over [OF w h(1-3)] obtain k' L' b where
    k': "PKunlock 7 ?k2 = Some (Inr (k', b))" "mutex_wf k' L'"
      "case own k' 7 of None \<Rightarrow> True | Some t \<Rightarrow> t \<in> set (waitq ?k2 7)"
    by (force split: option.splits)
  have "own k' 7 = nullptr" using k'(3) h(4) by (simp split: option.splits)
  moreover have "own ?k2 7 = Some 1" using h(1) by (simp add: take_mutex_fields)
  ultimately show ?thesis using k'(1,2) by blast
qed

text \<open>The inheritance loop gives the caller's priority to every thread of the chain, whether or not
  that thread already runs at a higher one: a thread with a priority above the caller's, reached
  through a low priority owner that waits for it, ends with a lower priority than before.\<close>

theorem inheritance_lowers_high_priority_owner:
  assumes "mutex_wf k L" "cur k \<in> set (concat L)" "mutexWaiting (threads k (cur k)) = nullptr"
    "own k m = Some w" "wchain k [w, h]" "distinct [w, h]" "cur k \<notin> set [w, h]"
    "prio k w < prio k (cur k)" "prio k (cur k) < prio k h"
  shows "\<exists>k'. PKlock m k = Some (Inr (k', False)) \<and> prio k' h < prio k h"
proof -
  obtain k' where "PKlock m k = Some (Inr (k', False))"
    "\<forall>a. prio k' a = (if prio k w < prio k (cur k) \<and> a \<in> set [w, h] then prio k (cur k) else prio k a)"
    using PKlock_blocks [OF assms(1-7)] by blast
  with assms(8,9) show ?thesis by simp
qed

text \<open>
  Thread 3, of the highest priority, holds mutex 8; thread 1, of the lowest, holds mutex 7 and waits
  for mutex 8; thread 2, of a priority between the two, locks mutex 7.
\<close>

theorem inheritance_lowers_high_priority_owner_witness:
  "\<exists>k k'. own k 8 = Some 3 \<and> prio k (cur k) < prio k 3 \<and>
     PKlock 7 k = Some (Inr (k', False)) \<and> prio k' 3 < prio k 3"
proof -
  let ?L = "[[1], [2], [], [3 :: nat]]"
  obtain k where wf: "mutex_wf k ?L" and fr: "sched_frame (boot_kernel 9 8) k"
    and p: "prio k 1 = 0" "prio k 2 = 1" "prio k 3 = 3" using boot_three by blast
  note f = sched_frame_fields [OF fr]
  note ini = f boot_kernel_def new_thread_def new_mutex_def
  let ?k1 = "take_mutex 7 1 (k\<lparr>cur := 1\<rparr>)"
  have "own (k\<lparr>cur := 1\<rparr>) 7 = nullptr" "cur (k\<lparr>cur := 1\<rparr>) \<in> set (concat ?L)" by (simp_all add: ini)
  from PKlock_free(3) [OF _ this] wf have w1: "mutex_wf ?k1 ?L" by simp
  let ?k2 = "take_mutex 8 3 (?k1\<lparr>cur := 3\<rparr>)"
  have "own (?k1\<lparr>cur := 3\<rparr>) 8 = nullptr" "cur (?k1\<lparr>cur := 3\<rparr>) \<in> set (concat ?L)"
    by (simp_all add: take_mutex_fields ini)
  from PKlock_free(3) [OF _ this] w1 have w2: "mutex_wf ?k2 ?L" by simp
  let ?k3 = "?k2\<lparr>cur := 1\<rparr>"
  have nw3: "mutexWaiting (threads ?k3 t) = nullptr" for t by (simp add: take_mutex_fields ini)
  have p3: "prio ?k3 t = prio k t" for t by (simp add: take_mutex_fields)
  have o3: "own ?k3 8 = Some 3" "own ?k3 7 = Some 1" by (simp_all add: take_mutex_fields)
  have h3: "mutex_wf ?k3 ?L" "cur ?k3 \<in> set (concat ?L)" "wchain ?k3 [3]" "distinct [3 :: nat]"
    "cur ?k3 \<notin> set [3]" using w2 nw3 by simp_all
  obtain k4 L4 where k4: "mutex_wf k4 L4" "set (concat L4) = set (concat ?L)"
    "mutexWaiting (threads k4 (cur ?k3)) = Some 8" "\<forall>n. own k4 n = own ?k3 n"
    "\<forall>a. prio k4 a = (if prio ?k3 3 < prio ?k3 (cur ?k3) \<and> a \<in> set [3] then prio ?k3 (cur ?k3) else prio ?k3 a)"
    "\<forall>a. a \<noteq> cur ?k3 \<longrightarrow> mutexWaiting (threads k4 a) = mutexWaiting (threads ?k3 a)"
    using PKlock_blocks [OF h3(1,2) nw3 o3(1) h3(3-5)] by blast
  let ?k = "k4\<lparr>cur := 2\<rparr>"
  have q: "prio ?k 1 < prio ?k (cur ?k)" "prio ?k (cur ?k) < prio ?k 3" using k4(5) p p3 by simp_all
  have o: "own ?k 7 = Some 1" "own ?k 8 = Some 3" using k4(4) o3 by simp_all
  have mw: "mutexWaiting (threads ?k (cur ?k)) = nullptr" "mutexWaiting (threads ?k 1) = Some 8"
    "mutexWaiting (threads ?k 3) = nullptr" using k4(3,6) nw3 by simp_all
  have h: "mutex_wf ?k L4" "cur ?k \<in> set (concat L4)" "wchain ?k [1, 3]" "distinct [1 :: nat, 3]"
    "cur ?k \<notin> set [1, 3]" using k4(1,2) mw(2,3) o(2) by simp_all
  from inheritance_lowers_high_priority_owner [OF h(1,2) mw(1) o(1) h(3-5) q] o(2) q(2)
  show ?thesis by blast
qed

end
