(* ===== verification/Pthread_Sync.thy ===== *)
theory Pthread_Sync
  imports Mutex_Sync
begin

text \<open>
  The POSIX synchronisation primitives (\<^verbatim>\<open>kernel/pthread.cpp\<close>, \<^verbatim>\<open>kernel/pthread_private.h\<close>), on which
  \<^verbatim>\<open>FastMutex\<close> rests, and \<^verbatim>\<open>class ConditionVariable\<close> (\<^verbatim>\<open>kernel/sync.cpp\<close>): mutexes and condition
  variables whose waiting threads form a linked list of nodes that live on the stacks of the waiting
  threads. A call that has to wait is cut at its \<^verbatim>\<open>Thread::yield\<close>: a turn ends there, and the next one
  starts when the thread runs again.
\<close>

section \<open>Waiting lists\<close>

text \<open>\<^verbatim>\<open>struct WaitingList\<close> and the two pointers of the object waited for.\<close>

record waiting_list =
  w_thread :: nat
  w_next :: ptr

record wait_queue =
  wq_first :: ptr
  wq_last :: ptr

definition wl_enqueue ::
  "nat \<Rightarrow> nat \<Rightarrow> wait_queue \<Rightarrow> (nat \<Rightarrow> waiting_list) \<Rightarrow> (wait_queue \<times> (nat \<Rightarrow> waiting_list)) result" where
  "wl_enqueue n t q s =
     (let s = s(n := \<lparr>w_thread = t, w_next = nullptr\<rparr>) in
      if wq_first q = nullptr then Inr (\<lparr>wq_first = Some n, wq_last = Some n\<rparr>, s)
      else deref (wq_last q) (\<lambda>l.
        Inr (q\<lparr>wq_last := Some n\<rparr>, s(l := (s l)\<lparr>w_next := Some n\<rparr>))))"

definition wl_dequeue :: "wait_queue \<Rightarrow> (nat \<Rightarrow> waiting_list) \<Rightarrow> wait_queue \<times> ptr" where
  "wl_dequeue q s =
     (case wq_first q of
        None \<Rightarrow> (q, nullptr)
      | Some n \<Rightarrow> (q\<lparr>wq_first := w_next (s n)\<rparr>, Some (w_thread (s n))))"

fun wl_seg :: "(nat \<Rightarrow> waiting_list) \<Rightarrow> ptr \<Rightarrow> nat list \<Rightarrow> bool" where
  "wl_seg s p [] \<longleftrightarrow> p = nullptr"
| "wl_seg s p (n # ns) \<longleftrightarrow> p = Some n \<and> wl_seg s (w_next (s n)) ns"

definition wq_rep :: "(nat \<Rightarrow> waiting_list) \<Rightarrow> wait_queue \<Rightarrow> nat list \<Rightarrow> bool" where
  "wq_rep s q ns \<longleftrightarrow> wl_seg s (wq_first q) ns \<and> distinct ns \<and> (ns \<noteq> [] \<longrightarrow> wq_last q = Some (last ns))"

lemma wl_seg_cong: "(\<And>n. n \<in> set ns \<Longrightarrow> s' n = s n) \<Longrightarrow> wl_seg s' p ns = wl_seg s p ns"
  by (induction ns arbitrary: p) auto

lemma wl_seg_snoc:
  "wl_seg s p (ns @ [l]) \<Longrightarrow> distinct (ns @ [l]) \<Longrightarrow> n \<notin> set (ns @ [l]) \<Longrightarrow>
     w_next (s' l) = Some n \<Longrightarrow> w_next (s' n) = nullptr \<Longrightarrow>
     (\<And>a. a \<noteq> l \<Longrightarrow> a \<noteq> n \<Longrightarrow> s' a = s a) \<Longrightarrow> wl_seg s' p (ns @ [l, n])"
  by (induction ns arbitrary: p) auto

lemma wq_rep_cong: "(\<And>n. n \<in> set ns \<Longrightarrow> s' n = s n) \<Longrightarrow> wq_rep s' q ns = wq_rep s q ns"
  unfolding wq_rep_def using wl_seg_cong [of ns s' s] by simp

lemma wl_enqueue_eq:
  assumes r: "wq_rep s q ns" and n: "n \<notin> set ns"
  shows "\<exists>q' s'. wl_enqueue n t q s = Inr (q', s') \<and> wq_rep s' q' (ns @ [n]) \<and>
    (\<forall>a. w_thread (s' a) = (if a = n then t else w_thread (s a))) \<and>
    (\<forall>a. a \<notin> insert n (set ns) \<longrightarrow> s' a = s a)"
proof (cases ns rule: rev_cases)
  case Nil
  with r show ?thesis by (auto simp: wl_enqueue_def wq_rep_def)
next
  case (snoc ms l)
  let ?s = "s(n := \<lparr>w_thread = t, w_next = nullptr\<rparr>)"
  let ?s' = "?s(l := (?s l)\<lparr>w_next := Some n\<rparr>)"
  have q: "wl_seg s (wq_first q) (ms @ [l])" "distinct (ms @ [l])" "wq_last q = Some l" "l \<noteq> n"
    "n \<notin> set (ms @ [l])" using r n snoc by (auto simp: wq_rep_def)
  have f: "wq_first q \<noteq> nullptr" using q(1) by (cases ms) auto
  have "wl_enqueue n t q s = Inr (q\<lparr>wq_last := Some n\<rparr>, ?s')"
    using f q(3) by (auto simp: wl_enqueue_def Let_def)
  moreover have "wl_seg ?s' (wq_first q) (ms @ [l, n])"
    by (rule wl_seg_snoc [OF q(1,2,5)]) (use q(4) in auto)
  then have "wq_rep ?s' (q\<lparr>wq_last := Some n\<rparr>) (ns @ [n])"
    using q snoc n by (simp add: wq_rep_def)
  ultimately show ?thesis using snoc q(4) by (intro exI conjI) auto
qed

lemma wl_dequeue_eq:
  assumes "wq_rep s q ns"
  shows "\<exists>q'. wl_dequeue q s = (q', case ns of [] \<Rightarrow> nullptr | n # _ \<Rightarrow> Some (w_thread (s n))) \<and>
    wq_rep s q' (tl ns)"
  using assms by (cases ns) (auto simp: wl_dequeue_def wq_rep_def)

text \<open>
  What the primitives use of the waiting lists: many queues over one store of nodes, first in, first
  out. \<open>R\<close> relates the store and the queues to the lists of nodes in them.
\<close>

locale waiting_fifo =
  fixes R :: "'n \<Rightarrow> 'q \<Rightarrow> nat list \<Rightarrow> bool"
    and thread_of :: "'n \<Rightarrow> nat \<Rightarrow> nat"
    and enq :: "nat \<Rightarrow> nat \<Rightarrow> 'q \<Rightarrow> 'n \<Rightarrow> ('q \<times> 'n) result"
    and deq :: "'q \<Rightarrow> 'n \<Rightarrow> 'q \<times> ptr"
  assumes enq_ok: "R s q ns \<Longrightarrow> n \<notin> set ns \<Longrightarrow>
      \<exists>q' s'. enq n t q s = Inr (q', s') \<and> R s' q' (ns @ [n]) \<and>
        (\<forall>a. thread_of s' a = (if a = n then t else thread_of s a)) \<and>
        (\<forall>p ms. n \<notin> set ms \<and> set ms \<inter> set ns = {} \<longrightarrow> R s' p ms = R s p ms)"
    and deq_ok: "R s q ns \<Longrightarrow>
      \<exists>q'. deq q s = (q', case ns of [] \<Rightarrow> nullptr | n # _ \<Rightarrow> Some (thread_of s n)) \<and> R s q' (tl ns)"
begin

text \<open>A family of queues with disjoint nodes, and the threads waiting in each of them.\<close>

definition family :: "'n \<Rightarrow> ('i \<Rightarrow> 'q) \<Rightarrow> ('i \<Rightarrow> nat list) \<Rightarrow> bool" where
  "family s f NS \<longleftrightarrow> (\<forall>i. R s (f i) (NS i)) \<and> (\<forall>i j. i \<noteq> j \<longrightarrow> set (NS i) \<inter> set (NS j) = {})"

definition waiting_in :: "'n \<Rightarrow> ('i \<Rightarrow> nat list) \<Rightarrow> 'i \<Rightarrow> nat list" where
  "waiting_in s NS i = map (thread_of s) (NS i)"

lemma family_enq:
  assumes fam: "family s f NS" and n: "\<forall>j. n \<notin> set (NS j)"
  shows "\<exists>q' s'. enq n t (f i) s = Inr (q', s') \<and> family s' (f(i := q')) (NS(i := NS i @ [n])) \<and>
    waiting_in s' (NS(i := NS i @ [n])) = (waiting_in s NS)(i := waiting_in s NS i @ [t])"
proof -
  from fam n obtain q' s' where
    e: "enq n t (f i) s = Inr (q', s')" "R s' q' (NS i @ [n])"
      "\<forall>a. thread_of s' a = (if a = n then t else thread_of s a)"
      "\<forall>p ms. n \<notin> set ms \<and> set ms \<inter> set (NS i) = {} \<longrightarrow> R s' p ms = R s p ms"
    using enq_ok [of s "f i" "NS i" n t] unfolding family_def by blast
  have "R s' (f j) (NS j)" if "j \<noteq> i" for j
    using e(4) that fam n unfolding family_def by (metis disjoint_iff)
  then have "family s' (f(i := q')) (NS(i := NS i @ [n]))"
    using e(2) fam n unfolding family_def by (auto simp: disjoint_iff)
  moreover have "map (thread_of s') (NS j) = map (thread_of s) (NS j)" for j
    using e(3) n by (auto intro!: map_cong)
  then have "waiting_in s' (NS(i := NS i @ [n])) = (waiting_in s NS)(i := waiting_in s NS i @ [t])"
    using e(3) by (auto simp: waiting_in_def)
  ultimately show ?thesis using e(1) by blast
qed

lemma family_deq:
  assumes fam: "family s f NS"
  shows "\<exists>q'. deq (f i) s = (q', case waiting_in s NS i of [] \<Rightarrow> nullptr | t # _ \<Rightarrow> Some t) \<and>
    family s (f(i := q')) (NS(i := tl (NS i))) \<and>
    waiting_in s (NS(i := tl (NS i))) = (waiting_in s NS)(i := tl (waiting_in s NS i))"
proof -
  from fam obtain q' where
    d: "deq (f i) s = (q', case NS i of [] \<Rightarrow> nullptr | n # _ \<Rightarrow> Some (thread_of s n))" "R s q' (tl (NS i))"
    using deq_ok [of s "f i" "NS i"] unfolding family_def by blast
  have "family s (f(i := q')) (NS(i := tl (NS i)))"
    using d(2) fam unfolding family_def by (auto simp: disjoint_iff dest: in_set_tlD)
  then show ?thesis using d by (auto simp: waiting_in_def map_tl split: list.splits)
qed

end

interpretation wl: waiting_fifo wq_rep "\<lambda>s a. w_thread (s a)" wl_enqueue wl_dequeue
proof unfold_locales
  fix s q ns n t
  assume r: "wq_rep s q ns" and n: "n \<notin> set ns"
  from wl_enqueue_eq [OF r n, of t] obtain q' s' where
    e: "wl_enqueue n t q s = Inr (q', s')" "wq_rep s' q' (ns @ [n])"
      "\<forall>a. w_thread (s' a) = (if a = n then t else w_thread (s a))"
      "\<forall>a. a \<notin> insert n (set ns) \<longrightarrow> s' a = s a" by blast
  have "wq_rep s' p ms = wq_rep s p ms" if "n \<notin> set ms" "set ms \<inter> set ns = {}" for p ms
    by (rule wq_rep_cong) (use e(4) that in auto)
  with e show "\<exists>q' s'. wl_enqueue n t q s = Inr (q', s') \<and> wq_rep s' q' (ns @ [n]) \<and>
    (\<forall>a. w_thread (s' a) = (if a = n then t else w_thread (s a))) \<and>
    (\<forall>p ms. n \<notin> set ms \<and> set ms \<inter> set ns = {} \<longrightarrow> wq_rep s' p ms = wq_rep s p ms)" by blast
qed (rule wl_dequeue_eq)

section \<open>Mutexes\<close>

text \<open>Error codes of the C library.\<close>

definition ESRCH :: int where "ESRCH = 3"
definition EAGAIN :: int where "EAGAIN = 11"
definition EBUSY :: int where "EBUSY = 16"
definition EINVAL :: int where "EINVAL = 22"
definition EDEADLK :: int where "EDEADLK = 45"

text \<open>
  \<^verbatim>\<open>pthread_mutex_t\<close>; \<open>pm_recursive\<close> is the depth of a recursive mutex and -1 for a plain one. The state
  holds the kernel, the nodes of the waiting lists, the mutexes, and the condition variables (both
  \<^verbatim>\<open>pthread_cond_t\<close> and \<^verbatim>\<open>ConditionVariable\<close>, which are a waiting list each).
\<close>

record pthread_mutex =
  pm_owner :: ptr
  pm_recursive :: int
  pm_queue :: wait_queue

record psync =
  ker :: kernel
  wnodes :: "nat \<Rightarrow> waiting_list"
  pmutexes :: "nat \<Rightarrow> pthread_mutex"
  conds :: "nat \<Rightarrow> wait_queue"

abbreviation powner :: "psync \<Rightarrow> nat \<Rightarrow> ptr" where
  "powner s m \<equiv> pm_owner (pmutexes s m)"

abbreviation precursive :: "psync \<Rightarrow> nat \<Rightarrow> int" where
  "precursive s m \<equiv> pm_recursive (pmutexes s m)"

abbreviation self :: "psync \<Rightarrow> nat" where
  "self s \<equiv> cur (ker s)"

definition upd_pm :: "nat \<Rightarrow> (pthread_mutex \<Rightarrow> pthread_mutex) \<Rightarrow> psync \<Rightarrow> psync" where
  "upd_pm m f s = s\<lparr>pmutexes := (pmutexes s)(m := f (pmutexes s m))\<rparr>"

definition upd_ker :: "(kernel \<Rightarrow> kernel) \<Rightarrow> psync \<Rightarrow> psync" where
  "upd_ker f s = s\<lparr>ker := f (ker s)\<rparr>"

text \<open>The attribute is absent, or says whether the mutex is recursive.\<close>

definition pthread_mutex_init :: "nat \<Rightarrow> bool option \<Rightarrow> psync \<Rightarrow> psync" where
  "pthread_mutex_init m attr s =
     upd_pm m (\<lambda>x. \<lparr>pm_owner = nullptr, pm_recursive = (if attr = Some True then 0 else -1),
       pm_queue = (pm_queue x)\<lparr>wq_first := nullptr\<rparr>\<rparr>) s"

definition pthread_mutex_destroy :: "nat \<Rightarrow> psync \<Rightarrow> int" where
  "pthread_mutex_destroy m s = (if powner s m \<noteq> nullptr then EBUSY else 0)"

definition pm_enqueue :: "nat \<Rightarrow> nat \<Rightarrow> psync \<Rightarrow> psync result" where
  "pm_enqueue n m s =
     rbind (wl_enqueue n (self s) (pm_queue (pmutexes s m)) (wnodes s)) (\<lambda>(q, w).
       Inr (upd_pm m (\<lambda>x. x\<lparr>pm_queue := q\<rparr>) (s\<lparr>wnodes := w\<rparr>)))"

text \<open>A turn of \<^verbatim>\<open>while(mutex->owner!=p)\<close>; the flag of the result says whether the loop is left.\<close>

definition pm_wait :: "nat \<Rightarrow> psync \<Rightarrow> psync \<times> bool" where
  "pm_wait m s = (if powner s m = Some (self s) then (s, True) else (upd_ker IRQwait s, False))"

definition IRQdoMutexLock :: "nat \<Rightarrow> nat \<Rightarrow> psync \<Rightarrow> (psync \<times> bool) result" where
  "IRQdoMutexLock n m s =
     (let p = self s in
      if powner s m = nullptr then Inr (upd_pm m (\<lambda>x. x\<lparr>pm_owner := Some p\<rparr>) s, True)
      else if powner s m = Some p
      then if precursive s m \<ge> 0
           then Inr (upd_pm m (\<lambda>x. x\<lparr>pm_recursive := pm_recursive x + 1\<rparr>) s, True)
           else Inl (ErrorHandler MUTEX_DEADLOCK)
      else rbind (pm_enqueue n m s) (\<lambda>s. Inr (pm_wait m s)))"

definition pm_set_depth :: "nat \<Rightarrow> int \<Rightarrow> psync \<Rightarrow> psync" where
  "pm_set_depth m d s =
     (if precursive s m \<ge> 0 then upd_pm m (\<lambda>x. x\<lparr>pm_recursive := d\<rparr>) s else s)"

text \<open>The wait loop followed by the statement after it.\<close>

definition pm_wait_to_depth :: "int \<Rightarrow> nat \<Rightarrow> psync \<Rightarrow> psync \<times> bool" where
  "pm_wait_to_depth d m s =
     (case pm_wait m s of (s, True) \<Rightarrow> (pm_set_depth m d s, True) | (s, False) \<Rightarrow> (s, False))"

definition IRQdoMutexLockToDepth :: "nat \<Rightarrow> int \<Rightarrow> nat \<Rightarrow> psync \<Rightarrow> (psync \<times> bool) result" where
  "IRQdoMutexLockToDepth n d m s =
     (let p = self s in
      if powner s m = nullptr
      then Inr (pm_set_depth m d (upd_pm m (\<lambda>x. x\<lparr>pm_owner := Some p\<rparr>) s), True)
      else if powner s m = Some p
      then if precursive s m \<ge> 0 then Inr (upd_pm m (\<lambda>x. x\<lparr>pm_recursive := d\<rparr>) s, True)
           else Inl (ErrorHandler MUTEX_DEADLOCK)
      else rbind (pm_enqueue n m s) (\<lambda>s. Inr (pm_wait_to_depth d m s)))"

definition pthread_mutex_trylock :: "nat \<Rightarrow> psync \<Rightarrow> psync \<times> int" where
  "pthread_mutex_trylock m s =
     (let p = self s in
      if powner s m = nullptr then (upd_pm m (\<lambda>x. x\<lparr>pm_owner := Some p\<rparr>) s, 0)
      else if powner s m = Some p \<and> precursive s m \<ge> 0
      then (upd_pm m (\<lambda>x. x\<lparr>pm_recursive := pm_recursive x + 1\<rparr>) s, 0)
      else (s, EBUSY))"

text \<open>
  Passing the mutex on to the first waiting thread, the statements the two unlocks share; the pointer
  of the result is that thread.
\<close>

definition pm_handover :: "nat \<Rightarrow> psync \<Rightarrow> psync \<times> ptr" where
  "pm_handover m s =
     (case wl_dequeue (pm_queue (pmutexes s m)) (wnodes s) of
        (q, None) \<Rightarrow> (upd_pm m (\<lambda>x. x\<lparr>pm_owner := nullptr\<rparr>) s, nullptr)
      | (q, Some t) \<Rightarrow>
          (upd_pm m (\<lambda>x. x\<lparr>pm_owner := Some t, pm_queue := q\<rparr>) (upd_ker (IRQwakeup t) s), Some t))"

definition IRQdoMutexUnlock :: "nat \<Rightarrow> psync \<Rightarrow> psync \<times> bool" where
  "IRQdoMutexUnlock m s =
     (if precursive s m > 0
      then (upd_pm m (\<lambda>x. x\<lparr>pm_recursive := pm_recursive x - 1\<rparr>) s, False)
      else case pm_handover m s of
        (s, None) \<Rightarrow> (s, False)
      | (s, Some t) \<Rightarrow> (s, IRQgetPriority (ker s) (self s) < IRQgetPriority (ker s) t))"

definition IRQdoMutexUnlockAllDepthLevels :: "nat \<Rightarrow> psync \<Rightarrow> psync \<times> int" where
  "IRQdoMutexUnlockAllDepthLevels m s =
     (case pm_handover m s of (s, _) \<Rightarrow>
        if precursive s m < 0 then (s, 0)
        else (upd_pm m (\<lambda>x. x\<lparr>pm_recursive := 0\<rparr>) s, precursive s m))"

section \<open>Condition variables\<close>

definition pthread_cond_init :: "nat \<Rightarrow> psync \<Rightarrow> psync" where
  "pthread_cond_init c s = s\<lparr>conds := (conds s)(c := (conds s c)\<lparr>wq_first := nullptr\<rparr>)\<rparr>"

definition pthread_cond_destroy :: "nat \<Rightarrow> psync \<Rightarrow> int" where
  "pthread_cond_destroy c s = (if wq_first (conds s c) \<noteq> nullptr then EBUSY else 0)"

definition new_condition_variable :: "nat \<Rightarrow> psync \<Rightarrow> psync" where
  "new_condition_variable c s = s\<lparr>conds := (conds s)(c := \<lparr>wq_first = nullptr, wq_last = nullptr\<rparr>)\<rparr>"

definition cond_enqueue :: "nat \<Rightarrow> nat \<Rightarrow> psync \<Rightarrow> psync result" where
  "cond_enqueue n c s =
     rbind (wl_enqueue n (self s) (conds s c) (wnodes s)) (\<lambda>(q, w).
       Inr (s\<lparr>wnodes := w, conds := (conds s)(c := q)\<rparr>))"

text \<open>
  \<^verbatim>\<open>pthread_cond_wait\<close>, and \<^verbatim>\<open>ConditionVariable::wait\<close> on a \<^verbatim>\<open>FastMutex\<close>, up to the yield; the result is
  the depth to lock the mutex to again with \<^verbatim>\<open>IRQdoMutexLockToDepth\<close>, the rest of the call.
\<close>

definition pthread_cond_wait :: "nat \<Rightarrow> nat \<Rightarrow> nat \<Rightarrow> psync \<Rightarrow> (psync \<times> int) result" where
  "pthread_cond_wait n c m s =
     rbind (cond_enqueue n c s) (\<lambda>s.
       let s = upd_ker (upd_flags (self s) (IRQsetCondWait True)) s in
       Inr (IRQdoMutexUnlockAllDepthLevels m s))"

text \<open>\<^verbatim>\<open>ConditionVariable::wait\<close> on a \<^verbatim>\<open>Mutex\<close>, up to the yield; the rest is \<^verbatim>\<open>PKlockToDepth\<close>.\<close>

definition cv_wait :: "nat \<Rightarrow> nat \<Rightarrow> nat \<Rightarrow> psync \<Rightarrow> (psync \<times> int) result option" where
  "cv_wait n c m s =
     obind (Some (cond_enqueue n c s)) (\<lambda>s.
       let s = upd_ker (upd_flags (self s) (IRQsetCondWait True)) s in
       obind (PKunlockAllDepthLevels m (ker s)) (\<lambda>(k, d). Some (Inr (s\<lparr>ker := k\<rparr>, d))))"

definition cond_pop :: "nat \<Rightarrow> psync \<Rightarrow> psync \<times> ptr" where
  "cond_pop c s =
     (case wl_dequeue (conds s c) (wnodes s) of
        (q, None) \<Rightarrow> (s, nullptr)
      | (q, Some t) \<Rightarrow>
          (s\<lparr>ker := upd_flags t (IRQsetCondWait False) (ker s), conds := (conds s)(c := q)\<rparr>, Some t))"

definition pthread_cond_signal :: "nat \<Rightarrow> psync \<Rightarrow> psync" where
  "pthread_cond_signal c s = fst (cond_pop c s)"

text \<open>\<^verbatim>\<open>ConditionVariable::signal\<close> also tells whether to yield.\<close>

definition cv_signal :: "nat \<Rightarrow> psync \<Rightarrow> psync \<times> bool" where
  "cv_signal c s =
     (case cond_pop c s of
        (s, None) \<Rightarrow> (s, False)
      | (s, Some t) \<Rightarrow> (s, IRQgetPriority (ker s) (self s) < IRQgetPriority (ker s) t))"

partial_function (option) broadcast_loop :: "nat \<Rightarrow> bool \<Rightarrow> psync \<Rightarrow> (psync \<times> bool) option" where
  "broadcast_loop c hppw s =
     (if wq_first (conds s c) = nullptr then Some (s, hppw)
      else broadcast_loop c (hppw \<or> snd (cv_signal c s)) (fst (cv_signal c s)))"

definition cv_broadcast :: "nat \<Rightarrow> psync \<Rightarrow> (psync \<times> bool) option" where
  "cv_broadcast c s = broadcast_loop c False s"

definition pthread_cond_broadcast :: "nat \<Rightarrow> psync \<Rightarrow> psync option" where
  "pthread_cond_broadcast c s = map_option fst (broadcast_loop c False s)"

lemma upd_psync [simp]:
  "ker (upd_pm m f s) = ker s" "wnodes (upd_pm m f s) = wnodes s" "conds (upd_pm m f s) = conds s"
  "pmutexes (upd_pm m f s) a = (if a = m then f (pmutexes s m) else pmutexes s a)"
  "ker (upd_ker g s) = g (ker s)" "wnodes (upd_ker g s) = wnodes s" "conds (upd_ker g s) = conds s"
  "pmutexes (upd_ker g s) = pmutexes s"
  by (simp_all add: upd_pm_def upd_ker_def)

section \<open>The threads waiting for each mutex and condition variable\<close>

text \<open>
  \<open>W\<close> gives the threads that wait for mutex \<open>m\<close> at \<open>Inl m\<close> and for condition variable \<open>c\<close> at
  \<open>Inr c\<close>. A node lies on the stack of the thread that waits with it: \<open>sk\<close> maps it to that thread.
\<close>

definition pq :: "psync \<Rightarrow> nat + nat \<Rightarrow> wait_queue" where
  "pq s i = (case i of Inl m \<Rightarrow> pm_queue (pmutexes s m) | Inr c \<Rightarrow> conds s c)"

definition waits :: "(nat \<Rightarrow> nat) \<Rightarrow> psync \<Rightarrow> (nat + nat \<Rightarrow> nat list) \<Rightarrow> bool" where
  "waits sk s W \<longleftrightarrow> (\<exists>NS. wl.family (wnodes s) (pq s) NS \<and> W = wl.waiting_in (wnodes s) NS \<and>
     (\<forall>i. \<forall>n\<in>set (NS i). sk n = w_thread (wnodes s n)))"

lemma pq_upd [simp]:
  "pq (upd_ker f s) = pq s"
  "pq (upd_pm m (\<lambda>x. x\<lparr>pm_owner := p\<rparr>) s) = pq s"
  "pq (upd_pm m (\<lambda>x. x\<lparr>pm_recursive := g x\<rparr>) s) = pq s"
  "pq (upd_pm m (\<lambda>x. x\<lparr>pm_queue := q\<rparr>) s) = (pq s)(Inl m := q)"
  "pq (upd_pm m (\<lambda>x. x\<lparr>pm_owner := p, pm_queue := q\<rparr>) s) = (pq s)(Inl m := q)"
  "pq (s\<lparr>wnodes := w\<rparr>) = pq s" "pq (s\<lparr>ker := k\<rparr>) = pq s"
  "pq (s\<lparr>ker := k, conds := (conds s)(c := q)\<rparr>) = (pq s)(Inr c := q)"
  "pq (s\<lparr>wnodes := w, conds := (conds s)(c := q)\<rparr>) = (pq s)(Inr c := q)"
  by (rule ext; simp add: pq_def split: sum.split)+

lemma waits_cong:
  "pq s' = pq s \<Longrightarrow> wnodes s' = wnodes s \<Longrightarrow> waits sk s' W = waits sk s W"
  by (simp add: waits_def)

lemma waits_upd [simp]:
  "waits sk (upd_ker f s) W = waits sk s W"
  "waits sk (upd_pm m (\<lambda>x. x\<lparr>pm_owner := p\<rparr>) s) W = waits sk s W"
  "waits sk (upd_pm m (\<lambda>x. x\<lparr>pm_recursive := g x\<rparr>) s) W = waits sk s W"
  by (rule waits_cong; simp)+

lemma waits_enqueue:
  assumes w: "waits sk s W" and t: "\<forall>j. t \<notin> set (W j)" and n: "sk n = t"
    and s': "\<And>q w. pq (f q w) = (pq s)(i := q) \<and> wnodes (f q w) = w"
  shows "\<exists>q w. wl_enqueue n t (pq s i) (wnodes s) = Inr (q, w) \<and> waits sk (f q w) (W(i := W i @ [t]))"
proof -
  from w obtain NS where NS: "wl.family (wnodes s) (pq s) NS" "W = wl.waiting_in (wnodes s) NS"
    "\<forall>i. \<forall>n\<in>set (NS i). sk n = w_thread (wnodes s n)" unfolding waits_def by blast
  have fresh: "\<forall>j. n \<notin> set (NS j)"
    using NS(2,3) t n unfolding wl.waiting_in_def by force
  from wl.family_enq [OF NS(1) fresh, of t i] obtain q w' where
    e: "wl_enqueue n t (pq s i) (wnodes s) = Inr (q, w')"
      "wl.family w' ((pq s)(i := q)) (NS(i := NS i @ [n]))"
      "wl.waiting_in w' (NS(i := NS i @ [n])) = (wl.waiting_in (wnodes s) NS)(i := wl.waiting_in (wnodes s) NS i @ [t])"
    by blast
  have th: "map (\<lambda>a. w_thread (w' a)) ((NS(i := NS i @ [n])) j) = (W(i := W i @ [t])) j" for j
    using e(3) unfolding NS(2) wl.waiting_in_def by metis
  have "sk a = w_thread (w' a)" if a: "a \<in> set ((NS(i := NS i @ [n])) j)" for a j
  proof (cases "a = n")
    case True
    have "w_thread (w' n) = t" using th [of i] by simp
    with True n show ?thesis by simp
  next
    case False
    then have aj: "a \<in> set (NS j)" using a by (auto split: if_splits)
    have "map (\<lambda>a. w_thread (w' a)) (NS j) = map (\<lambda>a. w_thread (wnodes s a)) (NS j)"
      using th [of j] unfolding NS(2) wl.waiting_in_def by (auto split: if_splits)
    with aj NS(3) show ?thesis by simp
  qed
  with e s' [of q w'] NS(2) show ?thesis unfolding waits_def by (intro exI conjI) auto
qed

lemma waits_dequeue:
  assumes w: "waits sk s W"
    and s': "\<And>q. pq (f q) = (pq s)(i := q) \<and> wnodes (f q) = wnodes s"
  shows "\<exists>q. wl_dequeue (pq s i) (wnodes s) = (q, case W i of [] \<Rightarrow> nullptr | t # _ \<Rightarrow> Some t) \<and>
    waits sk (f q) (W(i := tl (W i)))"
proof -
  from w obtain NS where NS: "wl.family (wnodes s) (pq s) NS" "W = wl.waiting_in (wnodes s) NS"
    "\<forall>i. \<forall>n\<in>set (NS i). sk n = w_thread (wnodes s n)" unfolding waits_def by blast
  from wl.family_deq [OF NS(1), of i] obtain q where
    "wl_dequeue (pq s i) (wnodes s) = (q, case W i of [] \<Rightarrow> nullptr | t # _ \<Rightarrow> Some t)"
    "wl.family (wnodes s) ((pq s)(i := q)) (NS(i := tl (NS i)))"
    "wl.waiting_in (wnodes s) (NS(i := tl (NS i))) = W(i := tl (W i))" unfolding NS(2) by blast
  moreover have "\<forall>j. \<forall>n\<in>set ((NS(i := tl (NS i))) j). sk n = w_thread (wnodes s n)"
    using NS(3) by (auto dest: in_set_tlD)
  ultimately show ?thesis using s' [of q] unfolding waits_def by (intro exI conjI) auto
qed

lemma waits_first:
  assumes "waits sk s W"
  shows "wq_first (pq s i) = nullptr \<longleftrightarrow> W i = []"
proof -
  from assms obtain NS where "wq_rep (wnodes s) (pq s i) (NS i)" "W = wl.waiting_in (wnodes s) NS"
    unfolding waits_def wl.family_def by blast
  then show ?thesis unfolding wq_rep_def wl.waiting_in_def by (cases "NS i") auto
qed

abbreviation front_thread :: "nat list \<Rightarrow> ptr" where
  "front_thread q \<equiv> (case q of [] \<Rightarrow> nullptr | t # _ \<Rightarrow> Some t)"

lemma pm_enqueue_eq:
  assumes "waits sk s W" "\<forall>j. self s \<notin> set (W j)" "sk n = self s"
  shows "\<exists>s'. pm_enqueue n m s = Inr s' \<and> waits sk s' (W(Inl m := W (Inl m) @ [self s])) \<and> ker s' = ker s \<and>
    (\<forall>a. powner s' a = powner s a \<and> precursive s' a = precursive s a)"
proof -
  let ?f = "\<lambda>q w. upd_pm m (\<lambda>x. x\<lparr>pm_queue := q\<rparr>) (s\<lparr>wnodes := w\<rparr>)"
  from waits_enqueue [OF assms, of ?f "Inl m"] obtain q w where
    "wl_enqueue n (self s) (pm_queue (pmutexes s m)) (wnodes s) = Inr (q, w)"
    "waits sk (?f q w) (W(Inl m := W (Inl m) @ [self s]))" by (auto simp: pq_def)
  then show ?thesis by (intro exI [of _ "?f q w"]) (simp add: pm_enqueue_def)
qed

lemma cond_enqueue_eq:
  assumes "waits sk s W" "\<forall>j. self s \<notin> set (W j)" "sk n = self s"
  shows "\<exists>s'. cond_enqueue n c s = Inr s' \<and> waits sk s' (W(Inr c := W (Inr c) @ [self s])) \<and> ker s' = ker s \<and>
    pmutexes s' = pmutexes s"
proof -
  let ?f = "\<lambda>q w. s\<lparr>wnodes := w, conds := (conds s)(c := q)\<rparr>"
  from waits_enqueue [OF assms, of ?f "Inr c"] obtain q w where
    "wl_enqueue n (self s) (conds s c) (wnodes s) = Inr (q, w)"
    "waits sk (?f q w) (W(Inr c := W (Inr c) @ [self s]))" by (auto simp: pq_def)
  then show ?thesis by (intro exI [of _ "?f q w"]) (simp add: cond_enqueue_def)
qed

lemma pm_handover_eq:
  assumes "waits sk s W"
  shows "\<exists>s'. pm_handover m s = (s', front_thread (W (Inl m))) \<and>
    waits sk s' (W(Inl m := tl (W (Inl m)))) \<and>
    (\<forall>a. powner s' a = (if a = m then front_thread (W (Inl m)) else powner s a)) \<and>
    (\<forall>a. precursive s' a = precursive s a) \<and>
    ker s' = (case front_thread (W (Inl m)) of None \<Rightarrow> ker s | Some u \<Rightarrow> IRQwakeup u (ker s))"
proof (cases "W (Inl m)")
  case Nil
  have "fst (wl_dequeue (pm_queue (pmutexes s m)) (wnodes s)) = pm_queue (pmutexes s m)"
    "snd (wl_dequeue (pm_queue (pmutexes s m)) (wnodes s)) = nullptr"
    using waits_first [OF assms, of "Inl m"] Nil by (simp_all add: wl_dequeue_def pq_def)
  moreover have "W(Inl m := []) = W" using Nil by auto
  ultimately show ?thesis using Nil assms
    by (intro exI [of _ "upd_pm m (\<lambda>x. x\<lparr>pm_owner := nullptr\<rparr>) s"])
      (auto simp: pm_handover_def split: prod.split)
next
  case (Cons t ts)
  let ?f = "\<lambda>q. upd_pm m (\<lambda>x. x\<lparr>pm_owner := Some t, pm_queue := q\<rparr>) (upd_ker (IRQwakeup t) s)"
  from waits_dequeue [OF assms, of ?f "Inl m"] Cons obtain q where
    "wl_dequeue (pm_queue (pmutexes s m)) (wnodes s) = (q, Some t)" "waits sk (?f q) (W(Inl m := ts))"
    by (auto simp: pq_def)
  then show ?thesis using Cons by (intro exI [of _ "?f q"]) (auto simp: pm_handover_def)
qed

lemma cond_pop_eq:
  assumes "waits sk s W"
  shows "\<exists>s'. cond_pop c s = (s', front_thread (W (Inr c))) \<and>
    waits sk s' (W(Inr c := tl (W (Inr c)))) \<and> pmutexes s' = pmutexes s \<and>
    ker s' = (case front_thread (W (Inr c)) of None \<Rightarrow> ker s
      | Some u \<Rightarrow> upd_flags u (IRQsetCondWait False) (ker s))"
proof (cases "W (Inr c)")
  case Nil
  have "snd (wl_dequeue (conds s c) (wnodes s)) = nullptr"
    using waits_first [OF assms, of "Inr c"] Nil by (simp add: wl_dequeue_def pq_def)
  moreover have "W(Inr c := []) = W" using Nil by auto
  ultimately show ?thesis using Nil assms
    by (intro exI [of _ s]) (auto simp: cond_pop_def split: prod.split)
next
  case (Cons t ts)
  let ?f = "\<lambda>q. s\<lparr>ker := upd_flags t (IRQsetCondWait False) (ker s), conds := (conds s)(c := q)\<rparr>"
  from waits_dequeue [OF assms, of ?f "Inr c"] Cons obtain q where
    "wl_dequeue (conds s c) (wnodes s) = (q, Some t)" "waits sk (?f q) (W(Inr c := ts))"
    by (auto simp: pq_def)
  then show ?thesis using Cons by (intro exI [of _ "?f q"]) (auto simp: cond_pop_def)
qed

lemma broadcast_loop_eq:
  assumes "waits sk s W"
  shows "\<exists>s' b. broadcast_loop c hp s = Some (s', b) \<and> waits sk s' (W(Inr c := [])) \<and> pmutexes s' = pmutexes s \<and>
    (b \<longleftrightarrow> hp \<or> (\<exists>u\<in>set (W (Inr c)). prio (ker s) (self s) < prio (ker s) u)) \<and> self s' = self s \<and>
    (\<forall>a. threads (ker s') a = (if a \<in> set (W (Inr c))
       then (threads (ker s) a)\<lparr>flags := IRQsetCondWait False (fl (ker s) a)\<rparr> else threads (ker s) a))"
  using assms
proof (induction "W (Inr c)" arbitrary: s hp W)
  case Nil
  then have "wq_first (conds s c) = nullptr" using waits_first [OF Nil.prems, of "Inr c"] by (simp add: pq_def)
  moreover have "W(Inr c := []) = W" using Nil.hyps by auto
  ultimately show ?case using Nil by (intro exI [of _ s]) (simp add: broadcast_loop.simps flip: Nil.hyps)
next
  case (Cons t ts)
  have ne: "wq_first (conds s c) \<noteq> nullptr"
    using waits_first [OF Cons.prems, of "Inr c"] Cons.hyps(2) by (auto simp: pq_def)
  from cond_pop_eq [OF Cons.prems, of c] obtain s1 where
    s1: "cond_pop c s = (s1, Some t)" "waits sk s1 (W(Inr c := ts))" "pmutexes s1 = pmutexes s"
      "ker s1 = upd_flags t (IRQsetCondWait False) (ker s)" by (auto simp flip: Cons.hyps(2))
  let ?b = "prio (ker s) (self s) < prio (ker s) t"
  have sig: "cv_signal c s = (s1, ?b)" using s1(1,4) by (simp add: cv_signal_def IRQgetPriority_def)
  from Cons.hyps(1) [of "W(Inr c := ts)" s1 "hp \<or> ?b"] s1(2) obtain s' b where
    IH: "broadcast_loop c (hp \<or> ?b) s1 = Some (s', b)" "waits sk s' (W(Inr c := []))" "pmutexes s' = pmutexes s1"
      "b \<longleftrightarrow> (hp \<or> ?b) \<or> (\<exists>u\<in>set ts. prio (ker s1) (self s1) < prio (ker s1) u)" "self s' = self s1"
      "\<forall>a. threads (ker s') a = (if a \<in> set ts
       then (threads (ker s1) a)\<lparr>flags := IRQsetCondWait False (fl (ker s1) a)\<rparr> else threads (ker s1) a)"
    by auto
  have "broadcast_loop c hp s = Some (s', b)"
    using ne sig IH(1) by (subst broadcast_loop.simps) auto
  moreover have "IRQsetCondWait False (IRQsetCondWait False f) = IRQsetCondWait False f" for f
    by (simp add: IRQsetCondWait_def set_flag_def)
  ultimately show ?case using IH(2-6) s1(3,4) Cons.hyps(2) [symmetric]
    by (intro exI [of _ s'] exI [of _ b]) auto
qed

section \<open>Threads that use mutexes and condition variables\<close>

text \<open>
  What a thread is doing: running its own code, waiting for a mutex (with the number of times it will
  hold it then, and the depth when the wait is the end of a condition wait), or waiting for a
  condition variable with a mutex released, to be held again as many times as it was.
\<close>

datatype tstate = Running | LockWait nat nat "int option" | CondWait nat nat nat int

text \<open>
  The bookkeeping of the threads: \<open>h t m\<close> is the number of times thread \<open>t\<close> has locked mutex \<open>m\<close> and not
  unlocked it. Threads keep to the contract of the API: they unlock, and wait on a condition with, only
  mutexes they hold, and do not lock a plain mutex twice. Everything else may happen in any order,
  wakeups for reasons unrelated to the mutexes included.
\<close>

type_synonym psys = "psync \<times> (nat \<Rightarrow> tstate) \<times> (nat \<Rightarrow> nat \<Rightarrow> nat)"

abbreviation run_thread :: "nat \<Rightarrow> psync \<Rightarrow> psync" where
  "run_thread t s \<equiv> upd_ker (\<lambda>k. k\<lparr>cur := t\<rparr>) s"

abbreviation set_held :: "nat \<Rightarrow> nat \<Rightarrow> nat \<Rightarrow> (nat \<Rightarrow> nat \<Rightarrow> nat) \<Rightarrow> nat \<Rightarrow> nat \<Rightarrow> nat" where
  "set_held t m v h \<equiv> h(t := (h t)(m := v))"

inductive pthread_step :: "(nat \<Rightarrow> nat) \<Rightarrow> psys \<Rightarrow> psys \<Rightarrow> bool" for sk :: "nat \<Rightarrow> nat" where
  lock: "pc t = Running \<Longrightarrow> sk n = t \<Longrightarrow> powner s m \<noteq> Some t \<or> precursive s m \<ge> 0 \<Longrightarrow>
    IRQdoMutexLock n m (run_thread t s) = Inr (s', b) \<Longrightarrow>
    pthread_step sk (s, pc, h) (s', pc(t := if b then Running else LockWait m 1 None),
      if b then set_held t m (h t m + 1) h else h)"
| trylock: "pc t = Running \<Longrightarrow> pthread_mutex_trylock m (run_thread t s) = (s', e) \<Longrightarrow>
    pthread_step sk (s, pc, h) (s', pc, if e = 0 then set_held t m (h t m + 1) h else h)"
| unlock: "pc t = Running \<Longrightarrow> 0 < h t m \<Longrightarrow> IRQdoMutexUnlock m (run_thread t s) = (s', b) \<Longrightarrow>
    pthread_step sk (s, pc, h) (s', pc, set_held t m (h t m - 1) h)"
| resume: "pc t = LockWait m v None \<Longrightarrow> pm_wait m (run_thread t s) = (s', b) \<Longrightarrow>
    pthread_step sk (s, pc, h) (s', if b then pc(t := Running) else pc, if b then set_held t m v h else h)"
| resume_depth: "pc t = LockWait m v (Some d) \<Longrightarrow> pm_wait_to_depth d m (run_thread t s) = (s', b) \<Longrightarrow>
    pthread_step sk (s, pc, h) (s', if b then pc(t := Running) else pc, if b then set_held t m v h else h)"
| cond_wait: "pc t = Running \<Longrightarrow> 0 < h t m \<Longrightarrow> sk n = t \<Longrightarrow>
    pthread_cond_wait n c m (run_thread t s) = Inr (s', d) \<Longrightarrow>
    pthread_step sk (s, pc, h) (s', pc(t := CondWait c m (h t m) d), set_held t m 0 h)"
| cond_resume: "pc t = CondWait c m v d \<Longrightarrow> \<not> isWaitingCond (fl (ker s) t) \<Longrightarrow> sk n = t \<Longrightarrow>
    IRQdoMutexLockToDepth n d m (run_thread t s) = Inr (s', b) \<Longrightarrow>
    pthread_step sk (s, pc, h) (s', pc(t := if b then Running else LockWait m v (Some d)),
      if b then set_held t m v h else h)"
| signal: "pthread_step sk (s, pc, h) (pthread_cond_signal c s, pc, h)"
| broadcast: "pthread_cond_broadcast c s = Some s' \<Longrightarrow> pthread_step sk (s, pc, h) (s', pc, h)"
| wakeup: "pthread_step sk (s, pc, h) (upd_ker (IRQwakeup t) s, pc, h)"

text \<open>
  The invariant, on what can be seen of the state: the owner \<open>O\<close> and depth \<open>R\<close> of every mutex, the
  waiting threads \<open>W\<close>, the threads blocked (\<open>B\<close>) and those with the condition flag (\<open>C\<close>); \<open>rc\<close> says which
  mutexes are recursive.
\<close>

definition held_as :: "(nat \<Rightarrow> bool) \<Rightarrow> nat \<Rightarrow> nat \<Rightarrow> int \<Rightarrow> bool" where
  "held_as rc m v d \<longleftrightarrow> 0 < v \<and> 0 \<le> d \<and> int v = (if rc m then d + 1 else 1)"

definition ainv ::
  "(nat \<Rightarrow> bool) \<Rightarrow> (nat \<Rightarrow> ptr) \<Rightarrow> (nat \<Rightarrow> int) \<Rightarrow> (nat + nat \<Rightarrow> nat list) \<Rightarrow> (nat \<Rightarrow> bool) \<Rightarrow> (nat \<Rightarrow> bool) \<Rightarrow>
    (nat \<Rightarrow> tstate) \<Rightarrow> (nat \<Rightarrow> nat \<Rightarrow> nat) \<Rightarrow> bool" where
  "ainv rc Ow R W B C pc h \<longleftrightarrow>
     (\<forall>t m. t \<in> set (W (Inl m)) \<longleftrightarrow> (\<exists>v d. pc t = LockWait m v d) \<and> Ow m \<noteq> Some t) \<and>
     (\<forall>t c. t \<in> set (W (Inr c)) \<longleftrightarrow> (\<exists>m v d. pc t = CondWait c m v d) \<and> C t) \<and>
     (\<forall>i. distinct (W i)) \<and>
     (\<forall>m. Ow m = nullptr \<longrightarrow> W (Inl m) = []) \<and>
     (\<forall>t m. 0 < h t m \<longleftrightarrow> Ow m = Some t \<and> (\<forall>v d. pc t \<noteq> LockWait m v d)) \<and>
     (\<forall>m. rc m \<longleftrightarrow> 0 \<le> R m) \<and>
     (\<forall>t m. 0 < h t m \<longrightarrow> int (h t m) = (if rc m then R m + 1 else 1)) \<and>
     (\<forall>m. rc m \<and> (\<forall>t. h t m = 0) \<longrightarrow> R m = 0) \<and>
     (\<forall>t m v d. pc t = LockWait m v d \<and> Ow m = Some t \<longrightarrow> \<not> B t) \<and>
     (\<forall>t m v d. pc t = LockWait m v d \<longrightarrow> held_as rc m v (case d of None \<Rightarrow> 0 | Some d \<Rightarrow> d)) \<and>
     (\<forall>t c m v d. pc t = CondWait c m v d \<longrightarrow> held_as rc m v d \<and> Ow m \<noteq> Some t)"

lemma ainvD:
  assumes "ainv rc Ow R W B C pc h"
  shows "t \<in> set (W (Inl m)) \<longleftrightarrow> (\<exists>v d. pc t = LockWait m v d) \<and> Ow m \<noteq> Some t"
    "t \<in> set (W (Inr c)) \<longleftrightarrow> (\<exists>m v d. pc t = CondWait c m v d) \<and> C t"
    "distinct (W i)" "Ow m = nullptr \<Longrightarrow> W (Inl m) = []"
    "0 < h t m \<longleftrightarrow> Ow m = Some t \<and> (\<forall>v d. pc t \<noteq> LockWait m v d)"
    "rc m \<longleftrightarrow> 0 \<le> R m" "0 < h t m \<Longrightarrow> int (h t m) = (if rc m then R m + 1 else 1)"
    "rc m \<Longrightarrow> \<forall>t. h t m = 0 \<Longrightarrow> R m = 0" "pc t = LockWait m v d \<Longrightarrow> Ow m = Some t \<Longrightarrow> \<not> B t"
    "pc t = LockWait m v d \<Longrightarrow> held_as rc m v (case d of None \<Rightarrow> 0 | Some d \<Rightarrow> d)"
    "pc t = CondWait c m v e \<Longrightarrow> held_as rc m v e \<and> Ow m \<noteq> Some t"
proof -
  note c1 = assms [unfolded ainv_def]
  note c2 = c1 [THEN conjunct2]
  note c3 = c2 [THEN conjunct2]
  note c4 = c3 [THEN conjunct2]
  note c5 = c4 [THEN conjunct2]
  note c6 = c5 [THEN conjunct2]
  note c7 = c6 [THEN conjunct2]
  note c8 = c7 [THEN conjunct2]
  note c9 = c8 [THEN conjunct2]
  note c10 = c9 [THEN conjunct2]
  note c11 = c10 [THEN conjunct2]
  show "t \<in> set (W (Inl m)) \<longleftrightarrow> (\<exists>v d. pc t = LockWait m v d) \<and> Ow m \<noteq> Some t"
    using c1 [THEN conjunct1] by blast
  show "t \<in> set (W (Inr c)) \<longleftrightarrow> (\<exists>m v d. pc t = CondWait c m v d) \<and> C t"
    using c2 [THEN conjunct1] by blast
  show "distinct (W i)"
    using c3 [THEN conjunct1] by blast
  show "Ow m = nullptr \<Longrightarrow> W (Inl m) = []"
    using c4 [THEN conjunct1] by blast
  show "0 < h t m \<longleftrightarrow> Ow m = Some t \<and> (\<forall>v d. pc t \<noteq> LockWait m v d)"
    using c5 [THEN conjunct1] by blast
  show "rc m \<longleftrightarrow> 0 \<le> R m"
    using c6 [THEN conjunct1] by blast
  show "0 < h t m \<Longrightarrow> int (h t m) = (if rc m then R m + 1 else 1)"
    using c7 [THEN conjunct1] by blast
  show "rc m \<Longrightarrow> \<forall>t. h t m = 0 \<Longrightarrow> R m = 0"
    using c8 [THEN conjunct1] by blast
  show "pc t = LockWait m v d \<Longrightarrow> Ow m = Some t \<Longrightarrow> \<not> B t"
    using c9 [THEN conjunct1] by blast
  show "pc t = LockWait m v d \<Longrightarrow> held_as rc m v (case d of None \<Rightarrow> 0 | Some d \<Rightarrow> d)"
    using c10 [THEN conjunct1] by blast
  show "pc t = CondWait c m v e \<Longrightarrow> held_as rc m v e \<and> Ow m \<noteq> Some t" using c11 by blast
qed

lemma ainvI:
  assumes "\<And>t m. t \<in> set (W (Inl m)) \<longleftrightarrow> (\<exists>v d. pc t = LockWait m v d) \<and> Ow m \<noteq> Some t"
    "\<And>t c. t \<in> set (W (Inr c)) \<longleftrightarrow> (\<exists>m v d. pc t = CondWait c m v d) \<and> C t"
    "\<And>i. distinct (W i)" "\<And>m. Ow m = nullptr \<longrightarrow> W (Inl m) = []"
    "\<And>t m. 0 < h t m \<longleftrightarrow> Ow m = Some t \<and> (\<forall>v d. pc t \<noteq> LockWait m v d)"
    "\<And>m. rc m \<longleftrightarrow> 0 \<le> R m" "\<And>t m. 0 < h t m \<longrightarrow> int (h t m) = (if rc m then R m + 1 else 1)"
    "\<And>m. rc m \<and> (\<forall>t. h t m = 0) \<longrightarrow> R m = 0"
    "\<And>t m v d. pc t = LockWait m v d \<and> Ow m = Some t \<longrightarrow> \<not> B t"
    "\<And>t m v d. pc t = LockWait m v d \<longrightarrow> held_as rc m v (case d of None \<Rightarrow> 0 | Some d \<Rightarrow> d)"
    "\<And>t c m v d. pc t = CondWait c m v d \<longrightarrow> held_as rc m v d \<and> Ow m \<noteq> Some t"
  shows "ainv rc Ow R W B C pc h"
  unfolding ainv_def using assms by (intro conjI allI) assumption+

lemma ainv_idle:
  assumes "ainv rc Ow R W B C pc h" "pc t = Running \<or> (\<exists>c m v d. pc t = CondWait c m v d) \<and> \<not> C t"
  shows "t \<notin> set (W i)"
  using ainvD(1,2) [OF assms(1), of t] assms(2) by (cases i) auto

text \<open>The effect of every event on the invariant.\<close>

abbreviation depth_of :: "int option \<Rightarrow> int" where
  "depth_of d \<equiv> (case d of None \<Rightarrow> 0 | Some d \<Rightarrow> d)"

lemma ainv_held_unique: "ainv rc Ow R W B C pc h \<Longrightarrow> 0 < h t m \<Longrightarrow> u \<noteq> t \<Longrightarrow> h u m = 0"
  using ainvD(5) by (metis gr0I option.inject)

lemma set_held_zero:
  "(\<forall>x. set_held t m v h x n = 0) \<longleftrightarrow> (if n = m then v = 0 \<and> (\<forall>x. x \<noteq> t \<longrightarrow> h x m = 0) else \<forall>x. h x n = 0)"
  by auto

lemma ainv_take:
  assumes a: "ainv rc Ow R W B C pc h" and o: "Ow m = nullptr"
    and t: "pc t = Running \<or> (\<exists>c m v d. pc t = CondWait c m v d) \<and> \<not> C t" and v: "held_as rc m v d"
  shows "ainv rc (Ow(m := Some t)) (if rc m then R(m := d) else R) W B C (pc(t := Running)) (set_held t m v h)"
proof -
  note D = ainvD [OF a]
  have nl: "pc t \<noteq> LockWait n w e" for n w e using t by auto
  have h0: "h u m = 0" for u using D(5) [of u m] o by simp
  show ?thesis
  proof (rule ainvI)
    show "x \<in> set (W (Inl n)) \<longleftrightarrow>
        (\<exists>v d. (pc(t := Running)) x = LockWait n v d) \<and> (Ow(m := Some t)) n \<noteq> Some x" for x n
      using D(1) [of x n] D(4) [OF o] nl o by auto
    show "x \<in> set (W (Inr c)) \<longleftrightarrow> (\<exists>m v d. (pc(t := Running)) x = CondWait c m v d) \<and> C x" for x c
      using D(2) [of x c] t by auto
    show "0 < set_held t m v h x n \<longleftrightarrow>
        (Ow(m := Some t)) n = Some x \<and> (\<forall>v d. (pc(t := Running)) x \<noteq> LockWait n v d)" for x n
      using D(5) [of x n] v h0 nl o by (auto simp: held_as_def)
    show "0 < set_held t m v h x n \<longrightarrow>
        int (set_held t m v h x n) = (if rc n then (if rc m then R(m := d) else R) n + 1 else 1)" for x n
      using D(7) [of x n] v h0 by (auto simp: held_as_def)
    show "rc n \<and> (\<forall>x. set_held t m v h x n = 0) \<longrightarrow> (if rc m then R(m := d) else R) n = 0" for n
      using D(8) [of n] v unfolding set_held_zero by (auto simp: held_as_def)
  qed (use D(3,4,6,9-11) v o nl in \<open>auto simp: held_as_def split: if_splits\<close>)
qed

lemma ainv_depth:
  assumes a: "ainv rc Ow R W B C pc h" and t: "0 < h t m" "rc m" "0 \<le> d"
  shows "ainv rc Ow (R(m := d)) W B C pc (set_held t m (nat (d + 1)) h)"
proof -
  note D = ainvD [OF a]
  have u: "x \<noteq> t \<Longrightarrow> h x m = 0" for x by (rule ainv_held_unique [OF a t(1)])
  show ?thesis
  proof (rule ainvI)
    show "0 < set_held t m (nat (d + 1)) h x n \<longleftrightarrow> Ow n = Some x \<and> (\<forall>v d. pc x \<noteq> LockWait n v d)" for x n
      using D(5) [of x n] t by auto
    show "0 < set_held t m (nat (d + 1)) h x n \<longrightarrow>
        int (set_held t m (nat (d + 1)) h x n) = (if rc n then (R(m := d)) n + 1 else 1)" for x n
      using D(7) [of x n] t u [of x] by auto
    show "rc n \<and> (\<forall>x. set_held t m (nat (d + 1)) h x n = 0) \<longrightarrow> (R(m := d)) n = 0" for n
      using D(8) [of n] t by (auto split: if_splits)
  qed (use D t in auto)
qed

lemma ainv_wait:
  assumes a: "ainv rc Ow R W B C pc h" and o: "Ow m = Some u" "u \<noteq> t"
    and t: "pc t = Running \<or> (\<exists>c m v d. pc t = CondWait c m v d) \<and> \<not> C t" and v: "held_as rc m v (depth_of d)"
  shows "ainv rc Ow R (W(Inl m := W (Inl m) @ [t])) (B(t := True)) C (pc(t := LockWait m v d)) h"
proof -
  note D = ainvD [OF a]
  have nl: "pc t \<noteq> LockWait n w e" for n w e using t by auto
  have nt: "t \<notin> set (W i)" for i by (rule ainv_idle [OF a t])
  show ?thesis
  proof (rule ainvI)
    show "x \<in> set ((W(Inl m := W (Inl m) @ [t])) (Inl n)) \<longleftrightarrow>
        (\<exists>w e. (pc(t := LockWait m v d)) x = LockWait n w e) \<and> Ow n \<noteq> Some x" for x n
      using D(1) [of x n] nt [of "Inl n"] o by auto
    show "x \<in> set ((W(Inl m := W (Inl m) @ [t])) (Inr c)) \<longleftrightarrow>
        (\<exists>n w e. (pc(t := LockWait m v d)) x = CondWait c n w e) \<and> C x" for x c
      using D(2) [of x c] t by auto
    show "distinct ((W(Inl m := W (Inl m) @ [t])) i)" for i using D(3) [of i] nt by auto
    show "0 < h x n \<longleftrightarrow> Ow n = Some x \<and> (\<forall>w e. (pc(t := LockWait m v d)) x \<noteq> LockWait n w e)" for x n
      using D(5) [of x n] o nl by auto
  qed (use D(4,6-11) o v in auto)
qed

lemma ainv_release:
  assumes a: "ainv rc Ow R W B C pc h" and t: "0 < h t m"
  shows "ainv rc (Ow(m := front_thread (W (Inl m)))) (R(m := if rc m then 0 else R m)) (W(Inl m := tl (W (Inl m))))
    (\<lambda>x. B x \<and> front_thread (W (Inl m)) \<noteq> Some x) C pc (set_held t m 0 h)"
proof -
  note D = ainvD [OF a]
  have o: "Ow m = Some t" "\<And>v d. pc t \<noteq> LockWait m v d" using D(5) [of t m] t by auto
  have u: "h x m = 0" if "x \<noteq> t" for x using ainv_held_unique [OF a t that] .
  have fr: "front_thread (W (Inl m)) = Some x \<Longrightarrow> x \<in> set (W (Inl m)) \<and> x \<notin> set (tl (W (Inl m)))" for x
    using D(3) [of "Inl m"] by (cases "W (Inl m)") auto
  have tl: "x \<in> set (tl (W (Inl m))) \<longleftrightarrow> x \<in> set (W (Inl m)) \<and> front_thread (W (Inl m)) \<noteq> Some x" for x
    using D(3) [of "Inl m"] by (cases "W (Inl m)") auto
  have m1: "x \<in> set (W (Inl m)) \<longleftrightarrow> (\<exists>v d. pc x = LockWait m v d)" for x using D(1) [of x m] o by auto
  show ?thesis
  proof (rule ainvI)
    show "x \<in> set ((W(Inl m := tl (W (Inl m)))) (Inl n)) \<longleftrightarrow>
        (\<exists>v d. pc x = LockWait n v d) \<and> (Ow(m := front_thread (W (Inl m)))) n \<noteq> Some x" for x n
      using D(1) [of x n] tl [of x] m1 [of x] by auto
    show "0 < set_held t m 0 h x n \<longleftrightarrow>
        (Ow(m := front_thread (W (Inl m)))) n = Some x \<and> (\<forall>v d. pc x \<noteq> LockWait n v d)" for x n
      using D(5) [of x n] u [of x] fr [of x] m1 [of x] by auto
    show "(Ow(m := front_thread (W (Inl m)))) n = nullptr \<longrightarrow> (W(Inl m := tl (W (Inl m)))) (Inl n) = []" for n
      using D(4) [of n] by (auto split: list.splits)
    show "rc n \<and> (\<forall>x. set_held t m 0 h x n = 0) \<longrightarrow> (R(m := if rc m then 0 else R m)) n = 0" for n
      using D(8) [of n] by (auto split: if_splits)
    show "0 < set_held t m 0 h x n \<longrightarrow>
        int (set_held t m 0 h x n) = (if rc n then (R(m := if rc m then 0 else R m)) n + 1 else 1)" for x n
      using D(7) [of x n] u [of x] by auto
    show "distinct ((W(Inl m := tl (W (Inl m)))) i)" for i using D(3) by (simp add: distinct_tl)
    show "rc n \<longleftrightarrow> 0 \<le> (R(m := if rc m then 0 else R m)) n" for n using D(6) by auto
    show "pc x = LockWait n v d \<and> (Ow(m := front_thread (W (Inl m)))) n = Some x \<longrightarrow>
        \<not> (B x \<and> front_thread (W (Inl m)) \<noteq> Some x)" for x n v d
      using D(9) [of x n v d] by auto
    show "pc x = CondWait c n v d \<longrightarrow> held_as rc n v d \<and> (Ow(m := front_thread (W (Inl m)))) n \<noteq> Some x" for x c n v d
      using D(11) [of x c n v d] fr [of x] m1 [of x] by auto
  qed (use D(2,10) in auto)
qed

lemma ainv_acquire:
  assumes a: "ainv rc Ow R W B C pc h" and t: "pc t = LockWait m v d" "Ow m = Some t"
  shows "ainv rc Ow (if rc m then R(m := depth_of d) else R) W B C (pc(t := Running)) (set_held t m v h)"
proof -
  note D = ainvD [OF a]
  have h0: "h x m = 0" for x using D(5) [of x m] t by auto
  have v: "held_as rc m v (depth_of d)" by (rule D(10) [OF t(1)])
  show ?thesis
  proof (rule ainvI)
    show "x \<in> set (W (Inl n)) \<longleftrightarrow> (\<exists>v d. (pc(t := Running)) x = LockWait n v d) \<and> Ow n \<noteq> Some x" for x n
      using D(1) [of x n] t by auto
    show "x \<in> set (W (Inr c)) \<longleftrightarrow> (\<exists>m v d. (pc(t := Running)) x = CondWait c m v d) \<and> C x" for x c
      using D(2) [of x c] t by auto
    show "0 < set_held t m v h x n \<longleftrightarrow> Ow n = Some x \<and> (\<forall>v d. (pc(t := Running)) x \<noteq> LockWait n v d)" for x n
      using D(5) [of x n] v h0 t by (auto simp: held_as_def)
    show "0 < set_held t m v h x n \<longrightarrow>
        int (set_held t m v h x n) = (if rc n then (if rc m then R(m := depth_of d) else R) n + 1 else 1)" for x n
      using D(7) [of x n] v h0 by (auto simp: held_as_def)
    show "rc n \<and> (\<forall>x. set_held t m v h x n = 0) \<longrightarrow> (if rc m then R(m := depth_of d) else R) n = 0" for n
      using D(8) [of n] v unfolding set_held_zero by (auto simp: held_as_def)
  qed (use D(3,4,6,9-11) v t in \<open>auto simp: held_as_def split: if_splits\<close>)
qed

lemma ainv_block:
  assumes a: "ainv rc Ow R W B C pc h" and t: "pc t = LockWait m v d" "Ow m \<noteq> Some t"
  shows "ainv rc Ow R W (B(t := True)) C pc h"
  by (rule ainvI) (use ainvD [OF a] t in auto)

lemma ainv_unblock: "ainv rc Ow R W B C pc h \<Longrightarrow> (\<And>x. B' x \<Longrightarrow> B x) \<Longrightarrow> ainv rc Ow R W B' C pc h"
  by (rule ainvI; blast dest: ainvD)

lemma ainv_cond_wait:
  assumes a: "ainv rc Ow R W B C pc h" and t: "pc t = Running" "Ow m \<noteq> Some t" and v: "held_as rc m v d"
  shows "ainv rc Ow R (W(Inr c := W (Inr c) @ [t])) B (C(t := True)) (pc(t := CondWait c m v d)) h"
proof -
  note D = ainvD [OF a]
  have nt: "t \<notin> set (W i)" for i by (rule ainv_idle [OF a]) (simp add: t)
  show ?thesis
  proof (rule ainvI)
    show "x \<in> set ((W(Inr c := W (Inr c) @ [t])) (Inl n)) \<longleftrightarrow>
        (\<exists>w e. (pc(t := CondWait c m v d)) x = LockWait n w e) \<and> Ow n \<noteq> Some x" for x n
      using D(1) [of x n] t by auto
    show "x \<in> set ((W(Inr c := W (Inr c) @ [t])) (Inr b)) \<longleftrightarrow>
        (\<exists>n w e. (pc(t := CondWait c m v d)) x = CondWait b n w e) \<and> (C(t := True)) x" for x b
      using D(2) [of x b] nt [of "Inr b"] t by auto
    show "distinct ((W(Inr c := W (Inr c) @ [t])) i)" for i using D(3) [of i] nt by auto
  qed (use D(4-11) t v in auto)
qed

lemma ainv_signal:
  assumes a: "ainv rc Ow R W B C pc h" and W': "W' = W(Inr c := q)" "distinct q" "set q \<subseteq> set (W (Inr c))"
    and C': "\<And>x. C' x \<longleftrightarrow> C x \<and> x \<notin> set (W (Inr c)) - set q"
  shows "ainv rc Ow R W' B C' pc h"
proof -
  note D = ainvD [OF a]
  show ?thesis
  proof (rule ainvI)
    show "x \<in> set (W' (Inr b)) \<longleftrightarrow> (\<exists>n w e. pc x = CondWait b n w e) \<and> C' x" for x b
      using D(2) [of x b] D(2) [of x c] W' C' by auto
    show "distinct (W' i)" for i using D(3) [of i] W' by auto
  qed (use D W' in auto)
qed

text \<open>The invariant of the system of threads; every call a thread may make returns and keeps it.\<close>

definition pinv :: "(nat \<Rightarrow> nat) \<Rightarrow> (nat \<Rightarrow> bool) \<Rightarrow> psys \<Rightarrow> bool" where
  "pinv sk rc = (\<lambda>(s, pc, h). \<exists>W. waits sk s W \<and>
     ainv rc (powner s) (precursive s) W (blocked (ker s)) (\<lambda>t. isWaitingCond (fl (ker s) t)) pc h)"

lemma pinvI:
  assumes "waits sk s W" "ainv rc Ow R W B C pc h" "\<And>m. powner s m = Ow m" "\<And>m. precursive s m = R m"
    "\<And>t. blocked (ker s) t = B t" "\<And>t. isWaitingCond (fl (ker s) t) = C t"
  shows "pinv sk rc (s, pc, h)"
proof -
  have "(\<lambda>m. powner s m) = Ow" "(\<lambda>m. precursive s m) = R" "(\<lambda>t. blocked (ker s) t) = B"
    "(\<lambda>t. isWaitingCond (fl (ker s) t)) = C" using assms(3-6) by auto
  with assms(1,2) show ?thesis unfolding pinv_def by auto
qed

lemma cond_flag_views [simp]:
  "isWaitingCond (fl (IRQwait k) t) = isWaitingCond (fl k t)"
  "isWaitingCond (fl (IRQwakeup u k) t) = isWaitingCond (fl k t)"
  "blocked (upd_flags u (IRQsetCondWait b) k) t = blocked k t"
  "isWaitingCond (fl (upd_flags u (IRQsetCondWait b) k) t) = (if t = u then b else isWaitingCond (fl k t))"
  "isWaitingCond (fl (k\<lparr>cur := c\<rparr>) t) = isWaitingCond (fl k t)"
  by (simp_all add: IRQwait_def IRQwakeup_def flag_tests flag_setters set_flag_def bit_simps)

lemma pm_wait_blocks:
  assumes "waits sk s W" "ainv rc (powner s) (precursive s) W B C pc h" "pc t = LockWait m v d" "self s = t"
    "powner s m \<noteq> Some t" "\<And>x. B x \<Longrightarrow> blocked (ker s) x" "\<And>x. blocked (ker s) x \<Longrightarrow> x = t \<or> B x"
    "\<And>x. isWaitingCond (fl (ker s) x) = C x"
  shows "pm_wait m s = (upd_ker IRQwait s, False)" "pinv sk rc (upd_ker IRQwait s, pc, h)"
proof -
  show "pm_wait m s = (upd_ker IRQwait s, False)" using assms(4,5) by (simp add: pm_wait_def)
  show "pinv sk rc (upd_ker IRQwait s, pc, h)"
    by (rule pinvI [OF _ ainv_block [OF assms(2,3,5)]]) (use assms in auto)
qed

lemma enter_queue:
  assumes w: "waits sk s W" and a: "ainv rc (powner s) (precursive s) W (blocked (ker s)) (\<lambda>t. isWaitingCond (fl (ker s) t)) pc h"
    and o: "powner s m = Some u" "u \<noteq> self s" and n: "sk n = self s"
    and t: "pc (self s) = Running \<or> (\<exists>c m v d. pc (self s) = CondWait c m v d) \<and> \<not> isWaitingCond (fl (ker s) (self s))"
    and v: "held_as rc m v (depth_of d)"
  shows "\<exists>s1. pm_enqueue n m s = Inr s1 \<and> pm_wait m s1 = (upd_ker IRQwait s1, False) \<and>
    pinv sk rc (upd_ker IRQwait s1, pc(self s := LockWait m v d), h)"
proof -
  have nt: "\<forall>j. self s \<notin> set (W j)" using ainv_idle [OF a t] by blast
  from pm_enqueue_eq [OF w nt n, of m] obtain s1 where
    s1: "pm_enqueue n m s = Inr s1" "waits sk s1 (W(Inl m := W (Inl m) @ [self s]))" "ker s1 = ker s"
      "\<forall>a. powner s1 a = powner s a \<and> precursive s1 a = precursive s a" by blast
  have "pm_wait m s1 = (upd_ker IRQwait s1, False)" using s1 o by (simp add: pm_wait_def)
  moreover have "pinv sk rc (upd_ker IRQwait s1, pc(self s := LockWait m v d), h)"
    by (rule pinvI [OF _ ainv_wait [OF a o t v]]) (use s1 in auto)
  ultimately show ?thesis using s1(1) by blast
qed

lemma held_as_1: "held_as rc m 1 0"
  by (simp add: held_as_def)

lemma lock_pinv:
  assumes inv: "pinv sk rc (s, pc, h)" and t: "pc t = Running"
    and n: "powner s m = nullptr \<or> powner s m = Some t \<or> sk n = t"
    and ok: "powner s m \<noteq> Some t \<or> precursive s m \<ge> 0"
  shows "\<exists>s' b. IRQdoMutexLock n m (run_thread t s) = Inr (s', b) \<and>
    pinv sk rc (s', pc(t := if b then Running else LockWait m 1 None), if b then set_held t m (h t m + 1) h else h)"
proof -
  from inv obtain W where w: "waits sk s W" and
    a: "ainv rc (powner s) (precursive s) W (blocked (ker s)) (\<lambda>t. isWaitingCond (fl (ker s) t)) pc h"
    unfolding pinv_def by auto
  note D = ainvD [OF a]
  consider "powner s m = nullptr" | "powner s m = Some t" | u where "powner s m = Some u" "u \<noteq> t"
    by (cases "powner s m") auto
  then show ?thesis
  proof cases
    case 1
    have h0: "h x m = 0" for x using D(5) [of x m] 1 by simp
    then have R: "(if rc m then (precursive s)(m := 0) else precursive s) = precursive s"
      using D(8) [of m] by auto
    have "ainv rc ((powner s)(m := Some t)) (precursive s) W (blocked (ker s))
        (\<lambda>t. isWaitingCond (fl (ker s) t)) (pc(t := Running)) (set_held t m 1 h)"
      using ainv_take [OF a 1 _ held_as_1] t unfolding R by blast
    then have "pinv sk rc (upd_pm m (\<lambda>x. x\<lparr>pm_owner := Some t\<rparr>) (run_thread t s), pc(t := Running), set_held t m 1 h)"
      by (rule pinvI [rotated]) (use w in auto)
    then show ?thesis using 1 h0 [of t] by (auto simp: IRQdoMutexLock_def)
  next
    case 2
    let ?d = "precursive s m + 1"
    have r: "rc m" "0 \<le> ?d" using ok 2 D(6) [of m] by auto
    have ht: "0 < h t m" using D(5) [of t m] 2 t by auto
    have "nat (?d + 1) = h t m + 1" using D(7) [OF ht] r by auto
    then have "ainv rc (powner s) ((precursive s)(m := ?d)) W (blocked (ker s))
        (\<lambda>t. isWaitingCond (fl (ker s) t)) (pc(t := Running)) (set_held t m (h t m + 1) h)"
      using ainv_depth [OF a ht r] t by (simp add: fun_upd_idem)
    then have "pinv sk rc (upd_pm m (\<lambda>x. x\<lparr>pm_recursive := pm_recursive x + 1\<rparr>) (run_thread t s), pc(t := Running),
        set_held t m (h t m + 1) h)"
      by (rule pinvI [rotated]) (use w in auto)
    then show ?thesis using 2 ok by (auto simp: IRQdoMutexLock_def)
  next
    case (3 u)
    have "ainv rc (powner (run_thread t s)) (precursive (run_thread t s)) W (blocked (ker (run_thread t s)))
        (\<lambda>x. isWaitingCond (fl (ker (run_thread t s)) x)) pc h" using a by simp
    from enter_queue [OF _ this, of sk m u n 1 None] w t n 3 held_as_1 obtain s1 where
      "pm_enqueue n m (run_thread t s) = Inr s1" "pm_wait m s1 = (upd_ker IRQwait s1, False)"
      "pinv sk rc (upd_ker IRQwait s1, pc(t := LockWait m 1 None), h)" by auto
    then show ?thesis using 3 by (auto simp: IRQdoMutexLock_def)
  qed
qed

lemma relock_pinv:
  assumes inv: "pinv sk rc (s, pc, h)" and t: "pc t = CondWait c m v d" "sk n = t"
    and ok: "\<not> isWaitingCond (fl (ker s) t)"
  shows "\<exists>s' b. IRQdoMutexLockToDepth n d m (run_thread t s) = Inr (s', b) \<and>
    pinv sk rc (s', pc(t := if b then Running else LockWait m v (Some d)), if b then set_held t m v h else h)"
proof -
  from inv obtain W where w: "waits sk s W" and
    a: "ainv rc (powner s) (precursive s) W (blocked (ker s)) (\<lambda>t. isWaitingCond (fl (ker s) t)) pc h"
    unfolding pinv_def by auto
  note D = ainvD [OF a]
  note v = D(11) [OF t(1), THEN conjunct1]
  have id: "pc t = Running \<or> (\<exists>c m v d. pc t = CondWait c m v d) \<and> \<not> isWaitingCond (fl (ker s) t)"
    using t(1) ok by auto
  consider "powner s m = nullptr" | "powner s m = Some t" | u where "powner s m = Some u" "u \<noteq> t"
    by (cases "powner s m") auto
  then show ?thesis
  proof cases
    case 1
    let ?s = "pm_set_depth m d (upd_pm m (\<lambda>x. x\<lparr>pm_owner := Some t\<rparr>) (run_thread t s))"
    have "pinv sk rc (?s, pc(t := Running), set_held t m v h)"
      by (rule pinvI [OF _ ainv_take [OF a 1 id v]]) (use w D(6) [of m] in \<open>auto simp: pm_set_depth_def\<close>)
    then show ?thesis using 1 by (auto simp: IRQdoMutexLockToDepth_def)
  next
    case 2
    with D(11) [OF t(1)] show ?thesis by simp
  next
    case (3 u)
    have "ainv rc (powner (run_thread t s)) (precursive (run_thread t s)) W (blocked (ker (run_thread t s)))
        (\<lambda>x. isWaitingCond (fl (ker (run_thread t s)) x)) pc h" using a by simp
    from enter_queue [OF _ this, of sk m u n v "Some d"] w t 3 v ok obtain s1 where
      "pm_enqueue n m (run_thread t s) = Inr s1" "pm_wait m s1 = (upd_ker IRQwait s1, False)"
      "pinv sk rc (upd_ker IRQwait s1, pc(t := LockWait m v (Some d)), h)" by auto
    then show ?thesis using 3 by (auto simp: IRQdoMutexLockToDepth_def pm_wait_to_depth_def)
  qed
qed

lemma trylock_pinv:
  assumes inv: "pinv sk rc (s, pc, h)" and t: "pc t = Running"
    and l: "pthread_mutex_trylock m (run_thread t s) = (s', e)"
  shows "pinv sk rc (s', pc, if e = 0 then set_held t m (h t m + 1) h else h)"
proof -
  have pc: "pc(t := Running) = pc" using t by (simp add: fun_upd_idem)
  show ?thesis
  proof (cases "powner s m = nullptr \<or> powner s m = Some t \<and> precursive s m \<ge> 0")
    case True
    then have "IRQdoMutexLock t m (run_thread t s) = Inr (s', True)" "e = 0"
      using l by (auto simp: pthread_mutex_trylock_def IRQdoMutexLock_def)
    then show ?thesis using lock_pinv [OF inv t, of m t] True pc by auto
  next
    case False
    then have "s' = run_thread t s" "e = EBUSY" using l by (auto simp: pthread_mutex_trylock_def)
    moreover have "pinv sk rc (run_thread t s, pc, h)" using inv by (auto simp: pinv_def)
    ultimately show ?thesis by (simp add: EBUSY_def)
  qed
qed

lemma unlock_pinv:
  assumes inv: "pinv sk rc (s, pc, h)" and t: "pc t = Running" "0 < h t m"
    and u: "IRQdoMutexUnlock m (run_thread t s) = (s', b)"
  shows "pinv sk rc (s', pc, set_held t m (h t m - 1) h)"
proof -
  from inv obtain W where w: "waits sk (run_thread t s) W" and
    a: "ainv rc (powner s) (precursive s) W (blocked (ker s)) (\<lambda>t. isWaitingCond (fl (ker s) t)) pc h"
    unfolding pinv_def by auto
  note D = ainvD [OF a]
  show ?thesis
  proof (cases "precursive s m > 0")
    case True
    then have r: "rc m" "0 \<le> precursive s m - 1" using D(6) [of m] by auto
    have "nat (precursive s m - 1 + 1) = h t m - 1" using D(7) [OF t(2)] r by auto
    then have "ainv rc (powner s) ((precursive s)(m := precursive s m - 1)) W (blocked (ker s))
        (\<lambda>t. isWaitingCond (fl (ker s) t)) pc (set_held t m (h t m - 1) h)"
      using ainv_depth [OF a t(2) r] by simp
    moreover have "s' = upd_pm m (\<lambda>x. x\<lparr>pm_recursive := pm_recursive x - 1\<rparr>) (run_thread t s)"
      using u True by (simp add: IRQdoMutexUnlock_def)
    ultimately show ?thesis by (elim pinvI [rotated]) (use w in auto)
  next
    case False
    have h1: "h t m = 1" using D(6) [of m] D(7) [OF t(2)] False by (auto split: if_splits)
    from pm_handover_eq [OF w, of m] obtain s1 where
      s1: "pm_handover m (run_thread t s) = (s1, front_thread (W (Inl m)))" "waits sk s1 (W(Inl m := tl (W (Inl m))))"
        "\<forall>a. powner s1 a = (if a = m then front_thread (W (Inl m)) else powner s a)"
        "\<forall>a. precursive s1 a = precursive s a"
        "ker s1 = (case front_thread (W (Inl m)) of None \<Rightarrow> ker (run_thread t s) | Some u \<Rightarrow> IRQwakeup u (ker (run_thread t s)))"
      by auto
    have "s' = s1" using u False s1(1) by (auto simp: IRQdoMutexUnlock_def split: list.splits)
    moreover have "pinv sk rc (s1, pc, set_held t m 0 h)"
      by (rule pinvI [OF s1(2) ainv_release [OF a t(2)]])
        (use s1 D(6) [of m] False in \<open>auto split: list.splits\<close>)
    ultimately show ?thesis using h1 by simp
  qed
qed

lemma resume_pinv:
  assumes inv: "pinv sk rc (s, pc, h)" and t: "pc t = LockWait m v d"
    and w: "(if d = None then pm_wait m (run_thread t s) else pm_wait_to_depth (the d) m (run_thread t s)) = (s', b)"
  shows "pinv sk rc (s', if b then pc(t := Running) else pc, if b then set_held t m v h else h)"
proof -
  from inv obtain W where wt: "waits sk (run_thread t s) W" and
    a: "ainv rc (powner s) (precursive s) W (blocked (ker s)) (\<lambda>t. isWaitingCond (fl (ker s) t)) pc h"
    unfolding pinv_def by auto
  note D = ainvD [OF a]
  show ?thesis
  proof (cases "powner s m = Some t")
    case True
    have h0: "h x m = 0" for x using D(5) [of x m] True t by auto
    have R0: "rc m \<Longrightarrow> precursive s m = 0" using D(8) [of m] h0 by auto
    have s': "s' = (if d = None then run_thread t s else pm_set_depth m (the d) (run_thread t s))" "b"
      using w True by (auto simp: pm_wait_def pm_wait_to_depth_def split: if_splits)
    have "pinv sk rc (s', pc(t := Running), set_held t m v h)"
      by (rule pinvI [OF _ ainv_acquire [OF a t True]])
        (use wt s' R0 D(6) [of m] in \<open>auto simp: pm_set_depth_def split: option.splits\<close>)
    then show ?thesis using s'(2) by simp
  next
    case False
    have "s' = upd_ker IRQwait (run_thread t s)" "\<not> b"
      using w False by (auto simp: pm_wait_def pm_wait_to_depth_def split: if_splits)
    moreover have "pinv sk rc (upd_ker IRQwait (run_thread t s), pc, h)"
      by (rule pinvI [OF _ ainv_block [OF a t False]]) (use wt in auto)
    ultimately show ?thesis by simp
  qed
qed

lemma cond_wait_pinv:
  assumes inv: "pinv sk rc (s, pc, h)" and t: "pc t = Running" "0 < h t m" "sk n = t"
  shows "\<exists>s' d. pthread_cond_wait n c m (run_thread t s) = Inr (s', d) \<and>
    pinv sk rc (s', pc(t := CondWait c m (h t m) d), set_held t m 0 h)"
proof -
  from inv obtain W where w: "waits sk (run_thread t s) W" and
    a: "ainv rc (powner s) (precursive s) W (blocked (ker s)) (\<lambda>t. isWaitingCond (fl (ker s) t)) pc h"
    unfolding pinv_def by auto
  note D = ainvD [OF a]
  let ?f = "front_thread (W (Inl m))" let ?d = "if precursive s m < 0 then 0 else precursive s m"
  have nt: "\<forall>j. self (run_thread t s) \<notin> set (W j)" using ainv_idle [OF a, of t] t(1) by auto
  have n: "sk n = self (run_thread t s)" using t(3) by simp
  from cond_enqueue_eq [OF w nt n, of c] obtain s1 where
    s1: "cond_enqueue n c (run_thread t s) = Inr s1" "waits sk s1 (W(Inr c := W (Inr c) @ [t]))"
      "ker s1 = (ker s)\<lparr>cur := t\<rparr>" "pmutexes s1 = pmutexes s" by auto
  let ?s2 = "upd_ker (upd_flags t (IRQsetCondWait True)) s1"
  have "waits sk ?s2 (W(Inr c := W (Inr c) @ [t]))" using s1(2) by simp
  from pm_handover_eq [OF this, of m] obtain s3 where
    s3: "pm_handover m ?s2 = (s3, ?f)" "waits sk s3 (W(Inr c := W (Inr c) @ [t], Inl m := tl (W (Inl m))))"
      "\<forall>a. powner s3 a = (if a = m then ?f else powner s a)" "\<forall>a. precursive s3 a = precursive s a"
      "ker s3 = (case ?f of None \<Rightarrow> ker ?s2 | Some u \<Rightarrow> IRQwakeup u (ker ?s2))"
    using s1(4) by auto
  let ?s' = "if precursive s m < 0 then s3 else upd_pm m (\<lambda>x. x\<lparr>pm_recursive := 0\<rparr>) s3"
  have call: "pthread_cond_wait n c m (run_thread t s) = Inr (?s', ?d)"
    using s1(1,3) s3(1,4) by (simp add: pthread_cond_wait_def IRQdoMutexUnlockAllDepthLevels_def Let_def)
  have v: "held_as rc m (h t m) ?d" using D(6) [of m] D(7) [OF t(2)] t(2) by (auto simp: held_as_def)
  have fr: "?f \<noteq> Some t" using nt by (auto split: list.splits) (metis list.set_intros(1))
  have "ainv rc ((powner s)(m := ?f)) ((precursive s)(m := if rc m then 0 else precursive s m))
      (W(Inl m := tl (W (Inl m)), Inr c := W (Inr c) @ [t])) (\<lambda>x. blocked (ker s) x \<and> ?f \<noteq> Some x)
      ((\<lambda>t. isWaitingCond (fl (ker s) t))(t := True)) (pc(t := CondWait c m (h t m) ?d)) (set_held t m 0 h)"
    using ainv_cond_wait [OF ainv_release [OF a t(2)] t(1) _ v, of c] fr by simp
  then have "pinv sk rc (?s', pc(t := CondWait c m (h t m) ?d), set_held t m 0 h)"
    by (rule pinvI [rotated])
      (use s3 s1(3) D(6) [of m] in \<open>auto simp: fun_upd_twist split: list.splits if_splits\<close>)
  with call show ?thesis by blast
qed

lemma signal_pinv:
  assumes "pinv sk rc (s, pc, h)"
  shows "pinv sk rc (pthread_cond_signal c s, pc, h)"
proof -
  from assms obtain W where w: "waits sk s W" and
    a: "ainv rc (powner s) (precursive s) W (blocked (ker s)) (\<lambda>t. isWaitingCond (fl (ker s) t)) pc h"
    unfolding pinv_def by auto
  have d: "distinct (W (Inr c))" by (rule ainvD(3) [OF a])
  from cond_pop_eq [OF w, of c] obtain s' where
    s': "cond_pop c s = (s', front_thread (W (Inr c)))" "waits sk s' (W(Inr c := tl (W (Inr c))))"
      "pmutexes s' = pmutexes s"
      "ker s' = (case front_thread (W (Inr c)) of None \<Rightarrow> ker s | Some u \<Rightarrow> upd_flags u (IRQsetCondWait False) (ker s))"
    by blast
  have "pinv sk rc (s', pc, h)"
    by (rule pinvI [OF s'(2) ainv_signal [OF a refl]])
      (use s'(3,4) d in \<open>auto simp: distinct_tl in_set_tlD split: list.splits\<close>)
  then show ?thesis using s'(1) by (simp add: pthread_cond_signal_def)
qed

lemma broadcast_pinv:
  assumes "pinv sk rc (s, pc, h)"
  shows "\<exists>s'. pthread_cond_broadcast c s = Some s' \<and> pinv sk rc (s', pc, h)"
proof -
  from assms obtain W where w: "waits sk s W" and
    a: "ainv rc (powner s) (precursive s) W (blocked (ker s)) (\<lambda>t. isWaitingCond (fl (ker s) t)) pc h"
    unfolding pinv_def by auto
  from broadcast_loop_eq [OF w, of c False] obtain s' b where
    s': "broadcast_loop c False s = Some (s', b)" "waits sk s' (W(Inr c := []))" "pmutexes s' = pmutexes s"
      "\<forall>a. threads (ker s') a = (if a \<in> set (W (Inr c))
         then (threads (ker s) a)\<lparr>flags := IRQsetCondWait False (fl (ker s) a)\<rparr> else threads (ker s) a)" by blast
  have "pinv sk rc (s', pc, h)"
    by (rule pinvI [OF s'(2) ainv_signal [OF a refl]]) (use s'(3,4) in auto)
  then show ?thesis using s'(1) by (simp add: pthread_cond_broadcast_def)
qed

lemma pthread_step_pinv:
  assumes "pthread_step sk x y" "pinv sk rc x"
  shows "pinv sk rc y"
  using assms
proof (induction rule: pthread_step.induct)
  case (lock pc t n s m s' b h)
  then show ?case using lock_pinv [of sk rc s pc h t m n] by fastforce
next
  case (resume pc t m v s s' b h)
  then show ?case using resume_pinv [of sk rc s pc h t m v None] by simp
next
  case (resume_depth pc t m v d s s' b h)
  then show ?case using resume_pinv [of sk rc s pc h t m v "Some d"] by simp
next
  case (cond_wait pc t h m n c s s' d)
  then show ?case using cond_wait_pinv [of sk rc s pc h t m n c] by fastforce
next
  case (cond_resume pc t c m v d s n s' b h)
  then show ?case using relock_pinv [of sk rc s pc h t c m v d n] by fastforce
next
  case (broadcast c s s' pc h)
  then show ?case using broadcast_pinv [of sk rc s pc h c] by simp
next
  case (wakeup s pc h t)
  then obtain W where w: "waits sk s W" and
    a: "ainv rc (powner s) (precursive s) W (blocked (ker s)) (\<lambda>t. isWaitingCond (fl (ker s) t)) pc h"
    unfolding pinv_def by auto
  have "ainv rc (powner s) (precursive s) W (\<lambda>x. x \<noteq> t \<and> blocked (ker s) x) (\<lambda>t. isWaitingCond (fl (ker s) t)) pc h"
    by (rule ainv_unblock [OF a]) simp
  then show ?case by (rule pinvI [rotated]) (use w in auto)
qed (blast intro: trylock_pinv unlock_pinv signal_pinv)+

definition psync_init :: "psync \<Rightarrow> bool" where
  "psync_init s \<longleftrightarrow>
     (\<forall>m. powner s m = nullptr \<and> wq_first (pm_queue (pmutexes s m)) = nullptr \<and> precursive s m \<in> {-1, 0}) \<and>
     (\<forall>c. wq_first (conds s c) = nullptr)"

lemma psync_init_pinv:
  assumes "psync_init s"
  shows "pinv sk (\<lambda>m. precursive s m = 0) (s, \<lambda>_. Running, \<lambda>_ _. 0)"
proof -
  have "wl.family (wnodes s) (pq s) (\<lambda>_. [])"
    using assms unfolding wl.family_def by (auto simp: psync_init_def wq_rep_def pq_def split: sum.split)
  then have "waits sk s (\<lambda>_. [])" unfolding waits_def
    by (intro exI [of _ "\<lambda>_. []"]) (auto simp: wl.waiting_in_def fun_eq_iff)
  moreover have "precursive s m = -1 \<or> precursive s m = 0" for m using assms by (auto simp: psync_init_def)
  then have "ainv (\<lambda>m. precursive s m = 0) (powner s) (precursive s) (\<lambda>_. []) (blocked (ker s))
      (\<lambda>t. isWaitingCond (fl (ker s) t)) (\<lambda>_. Running) (\<lambda>_ _. 0)"
    using assms by (intro ainvI) (auto simp: psync_init_def; metis neg_0_le_iff_le not_one_le_zero)+
  ultimately show ?thesis by (auto simp: pinv_def)
qed

lemma pthread_reachable_pinv:
  assumes "(pthread_step sk)\<^sup>*\<^sup>* (s0, \<lambda>_. Running, \<lambda>_ _. 0) x" "psync_init s0"
  shows "pinv sk (\<lambda>m. precursive s0 m = 0) x"
  using assms(1)
  by (induction rule: rtranclp_induct) (use psync_init_pinv [OF assms(2)] pthread_step_pinv in blast)+

definition psync_boot :: psync where
  "psync_boot = \<lparr>ker = boot_kernel 9 8, wnodes = (\<lambda>_. \<lparr>w_thread = 0, w_next = nullptr\<rparr>),
     pmutexes = (\<lambda>_. \<lparr>pm_owner = nullptr, pm_recursive = -1, pm_queue = \<lparr>wq_first = nullptr, wq_last = nullptr\<rparr>\<rparr>),
     conds = (\<lambda>_. \<lparr>wq_first = nullptr, wq_last = nullptr\<rparr>)\<rparr>"

lemma psync_boot_init: "psync_init psync_boot"
  by (simp add: psync_boot_def psync_init_def)

section \<open>Once\<close>

text \<open>
  \<^verbatim>\<open>pthread_once\<close>: a round of the loop decides under the interrupt lock whether this thread is to run the
  function, has to yield and try again, or returns; the second definition is what follows the call of
  the function, which returned or threw.
\<close>

datatype once_turn = RunInit | YieldAgain | OnceReturn int

definition pthread_once_turn :: "bool \<Rightarrow> int \<times> int \<Rightarrow> (int \<times> int) \<times> once_turn" where
  "pthread_once_turn valid = (\<lambda>(is_initialized, init_executed).
     if \<not> valid \<or> is_initialized \<noteq> 1 then ((is_initialized, init_executed), OnceReturn EINVAL)
     else if init_executed = 0 then ((is_initialized, 1), RunInit)
     else if init_executed = 1 then ((is_initialized, init_executed), YieldAgain)
     else ((is_initialized, init_executed), OnceReturn 0))"

definition pthread_once_end :: "bool \<Rightarrow> int \<times> int \<Rightarrow> int \<times> int" where
  "pthread_once_end threw = (\<lambda>(is_initialized, _). (is_initialized, if threw then 0 else 2))"

text \<open>
  Any number of threads call it on one control block; \<open>A\<close> are the threads in the function, \<open>n\<close> counts the
  calls of it that returned, and \<open>D\<close> are the threads whose call of \<^verbatim>\<open>pthread_once\<close> has returned zero.
\<close>

inductive once_step ::
  "(int \<times> int) \<times> nat set \<times> nat \<times> nat set \<Rightarrow> (int \<times> int) \<times> nat set \<times> nat \<times> nat set \<Rightarrow> bool" where
  enter: "t \<notin> A \<Longrightarrow> pthread_once_turn True c = (c', RunInit) \<Longrightarrow> once_step (c, A, n, D) (c', insert t A, n, D)"
| again: "t \<notin> A \<Longrightarrow> pthread_once_turn True c = (c', YieldAgain) \<Longrightarrow> once_step (c, A, n, D) (c', A, n, D)"
| skip: "t \<notin> A \<Longrightarrow> pthread_once_turn True c = (c', OnceReturn 0) \<Longrightarrow>
    once_step (c, A, n, D) (c', A, n, insert t D)"
| succeed: "t \<in> A \<Longrightarrow> once_step (c, A, n, D) (pthread_once_end False c, A - {t}, n + 1, insert t D)"
| fail: "t \<in> A \<Longrightarrow> once_step (c, A, n, D) (pthread_once_end True c, A - {t}, n, D)"

definition once_inv :: "(int \<times> int) \<times> nat set \<times> nat \<times> nat set \<Rightarrow> bool" where
  "once_inv = (\<lambda>((i, e), A, n, D). i = 1 \<and>
     (e = 0 \<and> A = {} \<and> n = 0 \<and> D = {} \<or> e = 1 \<and> (\<exists>t. A = {t}) \<and> n = 0 \<and> D = {} \<or> e = 2 \<and> A = {} \<and> n = 1))"

lemma once_step_inv: "once_step x y \<Longrightarrow> once_inv x \<Longrightarrow> once_inv y"
  by (induction rule: once_step.induct)
    (auto simp: once_inv_def pthread_once_turn_def pthread_once_end_def split: if_splits)

section \<open>Properties\<close>

text \<open>C12. POSIX mutexes and condition variables, for any number of threads that keep to the contract of the
  API and any interleaving of lock, trylock, unlock, wait, signal, broadcast and unrelated wakeups: two
  threads never hold the same mutex; a thread holds a recursive mutex exactly as many times as it has
  locked it, also after a condition wait released and reacquired it; a thread waiting for a mutex is
  either its owner and not blocked, or queued behind an existing owner; a thread waiting for a
  condition is in the list of the condition exactly until it is signalled.\<close>

theorem pthread_mutexes_and_conditions:
  assumes "(pthread_step sk)\<^sup>*\<^sup>* (s0, \<lambda>_. Running, \<lambda>_ _. 0) (s, pc, h)" "psync_init s0"
  shows "(\<forall>t u m. 0 < h t m \<and> 0 < h u m \<longrightarrow> t = u) \<and>
    (\<forall>t m. 0 < h t m \<longrightarrow> powner s m = Some t \<and>
       int (h t m) = (if 0 \<le> precursive s m then precursive s m + 1 else 1)) \<and>
    (\<exists>W. waits sk s W \<and>
      (\<forall>t m v d. pc t = LockWait m v d \<longrightarrow>
         (if powner s m = Some t then \<not> blocked (ker s) t else powner s m \<noteq> nullptr \<and> t \<in> set (W (Inl m)))) \<and>
      (\<forall>t c m v d. pc t = CondWait c m v d \<longrightarrow> (isWaitingCond (fl (ker s) t) \<longleftrightarrow> t \<in> set (W (Inr c)))))"
proof -
  from pthread_reachable_pinv [OF assms] obtain W where w: "waits sk s W" and
    a: "ainv (\<lambda>m. precursive s0 m = 0) (powner s) (precursive s) W (blocked (ker s))
      (\<lambda>t. isWaitingCond (fl (ker s) t)) pc h"
    unfolding pinv_def by auto
  note D = ainvD [OF a]
  have "\<forall>t u m. 0 < h t m \<and> 0 < h u m \<longrightarrow> t = u" using ainv_held_unique [OF a] by (metis less_numeral_extra(3))
  moreover have "powner s m = Some t" "int (h t m) = (if 0 \<le> precursive s m then precursive s m + 1 else 1)"
    if "0 < h t m" for t m using D(5) [of t m] D(7) [OF that] D(6) [of m] that by auto
  moreover have "if powner s m = Some t then \<not> blocked (ker s) t else powner s m \<noteq> nullptr \<and> t \<in> set (W (Inl m))"
    if "pc t = LockWait m v d" for t m v d
    using D(1) [of t m] D(4) [of m] D(9) [OF that] that by (cases "powner s m") auto
  moreover have "isWaitingCond (fl (ker s) t) \<longleftrightarrow> t \<in> set (W (Inr c))" if "pc t = CondWait c m v d" for t c m v d
    using D(2) [of t c] that by auto
  ultimately show ?thesis using w by blast
qed

theorem pthread_mutexes_and_conditions_witness:
  "\<exists>s. (pthread_step id)\<^sup>*\<^sup>* (psync_boot, \<lambda>_. Running, \<lambda>_ _. 0) (s, \<lambda>_. Running, set_held 1 7 1 (\<lambda>_ _. 0)) \<and>
     powner s 7 = Some 1"
proof -
  let ?s = "upd_pm 7 (\<lambda>x. x\<lparr>pm_owner := Some 1\<rparr>) (run_thread 1 psync_boot)"
  have "pthread_mutex_trylock 7 (run_thread 1 psync_boot) = (?s, 0)"
    by (simp add: pthread_mutex_trylock_def psync_boot_def)
  from pthread_step.trylock [OF _ this, of "\<lambda>_. Running" id "\<lambda>_ _. 0"]
  have "pthread_step id (psync_boot, \<lambda>_. Running, \<lambda>_ _. 0) (?s, \<lambda>_. Running, set_held 1 7 1 (\<lambda>_ _. 0))" by simp
  then have st: "(pthread_step id)\<^sup>*\<^sup>* (psync_boot, \<lambda>_. Running, \<lambda>_ _. 0) (?s, \<lambda>_. Running, set_held 1 7 1 (\<lambda>_ _. 0))"
    by blast
  have "0 < set_held 1 7 1 (\<lambda>_ _. 0) 1 7" by simp
  with pthread_mutexes_and_conditions [OF st psync_boot_init] st show ?thesis by blast
qed

text \<open>C13. In every state reachable as above, the calls return: locking a mutex (a plain one not held by the
  caller), waiting on a condition with a mutex held, reacquiring the mutex after a signal, and the loop
  of a broadcast end without dereferencing a null pointer and without the deadlock error.\<close>

theorem pthread_calls_return:
  assumes "(pthread_step sk)\<^sup>*\<^sup>* (s0, \<lambda>_. Running, \<lambda>_ _. 0) (s, pc, h)" "psync_init s0" "sk n = t"
  shows "(pc t = Running \<and> (powner s m \<noteq> Some t \<or> 0 \<le> precursive s m) \<longrightarrow>
      (\<exists>r. IRQdoMutexLock n m (run_thread t s) = Inr r)) \<and>
    (pc t = Running \<and> 0 < h t m \<longrightarrow> (\<exists>r. pthread_cond_wait n c m (run_thread t s) = Inr r)) \<and>
    (pc t = CondWait c m v d \<and> \<not> isWaitingCond (fl (ker s) t) \<longrightarrow>
      (\<exists>r. IRQdoMutexLockToDepth n d m (run_thread t s) = Inr r)) \<and>
    (\<exists>s'. pthread_cond_broadcast c s = Some s')"
  using pthread_reachable_pinv [OF assms(1,2)] lock_pinv cond_wait_pinv relock_pinv broadcast_pinv assms(3)
  by metis

theorem pthread_calls_return_witness:
  "(\<exists>r. IRQdoMutexLock 1 7 (run_thread 1 psync_boot) = Inr r) \<and> (\<exists>s'. pthread_cond_broadcast 5 psync_boot = Some s')"
proof -
  have p: "powner psync_boot 7 \<noteq> Some 1" by (simp add: psync_boot_def)
  show ?thesis using pthread_calls_return [OF rtranclp.rtrancl_refl psync_boot_init, of id 1 1 7 5] p by auto
qed

text \<open>Signalling a condition variable wakes exactly the thread that has waited longest, and a broadcast
  wakes all of them and no other thread, leaves the list empty and tells whether one of them has a higher
  priority than the caller; no mutex changes.\<close>

theorem condition_wakes_in_order:
  assumes "waits sk s W" "W (Inr c) = t # ts" "distinct (t # ts)"
  shows "\<exists>s1 s2 b.
    cv_signal c s = (s1, prio (ker s) (self s) < prio (ker s) t) \<and> waits sk s1 (W(Inr c := ts)) \<and>
    pmutexes s1 = pmutexes s \<and>
    (\<forall>a. isWaitingCond (fl (ker s1) a) \<longleftrightarrow> a \<noteq> t \<and> isWaitingCond (fl (ker s) a)) \<and>
    cv_broadcast c s = Some (s2, b) \<and> waits sk s2 (W(Inr c := [])) \<and> pmutexes s2 = pmutexes s \<and>
    (\<forall>a. isWaitingCond (fl (ker s2) a) \<longleftrightarrow> a \<notin> set (t # ts) \<and> isWaitingCond (fl (ker s) a)) \<and>
    (b \<longleftrightarrow> (\<exists>u\<in>set (t # ts). prio (ker s) (self s) < prio (ker s) u))"
proof -
  from cond_pop_eq [OF assms(1), of c] assms(2) obtain s1 where
    s1: "cond_pop c s = (s1, Some t)" "waits sk s1 (W(Inr c := ts))" "pmutexes s1 = pmutexes s"
      "ker s1 = upd_flags t (IRQsetCondWait False) (ker s)" by auto
  have "cv_signal c s = (s1, prio (ker s) (self s) < prio (ker s) t)"
    using s1(1,4) by (simp add: cv_signal_def IRQgetPriority_def)
  moreover have "isWaitingCond (fl (ker s1) a) \<longleftrightarrow> a \<noteq> t \<and> isWaitingCond (fl (ker s) a)" for a
    using s1(4) by simp
  moreover from broadcast_loop_eq [OF assms(1), of c False] assms(2) obtain s2 b where
    s2: "cv_broadcast c s = Some (s2, b)" "waits sk s2 (W(Inr c := []))" "pmutexes s2 = pmutexes s"
      "b \<longleftrightarrow> (\<exists>u\<in>set (t # ts). prio (ker s) (self s) < prio (ker s) u)"
      "\<forall>a. threads (ker s2) a = (if a \<in> set (t # ts)
         then (threads (ker s) a)\<lparr>flags := IRQsetCondWait False (fl (ker s) a)\<rparr> else threads (ker s) a)"
    by (auto simp: cv_broadcast_def)
  moreover have "isWaitingCond (fl (ker s2) a) \<longleftrightarrow> a \<notin> set (t # ts) \<and> isWaitingCond (fl (ker s) a)" for a
    using s2(5) by simp
  ultimately show ?thesis using s1(2,3) by blast
qed

theorem condition_wakes_in_order_witness:
  "\<exists>s s1 s2 b. cond_enqueue 3 5 psync_boot = Inr s \<and>
     cv_signal 5 s = (s1, False) \<and> cv_broadcast 5 s = Some (s2, b) \<and> \<not> b"
proof -
  have i: "waits (\<lambda>_. 9) psync_boot (\<lambda>_. [])"
  proof -
    have "wl.family (wnodes psync_boot) (pq psync_boot) (\<lambda>_. [])"
      unfolding wl.family_def by (auto simp: psync_boot_def wq_rep_def pq_def split: sum.split)
    then show ?thesis unfolding waits_def
      by (intro exI [of _ "\<lambda>_. []"]) (auto simp: wl.waiting_in_def fun_eq_iff)
  qed
  have c: "self psync_boot = 9" by (simp add: psync_boot_def boot_kernel_def)
  let ?W = "(\<lambda>_ :: nat + nat. [] :: nat list)"
  have pre: "\<forall>j. self psync_boot \<notin> set (?W j)" "(\<lambda>_. 9 :: nat) (3 :: nat) = self psync_boot" using c by simp_all
  obtain s where s: "cond_enqueue 3 5 psync_boot = Inr s"
    "waits (\<lambda>_. 9) s (?W(Inr 5 := ?W (Inr 5) @ [self psync_boot]))" "ker s = ker psync_boot"
    using cond_enqueue_eq [OF i pre(1), of 3 5] pre(2) by blast
  have "self s = 9" using s(3) c by simp
  moreover have q: "(?W(Inr 5 := ?W (Inr 5) @ [self psync_boot])) (Inr 5) = [9]" "distinct [9 :: nat]"
    using c by simp_all
  obtain s1 s2 b where
    r: "cv_signal 5 s = (s1, prio (ker s) (self s) < prio (ker s) 9)" "cv_broadcast 5 s = Some (s2, b)"
      "b \<longleftrightarrow> (\<exists>u\<in>set [9]. prio (ker s) (self s) < prio (ker s) u)"
    using condition_wakes_in_order [OF s(2) q] by blast
  ultimately have "cv_signal 5 s = (s1, False)" "\<not> b" by simp_all
  with s(1) r(2) show ?thesis by blast
qed

text \<open>Whatever threads call \<^verbatim>\<open>pthread_once\<close> on an initialised control block and however often the function
  throws, at most one thread is in the function at any time, the function returns normally at most once,
  and no call returns zero before it has.\<close>

theorem pthread_once_runs_once:
  assumes "once_step\<^sup>*\<^sup>* ((1, 0), {}, 0, {}) (c, A, n, D)"
  shows "n \<le> 1 \<and> (\<forall>t u. t \<in> A \<and> u \<in> A \<longrightarrow> t = u) \<and> (D \<noteq> {} \<longrightarrow> n = 1) \<and> (n = 1 \<longrightarrow> A = {})"
proof -
  have "once_inv (c, A, n, D)"
    using assms
  proof (induction rule: rtranclp_induct)
    case base
    show ?case by (simp add: once_inv_def)
  next
    case (step x y)
    from step.hyps(2) step.IH show ?case by (rule once_step_inv)
  qed
  then show ?thesis by (auto simp: once_inv_def)
qed

theorem pthread_once_runs_once_witness:
  "\<exists>c A D. once_step\<^sup>*\<^sup>* ((1, 0), {}, 0, {}) (c, A, 1, D) \<and> A = {} \<and> D = {4}"
proof -
  have "once_step ((1, 0), {}, 0, {}) ((1, 1), {4}, 0, {})"
    by (rule once_step.enter) (simp_all add: pthread_once_turn_def)
  moreover have "once_step ((1, 1), {4}, 0, {}) (pthread_once_end False (1, 1), {4} - {4}, 0 + 1, insert 4 {})"
    by (rule once_step.succeed) simp
  ultimately have st: "once_step\<^sup>*\<^sup>* ((1, 0), {}, 0, {}) (pthread_once_end False (1, 1), {4} - {4}, 0 + 1, insert 4 {})"
    by (meson r_into_rtranclp rtranclp.rtrancl_into_rtrancl)
  with pthread_once_runs_once [OF st] show ?thesis
    by (intro exI [of _ "pthread_once_end False (1, 1)"] exI [of _ "{}"] exI [of _ "{4}"]) simp
qed

end
