(* ===== verification/Time_Conversion.thy ===== *)
theory Time_Conversion
  imports Miosix_Prelude
begin

text \<open>
  Conversion between timer ticks and nanoseconds (\<^verbatim>\<open>kernel/timeconversion.cpp\<close>,
  \<^verbatim>\<open>kernel/timeconversion.h\<close>): multiplication of a 64 bit integer by a 32.32 fixed point factor, the
  offline search for the factor that minimises the round trip error, and the online adjustment. The
  two factors computed in floating point from the tick frequency (\<^verbatim>\<open>floatToFactor\<close>) are arguments. A
  \<^verbatim>\<open>long long\<close> is a 64 bit word read with \<open>sint\<close> where its sign matters.
\<close>

unbundle bit_operations_syntax

section \<open>Fixed point multiplication\<close>

record time_conversion_factor =
  integerPart :: u32
  fractionalPart :: u32

definition lo :: "u64 \<Rightarrow> u32" where
  "lo x = ucast (x AND 0xffffffff)"

definition hi :: "u64 \<Rightarrow> u32" where
  "hi x = ucast (drop_bit 32 x)"

definition mul32x32to64 :: "u32 \<Rightarrow> u32 \<Rightarrow> u64" where
  "mul32x32to64 a b = ucast a * ucast b"

definition mul64x32d32 :: "u64 \<Rightarrow> u32 \<Rightarrow> u32 \<Rightarrow> u64" where
  "mul64x32d32 a bi bf =
     (let aLo = lo a;
          aHi = hi a;
          result = mul32x32to64 bi aLo;
          result = result + mul32x32to64 bf aHi;
          bfaLo = mul32x32to64 bf aLo;
          result = result + ucast (hi bfaLo)
      in result + push_bit 32 (ucast (bi * aHi)))"

definition factor_plus :: "time_conversion_factor \<Rightarrow> int \<Rightarrow> time_conversion_factor" where
  "factor_plus k delta = k\<lparr>fractionalPart := fractionalPart k + of_int delta\<rparr>"

definition convert :: "u64 \<Rightarrow> time_conversion_factor \<Rightarrow> u64" where
  "convert x k = mul64x32d32 x (integerPart k) (fractionalPart k)"

section \<open>The conversion object\<close>

record time_conversion =
  toNs :: time_conversion_factor
  toTick :: time_conversion_factor
  adjustIntervalNs :: u64
  lastAdjustTimeNs :: u64
  adjustOffsetNs :: u64

definition sign :: "u64 \<Rightarrow> bool" where
  "sign x \<longleftrightarrow> 0 \<le> sint x"

definition uabs :: "u64 \<Rightarrow> u64" where
  "uabs x = (if sign x then x else - x)"

definition tick2ns :: "u64 \<Rightarrow> time_conversion \<Rightarrow> u64" where
  "tick2ns tick c = convert tick (toNs c)"

text \<open>The loop of at most \<open>n\<close> adjustments.\<close>

fun adjust_loop :: "nat \<Rightarrow> u64 \<Rightarrow> time_conversion \<Rightarrow> time_conversion" where
  "adjust_loop 0 uns c = c"
| "adjust_loop (Suc n) uns c =
     (let c = c\<lparr>lastAdjustTimeNs := convert (convert (uns + adjustOffsetNs c) (toTick c)) (toNs c)\<rparr>;
          c = c\<lparr>adjustOffsetNs := (uns + adjustOffsetNs c) - lastAdjustTimeNs c\<rparr>
      in if uabs (uns - lastAdjustTimeNs c) < drop_bit 1 (adjustIntervalNs c) then c
         else adjust_loop n uns c)"

definition ns2tick :: "u64 \<Rightarrow> time_conversion \<Rightarrow> time_conversion \<times> u64" where
  "ns2tick ns c =
     (let c = (if uabs (ns - lastAdjustTimeNs c) > adjustIntervalNs c
               then adjust_loop 5 ns (c\<lparr>adjustOffsetNs := 0\<rparr>) else c)
      in (c, convert (ns + adjustOffsetNs c) (toTick c)))"

definition default_time_conversion :: time_conversion where
  "default_time_conversion =
     \<lparr>toNs = \<lparr>integerPart = 1, fractionalPart = 0\<rparr>, toTick = \<lparr>integerPart = 1, fractionalPart = 0\<rparr>,
      adjustIntervalNs = - 1, lastAdjustTimeNs = 0, adjustOffsetNs = 0\<rparr>"

definition computeRoundTripError :: "u64 \<Rightarrow> int \<Rightarrow> time_conversion \<Rightarrow> u64" where
  "computeRoundTripError tick delta c =
     (let adjustedToTick = factor_plus (toTick c) delta;
          ns = convert tick (toNs c);
          roundTrip = convert ns adjustedToTick
      in tick - roundTrip)"

text \<open>Division of the C language, which truncates.\<close>

definition half :: "int \<Rightarrow> int" where
  "half x = (if 0 \<le> x then x div 2 else - ((- x) div 2))"

lemma half_between: "a \<le> b \<Longrightarrow> a \<le> half (a + b) \<and> half (a + b) \<le> b"
  by (auto simp: half_def)

function bisect :: "time_conversion \<Rightarrow> u64 \<Rightarrow> int \<Rightarrow> int \<Rightarrow> u64 \<Rightarrow> u64 \<Rightarrow> (int \<times> u64) \<times> (int \<times> u64)" where
  "bisect c t aDelta bDelta aError bError =
     (let cDelta = half (aDelta + bDelta) in
      if cDelta = aDelta \<or> cDelta = bDelta then ((aDelta, aError), (bDelta, bError))
      else let cError = computeRoundTripError t cDelta c in
        if sign aError = sign cError then bisect c t cDelta bDelta cError bError
        else bisect c t aDelta cDelta aError cError)"
  by pat_completeness auto

lemma half_shrinks:
  assumes "half (a + b) \<noteq> a" "half (a + b) \<noteq> b"
  shows "\<bar>half (a + b) - b\<bar> < \<bar>a - b\<bar>" "\<bar>a - half (a + b)\<bar> < \<bar>a - b\<bar>"
  using half_between [of a b] half_between [of b a] assms by (cases "a \<le> b"; force simp: add.commute)+

lemma half_double [simp]: "half (2 * b) = b"
  unfolding half_def by presburger

termination bisect
  by (relation "measure (\<lambda>(c, t, a, b, _). nat \<bar>a - b\<bar>)") (use half_shrinks in auto)

declare bisect.simps [simp del]

definition search_delta :: "time_conversion \<Rightarrow> int" where
  "search_delta c =
     (let longUptimeNs = push_bit 62 1;
          longUptimeTick = convert longUptimeNs (toTick c);
          aDelta = uint (fractionalPart (toTick c) div 40000);
          bDelta = - aDelta;
          aError = computeRoundTripError longUptimeTick aDelta c;
          bError = computeRoundTripError longUptimeTick bDelta c;
          ((aDelta, aError), (bDelta, bError)) =
            (if sign aError \<noteq> sign bError then bisect c longUptimeTick aDelta bDelta aError bError
             else ((aDelta, aError), (bDelta, bError)))
      in if uabs aError < uabs bError then aDelta else bDelta)"

fun interval_loop :: "nat \<Rightarrow> u64 \<Rightarrow> time_conversion \<Rightarrow> time_conversion" where
  "interval_loop 0 tick c = c"
| "interval_loop (Suc n) tick c =
     (if uabs (computeRoundTripError tick 0 c) < 2 then c
      else interval_loop n (drop_bit 1 tick) (c\<lparr>adjustIntervalNs := drop_bit 1 (adjustIntervalNs c)\<rparr>))"

definition new_time_conversion :: "time_conversion_factor \<Rightarrow> time_conversion_factor \<Rightarrow> time_conversion" where
  "new_time_conversion ns0 tick0 =
     (let c = \<lparr>toNs = ns0, toTick = tick0, adjustIntervalNs = 0, lastAdjustTimeNs = 0, adjustOffsetNs = 0\<rparr>;
          c = c\<lparr>toTick := factor_plus (toTick c) (search_delta c)\<rparr>;
          c = c\<lparr>adjustIntervalNs := 128000000000\<rparr>;
          tick = convert (adjustIntervalNs c) (toTick c);
          c = interval_loop 9 tick c
      in c\<lparr>adjustIntervalNs := drop_bit 1 (adjustIntervalNs c)\<rparr>)"

section \<open>The value of a conversion\<close>

abbreviation factor :: "time_conversion_factor \<Rightarrow> nat" where
  "factor k \<equiv> unat (integerPart k) * 2 ^ 32 + unat (fractionalPart k)"

lemma unat_lo: "unat (lo x) = unat x mod 2 ^ 32"
proof -
  have "x AND 0xffffffff = take_bit 32 x"
    by (simp add: take_bit_eq_mask mask_eq_exp_minus_1)
  then show ?thesis by (simp add: lo_def unsigned_ucast_eq take_bit_eq_mod unat_mod)
qed

lemma unat_hi: "unat (hi x) = unat x div 2 ^ 32"
proof -
  have "unat x < 2 ^ 64" using unsigned_less [of x, where 'a = nat] by simp
  then have "unat x div 2 ^ 32 < 2 ^ 32" by (simp add: less_mult_imp_div_less)
  then show ?thesis
    by (simp add: hi_def unsigned_ucast_eq drop_bit_eq_div take_bit_eq_mod unat_div)
qed

lemma unat_mul32: "unat (mul32x32to64 a b) = unat a * unat b"
proof -
  have "unat a < 2 ^ 32" "unat b < 2 ^ 32"
    using unsigned_less [of a, where 'a = nat] unsigned_less [of b, where 'a = nat] by simp_all
  then have "unat a * unat b < 2 ^ 32 * 2 ^ 32" by (intro mult_strict_mono) auto
  moreover have "unat (ucast a :: u64) = unat a" "unat (ucast b :: u64) = unat b"
    using calculation unsigned_less [of a, where 'a = nat] unsigned_less [of b, where 'a = nat]
    by (simp_all add: unsigned_ucast_eq take_bit_eq_mod)
  ultimately show ?thesis
    by (simp add: mul32x32to64_def unat_word_ariths)
qed

lemma unat_shift32: "unat (push_bit 32 (ucast w) :: u64) = unat (w :: u32) * 2 ^ 32"
proof -
  have "unat w < 2 ^ 32" using unsigned_less [of w, where 'a = nat] by simp
  then show ?thesis
    by (simp add: push_bit_eq_mult unat_word_ariths unsigned_ucast_eq take_bit_eq_mod)
qed

lemma mul64x32d32_unat:
  "unat (mul64x32d32 a bi bf) = (unat a * (unat bi * 2 ^ 32 + unat bf)) div 2 ^ 32 mod 2 ^ 64"
proof -
  let ?B = "2 ^ 32 :: nat"
  define h l where "h = unat a div ?B" and "l = unat a mod ?B"
  have a: "unat a = h * ?B + l" by (simp add: h_def l_def)
  have lb: "unat bf * l div ?B < ?B"
  proof -
    have "unat bf < ?B" "l < ?B" using unsigned_less [of bf, where 'a = nat] by (simp_all add: l_def)
    then have "unat bf * l < ?B * ?B" by (intro mult_strict_mono) auto
    then show ?thesis by (simp add: less_mult_imp_div_less)
  qed
  have c: "unat (ucast (hi y) :: u64) = unat (hi y)" for y
    using unsigned_less [of "hi y", where 'a = nat] by (simp add: unsigned_ucast_eq take_bit_eq_mod)
  have "unat (mul64x32d32 a bi bf) =
      (unat bi * l + unat bf * h + unat bf * l div ?B + (unat bi * h mod ?B) * ?B) mod 2 ^ 64"
    by (simp add: mul64x32d32_def Let_def unat_word_ariths(1) unat_mul32 unat_lo unat_hi unat_shift32 c
        unat_word_ariths(2) mod_simps h_def l_def)
  also have "\<dots> = (unat bi * l + unat bf * h + unat bf * l div ?B + (unat bi * h) * ?B) mod 2 ^ 64"
  proof -
    have "(unat bi * h mod ?B) * ?B = (unat bi * h) * ?B mod 2 ^ 64"
      using mult_mod_left [of "unat bi * h" ?B ?B] by simp
    then show ?thesis by (simp add: mod_simps)
  qed
  also have "unat bi * l + unat bf * h + unat bf * l div ?B + (unat bi * h) * ?B =
      (unat a * (unat bi * ?B + unat bf)) div ?B"
  proof -
    have "unat a * (unat bi * ?B + unat bf) = (unat a * unat bi + unat bf * h) * ?B + unat bf * l"
      by (simp add: a algebra_simps)
    then have "(unat a * (unat bi * ?B + unat bf)) div ?B = unat a * unat bi + unat bf * h + unat bf * l div ?B"
      by simp
    then show ?thesis by (simp add: a algebra_simps)
  qed
  finally show ?thesis .
qed

lemma div_bounds:
  assumes "0 < (d :: nat)"
  shows "x div d * d \<le> x" "x < (x div d + 1) * d"
proof -
  have "x = x div d * d + x mod d" "x mod d < d" using assms by simp_all
  then have "x < x div d * d + d" by linarith
  then show "x < (x div d + 1) * d" by (simp add: algebra_simps)
qed simp

lemma convert_unat:
  assumes "unat x * factor k < 2 ^ 96"
  shows "unat (convert x k) = unat x * factor k div 2 ^ 32"
proof -
  have "unat x * factor k div 2 ^ 32 < 2 ^ 64" using assms by (simp add: less_mult_imp_div_less)
  then show ?thesis unfolding convert_def mul64x32d32_unat by simp
qed

section \<open>The offline search\<close>

lemma half_adjacent: "half (a + b) = a \<or> half (a + b) = b \<Longrightarrow> \<bar>a - b\<bar> \<le> 1"
  by (auto simp: half_def split: if_splits)

lemma bisect_result:
  assumes "sign aE \<noteq> sign bE" "aE = computeRoundTripError t a c" "bE = computeRoundTripError t b c"
  shows "\<exists>a' b'. bisect c t a b aE bE =
      ((a', computeRoundTripError t a' c), (b', computeRoundTripError t b' c)) \<and> \<bar>a' - b'\<bar> \<le> 1 \<and>
    sign (computeRoundTripError t a' c) \<noteq> sign (computeRoundTripError t b' c) \<and>
    min a b \<le> a' \<and> a' \<le> max a b \<and> min a b \<le> b' \<and> b' \<le> max a b"
  using assms
proof (induction c t a b aE bE rule: bisect.induct)
  case (1 c t a b aE bE)
  let ?m = "half (a + b)"
  show ?case
  proof (cases "?m = a \<or> ?m = b")
    case True
    then have "bisect c t a b aE bE = ((a, aE), (b, bE))" by (subst bisect.simps) simp
    with half_adjacent [OF True] 1(3-5) show ?thesis by auto
  next
    case False
    have m: "min a b \<le> ?m" "?m \<le> max a b"
      using half_between [of a b] half_between [of b a] by (cases "a \<le> b"; simp add: add.commute)+
    show ?thesis
    proof (cases "sign aE = sign (computeRoundTripError t ?m c)")
      case True
      then have eq: "bisect c t a b aE bE = bisect c t ?m b (computeRoundTripError t ?m c) bE"
        using False by (subst bisect.simps) (simp add: Let_def)
      have "sign (computeRoundTripError t ?m c) \<noteq> sign bE" using True 1(3) by simp
      from 1(1) [OF refl False refl True this refl 1(5)] m show ?thesis unfolding eq by fastforce
    next
      case neq: False
      then have eq: "bisect c t a b aE bE = bisect c t a ?m aE (computeRoundTripError t ?m c)"
        using False by (subst bisect.simps) (simp add: Let_def)
      from 1(2) [OF refl False refl neq neq 1(4) refl] m show ?thesis unfolding eq by fastforce
    qed
  qed
qed

lemma search_delta_bound: "\<bar>search_delta c\<bar> \<le> uint (fractionalPart (toTick c) div 40000)"
proof -
  let ?t = "convert (push_bit 62 1) (toTick c)" and ?a = "uint (fractionalPart (toTick c) div 40000)"
  let ?ea = "computeRoundTripError ?t ?a c" and ?eb = "computeRoundTripError ?t (- ?a) c"
  have a0: "0 \<le> ?a" by simp
  show ?thesis
  proof (cases "sign ?ea = sign ?eb")
    case True
    then show ?thesis using a0 by (simp add: search_delta_def Let_def)
  next
    case False
    from bisect_result [OF False refl refl] obtain a' b' where
      b: "bisect c ?t ?a (- ?a) ?ea ?eb = ((a', computeRoundTripError ?t a' c), (b', computeRoundTripError ?t b' c))"
        "min ?a (- ?a) \<le> a'" "a' \<le> max ?a (- ?a)" "min ?a (- ?a) \<le> b'" "b' \<le> max ?a (- ?a)" by blast
    have "\<bar>a'\<bar> \<le> ?a" "\<bar>b'\<bar> \<le> ?a" using b(2-5) a0 by (auto simp: min_def max_def split: if_splits)
    then show ?thesis using False b(1) by (simp add: search_delta_def Let_def)
  qed
qed

lemma unat_shr1 [simp]: "unat (drop_bit (Suc 0) (w :: u64)) = unat w div 2"
  by (simp add: drop_bit_eq_div unat_div)

lemma interval_loop_bounds:
  "unat (adjustIntervalNs c) div 2 ^ n \<le> unat (adjustIntervalNs (interval_loop n t c)) \<and>
   unat (adjustIntervalNs (interval_loop n t c)) \<le> unat (adjustIntervalNs c) \<and>
   toNs (interval_loop n t c) = toNs c \<and> toTick (interval_loop n t c) = toTick c \<and>
   lastAdjustTimeNs (interval_loop n t c) = lastAdjustTimeNs c \<and>
   adjustOffsetNs (interval_loop n t c) = adjustOffsetNs c"
proof (induction n arbitrary: t c)
  case (Suc n)
  let ?c = "c\<lparr>adjustIntervalNs := drop_bit 1 (adjustIntervalNs c)\<rparr>"
  have "unat (adjustIntervalNs ?c) = unat (adjustIntervalNs c) div 2" by simp
  moreover have "unat (adjustIntervalNs c) div 2 ^ Suc n = unat (adjustIntervalNs c) div 2 div 2 ^ n"
    by (simp add: div_mult2_eq)
  ultimately show ?case using Suc [of ?c "drop_bit 1 t"]
    by (auto intro: order_trans [OF div_le_dividend])
qed simp

section \<open>Properties\<close>

text \<open>C37. The multiplication of a 64 bit integer by a 32.32 fixed point factor, put together from 32 bit
  products, is the exact product rounded down, modulo 2 to the 64: no carry between the partial products
  is lost.\<close>

theorem fixed_point_product_exact:
  "unat (mul64x32d32 a bi bf) = (unat a * (unat bi * 2 ^ 32 + unat bf)) div 2 ^ 32 mod 2 ^ 64"
  by (rule mul64x32d32_unat)

text \<open>C38. A time read in ticks, converted to nanoseconds and back while the cached adjustment is valid
  and still zero, comes back as the exact product with both factors within two ticks, for a timer slower
  than 1 GHz and as long as the nanoseconds fit in 64 bits; in particular within two ticks of the
  start when the factors are inverses.\<close>

theorem round_trip_within_two_ticks:
  assumes "integerPart (toTick c) = 0" "unat t * factor (toNs c) < 2 ^ 96" "adjustOffsetNs c = 0"
    "uabs (tick2ns t c - lastAdjustTimeNs c) \<le> adjustIntervalNs c"
  shows "\<exists>m. ns2tick (tick2ns t c) c = (c, m) \<and>
    unat m * 2 ^ 64 \<le> unat t * factor (toNs c) * factor (toTick c) \<and>
    unat t * factor (toNs c) * factor (toTick c) < (unat m + 2) * 2 ^ 64"
proof -
  let ?n = "tick2ns t c" and ?K = "factor (toTick c)" and ?x = "unat t * factor (toNs c)"
  have n: "unat ?n = ?x div 2 ^ 32" using convert_unat [OF assms(2)] by (simp add: tick2ns_def)
  have K: "?K < 2 ^ 32" using assms(1) unsigned_less [of "fractionalPart (toTick c)", where 'a = nat] by simp
  have "unat ?n < 2 ^ 64" using unsigned_less [of ?n, where 'a = nat] by simp
  then have "unat ?n * ?K < 2 ^ 64 * 2 ^ 32" using K by (intro mult_strict_mono) auto
  then have m: "unat (convert ?n (toTick c)) = unat ?n * ?K div 2 ^ 32" by (intro convert_unat) simp
  let ?m = "unat (convert ?n (toTick c))"
  have "ns2tick ?n c = (c, convert ?n (toTick c))" using assms(3,4) by (simp add: ns2tick_def not_less [symmetric])
  moreover have nn: "unat ?n * 2 ^ 32 \<le> ?x" "?x < (unat ?n + 1) * 2 ^ 32"
    unfolding n by (rule div_bounds; simp)+
  moreover have mm: "?m * 2 ^ 32 \<le> unat ?n * ?K" "unat ?n * ?K < (?m + 1) * 2 ^ 32"
    unfolding m by (rule div_bounds; simp)+
  moreover have "?m * 2 ^ 64 \<le> ?x * ?K"
  proof -
    have "?m * 2 ^ 64 = (?m * 2 ^ 32) * 2 ^ 32" by simp
    also have "\<dots> \<le> (unat ?n * ?K) * 2 ^ 32" using mm(1) by (rule mult_right_mono) simp
    also have "\<dots> = (unat ?n * 2 ^ 32) * ?K" by simp
    also have "\<dots> \<le> ?x * ?K" using nn(1) by (rule mult_right_mono) simp
    finally show ?thesis .
  qed
  moreover have "?x * ?K < (?m + 2) * 2 ^ 64"
  proof -
    have "?x * ?K \<le> ((unat ?n + 1) * 2 ^ 32) * ?K" using nn(2) by (intro mult_right_mono) simp_all
    also have "\<dots> = (unat ?n * ?K + ?K) * 2 ^ 32" by (simp add: algebra_simps)
    also have "\<dots> < ((?m + 1) * 2 ^ 32 + 2 ^ 32) * 2 ^ 32"
      using add_strict_mono [OF mm(2) K] by (rule mult_strict_right_mono) simp
    also have "\<dots> = (?m + 2) * 2 ^ 64" by simp
    finally show ?thesis .
  qed
  ultimately show ?thesis by blast
qed

theorem round_trip_within_two_ticks_witness:
  "\<exists>m. ns2tick (tick2ns 1000 (default_time_conversion\<lparr>toNs := \<lparr>integerPart = 2, fractionalPart = 0\<rparr>,
      toTick := \<lparr>integerPart = 0, fractionalPart = 2147483648\<rparr>\<rparr>))
      (default_time_conversion\<lparr>toNs := \<lparr>integerPart = 2, fractionalPart = 0\<rparr>,
      toTick := \<lparr>integerPart = 0, fractionalPart = 2147483648\<rparr>\<rparr>) =
      (default_time_conversion\<lparr>toNs := \<lparr>integerPart = 2, fractionalPart = 0\<rparr>,
      toTick := \<lparr>integerPart = 0, fractionalPart = 2147483648\<rparr>\<rparr>, m) \<and> 998 < unat m \<and> unat m \<le> 1000"
proof -
  let ?c = "default_time_conversion\<lparr>toNs := \<lparr>integerPart = 2, fractionalPart = 0\<rparr>,
      toTick := \<lparr>integerPart = 0, fractionalPart = 2147483648\<rparr>\<rparr>"
  have "uabs (tick2ns 1000 ?c - lastAdjustTimeNs ?c) \<le> adjustIntervalNs ?c"
    by (simp add: default_time_conversion_def word_order.extremum)
  from round_trip_within_two_ticks [OF _ _ _ this] obtain m where
    "ns2tick (tick2ns 1000 ?c) ?c = (?c, m)"
    "unat m * 2 ^ 64 \<le> unat (1000 :: u64) * factor (toNs ?c) * factor (toTick ?c)"
    "unat (1000 :: u64) * factor (toNs ?c) * factor (toTick ?c) < (unat m + 2) * 2 ^ 64"
    by (auto simp: default_time_conversion_def)
  then show ?thesis by (intro exI [of _ m]) (simp add: default_time_conversion_def)
qed

text \<open>The constructor ends for every pair of initial factors, with the nanosecond factor and the integer
  part of the tick factor unchanged, the fractional part moved by at most one 40000th (modulo 2 to the
  32), and a cache interval between 0.125 and 64 seconds.\<close>

theorem constructor_bounds:
  "\<exists>d. toTick (new_time_conversion ns0 tick0) = factor_plus tick0 d \<and>
     \<bar>d\<bar> \<le> uint (fractionalPart tick0 div 40000) \<and> toNs (new_time_conversion ns0 tick0) = ns0 \<and>
     125000000 \<le> unat (adjustIntervalNs (new_time_conversion ns0 tick0)) \<and>
     unat (adjustIntervalNs (new_time_conversion ns0 tick0)) \<le> 64000000000 \<and>
     lastAdjustTimeNs (new_time_conversion ns0 tick0) = 0 \<and> adjustOffsetNs (new_time_conversion ns0 tick0) = 0"
proof -
  define c0 where "c0 = \<lparr>toNs = ns0, toTick = tick0, adjustIntervalNs = 0, lastAdjustTimeNs = 0, adjustOffsetNs = 0\<rparr>"
  define c where "c = c0\<lparr>toTick := factor_plus tick0 (search_delta c0), adjustIntervalNs := 128000000000\<rparr>"
  define r where "r = interval_loop 9 (convert 128000000000 (toTick c)) c"
  have new: "new_time_conversion ns0 tick0 = r\<lparr>adjustIntervalNs := drop_bit 1 (adjustIntervalNs r)\<rparr>"
    by (simp add: new_time_conversion_def Let_def r_def c_def c0_def)
  have cf: "unat (adjustIntervalNs c) = 128000000000" "toNs c = ns0" "toTick c = factor_plus tick0 (search_delta c0)"
    "lastAdjustTimeNs c = 0" "adjustOffsetNs c = 0" "toTick c0 = tick0"
    by (simp_all add: c_def c0_def)
  have b: "250000000 \<le> unat (adjustIntervalNs r)" "unat (adjustIntervalNs r) \<le> 128000000000"
    "toNs r = ns0" "toTick r = factor_plus tick0 (search_delta c0)" "lastAdjustTimeNs r = 0" "adjustOffsetNs r = 0"
    using interval_loop_bounds [of c 9 "convert 128000000000 (toTick c)", folded r_def] cf by simp_all
  then show ?thesis unfolding new using search_delta_bound [of c0] cf(6)
    by (intro exI [of _ "search_delta c0"]) auto
qed

end
