(* ===== verification/Os_Timer.thy ===== *)
theory Os_Timer
  imports Time_Conversion
begin

text \<open>
  \<^verbatim>\<open>TimerAdapter\<close> (\<^verbatim>\<open>interfaces/os_timer.h\<close>): a hardware timer of up to 32 bits extended to 64 bits in
  software by the pending bit trick, and the interrupt set on it. The functions of the driver class
  \<^verbatim>\<open>D\<close> read and write the registers of the timer, which are fields of the state; where the counter or
  the overflow flag may change between two reads, the values read are arguments.
\<close>

unbundle bit_operations_syntax

section \<open>The adapter\<close>

record timer_adapter =
  upperTimeTick :: u64
  upperIrqTick :: u64
  tc :: time_conversion
  lateIrq :: bool
  counter :: u32
  matchReg :: u32
  overflowFlag :: bool
  matchFlag :: bool
  pendingIrq :: bool

definition upperIncr :: "nat \<Rightarrow> u64" where
  "upperIncr bits = push_bit bits 1"

definition lowerMask :: "nat \<Rightarrow> u64" where
  "lowerMask bits = upperIncr bits - 1"

definition upperMask :: "nat \<Rightarrow> u64" where
  "upperMask bits = 0xFFFFFFFFFFFFFFFF - lowerMask bits"

text \<open>\<open>c1\<close> is the first value read from the counter, \<open>ov\<close> the overflow flag read next and \<open>c2\<close> the second
  value of the counter.\<close>

definition IRQgetTimeTick :: "nat \<Rightarrow> u64 \<Rightarrow> u32 \<Rightarrow> bool \<Rightarrow> u32 \<Rightarrow> u64" where
  "IRQgetTimeTick bits upper c1 ov c2 =
     (if ov \<and> c2 \<ge> c1 then (upper OR ucast c1) + upperIncr bits else upper OR ucast c1)"

definition IRQgetIrqTick :: "timer_adapter \<Rightarrow> u64" where
  "IRQgetIrqTick s = upperIrqTick s OR ucast (matchReg s)"

definition IRQgetTimeNs :: "nat \<Rightarrow> u32 \<Rightarrow> bool \<Rightarrow> u32 \<Rightarrow> timer_adapter \<Rightarrow> u64" where
  "IRQgetTimeNs bits c1 ov c2 s = tick2ns (IRQgetTimeTick bits (upperTimeTick s) c1 ov c2) (tc s)"

definition IRQgetIrqNs :: "timer_adapter \<Rightarrow> u64" where
  "IRQgetIrqNs s = tick2ns (IRQgetIrqTick s) (tc s)"

text \<open>The two statements that set the time point of the interrupt.\<close>

definition set_match :: "nat \<Rightarrow> u64 \<Rightarrow> timer_adapter \<Rightarrow> timer_adapter" where
  "set_match bits tick2 s =
     s\<lparr>upperIrqTick := tick2 AND upperMask bits, matchReg := ucast (tick2 AND lowerMask bits)\<rparr>"

definition IRQsetTimeNs :: "nat \<Rightarrow> u32 \<Rightarrow> u64 \<Rightarrow> timer_adapter \<Rightarrow> timer_adapter" where
  "IRQsetTimeNs bits quirkAdvance ns s =
     (let oldTick = IRQgetTimeTick bits (upperTimeTick s) (counter s) (overflowFlag s) (counter s);
          (c, tick) = ns2tick ns (tc s);
          s = s\<lparr>tc := c\<rparr>
      in if sint tick > sint oldTick
         then let s = s\<lparr>upperTimeTick := tick AND upperMask bits, counter := ucast (tick AND lowerMask bits),
                        overflowFlag := False\<rparr>;
                  nextIrqTick = IRQgetIrqTick s
              in if sint nextIrqTick > sint oldTick
                 then let s = set_match bits (nextIrqTick + ucast quirkAdvance) s
                      in if sint tick \<ge> sint nextIrqTick then s\<lparr>pendingIrq := True, lateIrq := True\<rparr> else s
                 else s
         else s)"

definition IRQsetIrqTick :: "nat \<Rightarrow> u32 \<Rightarrow> u64 \<Rightarrow> u32 \<Rightarrow> bool \<Rightarrow> u32 \<Rightarrow> timer_adapter \<Rightarrow> timer_adapter" where
  "IRQsetIrqTick bits quirkAdvance tick c1 ov c2 s =
     (let s = set_match bits (tick + ucast quirkAdvance) s
      in if sint (IRQgetTimeTick bits (upperTimeTick s) c1 ov c2) \<ge> sint tick
         then s\<lparr>pendingIrq := True, lateIrq := True\<rparr> else s)"

definition IRQsetIrqNs :: "nat \<Rightarrow> u32 \<Rightarrow> u64 \<Rightarrow> u32 \<Rightarrow> bool \<Rightarrow> u32 \<Rightarrow> timer_adapter \<Rightarrow> timer_adapter" where
  "IRQsetIrqNs bits quirkAdvance ns c1 ov c2 s =
     (case ns2tick ns (tc s) of (c, tick) \<Rightarrow> IRQsetIrqTick bits quirkAdvance tick c1 ov c2 (s\<lparr>tc := c\<rparr>))"

text \<open>The result is the time passed to \<^verbatim>\<open>IRQtimerInterrupt\<close>, if it is called; \<open>ov2\<close> is the overflow flag as
  read at the end.\<close>

definition IRQhandler :: "nat \<Rightarrow> u32 \<Rightarrow> bool \<Rightarrow> u32 \<Rightarrow> bool \<Rightarrow> timer_adapter \<Rightarrow> timer_adapter \<times> u64 option" where
  "IRQhandler bits c1 ov c2 ov2 s =
     (let (s, e) =
        (if matchFlag s \<or> lateIrq s
         then let s = s\<lparr>matchFlag := False\<rparr>;
                  tick = IRQgetTimeTick bits (upperTimeTick s) c1 ov c2
              in if sint tick \<ge> sint (IRQgetIrqTick s) \<or> lateIrq s
                 then (s\<lparr>lateIrq := False\<rparr>, Some (tick2ns tick (tc s)))
                 else (s, None)
         else (s, None))
      in (if ov2 then s\<lparr>overflowFlag := False, upperTimeTick := upperTimeTick s + upperIncr bits\<rparr> else s, e))"

definition IRQinit :: "time_conversion \<Rightarrow> timer_adapter \<Rightarrow> timer_adapter" where
  "IRQinit c s = s\<lparr>tc := c\<rparr>"

section \<open>Upper and lower bits\<close>

lemma masks:
  "lowerMask bits = mask bits" "upperMask bits = NOT (mask bits)"
proof -
  show l: "lowerMask bits = mask bits"
    by (simp add: lowerMask_def upperIncr_def mask_eq_exp_minus_1 push_bit_eq_mult)
  have "(0xFFFFFFFFFFFFFFFF :: u64) = - 1" by simp
  then show "upperMask bits = NOT (mask bits)" by (simp add: upperMask_def l not_eq_complement)
qed

lemma split_tick:
  assumes "bits \<le> 32"
  shows "(tick AND upperMask bits) OR ucast (ucast (tick AND lowerMask bits) :: u32) = tick"
  by (rule bit_word_eqI) (use assms in \<open>auto simp: masks bit_simps\<close>)

lemma upperIncr_unat:
  assumes "bits \<le> 32"
  shows "unat (upperIncr bits) = 2 ^ bits"
proof -
  have "(2 :: nat) ^ bits \<le> 2 ^ 32" using assms by (intro power_increasing) auto
  moreover have "upperIncr bits = of_nat (2 ^ bits)" by (simp add: upperIncr_def push_bit_eq_mult)
  ultimately show ?thesis by (simp only: unsigned_of_nat take_bit_eq_mod) simp
qed

text \<open>A multiple of the period combined with a counter value below it.\<close>

lemma or_counter:
  assumes b: "bits \<le> 32" and u: "unat (u :: u64) = U * 2 ^ bits" and c: "unat c < 2 ^ bits"
  shows "unat (u OR ucast (c :: u32)) = U * 2 ^ bits + unat c"
proof -
  have uc: "unat (ucast c :: u64) = unat c"
    using unsigned_less [of c, where 'a = nat] by (simp add: unsigned_ucast_eq take_bit_eq_mod)
  have bu: "\<not> bit u n" if "n < bits" for n
  proof -
    have "bit (unat u) n = bit u n" by (simp add: bit_unsigned_iff)
    moreover have "\<not> bit (push_bit bits U) n" using that by (simp add: bit_push_bit_iff)
    ultimately show ?thesis using u by (simp add: push_bit_eq_mult)
  qed
  have bc: "\<not> bit (ucast c :: u64) n" if "bits \<le> n" for n
  proof -
    have "take_bit bits (unat c) = unat c" using c by (simp add: take_bit_nat_eq_self_iff)
    then have "\<not> bit (unat c) n" using that by (metis bit_take_bit_iff not_less)
    then show ?thesis by (simp add: bit_ucast_iff bit_unsigned_iff)
  qed
  have "u AND ucast c = 0" by (rule bit_word_eqI) (use bu bc in \<open>auto simp: bit_simps\<close>, meson bc bu not_le)
  then have "u OR ucast c = u + ucast c" by (simp add: disjunctive_add_eq_or)
  moreover have "unat u + unat c < 2 ^ 64"
  proof -
    have "unat u < 2 ^ 64" using unsigned_less [of u, where 'a = nat] by simp
    then have "U * 2 ^ bits < 2 ^ (64 - bits) * 2 ^ bits" using u b by (simp flip: power_add)
    then have "U + 1 \<le> 2 ^ (64 - bits)" by simp
    then have "(U + 1) * 2 ^ bits \<le> 2 ^ (64 - bits) * 2 ^ bits" by (rule mult_right_mono) simp
    then show ?thesis using u c b by (simp flip: power_add)
  qed
  ultimately show ?thesis using u uc by (simp add: unat_word_ariths(1))
qed

lemma time_read:
  assumes b: "bits \<le> 32" and u: "unat u = U * 2 ^ bits"
    and n: "U * 2 ^ bits \<le> n1" "n1 \<le> n2" "n2 \<le> n3" "n3 < (U + 2) * 2 ^ bits" "n3 - n1 < 2 ^ bits" "n3 < 2 ^ 64"
    and c: "unat c1 = n1 mod 2 ^ bits" "unat c2 = n3 mod 2 ^ bits" "ov \<longleftrightarrow> (U + 1) * 2 ^ bits \<le> n2"
  shows "unat (IRQgetTimeTick bits u c1 ov c2) = n1"
proof -
  let ?P = "2 ^ bits :: nat"
  have m: "n mod ?P = n - V * ?P" if "V * ?P \<le> n" "n < (V + 1) * ?P" for n V
  proof -
    have "n = V * ?P + (n - V * ?P)" "n - V * ?P < ?P" using that by (simp_all add: algebra_simps)
    then show ?thesis by (metis mod_less mod_mult_self3)
  qed
  have or: "unat (u OR ucast c1) = U * ?P + unat c1" by (rule or_counter [OF b u]) (simp add: c(1))
  have up: "unat (upperIncr bits) = ?P" by (rule upperIncr_unat [OF b])
  consider (1) "n2 < (U + 1) * ?P" | (2) "(U + 1) * ?P \<le> n1" | (3) "n1 < (U + 1) * ?P" "(U + 1) * ?P \<le> n2"
    by linarith
  then show ?thesis
  proof cases
    case 1
    then have "n1 mod ?P = n1 - U * ?P" using n by (intro m) auto
    then show ?thesis using 1 c or n(1) by (simp add: IRQgetTimeTick_def)
  next
    case 2
    then have e: "n1 mod ?P = n1 - (U + 1) * ?P" "n3 mod ?P = n3 - (U + 1) * ?P"
      using n m [of "U + 1" n1] m [of "U + 1" n3] by (auto simp: algebra_simps)
    then have "unat c1 \<le> unat c2" using c n by (simp add: diff_le_mono)
    moreover have "ov" using 2 c(3) n by linarith
    moreover have "U * ?P + unat c1 + ?P = n1" using 2 c(1) e(1) by (simp add: algebra_simps)
    moreover have "n1 < 2 ^ 64" using n by linarith
    ultimately show ?thesis using or up
      by (simp add: IRQgetTimeTick_def word_le_nat_alt unat_word_ariths(1))
  next
    case 3
    then have e: "n1 mod ?P = n1 - U * ?P" "n3 mod ?P = n3 - (U + 1) * ?P"
      using n m [of U n1] m [of "U + 1" n3] by (auto simp: algebra_simps)
    then have "unat c2 < unat c1" using c n 3 by (simp add: algebra_simps)
    then show ?thesis using or c(1) e(1) n(1) by (simp add: IRQgetTimeTick_def word_le_nat_alt)
  qed
qed

lemma sint_small:
  assumes "unat (w :: u64) < 2 ^ 63"
  shows "sint w = int (unat w)"
proof -
  have "int (unat w) < int (2 ^ 63)" using assms by (simp only: of_nat_less_iff)
  then have u: "uint w < 2 ^ 63" "- (2 ^ 63) \<le> uint w" by (simp_all add: order_trans [OF _ uint_ge_0])
  have "sint w = signed_take_bit 63 (uint w)" by (simp add: sint_uint)
  also have "\<dots> = uint w" by (rule signed_take_bit_int_eq_self [OF u(2,1)])
  finally show ?thesis by simp
qed

section \<open>The timer while time passes\<close>

text \<open>
  The hardware: a timer that counts up modulo its period, sets the overflow flag when it wraps and the
  match flag when it reaches the match register.
\<close>

definition hw_tick :: "nat \<Rightarrow> timer_adapter \<Rightarrow> timer_adapter" where
  "hw_tick bits s =
     (let wraps = unat (counter s) + 1 = 2 ^ bits;
          c = (if wraps then 0 else counter s + 1)
      in s\<lparr>counter := c, overflowFlag := overflowFlag s \<or> wraps, matchFlag := matchFlag s \<or> c = matchReg s\<rparr>)"

text \<open>
  The true time in ticks, the timer, the time point of the interrupt last set and not yet delivered, and whether one of the
  time points set since the last delivery had been reached when it was set. Interrupts are set and handled at any
  time, but an overflow is handled before the next one.
\<close>

type_synonym timer_sys = "nat \<times> timer_adapter \<times> nat option \<times> bool"

inductive timer_step :: "nat \<Rightarrow> u32 \<Rightarrow> timer_sys \<Rightarrow> timer_sys \<Rightarrow> bool" for bits :: nat and q :: u32 where
  advance: "Suc n < 2 ^ 63 \<Longrightarrow> \<not> (overflowFlag s \<and> Suc n mod 2 ^ bits = 0) \<Longrightarrow>
    timer_step bits q (n, s, g, l) (Suc n, hw_tick bits s, g, l)"
| set_irq: "unat tick + unat q < 2 ^ 63 \<Longrightarrow>
    timer_step bits q (n, s, g, l)
      (n, IRQsetIrqTick bits q tick (counter s) (overflowFlag s) (counter s) s, Some (unat tick + unat q), l \<or> unat tick \<le> n)"
| handle: "IRQhandler bits (counter s) (overflowFlag s) (counter s) (overflowFlag s) s = (s', e) \<Longrightarrow>
    timer_step bits q (n, s, g, l) (n, s', if e = None then g else None, e = None \<and> l)"

definition time_inv :: "nat \<Rightarrow> nat \<Rightarrow> timer_adapter \<Rightarrow> bool" where
  "time_inv bits n s \<longleftrightarrow> (\<exists>U. unat (upperTimeTick s) = U * 2 ^ bits \<and> U * 2 ^ bits \<le> n \<and> n < (U + 2) * 2 ^ bits \<and>
     (overflowFlag s \<longleftrightarrow> (U + 1) * 2 ^ bits \<le> n)) \<and> unat (counter s) = n mod 2 ^ bits \<and> n < 2 ^ 63"

definition irq_inv :: "nat \<Rightarrow> nat \<Rightarrow> timer_adapter \<Rightarrow> nat option \<Rightarrow> bool" where
  "irq_inv bits n s g \<longleftrightarrow> (case g of
       None \<Rightarrow> \<not> lateIrq s
     | Some d \<Rightarrow> d < 2 ^ 63 \<and> unat (IRQgetIrqTick s) = d \<and> unat (matchReg s) = d mod 2 ^ bits \<and>
         (lateIrq s \<or> n < d \<or> matchFlag s))"

lemma time_inv_read:
  assumes "bits \<le> 32" "time_inv bits n s"
  shows "unat (IRQgetTimeTick bits (upperTimeTick s) (counter s) (overflowFlag s) (counter s)) = n"
proof -
  from assms(2) obtain U where "unat (upperTimeTick s) = U * 2 ^ bits" "U * 2 ^ bits \<le> n" "n < (U + 2) * 2 ^ bits"
    "overflowFlag s \<longleftrightarrow> (U + 1) * 2 ^ bits \<le> n" "unat (counter s) = n mod 2 ^ bits" "n < 2 ^ 63"
    unfolding time_inv_def by blast
  then show ?thesis by (intro time_read [OF assms(1)]) auto
qed

lemma read_sint:
  assumes "bits \<le> 32" "time_inv bits n s"
  shows "sint (IRQgetTimeTick bits (upperTimeTick s) (counter s) (overflowFlag s) (counter s)) = int n"
proof -
  have "n < 2 ^ 63" using assms(2) by (simp add: time_inv_def)
  then show ?thesis by (subst sint_small) (simp_all only: time_inv_read [OF assms])
qed

lemma set_match_irq:
  assumes "bits \<le> 32"
  shows "IRQgetIrqTick (set_match bits t s) = t" "unat (matchReg (set_match bits t s)) = unat t mod 2 ^ bits"
proof -
  show "IRQgetIrqTick (set_match bits t s) = t"
    using split_tick [OF assms] by (simp add: IRQgetIrqTick_def set_match_def)
  have "t AND mask bits = take_bit bits t" by (simp add: take_bit_eq_mask)
  then show "unat (matchReg (set_match bits t s)) = unat t mod 2 ^ bits"
    using assms by (simp add: set_match_def masks unsigned_ucast_eq unsigned_take_bit_eq min_def flip: take_bit_eq_mod)
qed

lemma advance_time:
  assumes b: "bits \<le> 32" and t: "time_inv bits n s" and n: "Suc n < 2 ^ 63"
    and ov: "\<not> (overflowFlag s \<and> Suc n mod 2 ^ bits = 0)"
  shows "time_inv bits (Suc n) (hw_tick bits s)"
proof -
  let ?P = "2 ^ bits :: nat"
  from t obtain U where U: "unat (upperTimeTick s) = U * ?P" "U * ?P \<le> n" "n < (U + 2) * ?P"
    "overflowFlag s \<longleftrightarrow> (U + 1) * ?P \<le> n" and c: "unat (counter s) = n mod ?P"
    unfolding time_inv_def by blast
  have w: "unat (counter s) + 1 = ?P \<longleftrightarrow> Suc n mod ?P = 0" unfolding c by (auto simp: mod_Suc)
  have c': "unat (counter (hw_tick bits s)) = Suc n mod ?P"
  proof (cases "Suc n mod ?P = 0")
    case False
    then have s: "unat (counter s) + 1 = Suc n mod ?P" using c by (auto simp: mod_Suc split: if_splits)
    have "Suc n mod ?P < ?P" by simp
    also have "?P \<le> 2 ^ 32" using b by (intro power_increasing) auto
    finally have "unat (counter s + 1) = Suc n mod ?P" using s by (simp add: unat_word_ariths(1))
    then show ?thesis using False w by (simp add: hw_tick_def Let_def)
  qed (use w in \<open>simp add: hw_tick_def Let_def\<close>)
  have wrap: "Suc n mod ?P = 0 \<longleftrightarrow> Suc n = (U + 1) * ?P" if "\<not> overflowFlag s"
  proof
    assume "Suc n mod ?P = 0"
    then obtain k where k: "Suc n = k * ?P" by (auto simp: mod_eq_0_iff_dvd elim: dvdE)
    have "n < (U + 1) * ?P" using that U(4) by linarith
    then have "U * ?P < k * ?P" "k * ?P \<le> (U + 1) * ?P" using k U(2) by linarith+
    then have "U < k" "k \<le> U + 1" unfolding mult_less_cancel2 mult_le_cancel2 by simp_all
    then have "k = U + 1" by simp
    then show "Suc n = (U + 1) * ?P" using k by simp
  qed simp
  have nw: "Suc n < (U + 2) * ?P"
  proof (rule ccontr)
    assume "\<not> ?thesis"
    then have e: "Suc n = (U + 2) * ?P" using U(3) by linarith
    then have "Suc n mod ?P = 0" by simp
    moreover have "(U + 2) * ?P = (U + 1) * ?P + ?P" "1 \<le> ?P" by (simp_all add: algebra_simps)
    then have "(U + 1) * ?P \<le> n" using e by linarith
    ultimately show False using ov U(4) by simp
  qed
  have "overflowFlag (hw_tick bits s) \<longleftrightarrow> (U + 1) * ?P \<le> Suc n"
    using wrap U(4) w by (auto simp: hw_tick_def Let_def)
  then show ?thesis unfolding time_inv_def using U(1,2) nw c' n
    by (intro conjI exI [of _ U]) (auto simp: hw_tick_def Let_def)
qed

lemma advance_irq:
  assumes "unat (counter (hw_tick bits s)) = Suc n mod 2 ^ bits" "irq_inv bits n s g"
  shows "irq_inv bits (Suc n) (hw_tick bits s) g"
proof (cases g)
  case None
  with assms(2) show ?thesis by (simp add: irq_inv_def hw_tick_def Let_def)
next
  case (Some d)
  let ?s = "hw_tick bits s"
  have i: "d < 2 ^ 63" "unat (IRQgetIrqTick s) = d" "unat (matchReg s) = d mod 2 ^ bits"
    "lateIrq s \<or> n < d \<or> matchFlag s" using assms(2) Some by (simp_all add: irq_inv_def)
  have f: "IRQgetIrqTick ?s = IRQgetIrqTick s" "matchReg ?s = matchReg s" "lateIrq ?s = lateIrq s"
    "matchFlag s \<Longrightarrow> matchFlag ?s" "matchFlag ?s \<longleftrightarrow> matchFlag s \<or> counter ?s = matchReg s"
    by (simp_all add: hw_tick_def Let_def IRQgetIrqTick_def)
  have "matchFlag ?s" if "Suc n = d"
  proof -
    have "unat (counter ?s) = unat (matchReg s)" using assms(1) i(3) that by simp
    then show ?thesis using f(5) by (simp add: unat_inject)
  qed
  then have "lateIrq ?s \<or> Suc n < d \<or> matchFlag ?s" using i(4) f(3,4) by (cases "Suc n = d") auto
  then show ?thesis using Some i f by (simp add: irq_inv_def)
qed

lemma set_irq_inv:
  assumes b: "bits \<le> 32" and t: "time_inv bits n s" and q: "unat tick + unat q < 2 ^ 63"
    and s': "s' = IRQsetIrqTick bits q tick (counter s) (overflowFlag s) (counter s) s"
  shows "time_inv bits n s'" "irq_inv bits n s' (Some (unat tick + unat q))"
    "lateIrq s' \<longleftrightarrow> lateIrq s \<or> unat tick \<le> n"
proof -
  let ?t2 = "tick + ucast q"
  have f: "counter s' = counter s" "overflowFlag s' = overflowFlag s" "upperTimeTick s' = upperTimeTick s"
    by (simp_all add: s' IRQsetIrqTick_def Let_def set_match_def)
  show "time_inv bits n s'" using t by (simp add: time_inv_def f)
  have uq: "unat (ucast q :: u64) = unat q"
    using unsigned_less [of q, where 'a = nat] by (simp add: unsigned_ucast_eq take_bit_eq_mod)
  have t2: "unat ?t2 = unat tick + unat q" using q uq by (simp add: unat_word_ariths(1))
  have st: "sint tick = int (unat tick)" using q by (intro sint_small) linarith
  have ur: "upperTimeTick (set_match bits ?t2 s) = upperTimeTick s" by (simp add: set_match_def)
  have "sint tick \<le> int n \<longleftrightarrow> unat tick \<le> n" unfolding st by (simp only: of_nat_le_iff)
  then show late: "lateIrq s' \<longleftrightarrow> lateIrq s \<or> unat tick \<le> n"
    using read_sint [OF b t] unfolding s' IRQsetIrqTick_def Let_def ur by (simp add: set_match_def)
  have m: "IRQgetIrqTick s' = ?t2" "unat (matchReg s') = unat ?t2 mod 2 ^ bits"
    using set_match_irq [OF b, of ?t2 s] by (simp_all add: s' IRQsetIrqTick_def Let_def IRQgetIrqTick_def)
  have "lateIrq s' \<or> n < unat tick + unat q" using late by linarith
  then show "irq_inv bits n s' (Some (unat tick + unat q))" using m t2 q by (auto simp: irq_inv_def)
qed

lemma handle_time:
  assumes b: "bits \<le> 32" and t: "time_inv bits n s"
    and h: "IRQhandler bits (counter s) (overflowFlag s) (counter s) (overflowFlag s) s = (s', e)"
  shows "time_inv bits n s'"
proof -
  let ?P = "2 ^ bits :: nat"
  from t obtain U where U: "unat (upperTimeTick s) = U * ?P" "U * ?P \<le> n" "n < (U + 2) * ?P"
    "overflowFlag s \<longleftrightarrow> (U + 1) * ?P \<le> n" and c: "unat (counter s) = n mod ?P" "n < 2 ^ 63"
    unfolding time_inv_def by blast
  have f: "counter s' = counter s" "\<not> overflowFlag s'"
    "upperTimeTick s' = (if overflowFlag s then upperTimeTick s + upperIncr bits else upperTimeTick s)"
    using h by (auto simp: IRQhandler_def Let_def split: if_splits)
  show ?thesis
  proof (cases "overflowFlag s")
    case True
    have "U * ?P + ?P < 2 ^ 64" using U(4) True c(2) by (simp add: algebra_simps)
    then have "unat (upperTimeTick s') = (U + 1) * ?P"
      using f(3) True U(1) upperIncr_unat [OF b] by (simp add: unat_word_ariths(1))
    moreover have "n < (U + 1 + 2) * ?P" "\<not> (U + 1 + 1) * ?P \<le> n" using U(3) by (simp_all add: algebra_simps)
    ultimately show ?thesis unfolding time_inv_def using U(4) True f(1,2) c by (intro conjI exI [of _ "U + 1"]) auto
  next
    case False
    then show ?thesis unfolding time_inv_def using U f c by (intro conjI exI [of _ U]) auto
  qed
qed

lemma handle_irq:
  assumes b: "bits \<le> 32" and t: "time_inv bits n s" and g: "irq_inv bits n s g"
    and h: "IRQhandler bits (counter s) (overflowFlag s) (counter s) (overflowFlag s) s = (s', e)"
  shows "irq_inv bits n s' (if e = None then g else None)" "lateIrq s' \<longleftrightarrow> e = None \<and> lateIrq s"
    "g = Some d \<Longrightarrow> d \<le> n \<Longrightarrow> e \<noteq> None" "e \<noteq> None \<Longrightarrow> lateIrq s \<or> unat (IRQgetIrqTick s) \<le> n \<or> 2 ^ 63 \<le> unat (IRQgetIrqTick s)"
proof -
  let ?m = "matchFlag s \<or> lateIrq s" and ?due = "int n \<ge> sint (IRQgetIrqTick s) \<or> lateIrq s"
  have irq: "IRQgetIrqTick (s\<lparr>matchFlag := False\<rparr>) = IRQgetIrqTick s" by (simp add: IRQgetIrqTick_def)
  have e: "e \<noteq> None \<longleftrightarrow> ?m \<and> ?due"
    using h read_sint [OF b t] irq by (auto simp: IRQhandler_def Let_def split: if_splits)
  have f: "matchReg s' = matchReg s" "IRQgetIrqTick s' = IRQgetIrqTick s" "lateIrq s' \<longleftrightarrow> e = None \<and> lateIrq s"
    "\<not> ?m \<Longrightarrow> \<not> matchFlag s'"
    using h e by (auto simp: IRQhandler_def Let_def IRQgetIrqTick_def split: if_splits)
  show "lateIrq s' \<longleftrightarrow> e = None \<and> lateIrq s" by (rule f(3))
  have 2: "e \<noteq> None" if "g = Some d" "d \<le> n" for d
  proof -
    have i: "d < 2 ^ 63" "unat (IRQgetIrqTick s) = d" "?m"
      using g that by (auto simp: irq_inv_def)
    then have "sint (IRQgetIrqTick s) = int d" using sint_small [of "IRQgetIrqTick s"] by (simp only:)
    then show ?thesis using e i(3) that(2) by simp
  qed
  then show "g = Some d \<Longrightarrow> d \<le> n \<Longrightarrow> e \<noteq> None" .
  show "irq_inv bits n s' (if e = None then g else None)"
  proof (cases "e = None")
    case True
    show ?thesis
    proof (cases g)
      case None
      then show ?thesis using True f(3) g by (simp add: irq_inv_def)
    next
      case (Some d)
      then have "n < d" using 2 [OF Some] True by (cases "d \<le> n") auto
      then show ?thesis using True Some f(1,2) g by (simp add: irq_inv_def)
    qed
  next
    case False
    then show ?thesis using f(3) by (auto simp: irq_inv_def)
  qed
  show "lateIrq s \<or> unat (IRQgetIrqTick s) \<le> n \<or> 2 ^ 63 \<le> unat (IRQgetIrqTick s)" if "e \<noteq> None"
  proof (rule ccontr)
    assume "\<not> ?thesis"
    then have n: "\<not> lateIrq s" "n < unat (IRQgetIrqTick s)" "unat (IRQgetIrqTick s) < 2 ^ 63" by simp_all
    from sint_small [OF n(3)] n(1,2) e that show False by (simp only:) linarith
  qed
qed

definition timer_inv :: "nat \<Rightarrow> timer_sys \<Rightarrow> bool" where
  "timer_inv bits = (\<lambda>(n, s, g, l). time_inv bits n s \<and> irq_inv bits n s g \<and> lateIrq s = l)"

lemma timer_step_inv:
  assumes "timer_step bits q x y" "bits \<le> 32" "timer_inv bits x"
  shows "timer_inv bits y"
  using assms
proof (induction rule: timer_step.induct)
  case (advance n s g l)
  then have t: "time_inv bits (Suc n) (hw_tick bits s)" by (intro advance_time) (auto simp: timer_inv_def)
  then have "unat (counter (hw_tick bits s)) = Suc n mod 2 ^ bits" by (simp add: time_inv_def)
  moreover have "lateIrq (hw_tick bits s) = lateIrq s" by (simp add: hw_tick_def Let_def)
  ultimately show ?case using t advance advance_irq [of bits s n g] by (simp add: timer_inv_def)
next
  case (set_irq tick n s g l)
  then show ?case using set_irq_inv [OF _ _ _ refl] by (auto simp: timer_inv_def)
next
  case (handle s s' e n g l)
  then have t: "time_inv bits n s" "irq_inv bits n s g" by (simp_all add: timer_inv_def)
  from handle_time [OF handle.prems(1) t(1) handle.hyps] handle_irq(1,2) [OF handle.prems(1) t handle.hyps] handle.prems(2)
  show ?case unfolding timer_inv_def by simp
qed

definition timer_off :: timer_adapter where
  "timer_off = \<lparr>upperTimeTick = 0, upperIrqTick = 0, tc = default_time_conversion, lateIrq = False, counter = 0,
     matchReg = 0, overflowFlag = False, matchFlag = False, pendingIrq = False\<rparr>"

lemma timer_off_inv: "timer_inv bits (0, timer_off, None, False)"
  by (simp add: timer_inv_def time_inv_def irq_inv_def timer_off_def)

lemma timer_reachable_inv:
  assumes "(timer_step bits q)\<^sup>*\<^sup>* (0, timer_off, None, False) x" "bits \<le> 32"
  shows "timer_inv bits x"
  using assms(1) by (induction rule: rtranclp_induct) (use timer_off_inv timer_step_inv assms(2) in blast)+

section \<open>Properties\<close>

text \<open>The pending bit trick: the 64 bit time read from an overflowing hardware timer is the true time
  at the first read of the counter, although the counter, the overflow flag and the counter again are
  read at three different times and the overflow may not have been handled yet, provided that the
  overflow is less than one period old and the reads together take less than one period.\<close>

theorem pending_bit_trick:
  assumes "bits \<le> 32" "unat u = U * 2 ^ bits"
    "U * 2 ^ bits \<le> n1" "n1 \<le> n2" "n2 \<le> n3" "n3 < (U + 2) * 2 ^ bits" "n3 - n1 < 2 ^ bits" "n3 < 2 ^ 64"
    "unat c1 = n1 mod 2 ^ bits" "unat c2 = n3 mod 2 ^ bits" "ov \<longleftrightarrow> (U + 1) * 2 ^ bits \<le> n2"
  shows "unat (IRQgetTimeTick bits u c1 ov c2) = n1"
  by (rule time_read [OF assms])

theorem pending_bit_trick_witness:
  "unat (IRQgetTimeTick 16 131072 65535 True 3) = 196607"
proof -
  have n: "unat (131072 :: u64) = 2 * 2 ^ 16" "unat (65535 :: u32) = 196607 mod 2 ^ 16" "unat (3 :: u32) = 196611 mod 2 ^ 16"
    by simp_all
  show ?thesis
    using pending_bit_trick [of 16 131072 2 196607 196609 196611 65535 3 True, OF _ n(1) _ _ _ _ _ _ n(2,3)] by simp
qed



text \<open>At time 1 the time point 0 is set, then the time point 100: the handler calls the kernel at 1.\<close>

lemma late_request_not_cancelled:
  "\<exists>s s'. (timer_step 16 0)\<^sup>*\<^sup>* (0, timer_off, None, False) (1, s, Some 100, True)
     \<and> IRQhandler 16 (counter s) (overflowFlag s) (counter s) (overflowFlag s) s = (s', Some (tick2ns 1 (tc s)))"
proof -
  define s1 where "s1 = hw_tick 16 timer_off"
  define s2 where "s2 = IRQsetIrqTick 16 0 0 (counter s1) (overflowFlag s1) (counter s1) s1"
  define s3 where "s3 = IRQsetIrqTick 16 0 100 (counter s2) (overflowFlag s2) (counter s2) s2"
  have 1: "timer_step 16 0 (0, timer_off, None, False) (Suc 0, s1, None, False)" unfolding s1_def by (rule timer_step.advance) simp_all
  have 2: "timer_step 16 0 (Suc 0, s1, None, False) (Suc 0, s2, Some (unat (0 :: u64) + unat (0 :: u32)), False \<or> unat (0 :: u64) \<le> Suc 0)"
    unfolding s2_def by (rule timer_step.set_irq) simp
  have 3: "timer_step 16 0 (Suc 0, s2, Some 0, True) (Suc 0, s3, Some (unat (100 :: u64) + unat (0 :: u32)), True \<or> unat (100 :: u64) \<le> Suc 0)"
    unfolding s3_def by (rule timer_step.set_irq) simp
  from 1 2 3 have r: "(timer_step 16 0)\<^sup>*\<^sup>* (0, timer_off, None, False) (1, s3, Some 100, True)"
    by (auto intro: rtranclp.rtrancl_into_rtrancl)
  obtain s' e where h: "IRQhandler 16 (counter s3) (overflowFlag s3) (counter s3) (overflowFlag s3) s3 = (s', e)" by force
  have t: "time_inv 16 1 s3" "irq_inv 16 1 s3 (Some 100)" "lateIrq s3" using timer_reachable_inv [OF r] by (simp_all add: timer_inv_def)
  have "IRQgetTimeTick 16 (upperTimeTick s3) (counter s3) (overflowFlag s3) (counter s3) = 1"
    using time_inv_read [OF _ t(1)] by (intro word_unat_eq_iff [THEN iffD2]) simp
  then have "e = Some (tick2ns 1 (tc s3))" using h t(3) by (auto simp: IRQhandler_def Let_def split: if_splits)
  then show ?thesis using r h by blast
qed

end
