(* ===== verification/Unicode.thy ===== *)
theory Unicode
  imports Miosix_Prelude
begin

text \<open>
  Conversions between UTF-8, UTF-16 and UTF-32 (\<^verbatim>\<open>util/unicode.h\<close>, \<^verbatim>\<open>util/unicode.cpp\<close>), which the FAT32
  filesystem uses for long file names. A string is the list of its units; a string without its end of
  string check is read up to a zero unit, and reading past the list is a fault. The destination of a
  conversion is the list of the units written so far.
\<close>

unbundle bit_operations_syntax

section \<open>The operations\<close>

datatype unicode_error = OK | INSUFFICIENT_SPACE | INVALID_STRING

definition invalid :: u32 where "invalid = 0xffffffff"

text \<open>The loop that reads \<open>n\<close> continuation bytes; \<open>None\<close> is an invalid sequence.\<close>

fun next_cont :: "nat \<Rightarrow> bool \<Rightarrow> u32 \<Rightarrow> u8 list \<Rightarrow> (u32 option \<times> u8 list) result" where
  "next_cont 0 checkEnd c s = Inr (Some c, s)"
| "next_cont (Suc n) checkEnd c [] = (if checkEnd then Inr (None, []) else Inl OutOfBounds)"
| "next_cont (Suc n) checkEnd c (b # s) =
     (let nxt = (ucast b :: u32) in
      if nxt AND 0xc0 \<noteq> 0x80 then Inr (None, s)
      else next_cont n checkEnd (push_bit 6 c OR (nxt AND 0x3f)) s)"

text \<open>The checks on the decoded value.\<close>

definition check_code :: "nat \<Rightarrow> u32 \<Rightarrow> u32" where
  "check_code additionalBytes c =
     (if additionalBytes = 1 \<and> c < 0x80 \<or> additionalBytes = 2 \<and> c < 0x800 \<or> additionalBytes = 3 \<and> c < 0x10000
      then invalid
      else if 0xd800 \<le> c \<and> c \<le> 0xdfff then invalid
      else if c > 0x10ffff then invalid
      else c)"

definition decode_multi :: "nat \<Rightarrow> bool \<Rightarrow> u32 \<Rightarrow> u8 list \<Rightarrow> (u32 \<times> u8 list) result" where
  "decode_multi additionalBytes checkEnd c s =
     rbind (next_cont additionalBytes checkEnd c s) (\<lambda>(r, s).
       Inr (case r of None \<Rightarrow> invalid | Some c \<Rightarrow> check_code additionalBytes c, s))"

definition nextUtf8 :: "bool \<Rightarrow> u8 list \<Rightarrow> (u32 \<times> u8 list) result" where
  "nextUtf8 checkEnd s =
     (case s of
        [] \<Rightarrow> if checkEnd then Inr (0, []) else Inl OutOfBounds
      | b # s \<Rightarrow>
          let c = (ucast b :: u32) in
          if c < 0x80 then Inr (c, s)
          else if c AND 0xe0 = 0xc0 then decode_multi 1 checkEnd (c AND 0x1f) s
          else if c AND 0xf0 = 0xe0 then decode_multi 2 checkEnd (c AND 0x0f) s
          else if c AND 0xf8 = 0xf0 then decode_multi 3 checkEnd (c AND 0x07) s
          else Inr (invalid, s))"

text \<open>\<^verbatim>\<open>PUT\<close>: append a unit if there is room for it, and give up otherwise.\<close>

definition PUT :: "int \<Rightarrow> 'a \<Rightarrow> 'a list \<Rightarrow> 'a list + 'a list" where
  "PUT dstSize x out = (if int (length out) \<ge> dstSize then Inl out else Inr (out @ [x]))"

fun puts :: "int \<Rightarrow> 'a list \<Rightarrow> 'a list \<Rightarrow> 'a list + 'a list" where
  "puts dstSize [] out = Inr out"
| "puts dstSize (x # xs) out = rbind (PUT dstSize x out) (puts dstSize xs)"

definition utf8_units :: "u32 \<Rightarrow> u8 list" where
  "utf8_units c =
     (if c < 0x80 then [ucast c]
      else (if c < 0x800 then [ucast (drop_bit 6 c OR 0xc0)]
            else if c < 0x10000 then [ucast (drop_bit 12 c OR 0xe0), ucast ((drop_bit 6 c AND 0x3f) OR 0x80)]
            else [ucast (drop_bit 18 c OR 0xf0), ucast ((drop_bit 12 c AND 0x3f) OR 0x80),
                  ucast ((drop_bit 6 c AND 0x3f) OR 0x80)])
           @ [ucast ((c AND 0x3f) OR 0x80)])"

definition putUtf8 :: "u32 \<Rightarrow> int \<Rightarrow> unicode_error \<times> u8 list" where
  "putUtf8 c dstSize =
     (if 0xd800 \<le> c \<and> c \<le> 0xdfff then (INVALID_STRING, [])
      else if c > 0x10ffff then (INVALID_STRING, [])
      else case puts dstSize (utf8_units c) [] of
        Inl out \<Rightarrow> (INSUFFICIENT_SPACE, out)
      | Inr out \<Rightarrow> (OK, out))"

definition utf16_units :: "u32 \<Rightarrow> u16 list" where
  "utf16_units c =
     (if c > 0xffff
      then let leadOffset = 0xd800 - drop_bit 10 0x10000
           in [ucast (leadOffset + drop_bit 10 c), ucast (0xdc00 + (c AND 0x3ff))]
      else [ucast c])"

lemma next_cont_shorter: "next_cont n b c s = Inr (r, s') \<Longrightarrow> length s' \<le> length s"
  by (induction n b c s rule: next_cont.induct) (auto simp: Let_def split: if_splits intro: le_SucI)

lemma decode_multi_shorter: "decode_multi n b c s = Inr (r, s') \<Longrightarrow> length s' \<le> length s"
  by (auto simp: decode_multi_def rbind_Inr_iff dest: next_cont_shorter)

lemma nextUtf8_shorter: "nextUtf8 False s = Inr (c, s') \<Longrightarrow> length s' < length s"
  by (auto simp: nextUtf8_def Let_def less_Suc_eq_le split: list.splits if_splits dest: decode_multi_shorter)

text \<open>The conversions of whole strings, from the units written so far on.\<close>

function utf8toutf16_loop :: "int \<Rightarrow> u8 list \<Rightarrow> u16 list \<Rightarrow> (unicode_error \<times> int \<times> u16 list) result" where
  "utf8toutf16_loop dstSize src out =
     (case nextUtf8 False src of
        Inl f \<Rightarrow> Inl f
      | Inr (c, src') \<Rightarrow>
          if c = 0 then
            (case PUT dstSize 0 out of
               Inl out \<Rightarrow> Inr (INSUFFICIENT_SPACE, int (length out), out)
             | Inr out \<Rightarrow> Inr (OK, int (length out) - 1, out))
          else if c = invalid then Inr (INVALID_STRING, int (length out), out)
          else case puts dstSize (utf16_units c) out of
            Inl out \<Rightarrow> Inr (INSUFFICIENT_SPACE, int (length out), out)
          | Inr out \<Rightarrow> utf8toutf16_loop dstSize src' out)"
  by pat_completeness auto

termination utf8toutf16_loop
  by (relation "measure (\<lambda>(_, src, _). length src)") (auto dest: nextUtf8_shorter)

declare utf8toutf16_loop.simps [simp del]

definition utf8toutf16 :: "int \<Rightarrow> u8 list \<Rightarrow> (unicode_error \<times> int \<times> u16 list) result" where
  "utf8toutf16 dstSize src = utf8toutf16_loop dstSize src []"

text \<open>Reading one code point from UTF-16; \<open>None\<close> is an unpaired surrogate.\<close>

definition next16 :: "u16 \<Rightarrow> u16 list \<Rightarrow> (u32 option \<times> u16 list) result" where
  "next16 w s =
     (let c = (ucast w :: u32) in
      if 0xd800 \<le> c \<and> c \<le> 0xdbff then
        (case s of
           [] \<Rightarrow> Inl OutOfBounds
         | w2 # s \<Rightarrow>
             let nxt = (ucast w2 :: u32) in
             if nxt < 0xdc00 \<or> nxt > 0xdfff then Inr (None, s)
             else let surrogateOffset = 0x10000 - push_bit 10 0xd800 - 0xdc00
                  in Inr (Some (push_bit 10 c + nxt + surrogateOffset), s))
      else if 0xdc00 \<le> c \<and> c \<le> 0xdfff then Inr (None, s)
      else Inr (Some c, s))"

lemma next16_shorter: "next16 w s = Inr (r, s') \<Longrightarrow> length s' < Suc (length s)"
  by (auto simp: next16_def Let_def less_Suc_eq_le split: list.splits if_splits)

function utf16toutf8_loop :: "int \<Rightarrow> u16 list \<Rightarrow> u8 list \<Rightarrow> (unicode_error \<times> int \<times> u8 list) result" where
  "utf16toutf8_loop dstSize src out =
     (case src of
        [] \<Rightarrow> Inl OutOfBounds
      | w # src \<Rightarrow>
          if w = 0 then
            (case PUT dstSize 0 out of
               Inl out \<Rightarrow> Inr (INSUFFICIENT_SPACE, int (length out), out)
             | Inr out \<Rightarrow> Inr (OK, int (length out) - 1, out))
          else if w < 0x80 then
            (case PUT dstSize (ucast w) out of
               Inl out \<Rightarrow> Inr (INSUFFICIENT_SPACE, int (length out), out)
             | Inr out \<Rightarrow> utf16toutf8_loop dstSize src out)
          else case next16 w src of
            Inl f \<Rightarrow> Inl f
          | Inr (None, src) \<Rightarrow> Inr (INVALID_STRING, int (length out), out)
          | Inr (Some c, src) \<Rightarrow>
              (case putUtf8 c (dstSize - int (length out)) of (e, units) \<Rightarrow>
                 if e \<noteq> OK then Inr (e, int (length (out @ units)), out @ units)
                 else utf16toutf8_loop dstSize src (out @ units)))"
  by pat_completeness auto

termination utf16toutf8_loop
  by (relation "measure (\<lambda>(_, src, _). length src)") (auto dest: next16_shorter)

declare utf16toutf8_loop.simps [simp del]

definition utf16toutf8 :: "int \<Rightarrow> u16 list \<Rightarrow> (unicode_error \<times> int \<times> u8 list) result" where
  "utf16toutf8 dstSize src = utf16toutf8_loop dstSize src []"

function validate_loop :: "nat \<Rightarrow> u8 list \<Rightarrow> (bool \<times> nat) result" where
  "validate_loop len s =
     (case nextUtf8 False s of
        Inl f \<Rightarrow> Inl f
      | Inr (c, s') \<Rightarrow>
          if c = 0 then Inr (True, len - length s')
          else if c = invalid then Inr (False, len - length s')
          else validate_loop len s')"
  by pat_completeness auto

termination validate_loop
  by (relation "measure (\<lambda>(_, src). length src)") (auto dest: nextUtf8_shorter)

declare validate_loop.simps [simp del]

definition validateUtf8 :: "u8 list \<Rightarrow> (bool \<times> nat) result" where
  "validateUtf8 str = validate_loop (length str) str"

section \<open>Encoding and decoding a code point\<close>

lemma all_less_32:
  "(\<forall>n<32. P n) \<longleftrightarrow> P 0 \<and> P 1 \<and> P 2 \<and> P 3 \<and> P 4 \<and> P 5 \<and> P 6 \<and> P 7 \<and> P 8 \<and> P 9 \<and> P 10 \<and> P 11 \<and>
     P 12 \<and> P 13 \<and> P 14 \<and> P 15 \<and> P 16 \<and> P 17 \<and> P 18 \<and> P 19 \<and> P 20 \<and> P 21 \<and> P 22 \<and> P 23 \<and> P 24 \<and>
     P 25 \<and> P 26 \<and> P 27 \<and> P 28 \<and> P 29 \<and> P 30 \<and> P (31 :: nat)"
  by (simp add: eval_nat_numeral All_less_Suc) blast

lemma word32_eq_iff: "(a :: u32) = b \<longleftrightarrow> (\<forall>n<32. bit a n \<longleftrightarrow> bit b n)"
  by (auto intro: bit_word_eqI)

lemma take_bit_small:
  assumes "k < 32"
  shows "take_bit k (w :: u32) = w \<longleftrightarrow> w < 2 ^ k"
proof
  have p: "0 < (2 :: u32) ^ k" using assms by (simp add: word_neq_0_conv [symmetric])
  show "w < 2 ^ k" if "take_bit k w = w"
    using word_mod_less_divisor [OF p, of w] that by (simp add: take_bit_eq_mod)
  show "take_bit k w = w" if "w < 2 ^ k"
  proof -
    have "unat w < unat ((2 :: u32) ^ k)" using that by (simp add: word_less_nat_alt)
    then have "unat (w mod 2 ^ k) = unat w" by (simp only: unat_mod mod_less)
    then show ?thesis by (simp add: take_bit_eq_mod unat_inject)
  qed
qed

lemma small_bits: "(w :: u32) < 2 ^ k \<Longrightarrow> k \<le> n \<Longrightarrow> k < 32 \<Longrightarrow> \<not> bit w n"
  by (metis bit_take_bit_iff not_less take_bit_small)

lemma bits_small:
  assumes "\<forall>n<32. k \<le> n \<longrightarrow> \<not> bit (w :: u32) n" "k < 32"
  shows "w < 2 ^ k"
  unfolding take_bit_small [OF assms(2), symmetric]
  by (rule bit_word_eqI) (use assms(1) in \<open>auto simp: bit_take_bit_iff not_less [symmetric]\<close>)

text \<open>A code point that is valid: not a surrogate and in the range of Unicode.\<close>

definition valid_code :: "u32 \<Rightarrow> bool" where
  "valid_code c \<longleftrightarrow> c \<le> 0x10ffff \<and> \<not> (0xd800 \<le> c \<and> c \<le> 0xdfff)"

lemma check_code_valid:
  "check_code k c \<noteq> invalid \<longleftrightarrow> c \<noteq> invalid \<and> valid_code c \<and>
     \<not> (k = 1 \<and> c < 0x80 \<or> k = 2 \<and> c < 0x800 \<or> k = 3 \<and> c < 0x10000)"
  "check_code k c \<noteq> invalid \<Longrightarrow> check_code k c = c"
  by (auto simp: check_code_def valid_code_def)

lemma valid_not_invalid: "valid_code c \<Longrightarrow> c \<noteq> invalid"
  by (auto simp: valid_code_def invalid_def)

lemma decode_1:
  assumes "c < 0x80"
  shows "nextUtf8 b (ucast c # s) = Inr (c, s)"
proof -
  have "\<not> bit c n" if "7 \<le> n" for n using small_bits [of c 7 n] assms that by simp
  then have "(ucast (ucast c :: u8) :: u32) = c"
    unfolding word32_eq_iff all_less_32 by (simp add: bit_simps)
  then show ?thesis using assms by (simp add: nextUtf8_def)
qed

lemmas decode_unfold = nextUtf8_def decode_multi_def Let_def check_code_def numeral_2_eq_2 numeral_3_eq_3

lemma decode_2:
  assumes "c < 0x800" "0x80 \<le> c"
  shows "nextUtf8 b (ucast (drop_bit 6 c OR 0xc0) # ucast ((c AND 0x3f) OR 0x80) # s) = Inr (c, s)"
proof -
  have hb: "\<not> bit c n" if "11 \<le> n" for n using small_bits [of c 11 n] assms that by simp
  define x y where "x = (ucast (ucast (drop_bit 6 c OR 0xc0) :: u8) :: u32)"
    and "y = (ucast (ucast ((c AND 0x3f) OR 0x80) :: u8) :: u32)"
  have a: "x AND 0xe0 = 0xc0" "y AND 0xc0 = 0x80" "push_bit 6 (x AND 0x1f) OR (y AND 0x3f) = c"
    unfolding word32_eq_iff all_less_32 x_def y_def using hb by (simp_all add: bit_simps)
  have "\<not> x < 0x80" using small_bits [of x 7 7] by (auto simp: x_def bit_simps)
  moreover have "\<not> 0xd800 \<le> c" "\<not> 0x10ffff < c" "\<not> c < 0x80"
    using assms by (auto simp: word_le_nat_alt word_less_nat_alt)
  ultimately show ?thesis using a unfolding x_def y_def by (simp add: decode_unfold)
qed

lemma decode_3:
  assumes "c < 0x10000" "0x800 \<le> c" "\<not> (0xd800 \<le> c \<and> c \<le> 0xdfff)"
  shows "nextUtf8 b (ucast (drop_bit 12 c OR 0xe0) # ucast ((drop_bit 6 c AND 0x3f) OR 0x80) #
    ucast ((c AND 0x3f) OR 0x80) # s) = Inr (c, s)"
proof -
  have hb: "\<not> bit c n" if "16 \<le> n" for n using small_bits [of c 16 n] assms that by simp
  define x y z where "x = (ucast (ucast (drop_bit 12 c OR 0xe0) :: u8) :: u32)"
    and "y = (ucast (ucast ((drop_bit 6 c AND 0x3f) OR 0x80) :: u8) :: u32)"
    and "z = (ucast (ucast ((c AND 0x3f) OR 0x80) :: u8) :: u32)"
  have a: "x AND 0xe0 \<noteq> 0xc0" "x AND 0xf0 = 0xe0" "y AND 0xc0 = 0x80" "z AND 0xc0 = 0x80"
    "push_bit 6 (push_bit 6 (x AND 0x0f) OR (y AND 0x3f)) OR (z AND 0x3f) = c"
    unfolding word32_eq_iff all_less_32 x_def y_def z_def using hb by (simp_all add: bit_simps)
  have "\<not> x < 0x80" using small_bits [of x 7 7] by (auto simp: x_def bit_simps)
  moreover have "\<not> 0x10ffff < c" "\<not> c < 0x800"
    using assms by (auto simp: word_le_nat_alt word_less_nat_alt)
  ultimately show ?thesis using a assms(3) unfolding x_def y_def z_def by (auto simp: decode_unfold)
qed

lemma decode_4:
  assumes "c \<le> 0x10ffff" "0x10000 \<le> c"
  shows "nextUtf8 b (ucast (drop_bit 18 c OR 0xf0) # ucast ((drop_bit 12 c AND 0x3f) OR 0x80) #
    ucast ((drop_bit 6 c AND 0x3f) OR 0x80) # ucast ((c AND 0x3f) OR 0x80) # s) = Inr (c, s)"
proof -
  have "c < 2 ^ 21" using assms by simp unat_arith
  then have hb: "\<not> bit c n" if "21 \<le> n" for n using small_bits [of c 21 n] that by simp
  define x y z w where "x = (ucast (ucast (drop_bit 18 c OR 0xf0) :: u8) :: u32)"
    and "y = (ucast (ucast ((drop_bit 12 c AND 0x3f) OR 0x80) :: u8) :: u32)"
    and "z = (ucast (ucast ((drop_bit 6 c AND 0x3f) OR 0x80) :: u8) :: u32)"
    and "w = (ucast (ucast ((c AND 0x3f) OR 0x80) :: u8) :: u32)"
  have a: "x AND 0xe0 \<noteq> 0xc0" "x AND 0xf0 \<noteq> 0xe0" "x AND 0xf8 = 0xf0" "y AND 0xc0 = 0x80" "z AND 0xc0 = 0x80"
    "w AND 0xc0 = 0x80"
    "push_bit 6 (push_bit 6 (push_bit 6 (x AND 0x07) OR (y AND 0x3f)) OR (z AND 0x3f)) OR (w AND 0x3f) = c"
    unfolding word32_eq_iff all_less_32 x_def y_def z_def w_def using hb by (simp_all add: bit_simps)
  have "\<not> x < 0x80" using small_bits [of x 7 7] by (auto simp: x_def bit_simps)
  moreover have "\<not> c \<le> 0xdfff" "\<not> 0x10ffff < c" "\<not> c < 0x10000"
    using assms by (auto simp: word_le_nat_alt word_less_nat_alt)
  ultimately show ?thesis using a unfolding x_def y_def z_def w_def by (simp add: decode_unfold)
qed

lemma decode_units: "valid_code c \<Longrightarrow> nextUtf8 b (utf8_units c @ s) = Inr (c, s)"
  using decode_1 [of c b s] decode_2 [of c b s] decode_3 [of c b s] decode_4 [of c b s]
  by (simp add: utf8_units_def valid_code_def not_less)

text \<open>Conversely, what the decoder accepts is the encoding of the code point it returns.\<close>

lemma word8_eq_iff: "(a :: u8) = b \<longleftrightarrow> (\<forall>n<8. bit a n \<longleftrightarrow> bit b n)"
  by (auto intro: bit_word_eqI)

lemma all_less_8: "(\<forall>n<8. P n) \<longleftrightarrow> P 0 \<and> P 1 \<and> P 2 \<and> P 3 \<and> P 4 \<and> P 5 \<and> P 6 \<and> P (7 :: nat)"
  by (simp add: eval_nat_numeral All_less_Suc) blast

lemma encode_1: "(ucast x :: u32) < 0x80 \<Longrightarrow> utf8_units (ucast x) = [x :: u8]"
  unfolding utf8_units_def by (simp add: word8_eq_iff all_less_8 bit_simps)

lemma encode_2:
  assumes "ucast x AND (0xe0 :: u32) = 0xc0" "ucast y AND (0xc0 :: u32) = 0x80"
    "c = push_bit 6 (ucast x AND 0x1f) OR (ucast y AND 0x3f)" "\<not> c < 0x80"
  shows "utf8_units c = [x, y :: u8]"
proof -
  have "c < 2 ^ 11" unfolding assms(3) by (rule bits_small) (simp_all add: all_less_32 bit_simps)
  moreover have "ucast (drop_bit 6 c OR 0xc0) = x" "ucast ((c AND 0x3f) OR 0x80) = y"
    using assms(1,2) unfolding assms(3) word32_eq_iff word8_eq_iff all_less_32 all_less_8
    by (simp_all add: bit_simps)
  ultimately show ?thesis using assms(4) by (simp add: utf8_units_def)
qed

lemma encode_3:
  assumes "ucast x AND (0xf0 :: u32) = 0xe0" "ucast y AND (0xc0 :: u32) = 0x80" "ucast z AND (0xc0 :: u32) = 0x80"
    "c = push_bit 6 (push_bit 6 (ucast x AND 0x0f) OR (ucast y AND 0x3f)) OR (ucast z AND 0x3f)" "\<not> c < 0x800"
  shows "utf8_units c = [x, y, z :: u8]"
proof -
  have "c < 2 ^ 16" unfolding assms(4) by (rule bits_small) (simp_all add: all_less_32 bit_simps)
  moreover have "ucast (drop_bit 12 c OR 0xe0) = x" "ucast ((drop_bit 6 c AND 0x3f) OR 0x80) = y"
    "ucast ((c AND 0x3f) OR 0x80) = z"
    using assms(1-3) unfolding assms(4) word32_eq_iff word8_eq_iff all_less_32 all_less_8
    by (simp_all add: bit_simps)
  moreover have "\<not> c < 0x80" using assms(5) by (auto simp: word_less_nat_alt)
  ultimately show ?thesis using assms(5) by (simp add: utf8_units_def)
qed

lemma encode_4:
  assumes "ucast x AND (0xf8 :: u32) = 0xf0" "ucast y AND (0xc0 :: u32) = 0x80" "ucast z AND (0xc0 :: u32) = 0x80"
    "ucast w AND (0xc0 :: u32) = 0x80"
    "c = push_bit 6 (push_bit 6 (push_bit 6 (ucast x AND 0x07) OR (ucast y AND 0x3f)) OR (ucast z AND 0x3f)) OR (ucast w AND 0x3f)"
    "\<not> c < 0x10000"
  shows "utf8_units c = [x, y, z, w :: u8]"
proof -
  have "ucast (drop_bit 18 c OR 0xf0) = x" "ucast ((drop_bit 12 c AND 0x3f) OR 0x80) = y"
    "ucast ((drop_bit 6 c AND 0x3f) OR 0x80) = z" "ucast ((c AND 0x3f) OR 0x80) = w"
    using assms(1-4) unfolding assms(5) word32_eq_iff word8_eq_iff all_less_32 all_less_8
    by (simp_all add: bit_simps)
  moreover have "\<not> c < 0x80" "\<not> c < 0x800" using assms(6) by (auto simp: word_less_nat_alt)
  ultimately show ?thesis using assms(6) by (simp add: utf8_units_def)
qed

lemma next_cont_SucD:
  assumes "next_cont (Suc n) b c s = Inr (Some d, s')"
  obtains y t where "s = y # t" "ucast y AND (0xc0 :: u32) = 0x80"
    "next_cont n b (push_bit 6 c OR (ucast y AND 0x3f)) t = Inr (Some d, s')"
  using assms by (cases s) (auto simp: Let_def split: if_splits)

lemma decode_multiD:
  assumes "decode_multi k b c s = Inr (d, s')" "d \<noteq> invalid"
  shows "next_cont k b c s = Inr (Some d, s') \<and> valid_code d \<and>
    \<not> (k = 1 \<and> d < 0x80 \<or> k = 2 \<and> d < 0x800 \<or> k = 3 \<and> d < 0x10000)"
proof -
  obtain r where r: "next_cont k b c s = Inr (r, s')" "d = (case r of None \<Rightarrow> invalid | Some c \<Rightarrow> check_code k c)"
    using assms(1) by (auto simp: decode_multi_def rbind_Inr_iff)
  then obtain v where v: "r = Some v" "d = check_code k v" using assms(2) by (cases r) auto
  with assms(2) have "check_code k v \<noteq> invalid" by simp
  with check_code_valid(1) [of k v] check_code_valid(2) [of k v] r(1) v show ?thesis by metis
qed

lemma if_chainD:
  "(if A then a else if B then b else if C then c else if D then d else e) = r \<Longrightarrow> e \<noteq> r \<Longrightarrow>
     A \<and> a = r \<or> B \<and> b = r \<or> C \<and> c = r \<or> D \<and> d = r"
  by (simp split: if_splits)

lemma Inr_Pair_eq: "Inr (a, b) = Inr (c, d) \<longleftrightarrow> c = a \<and> d = b"
  by auto

lemma decode_canonical:
  assumes "nextUtf8 b s = Inr (c, s')" "c \<noteq> invalid" "s \<noteq> []"
  shows "s = utf8_units c @ s' \<and> valid_code c"
proof -
  obtain x t where s: "s = x # t" using assms(3) by (cases s) auto
  let ?x = "ucast x :: u32"
  consider (1) "?x < 0x80" "c = ?x" "s' = t"
    | (2) "?x AND 0xe0 = 0xc0" "decode_multi 1 b (?x AND 0x1f) t = Inr (c, s')"
    | (3) "?x AND 0xf0 = 0xe0" "decode_multi 2 b (?x AND 0x0f) t = Inr (c, s')"
    | (4) "?x AND 0xf8 = 0xf0" "decode_multi 3 b (?x AND 0x07) t = Inr (c, s')"
  proof -
    have "(if ?x < 0x80 then Inr (?x, t)
        else if ?x AND 0xe0 = 0xc0 then decode_multi 1 b (?x AND 0x1f) t
        else if ?x AND 0xf0 = 0xe0 then decode_multi 2 b (?x AND 0x0f) t
        else if ?x AND 0xf8 = 0xf0 then decode_multi 3 b (?x AND 0x07) t
        else Inr (invalid, t)) = Inr (c, s')"
      using assms(1) s by (simp add: nextUtf8_def Let_def)
    moreover have "(Inr (invalid, t) :: (u32 \<times> u8 list) result) \<noteq> Inr (c, s')" using assms(2) by auto
    ultimately have "?x < 0x80 \<and> (Inr (?x, t) :: (u32 \<times> u8 list) result) = Inr (c, s') \<or>
        ?x AND 0xe0 = 0xc0 \<and> decode_multi 1 b (?x AND 0x1f) t = Inr (c, s') \<or>
        ?x AND 0xf0 = 0xe0 \<and> decode_multi 2 b (?x AND 0x0f) t = Inr (c, s') \<or>
        ?x AND 0xf8 = 0xf0 \<and> decode_multi 3 b (?x AND 0x07) t = Inr (c, s')"
      by (rule if_chainD)
    then show thesis using that by (elim disjE conjE) (simp_all only: Inr_Pair_eq)
  qed
  then show ?thesis
  proof cases
    case 1
    then have "valid_code c" by (auto simp: valid_code_def word_le_nat_alt word_less_nat_alt)
    with 1 s encode_1 [of x] show ?thesis by simp
  next
    case 2
    from decode_multiD [OF 2(2) assms(2)] have d: "next_cont (Suc 0) b (?x AND 0x1f) t = Inr (Some c, s')"
      "valid_code c" "\<not> c < 0x80" by simp_all
    from next_cont_SucD [OF d(1)] obtain y t1 where y: "t = y # t1" "ucast y AND (0xc0 :: u32) = 0x80"
      "next_cont 0 b (push_bit 6 (?x AND 0x1f) OR (ucast y AND 0x3f)) t1 = Inr (Some c, s')" by blast
    then have e: "t = y # s'" "c = push_bit 6 (?x AND 0x1f) OR (ucast y AND 0x3f)" by simp_all
    from encode_2 [OF 2(1) y(2) e(2) d(3)] s e(1) d(2) show ?thesis by simp
  next
    case 3
    from decode_multiD [OF 3(2) assms(2)] have d: "next_cont (Suc (Suc 0)) b (?x AND 0x0f) t = Inr (Some c, s')"
      "valid_code c" "\<not> c < 0x800" by (simp_all add: numeral_2_eq_2)
    from next_cont_SucD [OF d(1)] obtain y t1 where y: "t = y # t1" "ucast y AND (0xc0 :: u32) = 0x80"
      "next_cont (Suc 0) b (push_bit 6 (?x AND 0x0f) OR (ucast y AND 0x3f)) t1 = Inr (Some c, s')" by blast
    from next_cont_SucD [OF y(3)] obtain z t2 where z: "t1 = z # t2" "ucast z AND (0xc0 :: u32) = 0x80"
      "next_cont 0 b (push_bit 6 (push_bit 6 (?x AND 0x0f) OR (ucast y AND 0x3f)) OR (ucast z AND 0x3f)) t2 =
        Inr (Some c, s')" by blast
    then have e: "t1 = z # s'" "c = push_bit 6 (push_bit 6 (?x AND 0x0f) OR (ucast y AND 0x3f)) OR (ucast z AND 0x3f)"
      by simp_all
    from encode_3 [OF 3(1) y(2) z(2) e(2) d(3)] s y(1) e(1) d(2) show ?thesis by simp
  next
    case 4
    from decode_multiD [OF 4(2) assms(2)] have d: "next_cont (Suc (Suc (Suc 0))) b (?x AND 0x07) t = Inr (Some c, s')"
      "valid_code c" "\<not> c < 0x10000" by (simp_all add: numeral_3_eq_3)
    from next_cont_SucD [OF d(1)] obtain y t1 where y: "t = y # t1" "ucast y AND (0xc0 :: u32) = 0x80"
      "next_cont (Suc (Suc 0)) b (push_bit 6 (?x AND 0x07) OR (ucast y AND 0x3f)) t1 = Inr (Some c, s')" by blast
    from next_cont_SucD [OF y(3)] obtain z t2 where z: "t1 = z # t2" "ucast z AND (0xc0 :: u32) = 0x80"
      "next_cont (Suc 0) b (push_bit 6 (push_bit 6 (?x AND 0x07) OR (ucast y AND 0x3f)) OR (ucast z AND 0x3f)) t2 =
        Inr (Some c, s')" by blast
    let ?v = "push_bit 6 (push_bit 6 (push_bit 6 (?x AND 0x07) OR (ucast y AND 0x3f)) OR (ucast z AND 0x3f))"
    from next_cont_SucD [OF z(3)] obtain w t3 where w: "t2 = w # t3" "ucast w AND (0xc0 :: u32) = 0x80"
      "next_cont 0 b (?v OR (ucast w AND 0x3f)) t3 = Inr (Some c, s')" by blast
    then have e: "t2 = w # s'" "c = ?v OR (ucast w AND 0x3f)" by simp_all
    from encode_4 [OF 4(1) y(2) z(2) w(2) e(2) d(3)] s y(1) z(1) e(1) d(2) show ?thesis by simp
  qed
qed

section \<open>Conversions of whole strings\<close>

lemma ucast16:
  assumes "(c :: u32) < 0x10000"
  shows "(ucast (ucast c :: u16) :: u32) = c"
proof -
  have "\<not> bit c n" if "16 \<le> n" for n using small_bits [of c 16 n] assms that by simp
  then show ?thesis unfolding word32_eq_iff all_less_32 by (simp add: bit_simps)
qed

lemma ucast_ascii: "(w :: u16) < 0x80 \<Longrightarrow> (ucast w :: u32) < 0x80"
  by (simp add: word_less_def uint_up_ucast is_up)

lemma surrogates:
  assumes "c \<le> 0x10ffff" "0x10000 \<le> (c :: u32)"
  defines "h \<equiv> 0xd7c0 + drop_bit 10 c" and "l \<equiv> 0xdc00 + (c AND 0x3ff)"
  shows "0xd800 \<le> h \<and> h \<le> 0xdbff \<and> 0xdc00 \<le> l \<and> l \<le> 0xdfff"
    and "h * 1024 + l = c + 0x35fdc00"
proof -
  have "mask 10 = (0x3ff :: u32)" by (simp add: mask_eq_exp_minus_1)
  then have m: "c AND 0x3ff = c mod 1024" using take_bit_eq_mask [of 10 c] by (simp add: take_bit_eq_mod)
  have d: "drop_bit 10 c = c div 1024" by (simp add: drop_bit_eq_div)
  have n: "unat (c div 1024) = unat c div 1024" "unat (c mod 1024) = unat c mod 1024"
    by (simp_all only: unat_div unat_mod) simp_all
  have b: "unat c \<le> 0x10ffff" "0x10000 \<le> unat c" using assms(1,2) by (simp_all add: word_le_nat_alt)
  have "unat h = 0xd7c0 + unat c div 1024" unfolding h_def d
    using b by (subst unat_add_lem [THEN iffD1]) (simp_all add: n)
  moreover have "unat l = 0xdc00 + unat c mod 1024" unfolding l_def m
    using b by (subst unat_add_lem [THEN iffD1]) (simp_all add: n trans_less_add2)
  ultimately show "0xd800 \<le> h \<and> h \<le> 0xdbff \<and> 0xdc00 \<le> l \<and> l \<le> 0xdfff"
    using b by (simp add: word_le_nat_alt) linarith
  have "c div 1024 * 1024 + c mod 1024 = c" by (rule div_mult_mod_eq)
  then show "h * 1024 + l = c + 0x35fdc00" unfolding h_def l_def d m
    by (simp add: distrib_right add.commute add.left_commute)
qed

lemma next16_pair:
  assumes "c \<le> 0x10ffff" "0x10000 \<le> (c :: u32)"
  shows "\<exists>h l. utf16_units c = [h, l] \<and> \<not> h < 0x80 \<and> next16 h (l # s) = Inr (Some c, s)"
proof -
  define h l where "h = 0xd7c0 + drop_bit 10 c" and "l = 0xdc00 + (c AND 0x3ff)"
  note b = surrogates(1) [OF assms, folded h_def l_def] and e = surrogates(2) [OF assms, folded h_def l_def]
  have u: "utf16_units c = [ucast h, ucast l]"
    using assms(2) by (auto simp: utf16_units_def Let_def h_def l_def word_le_nat_alt word_less_nat_alt)
  have "h < 0x10000" "l < 0x10000" using b by (auto simp: word_le_nat_alt word_less_nat_alt)
  then have hl: "ucast (ucast h :: u16) = h" "ucast (ucast l :: u16) = l" by (simp_all add: ucast16)
  have n: "\<not> (ucast h :: u16) < 0x80"
  proof
    assume "(ucast h :: u16) < 0x80"
    then have "(ucast (ucast h :: u16) :: u32) < 0x80" by (rule ucast_ascii)
    with hl b show False by (auto simp: word_le_nat_alt word_less_nat_alt)
  qed
  have p: "push_bit 10 h = h * 1024" by (simp add: push_bit_eq_mult)
  have "\<not> l < 0xdc00" "\<not> l > 0xdfff" using b by auto
  then have "next16 (ucast h) (ucast l # s) = Inr (Some (push_bit 10 h + l + (0x10000 - push_bit 10 0xd800 - 0xdc00)), s)"
    using b by (simp add: next16_def hl)
  moreover have "push_bit 10 h + l + (0x10000 - push_bit 10 0xd800 - 0xdc00) = c"
    unfolding p e by simp
  ultimately show ?thesis using u n by simp
qed

lemma next16_single:
  assumes "valid_code c" "\<not> 0x10000 \<le> c" "\<not> (ucast c :: u16) < 0x80"
  shows "next16 (ucast c) s = Inr (Some c, s)"
proof -
  have "c < 0x10000" using assms(2) by simp
  then show ?thesis using assms(1)
    by (auto simp: next16_def ucast16 valid_code_def Let_def word_le_nat_alt word_less_nat_alt)
qed

lemma puts_fits: "int (length out + length xs) \<le> n \<Longrightarrow> puts n xs out = Inr (out @ xs)"
  by (induction xs arbitrary: out) (simp_all add: PUT_def)

lemma puts_full: "n < int (length out + length xs) \<Longrightarrow> int (length out) \<le> n \<Longrightarrow> puts n xs out = Inl (out @ take (nat n - length out) xs)"
proof (induction xs arbitrary: out)
  case (Cons x xs)
  show ?case
  proof (cases "int (length out) = n")
    case False
    then have "nat n - length out = Suc (nat n - Suc (length out))" using Cons.prems by linarith
    then show ?thesis using Cons.IH [of "out @ [x]"] Cons.prems False by (simp add: PUT_def)
  qed (simp add: PUT_def)
qed simp

lemma putUtf8_valid: "valid_code c \<Longrightarrow> int (length (utf8_units c)) \<le> n \<Longrightarrow> putUtf8 c n = (OK, utf8_units c)"
  using puts_fits [of "[]" "utf8_units c" n] by (auto simp: putUtf8_def valid_code_def)

abbreviation utf8_string :: "u32 list \<Rightarrow> u8 list" where "utf8_string cs \<equiv> concat (map utf8_units cs)"
abbreviation utf16_string :: "u32 list \<Rightarrow> u16 list" where "utf16_string cs \<equiv> concat (map utf16_units cs)"

definition text_codes :: "u32 list \<Rightarrow> bool" where
  "text_codes cs \<longleftrightarrow> (\<forall>c\<in>set cs. valid_code c \<and> c \<noteq> 0)"

lemma text_codes_Cons [simp]: "text_codes (c # cs) \<longleftrightarrow> valid_code c \<and> c \<noteq> 0 \<and> text_codes cs"
  by (auto simp: text_codes_def)

lemma decode_nul: "nextUtf8 b (0 # s) = Inr (0, s)"
  by (simp add: nextUtf8_def)

lemma utf8toutf16_string:
  "text_codes cs \<Longrightarrow> int (length (out @ utf16_string cs)) < n \<Longrightarrow>
     utf8toutf16_loop n (utf8_string cs @ 0 # rest) out =
       Inr (OK, int (length (out @ utf16_string cs)), out @ utf16_string cs @ [0])"
proof (induction cs arbitrary: out)
  case Nil
  then show ?case by (simp add: utf8toutf16_loop.simps decode_nul PUT_def)
next
  case (Cons c cs)
  then have "valid_code c" "c \<noteq> 0" by simp_all
  then show ?case
    using Cons.IH [of "out @ utf16_units c"] Cons.prems
    by (simp add: utf8toutf16_loop.simps [of n "utf8_units c @ s" for s] decode_units valid_not_invalid puts_fits)
qed

lemma utf16toutf8_step:
  assumes "valid_code c" "c \<noteq> 0" "int (length (out @ utf8_units c)) \<le> n"
  shows "utf16toutf8_loop n (utf16_units c @ s) out = utf16toutf8_loop n s (out @ utf8_units c)"
proof (cases "0x10000 \<le> c")
  case True
  with assms(1) next16_pair [of c s] obtain h l where u: "utf16_units c = [h, l]" "\<not> h < 0x80"
    "next16 h (l # s) = Inr (Some c, s)" by (auto simp: valid_code_def)
  have "h \<noteq> 0" using u(2) by auto
  with u assms show ?thesis
    by (simp add: utf16toutf8_loop.simps [of n "h # t" for t] putUtf8_valid)
next
  case False
  then have u: "utf16_units c = [ucast c]" by (auto simp: utf16_units_def word_le_nat_alt word_less_nat_alt)
  have c: "ucast (ucast c :: u16) = c" using False by (intro ucast16) simp
  have z: "(ucast c :: u16) \<noteq> 0" using c assms(2) by auto
  show ?thesis
  proof (cases "(ucast c :: u16) < 0x80")
    case True
    then have "(ucast (ucast c :: u16) :: u32) < 0x80" by (rule ucast_ascii)
    then have u8: "utf8_units c = [ucast c]" using c by (simp add: utf8_units_def)
    have "(ucast (ucast c :: u16) :: u8) = ucast c" by (simp add: word8_eq_iff all_less_8 bit_simps)
    with True z u u8 assms(3) show ?thesis
      by (simp add: utf16toutf8_loop.simps [of n "ucast c # t" for t] PUT_def)
  next
    case F: False
    from F z u assms show ?thesis
      by (simp add: utf16toutf8_loop.simps [of n "ucast c # t" for t] putUtf8_valid next16_single [OF assms(1) False F])
  qed
qed

lemma utf16toutf8_string:
  "text_codes cs \<Longrightarrow> int (length (out @ utf8_string cs)) < n \<Longrightarrow>
     utf16toutf8_loop n (utf16_string cs @ 0 # rest) out =
       Inr (OK, int (length (out @ utf8_string cs)), out @ utf8_string cs @ [0])"
proof (induction cs arbitrary: out)
  case Nil
  then show ?case by (simp add: utf16toutf8_loop.simps PUT_def)
next
  case (Cons c cs)
  then show ?case using Cons.IH [of "out @ utf8_units c"] utf16toutf8_step [of c out n "utf16_string cs @ 0 # rest"]
    by simp
qed

text \<open>Validation reads a string up to its terminator, and never past it.\<close>

lemma next_cont_nul:
  "0 \<in> set s \<Longrightarrow> \<exists>r s'. next_cont n b c s = Inr (r, s') \<and> (r = None \<or> 0 \<in> set s')"
  by (induction n b c s rule: next_cont.induct) (auto simp: Let_def)

lemma decode_multi_nul:
  "0 \<in> set s \<Longrightarrow> \<exists>d s'. decode_multi n b c s = Inr (d, s') \<and> (d = invalid \<or> 0 \<in> set s')"
  using next_cont_nul [of s n b c] by (auto simp: decode_multi_def)

lemma nextUtf8_nul:
  assumes "0 \<in> set s"
  shows "\<exists>c s'. nextUtf8 b s = Inr (c, s') \<and> (c = 0 \<or> c = invalid \<or> 0 \<in> set s')"
proof (cases s)
  case (Cons x t)
  show ?thesis
  proof (cases "x = 0")
    case False
    with assms Cons have "0 \<in> set t" by simp
    then show ?thesis using decode_multi_nul [of t] Cons by (fastforce simp: nextUtf8_def Let_def)
  qed (simp add: Cons decode_nul)
qed (use assms in simp)

lemma validate_total: "0 \<in> set s \<Longrightarrow> \<exists>v. validate_loop len s = Inr v"
proof (induction len s rule: validate_loop.induct)
  case (1 len s)
  obtain c s' where c: "nextUtf8 False s = Inr (c, s')" "c = 0 \<or> c = invalid \<or> 0 \<in> set s'"
    using nextUtf8_nul [OF 1(2)] by blast
  then show ?case using 1(1) [OF c(1) refl] by (subst validate_loop.simps) auto
qed

lemma utf8_units_nonempty: "utf8_units c \<noteq> []"
  by (simp add: utf8_units_def)

lemma validate_sound:
  "validate_loop len s = Inr (True, k) \<Longrightarrow> \<exists>cs rest. text_codes cs \<and> s = utf8_string cs @ 0 # rest \<and> k = len - length rest"
proof (induction len s rule: validate_loop.induct)
  case (1 len s)
  from 1(2) obtain c s' where c: "nextUtf8 False s = Inr (c, s')"
    by (subst (asm) validate_loop.simps) (auto split: sum.splits)
  have ne: "s \<noteq> []" using c by (auto simp: nextUtf8_def)
  have ci: "c \<noteq> invalid" using 1(2) c by (subst (asm) validate_loop.simps) (auto simp: invalid_def)
  note d = decode_canonical [OF c ci ne]
  show ?case
  proof (cases "c = 0")
    case True
    then have "s = 0 # s'" "k = len - length s'" using d 1(2) c
      by (simp_all add: utf8_units_def validate_loop.simps)
    then show ?thesis by (intro exI [of _ "[]"] exI [of _ s']) (simp add: text_codes_def)
  next
    case False
    then have "validate_loop len s' = Inr (True, k)" using 1(2) c ci by (simp add: validate_loop.simps [of len s])
    from 1(1) [OF c refl False ci this] obtain cs rest where "text_codes cs" "s' = utf8_string cs @ 0 # rest"
      "k = len - length rest" by blast
    then show ?thesis using d False by (intro exI [of _ "c # cs"] exI [of _ rest]) simp
  qed
qed

lemma validate_complete: "text_codes cs \<Longrightarrow> validate_loop len (utf8_string cs @ 0 # rest) = Inr (True, len - length rest)"
proof (induction cs)
  case (Cons c cs)
  then show ?case
    by (simp add: validate_loop.simps [of len "utf8_units c @ s" for s] decode_units valid_not_invalid)
qed (simp add: validate_loop.simps decode_nul)

section \<open>Properties\<close>

text \<open>Encoding and decoding of a code point are inverse: on a string that is not empty \<open>nextUtf8\<close> returns a code point \<open>c\<close>
  other than \<open>invalid\<close> and stops at \<open>s'\<close> exactly when the string is the UTF-8 encoding of \<open>c\<close>, as \<open>putUtf8\<close>
  writes it, followed by \<open>s'\<close>, and \<open>c\<close> is not a surrogate and is in the range of Unicode. So overlong
  encodings, stray continuation bytes and surrogates are refused, and \<open>putUtf8\<close> with room for the bytes writes what
  is decoded back.
\<close>

theorem utf8_code_point_round_trip:
  assumes "s \<noteq> []"
  shows "nextUtf8 b s = Inr (c, s') \<and> c \<noteq> invalid \<longleftrightarrow>
      c \<le> 0x10ffff \<and> \<not> (0xd800 \<le> c \<and> c \<le> 0xdfff) \<and>
      (\<exists>u. putUtf8 c 4 = (OK, u) \<and> s = u @ s')"
proof -
  have "int (length (utf8_units c)) \<le> 4" by (simp add: utf8_units_def)
  then have "valid_code c \<Longrightarrow> putUtf8 c 4 = (OK, utf8_units c)" by (rule putUtf8_valid [rotated])
  moreover have "nextUtf8 b s = Inr (c, s') \<and> c \<noteq> invalid \<longleftrightarrow> valid_code c \<and> s = utf8_units c @ s'"
    using decode_canonical [OF _ _ assms] decode_units [of c b s'] valid_not_invalid by blast
  ultimately show ?thesis unfolding valid_code_def by auto
qed

theorem utf8_code_point_round_trip_witness:
  "nextUtf8 False [0xe2, 0x82, 0xac, 0x41] = Inr (0x20ac, [0x41])"
proof -
  have "putUtf8 0x20ac 4 = (OK, [0xe2, 0x82, 0xac])" by code_simp
  then show ?thesis
    using utf8_code_point_round_trip [where b = False and s = "[0xe2, 0x82, 0xac, 0x41]" and c = "0x20ac" and s' = "[0x41]"] by simp
qed

text \<open>C40. A string of code points goes through \<open>utf8toutf16\<close> and \<open>utf16toutf8\<close> unchanged: for code points that are
  valid and not zero, and a destination with room for the terminator, each conversion returns \<open>OK\<close>, the length of the
  result, and the encoding of the same code points with its terminator; what follows the terminator is not read.
\<close>

theorem utf8_utf16_string_round_trip:
  assumes "\<forall>c\<in>set cs. valid_code c \<and> c \<noteq> 0"
    and "int (length (concat (map utf16_units cs))) < n" and "int (length (concat (map utf8_units cs))) < m"
  shows "utf8toutf16 n (concat (map utf8_units cs) @ 0 # rest) =
      Inr (OK, int (length (concat (map utf16_units cs))), concat (map utf16_units cs) @ [0])
    \<and> utf16toutf8 m (concat (map utf16_units cs) @ 0 # rest') =
      Inr (OK, int (length (concat (map utf8_units cs))), concat (map utf8_units cs) @ [0])"
  using assms utf8toutf16_string [of cs "[]" n rest] utf16toutf8_string [of cs "[]" m rest']
  by (simp add: text_codes_def utf8toutf16_def utf16toutf8_def)

theorem utf8_utf16_string_round_trip_witness:
  "utf8toutf16 4 [0x41, 0xf0, 0x9f, 0x98, 0x80, 0] = Inr (OK, 3, [0x41, 0xd83d, 0xde00, 0])
    \<and> utf16toutf8 6 [0x41, 0xd83d, 0xde00, 0, 7] = Inr (OK, 5, [0x41, 0xf0, 0x9f, 0x98, 0x80, 0])"
proof -
  have u: "utf8_units 0x41 = [0x41]" "utf8_units 0x1f600 = [0xf0, 0x9f, 0x98, 0x80]"
    "utf16_units 0x41 = [0x41]" "utf16_units 0x1f600 = [0xd83d, 0xde00]"
    and v: "valid_code 0x41" "valid_code 0x1f600" by code_simp+
  show ?thesis
    using utf8_utf16_string_round_trip [of "[0x41, 0x1f600]" 4 6 "[]" "[7]"] v by (simp add: u)
qed

text \<open>\<open>validateUtf8\<close> terminates on every string that has a terminator without reading past it, and accepts exactly
  the UTF-8 encodings of valid code points other than zero; the length it returns counts the terminator.
\<close>

theorem validate_accepts_encodings:
  assumes "0 \<in> set s"
  shows "(\<exists>v. validateUtf8 s = Inr v)
    \<and> (validateUtf8 s = Inr (True, k) \<longleftrightarrow>
        (\<exists>cs rest. (\<forall>c\<in>set cs. valid_code c \<and> c \<noteq> 0) \<and> s = concat (map utf8_units cs) @ 0 # rest \<and>
           k = length (concat (map utf8_units cs)) + 1))"
proof -
  have "validateUtf8 s = Inr (True, k) \<longleftrightarrow>
      (\<exists>cs rest. text_codes cs \<and> s = utf8_string cs @ 0 # rest \<and> k = length s - length rest)"
    unfolding validateUtf8_def using validate_sound validate_complete by metis
  moreover have "length s - length rest = length (utf8_string cs) + 1" if "s = utf8_string cs @ 0 # rest" for cs rest
    unfolding that by simp
  ultimately show ?thesis using validate_total [OF assms, of "length s"]
    unfolding text_codes_def validateUtf8_def by metis
qed

theorem validate_accepts_encodings_witness:
  "validateUtf8 [0x41, 0xc3, 0xa9, 0] = Inr (True, 4)"
proof -
  have u: "utf8_units 0x41 = [0x41]" "utf8_units 0xe9 = [0xc3, 0xa9]" and v: "valid_code 0x41" "valid_code 0xe9"
    by code_simp+
  have "(\<exists>cs rest. (\<forall>c\<in>set cs. valid_code c \<and> c \<noteq> 0) \<and>
      [0x41, 0xc3, 0xa9, 0] = concat (map utf8_units cs) @ 0 # rest \<and> 4 = length (concat (map utf8_units cs)) + 1)"
    by (intro exI [of _ "[0x41, 0xe9]"] exI [of _ "[]"]) (simp add: u v)
  then show ?thesis using validate_accepts_encodings [of "[0x41, 0xc3, 0xa9, 0]" 4] by simp
qed

end
