(* ===== verification/Path_Resolution.thy ===== *)
theory Path_Resolution
  imports Miosix_Prelude "HOL-Library.Sublist"
begin

text \<open>
  Path resolution (\<^verbatim>\<open>class PathResolution\<close> of \<^verbatim>\<open>filesystem/file_access.cpp\<close>): an absolute path is normalised in
  place, component by component, while the filesystem it belongs to is looked up in the table of the mounted
  filesystems and symbolic links are followed. The string is the list of its characters and positions into it are
  natural numbers; every subtraction of the code is on a position that is large enough, so none wraps around.

  The filesystems are the values of a type \<open>'f\<close>, and what resolution asks of them (\<^verbatim>\<open>supportsSymlinks\<close>,
  \<^verbatim>\<open>lstat\<close>, \<^verbatim>\<open>readlink\<close>, virtual functions of \<^verbatim>\<open>FilesystemBase\<close>) is a record of functions. The in-place
  substrings \<^verbatim>\<open>StringPart(path,idx,off)\<close> are the substrings they stand for.

  The specification \<open>walk\<close> works on the stack of the components resolved so far instead of on positions of a
  string, and finds the filesystem of a path as the longest prefix that is mounted.
\<close>

section \<open>Strings\<close>

abbreviation slash_char :: char where "slash_char \<equiv> CHR ''/''"
abbreviation dot_char :: char where "dot_char \<equiv> CHR ''.''"

text \<open>\<^verbatim>\<open>string::find_first_of\<close>, \<^verbatim>\<open>find_last_of\<close> and \<^verbatim>\<open>erase\<close>; \<open>None\<close> is \<^verbatim>\<open>npos\<close>.\<close>

definition find_first_of :: "char \<Rightarrow> string \<Rightarrow> nat \<Rightarrow> nat option" where
  "find_first_of c s i =
     (let n = i + length (takeWhile (\<lambda>x. x \<noteq> c) (drop i s)) in if n < length s then Some n else None)"

fun find_last_of :: "char \<Rightarrow> string \<Rightarrow> nat \<Rightarrow> nat option" where
  "find_last_of c s 0 = (if s \<noteq> [] \<and> hd s = c then Some 0 else None)"
| "find_last_of c s (Suc i) = (if Suc i < length s \<and> s ! Suc i = c then Some (Suc i) else find_last_of c s i)"

definition erase_at :: "string \<Rightarrow> nat \<Rightarrow> nat \<Rightarrow> string" where
  "erase_at s i n = take i s @ drop (i + n) s"

definition part :: "string \<Rightarrow> nat \<Rightarrow> nat \<Rightarrow> string" where
  "part s idx off = drop off (take idx s)"

lemma find_last_of_le: "find_last_of c s i = Some j \<Longrightarrow> j \<le> i"
  by (induction c s i rule: find_last_of.induct) (auto split: if_splits)

section \<open>Errors, files and filesystems\<close>

abbreviation (input) ENOENT :: int where "ENOENT \<equiv> 2"
abbreviation (input) EBADF :: int where "EBADF \<equiv> 9"
abbreviation (input) EACCES :: int where "EACCES \<equiv> 13"
abbreviation (input) EFAULT :: int where "EFAULT \<equiv> 14"
abbreviation (input) EBUSY :: int where "EBUSY \<equiv> 16"
abbreviation (input) EEXIST :: int where "EEXIST \<equiv> 17"
abbreviation (input) EXDEV :: int where "EXDEV \<equiv> 18"
abbreviation (input) ENOTDIR :: int where "ENOTDIR \<equiv> 20"
abbreviation (input) EINVAL :: int where "EINVAL \<equiv> 22"
abbreviation (input) ENFILE :: int where "ENFILE \<equiv> 23"
abbreviation (input) ERANGE :: int where "ERANGE \<equiv> 34"
abbreviation (input) ENAMETOOLONG :: int where "ENAMETOOLONG \<equiv> 91"
abbreviation (input) ELOOP :: int where "ELOOP \<equiv> 92"

abbreviation (input) PATH_MAX :: nat where "PATH_MAX \<equiv> 1024"

text \<open>The fields of \<^verbatim>\<open>struct stat\<close> the kernel reads, and the file type macros of \<^verbatim>\<open>sys/stat.h\<close>.\<close>

record stat =
  st_dev :: int
  st_ino :: int
  st_mode :: u32

definition S_ISDIR :: "u32 \<Rightarrow> bool" where "S_ISDIR m \<longleftrightarrow> and m 0xf000 = 0x4000"
definition S_ISLNK :: "u32 \<Rightarrow> bool" where "S_ISLNK m \<longleftrightarrow> and m 0xf000 = 0xa000"

record 'f fs_view =
  supportsSymlinks :: "'f \<Rightarrow> bool"
  fs_lstat :: "'f \<Rightarrow> string \<Rightarrow> int \<times> stat"
  fs_readlink :: "'f \<Rightarrow> string \<Rightarrow> int \<times> string"

type_synonym 'f mounts = "string \<Rightarrow> 'f option"

section \<open>The resolution\<close>

record 'f path_resolution =
  pr_root :: 'f
  pr_fs :: 'f
  syms :: bool
  index :: nat
  indexIntoFs :: nat
  depthIntoFs :: int
  linksFollowed :: int

abbreviation (input) maxLinkToFollow :: int where "maxLinkToFollow \<equiv> 2"

function find_fs_loop :: "'f fs_view \<Rightarrow> 'f mounts \<Rightarrow> string \<Rightarrow> nat \<Rightarrow> 'f path_resolution \<Rightarrow> int \<times> 'f path_resolution" where
  "find_fs_loop V M path backIndex p =
     (case find_last_of slash_char path (backIndex - 1) of
        None \<Rightarrow> (- ENOENT, p)
      | Some b \<Rightarrow>
          if b = 0 then (0, p\<lparr>pr_fs := pr_root p, indexIntoFs := 1, syms := supportsSymlinks V (pr_root p)\<rparr>)
          else case M (part path b 0) of
            Some f \<Rightarrow> (0, p\<lparr>pr_fs := f, indexIntoFs := b + 1, syms := supportsSymlinks V f\<rparr>)
          | None \<Rightarrow> find_fs_loop V M path b (p\<lparr>depthIntoFs := depthIntoFs p + 1\<rparr>))"
  by pat_completeness auto

termination find_fs_loop
proof (relation "measure (\<lambda>(_, _, _, b, _). b)", goal_cases)
  case (2 V M path backIndex p b)
  then show ?case using find_last_of_le [OF 2(1)] by simp
qed simp

declare find_fs_loop.simps [simp del]

definition recursiveFindFs :: "'f fs_view \<Rightarrow> 'f mounts \<Rightarrow> string \<Rightarrow> 'f path_resolution \<Rightarrow> int \<times> 'f path_resolution" where
  "recursiveFindFs V M path p = find_fs_loop V M path (index p) (p\<lparr>depthIntoFs := 1\<rparr>)"

text \<open>
  A negative result of \<^verbatim>\<open>lstat\<close> or \<^verbatim>\<open>readlink\<close> is turned into 1, the value of the comparison in
  \<^verbatim>\<open>if(int res=fs->lstat(sp,&st)<0) return res\<close>, which the caller does not take for an error. \<open>keep\<close> is
  \<^verbatim>\<open>removeStart+1\<close>, which is zero when the slash is not found.
\<close>

definition followSymlink :: "'f fs_view \<Rightarrow> string \<Rightarrow> 'f path_resolution \<Rightarrow> int \<times> string \<times> 'f path_resolution" where
  "followSymlink V path p =
     (let p = p\<lparr>linksFollowed := linksFollowed p + 1\<rparr> in
      if linksFollowed p \<ge> maxLinkToFollow then (- ELOOP, path, p)
      else
        let (res, target) = fs_readlink V (pr_fs p) (part path (index p - 1) (indexIntoFs p)) in
        if res < 0 then (1, path, p)
        else if target = [] then (- ENOENT, path, p)
        else if hd target = slash_char then
          if length target + length path + 1 - index p > PATH_MAX then (- ENAMETOOLONG, path, p)
          else (0, target @ (if index p \<le> length path then drop (index p - 1) path else []),
                p\<lparr>pr_fs := pr_root p, syms := supportsSymlinks V (pr_root p), index := 1, indexIntoFs := 1,
                  depthIntoFs := 1\<rparr>)
        else
          let keep = (case find_last_of slash_char path (index p - 2) of None \<Rightarrow> 0 | Some removeStart \<Rightarrow> removeStart + 1) in
          if length path - (index p - keep - 1) + length target > PATH_MAX then (- ENAMETOOLONG, path, p)
          else (0, take keep path @ target @ (if index p \<le> length path then drop (index p - 1) path else []),
                p\<lparr>index := keep, depthIntoFs := depthIntoFs p - 1\<rparr>))"

definition normalPathComponent ::
  "'f fs_view \<Rightarrow> 'f mounts \<Rightarrow> string \<Rightarrow> bool \<Rightarrow> 'f path_resolution \<Rightarrow> int \<times> string \<times> 'f path_resolution" where
  "normalPathComponent V M path followIfSymlink p =
     (case M (part path (index p - 1) 0) of
        Some f \<Rightarrow>
          (0, path, p\<lparr>pr_fs := f, syms := supportsSymlinks V f,
             indexIntoFs := if index p > length path then index p - 1 else index p, depthIntoFs := 1\<rparr>)
      | None \<Rightarrow>
          let p = p\<lparr>depthIntoFs := depthIntoFs p + 1\<rparr> in
          if syms p \<and> followIfSymlink then
            let (res, st) = fs_lstat V (pr_fs p) (part path (index p - 1) (indexIntoFs p)) in
            if res < 0 then (1, path, p)
            else if S_ISLNK (st_mode st) then followSymlink V path p
            else if index p \<le> length path \<and> \<not> S_ISDIR (st_mode st) then (- ENOTDIR, path, p)
            else (0, path, p)
          else (0, path, p))"

definition upPathComponent ::
  "'f fs_view \<Rightarrow> 'f mounts \<Rightarrow> string \<Rightarrow> nat \<Rightarrow> 'f path_resolution \<Rightarrow> int \<times> string \<times> 'f path_resolution" where
  "upPathComponent V M path slash p =
     (if index p \<le> 1 then (- ENOENT, path, p)
      else case find_last_of slash_char path (index p - 2) of
        None \<Rightarrow> (- ENOENT, path, p)
      | Some removeStart \<Rightarrow>
          let path = erase_at path removeStart (slash - removeStart);
              p = p\<lparr>index := removeStart + 1\<rparr>;
              path = (if path = [] then [slash_char] else path);
              p = p\<lparr>indexIntoFs := if indexIntoFs p > length path then length path else indexIntoFs p,
                     depthIntoFs := depthIntoFs p - 1\<rparr>
          in if depthIntoFs p > 0 then (0, path, p)
             else let (res, p) = recursiveFindFs V M path p in (res, path, p))"

text \<open>One iteration of the loop, and what is done after the last component.\<close>

definition resolve_step ::
  "'f fs_view \<Rightarrow> 'f mounts \<Rightarrow> bool \<Rightarrow> string \<Rightarrow> 'f path_resolution \<Rightarrow> int \<times> string \<times> 'f path_resolution" where
  "resolve_step V M followLastSymlink path p =
     (let i = index p; slash = (case find_first_of slash_char path i of None \<Rightarrow> length path | Some s \<Rightarrow> s) in
      if slash = i then (0, erase_at path i 1, p)
      else if slash - i = 1 \<and> path ! i = dot_char then (0, erase_at path i 2, p)
      else if slash - i = 2 \<and> path ! i = dot_char \<and> path ! (i + 1) = dot_char then upPathComponent V M path slash p
      else
        let p = p\<lparr>index := slash + 1\<rparr>;
            follow = (if index p > length path then followLastSymlink else True)
        in normalPathComponent V M path follow p)"

definition resolve_end :: "string \<Rightarrow> 'f path_resolution \<Rightarrow> string \<times> 'f path_resolution" where
  "resolve_end path p =
     (if path \<noteq> [] \<and> last path = slash_char then
        let path = butlast path
        in (path, p\<lparr>indexIntoFs := if indexIntoFs p > length path then length path else indexIntoFs p\<rparr>)
      else (path, p))"

type_synonym 'f resolved = "(int + 'f \<times> nat) \<times> string"

lemma find_first_of_bounds: "find_first_of c s i = Some n \<Longrightarrow> i \<le> n \<and> n < length s"
  by (auto simp: find_first_of_def Let_def split: if_splits)

lemma find_fs_loop_frame:
  "find_fs_loop V M path b p = (r, p') \<Longrightarrow>
     index p' = index p \<and> linksFollowed p' = linksFollowed p \<and> pr_root p' = pr_root p"
proof (induction V M path b p rule: find_fs_loop.induct)
  case (1 V M path b p)
  show ?case
  proof (cases "find_last_of slash_char path (b - 1)")
    case None
    then show ?thesis using 1(2) by (simp add: find_fs_loop.simps)
  next
    case (Some c)
    show ?thesis
    proof (cases "c = 0 \<or> M (part path c 0) \<noteq> None")
      case True
      then show ?thesis using 1(2) Some by (auto simp: find_fs_loop.simps [of V M path b p] split: if_splits)
    next
      case False
      then show ?thesis using 1(1) [OF Some] 1(2) Some by (simp add: find_fs_loop.simps [of V M path b p])
    qed
  qed
qed

lemma up_frame:
  assumes "upPathComponent V M path slash p = (r, path', p')" "\<not> r < 0"
  obtains rs where "1 < index p" "find_last_of slash_char path (index p - 2) = Some rs" "index p' = rs + 1"
    "linksFollowed p' = linksFollowed p"
    "path' = (if erase_at path rs (slash - rs) = [] then [slash_char] else erase_at path rs (slash - rs))"
  using assms that
  by (auto simp: upPathComponent_def Let_def recursiveFindFs_def split: if_splits option.splits prod.splits
      dest!: find_fs_loop_frame)

lemma follow_links: "followSymlink V path p = (r, path', p') \<Longrightarrow> \<not> r < 0 \<Longrightarrow>
    linksFollowed p' = linksFollowed p + 1 \<and> linksFollowed p' < maxLinkToFollow"
  by (auto simp: followSymlink_def Let_def split: if_splits prod.splits)

lemma normal_frame:
  assumes "normalPathComponent V M path f p = (r, path', p')" "\<not> r < 0"
  shows "linksFollowed p' = linksFollowed p + 1 \<and> linksFollowed p' < maxLinkToFollow \<or>
    linksFollowed p' = linksFollowed p \<and> path' = path \<and> index p' = index p"
  using assms
  by (auto simp: normalPathComponent_def Let_def split: if_splits option.splits prod.splits dest!: follow_links)

lemma if_chain3D:
  "(if A then a else if B then b else if C then c else d) = r \<Longrightarrow> A \<and> a = r \<or> B \<and> b = r \<or> C \<and> c = r \<or> d = r"
  by (simp split: if_splits)

lemma step_measure:
  assumes "resolve_step V M f path p = (r, path', p')" "\<not> r < 0" "\<not> length path' \<le> index p'"
  shows "nat (maxLinkToFollow - linksFollowed p') < nat (maxLinkToFollow - linksFollowed p) \<or>
    linksFollowed p' = linksFollowed p \<and> length path' - index p' < length path - index p"
proof -
  define sl where "sl = (case find_first_of slash_char path (index p) of None \<Rightarrow> length path | Some s \<Rightarrow> s)"
  have sl: "sl = length path \<or> index p \<le> sl \<and> sl < length path"
    using find_first_of_bounds unfolding sl_def by (auto split: option.splits)
  consider (empty) "sl = index p" "path' = erase_at path (index p) 1" "p' = p"
    | (dot) "sl - index p = 1" "path' = erase_at path (index p) 2" "p' = p"
    | (up) "sl - index p = 2" "upPathComponent V M path sl p = (r, path', p')"
    | (normal) g where "normalPathComponent V M path g (p\<lparr>index := sl + 1\<rparr>) = (r, path', p')"
  proof -
    from assms(1) have "sl = index p \<and> (0, erase_at path (index p) 1, p) = (r, path', p') \<or>
        (sl - index p = 1 \<and> path ! index p = dot_char) \<and> (0, erase_at path (index p) 2, p) = (r, path', p') \<or>
        (sl - index p = 2 \<and> path ! index p = dot_char \<and> path ! (index p + 1) = dot_char) \<and>
          upPathComponent V M path sl p = (r, path', p') \<or>
        normalPathComponent V M path (if index (p\<lparr>index := sl + 1\<rparr>) > length path then f else True)
          (p\<lparr>index := sl + 1\<rparr>) = (r, path', p')"
      unfolding resolve_step_def sl_def [symmetric] Let_def by (rule if_chain3D)
    then show thesis
    proof (elim disjE conjE, goal_cases)
      case 1
      then show ?case by (intro empty) auto
    next
      case 2
      then show ?case by (intro dot) auto
    next
      case 3
      then show ?case by (intro up)
    next
      case 4
      then show ?case by (rule normal)
    qed
  qed
  then show ?thesis
  proof cases
    case empty
    then show ?thesis using assms(3) sl by (auto simp: erase_at_def)
  next
    case dot
    then show ?thesis using assms(3) sl by (auto simp: erase_at_def)
  next
    case up
    from up_frame [OF up(2) assms(2)] obtain rs where rs: "1 < index p"
      "find_last_of slash_char path (index p - 2) = Some rs" "index p' = rs + 1" "linksFollowed p' = linksFollowed p"
      "path' = (if erase_at path rs (sl - rs) = [] then [slash_char] else erase_at path rs (sl - rs))" by blast
    have "rs \<le> index p - 2" by (rule find_last_of_le [OF rs(2)])
    then show ?thesis using up(1) rs assms(3) sl by (auto simp: erase_at_def split: if_splits)
  next
    case normal
    from normal_frame [OF this assms(2)] show ?thesis using assms(3) sl by auto
  qed
qed

function resolve_loop :: "'f fs_view \<Rightarrow> 'f mounts \<Rightarrow> bool \<Rightarrow> string \<Rightarrow> 'f path_resolution \<Rightarrow> 'f resolved" where
  "resolve_loop V M followLastSymlink path p =
     (case resolve_step V M followLastSymlink path p of (result, path', p') \<Rightarrow>
        if result < 0 then (Inl result, path')
        else if index p' \<ge> length path' then
          (case resolve_end path' p' of (path'', p'') \<Rightarrow> (Inr (pr_fs p'', indexIntoFs p''), path''))
        else resolve_loop V M followLastSymlink path' p')"
  by pat_completeness auto

termination resolve_loop
proof (relation "(\<lambda>(_, _, _, path, p). nat (maxLinkToFollow - linksFollowed p)) <*mlex*>
    measure (\<lambda>(_, _, _, path, p). length path - index p)", goal_cases)
  case 1
  show ?case by (intro wf_mlex wf_measure)
next
  case (2 V M f path p r y path' p')
  then show ?case using step_measure [of V M f path p r path' p'] by (auto simp: mlex_prod_def)
qed

declare resolve_loop.simps [simp del]

definition pr_resolvePath :: "'f fs_view \<Rightarrow> 'f mounts \<Rightarrow> string \<Rightarrow> bool \<Rightarrow> 'f resolved" where
  "pr_resolvePath V M path followLastSymlink =
     (case M [slash_char] of
        None \<Rightarrow> (Inl (- ENOENT), path)
      | Some f \<Rightarrow> resolve_loop V M followLastSymlink path
          \<lparr>pr_root = f, pr_fs = f, syms = supportsSymlinks V f, index = 1, indexIntoFs = 1, depthIntoFs = 1,
           linksFollowed = 0\<rparr>)"

text \<open>\<^verbatim>\<open>FilesystemManager::resolvePath\<close>.\<close>

definition resolvePath :: "'f fs_view \<Rightarrow> 'f mounts \<Rightarrow> string \<Rightarrow> bool \<Rightarrow> 'f resolved" where
  "resolvePath V M path followLastSymlink =
     (if length path > PATH_MAX then (Inl (- ENAMETOOLONG), path)
      else if path = [] \<or> hd path \<noteq> slash_char then (Inl (- ENOENT), path)
      else pr_resolvePath V M path followLastSymlink)"

section \<open>The specification\<close>

text \<open>
  A path that is being resolved is a stack of components and the rest of the string. \<open>path_of\<close> is the canonical
  path of a stack, and \<open>dir_of\<close> the same with a trailing slash, a prefix of every path below it.
\<close>

definition path_of :: "string list \<Rightarrow> string" where
  "path_of cs = concat (map (Cons slash_char) cs)"

definition dir_of :: "string list \<Rightarrow> string" where
  "dir_of cs = path_of cs @ [slash_char]"

text \<open>The longest prefix of at most \<open>n\<close> components where a filesystem is mounted, which is the root if there is no other.\<close>

fun mount_len :: "'f mounts \<Rightarrow> string list \<Rightarrow> nat \<Rightarrow> nat" where
  "mount_len M cs 0 = 0"
| "mount_len M cs (Suc n) = (if M (path_of (take (Suc n) cs)) \<noteq> None then Suc n else mount_len M cs n)"

definition mount_prefix :: "'f mounts \<Rightarrow> string list \<Rightarrow> nat" where
  "mount_prefix M cs = mount_len M cs (length cs)"

definition fs_at :: "'f mounts \<Rightarrow> string list \<Rightarrow> nat \<Rightarrow> 'f" where
  "fs_at M cs n = the (M (if n = 0 then [slash_char] else path_of (take n cs)))"

text \<open>The path of a stack relative to the filesystem it belongs to.\<close>

definition relative_path :: "string list \<Rightarrow> nat \<Rightarrow> string" where
  "relative_path cs n = drop 1 (path_of (drop n cs))"

text \<open>
  One component: the new stack, rest of the path and number of links followed. A component that cannot be inspected
  is kept, since the operation on the resolved path reports the error.
\<close>

definition walk_link :: "'f fs_view \<Rightarrow> 'f \<Rightarrow> string list \<Rightarrow> string \<Rightarrow> string \<Rightarrow> string \<Rightarrow> int \<Rightarrow>
    int + string list \<times> string \<times> int" where
  "walk_link V f stack c rel left links =
     (if links + 1 \<ge> maxLinkToFollow then Inl (- ELOOP)
      else case fs_readlink V f rel of (res, target) \<Rightarrow>
        if res < 0 then Inr (stack @ [c], drop 1 left, links + 1)
        else if target = [] then Inl (- ENOENT)
        else if hd target = slash_char then
          (if length target + length left > PATH_MAX then Inl (- ENAMETOOLONG)
           else Inr ([], drop 1 target @ left, links + 1))
        else if length (dir_of stack) + length target + length left > PATH_MAX then Inl (- ENAMETOOLONG)
        else Inr (stack, target @ left, links + 1))"

definition walk_step :: "'f fs_view \<Rightarrow> 'f mounts \<Rightarrow> bool \<Rightarrow> string list \<Rightarrow> string \<Rightarrow> int \<Rightarrow>
    int + string list \<times> string \<times> int" where
  "walk_step V M followLast stack rest links =
     (let c = takeWhile (\<lambda>x. x \<noteq> slash_char) rest; left = dropWhile (\<lambda>x. x \<noteq> slash_char) rest in
      if c = [] \<or> c = [dot_char] then Inr (stack, drop 1 left, links)
      else if c = [dot_char, dot_char] then (if stack = [] then Inl (- ENOENT) else Inr (butlast stack, drop 1 left, links))
      else
        let stack' = stack @ [c]; n = mount_prefix M stack; f = fs_at M stack n; rel = relative_path stack' n in
        if M (path_of stack') \<noteq> None \<or> \<not> supportsSymlinks V f \<or> (left = [] \<and> \<not> followLast)
        then Inr (stack', drop 1 left, links)
        else case fs_lstat V f rel of (res, st) \<Rightarrow>
          if res < 0 then Inr (stack', drop 1 left, links)
          else if S_ISLNK (st_mode st) then walk_link V f stack c rel left links
          else if left \<noteq> [] \<and> \<not> S_ISDIR (st_mode st) then Inl (- ENOTDIR)
          else Inr (stack', drop 1 left, links))"

function walk :: "'f fs_view \<Rightarrow> 'f mounts \<Rightarrow> bool \<Rightarrow> string list \<Rightarrow> string \<Rightarrow> int \<Rightarrow> int + string list" where
  "walk V M followLast stack rest links =
     (case walk_step V M followLast stack rest links of
        Inl e \<Rightarrow> Inl e
      | Inr (stack', rest', links') \<Rightarrow>
          if rest' = [] then Inr stack' else walk V M followLast stack' rest' links')"
  by pat_completeness auto

lemma drop1_dropWhile_less: "rest \<noteq> [] \<Longrightarrow> length (drop 1 (dropWhile P rest)) < length rest"
  using length_dropWhile_le [of P rest] by (cases rest) auto

lemma walk_step_measure:
  assumes "walk_step V M f stack rest links = Inr (stack', rest', links')" "rest' \<noteq> []"
  shows "nat (maxLinkToFollow - links') < nat (maxLinkToFollow - links) \<or> links' = links \<and> length rest' < length rest"
proof -
  have "links' = links \<and> rest' = drop 1 (dropWhile (\<lambda>x. x \<noteq> slash_char) rest) \<or> links' = links + 1 \<and> links' < maxLinkToFollow"
    using assms(1) by (auto simp: walk_step_def walk_link_def Let_def split: if_splits prod.splits)
  moreover have "rest \<noteq> []" if "rest' = drop 1 (dropWhile (\<lambda>x. x \<noteq> slash_char) rest)" using assms(2) that by auto
  ultimately show ?thesis using drop1_dropWhile_less [of rest] by auto
qed

termination walk
proof (relation "(\<lambda>(_, _, _, _, _, links). nat (maxLinkToFollow - links)) <*mlex*>
    measure (\<lambda>(_, _, _, _, rest, _). length rest)", goal_cases)
  case 1
  show ?case by (intro wf_mlex wf_measure)
next
  case (2 V M f stack rest links b stack' y rest' links')
  then show ?case using walk_step_measure [of V M f stack rest links stack' rest' links'] by (auto simp: mlex_prod_def)
qed

declare walk.simps [simp del]

section \<open>Lemmas on paths\<close>

definition good :: "string list \<Rightarrow> bool" where
  "good cs \<longleftrightarrow> (\<forall>c\<in>set cs. c \<noteq> [] \<and> c \<noteq> [dot_char] \<and> c \<noteq> [dot_char, dot_char] \<and> slash_char \<notin> set c)"

lemma good_simps [simp]:
  "good []"
  "good (cs @ [c]) \<longleftrightarrow> good cs \<and> c \<noteq> [] \<and> c \<noteq> [dot_char] \<and> c \<noteq> [dot_char, dot_char] \<and> slash_char \<notin> set c"
  by (auto simp: good_def)

lemma path_of_simps [simp]: "path_of [] = []" "path_of (cs @ ds) = path_of cs @ path_of ds"
  "path_of (c # cs) = slash_char # c @ path_of cs"
  by (simp_all add: path_of_def)

lemma dir_of_simps [simp]: "dir_of [] = [slash_char]" "dir_of (cs @ [c]) = dir_of cs @ c @ [slash_char]"
  "butlast (dir_of cs) = path_of cs" "last (dir_of cs) = slash_char" "dir_of cs \<noteq> []"
  "length (dir_of cs) = Suc (length (path_of cs))"
  by (simp_all add: dir_of_def)

lemma path_of_snoc: "path_of (cs @ [c]) = dir_of cs @ c"
  by (simp add: dir_of_def)

lemma path_of_last: "good cs \<Longrightarrow> cs \<noteq> [] \<Longrightarrow> path_of cs \<noteq> [] \<and> last (path_of cs) \<noteq> slash_char"
  by (induction cs rule: rev_induct) (auto simp: last_append dest: last_in_set)

lemma path_of_take_drop: "path_of cs = path_of (take n cs) @ path_of (drop n cs)"
  by (metis append_take_drop_id path_of_simps(2))

lemma length_path_of_take: "length (path_of (take n cs)) \<le> length (path_of cs)"
  by (subst path_of_take_drop [of cs n]) simp

lemma find_last_of_eq:
  "j \<le> i \<Longrightarrow> j < length s \<Longrightarrow> s ! j = c \<Longrightarrow> (\<And>k. j < k \<Longrightarrow> k \<le> i \<Longrightarrow> k < length s \<Longrightarrow> s ! k \<noteq> c) \<Longrightarrow>
     find_last_of c s i = Some j"
proof (induction c s i rule: find_last_of.induct)
  case (1 c s)
  then show ?case by (simp add: hd_conv_nth)
next
  case (2 c s i)
  show ?case
  proof (cases "j = Suc i")
    case False
    then have "\<not> (Suc i < length s \<and> s ! Suc i = c)" using 2(2,5) by auto
    moreover have "find_last_of c s i = Some j" by (rule 2(1)) (use calculation 2 False in auto)
    ultimately show ?thesis by auto
  qed (use 2 in simp)
qed

text \<open>The last slash at or before a position inside or at the end of a component.\<close>

lemma find_last_slash:
  assumes "slash_char \<notin> set c" "length (path_of cs) \<le> i" "i \<le> length (path_of cs) + length c \<or> post = []"
  shows "find_last_of slash_char (dir_of cs @ c @ post) i = Some (length (path_of cs))"
proof (rule find_last_of_eq)
  fix k
  assume k: "length (path_of cs) < k" "k \<le> i" "k < length (dir_of cs @ c @ post)"
  then obtain m where m: "k = length (dir_of cs) + m" by (metis Suc_leI dir_of_simps(6) le_add_diff_inverse)
  have "m < length c" using k assms(3) unfolding m by auto
  then show "(dir_of cs @ c @ post) ! k \<noteq> slash_char" using assms(1) unfolding m
    by (simp only: nth_append_length_plus) (auto simp: nth_append dest: nth_mem)
qed (use assms in \<open>simp_all add: dir_of_def nth_append\<close>)

lemma slash_position:
  fixes pre rest :: string
  defines "c \<equiv> takeWhile (\<lambda>x. x \<noteq> slash_char) rest"
  shows "(case find_first_of slash_char (pre @ rest) (length pre) of None \<Rightarrow> length (pre @ rest) | Some s \<Rightarrow> s) =
    length pre + length c"
proof -
  have "length c \<le> length rest" unfolding c_def by (rule length_takeWhile_le)
  then show ?thesis by (auto simp: find_first_of_def c_def Let_def)
qed

lemma mount_len_append [simp]: "n \<le> length cs \<Longrightarrow> mount_len M (cs @ ds) n = mount_len M cs n"
  by (induction n) simp_all

lemma mount_len_le: "mount_len M cs n \<le> n"
  by (induction n) (auto intro: le_SucI)

lemma mount_prefix_le: "mount_prefix M cs \<le> length cs"
  by (simp add: mount_prefix_def mount_len_le)

lemma mount_prefix_simps [simp]:
  "mount_prefix M [] = 0"
  "mount_prefix M (cs @ [c]) = (if M (path_of (cs @ [c])) \<noteq> None then Suc (length cs) else mount_prefix M cs)"
  by (simp_all add: mount_prefix_def)

lemma fs_at_append [simp]: "n \<le> length cs \<Longrightarrow> fs_at M (cs @ ds) n = fs_at M cs n"
  by (simp add: fs_at_def)

lemma find_fs_loop_spec:
  assumes "slash_char \<notin> set c" "good cs" "length (dir_of cs) \<le> k" "k \<le> length (dir_of cs) + length c \<or> post = []"
    "M [slash_char] = Some (pr_root p)"
  shows "find_fs_loop V M (dir_of cs @ c @ post) k p =
    (0, p\<lparr>pr_fs := fs_at M cs (mount_prefix M cs), indexIntoFs := length (dir_of (take (mount_prefix M cs) cs)),
      syms := supportsSymlinks V (fs_at M cs (mount_prefix M cs)),
      depthIntoFs := depthIntoFs p + int (length cs) - int (mount_prefix M cs)\<rparr>)"
  using assms
proof (induction cs arbitrary: c k post p rule: rev_induct)
  case Nil
  then have "find_last_of slash_char (dir_of [] @ c @ post) (k - 1) = Some (length (path_of []))"
    by (intro find_last_slash) auto
  with Nil show ?case by (subst find_fs_loop.simps) (simp add: fs_at_def)
next
  case (snoc d cs)
  let ?path = "dir_of (cs @ [d]) @ c @ post"
  have l: "find_last_of slash_char ?path (k - 1) = Some (length (path_of (cs @ [d])))"
    by (rule find_last_slash) (use snoc.prems in auto)
  have t: "part ?path (length (path_of (cs @ [d]))) 0 = path_of (cs @ [d])"
    by (simp add: part_def dir_of_def)
  have e: "?path = dir_of cs @ d @ (slash_char # c @ post)" by simp
  have r: "find_fs_loop V M ?path (length (path_of (cs @ [d]))) (p\<lparr>depthIntoFs := depthIntoFs p + 1\<rparr>) =
    (0, p\<lparr>depthIntoFs := depthIntoFs p + 1, pr_fs := fs_at M cs (mount_prefix M cs),
      indexIntoFs := length (dir_of (take (mount_prefix M cs) cs)),
      syms := supportsSymlinks V (fs_at M cs (mount_prefix M cs)),
      depthIntoFs := depthIntoFs p + 1 + int (length cs) - int (mount_prefix M cs)\<rparr>)"
    unfolding e by (subst snoc.IH) (use snoc.prems in auto)
  show ?case
  proof (cases "M (path_of (cs @ [d]))")
    case None
    then show ?thesis using mount_prefix_le [of M cs]
      by (subst find_fs_loop.simps) (simp only: l t r option.case, simp)
  next
    case (Some f)
    then show ?thesis
      by (subst find_fs_loop.simps) (simp only: l t option.case, simp add: fs_at_def)
  qed
qed

section \<open>The resolution refines the specification\<close>

text \<open>At the head of the loop the string is the directory of the stack followed by the rest of the path.\<close>

definition at_head :: "'f fs_view \<Rightarrow> 'f mounts \<Rightarrow> string \<Rightarrow> 'f path_resolution \<Rightarrow> string list \<Rightarrow> string \<Rightarrow> int \<Rightarrow> bool" where
  "at_head V M path p stack rest links \<longleftrightarrow>
     good stack \<and> M [slash_char] = Some (pr_root p) \<and>
     path = dir_of stack @ rest \<and> index p = length (dir_of stack) \<and>
     pr_fs p = fs_at M stack (mount_prefix M stack) \<and> syms p = supportsSymlinks V (pr_fs p) \<and>
     indexIntoFs p = length (dir_of (take (mount_prefix M stack) stack)) \<and>
     depthIntoFs p = 1 + int (length stack) - int (mount_prefix M stack) \<and> linksFollowed p = links"

text \<open>After the last component the trailing slash may be missing.\<close>

definition at_end :: "'f mounts \<Rightarrow> string \<Rightarrow> 'f path_resolution \<Rightarrow> string list \<Rightarrow> bool" where
  "at_end M path p stack \<longleftrightarrow>
     good stack \<and> index p \<ge> length path \<and>
     (path = dir_of stack \<or> stack \<noteq> [] \<and> path = path_of stack) \<and>
     pr_fs p = fs_at M stack (mount_prefix M stack) \<and>
     indexIntoFs p = min (length (dir_of (take (mount_prefix M stack) stack))) (length path)"

definition reached :: "'f fs_view \<Rightarrow> 'f mounts \<Rightarrow> string \<Rightarrow> 'f path_resolution \<Rightarrow> string list \<Rightarrow> string \<Rightarrow> int \<Rightarrow> bool" where
  "reached V M path p stack rest links \<longleftrightarrow>
     at_head V M path p stack rest links \<or> rest = [] \<and> at_end M path p stack"

lemma reached_end: "reached V M path p stack [] links \<Longrightarrow> at_end M path p stack"
  using length_path_of_take [of "mount_prefix M stack" stack]
  by (auto simp: reached_def at_head_def at_end_def min_def)

lemma reached_more: "reached V M path p stack rest links \<Longrightarrow> rest \<noteq> [] \<Longrightarrow>
    at_head V M path p stack rest links \<and> index p < length path"
  by (auto simp: reached_def at_head_def)

lemma resolve_end_spec:
  assumes "at_end M path p stack"
  shows "\<exists>p'. resolve_end path p = (path_of stack, p') \<and> pr_fs p' = fs_at M stack (mount_prefix M stack) \<and>
    indexIntoFs p' = min (length (dir_of (take (mount_prefix M stack) stack))) (length (path_of stack))"
proof (cases "path = dir_of stack")
  case True
  then show ?thesis using assms by (auto simp: at_end_def resolve_end_def Let_def)
next
  case False
  with assms have "stack \<noteq> []" "path = path_of stack" "good stack" by (auto simp: at_end_def)
  then show ?thesis using assms path_of_last [of stack] by (auto simp: at_end_def resolve_end_def)
qed

text \<open>No filesystem but the root has another one mounted below it.\<close>

definition flat_mounts :: "'f mounts \<Rightarrow> bool" where
  "flat_mounts M \<longleftrightarrow> (\<forall>cs ds. cs \<noteq> [] \<longrightarrow> ds \<noteq> [] \<longrightarrow> M (path_of cs) \<noteq> None \<longrightarrow> M (path_of (cs @ ds)) = None)"

lemma flat_mount_prefix:
  assumes "flat_mounts M" "M (path_of (cs @ ds)) \<noteq> None" "ds \<noteq> []"
  shows "mount_prefix M cs = 0"
proof -
  have "mount_len M cs n = 0" if "n \<le> length cs" for n using that
  proof (induction n)
    case (Suc n)
    have "M (path_of (take (Suc n) cs)) = None"
    proof (rule ccontr)
      assume m: "M (path_of (take (Suc n) cs)) \<noteq> None"
      have "take (Suc n) cs \<noteq> []" "drop (Suc n) cs @ ds \<noteq> []" using Suc.prems assms(3) by auto
      with assms(1) m have "M (path_of (take (Suc n) cs @ (drop (Suc n) cs @ ds))) = None"
        unfolding flat_mounts_def by blast
      then show False using assms(2) by (metis append_assoc append_take_drop_id)
    qed
    with Suc show ?case by simp
  qed simp
  then show ?thesis by (simp add: mount_prefix_def)
qed

lemma up_spec:
  assumes "at_head V M path p (stack @ [c]) (dot_char # dot_char # left) links" "flat_mounts M"
    "left = [] \<or> hd left = slash_char"
  shows "\<exists>path' p'. upPathComponent V M path (index p + 2) p = (0, path', p') \<and>
    reached V M path' p' stack (drop 1 left) links"
proof -
  let ?n = "mount_prefix M (stack @ [c])"
  note a = assms(1) [unfolded at_head_def]
  have g: "good stack" "c \<noteq> []" "slash_char \<notin> set c" using a by auto
  have path: "path = dir_of stack @ c @ (slash_char # dot_char # dot_char # left)" using a by simp
  have i: "index p = length (dir_of stack) + length c + 1" using a by simp
  have rs: "find_last_of slash_char path (index p - 2) = Some (length (path_of stack))"
    unfolding path by (rule find_last_slash) (use i g in auto)
  define path1 where "path1 = (if path_of stack @ left = [] then [slash_char] else path_of stack @ left)"
  have e: "erase_at path (length (path_of stack)) (index p + 2 - length (path_of stack)) = path_of stack @ left"
  proof -
    have "path = (path_of stack @ slash_char # c @ [slash_char, dot_char, dot_char]) @ left"
      using path by (simp add: dir_of_def)
    moreover have "length (path_of stack @ slash_char # c @ [slash_char, dot_char, dot_char]) = index p + 2"
      using i by simp
    ultimately have "drop (index p + 2) path = left" by (metis append_eq_conv_conj)
    moreover have "take (length (path_of stack)) path = path_of stack" by (simp add: path dir_of_def)
    moreover have "length (path_of stack) + (index p + 2 - length (path_of stack)) = index p + 2" using i by simp
    ultimately show ?thesis by (simp only: erase_at_def)
  qed
  define p1 where "p1 = p\<lparr>index := length (path_of stack) + 1,
    indexIntoFs := if indexIntoFs p > length path1 then length path1 else indexIntoFs p, depthIntoFs := depthIntoFs p - 1\<rparr>"
  have up: "upPathComponent V M path (index p + 2) p =
      (if depthIntoFs p1 > 0 then (0, path1, p1)
       else let (res, p) = recursiveFindFs V M path1 p1 in (res, path1, p))"
  proof -
    have "\<not> index p \<le> 1" using i by simp
    then show ?thesis by (simp add: upPathComponent_def rs e [simplified] path1_def p1_def Let_def)
  qed
  have len: "length (path_of (take n stack)) \<le> length (path_of stack)" for n by (rule length_path_of_take)
  have shape: "path1 = dir_of stack @ drop 1 left \<or> left = [] \<and> stack \<noteq> [] \<and> path1 = path_of stack"
    using assms(3) unfolding path1_def by (cases left; cases stack) (auto simp: dir_of_def)
  have p1: "index p1 = Suc (length (path_of stack))" "pr_root p1 = pr_root p" "linksFollowed p1 = links"
    "depthIntoFs p1 = 1 + int (length stack) - int ?n" "pr_fs p1 = pr_fs p" "syms p1 = syms p"
    using a by (simp_all add: p1_def)
  show ?thesis
  proof (cases "M (path_of (stack @ [c]))")
    case None
    then have n: "?n = mount_prefix M stack" "?n \<le> length stack" using mount_prefix_le [of M stack] by simp_all
    then have "indexIntoFs p = Suc (length (path_of (take ?n stack)))" "pr_fs p = fs_at M stack ?n" using a by simp_all
    then have "reached V M path1 p1 stack (drop 1 left) links" using a n p1 shape len [of ?n]
      by (auto simp: reached_def at_head_def at_end_def p1_def)
    moreover have "depthIntoFs p1 > 0" using p1(4) n(2) by simp
    ultimately show ?thesis unfolding up by simp
  next
    case (Some f)
    then have n: "?n = Suc (length stack)" by simp
    have r: "M [slash_char] = Some (pr_root (p1\<lparr>depthIntoFs := 1\<rparr>))" using a p1(2) by simp
    from shape show ?thesis
    proof
      assume path1: "path1 = dir_of stack @ drop 1 left"
      then have "recursiveFindFs V M path1 p1 = find_fs_loop V M (dir_of stack @ [] @ drop 1 left) (length (dir_of stack))
          (p1\<lparr>depthIntoFs := 1\<rparr>)" by (simp add: recursiveFindFs_def p1(1))
      also note find_fs_loop_spec [of "[]" stack "length (dir_of stack)" "drop 1 left" M "p1\<lparr>depthIntoFs := 1\<rparr>" V,
          OF _ g(1) _ _ r]
      finally show ?thesis unfolding up using p1 n a path1 by (simp add: reached_def at_head_def)
    next
      assume path1: "left = [] \<and> stack \<noteq> [] \<and> path1 = path_of stack"
      then obtain s d where s: "stack = s @ [d]" by (metis rev_exhaust)
      have z: "mount_prefix M stack = 0" "mount_prefix M s = 0"
        using flat_mount_prefix [OF assms(2), of stack "[c]"] flat_mount_prefix [OF assms(2), of s "[d, c]"] Some s by auto
      have "recursiveFindFs V M path1 p1 = find_fs_loop V M (dir_of s @ d @ []) (length (path_of stack) + 1)
          (p1\<lparr>depthIntoFs := 1\<rparr>)" using path1 s by (simp add: recursiveFindFs_def p1(1) dir_of_def)
      also note find_fs_loop_spec [of d s "length (path_of stack) + 1" "[]" M "p1\<lparr>depthIntoFs := 1\<rparr>" V, OF _ _ _ _ r]
      finally show ?thesis unfolding up using p1 n a path1 z g s by (auto simp: reached_def at_end_def fs_at_def dir_of_def)
    qed
  qed
qed

lemma drop_dir_of:
  "n \<le> length cs \<Longrightarrow> drop (length (dir_of (take n cs))) (path_of cs) = relative_path cs n"
  by (subst path_of_take_drop [of cs n]) (simp add: relative_path_def)

lemma drop_min: "drop (min n (length xs)) xs = drop n xs"
  by (simp add: min_def)

lemma drop_dir_of_snoc:
  "n \<le> length stack \<Longrightarrow> drop (length (dir_of (take n stack))) (path_of (stack @ [c])) = relative_path (stack @ [c]) n"
  using drop_dir_of [of n "stack @ [c]"] by (simp del: path_of_simps)

text \<open>Following a link that was found while \<open>at_head\<close> held for the stack without it.\<close>

lemma link_spec:
  assumes "at_head V M path p stack (c @ left) links" "slash_char \<notin> set c"
    "p2 = p\<lparr>index := length (dir_of stack) + length c + 1, depthIntoFs := depthIntoFs p + 1\<rparr>"
    "part path (index p2 - 1) (indexIntoFs p2) = rel" "drop (index p2 - 1) path = left"
    "index p2 > length path \<longleftrightarrow> left = []"
    "reached V M path (p2\<lparr>linksFollowed := links + 1\<rparr>) (stack @ [c]) (drop 1 left) (links + 1)"
  shows "case walk_link V (pr_fs p2) stack c rel left links of
      Inl e \<Rightarrow> e < 0 \<and> (\<exists>path' p'. followSymlink V path p2 = (e, path', p'))
    | Inr (stack', rest', links') \<Rightarrow> \<exists>r path' p'. followSymlink V path p2 = (r, path', p') \<and> \<not> r < 0 \<and>
        reached V M path' p' stack' rest' links'"
proof -
  note a = assms(1) [unfolded at_head_def]
  define p3 where "p3 = p2\<lparr>linksFollowed := links + 1\<rparr>"
  have p3: "p2\<lparr>linksFollowed := linksFollowed p2 + 1\<rparr> = p3" "index p3 = index p2" "pr_fs p3 = pr_fs p2"
    "indexIntoFs p3 = indexIntoFs p2" "linksFollowed p3 = links + 1"
    using a assms(3) by (simp_all add: p3_def)
  obtain res target where r: "fs_readlink V (pr_fs p2) rel = (res, target)" by fastforce
  have rest: "(if index p3 \<le> length path then drop (index p3 - 1) path else []) = left" using assms(5,6) p3(2) by auto
  have "find_last_of slash_char (dir_of stack @ c @ left) (index p3 - 2) = Some (length (path_of stack))"
    by (rule find_last_slash) (use a assms(2,3) p3(2) in auto)
  then have keep: "(case find_last_of slash_char path (index p3 - 2) of None \<Rightarrow> 0 | Some removeStart \<Rightarrow> removeStart + 1) =
      length (dir_of stack)" using a by simp
  have lens: "length target + length path + 1 - index p3 = length target + length left"
    "length path - (index p3 - length (dir_of stack) - 1) + length target =
        length (dir_of stack) + length target + length left" using a assms(3) p3(2) by simp_all
  have dir: "take (length (dir_of stack)) path = dir_of stack" using a by simp
  have part3: "part path (index p3 - 1) (indexIntoFs p3) = rel" using assms(4) p3 by simp
  have f: "followSymlink V path p2 =
     (if links + 1 \<ge> maxLinkToFollow then (- ELOOP, path, p3)
      else if res < 0 then (1, path, p3)
      else if target = [] then (- ENOENT, path, p3)
      else if hd target = slash_char then
        (if length target + length left > PATH_MAX then (- ENAMETOOLONG, path, p3)
         else (0, target @ left,
                p3\<lparr>pr_fs := pr_root p3, syms := supportsSymlinks V (pr_root p3), index := 1, indexIntoFs := 1,
                  depthIntoFs := 1\<rparr>))
      else if length (dir_of stack) + length target + length left > PATH_MAX then (- ENAMETOOLONG, path, p3)
      else (0, dir_of stack @ target @ left, p3\<lparr>index := length (dir_of stack), depthIntoFs := depthIntoFs p3 - 1\<rparr>))"
    by (simp only: followSymlink_def Let_def p3(1) part3 p3(3,5) r prod.case rest keep lens dir)
  show ?thesis
  proof (cases "links + 1 \<ge> maxLinkToFollow \<or> res < 0 \<or> target = []")
    case True
    then show ?thesis using assms(7) by (auto simp: f walk_link_def r p3_def)
  next
    case False
    show ?thesis
    proof (cases "hd target = slash_char")
      case True
      then have "target = slash_char # drop 1 target" using False by (cases target) auto
      then have "reached V M (target @ left) (p3\<lparr>pr_fs := pr_root p3, syms := supportsSymlinks V (pr_root p3), index := 1,
          indexIntoFs := 1, depthIntoFs := 1\<rparr>) [] (drop 1 target @ left) (links + 1)"
        using a assms(3) by (simp add: reached_def at_head_def p3_def fs_at_def)
      then show ?thesis using False True by (auto simp: f walk_link_def r)
    next
      case rel: False
      have "reached V M (dir_of stack @ target @ left) (p3\<lparr>index := length (dir_of stack), depthIntoFs := depthIntoFs p3 - 1\<rparr>)
          stack (target @ left) (links + 1)"
        using a assms(3) by (simp add: reached_def at_head_def p3_def)
      then show ?thesis using False rel by (auto simp: f walk_link_def r)
    qed
  qed
qed

lemma normal_spec:
  assumes "at_head V M path p stack (c @ left) links" "c \<noteq> []" "c \<noteq> [dot_char]" "c \<noteq> [dot_char, dot_char]"
    "slash_char \<notin> set c" "left = [] \<or> hd left = slash_char" "p1 = p\<lparr>index := length (dir_of stack) + length c + 1\<rparr>"
    "g = (if index p1 > length path then followLast else True)"
  shows "(case walk_step V M followLast stack (c @ left) links of
      Inl e \<Rightarrow> e < 0 \<and> (\<exists>path' p'. normalPathComponent V M path g p1 = (e, path', p'))
    | Inr (stack', rest', links') \<Rightarrow> \<exists>r path' p'. normalPathComponent V M path g p1 = (r, path', p') \<and> \<not> r < 0 \<and>
        reached V M path' p' stack' rest' links')"
proof -
  note a = assms(1) [unfolded at_head_def]
  let ?n = "mount_prefix M stack" let ?st = "stack @ [c]"
  have n: "?n \<le> length stack" by (rule mount_prefix_le)
  have tw: "takeWhile (\<lambda>x. x \<noteq> slash_char) (c @ left) = c" "dropWhile (\<lambda>x. x \<noteq> slash_char) (c @ left) = left"
    using assms(5,6) by (auto simp: takeWhile_append dropWhile_append takeWhile_eq_Nil_iff dropWhile_eq_self_iff)
  have t: "take (index p1 - 1) path = path_of ?st" "drop (index p1 - 1) path = left"
    using a assms(7) by (simp_all add: dir_of_def)
  have pt: "part path (index p1 - 1) 0 = path_of ?st" "part path (index p1 - 1) (indexIntoFs p1) = relative_path ?st ?n"
    using t drop_dir_of_snoc [OF n, of c] a assms(7) by (simp_all add: part_def)
  have il: "index p1 > length path \<longleftrightarrow> left = []" using a assms(7) by (auto simp: neq_Nil_conv)
  have shape: "left = [] \<and> path = path_of ?st \<or> path = dir_of ?st @ drop 1 left \<and> index p1 = length (dir_of ?st)"
    using a assms(6,7) by (cases left) (auto simp: dir_of_def)
  have len: "length (path_of (take ?n stack)) \<le> length (path_of stack)" by (rule length_path_of_take)
  have keep: "reached V M path (p1\<lparr>depthIntoFs := depthIntoFs p1 + 1, linksFollowed := l\<rparr>) ?st (drop 1 left) l"
    if "M (path_of ?st) = None" for l
    using shape that a assms(2-5,7) n len by (auto simp: reached_def at_head_def at_end_def)
  have keep0: "reached V M path (p1\<lparr>depthIntoFs := depthIntoFs p1 + 1\<rparr>) ?st (drop 1 left) links"
    if "M (path_of ?st) = None"
  proof -
    have "p1\<lparr>linksFollowed := links\<rparr> = p1" using a assms(7) by (intro path_resolution.equality) simp_all
    then have "p1\<lparr>depthIntoFs := depthIntoFs p1 + 1, linksFollowed := links\<rparr> = p1\<lparr>depthIntoFs := depthIntoFs p1 + 1\<rparr>"
      by (metis path_resolution.update_convs(6,7) path_resolution.surjective)
    then show ?thesis using keep [OF that, of links] by metis
  qed
  have ws: "walk_step V M followLast stack (c @ left) links =
      (if M (path_of ?st) \<noteq> None \<or> \<not> syms p1 \<or> \<not> g then Inr (?st, drop 1 left, links)
       else case fs_lstat V (pr_fs p1) (relative_path ?st ?n) of (res, st) \<Rightarrow>
          if res < 0 then Inr (?st, drop 1 left, links)
          else if S_ISLNK (st_mode st) then walk_link V (pr_fs p1) stack c (relative_path ?st ?n) left links
          else if left \<noteq> [] \<and> \<not> S_ISDIR (st_mode st) then Inl (- ENOTDIR)
          else Inr (?st, drop 1 left, links))"
  proof -
    have "fs_at M stack ?n = pr_fs p1" "supportsSymlinks V (pr_fs p1) = syms p1" "\<not> g \<longleftrightarrow> left = [] \<and> \<not> followLast"
      using a assms(7,8) il by auto
    then show ?thesis using assms(2-4) by (simp add: walk_step_def tw Let_def split: prod.split)
  qed
  show ?thesis
  proof (cases "M (path_of ?st)")
    case (Some f)
    have "reached V M path (p1\<lparr>pr_fs := f, syms := supportsSymlinks V f,
        indexIntoFs := if index p1 > length path then index p1 - 1 else index p1, depthIntoFs := 1\<rparr>) ?st (drop 1 left) links"
      using shape Some a assms(2-5,7) by (auto simp: reached_def at_head_def at_end_def fs_at_def)
    then show ?thesis by (simp add: ws Some normalPathComponent_def pt pt [unfolded One_nat_def] del: path_of_simps)
  next
    case None
    show ?thesis
    proof (cases "syms p1 \<and> g")
      case False
      then show ?thesis using keep0 [OF None] None by (auto simp: ws normalPathComponent_def pt pt [unfolded One_nat_def] Let_def simp del: path_of_simps)
    next
      case True
      obtain res st where l: "fs_lstat V (pr_fs p1) (relative_path ?st ?n) = (res, st)" by fastforce
      show ?thesis
      proof (cases "\<not> res < 0 \<and> S_ISLNK (st_mode st)")
        case False
        then show ?thesis using True keep0 [OF None] None l il by (auto simp: ws normalPathComponent_def pt pt [unfolded One_nat_def] Let_def simp del: path_of_simps)
      next
        case link: True
        define p2 where "p2 = p1\<lparr>depthIntoFs := depthIntoFs p1 + 1\<rparr>"
        have "normalPathComponent V M path g p1 = followSymlink V path p2"
          using True None l link by (simp add: normalPathComponent_def pt pt [unfolded One_nat_def] Let_def p2_def del: path_of_simps)
        moreover have "walk_step V M followLast stack (c @ left) links =
            walk_link V (pr_fs p2) stack c (relative_path ?st ?n) left links"
          using True None l link by (simp add: ws p2_def del: path_of_simps)
        moreover have "case walk_link V (pr_fs p2) stack c (relative_path ?st ?n) left links of
            Inl e \<Rightarrow> e < 0 \<and> (\<exists>path' p'. followSymlink V path p2 = (e, path', p'))
          | Inr (stack', rest', links') \<Rightarrow> \<exists>r path' p'. followSymlink V path p2 = (r, path', p') \<and> \<not> r < 0 \<and>
              reached V M path' p' stack' rest' links'"
          by (rule link_spec [OF assms(1,5)])
            (use assms(7) pt t il keep [OF None, of "links + 1"] in \<open>simp_all add: p2_def del: dir_of_simps\<close>)
        ultimately show ?thesis by (simp only:)
      qed
    qed
  qed
qed

lemma short_eq:
  assumes "\<And>i. i < length c \<Longrightarrow> f i = c ! i"
  shows "c = [d] \<longleftrightarrow> length c = 1 \<and> f 0 = d" "c = [d, d] \<longleftrightarrow> length c = 2 \<and> f 0 = d \<and> f 1 = d"
  using assms [of 0] assms [of 1] by (auto simp: length_Suc_conv numeral_2_eq_2)

lemma step_spec:
  assumes "at_head V M path p stack rest links" "flat_mounts M"
  shows "case walk_step V M f stack rest links of
      Inl e \<Rightarrow> e < 0 \<and> (\<exists>path' p'. resolve_step V M f path p = (e, path', p'))
    | Inr (stack', rest', links') \<Rightarrow> \<exists>r path' p'. resolve_step V M f path p = (r, path', p') \<and> \<not> r < 0 \<and>
        reached V M path' p' stack' rest' links'"
proof -
  define c left where "c = takeWhile (\<lambda>x. x \<noteq> slash_char) rest" and "left = dropWhile (\<lambda>x. x \<noteq> slash_char) rest"
  have rest: "rest = c @ left" and cs: "slash_char \<notin> set c"
    unfolding c_def left_def by (auto dest: set_takeWhileD)
  have left: "left = [] \<or> hd left = slash_char" using hd_dropWhile [of "\<lambda>x. x \<noteq> slash_char" rest] unfolding left_def by blast
  note a = assms(1) [unfolded at_head_def]
  have sl: "(case find_first_of slash_char path (index p) of None \<Rightarrow> length path | Some s \<Rightarrow> s) = index p + length c"
  proof -
    have "path = dir_of stack @ rest" "index p = length (dir_of stack)" using a by blast+
    then show ?thesis unfolding c_def by (simp only: slash_position)
  qed
  have nth: "i < length c \<Longrightarrow> path ! (index p + i) = c ! i" for i using a rest by (simp add: nth_append)
  have step: "resolve_step V M f path p =
     (if c = [] then (0, erase_at path (index p) 1, p)
      else if c = [dot_char] then (0, erase_at path (index p) 2, p)
      else if c = [dot_char, dot_char] then upPathComponent V M path (index p + 2) p
      else normalPathComponent V M path (if index (p\<lparr>index := index p + length c + 1\<rparr>) > length path then f else True)
        (p\<lparr>index := index p + length c + 1\<rparr>))"
  proof -
    have "c = [dot_char] \<longleftrightarrow> length c = 1 \<and> path ! index p = dot_char"
      "c = [dot_char, dot_char] \<longleftrightarrow> length c = 2 \<and> path ! index p = dot_char \<and> path ! (index p + 1) = dot_char"
      using short_eq [of c "\<lambda>i. path ! (index p + i)" dot_char] nth by simp_all
    then show ?thesis unfolding resolve_step_def Let_def sl by simp
  qed
  have erase: "erase_at path (index p) (length c + 1) = dir_of stack @ drop 1 left"
    using a rest by (simp add: erase_at_def)
  have w: "walk_step V M f stack rest links = Inr (stack, drop 1 left, links)" if "c = [] \<or> c = [dot_char]"
    using that by (auto simp: walk_step_def c_def [symmetric] left_def [symmetric])
  have skip: "reached V M (dir_of stack @ drop 1 left) p stack (drop 1 left) links"
    using a by (simp add: reached_def at_head_def)
  consider (empty) "c = []" | (dot) "c = [dot_char]" | (up) "c = [dot_char, dot_char]"
    | (normal) "c \<noteq> []" "c \<noteq> [dot_char]" "c \<noteq> [dot_char, dot_char]" by blast
  then show ?thesis
  proof cases
    case empty
    then show ?thesis using w skip erase by (simp add: step)
  next
    case dot
    then show ?thesis using w skip erase by (simp add: step numeral_2_eq_2)
  next
    case up
    then have ws: "walk_step V M f stack rest links = (if stack = [] then Inl (- ENOENT) else Inr (butlast stack, drop 1 left, links))"
      by (simp add: walk_step_def c_def [symmetric] left_def [symmetric])
    show ?thesis
    proof (cases stack rule: rev_cases)
      case Nil
      then show ?thesis unfolding ws step using a up by (simp add: upPathComponent_def)
    next
      case (snoc s d)
      have "at_head V M path p (s @ [d]) (dot_char # dot_char # left) links" using assms(1) up rest snoc by simp
      from up_spec [OF this assms(2) left] show ?thesis unfolding ws step using up snoc by auto
    qed
  next
    case normal
    have i: "index p = length (dir_of stack)" using a by simp
    show ?thesis using normal_spec [OF assms(1) [unfolded rest] normal cs left refl refl, of f] normal
      unfolding step i rest by simp
  qed
qed

theorem resolve_loop_refines:
  assumes "at_head V M path p stack rest links" "flat_mounts M"
  shows "case walk V M f stack rest links of
      Inl e \<Rightarrow> fst (resolve_loop V M f path p) = Inl e
    | Inr st \<Rightarrow> resolve_loop V M f path p =
        (Inr (fs_at M st (mount_prefix M st), min (length (dir_of (take (mount_prefix M st) st))) (length (path_of st))), path_of st)
        \<and> good st"
  using assms
proof (induction V M f stack rest links arbitrary: path p rule: walk.induct)
  case (1 V M f stack rest links)
  note step = step_spec [OF 1(2,3), of f]
  show ?case
  proof (cases "walk_step V M f stack rest links")
    case (Inl e)
    with step obtain path' p' where "e < 0" "resolve_step V M f path p = (e, path', p')" by auto
    then show ?thesis using Inl by (subst walk.simps, subst resolve_loop.simps) simp
  next
    case (Inr x)
    obtain stack' rest' links' where x: "x = (stack', rest', links')" by (cases x)
    with Inr step obtain r path' p' where s: "resolve_step V M f path p = (r, path', p')" "\<not> r < 0"
      "reached V M path' p' stack' rest' links'" by auto
    show ?thesis
    proof (cases "rest' = []")
      case True
      then have e: "at_end M path' p' stack'" using s(3) reached_end by blast
      then have "length path' \<le> index p'" "good stack'" by (auto simp: at_end_def)
      then show ?thesis using resolve_end_spec [OF e] s(1,2) True
        by (subst walk.simps, subst resolve_loop.simps) (auto simp: Inr x)
    next
      case False
      with reached_more [OF s(3)] have h: "at_head V M path' p' stack' rest' links'" "index p' < length path'" by auto
      have w: "walk V M f stack rest links = walk V M f stack' rest' links'"
        by (subst walk.simps) (simp add: Inr x False)
      have l: "resolve_loop V M f path p = resolve_loop V M f path' p'"
        by (subst resolve_loop.simps) (use s h in simp)
      show ?thesis unfolding w l by (rule 1(1) [OF Inr [unfolded x] refl refl False h(1) 1(3)])
    qed
  qed
qed

section \<open>Properties\<close>

lemma path_resolution_lemma:
  assumes "flat_mounts M" and "M ''/'' = Some root" and "length rest < 1024"
  shows "case walk V M follow [] rest 0 of
      Inl e \<Rightarrow> fst (resolvePath V M (CHR ''/'' # rest) follow) = Inl e
    | Inr st \<Rightarrow> \<exists>off. resolvePath V M (CHR ''/'' # rest) follow = (Inr (fs_at M st (mount_prefix M st), off), path_of st)
        \<and> off \<le> length (path_of st) \<and> drop off (path_of st) = relative_path st (mount_prefix M st)
        \<and> good st"
proof -
  let ?p = "\<lparr>pr_root = root, pr_fs = root, syms = supportsSymlinks V root, index = 1, indexIntoFs = 1, depthIntoFs = 1,
    linksFollowed = 0\<rparr>"
  have "at_head V M (CHR ''/'' # rest) ?p [] rest 0" using assms(2) by (simp add: at_head_def fs_at_def)
  note r = resolve_loop_refines [OF this assms(1), of follow]
  have rp: "resolvePath V M (CHR ''/'' # rest) follow = resolve_loop V M follow (CHR ''/'' # rest) ?p"
    using assms(2,3) by (simp add: resolvePath_def pr_resolvePath_def)
  show ?thesis
  proof (cases "walk V M follow [] rest 0")
    case (Inl e)
    then show ?thesis using r by (simp add: rp)
  next
    case (Inr st)
    let ?n = "mount_prefix M st"
    have "drop (min (length (dir_of (take ?n st))) (length (path_of st))) (path_of st) = relative_path st ?n"
      using drop_dir_of [OF mount_prefix_le [of M st]] drop_min [of _ "path_of st"] by metis
    moreover have "min (length (dir_of (take ?n st))) (length (path_of st)) \<le> length (path_of st)" by simp
    ultimately show ?thesis using r unfolding rp Inr sum.case by blast
  qed
qed

text \<open>C14. Path resolution refines the walk over components. For mounted filesystems of which none but the root has another
  one mounted below it, \<open>resolvePath\<close> on an absolute path that is not too long terminates with the error
  of \<open>walk\<close>, or with the canonical path of the components \<open>walk\<close> ends with: no empty component, \<^verbatim>\<open>.\<close>
  or \<^verbatim>\<open>..\<close>, the filesystem mounted at its longest mounted prefix, and the offset at which the path
  relative to that filesystem starts.\<close>

theorem path_resolution_refines_walk:
  assumes "flat_mounts M" and "M ''/'' = Some root" and "length rest < 1024"
  shows "case walk V M follow [] rest 0 of
      Inl e \<Rightarrow> fst (resolvePath V M (CHR ''/'' # rest) follow) = Inl e
    | Inr st \<Rightarrow> \<exists>off. resolvePath V M (CHR ''/'' # rest) follow = (Inr (fs_at M st (mount_prefix M st), off), path_of st)
        \<and> off \<le> length (path_of st) \<and> drop off (path_of st) = relative_path st (mount_prefix M st)
        \<and> (\<forall>c\<in>set st. c \<noteq> [] \<and> c \<noteq> ''.'' \<and> c \<noteq> ''..'' \<and> CHR ''/'' \<notin> set c)"
  using path_resolution_lemma [OF assms, of V follow] unfolding good_def .

definition demo_view :: "nat fs_view" where
  "demo_view = \<lparr>supportsSymlinks = (\<lambda>f. f = 2),
     fs_lstat = (\<lambda>f s. (0, \<lparr>st_dev = 0, st_ino = 0, st_mode = if s = ''link'' then 0xa1ed else 0x41ed\<rparr>)),
     fs_readlink = (\<lambda>f s. (0, ''../dev/x''))\<rparr>"

definition demo_mounts :: "nat mounts" where
  "demo_mounts = [''/'' \<mapsto> 0, ''/dev'' \<mapsto> 1, ''/sd'' \<mapsto> 2]"

lemma path_of_inj_first: "path_of (c # cs) = slash_char # d \<Longrightarrow> slash_char \<notin> set d \<Longrightarrow> cs = []"
  by (cases cs) auto

lemma demo_flat: "flat_mounts demo_mounts"
proof -
  have "ds = []" if m: "demo_mounts (path_of (cs @ ds)) \<noteq> None" and ne: "cs \<noteq> []" for cs ds
  proof -
    obtain c es where cs: "cs = c # es" using ne by (cases cs) auto
    have "path_of (c # es @ ds) = ''/'' \<or> path_of (c # es @ ds) = ''/dev'' \<or> path_of (c # es @ ds) = ''/sd''"
      using m cs by (auto simp: demo_mounts_def split: if_splits)
    then have "es @ ds = []" using path_of_inj_first [of c "es @ ds"] by (elim disjE) (auto simp del: path_of_simps)
    then show ?thesis by simp
  qed
  then show ?thesis unfolding flat_mounts_def by blast
qed

theorem path_resolution_refines_walk_witness:
  "resolvePath demo_view demo_mounts ''/dev/./../sd//link/..'' True = (Inr (1, 4), ''/dev'')"
proof -
  have "walk demo_view demo_mounts True [] ''dev/./../sd//link/..'' 0 = Inr [''dev'']" by code_simp
  moreover have "mount_prefix demo_mounts [''dev''] = 1" "fs_at demo_mounts [''dev''] 1 = 1"
    "demo_mounts ''/'' = Some 0" by code_simp+
  ultimately show ?thesis
    using path_resolution_refines_walk [OF demo_flat, of 0 "''dev/./../sd//link/..''" demo_view True]
    by (auto simp: relative_path_def)
qed

text \<open>Leaving a filesystem that is mounted inside another one by a final \<^verbatim>\<open>..\<close> finds the wrong filesystem. With
  filesystems mounted at \<^verbatim>\<open>/\<close>, \<^verbatim>\<open>/a\<close> and \<^verbatim>\<open>/a/b\<close> the paths \<^verbatim>\<open>/a/b/..\<close> and \<^verbatim>\<open>/a/b/../\<close>
  resolve to the same string \<^verbatim>\<open>/a\<close>, but only the second to the filesystem mounted there: \<open>recursiveFindFs\<close>
  looks for a slash after the last component, which the first path does not have, and takes the root filesystem.\<close>

theorem dotdot_escapes_nested_mount:
  "resolvePath V [''/'' \<mapsto> r, ''/a'' \<mapsto> f, ''/a/b'' \<mapsto> g] ''/a/b/..'' follow = (Inr (r, 1), ''/a'')
   \<and> resolvePath V [''/'' \<mapsto> r, ''/a'' \<mapsto> f, ''/a/b'' \<mapsto> g] ''/a/b/../'' follow = (Inr (f, 2), ''/a'')"
proof -
  note ev = resolvePath_def pr_resolvePath_def resolve_loop.simps resolve_step_def find_first_of_def Let_def part_def
    normalPathComponent_def upPathComponent_def erase_at_def recursiveFindFs_def find_fs_loop.simps resolve_end_def
    numeral_2_eq_2 numeral_3_eq_3
  show ?thesis by (simp add: ev)
qed

end
