(* ===== verification/Mountpoint_Fs.thy ===== *)
theory Mountpoint_Fs
  imports Path_Resolution "HOL-Library.List_Lexorder" "HOL-Library.Char_ord"
begin

text \<open>
  \<^verbatim>\<open>MountpointFs\<close> (\<^verbatim>\<open>filesystem/mountpointfs/mountpointfs.cpp\<close>), the filesystem of the directories that other
  filesystems are mounted on, with the helpers of \<^verbatim>\<open>DirectoryBase\<close> (\<^verbatim>\<open>filesystem/file.cpp\<close>) that write directory
  entries to the buffer of \<^verbatim>\<open>getdents\<close>. The \<^verbatim>\<open>std::map\<close> from names to inodes is the list of its entries in
  ascending order of the names. The buffer is the list of the entries written to it and the position after them; every operation runs with
  the filesystem's mutex locked, so it is one step.
\<close>

section \<open>An ordered map\<close>

type_synonym 'v omap = "(string \<times> 'v) list"

definition omap_insert :: "string \<Rightarrow> 'v \<Rightarrow> 'v omap \<Rightarrow> 'v omap \<times> bool" where
  "omap_insert k v m = (if k \<in> fst ` set m then (m, False) else (insort_key fst (k, v) m, True))"

definition omap_set :: "string \<Rightarrow> 'v \<Rightarrow> 'v omap \<Rightarrow> 'v omap" where
  "omap_set k v m =
     (if k \<in> fst ` set m then map (\<lambda>(k', v'). (k', if k' = k then v else v')) m else insort_key fst (k, v) m)"

definition omap_erase :: "string \<Rightarrow> 'v omap \<Rightarrow> 'v omap" where
  "omap_erase k m = filter (\<lambda>(k', _). k' \<noteq> k) m"

definition omap :: "'v omap \<Rightarrow> bool" where
  "omap m \<longleftrightarrow> sorted (map fst m) \<and> distinct (map fst m)"

lemma map_of_insort_key: "distinct (map fst m) \<Longrightarrow> k \<notin> fst ` set m \<Longrightarrow> map_of (insort_key fst (k, v) m) = (map_of m)(k \<mapsto> v)"
  by (induction m) (auto simp: fun_eq_iff)

lemma omap_insert_spec:
  assumes "omap m"
  shows "omap (fst (omap_insert k v m))"
    and "map_of (fst (omap_insert k v m)) = (if map_of m k = None then (map_of m)(k \<mapsto> v) else map_of m)"
    and "snd (omap_insert k v m) \<longleftrightarrow> map_of m k = None"
  using assms
  by (auto simp: omap_def omap_insert_def map_of_insort_key map_of_eq_None_iff sorted_insort_key
      distinct_insort set_insort_key distinct_map inj_on_def rev_image_eqI)

lemma omap_erase_spec:
  assumes "omap m"
  shows "omap (omap_erase k m)" and "map_of (omap_erase k m) = (map_of m)(k := None)"
proof -
  have f: "map fst (omap_erase k m) = filter (\<lambda>x. x \<noteq> k) (map fst m)"
    unfolding omap_erase_def by (induction m) auto
  show "omap (omap_erase k m)" using assms unfolding omap_def f by (simp add: sorted_filter [of id, simplified])
  show "map_of (omap_erase k m) = (map_of m)(k := None)"
    unfolding omap_erase_def by (induction m) (auto simp: fun_eq_iff)
qed

lemma omap_set_spec:
  assumes "omap m"
  shows "omap (omap_set k v m)" and "map_of (omap_set k v m) = (map_of m)(k \<mapsto> v)"
proof -
  let ?f = "\<lambda>(k', v'). (k', if k' = k then v else v')"
  have f: "map fst (map ?f m) = map fst m" for m :: "'a omap" by (induction m) auto
  have g: "k \<in> fst ` set m \<Longrightarrow> map_of (map ?f m) = (map_of m)(k \<mapsto> v)" for m :: "'a omap"
  proof (induction m)
    case (Cons x m)
    have "map_of (map ?f m) = map_of m" if "k \<notin> fst ` set m" using that by (induction m) (auto simp: fun_eq_iff)
    then show ?case using Cons by (cases x; cases "k \<in> fst ` set m") (auto simp: fun_eq_iff)
  qed simp
  show "omap (omap_set k v m)"
  proof (cases "k \<in> fst ` set m")
    case True
    then have "omap_set k v m = map ?f m" by (simp add: omap_set_def)
    then show ?thesis using assms f [of m] by (simp only: omap_def)
  next
    case False
    then have "omap_set k v m = fst (omap_insert k v m)" by (simp add: omap_set_def omap_insert_def)
    then show ?thesis using omap_insert_spec(1) [OF assms] by simp
  qed
  show "map_of (omap_set k v m) = (map_of m)(k \<mapsto> v)"
    using assms g [of m] by (auto simp: omap_set_def omap_def map_of_insort_key)
qed

section \<open>Directory entries\<close>

record dirent =
  d_ino :: int
  d_reclen :: nat
  d_type :: nat
  d_name :: string

abbreviation (input) direntHeaderSizeNoPadding :: nat where "direntHeaderSizeNoPadding \<equiv> 19"

definition direntHeaderSize :: nat where
  "direntHeaderSize = (direntHeaderSizeNoPadding + 3 + 3) div 4 * 4"

definition minimumBufferSize :: nat where
  "minimumBufferSize = 3 * direntHeaderSize"

abbreviation (input) DT_DIR :: nat where "DT_DIR \<equiv> 4"

text \<open>The buffer: the entries, the first free position and the size.\<close>

record dirbuf =
  entries :: "dirent list"
  pos :: nat
  size_of :: nat

definition reclen_of :: "string \<Rightarrow> nat" where
  "reclen_of n = (direntHeaderSizeNoPadding + length n + 1 + 3) div 4 * 4"

definition addEntry :: "dirbuf \<Rightarrow> int \<Rightarrow> nat \<Rightarrow> string \<Rightarrow> int \<times> dirbuf" where
  "addEntry b ino ty n =
     (let reclen = reclen_of n in
      if reclen > size_of b - pos b then (-1, b)
      else (int reclen, b\<lparr>entries := entries b @ [\<lparr>d_ino = ino, d_reclen = reclen, d_type = ty, d_name = n\<rparr>],
             pos := pos b + reclen\<rparr>))"

definition addDefaultEntries :: "dirbuf \<Rightarrow> int \<Rightarrow> int \<Rightarrow> dirbuf" where
  "addDefaultEntries b thisIno upIno =
     b\<lparr>entries := entries b @ [\<lparr>d_ino = thisIno, d_reclen = direntHeaderSize, d_type = DT_DIR, d_name = ''.''\<rparr>,
        \<lparr>d_ino = upIno, d_reclen = direntHeaderSize, d_type = DT_DIR, d_name = ''..''\<rparr>],
       pos := pos b + 2 * direntHeaderSize\<rparr>"

definition addTerminatingEntry :: "dirbuf \<Rightarrow> int \<times> dirbuf" where
  "addTerminatingEntry b =
     (if direntHeaderSize > size_of b - pos b then (-1, b)
      else (int direntHeaderSize, b\<lparr>entries := entries b @ [\<lparr>d_ino = 0, d_reclen = 0, d_type = 0, d_name = ''''\<rparr>],
             pos := pos b + direntHeaderSize\<rparr>))"

section \<open>The open directory\<close>

record mp_directory =
  currentItem :: string
  currentInode :: int
  parentInode :: int
  is_first :: bool
  is_last :: bool

definition new_MountpointFsDirectory :: "int omap \<Rightarrow> bool \<Rightarrow> int \<Rightarrow> int \<Rightarrow> mp_directory" where
  "new_MountpointFsDirectory dirs root curIno parIno =
     \<lparr>currentItem = (if root \<and> dirs \<noteq> [] then fst (hd dirs) else []), currentInode = curIno, parentInode = parIno,
      is_first = True, is_last = False\<rparr>"

text \<open>The loop over the entries of the map: \<open>Some\<close> of the name of the entry that did not fit.\<close>

fun getdents_loop :: "int omap \<Rightarrow> dirbuf \<Rightarrow> string option \<times> dirbuf" where
  "getdents_loop [] b = (None, b)"
| "getdents_loop ((n, ino) # it) b =
     (case addEntry b ino DT_DIR n of (r, b') \<Rightarrow> if r > 0 then getdents_loop it b' else (Some n, b'))"

text \<open>\<^verbatim>\<open>getdents\<close> returns the number of bytes or an error, the entries written, and the directory object.\<close>

definition getdents :: "int omap \<Rightarrow> nat \<Rightarrow> mp_directory \<Rightarrow> int \<times> dirent list \<times> mp_directory" where
  "getdents dirs len d =
     (if len < minimumBufferSize then (- EINVAL, [], d)
      else if is_last d then (0, [], d)
      else
        let b = \<lparr>entries = [], pos = 0, size_of = len\<rparr>;
            b = (if is_first d then addDefaultEntries b (currentInode d) (parentInode d) else b);
            d = d\<lparr>is_first := False\<rparr>;
            finish = (\<lambda>b. let b = snd (addTerminatingEntry b) in (int (pos b), entries b, d\<lparr>is_last := True\<rparr>))
        in if currentItem d \<noteq> [] then
             let it = dropWhile (\<lambda>(n, _). n \<noteq> currentItem d) dirs in
             if it = [] then (- EBADF, entries b, d)
             else case getdents_loop it b of
               (Some n, b) \<Rightarrow> (int (pos b), entries b, d\<lparr>currentItem := n\<rparr>)
             | (None, b) \<Rightarrow> finish b
           else finish b)"

section \<open>The filesystem\<close>

record mountpoint_fs =
  dirs :: "int omap"
  inodeCount :: int
  filesystemId :: int
  parentFsMountpointInode :: int

abbreviation (input) rootDirInode :: int where "rootDirInode \<equiv> 1"

definition new_MountpointFs :: "int \<Rightarrow> mountpoint_fs" where
  "new_MountpointFs fsid = \<lparr>dirs = [], inodeCount = rootDirInode + 1, filesystemId = fsid, parentFsMountpointInode = 1\<rparr>"

text \<open>The flags that ask for anything but reading: \<^verbatim>\<open>O_WRONLY | O_RDWR | O_APPEND | O_CREAT | O_TRUNC\<close>.\<close>

abbreviation (input) write_flags :: u32 where "write_flags \<equiv> 0x060b"

definition mp_open :: "mountpoint_fs \<Rightarrow> string \<Rightarrow> u32 \<Rightarrow> int + mp_directory" where
  "mp_open fs name flags =
     (if and flags write_flags \<noteq> 0 then Inl (- EACCES)
      else if name = [] then
        Inr (new_MountpointFsDirectory (dirs fs) True rootDirInode (parentFsMountpointInode fs))
      else case map_of (dirs fs) name of
        None \<Rightarrow> Inl (- EACCES)
      | Some ino \<Rightarrow> Inr (new_MountpointFsDirectory (dirs fs) False ino rootDirInode))"

definition mp_lstat :: "mountpoint_fs \<Rightarrow> string \<Rightarrow> int \<times> stat" where
  "mp_lstat fs name =
     (let st = (\<lambda>ino. \<lparr>st_dev = filesystemId fs, st_ino = ino, st_mode = 0x41ed\<rparr>) in
      if name = [] then (0, st rootDirInode)
      else case map_of (dirs fs) name of
        None \<Rightarrow> (- ENOENT, \<lparr>st_dev = 0, st_ino = 0, st_mode = 0\<rparr>)
      | Some ino \<Rightarrow> (0, st ino))"

definition mp_unlink :: "mountpoint_fs \<Rightarrow> string \<Rightarrow> int \<times> mountpoint_fs" where
  "mp_unlink fs name = (- ENOENT, fs)"

definition mp_rename :: "mountpoint_fs \<Rightarrow> string \<Rightarrow> string \<Rightarrow> int \<times> mountpoint_fs" where
  "mp_rename fs oldName newName =
     (case map_of (dirs fs) oldName of
        None \<Rightarrow> (- ENOENT, fs)
      | Some ino \<Rightarrow>
          if slash_char \<in> set newName then (- EACCES, fs)
          else (0, fs\<lparr>dirs := omap_erase oldName (omap_set newName ino (dirs fs))\<rparr>))"

definition mp_mkdir :: "mountpoint_fs \<Rightarrow> string \<Rightarrow> int \<times> mountpoint_fs" where
  "mp_mkdir fs name =
     (if slash_char \<in> set name then (- EACCES, fs)
      else case omap_insert name (inodeCount fs) (dirs fs) of
        (m, False) \<Rightarrow> (- EEXIST, fs)
      | (m, True) \<Rightarrow> (0, fs\<lparr>dirs := m, inodeCount := inodeCount fs + 1\<rparr>))"

definition mp_rmdir :: "mountpoint_fs \<Rightarrow> string \<Rightarrow> int \<times> mountpoint_fs" where
  "mp_rmdir fs name =
     (if map_of (dirs fs) name \<noteq> None then (0, fs\<lparr>dirs := omap_erase name (dirs fs)\<rparr>) else (- ENOENT, fs))"

section \<open>Listing a directory\<close>

abbreviation dent :: "string \<times> int \<Rightarrow> dirent" where
  "dent x \<equiv> \<lparr>d_ino = snd x, d_reclen = reclen_of (fst x), d_type = DT_DIR, d_name = fst x\<rparr>"

lemma reclen_pos: "0 < reclen_of n"
  by (simp add: reclen_of_def)

lemma addEntry_cases:
  "addEntry b ino DT_DIR n = (if reclen_of n \<le> size_of b - pos b
     then (int (reclen_of n), b\<lparr>entries := entries b @ [dent (n, ino)], pos := pos b + reclen_of n\<rparr>) else (-1, b))"
  by (simp add: addEntry_def Let_def)

lemma getdents_loop_spec:
  "getdents_loop it b = (r, b') \<Longrightarrow>
     (case r of None \<Rightarrow> entries b' = entries b @ map dent it
      | Some n \<Rightarrow> \<exists>pre ino post. it = pre @ (n, ino) # post \<and> entries b' = entries b @ map dent pre \<and>
          (pre = [] \<longrightarrow> reclen_of n > size_of b - pos b))"
proof (induction it b arbitrary: r b' rule: getdents_loop.induct)
  case (2 n ino it b)
  show ?case
  proof (cases "reclen_of n \<le> size_of b - pos b")
    case True
    let ?b = "b\<lparr>entries := entries b @ [dent (n, ino)], pos := pos b + reclen_of n\<rparr>"
    have e: "addEntry b ino DT_DIR n = (int (reclen_of n), ?b)" using True by (simp add: addEntry_cases)
    have l: "getdents_loop it ?b = (r, b')" using 2(2) reclen_pos [of n] by (simp add: e)
    have ih: "case r of None \<Rightarrow> entries b' = entries ?b @ map dent it
      | Some n \<Rightarrow> \<exists>pre ino post. it = pre @ (n, ino) # post \<and> entries b' = entries ?b @ map dent pre \<and>
          (pre = [] \<longrightarrow> reclen_of n > size_of ?b - pos ?b)"
      by (rule 2(1) [OF e [symmetric] _ l]) (simp add: reclen_pos)
    show ?thesis
    proof (cases r)
      case None
      then show ?thesis using ih by simp
    next
      case (Some m)
      with ih obtain pre ino' post where "it = pre @ (m, ino') # post" "entries b' = entries ?b @ map dent pre" by auto
      then have "(n, ino) # it = ((n, ino) # pre) @ (m, ino') # post \<and> entries b' = entries b @ map dent ((n, ino) # pre) \<and>
          ((n, ino) # pre = [] \<longrightarrow> reclen_of m > size_of b - pos b)" by simp
      then show ?thesis unfolding Some option.case by blast
    qed
  next
    case False
    then have "r = Some n" "b' = b" using 2(2) by (simp_all add: addEntry_cases)
    then show ?thesis using False by (auto intro: exI [of _ "[]"])
  qed
qed simp

text \<open>Reading a directory to its end: \<open>n\<close> calls of \<open>getdents\<close> with a buffer of \<open>len\<close> bytes.\<close>

fun read_dir :: "nat \<Rightarrow> int omap \<Rightarrow> nat \<Rightarrow> mp_directory \<Rightarrow> dirent list \<times> mp_directory" where
  "read_dir 0 m len d = ([], d)"
| "read_dir (Suc n) m len d =
     (case getdents m len d of (r, es, d') \<Rightarrow>
        case read_dir n m len d' of (es', d'') \<Rightarrow> (filter (\<lambda>e. d_reclen e \<noteq> 0) es @ es', d''))"

lemma read_dir_end: "is_last d \<Longrightarrow> minimumBufferSize \<le> len \<Longrightarrow> read_dir n m len d = ([], d)"
  by (induction n) (simp_all add: getdents_def)

lemma filter_dents: "filter (\<lambda>e. d_reclen e \<noteq> 0) (map dent xs) = map dent xs"
  using reclen_pos by (induction xs) (auto simp: neq0_conv)

lemma terminating_entries:
  "filter (\<lambda>e. d_reclen e \<noteq> 0) (entries (snd (addTerminatingEntry b))) = filter (\<lambda>e. d_reclen e \<noteq> 0) (entries b)"
  by (simp add: addTerminatingEntry_def)

lemma dropWhile_key:
  assumes "m = pre @ (n, i) # post" "distinct (map fst m)"
  shows "dropWhile (\<lambda>(k, _). k \<noteq> n) m = (n, i) # post"
proof -
  have "\<forall>x\<in>set pre. fst x \<noteq> n" using assms by force
  then show ?thesis unfolding assms(1) by (induction pre) auto
qed

lemma read_dir_rest:
  assumes "distinct (map fst m)" "minimumBufferSize \<le> len" "\<forall>(n, i)\<in>set m. n \<noteq> [] \<and> reclen_of n \<le> len"
    "m = pre @ rest" "rest \<noteq> []" "currentItem d = fst (hd rest)" "\<not> is_first d" "\<not> is_last d" "length rest \<le> k"
  shows "\<exists>d'. read_dir k m len d = (map dent rest, d') \<and> is_last d'"
  using assms(4-9)
proof (induction "length rest" arbitrary: pre rest d k rule: less_induct)
  case less
  obtain n i tl where r: "rest = (n, i) # tl" using less.prems(2) by (cases rest) auto
  obtain k' where k: "k = Suc k'" using less.prems r by (cases k) auto
  have n: "n \<noteq> []" "reclen_of n \<le> len" using assms(3) less.prems(1) r by auto
  have it: "dropWhile (\<lambda>(k, _). k \<noteq> currentItem d) m = rest"
    using dropWhile_key [OF _ assms(1), of pre n i tl] less.prems(1,3) r by simp
  define b where "b = \<lparr>entries = [], pos = 0, size_of = len\<rparr>"
  obtain o' b' where l: "getdents_loop rest b = (o', b')" by fastforce
  note ls = getdents_loop_spec [OF l]
  show ?case
  proof (cases o')
    case None
    with ls have e: "entries b' = map dent rest" by (simp add: b_def)
    define t where "t = snd (addTerminatingEntry b')"
    have "getdents m len d = (int (pos t), entries t, d\<lparr>is_first := False, is_last := True\<rparr>)"
      using assms(2) less.prems n r it l None by (simp add: getdents_def Let_def b_def t_def)
    then show ?thesis using terminating_entries [of b'] assms(2) e filter_dents [of rest]
      by (simp add: k read_dir_end t_def)
  next
    case (Some q)
    with ls obtain pr ino post where s: "rest = pr @ (q, ino) # post" "entries b' = map dent pr"
      "pr = [] \<longrightarrow> reclen_of q > len" by (auto simp: b_def)
    have pr: "pr \<noteq> []" using s(1,3) r n by auto
    then have lk: "length ((q, ino) # post) \<le> k'" using s(1) k less.prems(6) by (cases pr) auto
    let ?d = "d\<lparr>is_first := False, currentItem := q\<rparr>"
    have g: "getdents m len d = (int (pos b'), entries b', ?d)"
      using assms(2) less.prems n r it l Some by (simp add: getdents_def Let_def b_def)
    have "\<exists>d'. read_dir k' m len ?d = (map dent ((q, ino) # post), d') \<and> is_last d'"
      by (rule less.hyps [of "(q, ino) # post" "pre @ pr"])
        (use s pr lk less.prems in \<open>simp_all\<close>)
    then show ?thesis using g s(1,2) filter_dents [of pr] by (auto simp: k)
  qed
qed

definition dot_entries :: "int \<Rightarrow> int \<Rightarrow> dirent list" where
  "dot_entries cur par = [\<lparr>d_ino = cur, d_reclen = direntHeaderSize, d_type = DT_DIR, d_name = ''.''\<rparr>,
     \<lparr>d_ino = par, d_reclen = direntHeaderSize, d_type = DT_DIR, d_name = ''..''\<rparr>]"

lemma dot_entries_filter: "filter (\<lambda>e. d_reclen e \<noteq> 0) (dot_entries c p) = dot_entries c p"
  by (simp add: dot_entries_def direntHeaderSize_def)

lemma read_dir_below:
  assumes "minimumBufferSize \<le> len"
  shows "\<exists>d'. read_dir (n + 1) m len (new_MountpointFsDirectory m False cur par) = (dot_entries cur par, d') \<and> is_last d'"
proof -
  let ?d = "new_MountpointFsDirectory m False cur par"
  define b where "b = \<lparr>entries = dot_entries cur par, pos = 2 * direntHeaderSize, size_of = len\<rparr>"
  have b: "addDefaultEntries \<lparr>entries = [], pos = 0, size_of = len\<rparr> cur par = b"
    by (simp add: addDefaultEntries_def b_def dot_entries_def)
  have len: "\<not> len < minimumBufferSize" using assms by simp
  define t where "t = snd (addTerminatingEntry b)"
  have "getdents m len ?d = (int (pos t), entries t, ?d\<lparr>is_first := False, is_last := True\<rparr>)"
    using len b by (simp add: getdents_def new_MountpointFsDirectory_def Let_def t_def)
  then show ?thesis using terminating_entries [of b] dot_entries_filter [of cur par] assms
    by (simp add: t_def b_def read_dir_end)
qed

lemma read_dir_first:
  assumes "distinct (map fst m)" "minimumBufferSize \<le> len" "\<forall>(n, i)\<in>set m. n \<noteq> [] \<and> reclen_of n \<le> len"
  shows "\<exists>d'. read_dir (length m + 1) m len (new_MountpointFsDirectory m True cur par) =
      (dot_entries cur par @ map dent m, d') \<and> is_last d'"
proof -
  let ?d = "new_MountpointFsDirectory m True cur par"
  define b where "b = \<lparr>entries = dot_entries cur par, pos = 2 * direntHeaderSize, size_of = len\<rparr>"
  have b: "addDefaultEntries \<lparr>entries = [], pos = 0, size_of = len\<rparr> cur par = b"
    by (simp add: addDefaultEntries_def b_def dot_entries_def)
  have len: "\<not> len < minimumBufferSize" using assms(2) by simp
  show ?thesis
  proof (cases m)
    case Nil
    define t where "t = snd (addTerminatingEntry b)"
    have "getdents m len ?d = (int (pos t), entries t, ?d\<lparr>is_first := False, is_last := True\<rparr>)"
      using len Nil b by (simp add: getdents_def new_MountpointFsDirectory_def Let_def t_def)
    then show ?thesis using terminating_entries [of b] dot_entries_filter [of cur par] Nil
      by (simp add: t_def b_def)
  next
    case (Cons x ms)
    obtain n i where x: "x = (n, i)" by (cases x)
    have n: "n \<noteq> []" using assms(3) Cons x by auto
    have it: "dropWhile (\<lambda>(k, _). k \<noteq> n) m = m" using Cons x by simp
    obtain o' b' where l: "getdents_loop m b = (o', b')" by fastforce
    note ls = getdents_loop_spec [OF l]
    have g: "getdents m len ?d = (case o' of
        Some n \<Rightarrow> (int (pos b'), entries b', ?d\<lparr>is_first := False, currentItem := n\<rparr>)
      | None \<Rightarrow> (let t = snd (addTerminatingEntry b') in (int (pos t), entries t, ?d\<lparr>is_first := False, is_last := True\<rparr>)))"
      using len b l it n Cons x by (simp add: getdents_def new_MountpointFsDirectory_def Let_def split: option.split)
    show ?thesis
    proof (cases o')
      case None
      then show ?thesis using ls g terminating_entries [of b'] dot_entries_filter [of cur par] filter_dents [of m] assms(2)
        by (simp add: Let_def b_def read_dir_end)
    next
      case (Some q)
      with ls obtain pr ino post where s: "m = pr @ (q, ino) # post" "entries b' = dot_entries cur par @ map dent pr"
        by (auto simp: b_def)
      let ?d' = "?d\<lparr>is_first := False, currentItem := q\<rparr>"
      have "\<exists>d'. read_dir (length m) m len ?d' = (map dent ((q, ino) # post), d') \<and> is_last d'"
        by (rule read_dir_rest [OF assms s(1)]) (simp_all add: s(1) new_MountpointFsDirectory_def)
      then show ?thesis using g Some s dot_entries_filter [of cur par] filter_dents [of pr] by auto
    qed
  qed
qed

section \<open>The contract of a filesystem of directories\<close>

text \<open>
  What the kernel relies on to make mount points: directories have names without slashes, each with an inode of its
  own, and creation, removal and renaming change the map from names to inodes and nothing else.
\<close>

locale directory_fs =
  fixes ok :: "'s \<Rightarrow> bool" and inode :: "'s \<Rightarrow> string \<Rightarrow> int option"
    and mkdir rmdir :: "'s \<Rightarrow> string \<Rightarrow> int \<times> 's" and rename :: "'s \<Rightarrow> string \<Rightarrow> string \<Rightarrow> int \<times> 's"
  assumes mkdir_ok: "ok s \<Longrightarrow> mkdir s n = (r, s') \<Longrightarrow> ok s'"
    and rmdir_ok: "ok s \<Longrightarrow> rmdir s n = (r, s') \<Longrightarrow> ok s'"
    and rename_ok: "ok s \<Longrightarrow> rename s n n' = (r, s') \<Longrightarrow> ok s'"
    and fresh: "ok s \<Longrightarrow> inode s n = Some i \<Longrightarrow> inode s n' = Some i \<Longrightarrow> n = n'"
    and mkdir_new: "ok s \<Longrightarrow> CHR ''/'' \<notin> set n \<Longrightarrow> inode s n = None \<Longrightarrow>
      \<exists>i s'. mkdir s n = (0, s') \<and> inode s' = (inode s)(n \<mapsto> i)"
    and mkdir_old: "ok s \<Longrightarrow> inode s n \<noteq> None \<Longrightarrow> fst (mkdir s n) < 0 \<and> snd (mkdir s n) = s"
    and rmdir_old: "ok s \<Longrightarrow> inode s n \<noteq> None \<Longrightarrow> \<exists>s'. rmdir s n = (0, s') \<and> inode s' = (inode s)(n := None)"
    and rmdir_new: "ok s \<Longrightarrow> inode s n = None \<Longrightarrow> fst (rmdir s n) < 0 \<and> snd (rmdir s n) = s"
    and rename_old: "ok s \<Longrightarrow> inode s n = Some i \<Longrightarrow> CHR ''/'' \<notin> set n' \<Longrightarrow>
      \<exists>s'. rename s n n' = (0, s') \<and> inode s' = (inode s)(n' \<mapsto> i, n := None)"
begin

text \<open>A sequence of creations of distinct names that do not exist succeeds and makes exactly these names.\<close>

lemma mkdirs:
  assumes "ok s" "distinct ns" "\<forall>n\<in>set ns. CHR ''/'' \<notin> set n \<and> inode s n = None"
  shows "\<exists>s'. fold (\<lambda>n (r, s). case mkdir s n of (r', s') \<Rightarrow> (r @ [r'], s')) ns ([], s) = (replicate (length ns) 0, s')
    \<and> ok s' \<and> dom (inode s') = dom (inode s) \<union> set ns"
proof -
  have "\<exists>s'. fold (\<lambda>n (r, s). case mkdir s n of (r', s') \<Rightarrow> (r @ [r'], s')) ns (rs, s) = (rs @ replicate (length ns) 0, s')
      \<and> ok s' \<and> dom (inode s') = dom (inode s) \<union> set ns" for rs
    using assms
  proof (induction ns arbitrary: s rs)
    case (Cons n ns)
    from mkdir_new [of s n] Cons.prems obtain i s1 where s1: "mkdir s n = (0, s1)" "inode s1 = (inode s)(n \<mapsto> i)" by auto
    have o: "ok s1" using mkdir_ok Cons.prems(1) s1(1) .
    have "\<forall>n'\<in>set ns. CHR ''/'' \<notin> set n' \<and> inode s1 n' = None" using Cons.prems s1(2) by auto
    from Cons.IH [OF o _ this, of "rs @ [0]"] Cons.prems(2) obtain s' where
      "fold (\<lambda>n (r, s). case mkdir s n of (r', s') \<Rightarrow> (r @ [r'], s')) ns (rs @ [0], s1) =
        (rs @ [0] @ replicate (length ns) 0, s')" "ok s'" "dom (inode s') = dom (inode s1) \<union> set ns" by auto
    moreover have "dom (inode s1) = insert n (dom (inode s))" using s1(2) by auto
    ultimately show ?case using s1(1) by simp
  qed simp
  from this [of "[]"] show ?thesis by simp
qed

text \<open>Renaming keeps the inode, and making and removing a directory restores the names.\<close>

lemma mkdir_rmdir:
  assumes "ok s" "CHR ''/'' \<notin> set n" "inode s n = None" "mkdir s n = (r, s1)" "rmdir s1 n = (r', s2)"
  shows "r = 0 \<and> r' = 0 \<and> inode s2 = inode s"
proof -
  from mkdir_new [OF assms(1-3)] assms(4) obtain i where i: "r = 0" "inode s1 = (inode s)(n \<mapsto> i)" by auto
  have "ok s1" using mkdir_ok [OF assms(1,4)] .
  with rmdir_old [of s1 n] i(2) assms(5) have "r' = 0" "inode s2 = (inode s1)(n := None)" by auto
  with i assms(3) show ?thesis by (auto simp: fun_eq_iff)
qed

lemma rename_other:
  assumes "ok s" "inode s n = Some i" "CHR ''/'' \<notin> set n'" "n \<noteq> n'" "rename s n n' = (r, s')"
  shows "r = 0 \<and> inode s' n' = Some i \<and> inode s' n = None"
  using rename_old [OF assms(1-3)] assms(4,5) by auto

end

definition mp_inv :: "mountpoint_fs \<Rightarrow> bool" where
  "mp_inv fs \<longleftrightarrow> omap (dirs fs) \<and> (\<forall>n i. map_of (dirs fs) n = Some i \<longrightarrow> rootDirInode < i \<and> i < inodeCount fs) \<and>
     (\<forall>n n' i. map_of (dirs fs) n = Some i \<longrightarrow> map_of (dirs fs) n' = Some i \<longrightarrow> n = n') \<and> rootDirInode < inodeCount fs"

lemma mp_mkdir_map:
  assumes "omap (dirs fs)"
  shows "slash_char \<notin> set n \<Longrightarrow> map_of (dirs fs) n = None \<Longrightarrow> \<exists>m. mp_mkdir fs n = (0, fs\<lparr>dirs := m, inodeCount := inodeCount fs + 1\<rparr>)
      \<and> omap m \<and> map_of m = (map_of (dirs fs))(n \<mapsto> inodeCount fs)"
    and "map_of (dirs fs) n \<noteq> None \<or> slash_char \<in> set n \<Longrightarrow> \<exists>e<0. mp_mkdir fs n = (e, fs)"
  using omap_insert_spec [OF assms, of n "inodeCount fs"]
  by (auto simp: mp_mkdir_def split: prod.splits bool.splits)

lemma mp_mkdir_inv:
  assumes "mp_inv fs" "mp_mkdir fs n = (r, fs')"
  shows "mp_inv fs'"
proof (cases "slash_char \<in> set n \<or> map_of (dirs fs) n \<noteq> None")
  case True
  then show ?thesis using mp_mkdir_map(2) [of fs n] assms by (auto simp: mp_inv_def)
next
  case False
  then obtain m where "fs' = fs\<lparr>dirs := m, inodeCount := inodeCount fs + 1\<rparr>" "omap m"
    "map_of m = (map_of (dirs fs))(n \<mapsto> inodeCount fs)"
    using mp_mkdir_map(1) [of fs n] assms by (auto simp: mp_inv_def)
  then show ?thesis using assms(1) unfolding mp_inv_def by (auto split: if_splits; fastforce)
qed

lemma mp_rmdir_inv:
  assumes "mp_inv fs" "mp_rmdir fs n = (r, fs')"
  shows "mp_inv fs'"
  using assms omap_erase_spec [of "dirs fs" n] by (auto simp: mp_rmdir_def mp_inv_def split: if_splits)

lemma mp_rename_map:
  assumes "omap (dirs fs)" "map_of (dirs fs) n = Some i" "slash_char \<notin> set n'"
  shows "\<exists>m. mp_rename fs n n' = (0, fs\<lparr>dirs := m\<rparr>) \<and> omap m \<and> map_of m = (map_of (dirs fs))(n' \<mapsto> i, n := None)"
  using assms omap_set_spec [OF assms(1), of n' i] omap_erase_spec [of "omap_set n' i (dirs fs)" n]
  by (intro exI [of _ "omap_erase n (omap_set n' i (dirs fs))"]) (simp add: mp_rename_def)

lemma mp_rename_inv:
  assumes "mp_inv fs" "mp_rename fs n n' = (r, fs')"
  shows "mp_inv fs'"
proof (cases "map_of (dirs fs) n")
  case (Some i)
  show ?thesis
  proof (cases "slash_char \<in> set n'")
    case False
    have o: "omap (dirs fs)" using assms(1) by (simp add: mp_inv_def)
    from mp_rename_map [OF o Some False] assms(2) obtain m where "fs' = fs\<lparr>dirs := m\<rparr>" "omap m"
      "map_of m = (map_of (dirs fs))(n' \<mapsto> i, n := None)" by auto
    then show ?thesis using assms(1) Some unfolding mp_inv_def by (auto split: if_splits)
  qed (use assms Some in \<open>simp add: mp_rename_def\<close>)
qed (use assms in \<open>simp add: mp_rename_def\<close>)

interpretation mp: directory_fs mp_inv "\<lambda>fs. map_of (dirs fs)" mp_mkdir mp_rmdir mp_rename
proof
  show "\<exists>i s'. mp_mkdir s n = (0, s') \<and> map_of (dirs s') = (map_of (dirs s))(n \<mapsto> i)"
    if "mp_inv s" "CHR ''/'' \<notin> set n" "map_of (dirs s) n = None" for s n
    using mp_mkdir_map(1) [of s n] that by (auto simp: mp_inv_def)
  show "fst (mp_mkdir s n) < 0 \<and> snd (mp_mkdir s n) = s" if "mp_inv s" "map_of (dirs s) n \<noteq> None" for s n
    using mp_mkdir_map(2) [of s n] that by (auto simp: mp_inv_def)
  show "\<exists>s'. mp_rmdir s n = (0, s') \<and> map_of (dirs s') = (map_of (dirs s))(n := None)"
    if "mp_inv s" "map_of (dirs s) n \<noteq> None" for s n
    using omap_erase_spec [of "dirs s" n] that by (simp add: mp_rmdir_def mp_inv_def)
  show "fst (mp_rmdir s n) < 0 \<and> snd (mp_rmdir s n) = s" if "mp_inv s" "map_of (dirs s) n = None" for s n
    using that by (simp add: mp_rmdir_def)
  show "\<exists>s'. mp_rename s n n' = (0, s') \<and> map_of (dirs s') = (map_of (dirs s))(n' \<mapsto> i, n := None)"
    if "mp_inv s" "map_of (dirs s) n = Some i" "CHR ''/'' \<notin> set n'" for s n i n'
    using mp_rename_map [of s n i n'] that by (auto simp: mp_inv_def)
  show "n = n'" if "mp_inv s" "map_of (dirs s) n = Some i" "map_of (dirs s) n' = Some i" for s n n' i
    using that unfolding mp_inv_def by blast
qed (auto dest: mp_mkdir_inv mp_rmdir_inv mp_rename_inv)

section \<open>Properties\<close>

text \<open>C17. Reading a directory of a \<open>MountpointFs\<close> that was just opened, the root directory or one below it, lists everything once:
  with a buffer of at least the minimum size that every entry fits in, as many calls of \<open>getdents\<close> as there are directories
  and one more, with no change in between, return the entries \<^verbatim>\<open>.\<close> and \<^verbatim>\<open>..\<close> with the inodes of the directory and of the one above it,
  and then, for the root directory, every directory exactly once with its inode, in the order of the names, and nothing else below
  the root, as there are no subdirectories; the calls after them return 0. For the root directory this
  needs that no directory has the empty name (the code lets one be made, and it then hides the others).\<close>

theorem getdents_lists_every_entry_once:
  assumes "omap (dirs fs)" and "minimumBufferSize \<le> len" and "mp_open fs name flags = Inr d"
    and "name = [] \<Longrightarrow> \<forall>(n, i)\<in>set (dirs fs). n \<noteq> [] \<and> reclen_of n \<le> len"
  shows "\<exists>es d'. read_dir (length (dirs fs) + 1) (dirs fs) len d = (es, d')
    \<and> map d_name es = [''.'', ''..''] @ (if name = [] then map fst (dirs fs) else [])
    \<and> map d_ino es = (if name = [] then [1, parentFsMountpointInode fs] @ map snd (dirs fs) else [the (map_of (dirs fs) name), 1])
    \<and> getdents (dirs fs) len d' = (0, [], d')"
proof (cases "name = []")
  case True
  have d: "d = new_MountpointFsDirectory (dirs fs) True 1 (parentFsMountpointInode fs)"
    using assms(3) True by (simp add: mp_open_def split: if_splits)
  have "distinct (map fst (dirs fs))" using assms(1) by (simp add: omap_def)
  from read_dir_first [OF this assms(2) assms(4) [OF True], of 1 "parentFsMountpointInode fs"] obtain d' where
    "read_dir (length (dirs fs) + 1) (dirs fs) len d = (dot_entries 1 (parentFsMountpointInode fs) @ map dent (dirs fs), d')"
    "is_last d'" unfolding d by blast
  then show ?thesis using assms(2) True by (auto simp: dot_entries_def comp_def getdents_def)
next
  case False
  then obtain i where d: "map_of (dirs fs) name = Some i" "d = new_MountpointFsDirectory (dirs fs) False i 1"
    using assms(3) by (auto simp: mp_open_def split: if_splits option.splits)
  from read_dir_below [OF assms(2), of "length (dirs fs)" "dirs fs" i 1] obtain d' where
    "read_dir (length (dirs fs) + 1) (dirs fs) len d = (dot_entries i 1, d')" "is_last d'" unfolding d(2) by blast
  then show ?thesis using assms(2) False d(1) by (auto simp: dot_entries_def getdents_def)
qed

definition demo_fs :: mountpoint_fs where
  "demo_fs = snd (mp_mkdir (snd (mp_mkdir (new_MountpointFs 1) ''sd'')) ''dev'')"

theorem getdents_lists_every_entry_once_witness:
  "\<exists>es d'. read_dir 3 [(''dev'', 3), (''sd'', 2)] 72 (new_MountpointFsDirectory [(''dev'', 3), (''sd'', 2)] True 1 1) = (es, d')
    \<and> map d_name es = [''.'', ''..'', ''dev'', ''sd''] \<and> map d_ino es = [1, 1, 3, 2]"
proof -
  have f: "demo_fs = \<lparr>dirs = [(''dev'', 3), (''sd'', 2)], inodeCount = 4, filesystemId = 1, parentFsMountpointInode = 1\<rparr>"
    by code_simp
  have "omap (dirs demo_fs)" "minimumBufferSize \<le> 72"
    "mp_open demo_fs [] 0 = Inr (new_MountpointFsDirectory [(''dev'', 3), (''sd'', 2)] True 1 1)"
    "\<forall>(n, i)\<in>set (dirs demo_fs). n \<noteq> [] \<and> reclen_of n \<le> 72"
    unfolding f by code_simp+
  from getdents_lists_every_entry_once [OF this] show ?thesis
    unfolding f by (auto simp: numeral_3_eq_3 simp del: read_dir.simps)
qed

text \<open>C30. Making, removing and renaming directories. A name is made if and only if it is new and has no slash, with
  an inode that was never used; making and removing it leaves the directories as they were (the inode is not used again). A
  name that exists is removed. A directory that exists is renamed to any name without a slash: to another name it keeps its inode,
  and a directory that had that name is lost; renamed to its own name it is removed. A call that fails changes nothing, and
  the invariant (sorted names, distinct inodes) is kept by every operation.\<close>

theorem mountpoint_directories:
  assumes "mp_inv fs"
  shows "(case mp_mkdir fs n of (r, fs') \<Rightarrow> mp_inv fs' \<and>
      (if CHR ''/'' \<notin> set n \<and> map_of (dirs fs) n = None
       then r = 0 \<and> map_of (dirs fs') = (map_of (dirs fs))(n \<mapsto> inodeCount fs) \<and>
         (case mp_rmdir fs' n of (r', fs'') \<Rightarrow> r' = 0 \<and> mp_inv fs'' \<and> map_of (dirs fs'') = map_of (dirs fs) \<and>
            inodeCount fs'' = inodeCount fs + 1)
       else r < 0 \<and> fs' = fs))
    \<and> (case mp_rmdir fs n of (r, fs') \<Rightarrow> mp_inv fs' \<and> (r = 0 \<longleftrightarrow> map_of (dirs fs) n \<noteq> None)
      \<and> map_of (dirs fs') = (map_of (dirs fs))(n := None) \<and> (r \<noteq> 0 \<longrightarrow> fs' = fs))
    \<and> (case mp_rename fs n n' of (r, fs') \<Rightarrow> mp_inv fs' \<and> (r = 0 \<longleftrightarrow> map_of (dirs fs) n \<noteq> None \<and> CHR ''/'' \<notin> set n') \<and>
      (r = 0 \<and> n \<noteq> n' \<longrightarrow> map_of (dirs fs') n' = map_of (dirs fs) n \<and> map_of (dirs fs') n = None) \<and>
      (r = 0 \<longrightarrow> map_of (dirs fs') = (map_of (dirs fs))(n' := map_of (dirs fs) n, n := None)) \<and> (r \<noteq> 0 \<longrightarrow> fs' = fs))"
proof (intro conjI)
  obtain r fs' where m: "mp_mkdir fs n = (r, fs')" by fastforce
  obtain r' fs'' where m': "mp_rmdir fs' n = (r', fs'')" by fastforce
  have i: "mp_inv fs'" by (rule mp_mkdir_inv [OF assms m])
  have o: "omap (dirs fs)" using assms by (simp add: mp_inv_def)
  have c: "inodeCount fs'' = inodeCount fs'" using m' by (auto simp: mp_rmdir_def split: if_splits)
  show "case mp_mkdir fs n of (r, fs') \<Rightarrow> mp_inv fs' \<and>
      (if CHR ''/'' \<notin> set n \<and> map_of (dirs fs) n = None
       then r = 0 \<and> map_of (dirs fs') = (map_of (dirs fs))(n \<mapsto> inodeCount fs) \<and>
         (case mp_rmdir fs' n of (r', fs'') \<Rightarrow> r' = 0 \<and> mp_inv fs'' \<and> map_of (dirs fs'') = map_of (dirs fs) \<and>
            inodeCount fs'' = inodeCount fs + 1)
       else r < 0 \<and> fs' = fs)"
    using mp_mkdir_map [OF o, of n] mp.mkdir_rmdir [OF assms _ _ m m'] mp_rmdir_inv [OF i m'] i m m' c by auto
  obtain q gs where q: "mp_rmdir fs n = (q, gs)" by fastforce
  show "case mp_rmdir fs n of (r, fs') \<Rightarrow> mp_inv fs' \<and> (r = 0 \<longleftrightarrow> map_of (dirs fs) n \<noteq> None)
      \<and> map_of (dirs fs') = (map_of (dirs fs))(n := None) \<and> (r \<noteq> 0 \<longrightarrow> fs' = fs)"
    using mp.rmdir_old [OF assms, of n] mp.rmdir_new [OF assms, of n] mp_rmdir_inv [OF assms q] q
    by (cases "map_of (dirs fs) n") (auto simp: fun_eq_iff)
  obtain p hs where p: "mp_rename fs n n' = (p, hs)" by fastforce
  have "map_of (dirs hs) = (map_of (dirs fs))(n' := map_of (dirs fs) n, n := None)" if "p = 0"
  proof -
    from that p obtain i where i: "map_of (dirs fs) n = Some i" "CHR ''/'' \<notin> set n'"
      by (auto simp: mp_rename_def split: option.splits if_splits)
    from mp_rename_map [OF o this] p i(1) show ?thesis by auto
  qed
  then show "case mp_rename fs n n' of (r, fs') \<Rightarrow> mp_inv fs' \<and> (r = 0 \<longleftrightarrow> map_of (dirs fs) n \<noteq> None \<and> CHR ''/'' \<notin> set n') \<and>
      (r = 0 \<and> n \<noteq> n' \<longrightarrow> map_of (dirs fs') n' = map_of (dirs fs) n \<and> map_of (dirs fs') n = None) \<and>
      (r = 0 \<longrightarrow> map_of (dirs fs') = (map_of (dirs fs))(n' := map_of (dirs fs) n, n := None)) \<and> (r \<noteq> 0 \<longrightarrow> fs' = fs)"
    using mp_rename_inv [OF assms p] mp.rename_other [OF assms _ _ _ p] p
    by (auto simp: mp_rename_def split: option.splits if_splits)
qed

theorem mountpoint_directories_witness:
  "map_of (dirs (snd (mp_mkdir demo_fs ''bin''))) ''bin'' \<noteq> None"
proof -
  have "mp_inv (new_MountpointFs 1)" by (simp add: mp_inv_def new_MountpointFs_def omap_def)
  then have "mp_inv demo_fs" unfolding demo_fs_def by (metis mp_mkdir_inv prod.collapse)
  moreover have "map_of (dirs demo_fs) ''bin'' = None" by code_simp
  ultimately show ?thesis using mountpoint_directories [of demo_fs "''bin''" "''x''"] by (auto split: prod.splits)
qed

text \<open>Renaming a directory to its own name returns 0 and removes it.\<close>

theorem rename_to_itself_removes:
  "case mp_rename demo_fs ''dev'' ''dev'' of (r, fs') \<Rightarrow> r = 0 \<and> map fst (dirs demo_fs) = [''dev'', ''sd''] \<and> map fst (dirs fs') = [''sd'']"
  by code_simp

text \<open>\<^verbatim>\<open>mkdir("/")\<close> on a \<open>MountpointFs\<close> is not refused: the path of the root directory relative to the filesystem is empty,
  an entry with an empty name is made, and since it sorts first and an empty name stands for the end of
  the directory, the root directory lists no entry any more.\<close>

theorem mkdir_root_hides_directories:
  "case mp_mkdir demo_fs [] of (r, fs') \<Rightarrow> r = 0 \<and> map fst (dirs fs') = [[], ''dev'', ''sd'']
     \<and> (case mp_open fs' [] 0 of Inl e \<Rightarrow> False
        | Inr d \<Rightarrow> case getdents (dirs fs') (72 + k) d of (n, es, d') \<Rightarrow>
            is_last d' \<and> map d_name (filter (\<lambda>e. d_reclen e \<noteq> 0) es) = [''.'', ''..''])"
proof -
  have m: "mp_mkdir demo_fs [] = (0, \<lparr>dirs = [([], 4), (''dev'', 3), (''sd'', 2)], inodeCount = 5, filesystemId = 1,
      parentFsMountpointInode = 1\<rparr>)" by code_simp
  show ?thesis unfolding m
    by (simp add: mp_open_def getdents_def new_MountpointFsDirectory_def Let_def addDefaultEntries_def
        addTerminatingEntry_def direntHeaderSize_def minimumBufferSize_def)
qed

end
