(* ===== verification/File_Access.thy ===== *)
theory File_Access
  imports Mountpoint_Fs
begin

text \<open>
  The file descriptor tables and the table of the mounted filesystems (\<^verbatim>\<open>filesystem/file_access.h\<close>,
  \<^verbatim>\<open>filesystem/file_access.cpp\<close>). The state holds the mounted filesystems, the file descriptor tables of all processes (the
  kernel without processes has one) and the state of the filesystems, which only their own operations change;
  these virtual functions of \<^verbatim>\<open>FilesystemBase\<close> are a record of functions. A file object is its identity and its parent
  filesystem. A \<^verbatim>\<open>const char*\<close> argument is an optional string. Every operation that changes the mounted filesystems runs with the
  mutex of \<^verbatim>\<open>FilesystemManager\<close> locked, so it is one step.
\<close>

section \<open>The state\<close>

record 'f file_base =
  fid :: nat
  parent :: "'f option"

record 'f fd_table =
  cwd :: string
  files :: "'f file_base option list"

record ('f, 'w) fs_ops =
  o_syms :: "'f \<Rightarrow> bool"
  o_lstat :: "'f \<Rightarrow> string \<Rightarrow> 'w \<Rightarrow> int \<times> stat"
  o_readlink :: "'f \<Rightarrow> string \<Rightarrow> 'w \<Rightarrow> int \<times> string"
  o_open :: "'f \<Rightarrow> string \<Rightarrow> u32 \<Rightarrow> int \<Rightarrow> 'w \<Rightarrow> int \<times> 'f file_base option \<times> 'w"
  o_unlink :: "'f \<Rightarrow> string \<Rightarrow> 'w \<Rightarrow> int \<times> 'w"
  o_rename :: "'f \<Rightarrow> string \<Rightarrow> string \<Rightarrow> 'w \<Rightarrow> int \<times> 'w"
  o_mkdir :: "'f \<Rightarrow> string \<Rightarrow> int \<Rightarrow> 'w \<Rightarrow> int \<times> 'w"
  o_rmdir :: "'f \<Rightarrow> string \<Rightarrow> 'w \<Rightarrow> int \<times> 'w"
  o_setParent :: "'f \<Rightarrow> int \<Rightarrow> 'w \<Rightarrow> 'w"

record ('f, 'w) vfs =
  filesystems :: "'f omap"
  tables :: "'f fd_table list"
  world :: 'w

abbreviation (input) MAX_OPEN_FILES :: nat where "MAX_OPEN_FILES \<equiv> 8"

definition view :: "('f, 'w) fs_ops \<Rightarrow> ('f, 'w) vfs \<Rightarrow> 'f fs_view" where
  "view ops s = \<lparr>supportsSymlinks = o_syms ops, fs_lstat = (\<lambda>f n. o_lstat ops f n (world s)),
     fs_readlink = (\<lambda>f n. o_readlink ops f n (world s))\<rparr>"

definition resolve :: "('f, 'w) fs_ops \<Rightarrow> ('f, 'w) vfs \<Rightarrow> string \<Rightarrow> bool \<Rightarrow> 'f resolved" where
  "resolve ops s path follow = resolvePath (view ops s) (map_of (filesystems s)) path follow"

section \<open>File descriptors\<close>

definition getFile :: "'f fd_table \<Rightarrow> int \<Rightarrow> 'f file_base option" where
  "getFile t fd = (if fd < 0 \<or> fd \<ge> int MAX_OPEN_FILES then None else files t ! nat fd)"

definition new_FileDescriptorTable :: "'f file_base \<Rightarrow> 'f fd_table" where
  "new_FileDescriptorTable terminal =
     \<lparr>cwd = ''/'', files = (replicate MAX_OPEN_FILES None)[0 := Some terminal, 1 := Some terminal, 2 := Some terminal]\<rparr>"

text \<open>The copy constructor shares the files and the working directory, the assignment only the files.\<close>

definition copy_FileDescriptorTable :: "'f fd_table \<Rightarrow> 'f fd_table" where
  "copy_FileDescriptorTable rhs = \<lparr>cwd = cwd rhs, files = files rhs\<rparr>"

definition assign_FileDescriptorTable :: "'f fd_table \<Rightarrow> 'f fd_table \<Rightarrow> 'f fd_table" where
  "assign_FileDescriptorTable tb rhs = tb\<lparr>files := files rhs\<rparr>"

definition addFileDescriptorTable :: "'f fd_table \<Rightarrow> ('f, 'w) vfs \<Rightarrow> ('f, 'w) vfs" where
  "addFileDescriptorTable tb s = s\<lparr>tables := tables s @ [tb]\<rparr>"

definition removeFileDescriptorTable :: "nat \<Rightarrow> ('f, 'w) vfs \<Rightarrow> ('f, 'w) vfs" where
  "removeFileDescriptorTable t s = s\<lparr>tables := take t (tables s) @ drop (t + 1) (tables s)\<rparr>"

definition absolutePath :: "'f fd_table \<Rightarrow> string \<Rightarrow> string" where
  "absolutePath t path =
     (if length path > PATH_MAX then []
      else if path \<noteq> [] \<and> hd path = slash_char then path
      else if length path + length (cwd t) > PATH_MAX then []
      else cwd t @ path)"

definition with_table :: "('f, 'w) vfs \<Rightarrow> nat \<Rightarrow> 'f fd_table \<Rightarrow> ('f, 'w) vfs" where
  "with_table s t tb = s\<lparr>tables := (tables s)[t := tb]\<rparr>"

text \<open>\<^verbatim>\<open>open\<close>: the first free descriptor from 3 on.\<close>

definition first_free :: "'f fd_table \<Rightarrow> nat option" where
  "first_free tb = find (\<lambda>i. files tb ! i = None) [3..<MAX_OPEN_FILES]"

definition open_file :: "('f, 'w) fs_ops \<Rightarrow> nat \<Rightarrow> string option \<Rightarrow> u32 \<Rightarrow> int \<Rightarrow> ('f, 'w) vfs \<Rightarrow> int \<times> ('f, 'w) vfs" where
  "open_file ops t name flags mode s =
     (if name = None \<or> name = Some [] then (- EFAULT, s)
      else
        let tb = tables s ! t in
        case first_free tb of
          None \<Rightarrow> (- ENFILE, s)
        | Some i \<Rightarrow>
            let path = absolutePath tb (the name) in
            if path = [] then (- ENAMETOOLONG, s)
            else case resolve ops s path True of
              (Inl e, _) \<Rightarrow> (e, s)
            | (Inr (f, off), path) \<Rightarrow>
                (case o_open ops f (drop off path) flags mode (world s) of (result, fl, w) \<Rightarrow>
                   let s = s\<lparr>world := w\<rparr>;
                       s = (case fl of None \<Rightarrow> s | Some x \<Rightarrow> with_table s t (tb\<lparr>files := (files tb)[i := Some x]\<rparr>))
                   in (if result = 0 then int i else result, s)))"

definition close_file :: "'f fd_table \<Rightarrow> int \<Rightarrow> int \<times> 'f fd_table" where
  "close_file tb fd =
     (if fd < 0 \<or> fd \<ge> int MAX_OPEN_FILES then (- EBADF, tb)
      else let tb' = tb\<lparr>files := (files tb)[nat fd := None]\<rparr> in
        case files tb ! nat fd of None \<Rightarrow> (- EBADF, tb') | Some _ \<Rightarrow> (0, tb'))"

definition closeAll :: "'f fd_table \<Rightarrow> 'f fd_table" where
  "closeAll tb = tb\<lparr>files := replicate MAX_OPEN_FILES None\<rparr>"

text \<open>Operations on an open file: the checks before the virtual function of the file is called.\<close>

definition fd_io :: "('f file_base \<Rightarrow> u32 \<Rightarrow> int) \<Rightarrow> 'f fd_table \<Rightarrow> int \<Rightarrow> bool \<Rightarrow> u32 \<Rightarrow> int" where
  "fd_io transfer tb fd data_null len =
     (if data_null then - EFAULT
      else if sint len < 0 then - EINVAL
      else case getFile tb fd of None \<Rightarrow> - EBADF | Some x \<Rightarrow> transfer x len)"

definition fd_op :: "('f file_base \<Rightarrow> int) \<Rightarrow> 'f fd_table \<Rightarrow> int \<Rightarrow> int" where
  "fd_op f tb fd = (case getFile tb fd of None \<Rightarrow> - EBADF | Some x \<Rightarrow> f x)"

definition fd_lseek :: "('f file_base \<Rightarrow> int \<Rightarrow> int \<Rightarrow> int) \<Rightarrow> 'f fd_table \<Rightarrow> int \<Rightarrow> int \<Rightarrow> int \<Rightarrow> int" where
  "fd_lseek lseek tb fd offs whence = fd_op (\<lambda>x. lseek x offs whence) tb fd"

definition fd_fstat :: "('f file_base \<Rightarrow> int) \<Rightarrow> 'f fd_table \<Rightarrow> int \<Rightarrow> bool \<Rightarrow> int" where
  "fd_fstat fstat tb fd pstat_null = (if pstat_null then - EFAULT else fd_op fstat tb fd)"

definition fd_ioctl :: "('f file_base \<Rightarrow> int \<Rightarrow> 'a \<Rightarrow> int) \<Rightarrow> 'f fd_table \<Rightarrow> int \<Rightarrow> int \<Rightarrow> 'a \<Rightarrow> int" where
  "fd_ioctl ioctl tb fd cmd arg = fd_op (\<lambda>x. ioctl x cmd arg) tb fd"

definition fd_getdents :: "('f file_base \<Rightarrow> u32 \<Rightarrow> int \<Rightarrow> int) \<Rightarrow> 'f fd_table \<Rightarrow> int \<Rightarrow> u32 \<Rightarrow> int \<Rightarrow> int" where
  "fd_getdents f tb fd dp len =
     (if dp = 0 then - EFAULT else if and dp 3 \<noteq> 0 then - EFAULT
      else case getFile tb fd of None \<Rightarrow> - EBADF | Some x \<Rightarrow> f x dp len)"

section \<open>The mounted filesystems\<close>

definition statHelper :: "('f, 'w) fs_ops \<Rightarrow> ('f, 'w) vfs \<Rightarrow> string \<Rightarrow> bool \<Rightarrow> int \<times> stat \<times> string" where
  "statHelper ops s path f =
     (case resolve ops s path f of
        (Inl e, path) \<Rightarrow> (e, \<lparr>st_dev = 0, st_ino = 0, st_mode = 0\<rparr>, path)
      | (Inr (fs, off), path) \<Rightarrow> (case o_lstat ops fs (drop off path) (world s) of (r, st) \<Rightarrow> (r, st, path)))"

definition unlinkHelper :: "('f, 'w) fs_ops \<Rightarrow> string \<Rightarrow> ('f, 'w) vfs \<Rightarrow> int \<times> ('f, 'w) vfs" where
  "unlinkHelper ops path s =
     (case resolve ops s path True of
        (Inl e, _) \<Rightarrow> (e, s)
      | (Inr (f, off), path) \<Rightarrow>
          if map_of (filesystems s) path \<noteq> None then (- EBUSY, s)
          else case o_unlink ops f (drop off path) (world s) of (r, w) \<Rightarrow> (r, s\<lparr>world := w\<rparr>))"

definition startsWith :: "string \<Rightarrow> string \<Rightarrow> bool" where
  "startsWith a b \<longleftrightarrow> length b \<le> length a \<and> take (length b) a = b"

definition renameHelper :: "('f, 'w) fs_ops \<Rightarrow> string \<Rightarrow> string \<Rightarrow> ('f, 'w) vfs \<Rightarrow> int \<times> ('f, 'w) vfs" where
  "renameHelper ops oldPath newPath s =
     (case resolve ops s oldPath True of
        (Inl e, _) \<Rightarrow> (e, s)
      | (Inr (oldFs, oldOff), oldPath) \<Rightarrow>
          (case resolve ops s newPath True of
             (Inl e, _) \<Rightarrow> (e, s)
           | (Inr (newFs, newOff), newPath) \<Rightarrow>
               if oldFs \<noteq> newFs then (- EXDEV, s)
               else if map_of (filesystems s) oldPath \<noteq> None then (- EBUSY, s)
               else if map_of (filesystems s) newPath \<noteq> None then (- EBUSY, s)
               else if startsWith (drop newOff newPath) (drop oldOff oldPath) then (- EINVAL, s)
               else case o_rename ops oldFs (drop oldOff oldPath) (drop newOff newPath) (world s) of
                 (r, w) \<Rightarrow> (r, s\<lparr>world := w\<rparr>)))"

definition kmount :: "('f, 'w) fs_ops \<Rightarrow> string option \<Rightarrow> 'f option \<Rightarrow> ('f, 'w) vfs \<Rightarrow> int \<times> ('f, 'w) vfs" where
  "kmount ops path fs s =
     (case (path, fs) of
        (Some p, Some f) \<Rightarrow>
          if p = [] then (- EFAULT, s)
          else if length p > PATH_MAX then (- ENAMETOOLONG, s)
          else
            let mount = (\<lambda>temp s. case omap_insert temp f (filesystems s) of
                  (m, False) \<Rightarrow> (- EBUSY, s)
                | (m, True) \<Rightarrow> (0, s\<lparr>filesystems := m\<rparr>))
            in if p = ''/'' \<and> filesystems s = [] then mount p s
               else case statHelper ops s p False of (result, st, temp) \<Rightarrow>
                 if result \<noteq> 0 then (result, s)
                 else if \<not> S_ISDIR (st_mode st) then (- ENOTDIR, s)
                 else case statHelper ops s (temp @ ''/..'') False of (result, st, _) \<Rightarrow>
                   if result \<noteq> 0 then (result, s)
                   else mount temp (s\<lparr>world := o_setParent ops f (st_ino st) (world s)\<rparr>)
      | _ \<Rightarrow> (- EFAULT, s))"

text \<open>
  Closing the files of the filesystems to unmount in one table. Without \<open>force\<close> an open file makes the whole call fail.
\<close>

fun umount_files :: "bool \<Rightarrow> 'f list \<Rightarrow> 'f file_base option list \<Rightarrow> 'f file_base option list option" where
  "umount_files force F [] = Some []"
| "umount_files force F (None # xs) = map_option (Cons None) (umount_files force F xs)"
| "umount_files force F (Some x # xs) =
     (if \<exists>f\<in>set F. parent x = Some f
      then if \<not> force then None else map_option (Cons None) (umount_files force F xs)
      else map_option (Cons (Some x)) (umount_files force F xs))"

fun umount_tables :: "bool \<Rightarrow> 'f list \<Rightarrow> 'f fd_table list \<Rightarrow> 'f fd_table list option" where
  "umount_tables force F [] = Some []"
| "umount_tables force F (tb # tbs) =
     (case umount_files force F (files tb) of
        None \<Rightarrow> None
      | Some xs \<Rightarrow> map_option (Cons (tb\<lparr>files := xs\<rparr>)) (umount_tables force F tbs))"

text \<open>
  The wait for the files that no table holds any more but some operation still uses, for at most three attempts.
  \<open>busy i f\<close> tells whether a file of \<open>f\<close> is still in use at attempt \<open>i\<close>.
\<close>

fun umount_wait :: "nat \<Rightarrow> bool \<Rightarrow> (nat \<Rightarrow> bool) \<Rightarrow> nat \<Rightarrow> bool" where
  "umount_wait 0 force closed i = False"
| "umount_wait (Suc n) force closed i =
     (if closed i then True
      else if \<not> force then False
      else if n = 0 then False
      else umount_wait n force closed (i + 1))"

definition all_files_closed :: "'f list \<Rightarrow> (nat \<Rightarrow> 'f \<Rightarrow> bool) \<Rightarrow> 'f fd_table list \<Rightarrow> nat \<Rightarrow> bool" where
  "all_files_closed F busy tbs i \<longleftrightarrow>
     (\<forall>f\<in>set F. \<not> busy i f \<and> (\<forall>tb\<in>set tbs. \<forall>x\<in>set (files tb). case x of None \<Rightarrow> True | Some y \<Rightarrow> parent y \<noteq> Some f))"

definition umount :: "string option \<Rightarrow> bool \<Rightarrow> (nat \<Rightarrow> 'f \<Rightarrow> bool) \<Rightarrow> ('f, 'w) vfs \<Rightarrow> int \<times> ('f, 'w) vfs" where
  "umount path force busy s =
     (case path of
        None \<Rightarrow> (- ENOENT, s)
      | Some p \<Rightarrow>
          if p = [] then (- ENOENT, s)
          else if length p > PATH_MAX then (- ENAMETOOLONG, s)
          else if map_of (filesystems s) p = None then (- EINVAL, s)
          else
            let fsToUmount = filter (\<lambda>(k, _). startsWith k p) (filesystems s); F = map snd fsToUmount in
            case umount_tables force F (tables s) of
              None \<Rightarrow> (- EBUSY, s)
            | Some tbs \<Rightarrow>
                let s = s\<lparr>tables := tbs\<rparr> in
                if umount_wait 3 force (all_files_closed F busy tbs) 0
                then (0, s\<lparr>filesystems := fold (\<lambda>(k, _) m. omap_erase k m) fsToUmount (filesystems s)\<rparr>)
                else (- EBUSY, s))"

definition umountAll :: "('f, 'w) vfs \<Rightarrow> ('f, 'w) vfs" where
  "umountAll s = s\<lparr>tables := map closeAll (tables s), filesystems := []\<rparr>"

section \<open>Paths of a process\<close>


text \<open>\<^verbatim>\<open>mkdir\<close> and \<^verbatim>\<open>rmdir\<close>: an operation of the filesystem on a resolved path.\<close>

definition path_op :: "('f, 'w) fs_ops \<Rightarrow> nat \<Rightarrow> string option \<Rightarrow> ('f \<Rightarrow> string \<Rightarrow> 'w \<Rightarrow> int \<times> 'w) \<Rightarrow> ('f, 'w) vfs \<Rightarrow>
    int \<times> ('f, 'w) vfs" where
  "path_op ops t name f s =
     (if name = None \<or> name = Some [] then (- EFAULT, s)
      else let path = absolutePath (tables s ! t) (the name) in
        if path = [] then (- ENAMETOOLONG, s)
        else case resolve ops s path True of
          (Inl e, _) \<Rightarrow> (e, s)
        | (Inr (fs, off), path) \<Rightarrow> (case f fs (drop off path) (world s) of (r, w) \<Rightarrow> (r, s\<lparr>world := w\<rparr>)))"

definition fd_mkdir :: "('f, 'w) fs_ops \<Rightarrow> nat \<Rightarrow> string option \<Rightarrow> int \<Rightarrow> ('f, 'w) vfs \<Rightarrow> int \<times> ('f, 'w) vfs" where
  "fd_mkdir ops t name mode = path_op ops t name (\<lambda>f n. o_mkdir ops f n mode)"

definition fd_rmdir :: "('f, 'w) fs_ops \<Rightarrow> nat \<Rightarrow> string option \<Rightarrow> ('f, 'w) vfs \<Rightarrow> int \<times> ('f, 'w) vfs" where
  "fd_rmdir ops t name = path_op ops t name (o_rmdir ops)"

definition fd_unlink :: "('f, 'w) fs_ops \<Rightarrow> nat \<Rightarrow> string option \<Rightarrow> ('f, 'w) vfs \<Rightarrow> int \<times> ('f, 'w) vfs" where
  "fd_unlink ops t name s =
     (if name = None \<or> name = Some [] then (- EFAULT, s)
      else let path = absolutePath (tables s ! t) (the name) in
        if path = [] then (- ENAMETOOLONG, s) else unlinkHelper ops path s)"

definition fd_rename :: "('f, 'w) fs_ops \<Rightarrow> nat \<Rightarrow> string option \<Rightarrow> string option \<Rightarrow> ('f, 'w) vfs \<Rightarrow> int \<times> ('f, 'w) vfs" where
  "fd_rename ops t oldName newName s =
     (if oldName = None \<or> oldName = Some [] then (- EFAULT, s)
      else if newName = None \<or> newName = Some [] then (- EFAULT, s)
      else let oldPath = absolutePath (tables s ! t) (the oldName); newPath = absolutePath (tables s ! t) (the newName) in
        if oldPath = [] \<or> newPath = [] then (- ENAMETOOLONG, s) else renameHelper ops oldPath newPath s)"




section \<open>Unmounting\<close>

definition belongs :: "'f list \<Rightarrow> 'f file_base option \<Rightarrow> bool" where
  "belongs F x \<longleftrightarrow> (\<exists>y f. x = Some y \<and> f \<in> set F \<and> parent y = Some f)"

lemma belongs_simps [simp]: "\<not> belongs F None" "belongs F (Some y) \<longleftrightarrow> (\<exists>f\<in>set F. parent y = Some f)"
  by (auto simp: belongs_def)










section \<open>Walking without symbolic links\<close>

text \<open>Where no filesystem has symbolic links, as those of the kernel, the walk does not depend on what is mounted.\<close>

lemma walk_step_no_links:
  "(\<And>f. \<not> supportsSymlinks V f) \<Longrightarrow> (\<And>f. \<not> supportsSymlinks V' f) \<Longrightarrow> walk_step V M f stack rest links = walk_step V' M' f' stack rest links"
  by (simp add: walk_step_def Let_def)

lemma walk_no_links:
  assumes "\<And>f. \<not> supportsSymlinks V f" "\<And>f. \<not> supportsSymlinks V' f"
  shows "walk V M f stack rest links = walk V' M' f' stack rest links"
  using assms
proof (induction V M f stack rest links rule: walk.induct)
  case (1 V M f stack rest links)
  have s: "walk_step V M f stack rest links = walk_step V' M' f' stack rest links"
    by (rule walk_step_no_links) (use 1 in auto)
  show ?case
    by (subst walk.simps, subst walk.simps [of V'], unfold s)
      (auto split: sum.split prod.split intro!: 1(1) [unfolded s] simp: 1(2,3))
qed

lemma resolve_loop_error: "fst (resolve_loop V M f path p) = Inl e \<Longrightarrow> e < 0"
proof (induction V M f path p rule: resolve_loop.induct)
  case (1 V M f path p)
  obtain r path' p' where s: "resolve_step V M f path p = (r, path', p')" by (metis prod_cases3)
  show ?case
  proof (cases "r < 0 \<or> length path' \<le> index p'")
    case True
    then show ?thesis using 1(2) s by (subst (asm) resolve_loop.simps) (auto split: if_splits prod.splits)
  next
    case False
    then show ?thesis using 1(1) [OF s [symmetric] refl] 1(2) s by (simp add: resolve_loop.simps [of V M f path p])
  qed
qed

lemma resolvePath_error: "fst (resolvePath V M path f) = Inl e \<Longrightarrow> e < 0"
  using resolve_loop_error by (auto simp: resolvePath_def pr_resolvePath_def split: if_splits option.splits)

section \<open>The contract of the filesystems\<close>

lemma first_free_spec:
  assumes "first_free tb = Some i"
  shows "3 \<le> i \<and> i < 8 \<and> files tb ! i = None \<and> (\<forall>j. 3 \<le> j \<and> j < i \<longrightarrow> files tb ! j \<noteq> None)"
proof -
  from assms obtain k where k: "k < length [3..<8]" "files tb ! ([3..<8] ! k) = None" "i = [3..<8] ! k"
    "\<forall>j<k. files tb ! ([3..<8] ! j) \<noteq> None" unfolding first_free_def find_Some_iff by blast
  then have "k < 5" by simp
  with k(3) have i: "i = 3 + k" by (simp only: nth_upt)
  have "files tb ! j \<noteq> None" if "3 \<le> j" "j < i" for j
  proof -
    have "j - 3 < k" using that i by simp
    moreover have "[3..<8] ! (j - 3) = j" using that i \<open>k < 5\<close> by (subst nth_upt) simp_all
    ultimately show ?thesis using k(4) by metis
  qed
  then show ?thesis using k i \<open>k < 5\<close> by auto
qed

text \<open>
  What the descriptor tables rely on: \<^verbatim>\<open>open\<close> returns zero and a file of the filesystem, or a negative number and no file.
\<close>

locale fs_provider =
  fixes ops :: "('f, 'w) fs_ops"
  assumes open_zero: "o_open ops f n fl m w = (0, x, w') \<Longrightarrow> \<exists>y. x = Some y \<and> parent y = Some f"
    and open_error: "o_open ops f n fl m w = (r, x, w') \<Longrightarrow> r \<noteq> 0 \<Longrightarrow> r < 0 \<and> x = None"
begin

text \<open>\<open>open\<close> either fails and leaves every table as it was, or fills the lowest free descriptor from 3 on.\<close>

lemma open_file_cases:
  assumes "t < length (tables s)" "length (files (tables s ! t)) = 8" "open_file ops t name flags mode s = (fd, s')"
  shows "fd < 0 \<and> tables s' = tables s \<or>
    (\<exists>i y. fd = int i \<and> 3 \<le> i \<and> i < 8 \<and> files (tables s ! t) ! i = None \<and>
       (\<forall>j. 3 \<le> j \<and> j < i \<longrightarrow> files (tables s ! t) ! j \<noteq> None) \<and>
       tables s' = (tables s)[t := (tables s ! t)\<lparr>files := (files (tables s ! t))[i := Some y]\<rparr>])"
proof (cases "name = None \<or> name = Some [] \<or> first_free (tables s ! t) = None
    \<or> absolutePath (tables s ! t) (the name) = []")
  case True
  then have "fd < 0 \<and> s' = s" using assms(3) unfolding open_file_def Let_def
    by (elim disjE) (auto split: option.splits if_splits)
  then show ?thesis by simp
next
  case False
  then obtain i where i: "first_free (tables s ! t) = Some i" by (cases "first_free (tables s ! t)") auto
  let ?path = "absolutePath (tables s ! t) (the name)"
  have n: "name \<noteq> None" "name \<noteq> Some []" "?path \<noteq> []" using False by simp_all
  obtain res path where r: "resolve ops s ?path True = (res, path)" by fastforce
  show ?thesis
  proof (cases res)
    case (Inl e)
    then have "e < 0" using resolvePath_error [of _ _ ?path] r unfolding resolve_def by (metis fst_conv)
    moreover have "fd = e \<and> s' = s" using assms(3) n i r Inl unfolding open_file_def Let_def by simp
    ultimately show ?thesis by simp
  next
    case (Inr x)
    obtain f off where x: "x = (f, off)" by (cases x)
    obtain rc y w where o: "o_open ops f (drop off path) flags mode (world s) = (rc, y, w)" by (metis prod_cases3)
    have e: "(fd, s') = (if rc = 0 then int i else rc, case y of None \<Rightarrow> s\<lparr>world := w\<rparr>
        | Some z \<Rightarrow> with_table (s\<lparr>world := w\<rparr>) t ((tables s ! t)\<lparr>files := (files (tables s ! t))[i := Some z]\<rparr>))"
      using assms(3) n i r Inr x o unfolding open_file_def Let_def by simp
    show ?thesis
    proof (cases "rc = 0")
      case True
      with open_zero o obtain z where z: "y = Some z" by blast
      then have "fd = int i" "tables s' = (tables s)[t := (tables s ! t)\<lparr>files := (files (tables s ! t))[i := Some z]\<rparr>]"
        using e True by (simp_all add: with_table_def)
      then show ?thesis using first_free_spec [OF i] by blast
    next
      case False
      with open_error [OF o] have "rc < 0" "y = None" by simp_all
      then show ?thesis using e False by simp
    qed
  qed
qed

end

section \<open>Working directories\<close>


definition mounts_ok :: "('f, 'w) vfs \<Rightarrow> bool" where
  "mounts_ok s \<longleftrightarrow> flat_mounts (map_of (filesystems s)) \<and> map_of (filesystems s) ''/'' \<noteq> None"

lemma resolve_walk:
  assumes "mounts_ok s" "length rest < 1024"
  shows "case walk (view ops s) (map_of (filesystems s)) follow [] rest 0 of
      Inl e \<Rightarrow> fst (resolve ops s (CHR ''/'' # rest) follow) = Inl e
    | Inr st \<Rightarrow> \<exists>off. resolve ops s (CHR ''/'' # rest) follow =
        (Inr (fs_at (map_of (filesystems s)) st (mount_prefix (map_of (filesystems s)) st), off), path_of st)
        \<and> off \<le> length (path_of st)
        \<and> drop off (path_of st) = relative_path st (mount_prefix (map_of (filesystems s)) st) \<and> good st"
proof -
  obtain root where "map_of (filesystems s) ''/'' = Some root" using assms(1) by (auto simp: mounts_ok_def)
  with assms path_resolution_lemma [of "map_of (filesystems s)" root rest "view ops s" follow] show ?thesis
    unfolding resolve_def by (simp add: mounts_ok_def)
qed

lemma resolve_success:
  assumes "mounts_ok s" "resolve ops s path follow = (Inr (f, off), path')"
  shows "\<exists>st. path' = path_of st \<and> good st \<and> f = fs_at (map_of (filesystems s)) st (mount_prefix (map_of (filesystems s)) st) \<and>
    drop off path' = relative_path st (mount_prefix (map_of (filesystems s)) st) \<and>
    walk (view ops s) (map_of (filesystems s)) follow [] (tl path) 0 = Inr st"
proof -
  have "length path \<le> 1024" "path \<noteq> []" "hd path = slash_char"
    using assms(2) by (auto simp: resolve_def resolvePath_def split: if_splits)
  then obtain rest where p: "path = slash_char # rest" "length rest < 1024" by (cases path) auto
  show ?thesis using resolve_walk [OF assms(1) p(2), of ops follow] assms(2) p(1)
    by (cases "walk (view ops s) (map_of (filesystems s)) follow [] rest 0") auto
qed







section \<open>Mounting\<close>

lemma path_of_not_root: "good st \<Longrightarrow> path_of st \<noteq> ''/''"
  using path_of_last [of st] by (cases "st = []") auto

lemma flat_mounts_mono:
  assumes "flat_mounts M'" "\<And>k. M k \<noteq> None \<Longrightarrow> M' k \<noteq> None"
  shows "flat_mounts M"
proof -
  have "M (path_of (cs @ ds)) = None" if "cs \<noteq> []" "ds \<noteq> []" "M (path_of cs) \<noteq> None" for cs ds
    using assms(1) assms(2) that unfolding flat_mounts_def by metis
  then show ?thesis unfolding flat_mounts_def by blast
qed

lemma statHelper_zero:
  assumes "mounts_ok s" "statHelper ops s path f = (0, st, path')"
  shows "\<exists>cs. path' = path_of cs \<and> good cs \<and> walk (view ops s) (map_of (filesystems s)) f [] (tl path) 0 = Inr cs
    \<and> path \<noteq> [] \<and> hd path = slash_char \<and> length path \<le> 1024"
proof -
  obtain res p where r: "resolve ops s path f = (res, p)" by fastforce
  show ?thesis
  proof (cases res)
    case (Inl e)
    then have "e < 0" using resolvePath_error r unfolding resolve_def by (metis fst_conv)
    then show ?thesis using assms(2) r Inl by (simp add: statHelper_def)
  next
    case (Inr x)
    obtain g off where x: "x = (g, off)" by (cases x)
    have "path' = p" using assms(2) r Inr x by (auto simp: statHelper_def split: prod.splits)
    moreover have "path \<noteq> []" "hd path = slash_char" "length path \<le> 1024"
      using r Inr by (auto simp: resolve_def resolvePath_def split: if_splits)
    ultimately show ?thesis using resolve_success [OF assms(1) r [unfolded Inr x]] by blast
  qed
qed

text \<open>A mount below the root makes an entry for the canonical path, which is not the root.\<close>

lemma kmount_zero:
  assumes "mounts_ok s" "omap (filesystems s)" "kmount ops (Some p) (Some f) s = (0, s')"
  shows "\<exists>cs. good cs \<and> cs \<noteq> [] \<and> walk (view ops s) (map_of (filesystems s)) False [] (tl p) 0 = Inr cs
    \<and> p \<noteq> [] \<and> hd p = slash_char \<and> length p \<le> 1024
    \<and> map_of (filesystems s) (path_of cs) = None \<and> map_of (filesystems s') = (map_of (filesystems s))(path_of cs \<mapsto> f)"
proof -
  have ne: "filesystems s \<noteq> []" using assms(1) by (auto simp: mounts_ok_def)
  obtain r1 st1 temp where s1: "statHelper ops s p False = (r1, st1, temp)" by (metis prod_cases3)
  obtain r2 st2 q where s2: "statHelper ops s (temp @ ''/..'') False = (r2, st2, q)" by (metis prod_cases3)
  define m where "m = omap_insert temp f (filesystems s)"
  have k: "r1 = 0 \<and> r2 = 0 \<and> snd m \<and> filesystems s' = fst m"
    using assms(3) ne s1 s2 unfolding m_def
    by (auto simp: kmount_def Let_def split: if_splits prod.splits bool.splits)
  from statHelper_zero [OF assms(1), of ops p] s1 k obtain cs where cs: "temp = path_of cs" "good cs"
    "walk (view ops s) (map_of (filesystems s)) False [] (tl p) 0 = Inr cs" "p \<noteq> []" "hd p = slash_char" "length p \<le> 1024"
    by blast
  have "cs \<noteq> []"
  proof
    assume "cs = []"
    then have "walk (view ops s) (map_of (filesystems s)) False [] (tl (temp @ ''/..'')) 0 = Inl (- 2)"
      using cs(1) by (subst walk.simps) (simp add: walk_step_def)
    moreover have "statHelper ops s (temp @ ''/..'') False = (0, st2, q)" using s2 k by simp
    from statHelper_zero [OF assms(1) this] obtain cs' where
      "walk (view ops s) (map_of (filesystems s)) False [] (tl (temp @ ''/..'')) 0 = Inr cs'" by blast
    ultimately show False by simp
  qed
  moreover have "map_of (filesystems s) (path_of cs) = None" "map_of (filesystems s') = (map_of (filesystems s))(path_of cs \<mapsto> f)"
    using omap_insert_spec(2,3) [OF assms(2), of temp f] k cs(1) unfolding m_def by simp_all
  ultimately show ?thesis using cs by blast
qed

lemma kmount_keeps:
  assumes "omap (filesystems s)" "kmount ops p f s = (r, s')" "map_of (filesystems s) k \<noteq> None"
  shows "map_of (filesystems s') k \<noteq> None"
proof -
  have "filesystems s' = filesystems s \<or> (\<exists>t g. filesystems s' = fst (omap_insert t g (filesystems s)))"
    using assms(2) by (auto simp: kmount_def Let_def split: if_splits prod.splits bool.splits option.splits) (metis fst_conv)+
  then show ?thesis using assms(3) omap_insert_spec(2) [OF assms(1)] by (auto split: if_splits)
qed

section \<open>An instance: filesystems of directories\<close>

text \<open>The filesystems of \<open>Mountpoint_Fs\<close>, numbered, and a counter for the identity of the files.\<close>

type_synonym mp_world = "mountpoint_fs list \<times> nat"

definition on_fs :: "nat \<Rightarrow> (mountpoint_fs \<Rightarrow> int \<times> mountpoint_fs) \<Rightarrow> mp_world \<Rightarrow> int \<times> mp_world" where
  "on_fs f g w = (case g (fst w ! f) of (r, m) \<Rightarrow> (r, ((fst w)[f := m], snd w)))"

definition mp_ops :: "(nat, mp_world) fs_ops" where
  "mp_ops = \<lparr>o_syms = (\<lambda>f. False), o_lstat = (\<lambda>f n w. mp_lstat (fst w ! f) n), o_readlink = (\<lambda>f n w. (- EINVAL, [])),
     o_open = (\<lambda>f n fl m w. case mp_open (fst w ! f) n fl of
        Inl e \<Rightarrow> (e, None, w)
      | Inr d \<Rightarrow> (0, Some \<lparr>fid = snd w, parent = Some f\<rparr>, (fst w, Suc (snd w)))),
     o_unlink = (\<lambda>f n. on_fs f (\<lambda>m. mp_unlink m n)), o_rename = (\<lambda>f n n'. on_fs f (\<lambda>m. mp_rename m n n')),
     o_mkdir = (\<lambda>f n m. on_fs f (\<lambda>m. mp_mkdir m n)), o_rmdir = (\<lambda>f n. on_fs f (\<lambda>m. mp_rmdir m n)),
     o_setParent = (\<lambda>f i w. ((fst w)[f := (fst w ! f)\<lparr>parentFsMountpointInode := i\<rparr>], snd w))\<rparr>"

interpretation mpv: fs_provider mp_ops
proof
  show "\<exists>y. x = Some y \<and> parent y = Some f" if "o_open mp_ops f n fl m w = (0, x, w')" for f n fl m w x w'
    using that by (auto simp: mp_ops_def mp_open_def split: if_splits option.splits)
  show "r < 0 \<and> x = None" if "o_open mp_ops f n fl m w = (r, x, w')" "r \<noteq> 0" for f n fl m w r x w'
    using that by (auto simp: mp_ops_def mp_open_def split: if_splits option.splits)
qed

text \<open>A system with a root filesystem that has the directories \<^verbatim>\<open>dev\<close> and \<^verbatim>\<open>sd\<close>, and one table.\<close>

definition demo_vfs :: "(nat, mp_world) vfs" where
  "demo_vfs = \<lparr>filesystems = [(''/'', 0)], tables = [new_FileDescriptorTable \<lparr>fid = 0, parent = None\<rparr>],
     world = ([demo_fs, new_MountpointFs 2, new_MountpointFs 3], 1)\<rparr>"

section \<open>Properties\<close>




text \<open>A path that merely starts with the same characters is unmounted too.\<close>

lemma umount_takes_longer_names:
  "umount (Some ''/sd'') False (\<lambda>i f. False) (s\<lparr>filesystems := [(''/'', a), (''/sd'', b), (''/sd2'', c)], tables := []\<rparr>) =
    (0, s\<lparr>filesystems := [(''/'', a)], tables := []\<rparr>)"
  by (simp add: umount_def Let_def startsWith_def numeral_3_eq_3 all_files_closed_def omap_erase_def)

text \<open>\<open>open\<close> fails with a negative number and leaves every descriptor as it was, or returns the lowest free descriptor from
  3 on and stores the file there; closing that descriptor succeeds and gives back the table as it was.\<close>

theorem open_takes_lowest_descriptor:
  assumes "fs_provider ops" and "t < length (tables s)" and "length (files (tables s ! t)) = 8"
  shows "case open_file ops t name flags mode s of (fd, s') \<Rightarrow>
    fd < 0 \<and> tables s' = tables s \<or>
    (\<exists>i y. fd = int i \<and> 3 \<le> i \<and> i < 8 \<and> files (tables s ! t) ! i = None
      \<and> (\<forall>j. 3 \<le> j \<and> j < i \<longrightarrow> files (tables s ! t) ! j \<noteq> None)
      \<and> getFile (tables s' ! t) fd = Some y \<and> (\<forall>u. u \<noteq> t \<longrightarrow> tables s' ! u = tables s ! u)
      \<and> close_file (tables s' ! t) fd = (0, tables s ! t))"
proof -
  obtain fd s' where o: "open_file ops t name flags mode s = (fd, s')" by fastforce
  from fs_provider.open_file_cases [OF assms o] show ?thesis unfolding o prod.case
  proof (elim disjE exE conjE, goal_cases)
    case (2 i y)
    let ?tb = "tables s ! t"
    have t: "tables s' ! t = ?tb\<lparr>files := (files ?tb)[i := Some y]\<rparr>" using 2 assms(2) by simp
    have "?tb\<lparr>files := (files ?tb)[i := None]\<rparr> = ?tb" using 2 by (intro fd_table.equality) (simp_all add: list_update_same_conv assms(3))
    then have "close_file (tables s' ! t) fd = (0, ?tb)" "getFile (tables s' ! t) fd = Some y"
      using 2 assms(3) unfolding t by (simp_all add: close_file_def getFile_def)
    then show ?case using 2 by auto
  qed simp
qed

theorem open_takes_lowest_descriptor_witness:
  "fst (open_file mp_ops 0 (Some ''dev'') 0 0 demo_vfs) = 3"
proof -
  have f: "0 < length (tables demo_vfs)" "length (files (tables demo_vfs ! 0)) = 8" by code_simp+
  have ok: "\<not> fst (open_file mp_ops 0 (Some ''dev'') 0 0 demo_vfs) < 0" by code_simp
  have "files (tables demo_vfs ! 0) ! 3 = None" by code_simp
  then have le: "i \<le> 3" if "\<forall>j. 3 \<le> j \<and> j < i \<longrightarrow> files (tables demo_vfs ! 0) ! j \<noteq> None" for i
    using that [rule_format, of 3] by force
  obtain fd s' where o: "open_file mp_ops 0 (Some ''dev'') 0 0 demo_vfs = (fd, s')" by fastforce
  from open_takes_lowest_descriptor [OF mpv.fs_provider_axioms f, of "Some ''dev''" 0 0] ok
  obtain i where "fd = int i" "3 \<le> i" "\<forall>j. 3 \<le> j \<and> j < i \<longrightarrow> files (tables demo_vfs ! 0) ! j \<noteq> None"
    unfolding o prod.case fst_conv by blast
  with le [of i] show ?thesis unfolding o by simp
qed





text \<open>What is mounted is found. Where no filesystem has symbolic links, as those of the kernel, and the filesystems after the
  mount are not nested, a \<open>kmount\<close> that returns 0 on a system with a root filesystem adds an entry for the canonical path and keeps the others,
  and resolving the path it was given finds the root of the filesystem that was mounted.\<close>

theorem kmount_then_resolve:
  assumes "omap (filesystems s)" and "map_of (filesystems s) ''/'' \<noteq> None" and "\<And>g. \<not> o_syms ops g"
    and "kmount ops (Some p) (Some f) s = (0, s')" and "flat_mounts (map_of (filesystems s'))"
  shows "\<exists>cs. cs \<noteq> [] \<and> map_of (filesystems s') = (map_of (filesystems s))(path_of cs \<mapsto> f)
    \<and> resolve ops s' p True = (Inr (f, length (path_of cs)), path_of cs)"
proof -
  have "flat_mounts (map_of (filesystems s))"
    by (rule flat_mounts_mono [OF assms(5)]) (rule kmount_keeps [OF assms(1,4)])
  with assms(2) have ok: "mounts_ok s" by (simp add: mounts_ok_def)
  from kmount_zero [OF ok assms(1,4)] obtain cs where cs: "good cs" "cs \<noteq> []"
    "walk (view ops s) (map_of (filesystems s)) False [] (tl p) 0 = Inr cs" "p \<noteq> []" "hd p = slash_char" "length p \<le> 1024"
    "map_of (filesystems s') = (map_of (filesystems s))(path_of cs \<mapsto> f)" by blast
  let ?M = "map_of (filesystems s')"
  have ok': "mounts_ok s'" using assms(2,5) cs(7) by (auto simp: mounts_ok_def)
  have w: "walk (view ops s') ?M True [] (tl p) 0 = Inr cs"
  proof -
    have "walk (view ops s') ?M True [] (tl p) 0 = walk (view ops s) (map_of (filesystems s)) False [] (tl p) 0"
      by (rule walk_no_links) (simp_all add: view_def assms(3))
    with cs(3) show ?thesis by simp
  qed
  have p: "p = CHR ''/'' # tl p" "length (tl p) < 1024" using cs(4-6) by (cases p; simp)+
  have n: "mount_prefix ?M cs = length cs"
  proof -
    obtain ds d where "cs = ds @ [d]" using cs(2) by (metis rev_exhaust)
    then show ?thesis using cs(7) by (simp del: path_of_simps)
  qed
  have "fs_at ?M cs (length cs) = f" using cs(2,7) by (simp add: fs_at_def)
  then have "\<exists>off. resolve ops s' p True = (Inr (f, off), path_of cs) \<and> off \<le> length (path_of cs) \<and> drop off (path_of cs) = []"
    using resolve_walk [OF ok' p(2), of ops True] p(1) unfolding w by (auto simp: n relative_path_def)
  then show ?thesis using cs(2,7) by auto
qed

theorem kmount_then_resolve_witness:
  "resolve mp_ops (snd (kmount mp_ops (Some ''/./dev/'') (Some 1) demo_vfs)) ''/./dev/'' True = (Inr (1, 4), ''/dev'')"
proof -
  obtain s' where s': "kmount mp_ops (Some ''/./dev/'') (Some 1) demo_vfs = (0, s')" "filesystems s' = [(''/'', 0), (''/dev'', 1)]"
  proof
    have "fst (kmount mp_ops (Some ''/./dev/'') (Some 1) demo_vfs) = 0" by code_simp
    then show "kmount mp_ops (Some ''/./dev/'') (Some 1) demo_vfs = (0, snd (kmount mp_ops (Some ''/./dev/'') (Some 1) demo_vfs))"
      by (metis prod.collapse)
    show "filesystems (snd (kmount mp_ops (Some ''/./dev/'') (Some 1) demo_vfs)) = [(''/'', 0), (''/dev'', 1)]" by code_simp
  qed
  have f: "flat_mounts (map_of (filesystems s'))"
    by (rule flat_mounts_mono [OF demo_flat]) (auto simp: s'(2) demo_mounts_def split: if_splits)
  have d: "omap (filesystems demo_vfs)" "map_of (filesystems demo_vfs) ''/'' \<noteq> None" by (simp_all add: demo_vfs_def omap_def)
  have "\<not> o_syms mp_ops g" for g by (simp add: mp_ops_def)
  from kmount_then_resolve [OF d this s'(1) f] obtain cs where cs: "cs \<noteq> []"
    "map_of (filesystems s') = (map_of (filesystems demo_vfs))(path_of cs \<mapsto> 1)"
    "resolve mp_ops s' ''/./dev/'' True = (Inr (1, length (path_of cs)), path_of cs)" by blast
  have "path_of cs = ''/dev''" using fun_cong [OF cs(2), of "path_of cs"] by (simp add: s'(2) split: if_splits)
  then show ?thesis using cs(3) s'(1) by simp
qed

end
