(* ===== verification/Dev_Fs.thy ===== *)
theory Dev_Fs
  imports Mountpoint_Fs
begin

text \<open>
  The filesystem of device files (\<^verbatim>\<open>filesystem/devfs/devfs.cpp\<close>): files on devices with their seek point, and the
  map from names to devices. A device is a number; what is kept of it is in a store, since the same device may be
  reached by a name and by open files. Its virtual functions \<^verbatim>\<open>readBlock\<close> and \<^verbatim>\<open>writeBlock\<close> are arguments. \<^verbatim>\<open>off_t\<close> is a 64 bit and
  \<^verbatim>\<open>size_t\<close> a 32 bit word, so that the overflow check of the code is what it computes.
\<close>

section \<open>Devices and device files\<close>

datatype DeviceType = STREAM | BLOCK | TTY

record device =
  dev_ino :: u32
  dev_dev :: int
  seekable :: bool
  block_dev :: bool
  tty :: bool

definition new_Device :: "DeviceType \<Rightarrow> device" where
  "new_Device d = \<lparr>dev_ino = 0, dev_dev = 0, seekable = (d = BLOCK), block_dev = (d = BLOCK), tty = (d = TTY)\<rparr>"

definition setFileInfo :: "u32 \<Rightarrow> int \<Rightarrow> device \<Rightarrow> device" where
  "setFileInfo ino dv d = d\<lparr>dev_ino := ino, dev_dev := dv\<rparr>"

definition dev_fstat :: "device \<Rightarrow> int \<times> stat" where
  "dev_fstat d = (0, \<lparr>st_dev = dev_dev d, st_ino = uint (dev_ino d), st_mode = or (if block_dev d then 0x6000 else 0x2000) 0x01e8\<rparr>)"

definition dev_isatty :: "device \<Rightarrow> int" where
  "dev_isatty d = (if tty d then 1 else 0)"

text \<open>The default device: reads zeros, swallows what is written. The results are the length as a signed number.\<close>

definition default_readBlock :: "u32 \<Rightarrow> u64 \<Rightarrow> u8 list \<times> int" where
  "default_readBlock sz at = (replicate (unat sz) 0, sint sz)"

definition default_writeBlock :: "u32 \<Rightarrow> u64 \<Rightarrow> int" where
  "default_writeBlock sz at = sint sz"

record dev_file =
  df_dev :: nat
  seekPoint :: u64
  df_flags :: u32

abbreviation (input) NOSEEK :: u32 where "NOSEEK \<equiv> 0x20000"
abbreviation (input) FREAD :: u32 where "FREAD \<equiv> 1"
abbreviation (input) FWRITE :: u32 where "FWRITE \<equiv> 2"
abbreviation (input) EOVERFLOW :: int where "EOVERFLOW \<equiv> 139"
abbreviation (input) SEEK_SET :: int where "SEEK_SET \<equiv> 0"
abbreviation (input) SEEK_CUR :: int where "SEEK_CUR \<equiv> 1"

text \<open>\<^verbatim>\<open>Device::open\<close> turns the open mode into the flags of the file.\<close>

definition dev_open :: "device \<Rightarrow> nat \<Rightarrow> u32 \<Rightarrow> dev_file" where
  "dev_open d n flags = \<lparr>df_dev = n, seekPoint = 0, df_flags = or (flags + 1) (if seekable d then 0 else NOSEEK)\<rparr>"

text \<open>The largest \<^verbatim>\<open>off_t\<close>, and the length handed to the device.\<close>

definition off_max :: u64 where "off_max = 0x7fffffffffffffff"

definition clamp_len :: "u64 \<Rightarrow> u32 \<Rightarrow> u32" where
  "clamp_len seek len = (if sint (seek + ucast len) < 0 then ucast (off_max - seek - ucast len) else len)"

definition advance :: "int \<Rightarrow> dev_file \<Rightarrow> dev_file" where
  "advance result f =
     (if result > 0 \<and> and (df_flags f) NOSEEK = 0 then f\<lparr>seekPoint := seekPoint f + word_of_int result\<rparr> else f)"

definition dev_write :: "(u32 \<Rightarrow> u64 \<Rightarrow> int) \<Rightarrow> dev_file \<Rightarrow> u32 \<Rightarrow> int \<times> dev_file" where
  "dev_write writeBlock f len =
     (if and (df_flags f) FWRITE = 0 then (- EINVAL, f)
      else let len = clamp_len (seekPoint f) len;
               result = writeBlock len (seekPoint f)
           in (result, advance result f))"

definition dev_read :: "(u32 \<Rightarrow> u64 \<Rightarrow> int) \<Rightarrow> dev_file \<Rightarrow> u32 \<Rightarrow> int \<times> dev_file" where
  "dev_read readBlock f len =
     (if and (df_flags f) FREAD = 0 then (- EINVAL, f)
      else let len = clamp_len (seekPoint f) len;
               result = readBlock len (seekPoint f)
           in (result, advance result f))"

definition dev_lseek :: "dev_file \<Rightarrow> u64 \<Rightarrow> int \<Rightarrow> int \<times> dev_file" where
  "dev_lseek f offs whence =
     (if and (df_flags f) NOSEEK \<noteq> 0 then (- EBADF, f)
      else if whence = SEEK_CUR \<or> whence = SEEK_SET then
        let newSeekPoint = (if whence = SEEK_CUR then seekPoint f + offs else offs) in
        if sint newSeekPoint < 0 then (- EOVERFLOW, f)
        else (sint newSeekPoint, f\<lparr>seekPoint := newSeekPoint\<rparr>)
      else (- EINVAL, f))"

section \<open>The filesystem\<close>

record dev_fs =
  dev_files :: "nat omap"
  devices :: "nat \<Rightarrow> device"
  dfs_inodeCount :: int
  dfs_id :: int
  dfs_parentInode :: int

definition addDevice :: "string option \<Rightarrow> nat \<Rightarrow> dev_fs \<Rightarrow> bool \<times> dev_fs" where
  "addDevice name dev s =
     (case name of
        None \<Rightarrow> (False, s)
      | Some n \<Rightarrow>
          if n = [] then (False, s)
          else if slash_char \<in> set n then (False, s)
          else case omap_insert n dev (dev_files s) of
            (m, False) \<Rightarrow> (False, s)
          | (m, True) \<Rightarrow> (True, s\<lparr>dev_files := m, dfs_inodeCount := dfs_inodeCount s + 1,
                devices := (devices s)(dev := setFileInfo (word_of_int (dfs_inodeCount s)) (dfs_id s) (devices s dev))\<rparr>))"

text \<open>The constructor adds \<^verbatim>\<open>null\<close> and \<^verbatim>\<open>zero\<close>, here the devices 0 and 1.\<close>

definition new_DevFs :: "int \<Rightarrow> dev_fs" where
  "new_DevFs fsid =
     snd (addDevice (Some ''zero'') 1 (snd (addDevice (Some ''null'') 0
       \<lparr>dev_files = [], devices = (\<lambda>_. new_Device STREAM), dfs_inodeCount = rootDirInode + 1, dfs_id = fsid,
        dfs_parentInode = 1\<rparr>)))"

definition remove_device :: "string option \<Rightarrow> dev_fs \<Rightarrow> bool \<times> dev_fs" where
  "remove_device name s =
     (case name of
        None \<Rightarrow> (False, s)
      | Some n \<Rightarrow>
          if n = [] then (False, s)
          else if map_of (dev_files s) n = None then (False, s)
          else (True, s\<lparr>dev_files := omap_erase n (dev_files s)\<rparr>))"

datatype dev_opened = DevDirectory | DevFile dev_file

definition devfs_open :: "dev_fs \<Rightarrow> string \<Rightarrow> u32 \<Rightarrow> int + dev_opened" where
  "devfs_open s name flags =
     (if and flags (or 0x0008 0x0800) \<noteq> 0 then Inl (- EACCES)
      else if name = [] then (if and flags (or 1 2) \<noteq> 0 then Inl (- EACCES) else Inr DevDirectory)
      else case map_of (dev_files s) name of
        None \<Rightarrow> Inl (- ENOENT)
      | Some d \<Rightarrow> Inr (DevFile (dev_open (devices s d) d flags)))"

definition devfs_lstat :: "dev_fs \<Rightarrow> string \<Rightarrow> int \<times> stat" where
  "devfs_lstat s name =
     (if name = [] then (0, \<lparr>st_dev = dfs_id s, st_ino = rootDirInode, st_mode = 0x41ed\<rparr>)
      else case map_of (dev_files s) name of
        None \<Rightarrow> (- ENOENT, \<lparr>st_dev = 0, st_ino = 0, st_mode = 0\<rparr>)
      | Some d \<Rightarrow> dev_fstat (devices s d))"

definition devfs_unlink :: "dev_fs \<Rightarrow> string \<Rightarrow> int \<times> dev_fs" where
  "devfs_unlink s name =
     (if map_of (dev_files s) name \<noteq> None then (0, s\<lparr>dev_files := omap_erase name (dev_files s)\<rparr>) else (- ENOENT, s))"

text \<open>
  \<^verbatim>\<open>rename\<close> erases the new name before it reads the old entry through its iterator: \<open>None\<close> is the use of the iterator of an
  erased entry, when the names are the same.
\<close>

definition devfs_rename :: "dev_fs \<Rightarrow> string \<Rightarrow> string \<Rightarrow> (int \<times> dev_fs) option" where
  "devfs_rename s oldName newName =
     (case map_of (dev_files s) oldName of
        None \<Rightarrow> Some (- ENOENT, s)
      | Some d \<Rightarrow>
          if slash_char \<in> set newName then Some (- EACCES, s)
          else if oldName = newName then None
          else Some (0, s\<lparr>dev_files := omap_erase oldName
                 (fst (omap_insert newName d (omap_erase newName (dev_files s))))\<rparr>))"

definition devfs_mkdir :: "dev_fs \<Rightarrow> string \<Rightarrow> int \<times> dev_fs" where
  "devfs_mkdir s name = (- EACCES, s)"

definition devfs_rmdir :: "dev_fs \<Rightarrow> string \<Rightarrow> int \<times> dev_fs" where
  "devfs_rmdir s name = (- EACCES, s)"

section \<open>The seek point\<close>

lemma sint_add_len:
  assumes "0 \<le> sint (p :: u64)"
  shows "sint (p + ucast (len :: u32)) < 0 \<longleftrightarrow> sint p + uint len > 0x7fffffffffffffff"
    and "sint p + uint len \<le> 0x7fffffffffffffff \<Longrightarrow> sint (p + ucast len) = sint p + uint len"
proof -
  have l: "0 \<le> uint len" "uint len < 2 ^ 32" using uint_lt2p [of len] by simp_all
  have p: "sint p < 2 ^ 63" using sint_lt [of p] by simp
  have "p + ucast len = word_of_int (sint p + uint len)" by (simp only: of_int_add of_int_sint scast_id ucast_eq)
  then have s: "sint (p + ucast len) = (sint p + uint len + 2 ^ 63) mod 2 ^ 64 - 2 ^ 63"
    by (simp only: int_word_sint) simp
  show "sint p + uint len \<le> 0x7fffffffffffffff \<Longrightarrow> sint (p + ucast len) = sint p + uint len"
    unfolding s using assms l by simp
  show "sint (p + ucast (len :: u32)) < 0 \<longleftrightarrow> sint p + uint len > 0x7fffffffffffffff"
  proof (cases "sint p + uint len \<le> 0x7fffffffffffffff")
    case True
    moreover have "0 \<le> sint p + uint len" using assms by (simp add: add_nonneg_nonneg)
    ultimately show ?thesis unfolding s using l by simp
  next
    case False
    have "(sint p + uint len + 2 ^ 63) mod 2 ^ 64 = (sint p + uint len - 2 ^ 63) mod 2 ^ 64"
      using mod_add_self2 [of "sint p + uint len - 2 ^ 63" "2 ^ 64"] by (simp add: algebra_simps)
    also have "\<dots> = sint p + uint len - 2 ^ 63" using False l p by (intro mod_pos_pos_trivial) simp_all
    finally show ?thesis unfolding s using False l p by simp
  qed
qed

lemma clamp_len_fits:
  "0 \<le> sint p \<Longrightarrow> sint p + uint len \<le> 0x7fffffffffffffff \<Longrightarrow> clamp_len p len = len"
  using sint_add_len(1) [of p len] by (simp add: clamp_len_def)

lemma sint_add_result:
  assumes "0 \<le> sint (p :: u64)" "0 \<le> r" "sint p + r \<le> 0x7fffffffffffffff"
  shows "sint (p + word_of_int r) = sint p + r"
proof -
  have "p + word_of_int r = word_of_int (sint p + r)" by (simp only: of_int_add of_int_sint scast_id)
  then have "sint (p + word_of_int r) = (sint p + r + 2 ^ 63) mod 2 ^ 64 - 2 ^ 63" by (simp only: int_word_sint) simp
  then show ?thesis using assms by simp
qed

section \<open>Properties\<close>

lemma sint_add_wrap:
  assumes "0 \<le> sint (p :: u64)"
  shows "sint (p + q) = (if sint p + sint q \<le> 0x7fffffffffffffff then sint p + sint q else sint p + sint q - 2 ^ 64)"
proof -
  let ?S = "sint p + sint q"
  have b: "- (2 ^ 63) \<le> sint q" "sint q < 2 ^ 63" "sint p < 2 ^ 63" using sint_range_size [of q] sint_range_size [of p] by (simp_all add: word_size)
  have s: "sint (p + q) = (?S + 2 ^ 63) mod 2 ^ 64 - 2 ^ 63"
    using int_word_sint [of ?S, where 'a = 64] by (simp add: of_int_add)
  show ?thesis
  proof (cases "?S \<le> 0x7fffffffffffffff")
    case True
    then have "(?S + 2 ^ 63) mod 2 ^ 64 = ?S + 2 ^ 63" using b assms by (intro mod_pos_pos_trivial) simp_all
    with True s show ?thesis by simp
  next
    case False
    have "(?S + 2 ^ 63) mod 2 ^ 64 = (?S - 2 ^ 63) mod 2 ^ 64"
      using mod_add_self2 [of "?S - 2 ^ 63" "2 ^ 64"] by (simp add: algebra_simps)
    also have "\<dots> = ?S - 2 ^ 63" using False b by (intro mod_pos_pos_trivial) simp_all
    finally show ?thesis using False s by simp
  qed
qed

text \<open>C29. The position in a device file. As long as the position after the transfer is representable, a read or write asks the
  device for exactly the given length at the current position, and for a device that transfers at most what it is asked for the
  position advances by what was transferred, or stays where it is for a device that cannot seek; it never becomes negative. \<open>lseek\<close> fails,
  with the position unchanged, on a device that cannot seek, for anything but \<open>SEEK_SET\<close> and \<open>SEEK_CUR\<close>, and when the
  target is negative or not representable; in every other case it returns the target and moves the position there.\<close>

theorem device_file_position:
  assumes "0 \<le> sint (seekPoint f)" and "sint (seekPoint f) + uint len \<le> 0x7fffffffffffffff"
    and "\<forall>n p. blk n p \<le> uint n"
  shows "(case dev_write blk f len of (r, f') \<Rightarrow>
      if and (df_flags f) 2 = 0 then r = - 22 \<and> f' = f
      else r = blk len (seekPoint f) \<and> 0 \<le> sint (seekPoint f')
        \<and> sint (seekPoint f') = sint (seekPoint f) + (if r > 0 \<and> and (df_flags f) 0x20000 = 0 then r else 0))
    \<and> (case dev_read blk f len of (r, f') \<Rightarrow>
      if and (df_flags f) 1 = 0 then r = - 22 \<and> f' = f
      else r = blk len (seekPoint f) \<and> 0 \<le> sint (seekPoint f')
        \<and> sint (seekPoint f') = sint (seekPoint f) + (if r > 0 \<and> and (df_flags f) 0x20000 = 0 then r else 0))
    \<and> (case dev_lseek f offs whence of (r, f') \<Rightarrow>
      let target = (if whence = 1 then sint (seekPoint f) + sint offs else sint offs) in
      if and (df_flags f) 0x20000 \<noteq> 0 then r = - EBADF \<and> f' = f
      else if whence \<noteq> 0 \<and> whence \<noteq> 1 then r = - 22 \<and> f' = f
      else if target < 0 \<or> target > 0x7fffffffffffffff then r = - EOVERFLOW \<and> f' = f
      else r = target \<and> sint (seekPoint f') = target \<and> f' = f\<lparr>seekPoint := seekPoint f'\<rparr>)"
proof -
  have c: "clamp_len (seekPoint f) len = len" by (rule clamp_len_fits [OF assms(1,2)])
  let ?r = "blk len (seekPoint f)"
  have b: "?r \<le> uint len" using assms(3) by blast
  have a: "sint (seekPoint (advance ?r f)) = sint (seekPoint f) + (if ?r > 0 \<and> and (df_flags f) NOSEEK = 0 then ?r else 0)"
    using sint_add_result [OF assms(1), of ?r] assms(2) b by (auto simp: advance_def)
  have n: "0 \<le> sint (seekPoint (advance ?r f))" unfolding a using assms(1) by simp
  show ?thesis
  proof (intro conjI)
    show "case dev_write blk f len of (r, f') \<Rightarrow>
      if and (df_flags f) 2 = 0 then r = - 22 \<and> f' = f
      else r = blk len (seekPoint f) \<and> 0 \<le> sint (seekPoint f')
        \<and> sint (seekPoint f') = sint (seekPoint f) + (if r > 0 \<and> and (df_flags f) 0x20000 = 0 then r else 0)"
      using a n by (simp add: dev_write_def c Let_def)
    show "case dev_read blk f len of (r, f') \<Rightarrow>
      if and (df_flags f) 1 = 0 then r = - 22 \<and> f' = f
      else r = blk len (seekPoint f) \<and> 0 \<le> sint (seekPoint f')
        \<and> sint (seekPoint f') = sint (seekPoint f) + (if r > 0 \<and> and (df_flags f) 0x20000 = 0 then r else 0)"
      using a n by (simp add: dev_read_def c Let_def)
    show "case dev_lseek f offs whence of (r, f') \<Rightarrow>
      let target = (if whence = 1 then sint (seekPoint f) + sint offs else sint offs) in
      if and (df_flags f) 0x20000 \<noteq> 0 then r = - EBADF \<and> f' = f
      else if whence \<noteq> 0 \<and> whence \<noteq> 1 then r = - 22 \<and> f' = f
      else if target < 0 \<or> target > 0x7fffffffffffffff then r = - EOVERFLOW \<and> f' = f
      else r = target \<and> sint (seekPoint f') = target \<and> f' = f\<lparr>seekPoint := seekPoint f'\<rparr>"
      using sint_add_wrap [OF assms(1), of offs] sint_range_size [of offs] sint_range_size [of "seekPoint f"] assms(1)
      by (auto simp: dev_lseek_def Let_def word_size)
  qed
qed

definition demo_file :: dev_file where
  "demo_file = (dev_open (new_Device BLOCK) 0 2)\<lparr>seekPoint := 512\<rparr>"

theorem device_file_position_witness:
  "sint (seekPoint (snd (dev_write (\<lambda>n p. if uint n < 100 then uint n else 100) demo_file 1024))) = 612"
proof -
  have f: "sint (seekPoint demo_file) = 512" "and (df_flags demo_file) 2 \<noteq> 0" "and (df_flags demo_file) 0x20000 = 0" by code_simp+
  have "0 \<le> sint (seekPoint demo_file)" "sint (seekPoint demo_file) + uint (1024 :: u32) \<le> 0x7fffffffffffffff"
    "\<forall>n (p :: u64). (if uint (n :: u32) < 100 then uint n else 100) \<le> uint n" using f by auto
  from device_file_position [OF this, of 0 0] show ?thesis using f by (simp split: prod.splits)
qed

text \<open>
  Near the largest offset the length handed to the device is not the room that is left: it is computed as
  \<^verbatim>\<open>max-seekPoint-len\<close> instead of \<^verbatim>\<open>max-seekPoint\<close>, which is negative and becomes a length far beyond the buffer.
\<close>

theorem overlong_transfer:
  assumes "seekPoint f = off_max - 10" and "and (df_flags f) 2 \<noteq> 0"
  shows "fst (dev_write blk f 100) = blk 4294967206 (off_max - 10)"
proof -
  have "clamp_len (off_max - 10) 100 = 4294967206" by code_simp
  then show ?thesis using assms by (simp add: dev_write_def Let_def)
qed

section \<open>The map of the devices\<close>

definition devfs_inv :: "dev_fs \<Rightarrow> bool" where
  "devfs_inv s \<longleftrightarrow> omap (dev_files s) \<and> (\<forall>n d. map_of (dev_files s) n = Some d \<longrightarrow> n \<noteq> [])"

text \<open>A device that is added is found under its name and has a fresh inode; every other name keeps its device.\<close>

theorem addDevice_found:
  assumes "devfs_inv s" and "n \<noteq> []" and "slash_char \<notin> set n" and "map_of (dev_files s) n = None"
  shows "case addDevice (Some n) d s of (r, s') \<Rightarrow> r \<and> devfs_inv s' \<and> map_of (dev_files s') = (map_of (dev_files s))(n \<mapsto> d)
    \<and> devfs_open s' n 0 = Inr (DevFile (dev_open (devices s' d) d 0))
    \<and> devfs_lstat s' n = dev_fstat (devices s' d) \<and> dev_ino (devices s' d) = word_of_int (dfs_inodeCount s)
    \<and> dfs_inodeCount s' = dfs_inodeCount s + 1"
proof -
  obtain m b where m: "omap_insert n d (dev_files s) = (m, b)" by fastforce
  have o: "omap (dev_files s)" using assms(1) by (simp add: devfs_inv_def)
  have "omap m" "map_of m = (map_of (dev_files s))(n \<mapsto> d)" "b" using omap_insert_spec [OF o, of n d] assms(4) m by simp_all
  then show ?thesis using assms(1-3) m
    by (auto simp: addDevice_def devfs_inv_def devfs_open_def devfs_lstat_def setFileInfo_def)
qed

end
