(* ===== verification/Process_Pool.thy ===== *)
theory Process_Pool
  imports Miosix_Prelude
begin

unbundle bit_operations_syntax

text \<open>
  \<^verbatim>\<open>class ProcessPool\<close> (\<^verbatim>\<open>kernel/process_pool.h\<close>, \<^verbatim>\<open>kernel/process_pool.cpp\<close>): the allocator of the memory of the
  processes. A bitmap of 32 bit words has a bit for every block of 1KB, and a map from addresses to sizes keeps the
  allocated areas. An exception is a value; an access past the end of the bitmap is the exception \<open>Crash\<close>. The
  invariant \<open>pool_inv\<close> says that the areas are aligned, inside the pool and disjoint, and that the bitmap is exactly
  their union; the laws of the allocator are the locale \<open>area_allocator\<close>.
\<close>

section \<open>The allocator\<close>

datatype exn = RuntimeError string | BadAlloc | Crash fault

fun to_exn :: "'a result \<Rightarrow> exn + 'a" where
  "to_exn (Inl f) = Inl (Crash f)"
| "to_exn (Inr x) = Inr x"

definition blockBits :: nat where "blockBits = 10"
definition blockSize :: u32 where "blockSize = push_bit blockBits 1"

record process_pool =
  bitmap :: "u32 list"
  poolBase :: u32
  poolSize :: u32
  allocatedBlocks :: "u32 \<rightharpoonup> u32"

definition testBit :: "u32 list \<Rightarrow> nat \<Rightarrow> bool result" where
  "testBit bm b = rbind (arr_get bm (b div 32)) (\<lambda>w. Inr (w AND push_bit (b mod 32) 1 \<noteq> 0))"

definition setBit :: "u32 list \<Rightarrow> nat \<Rightarrow> u32 list result" where
  "setBit bm b = rbind (arr_get bm (b div 32)) (\<lambda>w. arr_set bm (b div 32) (w OR push_bit (b mod 32) 1))"

definition clearBit :: "u32 list \<Rightarrow> nat \<Rightarrow> u32 list result" where
  "clearBit bm b = rbind (arr_get bm (b div 32)) (\<lambda>w. arr_set bm (b div 32) (w AND NOT (push_bit (b mod 32) 1)))"

text \<open>The three loops over the bits of an area: is one of them set, set them all, clear them all.\<close>

fun test_range :: "u32 list \<Rightarrow> nat \<Rightarrow> nat \<Rightarrow> bool result" where
  "test_range bm i 0 = Inr False"
| "test_range bm i (Suc n) = rbind (testBit bm i) (\<lambda>b. if b then Inr True else test_range bm (Suc i) n)"

fun set_range :: "u32 list \<Rightarrow> nat \<Rightarrow> nat \<Rightarrow> u32 list result" where
  "set_range bm i 0 = Inr bm"
| "set_range bm i (Suc n) = rbind (setBit bm i) (\<lambda>bm. set_range bm (Suc i) n)"

fun clear_range :: "u32 list \<Rightarrow> nat \<Rightarrow> nat \<Rightarrow> u32 list result" where
  "clear_range bm i 0 = Inr bm"
| "clear_range bm i (Suc n) = rbind (clearBit bm i) (\<lambda>bm. clear_range bm (Suc i) n)"

text \<open>The search of a free area, in steps of its size, up to and including the bit \<open>limit\<close>.\<close>

partial_function (option) alloc_scan :: "u32 list \<Rightarrow> nat \<Rightarrow> nat \<Rightarrow> nat \<Rightarrow> (exn + nat) option" where
  "alloc_scan bm limit sizeBit i =
     (if i \<le> limit
      then obind (Some (to_exn (test_range bm i sizeBit))) (\<lambda>notEmpty.
             if notEmpty then alloc_scan bm limit sizeBit (i + sizeBit) else Some (Inr i))
      else Some (Inl BadAlloc))"

declare alloc_scan.simps [code]

definition allocate :: "u32 \<Rightarrow> process_pool \<Rightarrow> (exn + (process_pool \<times> u32)) option" where
  "allocate sz p =
     (if sz AND (sz - 1) \<noteq> 0 \<or> sz > poolSize p \<or> sz < blockSize then Some (Inl (RuntimeError []))
      else
        let offset = (if poolBase p mod sz \<noteq> 0 then sz - poolBase p mod sz else 0);
            startBit = unat (offset div blockSize);
            sizeBit = unat (sz div blockSize)
        in obind (alloc_scan (bitmap p) (unat (poolSize p div blockSize)) sizeBit startBit) (\<lambda>i.
           obind (Some (to_exn (set_range (bitmap p) i sizeBit))) (\<lambda>bm.
           let res = poolBase p + of_nat i * blockSize
           in Some (Inr (p\<lparr>bitmap := bm, allocatedBlocks := (allocatedBlocks p)(res \<mapsto> sz)\<rparr>, res)))))"

definition deallocate :: "u32 \<Rightarrow> process_pool \<Rightarrow> exn + process_pool" where
  "deallocate a p =
     (case allocatedBlocks p a of
        None \<Rightarrow> Inl (RuntimeError [])
      | Some sz \<Rightarrow>
          let n = unat (sz div blockSize);
              firstBit = unat ((a - poolBase p) div blockSize)
          in rbind (to_exn (clear_range (bitmap p) firstBit n)) (\<lambda>bm.
             Inr (p\<lparr>bitmap := bm, allocatedBlocks := (allocatedBlocks p)(a := None)\<rparr>)))"

text \<open>The constructor clears \<open>numBytes\<close> bytes of an array of \<open>numBytes div 4\<close> words.\<close>

definition new_ProcessPool :: "u32 \<Rightarrow> u32 \<Rightarrow> process_pool result" where
  "new_ProcessPool base sz =
     (let numBytes = unat (sz div blockSize div 8) in
      if numBytes > 4 * (numBytes div 4) then Inl OutOfBounds
      else Inr \<lparr>bitmap = replicate (numBytes div 4) 0, poolBase = base, poolSize = sz, allocatedBlocks = (\<lambda>_. None)\<rparr>)"

section \<open>The bitmap\<close>

definition occ :: "u32 list \<Rightarrow> nat \<Rightarrow> bool" where
  "occ bm b \<longleftrightarrow> bit (bm ! (b div 32)) (b mod 32)"

lemma bit_index: "b < 32 * length bm \<Longrightarrow> b div 32 < length bm" "\<not> b < 32 * length bm \<Longrightarrow> \<not> b div 32 < length bm"
  by (simp_all add: less_mult_imp_div_less mult.commute div_less_iff_less_mult)

lemma testBit_eq: "testBit bm b = (if b < 32 * length bm then Inr (occ bm b) else Inl OutOfBounds)"
  using bit_index [of b bm] by (simp add: testBit_def occ_def arr_get_def bit_iff_and_push_bit_not_eq_0)

lemma occ_update:
  assumes "b < 32 * length bm"
  shows "occ (bm[b div 32 := set_bit (b mod 32) (bm ! (b div 32))]) j \<longleftrightarrow> j = b \<or> occ bm j"
    and "occ (bm[b div 32 := unset_bit (b mod 32) (bm ! (b div 32))]) j \<longleftrightarrow> j \<noteq> b \<and> occ bm j"
proof -
  have e: "j = b \<longleftrightarrow> j div 32 = b div 32 \<and> j mod 32 = b mod 32" by (metis div_mod_decomp)
  have m: "j mod 32 < 32" "b mod 32 < 32" by simp_all
  show "occ (bm[b div 32 := set_bit (b mod 32) (bm ! (b div 32))]) j \<longleftrightarrow> j = b \<or> occ bm j"
    using bit_index(1) [OF assms] m by (cases "j div 32 = b div 32") (auto simp: occ_def e bit_simps)
  show "occ (bm[b div 32 := unset_bit (b mod 32) (bm ! (b div 32))]) j \<longleftrightarrow> j \<noteq> b \<and> occ bm j"
    using bit_index(1) [OF assms] m by (cases "j div 32 = b div 32") (auto simp: occ_def e bit_simps)
qed

lemma setBit_ok:
  assumes "b < 32 * length bm"
  obtains bm' where "setBit bm b = Inr bm'" "length bm' = length bm" "\<And>j. occ bm' j \<longleftrightarrow> j = b \<or> occ bm j"
proof
  show "setBit bm b = Inr (bm[b div 32 := set_bit (b mod 32) (bm ! (b div 32))])"
    using bit_index(1) [OF assms] by (simp add: setBit_def set_bit_eq_or)
qed (simp_all add: occ_update assms)

lemma clearBit_ok:
  assumes "b < 32 * length bm"
  obtains bm' where "clearBit bm b = Inr bm'" "length bm' = length bm" "\<And>j. occ bm' j \<longleftrightarrow> j \<noteq> b \<and> occ bm j"
proof
  show "clearBit bm b = Inr (bm[b div 32 := unset_bit (b mod 32) (bm ! (b div 32))])"
    using bit_index(1) [OF assms] by (simp add: clearBit_def unset_bit_eq_and_not)
qed (simp_all add: occ_update assms)

lemma test_range_False:
  "test_range bm i n = Inr False \<longleftrightarrow> (\<forall>j<n. i + j < 32 * length bm \<and> \<not> occ bm (i + j))"
proof (induction n arbitrary: i)
  case (Suc n)
  show ?case
    by (simp add: testBit_eq Suc.IH All_less_Suc2)
qed simp

lemma test_range_total: "n > 0 \<Longrightarrow> i + n \<le> 32 * length bm \<Longrightarrow> \<exists>b. test_range bm i n = Inr b"
proof (induction n arbitrary: i)
  case (Suc n)
  then show ?case by (cases n) (auto simp: testBit_eq)
qed simp

lemma test_range_True: "test_range bm i n = Inr True \<Longrightarrow> \<exists>j<n. occ bm (i + j)"
proof (induction n arbitrary: i)
  case (Suc n)
  show ?case
  proof (cases "occ bm i")
    case True
    then show ?thesis by (intro exI [of _ 0]) simp
  next
    case False
    with Suc.prems have "test_range bm (Suc i) n = Inr True" by (simp add: testBit_eq split: if_splits)
    from Suc.IH [OF this] obtain j where "j < n" "occ bm (Suc i + j)" by blast
    then show ?thesis by (intro exI [of _ "Suc j"]) simp
  qed
qed simp

lemma test_range_fault: "test_range bm i n = Inl f \<Longrightarrow> f = OutOfBounds \<and> 32 * length bm < i + n"
proof (induction n arbitrary: i)
  case (Suc n)
  show ?case using Suc.prems Suc.IH [of "Suc i"] by (auto simp: testBit_eq split: if_splits)
qed simp

lemma set_range_ok:
  "i + n \<le> 32 * length bm \<Longrightarrow>
     \<exists>bm'. set_range bm i n = Inr bm' \<and> length bm' = length bm \<and> (\<forall>j. occ bm' j \<longleftrightarrow> i \<le> j \<and> j < i + n \<or> occ bm j)"
proof (induction n arbitrary: i bm)
  case (Suc n)
  from Suc.prems have "i < 32 * length bm" by simp
  then obtain b1 where b1: "setBit bm i = Inr b1" "length b1 = length bm" "\<And>j. occ b1 j \<longleftrightarrow> j = i \<or> occ bm j"
    by (elim setBit_ok) blast
  have "Suc i + n \<le> 32 * length b1" using Suc.prems b1(2) by simp
  from Suc.IH [OF this] obtain bm' where "set_range b1 (Suc i) n = Inr bm'" "length bm' = length b1"
    "\<forall>j. occ bm' j \<longleftrightarrow> Suc i \<le> j \<and> j < Suc i + n \<or> occ b1 j" by blast
  moreover have "occ bm' j \<longleftrightarrow> i \<le> j \<and> j < i + Suc n \<or> occ bm j" for j
    unfolding calculation(3) [rule_format, of j] b1(3) by linarith
  ultimately show ?case using b1(1,2) by (intro exI [of _ bm'] conjI allI) simp_all
qed auto

lemma clear_range_ok:
  "i + n \<le> 32 * length bm \<Longrightarrow>
     \<exists>bm'. clear_range bm i n = Inr bm' \<and> length bm' = length bm \<and> (\<forall>j. occ bm' j \<longleftrightarrow> \<not> (i \<le> j \<and> j < i + n) \<and> occ bm j)"
proof (induction n arbitrary: i bm)
  case (Suc n)
  from Suc.prems have "i < 32 * length bm" by simp
  then obtain b1 where b1: "clearBit bm i = Inr b1" "length b1 = length bm" "\<And>j. occ b1 j \<longleftrightarrow> j \<noteq> i \<and> occ bm j"
    by (elim clearBit_ok) blast
  have "Suc i + n \<le> 32 * length b1" using Suc.prems b1(2) by simp
  from Suc.IH [OF this] obtain bm' where "clear_range b1 (Suc i) n = Inr bm'" "length bm' = length b1"
    "\<forall>j. occ bm' j \<longleftrightarrow> \<not> (Suc i \<le> j \<and> j < Suc i + n) \<and> occ b1 j" by blast
  moreover have "clear_range bm i (Suc n) = clear_range b1 (Suc i) n" using b1(1) by simp
  moreover have "\<not> (Suc i \<le> j \<and> j < Suc i + n) \<and> occ b1 j \<longleftrightarrow> \<not> (i \<le> j \<and> j < i + Suc n) \<and> occ bm j" for j
    using b1(3) [of j] by auto
  ultimately show ?case using b1(2) by simp
qed auto

text \<open>The search returns, with the first area of the sequence that is free and inside the bitmap.\<close>

lemma alloc_scan_spec:
  assumes "n > 0"
  shows "\<exists>r. alloc_scan bm limit n i = Some r \<and>
     (case r of
        Inr i' \<Rightarrow> \<exists>k. i' = i + k * n \<and> test_range bm i' n = Inr False
          \<and> (\<forall>k'<k. \<exists>j<n. occ bm (i + k' * n + j))
      | Inl e \<Rightarrow> e \<in> {BadAlloc, Crash OutOfBounds}
          \<and> (\<forall>k. i + k * n \<le> limit \<and> i + k * n + n \<le> 32 * length bm \<longrightarrow> (\<exists>j<n. occ bm (i + k * n + j))))"
proof (induction "Suc limit - i" arbitrary: i rule: less_induct)
  case less
  show ?case
  proof (cases "i \<le> limit")
    case False
    then show ?thesis by (subst alloc_scan.simps) auto
  next
    case True
    show ?thesis
    proof (cases "test_range bm i n")
      case (Inl f)
      with test_range_fault [OF this] True show ?thesis by (subst alloc_scan.simps) auto
    next
      case (Inr b)
      show ?thesis
      proof (cases b)
        case False
        with Inr True show ?thesis by (subst alloc_scan.simps) (auto intro!: exI [of _ 0])
      next
        case bt: True
        then obtain j0 where j0: "j0 < n" "occ bm (i + j0)" using test_range_True [of bm i n] Inr by auto
        have eq: "alloc_scan bm limit n i = alloc_scan bm limit n (i + n)"
          using True Inr bt by (subst alloc_scan.simps) simp
        have "Suc limit - (i + n) < Suc limit - i" using True assms by simp
        from less [OF this] obtain r where r: "alloc_scan bm limit n (i + n) = Some r"
          "case r of Inr i' \<Rightarrow> \<exists>k. i' = i + n + k * n \<and> test_range bm i' n = Inr False \<and> (\<forall>k'<k. \<exists>j<n. occ bm (i + n + k' * n + j))
           | Inl e \<Rightarrow> e \<in> {BadAlloc, Crash OutOfBounds} \<and> (\<forall>k. i + n + k * n \<le> limit \<and> i + n + k * n + n \<le> 32 * length bm \<longrightarrow> (\<exists>j<n. occ bm (i + n + k * n + j)))"
          by blast
        have sh: "(\<forall>k'<Suc k. \<exists>j<n. occ bm (i + k' * n + j))" if "\<forall>k'<k. \<exists>j<n. occ bm (i + n + k' * n + j)" for k
          using that j0 by (auto simp: All_less_Suc2 algebra_simps)
        show ?thesis
        proof (cases r)
          case (Inr i')
          with r(2) obtain k where k: "i' = i + n + k * n" "test_range bm i' n = Inr False" "\<forall>k'<k. \<exists>j<n. occ bm (i + n + k' * n + j)"
            by auto
          then have "i' = i + Suc k * n" by simp
          with k(2) sh [OF k(3)] show ?thesis unfolding eq r(1) using Inr by (auto simp del: mult_Suc)
        next
          case (Inl e)
          have "\<exists>j<n. occ bm (i + k * n + j)" if "i + k * n \<le> limit" "i + k * n + n \<le> 32 * length bm" for k
            using that r(2) Inl j0 by (cases k) (auto simp: algebra_simps)
          then show ?thesis unfolding eq r(1) using r(2) Inl by simp
        qed
      qed
    qed
  qed
qed

lemma alloc_scan_returns:
  assumes "n > 0"
  obtains q where "alloc_scan bm limit n i = Some q"
    "\<And>i'. q = Inr i' \<Longrightarrow> \<exists>k. i' = i + k * n \<and> test_range bm i' n = Inr False"
    "\<And>e. q = Inl e \<Longrightarrow> e \<in> {BadAlloc, Crash OutOfBounds}"
    "\<And>e k. q = Inl e \<Longrightarrow> i + k * n \<le> limit \<Longrightarrow> i + k * n + n \<le> 32 * length bm \<Longrightarrow> \<exists>j<n. occ bm (i + k * n + j)"
proof -
  obtain q where q: "alloc_scan bm limit n i = Some q" and c: "case q of
        Inr i' \<Rightarrow> \<exists>k. i' = i + k * n \<and> test_range bm i' n = Inr False
          \<and> (\<forall>k'<k. \<exists>j<n. occ bm (i + k' * n + j))
      | Inl e \<Rightarrow> e \<in> {BadAlloc, Crash OutOfBounds}
          \<and> (\<forall>k. i + k * n \<le> limit \<and> i + k * n + n \<le> 32 * length bm \<longrightarrow> (\<exists>j<n. occ bm (i + k * n + j)))"
    using alloc_scan_spec [OF assms, of bm limit i] by blast
  show thesis by (rule that [OF q]) (use c in auto)
qed

section \<open>Sizes and addresses\<close>

lemma blockSize_eq: "blockSize = 1024"
  by (simp add: blockSize_def blockBits_def)

text \<open>The test \<^verbatim>\<open>size & (size - 1)\<close> with the lower bound implies that the size is a number of blocks.\<close>

lemma power_test_blocks:
  assumes "sz AND (sz - 1) = 0" "1024 \<le> (sz :: u32)"
  shows "1024 dvd unat sz"
proof (rule ccontr)
  assume nd: "\<not> 1024 dvd unat sz"
  have ge: "1024 \<le> unat sz" using assms(2) by (simp add: word_le_nat_alt)
  then have "sz \<noteq> 0" by auto
  then have m1: "unat (sz - 1) = unat sz - 1" by (rule unat_pred)
  have "unat sz mod 1024 \<noteq> 0" using nd by (simp add: dvd_eq_mod_eq_0)
  then have "(unat sz - 1) div 1024 = unat sz div 1024"
    using div_mult_mod_eq [of "unat sz" 1024] mod_less_divisor [of 1024 "unat sz"] by (intro div_nat_eqI) (linarith, simp)
  moreover have "unat (sz AND (sz - 1)) = unat sz AND (unat sz - 1)" by (simp add: unsigned_and_eq m1)
  then have "drop_bit 10 (unat sz AND (unat sz - 1)) = 0" using assms(1) by simp
  then have "drop_bit 10 (unat sz) AND drop_bit 10 (unat sz - 1) = 0" by simp
  ultimately have "unat sz div 1024 = 0" by (simp add: drop_bit_eq_div)
  with ge show False by simp
qed

lemma first_aligned:
  fixes B S :: nat
  assumes "S > 0" "b dvd B" "b dvd S"
  defines "off \<equiv> if B mod S \<noteq> 0 then S - B mod S else 0"
  shows "S dvd B + off" "b dvd off" "off < S" "S dvd a \<Longrightarrow> B \<le> a \<Longrightarrow> \<exists>k. a = B + off + k * S"
proof -
  have lt: "B mod S < S" using assms(1) by simp
  show d: "S dvd B + off"
  proof (cases "B mod S = 0")
    case False
    have "B + (S - B mod S) = B div S * S + S" using lt div_mult_mod_eq [of B S] by linarith
    with False show ?thesis by (simp add: off_def)
  qed (simp add: off_def dvd_eq_mod_eq_0)
  show "b dvd off" using assms(2,3) lt by (simp add: off_def dvd_mod dvd_diff_nat)
  show o: "off < S" using assms(1) lt by (auto simp: off_def)
  show "\<exists>k. a = B + off + k * S" if a: "S dvd a" "B \<le> a"
  proof -
    obtain u where u: "a = S * u" using a(1) unfolding dvd_def by blast
    obtain v where v: "B + off = S * v" using d unfolding dvd_def by blast
    have "S * v < S * u + S" using a(2) o u v by linarith
    then have "S * v < S * Suc u" by simp
    then have "v < Suc u" unfolding mult_less_cancel1 by blast
    then have "v \<le> u" by simp
    then have "S * u = S * v + (u - v) * S" by (metis add_mult_distrib2 le_add_diff_inverse mult.commute)
    with u v show ?thesis by auto
  qed
qed

definition area :: "u32 \<Rightarrow> u32 \<Rightarrow> nat set" where
  "area a sz = {unat a..<unat a + unat sz}"

lemma block_start_in_area:
  assumes "1024 dvd (B :: nat)" "1024 dvd u" "1024 dvd t" "u \<le> x" "x < u + t" "B \<le> x"
  shows "u \<le> B + (x - B) div 1024 * 1024" "B + (x - B) div 1024 * 1024 < u + t"
proof -
  obtain B' u' t' where e: "B = 1024 * B'" "u = 1024 * u'" "t = 1024 * t'" using assms(1,2,3) by (auto elim!: dvdE)
  have y: "u' \<le> x div 1024" "x div 1024 < u' + t'" "B' \<le> x div 1024" using assms(4,5,6) unfolding e by linarith+
  have "(x - B) div 1024 = x div 1024 - B'" using y(3) assms(6) dividend_less_times_div [of 1024 x] div_times_less_eq_dividend [of x 1024]
    unfolding e by (intro div_nat_eqI) auto
  then have "B + (x - B) div 1024 * 1024 = 1024 * (x div 1024)" using y(3) unfolding e by simp
  with y show "u \<le> B + (x - B) div 1024 * 1024" "B + (x - B) div 1024 * 1024 < u + t" unfolding e by simp_all
qed

section \<open>The invariant\<close>

definition pool_bytes :: "process_pool \<Rightarrow> nat set" where
  "pool_bytes p = {unat (poolBase p)..<unat (poolBase p) + unat (poolSize p)}"

definition areas_ok :: "nat \<Rightarrow> nat set \<Rightarrow> (u32 \<rightharpoonup> u32) \<Rightarrow> bool" where
  "areas_ok g P m \<longleftrightarrow>
     (\<forall>a sz. m a = Some sz \<longrightarrow> sz \<noteq> 0 \<and> g dvd unat sz \<and> unat sz dvd unat a \<and> area a sz \<subseteq> P)
   \<and> (\<forall>a b sz t. m a = Some sz \<longrightarrow> m b = Some t \<longrightarrow> a \<noteq> b \<longrightarrow> area a sz \<inter> area b t = {})"

definition pool_inv :: "process_pool \<Rightarrow> bool" where
  "pool_inv p \<longleftrightarrow>
     1024 dvd unat (poolBase p) \<and> unat (poolSize p) = 1024 * (32 * length (bitmap p))
   \<and> unat (poolBase p) + unat (poolSize p) \<le> 2 ^ 32
   \<and> areas_ok 1024 (pool_bytes p) (allocatedBlocks p)
   \<and> (\<forall>i < 32 * length (bitmap p). occ (bitmap p) i \<longleftrightarrow>
        (\<exists>a sz. allocatedBlocks p a = Some sz \<and> unat (poolBase p) + i * 1024 \<in> area a sz))"

text \<open>A place where an area of the given size would fit.\<close>

definition free_place :: "process_pool \<Rightarrow> u32 \<Rightarrow> nat \<Rightarrow> bool" where
  "free_place p sz x \<longleftrightarrow> unat sz dvd x \<and> {x..<x + unat sz} \<subseteq> pool_bytes p
     \<and> (\<forall>b t. allocatedBlocks p b = Some t \<longrightarrow> {x..<x + unat sz} \<inter> area b t = {})"

lemma areas_okD:
  assumes "areas_ok g P m" "m a = Some sz"
  shows "sz \<noteq> 0" "g dvd unat sz" "unat sz dvd unat a" "area a sz \<subseteq> P" "g dvd unat a"
    "\<And>b t. m b = Some t \<Longrightarrow> a \<noteq> b \<Longrightarrow> area a sz \<inter> area b t = {}"
  using assms unfolding areas_ok_def by (blast intro: dvd_trans)+

lemma areas_ok_insert:
  assumes "areas_ok g P m" "sz \<noteq> 0" "g dvd unat sz" "unat sz dvd unat a" "area a sz \<subseteq> P"
    "\<And>b t. m b = Some t \<Longrightarrow> area a sz \<inter> area b t = {}"
  shows "areas_ok g P (m(a \<mapsto> sz))" "m a = None"
proof -
  show "areas_ok g P (m(a \<mapsto> sz))" using assms unfolding areas_ok_def by (auto simp: Int_commute)
  have "unat a \<in> area a t" if "t \<noteq> 0" for t using that by (simp add: area_def unat_gt_0)
  with assms(2) areas_okD(1) [OF assms(1)] assms(6) show "m a = None" by (cases "m a") blast+
qed

lemma areas_ok_delete: "areas_ok g P m \<Longrightarrow> areas_ok g P (m(a := None))"
  unfolding areas_ok_def by auto

text \<open>The blocks of an area that starts at a block of the pool.\<close>

lemma block_in_area:
  assumes "unat a = B + i * 1024" "unat sz = n * 1024"
  shows "B + j * 1024 \<in> area a sz \<longleftrightarrow> i \<le> j \<and> j < i + n"
  using assms by (auto simp: area_def)

lemma address_of_block:
  assumes "pool_inv p" "i < 32 * length (bitmap p)"
  shows "unat (poolBase p + of_nat i * blockSize) = unat (poolBase p) + i * 1024"
proof -
  have b: "unat (poolBase p) + i * 1024 < 2 ^ 32" using assms unfolding pool_inv_def by linarith
  then have "unat (of_nat i * (1024 :: u32)) = i * 1024"
    by (simp add: unat_word_ariths unat_of_nat)
  with b show ?thesis by (simp add: blockSize_eq unat_word_ariths)
qed

text \<open>An area none of whose blocks is marked in the bitmap meets no allocated area.\<close>

lemma unmarked_disjoint:
  assumes inv: "pool_inv p" and "unat a = unat (poolBase p) + i * 1024" "unat sz = n * 1024" "i + n \<le> 32 * length (bitmap p)"
    and un: "\<forall>j<n. \<not> occ (bitmap p) (i + j)" and m: "allocatedBlocks p b = Some t"
  shows "area a sz \<inter> area b t = {}"
proof (rule ccontr)
  let ?B = "unat (poolBase p)"
  assume "area a sz \<inter> area b t \<noteq> {}"
  then obtain x where x: "x \<in> area a sz" "x \<in> area b t" by blast
  define j where "j = (x - ?B) div 1024"
  have ok: "areas_ok 1024 (pool_bytes p) (allocatedBlocks p)" and B: "1024 dvd ?B" using inv by (simp_all add: pool_inv_def)
  have xB: "?B \<le> x" using x(1) assms(2) by (simp add: area_def)
  have da: "1024 dvd unat a" "1024 dvd unat sz" using B assms(2,3) by simp_all
  have "?B + j * 1024 \<in> area a sz"
    using block_start_in_area [OF B da _ _ xB] x(1) by (simp add: area_def j_def)
  then have ij: "i \<le> j" "j < i + n" using block_in_area [OF assms(2,3)] by blast+
  have "?B + j * 1024 \<in> area b t"
    using block_start_in_area [OF B areas_okD(5) [OF ok m] areas_okD(2) [OF ok m] _ _ xB] x(2) by (simp add: area_def j_def)
  then have "occ (bitmap p) j" using inv m ij assms(4) unfolding pool_inv_def by (metis order_less_le_trans)
  with un [rule_format, of "j - i"] ij show False by (simp add: less_diff_conv2)
qed

section \<open>Allocation and deallocation\<close>

text \<open>What the first lines of \<^verbatim>\<open>allocate\<close> compute, in numbers.\<close>

definition valid_size :: "process_pool \<Rightarrow> u32 \<Rightarrow> bool" where
  "valid_size p sz \<longleftrightarrow> sz AND (sz - 1) = 0 \<and> sz \<le> poolSize p \<and> blockSize \<le> sz"

definition start_bit :: "process_pool \<Rightarrow> u32 \<Rightarrow> nat" where
  "start_bit p sz = unat ((if poolBase p mod sz \<noteq> 0 then sz - poolBase p mod sz else 0) div blockSize)"

lemma allocate_plan:
  assumes "valid_size p sz" "pool_inv p"
  obtains n where "n > 0" "unat sz = n * 1024" "unat (sz div blockSize) = n"
    "unat sz dvd unat (poolBase p) + start_bit p sz * 1024"
    "\<And>x. unat sz dvd x \<Longrightarrow> unat (poolBase p) \<le> x \<Longrightarrow> \<exists>k. x = unat (poolBase p) + (start_bit p sz + k * n) * 1024"
proof -
  let ?B = "unat (poolBase p)" and ?S = "unat sz"
  let ?off = "if ?B mod ?S \<noteq> 0 then ?S - ?B mod ?S else 0"
  have ge: "1024 \<le> ?S" using assms(1) by (simp add: valid_size_def blockSize_eq word_le_nat_alt)
  have d: "1024 dvd ?S" using assms(1) power_test_blocks [of sz] by (simp add: valid_size_def blockSize_eq)
  have B: "1024 dvd ?B" using assms(2) by (simp add: pool_inv_def)
  from ge have S0: "0 < ?S" by simp
  note fa = first_aligned [OF S0 B d]
  have m: "unat (poolBase p mod sz) = ?B mod ?S" by (simp add: unat_mod_distrib)
  then have "poolBase p mod sz \<le> sz" using S0 by (simp add: word_le_nat_alt less_imp_le)
  then have "unat (if poolBase p mod sz \<noteq> 0 then sz - poolBase p mod sz else 0) = ?off"
    using m by (auto simp: unat_sub simp flip: unat_eq_0)
  then have sb: "start_bit p sz = ?off div 1024" by (simp add: start_bit_def blockSize_eq unat_div_distrib)
  then have off: "start_bit p sz * 1024 = ?off" using fa(2) by (simp only: dvd_div_mult_self)
  have S: "?S = ?S div 1024 * 1024" using d by simp
  show thesis
  proof (rule that)
    show "0 < ?S div 1024" using ge by (simp add: div_greater_zero_iff)
    show "unat (sz div blockSize) = ?S div 1024" by (simp add: blockSize_eq unat_div_distrib)
    show "?S dvd ?B + start_bit p sz * 1024" unfolding off by (rule fa(1))
    show "\<exists>k. x = ?B + (start_bit p sz + k * (?S div 1024)) * 1024" if "?S dvd x" "?B \<le> x" for x
    proof -
      from fa(4) [OF that] obtain k where "x = ?B + ?off + k * ?S" by blast
      then have "x = ?B + start_bit p sz * 1024 + k * (?S div 1024 * 1024)" unfolding off S [symmetric] .
      then show ?thesis by (intro exI [of _ k]) (simp add: algebra_simps)
    qed
  qed (rule S)
qed

lemma allocate_valid:
  assumes "valid_size p sz"
  shows "allocate sz p =
     obind (alloc_scan (bitmap p) (unat (poolSize p div blockSize)) (unat (sz div blockSize)) (start_bit p sz)) (\<lambda>i.
     obind (Some (to_exn (set_range (bitmap p) i (unat (sz div blockSize))))) (\<lambda>bm.
       Some (Inr (p\<lparr>bitmap := bm, allocatedBlocks := (allocatedBlocks p)(poolBase p + of_nat i * blockSize \<mapsto> sz)\<rparr>,
         poolBase p + of_nat i * blockSize))))"
proof -
  have "\<not> (sz AND (sz - 1) \<noteq> 0 \<or> sz > poolSize p \<or> sz < blockSize)" using assms by (auto simp: valid_size_def not_less)
  then show ?thesis unfolding allocate_def start_bit_def Let_def by (simp only: if_False)
qed

lemma free_range:
  assumes "test_range bm i n = Inr False" "n > 0"
  shows "i < 32 * length bm" "i + n \<le> 32 * length bm" "\<forall>j<n. \<not> occ bm (i + j)"
proof -
  have fr: "\<forall>j<n. i + j < 32 * length bm" "\<forall>j<n. \<not> occ bm (i + j)" using assms(1) unfolding test_range_False by blast+
  show "\<forall>j<n. \<not> occ bm (i + j)" by (rule fr(2))
  show "i < 32 * length bm" "i + n \<le> 32 * length bm"
    using fr(1) [rule_format, of 0] fr(1) [rule_format, of "n - 1"] assms(2) by auto
qed

lemma allocate_ok:
  assumes inv: "pool_inv p" and r: "allocate sz p = Some (Inr (p', a))"
  shows "pool_inv p'" "valid_size p sz" "allocatedBlocks p a = None" "allocatedBlocks p' = (allocatedBlocks p)(a \<mapsto> sz)"
    "poolBase p' = poolBase p" "poolSize p' = poolSize p"
proof -
  let ?B = "unat (poolBase p)" and ?L = "32 * length (bitmap p)"
  show v: "valid_size p sz" using r by (auto simp: allocate_def valid_size_def not_less split: if_splits)
  from allocate_plan [OF v inv] obtain n where n: "n > 0" "unat sz = n * 1024" "unat (sz div blockSize) = n"
    "unat sz dvd ?B + start_bit p sz * 1024" by blast
  obtain q where q: "alloc_scan (bitmap p) (unat (poolSize p div blockSize)) n (start_bit p sz) = Some q"
      "\<And>i. q = Inr i \<Longrightarrow> \<exists>k. i = start_bit p sz + k * n \<and> test_range (bitmap p) i n = Inr False"
    using alloc_scan_returns [OF n(1)] by metis
  note al = allocate_valid [OF v, unfolded n(3) q(1)]
  then obtain i where i: "q = Inr i" using r by (cases q) auto
  from q(2) [OF this] obtain k where k: "i = start_bit p sz + k * n" and t: "test_range (bitmap p) i n = Inr False" by blast
  note iL = free_range [OF t n(1)]
  from set_range_ok [OF iL(2)] obtain bm where bm: "set_range (bitmap p) i n = Inr bm" "length bm = length (bitmap p)"
    "\<forall>j. occ bm j \<longleftrightarrow> i \<le> j \<and> j < i + n \<or> occ (bitmap p) j" by blast
  have res: "a = poolBase p + of_nat i * blockSize" "p' = p\<lparr>bitmap := bm, allocatedBlocks := (allocatedBlocks p)(a \<mapsto> sz)\<rparr>"
    using r unfolding al i by (auto simp: bm(1))
  have a: "unat a = ?B + i * 1024" unfolding res(1) by (rule address_of_block [OF inv iL(1)])
  have ok: "areas_ok 1024 (pool_bytes p) (allocatedBlocks p)" and ps: "unat (poolSize p) = 1024 * ?L" using inv by (simp_all add: pool_inv_def)
  have nz: "sz \<noteq> 0" using n(1,2) by (auto simp flip: unat_eq_0)
  have "unat a = ?B + start_bit p sz * 1024 + k * unat sz" unfolding a k n(2) by (simp add: algebra_simps)
  then have dv: "unat sz dvd unat a" using n(4) by simp
  have sub: "area a sz \<subseteq> pool_bytes p" using iL(2) a n(2) ps by (auto simp: area_def pool_bytes_def)
  have "1024 dvd unat sz" unfolding n(2) by simp
  note ins = areas_ok_insert [OF ok nz this dv sub unmarked_disjoint [OF inv a n(2) iL(2,3)]]
  show "allocatedBlocks p a = None" by (rule ins(2))
  show e: "allocatedBlocks p' = (allocatedBlocks p)(a \<mapsto> sz)" "poolBase p' = poolBase p" "poolSize p' = poolSize p" unfolding res(2) by simp_all
  have "occ bm j \<longleftrightarrow> (\<exists>b t. ((allocatedBlocks p)(a \<mapsto> sz)) b = Some t \<and> ?B + j * 1024 \<in> area b t)" if "j < ?L" for j
  proof -
    have u: "((allocatedBlocks p)(a \<mapsto> sz)) b = Some t \<longleftrightarrow> b = a \<and> t = sz \<or> allocatedBlocks p b = Some t" for b t
      using ins(2) by auto
    have "occ bm j \<longleftrightarrow> ?B + j * 1024 \<in> area a sz \<or> (\<exists>b t. allocatedBlocks p b = Some t \<and> ?B + j * 1024 \<in> area b t)"
      using that inv bm(3) block_in_area [OF a n(2), of j] unfolding pool_inv_def by blast
    then show ?thesis unfolding u by blast
  qed
  then show "pool_inv p'" using inv ins(1) bm(2) unfolding res(2) pool_inv_def by (simp add: pool_bytes_def)
qed

lemma allocate_returns:
  assumes inv: "pool_inv p"
  shows "\<exists>r. allocate sz p = Some r
     \<and> (\<forall>m. r = Inl (RuntimeError m) \<longleftrightarrow> \<not> valid_size p sz \<and> m = [])
     \<and> (r \<in> {Inl BadAlloc, Inl (Crash OutOfBounds)} \<longrightarrow> (\<forall>x. \<not> free_place p sz x))"
proof (cases "valid_size p sz")
  case False
  then have "allocate sz p = Some (Inl (RuntimeError []))" by (auto simp: allocate_def valid_size_def not_less)
  with False show ?thesis by auto
next
  case v: True
  let ?B = "unat (poolBase p)" and ?L = "32 * length (bitmap p)"
  from allocate_plan [OF v inv] obtain n where n: "n > 0" "unat sz = n * 1024" "unat (sz div blockSize) = n"
    "\<And>x. unat sz dvd x \<Longrightarrow> ?B \<le> x \<Longrightarrow> \<exists>k. x = ?B + (start_bit p sz + k * n) * 1024" by metis
  have lim: "unat (poolSize p div blockSize) = ?L" using inv by (simp add: pool_inv_def blockSize_eq unat_div_distrib)
  obtain q where q: "alloc_scan (bitmap p) ?L n (start_bit p sz) = Some q"
      "\<And>i. q = Inr i \<Longrightarrow> \<exists>k. i = start_bit p sz + k * n \<and> test_range (bitmap p) i n = Inr False"
      "\<And>e. q = Inl e \<Longrightarrow> e \<in> {BadAlloc, Crash OutOfBounds}"
      "\<And>e k. q = Inl e \<Longrightarrow> start_bit p sz + k * n \<le> ?L \<Longrightarrow> start_bit p sz + k * n + n \<le> ?L \<Longrightarrow> \<exists>j<n. occ (bitmap p) (start_bit p sz + k * n + j)"
    using alloc_scan_returns [OF n(1), of "bitmap p" ?L "start_bit p sz"] by blast
  note al = allocate_valid [OF v, unfolded n(3) lim q(1)]
  show ?thesis
  proof (cases q)
    case (Inr i)
    from q(2) [OF this] free_range(2) [OF _ n(1)] set_range_ok obtain bm where "set_range (bitmap p) i n = Inr bm" by metis
    then show ?thesis using al v Inr by simp
  next
    case (Inl e)
    have "\<not> free_place p sz x" for x
    proof
      assume f: "free_place p sz x"
      then have x: "unat sz dvd x" "?B \<le> x" "x + unat sz \<le> ?B + 1024 * ?L"
        using n(1,2) inv by (auto simp: free_place_def pool_bytes_def pool_inv_def)
      from n(4) [OF x(1,2)] obtain k where k: "x = ?B + (start_bit p sz + k * n) * 1024" by blast
      have "start_bit p sz + k * n + n \<le> ?L" using x(3) unfolding k n(2) by simp
      from this q(4) [OF Inl add_leD1 [OF this] this] obtain j where j: "j < n" "start_bit p sz + k * n + j < ?L" "occ (bitmap p) (start_bit p sz + k * n + j)"
        by (meson nat_add_left_cancel_less order_less_le_trans)
      then obtain b t where "allocatedBlocks p b = Some t" "?B + (start_bit p sz + k * n + j) * 1024 \<in> area b t"
        using inv unfolding pool_inv_def by blast
      moreover have "?B + (start_bit p sz + k * n + j) * 1024 \<in> {x..<x + unat sz}" using j(1) unfolding k n(2) by simp
      ultimately show False using f unfolding free_place_def by blast
    qed
    with q(3) [OF Inl] v al Inl show ?thesis by auto
  qed
qed

lemma deallocate_ok:
  assumes inv: "pool_inv p" and m: "allocatedBlocks p a = Some sz"
  obtains p' where "deallocate a p = Inr p'" "pool_inv p'" "allocatedBlocks p' = (allocatedBlocks p)(a := None)"
    "pool_bytes p' = pool_bytes p"
proof -
  let ?B = "unat (poolBase p)" and ?L = "32 * length (bitmap p)"
  have ok: "areas_ok 1024 (pool_bytes p) (allocatedBlocks p)" and ps: "unat (poolSize p) = 1024 * ?L" "1024 dvd ?B"
    using inv by (simp_all add: pool_inv_def)
  note A = areas_okD [OF ok m]
  from A(1) have "0 < unat sz" by (simp add: unat_gt_0)
  with A(4) have in_pool: "?B \<le> unat a" "unat a + unat sz \<le> ?B + 1024 * ?L" by (auto simp: area_def pool_bytes_def ps(1))
  define i n where "i = (unat a - ?B) div 1024" and "n = unat sz div 1024"
  have "1024 dvd unat a - ?B" using A(5) ps(2) by (rule dvd_diff_nat)
  then have a: "unat a = ?B + i * 1024" and n: "unat sz = n * 1024" using in_pool(1) A(2) by (simp_all add: i_def n_def)
  have bits: "unat ((a - poolBase p) div blockSize) = i" "unat (sz div blockSize) = n"
    using in_pool(1) by (simp_all add: blockSize_eq unat_div_distrib unat_sub word_le_nat_alt i_def n_def)
  have "i + n \<le> ?L" using in_pool(2) unfolding a n by simp
  from clear_range_ok [OF this] obtain bm where bm: "clear_range (bitmap p) i n = Inr bm" "length bm = length (bitmap p)"
    "\<forall>j. occ bm j \<longleftrightarrow> \<not> (i \<le> j \<and> j < i + n) \<and> occ (bitmap p) j" by blast
  define p' where "p' = p\<lparr>bitmap := bm, allocatedBlocks := (allocatedBlocks p)(a := None)\<rparr>"
  have d: "deallocate a p = Inr p'" by (simp add: deallocate_def m bits bm(1) p'_def Let_def)
  have "occ bm j \<longleftrightarrow> (\<exists>b t. ((allocatedBlocks p)(a := None)) b = Some t \<and> ?B + j * 1024 \<in> area b t)" if "j < ?L" for j
  proof -
    have "occ bm j \<longleftrightarrow> ?B + j * 1024 \<notin> area a sz \<and> (\<exists>b t. allocatedBlocks p b = Some t \<and> ?B + j * 1024 \<in> area b t)"
      using that inv bm(3) block_in_area [OF a n, of j] unfolding pool_inv_def by blast
    moreover have "((allocatedBlocks p)(a := None)) b = Some t \<longleftrightarrow> b \<noteq> a \<and> allocatedBlocks p b = Some t" for b t by simp
    ultimately show ?thesis using A(6) m by (metis disjoint_iff option.inject)
  qed
  then have "pool_inv p'" using inv areas_ok_delete [OF ok, of a] bm(2) unfolding p'_def pool_inv_def by (simp add: pool_bytes_def)
  with d show ?thesis by (rule that) (simp_all add: p'_def pool_bytes_def)
qed

section \<open>The laws of the allocator\<close>

text \<open>
  What the loader of programs relies on: the areas that are in use are aligned, inside the memory of the allocator and
  disjoint; a new area is not in use before and is in use after; freeing an area in use succeeds.
\<close>

datatype pool_request = Allocate u32 | Deallocate u32

text \<open>A caller sees an exception as no change; an access out of bounds or a search that does not end stops it.\<close>

fun serve ::
  "(u32 \<Rightarrow> 's \<Rightarrow> (exn + ('s \<times> u32)) option) \<Rightarrow> (u32 \<Rightarrow> 's \<Rightarrow> exn + 's) \<Rightarrow> pool_request list \<Rightarrow> 's \<Rightarrow> 's option" where
  "serve alloc free [] s = Some s"
| "serve alloc free (Allocate sz # rs) s =
     (case alloc sz s of
        Some (Inr (s', a)) \<Rightarrow> serve alloc free rs s'
      | Some (Inl (Crash f)) \<Rightarrow> None
      | Some (Inl e) \<Rightarrow> serve alloc free rs s
      | None \<Rightarrow> None)"
| "serve alloc free (Deallocate a # rs) s =
     (case free a s of
        Inr s' \<Rightarrow> serve alloc free rs s'
      | Inl (Crash f) \<Rightarrow> None
      | Inl e \<Rightarrow> serve alloc free rs s)"

locale area_allocator =
  fixes inv :: "'s \<Rightarrow> bool"
    and areas :: "'s \<Rightarrow> u32 \<rightharpoonup> u32"
    and bytes :: "'s \<Rightarrow> nat set"
    and alloc :: "u32 \<Rightarrow> 's \<Rightarrow> (exn + ('s \<times> u32)) option"
    and free :: "u32 \<Rightarrow> 's \<Rightarrow> exn + 's"
  assumes inv_areas: "inv s \<Longrightarrow> areas_ok 1024 (bytes s) (areas s)"
    and alloc_law: "inv s \<Longrightarrow> alloc sz s = Some (Inr (s', a)) \<Longrightarrow>
      inv s' \<and> areas s a = None \<and> areas s' = (areas s)(a \<mapsto> sz) \<and> bytes s' = bytes s"
    and free_law: "inv s \<Longrightarrow> free a s = Inr s' \<Longrightarrow>
      inv s' \<and> areas s a \<noteq> None \<and> areas s' = (areas s)(a := None) \<and> bytes s' = bytes s"
begin

lemma serve_inv: "serve alloc free rs s = Some s' \<Longrightarrow> inv s \<Longrightarrow> inv s' \<and> bytes s' = bytes s"
proof (induction rs arbitrary: s)
  case (Cons r rs)
  show ?case
  proof (cases r)
    case (Allocate sz)
    with Cons.prems Cons.IH alloc_law [of s sz] show ?thesis
      by (auto split: option.splits sum.splits prod.splits exn.splits)
  next
    case (Deallocate a)
    with Cons.prems Cons.IH free_law [of s a] show ?thesis by (auto split: sum.splits exn.splits)
  qed
qed simp

lemma served_areas: "serve alloc free rs s = Some s' \<Longrightarrow> inv s \<Longrightarrow> areas_ok 1024 (bytes s) (areas s')"
  using serve_inv inv_areas by metis

end

interpretation pool: area_allocator pool_inv allocatedBlocks pool_bytes allocate deallocate
proof
  show "pool_inv s \<Longrightarrow> areas_ok 1024 (pool_bytes s) (allocatedBlocks s)" for s by (simp add: pool_inv_def)
  show "pool_inv s' \<and> allocatedBlocks s a = None \<and> allocatedBlocks s' = (allocatedBlocks s)(a \<mapsto> sz) \<and> pool_bytes s' = pool_bytes s"
    if "pool_inv s" "allocate sz s = Some (Inr (s', a))" for s sz s' a
    using allocate_ok [OF that] by (simp add: pool_bytes_def)
  show "pool_inv s' \<and> allocatedBlocks s a \<noteq> None \<and> allocatedBlocks s' = (allocatedBlocks s)(a := None) \<and> pool_bytes s' = pool_bytes s"
    if i: "pool_inv s" and d: "deallocate a s = Inr s'" for s a s'
  proof -
    obtain sz where m: "allocatedBlocks s a = Some sz" using d by (auto simp: deallocate_def split: option.splits)
    obtain p' where p': "deallocate a s = Inr p'" "pool_inv p'"
      "allocatedBlocks p' = (allocatedBlocks s)(a := None)" "pool_bytes p' = pool_bytes s" by (rule deallocate_ok [OF i m])
    from d p'(1) have "s' = p'" by simp
    with p' m show ?thesis by simp
  qed
qed

lemma new_pool_inv:
  assumes "1024 dvd unat base" "32768 dvd unat sz" "unat base + unat sz \<le> 2 ^ 32"
  obtains p where "new_ProcessPool base sz = Inr p" "pool_inv p" "pool_bytes p = {unat base..<unat base + unat sz}"
proof -
  obtain m where m: "unat sz = 32768 * m" using assms(2) by (auto elim: dvdE)
  then have nb: "unat (sz div blockSize div 8) = 4 * m" by (simp add: blockSize_eq unat_div_distrib)
  show ?thesis
  proof (rule that)
    show "new_ProcessPool base sz = Inr \<lparr>bitmap = replicate m 0, poolBase = base, poolSize = sz, allocatedBlocks = (\<lambda>_. None)\<rparr>"
      by (simp add: new_ProcessPool_def nb Let_def)
  qed (use assms m in \<open>simp_all add: pool_inv_def areas_ok_def occ_def pool_bytes_def\<close>)
qed

text \<open>C27. 
  After any sequence of requests to a new pool, of a size that is a multiple of 32KB, the allocated areas are aligned to
  their size, inside the pool and pairwise disjoint. \<^verbatim>\<open>allocate\<close> returns for every size: with an area that was not in use
  and is now; with \<^verbatim>\<open>runtime_error\<close> exactly for the sizes it does not accept; otherwise, with \<^verbatim>\<open>bad_alloc\<close> or by reading past
  the bitmap, only if no area of that size and alignment is free. \<^verbatim>\<open>deallocate\<close> frees exactly the areas in use.\<close>

theorem process_pool_areas:
  assumes "1024 dvd unat base" "32768 dvd unat sz0" "unat base + unat sz0 \<le> 2 ^ 32"
    and "new_ProcessPool base sz0 = Inr p0" "serve allocate deallocate rs p0 = Some p"
  shows "(\<forall>a sz. allocatedBlocks p a = Some sz \<longrightarrow>
       unat sz dvd unat a \<and> {unat a..<unat a + unat sz} \<subseteq> {unat base..<unat base + unat sz0})
   \<and> (\<forall>a b sz t. allocatedBlocks p a = Some sz \<longrightarrow> allocatedBlocks p b = Some t \<longrightarrow> a \<noteq> b \<longrightarrow>
       {unat a..<unat a + unat sz} \<inter> {unat b..<unat b + unat t} = {})
   \<and> (\<forall>sz. \<exists>r. allocate sz p = Some r \<and>
       (\<forall>p' a. r = Inr (p', a) \<longrightarrow> allocatedBlocks p a = None \<and> allocatedBlocks p' = (allocatedBlocks p)(a \<mapsto> sz))
     \<and> (\<forall>m. r = Inl (RuntimeError m) \<longleftrightarrow> \<not> valid_size p sz \<and> m = [])
     \<and> (r \<in> {Inl BadAlloc, Inl (Crash OutOfBounds)} \<longrightarrow> (\<forall>x. \<not> free_place p sz x)))
   \<and> (\<forall>a sz. allocatedBlocks p a = Some sz \<longrightarrow> (\<exists>p'. deallocate a p = Inr p' \<and> allocatedBlocks p' = (allocatedBlocks p)(a := None)))
   \<and> (\<forall>a. allocatedBlocks p a = None \<longrightarrow> deallocate a p = Inl (RuntimeError []))"
proof -
  from new_pool_inv [OF assms(1,2,3)] assms(4) have p0: "pool_inv p0" "pool_bytes p0 = {unat base..<unat base + unat sz0}" by auto
  note inv = pool.serve_inv [OF assms(5) p0(1)]
  have ok: "areas_ok 1024 {unat base..<unat base + unat sz0} (allocatedBlocks p)" using pool.served_areas [OF assms(5) p0(1)] p0(2) by simp
  show ?thesis
  proof (intro conjI allI impI)
    show "unat sz dvd unat a" "{unat a..<unat a + unat sz} \<subseteq> {unat base..<unat base + unat sz0}"
      if "allocatedBlocks p a = Some sz" for a sz using areas_okD(3,4) [OF ok that] by (simp_all add: area_def)
    show "{unat a..<unat a + unat sz} \<inter> {unat b..<unat b + unat t} = {}"
      if "allocatedBlocks p a = Some sz" "allocatedBlocks p b = Some t" "a \<noteq> b" for a b sz t
      using areas_okD(6) [OF ok that] by (simp add: area_def)
    show "\<exists>r. allocate sz p = Some r \<and>
       (\<forall>p' a. r = Inr (p', a) \<longrightarrow> allocatedBlocks p a = None \<and> allocatedBlocks p' = (allocatedBlocks p)(a \<mapsto> sz))
     \<and> (\<forall>m. r = Inl (RuntimeError m) \<longleftrightarrow> \<not> valid_size p sz \<and> m = [])
     \<and> (r \<in> {Inl BadAlloc, Inl (Crash OutOfBounds)} \<longrightarrow> (\<forall>x. \<not> free_place p sz x))" for sz
    proof -
      from inv allocate_returns [of p sz] obtain r where r: "allocate sz p = Some r"
        "\<forall>m. r = Inl (RuntimeError m) \<longleftrightarrow> \<not> valid_size p sz \<and> m = []"
        "r \<in> {Inl BadAlloc, Inl (Crash OutOfBounds)} \<longrightarrow> (\<forall>x. \<not> free_place p sz x)" by blast
      have "allocatedBlocks p a = None \<and> allocatedBlocks p' = (allocatedBlocks p)(a \<mapsto> sz)" if "r = Inr (p', a)" for p' a
        using allocate_ok(3,4) [OF conjunct1 [OF inv] r(1) [unfolded that]] by blast
      with r show ?thesis by blast
    qed
    show "\<exists>p'. deallocate a p = Inr p' \<and> allocatedBlocks p' = (allocatedBlocks p)(a := None)" if "allocatedBlocks p a = Some sz" for a sz
      using deallocate_ok [OF _ that] inv by metis
    show "deallocate a p = Inl (RuntimeError [])" if "allocatedBlocks p a = None" for a using that by (simp add: deallocate_def)
  qed
qed

theorem process_pool_areas_witness:
  "\<exists>p0 p. new_ProcessPool 0x20008000 0x18000 = Inr p0
     \<and> serve allocate deallocate [Allocate 0x400, Allocate 0x8000, Deallocate 0x20008000, Allocate 0x800] p0 = Some p
     \<and> allocatedBlocks p 0x20010000 = Some 0x8000 \<and> allocatedBlocks p 0x20008000 = Some 0x800
     \<and> area 0x20010000 0x8000 \<inter> area 0x20008000 0x800 = {}"
proof -
  define p0 where "p0 = \<lparr>bitmap = replicate 3 0, poolBase = 0x20008000, poolSize = 0x18000, allocatedBlocks = (\<lambda>_. None)\<rparr>"
  have n: "new_ProcessPool 0x20008000 0x18000 = Inr p0"
    by (simp add: new_ProcessPool_def blockSize_eq p0_def Let_def)
  let ?rs = "[Allocate 0x400, Allocate 0x8000, Deallocate 0x20008000, Allocate 0x800]"
  have "map_option (\<lambda>p. (allocatedBlocks p 0x20010000, allocatedBlocks p 0x20008000)) (serve allocate deallocate ?rs p0)
    = Some (Some 0x8000, Some 0x800)" unfolding p0_def by code_simp
  then obtain p where p: "serve allocate deallocate ?rs p0 = Some p"
     "allocatedBlocks p 0x20010000 = Some 0x8000" "allocatedBlocks p 0x20008000 = Some 0x800" by auto
  show ?thesis
    using n p process_pool_areas [OF _ _ _ n p(1)] by (auto simp: area_def)
qed

text \<open>
  The bound of the search includes the number of blocks: with every block in use, the request of one more block does
  not end in \<^verbatim>\<open>bad_alloc\<close> but reads the word after the end of the bitmap.\<close>

lemma scan_full:
  assumes "\<forall>i < 32 * length bm. occ bm i" "i \<le> 32 * length bm"
  shows "alloc_scan bm (32 * length bm) 1 i = Some (Inl (Crash OutOfBounds))"
  using assms(2)
proof (induction "32 * length bm - i" arbitrary: i)
  case 0
  then show ?case by (subst alloc_scan.simps) (simp add: testBit_eq)
next
  case (Suc x)
  then have i: "i < 32 * length bm" "x = 32 * length bm - Suc i" by simp_all
  then have "alloc_scan bm (32 * length bm) 1 (Suc i) = Some (Inl (Crash OutOfBounds))" using Suc by simp
  moreover have "test_range bm i 1 = Inr True" using i(1) assms(1) by (simp add: testBit_eq)
  ultimately show ?case using i(1) by (subst alloc_scan.simps) simp
qed

theorem full_pool_reads_past_bitmap:
  assumes "pool_inv p" "poolSize p \<noteq> 0" "\<forall>i < 32 * length (bitmap p). occ (bitmap p) i"
  shows "allocate blockSize p = Some (Inl (Crash OutOfBounds))"
proof -
  have ps: "unat (poolSize p) = 1024 * (32 * length (bitmap p))" "1024 dvd unat (poolBase p)" using assms(1) by (simp_all add: pool_inv_def)
  have "length (bitmap p) \<noteq> 0" using assms(2) ps(1) by (auto simp flip: unat_eq_0)
  then have v: "valid_size p blockSize" using ps(1) by (simp add: valid_size_def blockSize_eq word_le_nat_alt Suc_le_eq)
  have "poolBase p mod 1024 = 0" using ps(2) by (simp add: unat_mod_distrib dvd_eq_mod_eq_0 flip: unat_eq_0)
  then have "start_bit p blockSize = 0" by (simp add: start_bit_def blockSize_eq)
  moreover have "unat (poolSize p div blockSize) = 32 * length (bitmap p)" using ps(1) by (simp add: blockSize_eq unat_div_distrib)
  ultimately show ?thesis using allocate_valid [OF v] scan_full [OF assms(3), of 0] by (simp add: blockSize_eq)
qed

text \<open>
  The constructor rounds the size of the bitmap down: for a pool that is not a multiple of 32KB it clears more bytes
  than it allocates, or leaves blocks without a bit.\<close>

theorem small_pool_overflows_bitmap:
  "new_ProcessPool base 0xa000 = Inl OutOfBounds"
  by (simp add: new_ProcessPool_def blockSize_eq)

end
