(* ===== verification/Elf_Program.thy ===== *)
theory Elf_Program
  imports Process_Pool
begin

unbundle bit_operations_syntax

text \<open>
  Loading of programs (\<^verbatim>\<open>kernel/elf_program.h\<close>, \<^verbatim>\<open>kernel/elf_program.cpp\<close>, \<^verbatim>\<open>kernel/elf_types.h\<close>): the validation of an ELF file and the
  construction of the image of a process. The file is a list of bytes; the pointer \<^verbatim>\<open>base + x\<close> into it is the offset \<open>x\<close>, and
  every access is checked against its length: an access outside it is the exception \<open>Crash\<close>. The memory is a function from
  addresses to bytes, and an access through \<^verbatim>\<open>image\<close> is checked against the area that the pool of processes returned.
  \<open>validateHeader\<close> and \<open>load\<close> return an exception or a value.
\<close>

section \<open>The file\<close>

definition crash :: "exn + 'a" where "crash = Inl (Crash OutOfBounds)"

abbreviation throw :: "string \<Rightarrow> exn + 'a" where "throw m \<equiv> Inl (RuntimeError m)"

definition le16 :: "u8 \<Rightarrow> u8 \<Rightarrow> u16" where
  "le16 a b = ucast a OR push_bit 8 (ucast b)"

definition le32 :: "u8 \<Rightarrow> u8 \<Rightarrow> u8 \<Rightarrow> u8 \<Rightarrow> u32" where
  "le32 a b c d = ucast a OR push_bit 8 (ucast b) OR push_bit 16 (ucast c) OR push_bit 24 (ucast d)"

definition get16 :: "u8 list \<Rightarrow> nat \<Rightarrow> exn + u16" where
  "get16 f x = (if x + 2 \<le> length f then Inr (le16 (f ! x) (f ! (x + 1))) else crash)"

definition get32 :: "u8 list \<Rightarrow> nat \<Rightarrow> exn + u32" where
  "get32 f x = (if x + 4 \<le> length f then Inr (le32 (f ! x) (f ! (x + 1)) (f ! (x + 2)) (f ! (x + 3))) else crash)"

definition get_bytes :: "u8 list \<Rightarrow> nat \<Rightarrow> nat \<Rightarrow> exn + u8 list" where
  "get_bytes f x n = (if x + n \<le> length f then Inr (take n (drop x f)) else crash)"

text \<open>The structures, with the fields the code uses.\<close>

record Elf32_Ehdr =
  e_ident :: "u8 list"
  e_type :: u16
  e_machine :: u16
  e_version :: u32
  e_entry :: u32
  e_phoff :: u32
  e_flags :: u32
  e_ehsize :: u16
  e_phentsize :: u16
  e_phnum :: u16

record Elf32_Phdr =
  p_type :: u32
  p_offset :: u32
  p_filesz :: u32
  p_memsz :: u32
  p_flags :: u32
  p_align :: u32

definition get_ehdr :: "u8 list \<Rightarrow> exn + Elf32_Ehdr" where
  "get_ehdr f =
     rbind (get_bytes f 0 16) (\<lambda>ident. rbind (get16 f 16) (\<lambda>type. rbind (get16 f 18) (\<lambda>machine.
     rbind (get32 f 20) (\<lambda>version. rbind (get32 f 24) (\<lambda>entry. rbind (get32 f 28) (\<lambda>phoff.
     rbind (get32 f 36) (\<lambda>flags. rbind (get16 f 40) (\<lambda>ehsize. rbind (get16 f 42) (\<lambda>phentsize.
     rbind (get16 f 44) (\<lambda>phnum.
       Inr \<lparr>e_ident = ident, e_type = type, e_machine = machine, e_version = version, e_entry = entry, e_phoff = phoff,
            e_flags = flags, e_ehsize = ehsize, e_phentsize = phentsize, e_phnum = phnum\<rparr>))))))))))"

definition get_phdr :: "u8 list \<Rightarrow> nat \<Rightarrow> exn + Elf32_Phdr" where
  "get_phdr f x =
     rbind (get32 f x) (\<lambda>type. rbind (get32 f (x + 4)) (\<lambda>offset. rbind (get32 f (x + 16)) (\<lambda>filesz.
     rbind (get32 f (x + 20)) (\<lambda>memsz. rbind (get32 f (x + 24)) (\<lambda>flags. rbind (get32 f (x + 28)) (\<lambda>align.
       Inr \<lparr>p_type = type, p_offset = offset, p_filesz = filesz, p_memsz = memsz, p_flags = flags, p_align = align\<rparr>))))))"

definition sizeof_Ehdr :: u32 where "sizeof_Ehdr = 52"
definition sizeof_Phdr :: u32 where "sizeof_Phdr = 32"
definition sizeof_Dyn :: u32 where "sizeof_Dyn = 8"
definition sizeof_Rel :: u32 where "sizeof_Rel = 8"

definition EF_ARM_EABIMASK :: u32 where "EF_ARM_EABIMASK = 0xff000000"
definition EF_ARM_EABI_VER5 :: u32 where "EF_ARM_EABI_VER5 = 0x05000000"
definition EF_ARM_VFP_FLOAT :: u32 where "EF_ARM_VFP_FLOAT = 0x400"
definition PT_LOAD :: u32 where "PT_LOAD = 1"
definition PT_DYNAMIC :: u32 where "PT_DYNAMIC = 2"
definition PF_X :: u32 where "PF_X = 1"
definition PF_W :: u32 where "PF_W = 2"
definition PF_R :: u32 where "PF_R = 4"
definition DT_RELA :: u32 where "DT_RELA = 7"
definition DT_RELASZ :: u32 where "DT_RELASZ = 8"
definition DT_RELAENT :: u32 where "DT_RELAENT = 9"
definition DT_REL :: u32 where "DT_REL = 17"
definition DT_RELSZ :: u32 where "DT_RELSZ = 18"
definition DT_RELENT :: u32 where "DT_RELENT = 19"
definition DT_MX_RAMSIZE :: u32 where "DT_MX_RAMSIZE = 0x10000000"
definition DT_MX_STACKSIZE :: u32 where "DT_MX_STACKSIZE = 0x10000001"
definition DT_MX_ABI :: u32 where "DT_MX_ABI = 0x736f694d"
definition DV_MX_ABI_V1 :: u32 where "DV_MX_ABI_V1 = 0x01007869"
definition R_ARM_NONE :: u8 where "R_ARM_NONE = 0"
definition R_ARM_RELATIVE :: u8 where "R_ARM_RELATIVE = 23"
definition DATA_BASE :: u32 where "DATA_BASE = 0x40000000"
definition MAX_PROCESS_IMAGE_SIZE :: u32 where "MAX_PROCESS_IMAGE_SIZE = 64 * 1024"
definition MIN_PROCESS_STACK_SIZE :: u32 where "MIN_PROCESS_STACK_SIZE = 256"

lemmas elf_sizes = sizeof_Ehdr_def sizeof_Phdr_def sizeof_Dyn_def sizeof_Rel_def

lemmas elf_consts = EF_ARM_EABIMASK_def EF_ARM_EABI_VER5_def EF_ARM_VFP_FLOAT_def PT_LOAD_def PT_DYNAMIC_def PF_X_def PF_W_def PF_R_def
  DT_RELA_def DT_RELASZ_def DT_RELAENT_def DT_REL_def DT_RELSZ_def DT_RELENT_def DT_MX_RAMSIZE_def DT_MX_STACKSIZE_def
  DT_MX_ABI_def DV_MX_ABI_V1_def R_ARM_NONE_def R_ARM_RELATIVE_def DATA_BASE_def MAX_PROCESS_IMAGE_SIZE_def MIN_PROCESS_STACK_SIZE_def

definition isUnaligned4 :: "u32 \<Rightarrow> bool" where "isUnaligned4 x \<longleftrightarrow> x AND 3 \<noteq> 0"
definition isUnaligned8 :: "u32 \<Rightarrow> bool" where "isUnaligned8 x \<longleftrightarrow> x AND 7 \<noteq> 0"

section \<open>Validation of the dynamic segment\<close>

record dyn_state =
  dtRel :: u32
  dtRelsz :: u32
  hasRelocs :: u32
  miosixTagFound :: bool
  ramSize :: u32
  stackSize :: u32

text \<open>One entry; \<open>None\<close> is \<^verbatim>\<open>return false\<close>. The value is read only for the tags that use it.\<close>

definition dyn_entry :: "u8 list \<Rightarrow> nat \<Rightarrow> dyn_state \<Rightarrow> exn + dyn_state option" where
  "dyn_entry f x s =
     rbind (get32 f x) (\<lambda>tag.
     if tag = DT_REL then
       rbind (get32 f (x + 4)) (\<lambda>v. Inr (Some (s\<lparr>hasRelocs := hasRelocs s OR 1, dtRel := v\<rparr>)))
     else if tag = DT_RELSZ then
       rbind (get32 f (x + 4)) (\<lambda>v. Inr (Some (s\<lparr>hasRelocs := hasRelocs s OR 2, dtRelsz := v\<rparr>)))
     else if tag = DT_RELENT then
       rbind (get32 f (x + 4)) (\<lambda>v. if v \<noteq> sizeof_Rel then Inr None else Inr (Some (s\<lparr>hasRelocs := hasRelocs s OR 4\<rparr>)))
     else if tag = DT_MX_ABI then
       rbind (get32 f (x + 4)) (\<lambda>v. if v = DV_MX_ABI_V1 then Inr (Some (s\<lparr>miosixTagFound := True\<rparr>))
         else throw ''Unknown/unsupported DT_MX_ABI'')
     else if tag = DT_MX_RAMSIZE then
       rbind (get32 f (x + 4)) (\<lambda>v. Inr (Some (s\<lparr>ramSize := v\<rparr>)))
     else if tag = DT_MX_STACKSIZE then
       rbind (get32 f (x + 4)) (\<lambda>v. Inr (Some (s\<lparr>stackSize := v\<rparr>)))
     else if tag = DT_RELA \<or> tag = DT_RELASZ \<or> tag = DT_RELAENT then throw ''RELA relocations unsupported''
     else Inr (Some s))"

fun dyn_loop :: "u8 list \<Rightarrow> nat \<Rightarrow> nat \<Rightarrow> dyn_state \<Rightarrow> exn + dyn_state option" where
  "dyn_loop f x 0 s = Inr (Some s)"
| "dyn_loop f x (Suc n) s =
     rbind (dyn_entry f x s) (\<lambda>r. case r of None \<Rightarrow> Inr None | Some s \<Rightarrow> dyn_loop f (x + 8) n s)"

text \<open>The relocation entries: \<open>False\<close> is \<^verbatim>\<open>return false\<close>.\<close>

fun rel_loop :: "u8 list \<Rightarrow> u32 \<Rightarrow> nat \<Rightarrow> nat \<Rightarrow> exn + bool" where
  "rel_loop f dataSegmentSize x 0 = Inr True"
| "rel_loop f dataSegmentSize x (Suc n) =
     rbind (get32 f (x + 4)) (\<lambda>r_info.
     if (ucast r_info :: u8) = R_ARM_NONE then rel_loop f dataSegmentSize (x + 8) n
     else if (ucast r_info :: u8) = R_ARM_RELATIVE then
       rbind (get32 f x) (\<lambda>r_offset.
       if r_offset < DATA_BASE then Inr False
       else if r_offset > DATA_BASE + dataSegmentSize - 4 then Inr False
       else if r_offset AND 3 \<noteq> 0 then Inr False
       else rel_loop f dataSegmentSize (x + 8) n)
     else throw ''Unexpected relocation type'')"

definition validateDynamicSegment :: "u8 list \<Rightarrow> Elf32_Phdr \<Rightarrow> u32 \<Rightarrow> exn + bool" where
  "validateDynamicSegment f dynamic dataSegmentSize =
     rbind (dyn_loop f (unat (p_offset dynamic)) (unat (p_memsz dynamic div sizeof_Dyn))
       \<lparr>dtRel = 0, dtRelsz = 0, hasRelocs = 0, miosixTagFound = False, ramSize = 0, stackSize = 0\<rparr>) (\<lambda>r.
     case r of
       None \<Rightarrow> Inr False
     | Some s \<Rightarrow>
         if \<not> miosixTagFound s then throw ''Not a Miosix executable''
         else if stackSize s < MIN_PROCESS_STACK_SIZE then throw ''Requested stack is too small''
         else if ramSize s > MAX_PROCESS_IMAGE_SIZE then throw ''Requested image size is too large''
         else if stackSize s AND 3 \<noteq> 0 \<or> ramSize s AND 3 \<noteq> 0 \<or> ramSize s < blockSize
              \<or> stackSize s > MAX_PROCESS_IMAGE_SIZE \<or> dataSegmentSize > MAX_PROCESS_IMAGE_SIZE
              \<or> dataSegmentSize + stackSize s > ramSize s then throw ''Invalid stack or RAM size''
         else if hasRelocs s \<noteq> 0 \<and> hasRelocs s \<noteq> 7 then Inr False
         else if hasRelocs s \<noteq> 0 then
           let size = of_nat (length f) in
           if dtRel s \<ge> size then Inr False
           else if dtRelsz s \<ge> size then Inr False
           else if dtRel s + dtRelsz s > size then Inr False
           else if isUnaligned4 (dtRel s) then Inr False
           else rel_loop f dataSegmentSize (unat (dtRel s)) (unat (dtRelsz s div sizeof_Rel))
         else Inr True)"

section \<open>Validation of the header\<close>

record segments =
  codeSegmentPresent :: bool
  dataSegmentPresent :: bool
  dynamicSegmentPresent :: bool
  dataSegmentSize :: u32

text \<open>One program header; \<open>None\<close> is \<^verbatim>\<open>return false\<close>.\<close>

definition alignment_ok :: "Elf32_Phdr \<Rightarrow> exn + bool" where
  "alignment_ok ph =
     (if p_align ph = 1 then Inr True
      else if p_align ph = 4 then Inr (\<not> isUnaligned4 (p_offset ph))
      else if p_align ph = 8 then Inr (\<not> isUnaligned8 (p_offset ph))
      else throw ''Unsupported segment alignment'')"

definition load_code :: "u32 \<Rightarrow> Elf32_Phdr \<Rightarrow> segments \<Rightarrow> segments option" where
  "load_code entry ph s =
     (if p_flags ph AND PF_X \<noteq> 0 then
        if codeSegmentPresent s then None
        else if entry < p_offset ph \<or> entry > p_offset ph + p_filesz ph \<or> p_filesz ph \<noteq> p_memsz ph then None
        else Some (s\<lparr>codeSegmentPresent := True\<rparr>)
      else Some s)"

definition load_data :: "Elf32_Phdr \<Rightarrow> segments \<Rightarrow> exn + segments option" where
  "load_data ph s =
     (if p_flags ph AND PF_W \<noteq> 0 \<and> p_flags ph AND PF_X = 0 then
        if dataSegmentPresent s then Inr None
        else if p_memsz ph < p_filesz ph then Inr None
        else if p_memsz ph \<ge> MAX_PROCESS_IMAGE_SIZE - MIN_PROCESS_STACK_SIZE then throw ''Data segment too big''
        else Inr (Some (s\<lparr>dataSegmentPresent := True, dataSegmentSize := p_memsz ph\<rparr>))
      else Inr (Some s))"

definition validate_segment :: "u8 list \<Rightarrow> u32 \<Rightarrow> Elf32_Phdr \<Rightarrow> segments \<Rightarrow> exn + segments option" where
  "validate_segment f entry ph s =
     (let size = of_nat (length f) in
      if p_offset ph \<ge> size then Inr None
      else if p_filesz ph \<ge> size then Inr None
      else if p_offset ph + p_filesz ph > size then Inr None
      else rbind (alignment_ok ph) (\<lambda>ok.
        if \<not> ok then Inr None
        else if p_type ph = PT_LOAD then
          if p_flags ph AND NOT (PF_R OR PF_W OR PF_X) \<noteq> 0 then Inr None
          else if p_flags ph AND PF_R = 0 then Inr None
          else if p_flags ph AND PF_W \<noteq> 0 \<and> p_flags ph AND PF_X \<noteq> 0 then throw ''File violates W^X''
          else case load_code entry ph s of None \<Rightarrow> Inr None | Some s \<Rightarrow> load_data ph s
        else if p_type ph = PT_DYNAMIC then
          if dynamicSegmentPresent s then Inr None
          else let s = s\<lparr>dynamicSegmentPresent := True\<rparr> in
          if \<not> dataSegmentPresent s then Inr None
          else if p_align ph < 4 then Inr None
          else rbind (validateDynamicSegment f ph (dataSegmentSize s)) (\<lambda>b. Inr (if b then Some s else None))
        else Inr (Some s)))"

fun segment_loop :: "u8 list \<Rightarrow> u32 \<Rightarrow> nat \<Rightarrow> nat \<Rightarrow> segments \<Rightarrow> exn + segments option" where
  "segment_loop f entry x 0 s = Inr (Some s)"
| "segment_loop f entry x (Suc n) s =
     rbind (get_phdr f x) (\<lambda>ph. rbind (validate_segment f entry ph s) (\<lambda>r.
       case r of None \<Rightarrow> Inr None | Some s \<Rightarrow> segment_loop f entry (x + 32) n s))"

definition elf_magic :: "u8 list" where
  "elf_magic = [0x7f, 0x45, 0x4c, 0x46, 1, 1, 1] @ replicate 9 0"

definition validateHeader :: "bool \<Rightarrow> u32 \<Rightarrow> u8 list \<Rightarrow> exn + bool" where
  "validateHeader fpu base f =
     (let size = of_nat (length f) in
      if isUnaligned8 base then throw ''Elf file load address alignment error''
      else if size < sizeof_Ehdr then Inr False
      else rbind (get_ehdr f) (\<lambda>eh.
        if e_ident eh \<noteq> elf_magic then throw ''Unrecognized format''
        else if e_type eh \<noteq> 2 then throw ''Not an executable''
        else if e_machine eh \<noteq> 0x28 then throw ''Wrong CPU arch''
        else if e_version eh \<noteq> 1 then Inr False
        else if e_entry eh \<ge> size then Inr False
        else if e_phoff eh \<ge> size - sizeof_Phdr then Inr False
        else if isUnaligned4 (e_phoff eh) then Inr False
        else if e_flags eh AND EF_ARM_EABIMASK \<noteq> EF_ARM_EABI_VER5 then Inr False
        else if \<not> fpu \<and> e_flags eh AND EF_ARM_VFP_FLOAT \<noteq> 0 then throw ''FPU required''
        else if e_ehsize eh \<noteq> ucast sizeof_Ehdr then Inr False
        else if e_phentsize eh \<noteq> ucast sizeof_Phdr then Inr False
        else if e_phnum eh > 20 then throw ''Too many segments''
        else if e_phoff eh + ucast (e_phnum eh) * sizeof_Phdr > size then Inr False
        else rbind (segment_loop f (e_entry eh) (unat (e_phoff eh)) (unat (e_phnum eh))
               \<lparr>codeSegmentPresent = False, dataSegmentPresent = False, dynamicSegmentPresent = False, dataSegmentSize = 0\<rparr>) (\<lambda>r.
          case r of None \<Rightarrow> Inr False | Some s \<Rightarrow> Inr (codeSegmentPresent s))))"

definition new_ElfProgram :: "bool \<Rightarrow> u32 \<Rightarrow> u8 list \<Rightarrow> exn + (u32 \<times> u8 list)" where
  "new_ElfProgram fpu base f =
     rbind (validateHeader fpu base f) (\<lambda>ok. if \<not> ok then throw ''Bad file'' else Inr (base, f))"

section \<open>The image of a process\<close>

definition put_bytes :: "u32 \<Rightarrow> u32 \<Rightarrow> nat \<Rightarrow> u8 list \<Rightarrow> (u32 \<Rightarrow> u8) \<Rightarrow> exn + (u32 \<Rightarrow> u8)" where
  "put_bytes a sz off bs ram =
     (if off + length bs \<le> unat sz
      then Inr (\<lambda>y. let d = unat (y - a) in if off \<le> d \<and> d < off + length bs then bs ! (d - off) else ram y)
      else crash)"

definition mem_get32 :: "u32 \<Rightarrow> u32 \<Rightarrow> nat \<Rightarrow> (u32 \<Rightarrow> u8) \<Rightarrow> exn + u32" where
  "mem_get32 a sz off ram =
     (if off + 4 \<le> unat sz
      then let y = a + of_nat off in Inr (le32 (ram y) (ram (y + 1)) (ram (y + 2)) (ram (y + 3)))
      else crash)"

definition bytes32 :: "u32 \<Rightarrow> u8 list" where
  "bytes32 v = [ucast v, ucast (drop_bit 8 v), ucast (drop_bit 16 v), ucast (drop_bit 24 v)]"

record process_loader =
  dataSegment :: "Elf32_Phdr option"
  ld_dtRel :: u32
  ld_dtRelsz :: u32
  ld_hasRelocs :: bool
  ld_image :: "u32 option"
  ld_size :: u32
  ld_pool :: process_pool

definition load_dyn_entry :: "u8 list \<Rightarrow> nat \<Rightarrow> process_loader \<Rightarrow> (exn + process_loader) option" where
  "load_dyn_entry f x l =
     obind (Some (get32 f x)) (\<lambda>tag.
     if tag = DT_REL then
       obind (Some (get32 f (x + 4))) (\<lambda>v. Some (Inr (l\<lparr>ld_hasRelocs := True, ld_dtRel := v\<rparr>)))
     else if tag = DT_RELSZ then
       obind (Some (get32 f (x + 4))) (\<lambda>v. Some (Inr (l\<lparr>ld_hasRelocs := True, ld_dtRelsz := v\<rparr>)))
     else if tag = DT_MX_RAMSIZE then
       obind (Some (get32 f (x + 4))) (\<lambda>v. obind (allocate v (ld_pool l)) (\<lambda>(p, a).
         Some (Inr (l\<lparr>ld_size := v, ld_image := Some a, ld_pool := p\<rparr>))))
     else Some (Inr l))"

fun load_dyn_loop :: "u8 list \<Rightarrow> nat \<Rightarrow> nat \<Rightarrow> process_loader \<Rightarrow> (exn + process_loader) option" where
  "load_dyn_loop f x 0 l = Some (Inr l)"
| "load_dyn_loop f x (Suc n) l = obind (load_dyn_entry f x l) (load_dyn_loop f (x + 8) n)"

definition load_segment :: "u8 list \<Rightarrow> Elf32_Phdr \<Rightarrow> process_loader \<Rightarrow> (exn + process_loader) option" where
  "load_segment f ph l =
     (if p_type ph = PT_LOAD then
        Some (Inr (if p_flags ph AND PF_W \<noteq> 0 \<and> p_flags ph AND PF_X = 0 then l\<lparr>dataSegment := Some ph\<rparr> else l))
      else if p_type ph = PT_DYNAMIC then
        load_dyn_loop f (unat (p_offset ph)) (unat (p_memsz ph div sizeof_Dyn)) l
      else Some (Inr l))"

fun load_segment_loop :: "u8 list \<Rightarrow> nat \<Rightarrow> nat \<Rightarrow> process_loader \<Rightarrow> (exn + process_loader) option" where
  "load_segment_loop f x 0 l = Some (Inr l)"
| "load_segment_loop f x (Suc n) l =
     obind (Some (get_phdr f x)) (\<lambda>ph. obind (load_segment f ph l) (load_segment_loop f (x + 32) n))"

definition relocated :: "u32 \<Rightarrow> u32 \<Rightarrow> u32 \<Rightarrow> u32" where
  "relocated base ramBase v = (if v \<ge> DATA_BASE then v + (ramBase - DATA_BASE) else v + base)"

fun reloc_loop :: "u8 list \<Rightarrow> u32 \<Rightarrow> u32 \<Rightarrow> u32 \<Rightarrow> nat \<Rightarrow> nat \<Rightarrow> (u32 \<Rightarrow> u8) \<Rightarrow> exn + (u32 \<Rightarrow> u8)" where
  "reloc_loop f base a sz x 0 ram = Inr ram"
| "reloc_loop f base a sz x (Suc n) ram =
     rbind (get32 f x) (\<lambda>r_offset. rbind (get32 f (x + 4)) (\<lambda>r_info.
     let offset = unat ((r_offset - DATA_BASE) div 4) in
     rbind (if (ucast r_info :: u8) = R_ARM_RELATIVE
            then rbind (mem_get32 a sz (4 * offset) ram) (\<lambda>v. put_bytes a sz (4 * offset) (bytes32 (relocated base a v)) ram)
            else Inr ram) (\<lambda>ram.
     reloc_loop f base a sz (x + 8) n ram)))"

definition copy_data :: "u8 list \<Rightarrow> u32 \<Rightarrow> u32 \<Rightarrow> Elf32_Phdr \<Rightarrow> (u32 \<Rightarrow> u8) \<Rightarrow> exn + (u32 \<Rightarrow> u8)" where
  "copy_data f a sz ds ram =
     rbind (get_bytes f (unat (p_offset ds)) (unat (p_filesz ds))) (\<lambda>bs.
     rbind (put_bytes a sz 0 bs ram) (\<lambda>ram.
     put_bytes a sz (unat (p_filesz ds)) (replicate (unat (p_memsz ds - p_filesz ds)) 0) ram))"

definition load :: "u32 \<Rightarrow> u8 list \<Rightarrow> u32 option \<Rightarrow> u32 \<Rightarrow> process_pool \<Rightarrow> (u32 \<Rightarrow> u8) \<Rightarrow>
    (exn + (u32 option \<times> u32 \<times> process_pool \<times> (u32 \<Rightarrow> u8))) option" where
  "load base f image0 size0 pool ram =
     obind (Some (case image0 of None \<Rightarrow> Inr pool | Some a \<Rightarrow> deallocate a pool)) (\<lambda>pool.
     obind (Some (get_ehdr f)) (\<lambda>eh.
     obind (load_segment_loop f (unat (e_phoff eh)) (unat (e_phnum eh))
       \<lparr>dataSegment = None, ld_dtRel = 0, ld_dtRelsz = 0, ld_hasRelocs = False, ld_image = image0, ld_size = size0, ld_pool = pool\<rparr>) (\<lambda>l.
     case dataSegment l of
       None \<Rightarrow> Some (Inl (Crash NullDeref))
     | Some ds \<Rightarrow>
       (case ld_image l of
          None \<Rightarrow> Some (Inl (Crash NullDeref))
        | Some a \<Rightarrow>
            obind (Some (copy_data f a (ld_size l) ds ram)) (\<lambda>ram.
            obind (Some (if ld_hasRelocs l
              then reloc_loop f base a (ld_size l) (unat (ld_dtRel l)) (unat (ld_dtRelsz l div sizeof_Rel)) ram
              else Inr ram)) (\<lambda>ram.
            Some (Inr (Some a, ld_size l, ld_pool l, ram))))))))"

definition destroy_ProcessImage :: "u32 option \<Rightarrow> process_pool \<Rightarrow> exn + process_pool" where
  "destroy_ProcessImage img p = (case img of None \<Rightarrow> Inr p | Some a \<Rightarrow> deallocate a p)"

section \<open>Validation reads the file only\<close>

definition no_crash :: "exn + 'a \<Rightarrow> bool" where
  "no_crash r \<longleftrightarrow> (\<forall>e. r = Inl e \<longrightarrow> (\<exists>m. e = RuntimeError m))"

lemma no_crash_simps [simp]: "no_crash (Inr x)" "no_crash (throw m)"
  by (simp_all add: no_crash_def)

lemma no_crash_rbind [intro]: "no_crash m \<Longrightarrow> (\<And>x. m = Inr x \<Longrightarrow> no_crash (g x)) \<Longrightarrow> no_crash (rbind m g)"
  by (cases m) (auto simp: no_crash_def)

lemma get_ok:
  "x + 2 \<le> length f \<Longrightarrow> \<exists>v. get16 f x = Inr v"
  "x + 4 \<le> length f \<Longrightarrow> \<exists>v. get32 f x = Inr v"
  by (simp_all add: get16_def get32_def)

lemma get32_no_crash: "x + 4 \<le> length f \<Longrightarrow> no_crash (get32 f x)"
  by (simp add: get32_def)

lemma get_phdr_ok: "x + 32 \<le> length f \<Longrightarrow> \<exists>ph. get_phdr f x = Inr ph"
  by (simp add: get_phdr_def get32_def)

lemma get_ehdr_ok: "52 \<le> length f \<Longrightarrow> \<exists>eh. get_ehdr f = Inr eh"
  by (simp add: get_ehdr_def get32_def get16_def get_bytes_def)

lemma dyn_entry_no_crash:
  assumes "x + 8 \<le> length f"
  shows "no_crash (dyn_entry f x s)"
proof -
  obtain t v where "get32 f x = Inr t" "get32 f (x + 4) = Inr v" using get_ok(2) [of x f] get_ok(2) [of "x + 4" f] assms by auto
  then show ?thesis by (simp add: dyn_entry_def)
qed

lemma dyn_loop_no_crash: "x + 8 * n \<le> length f \<Longrightarrow> no_crash (dyn_loop f x n s)"
proof (induction n arbitrary: x s)
  case (Suc n)
  have "no_crash (dyn_loop f (x + 8) n s')" for s' using Suc by simp
  then show ?case using dyn_entry_no_crash [of x f s] Suc.prems by (auto split: option.split)
qed simp

lemma rel_loop_no_crash: "x + 8 * n \<le> length f \<Longrightarrow> no_crash (rel_loop f d x n)"
proof (induction n arbitrary: x)
  case (Suc n)
  obtain t v where "get32 f x = Inr t" "get32 f (x + 4) = Inr v"
    using get_ok(2) [of x f] get_ok(2) [of "x + 4" f] Suc.prems by auto
  moreover have "no_crash (rel_loop f d (x + 8) n)" using Suc by simp
  ultimately show ?case by simp
qed simp

text \<open>The three comparisons against the size of the file, which exclude a wrap around.\<close>

lemma range_check:
  assumes "length f < 2 ^ 31" "\<not> (of_nat (length f) :: u32) \<le> a" "\<not> of_nat (length f) \<le> b" "\<not> of_nat (length f) < a + b"
  shows "unat a + unat b \<le> length f"
proof -
  have l: "unat (of_nat (length f) :: u32) = length f" using assms(1) by (simp add: unat_of_nat)
  have "unat a < length f" "unat b < length f" "unat (a + b) \<le> length f" using assms(2,3,4) unfolding not_le not_less word_less_nat_alt word_le_nat_alt l by simp_all
  moreover from this have "unat (a + b) = unat a + unat b" using assms(1) by (simp add: unat_word_ariths)
  ultimately show ?thesis by simp
qed

lemma entries_in_bytes: "unat (a :: u32) + unat (b :: u32) \<le> n \<Longrightarrow> unat a + 8 * unat (b div 8) \<le> n"
proof -
  assume "unat a + unat b \<le> n"
  moreover have "8 * (unat b div 8) \<le> unat b" by simp
  ultimately show ?thesis by (simp add: unat_div_distrib)
qed

lemma validateDynamicSegment_no_crash:
  assumes "length f < 2 ^ 31" "unat (p_offset ph) + unat (p_memsz ph) \<le> length f"
  shows "no_crash (validateDynamicSegment f ph d)"
proof -
  have "no_crash (rel_loop f d (unat (dtRel s)) (unat (dtRelsz s div sizeof_Rel)))"
    if "\<not> of_nat (length f) \<le> dtRel s" "\<not> of_nat (length f) \<le> dtRelsz s" "\<not> of_nat (length f) < dtRel s + dtRelsz s" for s
    using entries_in_bytes [OF range_check [OF assms(1) that]] unfolding sizeof_Rel_def by (rule rel_loop_no_crash)
  then show ?thesis
    using dyn_loop_no_crash [OF entries_in_bytes [OF assms(2)]]
    unfolding validateDynamicSegment_def sizeof_Dyn_def
    by (intro no_crash_rbind) (auto simp: Let_def split: option.split)
qed

lemma alignment_ok_no_crash: "no_crash (alignment_ok ph)"
  by (simp add: alignment_ok_def)

lemma load_data_no_crash: "no_crash (load_data ph s)"
  by (simp add: load_data_def)

lemma validate_segment_no_crash:
  assumes "length f < 2 ^ 31" "p_type ph = PT_DYNAMIC \<Longrightarrow> unat (p_offset ph) + unat (p_memsz ph) \<le> length f"
  shows "no_crash (validate_segment f entry ph s)"
proof -
  have d: "p_type ph = PT_DYNAMIC \<Longrightarrow> no_crash (rbind (validateDynamicSegment f ph n) (\<lambda>b. Inr (if b then Some t else None)))"
    for n and t :: segments
    using validateDynamicSegment_no_crash [OF assms] by (intro no_crash_rbind) simp_all
  have "no_crash (if \<not> ok then Inr None
        else if p_type ph = PT_LOAD then
          if p_flags ph AND NOT (PF_R OR PF_W OR PF_X) \<noteq> 0 then Inr None
          else if p_flags ph AND PF_R = 0 then Inr None
          else if p_flags ph AND PF_W \<noteq> 0 \<and> p_flags ph AND PF_X \<noteq> 0 then throw ''File violates W^X''
          else case load_code entry ph s of None \<Rightarrow> Inr None | Some s \<Rightarrow> load_data ph s
        else if p_type ph = PT_DYNAMIC then
          if dynamicSegmentPresent s then Inr None
          else let s = s\<lparr>dynamicSegmentPresent := True\<rparr> in
          if \<not> dataSegmentPresent s then Inr None
          else if p_align ph < 4 then Inr None
          else rbind (validateDynamicSegment f ph (dataSegmentSize s)) (\<lambda>b. Inr (if b then Some s else None))
        else Inr (Some s))" for ok
    unfolding Let_def using d by (auto simp: load_data_no_crash split: option.split)
  then show ?thesis unfolding validate_segment_def Let_def using alignment_ok_no_crash by (simp add: no_crash_rbind)
qed

text \<open>What the validation does not check: that the entries of the dynamic segments are in the file.\<close>

definition dynamic_inside :: "u8 list \<Rightarrow> bool" where
  "dynamic_inside f \<longleftrightarrow> (\<forall>eh. get_ehdr f = Inr eh \<longrightarrow> (\<forall>i<unat (e_phnum eh). \<forall>ph.
     get_phdr f (unat (e_phoff eh) + 32 * i) = Inr ph \<longrightarrow> p_type ph = PT_DYNAMIC \<longrightarrow>
       unat (p_offset ph) + unat (p_memsz ph) \<le> length f))"

lemma segment_loop_no_crash:
  assumes "length f < 2 ^ 31" "x + 32 * n \<le> length f"
    "\<And>i ph. i < n \<Longrightarrow> get_phdr f (x + 32 * i) = Inr ph \<Longrightarrow> p_type ph = PT_DYNAMIC \<Longrightarrow>
       unat (p_offset ph) + unat (p_memsz ph) \<le> length f"
  shows "no_crash (segment_loop f entry x n s)"
  using assms(2,3)
proof (induction n arbitrary: x s)
  case (Suc n)
  obtain ph where ph: "get_phdr f x = Inr ph" using get_phdr_ok [of x f] Suc.prems(1) by auto
  have v: "no_crash (validate_segment f entry ph s)"
    using Suc.prems(2) [of 0 ph] ph by (intro validate_segment_no_crash [OF assms(1)]) simp
  have "no_crash (segment_loop f entry (x + 32) n t)" for t
  proof (rule Suc.IH)
    show "unat (p_offset ph) + unat (p_memsz ph) \<le> length f"
      if "i < n" "get_phdr f (x + 32 + 32 * i) = Inr ph" "p_type ph = PT_DYNAMIC" for i ph
      using Suc.prems(2) [of "Suc i" ph] that by (simp add: algebra_simps)
  qed (use Suc.prems(1) in simp)
  with v show ?case unfolding segment_loop.simps ph rbind.simps by (intro no_crash_rbind) (auto split: option.split)
qed simp

lemma header_table_inside:
  assumes "length f < 2 ^ 31" "\<not> (of_nat (length f) :: u32) < 52" "\<not> of_nat (length f) - 32 \<le> phoff" "\<not> (20 :: u16) < phnum"
    "\<not> of_nat (length f) < (phoff :: u32) + ucast phnum * 32"
  shows "52 \<le> length f" "unat phoff + 32 * unat phnum \<le> length f"
proof -
  have l: "unat (of_nat (length f) :: u32) = length f" using assms(1) by (simp add: unat_of_nat)
  show f: "52 \<le> length f" using assms(2) unfolding not_less word_le_nat_alt l by simp
  then have "(32 :: u32) \<le> of_nat (length f)" unfolding word_le_nat_alt l by simp
  then have "unat ((of_nat (length f) :: u32) - 32) = length f - 32" by (simp add: unat_sub l)
  with assms(3) have p: "unat phoff < length f - 32" unfolding not_le word_less_nat_alt by simp
  have n: "unat phnum \<le> 20" using assms(4) unfolding not_less word_le_nat_alt by simp
  then have "unat (ucast phnum :: u32) = unat phnum" by (simp add: unsigned_ucast_eq take_bit_nat_eq_self_iff)
  with n have "unat (ucast phnum * (32 :: u32)) = 32 * unat phnum" by (simp add: unat_word_ariths)
  then have "unat (phoff + ucast phnum * 32) = unat phoff + 32 * unat phnum" using p n assms(1) by (simp add: unat_word_ariths)
  with assms(5) show "unat phoff + 32 * unat phnum \<le> length f" unfolding not_less word_le_nat_alt l by simp
qed

lemma validateHeader_no_crash:
  assumes "length f < 2 ^ 31" "dynamic_inside f"
  shows "no_crash (validateHeader fpu base f)"
proof (cases "(of_nat (length f) :: u32) < 52")
  case False
  then have "52 \<le> length f" using assms(1) by (simp add: word_less_nat_alt unat_of_nat)
  then obtain eh where eh: "get_ehdr f = Inr eh" using get_ehdr_ok by blast
  have "no_crash (segment_loop f (e_entry eh) (unat (e_phoff eh)) (unat (e_phnum eh)) s)"
    if "\<not> of_nat (length f) - 32 \<le> e_phoff eh" "\<not> 20 < e_phnum eh" "\<not> of_nat (length f) < e_phoff eh + ucast (e_phnum eh) * 32" for s
    using header_table_inside(2) [OF assms(1) False that] assms(2) eh
    by (intro segment_loop_no_crash [OF assms(1)]) (simp_all add: dynamic_inside_def)
  then show ?thesis unfolding validateHeader_def Let_def elf_sizes eh rbind.simps
    by (auto intro!: no_crash_rbind split: option.split)
qed (simp add: validateHeader_def elf_sizes Let_def)

section \<open>What loading finds in a validated file\<close>

text \<open>
  The sizes of the memory that a file asks for: the values of the entries \<^verbatim>\<open>DT_MX_RAMSIZE\<close> of its dynamic segments. The validation
  does not refuse a second entry; \<open>load\<close> then allocates once more.
\<close>

fun ram_sizes :: "u8 list \<Rightarrow> nat \<Rightarrow> nat \<Rightarrow> u32 list" where
  "ram_sizes f x 0 = []"
| "ram_sizes f x (Suc n) =
     (case (get32 f x, get32 f (x + 4)) of (Inr tag, Inr v) \<Rightarrow> if tag = DT_MX_RAMSIZE then [v] else [] | _ \<Rightarrow> []) @ ram_sizes f (x + 8) n"

fun segment_sizes :: "u8 list \<Rightarrow> nat \<Rightarrow> nat \<Rightarrow> u32 list" where
  "segment_sizes f x 0 = []"
| "segment_sizes f x (Suc n) =
     (case get_phdr f x of
        Inl _ \<Rightarrow> []
      | Inr ph \<Rightarrow> if p_type ph = PT_DYNAMIC then ram_sizes f (unat (p_offset ph)) (unat (p_memsz ph div sizeof_Dyn)) else [])
     @ segment_sizes f (x + 32) n"

definition image_sizes :: "u8 list \<Rightarrow> u32 list" where
  "image_sizes f = (case get_ehdr f of Inl _ \<Rightarrow> [] | Inr eh \<Rightarrow> segment_sizes f (unat (e_phoff eh)) (unat (e_phnum eh)))"

text \<open>What the pool makes of these requests, one after the other.\<close>

fun allocate_all :: "u32 list \<Rightarrow> process_pool \<Rightarrow> (exn + process_pool) option" where
  "allocate_all [] p = Some (Inr p)"
| "allocate_all (n # ns) p = obind (allocate n p) (\<lambda>(p, _). allocate_all ns p)"

lemma allocate_all_append: "allocate_all (ms @ ns) p = obind (allocate_all ms p) (allocate_all ns)"
proof (induction ms arbitrary: p)
  case (Cons m ms)
  show ?case
  proof (cases "allocate m p")
    case (Some r)
    then show ?thesis using Cons by (cases r) auto
  qed simp
qed simp

text \<open>The loader agrees with the validation on the dynamic entries read so far.\<close>

definition image_allocated :: "u32 \<Rightarrow> process_loader \<Rightarrow> bool" where
  "image_allocated n l \<longleftrightarrow> (case ld_image l of None \<Rightarrow> n = 0
     | Some a \<Rightarrow> ld_size l = n \<and> allocatedBlocks (ld_pool l) a = Some n)"

lemma image_allocated_simps [simp]:
  "image_allocated n (l\<lparr>ld_hasRelocs := b\<rparr>) = image_allocated n l"
  "image_allocated n (l\<lparr>ld_dtRel := v\<rparr>) = image_allocated n l"
  "image_allocated n (l\<lparr>ld_dtRelsz := v\<rparr>) = image_allocated n l"
  by (simp_all add: image_allocated_def split: option.split)

definition dyn_rel :: "dyn_state \<Rightarrow> process_loader \<Rightarrow> bool" where
  "dyn_rel s l \<longleftrightarrow> ld_dtRel l = dtRel s \<and> ld_dtRelsz l = dtRelsz s \<and> ld_hasRelocs l = (hasRelocs s AND 3 \<noteq> 0) \<and> pool_inv (ld_pool l)
     \<and> image_allocated (ramSize s) l"

lemma hasRelocs_bits:
  "((h :: u32) OR 1) AND 3 \<noteq> 0" "(h OR 2) AND 3 \<noteq> 0" "(h OR 4) AND 3 = h AND 3"
  by (simp_all add: bit.conj_disj_distrib2 or_eq_0_iff)

lemma dyn_entry_rel:
  assumes "dyn_entry f x s = Inr (Some s')" "dyn_rel s l"
  shows "(\<exists>e. load_dyn_entry f x l = Some (Inl e) \<and> allocate_all (ram_sizes f x 1) (ld_pool l) = Some (Inl e))
     \<or> (\<exists>l'. load_dyn_entry f x l = Some (Inr l') \<and> dyn_rel s' l' \<and> dataSegment l' = dataSegment l
          \<and> allocate_all (ram_sizes f x 1) (ld_pool l) = Some (Inr (ld_pool l')))"
proof -
  obtain tag where tag: "get32 f x = Inr tag" using assms(1) by (cases "get32 f x") (auto simp: dyn_entry_def)
  have inv: "pool_inv (ld_pool l)" using assms(2) by (simp add: dyn_rel_def)
  show ?thesis
  proof (cases "tag = DT_MX_RAMSIZE")
    case True
    then obtain v where v: "get32 f (x + 4) = Inr v" "s' = s\<lparr>ramSize := v\<rparr>"
      using assms(1) tag by (cases "get32 f (x + 4)") (auto simp: dyn_entry_def elf_consts)
    obtain r where r: "allocate v (ld_pool l) = Some r" using allocate_returns [OF inv] by blast
    have le: "load_dyn_entry f x l = obind (Some r) (\<lambda>(p, a). Some (Inr (l\<lparr>ld_size := v, ld_image := Some a, ld_pool := p\<rparr>)))"
      using True by (simp add: load_dyn_entry_def tag v(1) r elf_consts)
    have al: "allocate_all (ram_sizes f x 1) (ld_pool l) = obind (Some r) (\<lambda>(p, _). Some (Inr p))"
      using True by (simp add: tag v(1) r)
    show ?thesis
    proof (cases r)
      case (Inl e)
      with le al show ?thesis by simp
    next
      case (Inr pa)
      obtain q a where pa: "pa = (q, a)" by force
      note ok = allocate_ok [OF inv r [unfolded Inr pa]]
      from assms(2) ok(1,4) have "dyn_rel s' (l\<lparr>ld_size := v, ld_image := Some a, ld_pool := q\<rparr>)" by (simp add: dyn_rel_def image_allocated_def v(2))
      with le al show ?thesis by (simp add: Inr pa)
    qed
  next
    case False
    then have "ram_sizes f x 1 = []" using tag by (simp split: sum.split)
    then show ?thesis
      using False assms tag by (auto simp: dyn_entry_def load_dyn_entry_def dyn_rel_def hasRelocs_bits rbind_Inr_iff split: if_splits)
  qed
qed

lemma dyn_loop_rel:
  "dyn_loop f x n s = Inr (Some s') \<Longrightarrow> dyn_rel s l \<Longrightarrow>
     (\<exists>e. load_dyn_loop f x n l = Some (Inl e) \<and> allocate_all (ram_sizes f x n) (ld_pool l) = Some (Inl e))
   \<or> (\<exists>l'. load_dyn_loop f x n l = Some (Inr l') \<and> dyn_rel s' l' \<and> dataSegment l' = dataSegment l
        \<and> allocate_all (ram_sizes f x n) (ld_pool l) = Some (Inr (ld_pool l')))"
proof (induction n arbitrary: x s l)
  case (Suc n)
  have sz: "ram_sizes f x (Suc n) = ram_sizes f x 1 @ ram_sizes f (x + 8) n" by simp
  from Suc.prems(1) obtain s1 where s1: "dyn_entry f x s = Inr (Some s1)" "dyn_loop f (x + 8) n s1 = Inr (Some s')"
    by (auto simp: rbind_Inr_iff split: option.splits)
  from dyn_entry_rel [OF s1(1) Suc.prems(2)] show ?case
  proof (elim disjE exE conjE)
    fix e assume "load_dyn_entry f x l = Some (Inl e)" "allocate_all (ram_sizes f x 1) (ld_pool l) = Some (Inl e)"
    then show ?case unfolding sz allocate_all_append by simp
  next
    fix l1 assume l1: "load_dyn_entry f x l = Some (Inr l1)" "dyn_rel s1 l1" "dataSegment l1 = dataSegment l"
      "allocate_all (ram_sizes f x 1) (ld_pool l) = Some (Inr (ld_pool l1))"
    from Suc.IH [OF s1(2) l1(2)] l1 show ?case unfolding sz allocate_all_append by simp
  qed
qed simp

definition dyn_loaded :: "u8 list \<Rightarrow> u32 \<Rightarrow> process_loader \<Rightarrow> bool" where
  "dyn_loaded f d l \<longleftrightarrow> unat d \<le> 0x10000 \<and> unat d \<le> unat (ld_size l)
     \<and> (\<exists>a. ld_image l = Some a \<and> allocatedBlocks (ld_pool l) a = Some (ld_size l))
     \<and> (ld_hasRelocs l \<longrightarrow> rel_loop f d (unat (ld_dtRel l)) (unat (ld_dtRelsz l div sizeof_Rel)) = Inr True)"

lemma validated_dynamic:
  assumes v: "validateDynamicSegment f ph d = Inr True"
    and l: "pool_inv (ld_pool l)" "ld_image l = None" "\<not> ld_hasRelocs l" "ld_dtRel l = 0" "ld_dtRelsz l = 0"
  defines "sizes \<equiv> ram_sizes f (unat (p_offset ph)) (unat (p_memsz ph div sizeof_Dyn))"
  shows "(\<exists>e. load_dyn_loop f (unat (p_offset ph)) (unat (p_memsz ph div sizeof_Dyn)) l = Some (Inl e)
          \<and> allocate_all sizes (ld_pool l) = Some (Inl e))
     \<or> (\<exists>l'. load_dyn_loop f (unat (p_offset ph)) (unat (p_memsz ph div sizeof_Dyn)) l = Some (Inr l')
          \<and> dyn_loaded f d l' \<and> pool_inv (ld_pool l') \<and> dataSegment l' = dataSegment l
          \<and> allocate_all sizes (ld_pool l) = Some (Inr (ld_pool l')))"
proof -
  let ?s0 = "\<lparr>dtRel = 0, dtRelsz = 0, hasRelocs = 0, miosixTagFound = False, ramSize = 0, stackSize = 0\<rparr>"
  from v obtain s where s: "dyn_loop f (unat (p_offset ph)) (unat (p_memsz ph div sizeof_Dyn)) ?s0 = Inr (Some s)"
    by (auto simp: validateDynamicSegment_def rbind_Inr_iff split: option.splits)
  note v' = v [unfolded validateDynamicSegment_def s rbind.simps option.case Let_def]
  have sz: "\<not> MAX_PROCESS_IMAGE_SIZE < d" "\<not> MAX_PROCESS_IMAGE_SIZE < stackSize s" "\<not> ramSize s < d + stackSize s" "\<not> ramSize s < blockSize"
    using v' by (auto split: if_splits)
  have rl: "hasRelocs s = 0 \<or> hasRelocs s = 7 \<and> rel_loop f d (unat (dtRel s)) (unat (dtRelsz s div sizeof_Rel)) = Inr True"
    using v' by (auto split: if_splits)
  have "unat d \<le> 0x10000" "unat (stackSize s) \<le> 0x10000" using sz(1,2) by (simp_all add: MAX_PROCESS_IMAGE_SIZE_def word_le_nat_alt not_less)
  moreover from this have "unat (d + stackSize s) = unat d + unat (stackSize s)" by (simp add: unat_word_ariths)
  ultimately have d: "unat d \<le> 0x10000" "unat d \<le> unat (ramSize s)" using sz(3) by (simp_all add: word_le_nat_alt not_less)
  have nz: "ramSize s \<noteq> 0" using sz(4) by (auto simp: blockSize_eq)
  have "dyn_rel ?s0 l" using l by (simp add: dyn_rel_def image_allocated_def)
  from dyn_loop_rel [OF s this, folded sizes_def] show ?thesis
  proof (elim disjE exE conjE)
    fix l' assume l': "load_dyn_loop f (unat (p_offset ph)) (unat (p_memsz ph div sizeof_Dyn)) l = Some (Inr l')" "dyn_rel s l'"
      "dataSegment l' = dataSegment l" "allocate_all sizes (ld_pool l) = Some (Inr (ld_pool l'))"
    have "dyn_loaded f d l'" using l'(2) d nz rl by (auto simp: dyn_rel_def dyn_loaded_def image_allocated_def split: option.splits)
    moreover have "pool_inv (ld_pool l')" using l'(2) by (simp add: dyn_rel_def)
    ultimately show ?thesis using l'(1,3,4) by blast
  qed blast
qed

text \<open>The same for the program headers.\<close>

definition data_found :: "u8 list \<Rightarrow> segments \<Rightarrow> Elf32_Phdr option \<Rightarrow> bool" where
  "data_found f s d \<longleftrightarrow> (case d of None \<Rightarrow> \<not> dataSegmentPresent s
     | Some ds \<Rightarrow> dataSegmentPresent s \<and> p_memsz ds = dataSegmentSize s \<and> p_filesz ds \<le> p_memsz ds
         \<and> unat (p_offset ds) + unat (p_filesz ds) \<le> length f)"

definition seg_rel :: "u8 list \<Rightarrow> segments \<Rightarrow> process_loader \<Rightarrow> bool" where
  "seg_rel f s l \<longleftrightarrow> data_found f s (dataSegment l) \<and> pool_inv (ld_pool l)
     \<and> (if dynamicSegmentPresent s then dataSegmentPresent s \<and> dyn_loaded f (dataSegmentSize s) l
        else ld_image l = None \<and> \<not> ld_hasRelocs l \<and> ld_dtRel l = 0 \<and> ld_dtRelsz l = 0)"

lemma validate_segmentD:
  assumes "validate_segment f entry ph s = Inr (Some s')"
  shows "\<not> of_nat (length f) \<le> p_offset ph" "\<not> of_nat (length f) \<le> p_filesz ph" "\<not> of_nat (length f) < p_offset ph + p_filesz ph"
    "p_type ph = PT_LOAD \<Longrightarrow> \<exists>s1. load_code entry ph s = Some s1 \<and> load_data ph s1 = Inr (Some s')"
    "p_type ph = PT_DYNAMIC \<Longrightarrow> \<not> dynamicSegmentPresent s \<and> dataSegmentPresent s
       \<and> validateDynamicSegment f ph (dataSegmentSize s) = Inr True \<and> s' = s\<lparr>dynamicSegmentPresent := True\<rparr>"
    "p_type ph \<noteq> PT_LOAD \<Longrightarrow> p_type ph \<noteq> PT_DYNAMIC \<Longrightarrow> s' = s"
  using assms
  by (auto simp: validate_segment_def Let_def rbind_Inr_iff PT_LOAD_def PT_DYNAMIC_def split: if_splits option.splits)

lemma load_codeD: "load_code entry ph s = Some s1 \<Longrightarrow> s1 = s\<lparr>codeSegmentPresent := codeSegmentPresent s1\<rparr>"
  by (auto simp: load_code_def split: if_splits)

lemma validate_segment_rel:
  assumes "length f < 2 ^ 31" and v: "validate_segment f entry ph s = Inr (Some s')" and r: "seg_rel f s l"
  defines "sizes \<equiv> if p_type ph = PT_DYNAMIC then ram_sizes f (unat (p_offset ph)) (unat (p_memsz ph div sizeof_Dyn)) else []"
  shows "(\<exists>e. load_segment f ph l = Some (Inl e) \<and> allocate_all sizes (ld_pool l) = Some (Inl e))
     \<or> (\<exists>l'. load_segment f ph l = Some (Inr l') \<and> seg_rel f s' l' \<and> allocate_all sizes (ld_pool l) = Some (Inr (ld_pool l')))"
proof -
  note d = validate_segmentD [OF v]
  consider "p_type ph = PT_LOAD" | "p_type ph = PT_DYNAMIC" | "p_type ph \<noteq> PT_LOAD" "p_type ph \<noteq> PT_DYNAMIC" by blast
  then show ?thesis
  proof cases
    case 1
    then have no: "allocate_all sizes q = Some (Inr q)" for q by (simp add: sizes_def PT_LOAD_def PT_DYNAMIC_def)
    from d(4) [OF 1] obtain s1 where s1: "load_code entry ph s = Some s1" "load_data ph s1 = Inr (Some s')" by blast
    have e: "dataSegmentPresent s1 = dataSegmentPresent s" "dynamicSegmentPresent s1 = dynamicSegmentPresent s"
      "dataSegmentSize s1 = dataSegmentSize s" by (subst load_codeD [OF s1(1)], simp)+
    show ?thesis
    proof (cases "p_flags ph AND PF_W \<noteq> 0 \<and> p_flags ph AND PF_X = 0")
      case True
      then have s': "\<not> dataSegmentPresent s" "\<not> p_memsz ph < p_filesz ph" "s' = s1\<lparr>dataSegmentPresent := True, dataSegmentSize := p_memsz ph\<rparr>"
        using s1(2) e by (auto simp: load_data_def split: if_splits)
      have "seg_rel f s' (l\<lparr>dataSegment := Some ph\<rparr>)"
        using r s' e range_check [OF assms(1) d(1,2,3)] by (auto simp: seg_rel_def data_found_def)
      then show ?thesis using 1 True no by (simp add: load_segment_def)
    next
      case False
      then have "s' = s1" using s1(2) by (auto simp: load_data_def)
      then have "seg_rel f s' l" using r e by (simp add: seg_rel_def data_found_def cong: option.case_cong)
      then show ?thesis using 1 False no by (auto simp: load_segment_def)
    qed
  next
    case 2
    note d2 = d(5) [OF 2]
    have l: "pool_inv (ld_pool l)" "ld_image l = None" "\<not> ld_hasRelocs l" "ld_dtRel l = 0" "ld_dtRelsz l = 0"
      using r d2 by (simp_all add: seg_rel_def)
    have e: "load_segment f ph l = load_dyn_loop f (unat (p_offset ph)) (unat (p_memsz ph div sizeof_Dyn)) l"
      using 2 by (simp add: load_segment_def PT_LOAD_def PT_DYNAMIC_def)
    have "seg_rel f s' l'" if "dyn_loaded f (dataSegmentSize s) l'" "pool_inv (ld_pool l')" "dataSegment l' = dataSegment l" for l'
      using r d2 that by (simp add: seg_rel_def data_found_def cong: option.case_cong)
    moreover have "sizes = ram_sizes f (unat (p_offset ph)) (unat (p_memsz ph div sizeof_Dyn))" using 2 by (simp add: sizes_def)
    ultimately show ?thesis using validated_dynamic [OF _ l, of f ph "dataSegmentSize s"] d2 unfolding e by blast
  next
    case 3
    with d(6) r show ?thesis by (simp add: load_segment_def sizes_def)
  qed
qed

lemma segment_loop_rel:
  assumes "length f < 2 ^ 31"
  shows "segment_loop f entry x n s = Inr (Some s') \<Longrightarrow> seg_rel f s l \<Longrightarrow>
     (\<exists>e. load_segment_loop f x n l = Some (Inl e) \<and> allocate_all (segment_sizes f x n) (ld_pool l) = Some (Inl e))
   \<or> (\<exists>l'. load_segment_loop f x n l = Some (Inr l') \<and> seg_rel f s' l'
        \<and> allocate_all (segment_sizes f x n) (ld_pool l) = Some (Inr (ld_pool l')))"
proof (induction n arbitrary: x s l)
  case (Suc n)
  from Suc.prems(1) obtain ph s1 where ph: "get_phdr f x = Inr ph" "validate_segment f entry ph s = Inr (Some s1)"
    "segment_loop f entry (x + 32) n s1 = Inr (Some s')" by (auto simp: rbind_Inr_iff split: option.splits)
  let ?sz = "if p_type ph = PT_DYNAMIC then ram_sizes f (unat (p_offset ph)) (unat (p_memsz ph div sizeof_Dyn)) else []"
  have sz: "segment_sizes f x (Suc n) = ?sz @ segment_sizes f (x + 32) n" by (simp add: ph(1))
  from validate_segment_rel [OF assms ph(2) Suc.prems(2)] show ?case
  proof (elim disjE exE conjE)
    fix e assume "load_segment f ph l = Some (Inl e)" "allocate_all ?sz (ld_pool l) = Some (Inl e)"
    then show ?case unfolding sz allocate_all_append by (simp add: ph(1))
  next
    fix l1 assume l1: "load_segment f ph l = Some (Inr l1)" "seg_rel f s1 l1" "allocate_all ?sz (ld_pool l) = Some (Inr (ld_pool l1))"
    from Suc.IH [OF ph(3) l1(2)] l1(1,3) show ?case unfolding sz allocate_all_append by (simp add: ph(1))
  qed
qed simp

definition has_dynamic :: "u8 list \<Rightarrow> bool" where
  "has_dynamic f \<longleftrightarrow> (\<exists>eh i ph. get_ehdr f = Inr eh \<and> i < unat (e_phnum eh)
     \<and> get_phdr f (unat (e_phoff eh) + 32 * i) = Inr ph \<and> p_type ph = PT_DYNAMIC)"

lemma validate_segment_dynamic:
  assumes "validate_segment f entry ph s = Inr (Some s')"
  shows "dynamicSegmentPresent s' \<longleftrightarrow> dynamicSegmentPresent s \<or> p_type ph = PT_DYNAMIC"
proof -
  note d = validate_segmentD [OF assms]
  have "dynamicSegmentPresent s' = dynamicSegmentPresent s" if t: "p_type ph = PT_LOAD"
  proof -
    from d(4) [OF t] obtain s1 where s1: "load_code entry ph s = Some s1" "load_data ph s1 = Inr (Some s')" by blast
    have "dynamicSegmentPresent s1 = dynamicSegmentPresent s" by (subst load_codeD [OF s1(1)]) simp
    with s1(2) show ?thesis by (auto simp: load_data_def split: if_splits)
  qed
  with d(5,6) show ?thesis by (cases "p_type ph = PT_LOAD"; cases "p_type ph = PT_DYNAMIC") (auto simp: PT_LOAD_def PT_DYNAMIC_def)
qed

lemma segment_loop_dynamic:
  "segment_loop f entry x n s = Inr (Some s') \<Longrightarrow> i < n \<Longrightarrow> get_phdr f (x + 32 * i) = Inr ph \<Longrightarrow> p_type ph = PT_DYNAMIC \<Longrightarrow>
     dynamicSegmentPresent s'"
proof -
  have mono: "segment_loop f entry x n s = Inr (Some s') \<Longrightarrow> dynamicSegmentPresent s \<Longrightarrow> dynamicSegmentPresent s'" for x n s
    by (induction n arbitrary: x s) (auto simp: rbind_Inr_iff validate_segment_dynamic split: option.splits)
  show "segment_loop f entry x n s = Inr (Some s') \<Longrightarrow> i < n \<Longrightarrow> get_phdr f (x + 32 * i) = Inr ph \<Longrightarrow> p_type ph = PT_DYNAMIC \<Longrightarrow>
     dynamicSegmentPresent s'"
  proof (induction n arbitrary: x s i)
    case (Suc n)
    from Suc.prems(1) obtain ph0 s1 where ph: "get_phdr f x = Inr ph0" "validate_segment f entry ph0 s = Inr (Some s1)"
      "segment_loop f entry (x + 32) n s1 = Inr (Some s')" by (auto simp: rbind_Inr_iff split: option.splits)
    show ?case
    proof (cases i)
      case 0
      with Suc.prems ph(1) have "p_type ph0 = PT_DYNAMIC" by simp
      with mono [OF ph(3)] validate_segment_dynamic [OF ph(2)] show ?thesis by simp
    next
      case (Suc j)
      with Suc.IH [OF ph(3), of j] Suc.prems show ?thesis by (simp add: algebra_simps)
    qed
  qed simp
qed

section \<open>The contents of the image\<close>

lemma le32_bytes32 [simp]:
  "le32 (ucast v) (ucast (drop_bit 8 v)) (ucast (drop_bit 16 v)) (ucast (drop_bit 24 v)) = v"
proof (rule bit_word_eqI)
  fix n
  assume "n < LENGTH(32)"
  then consider "n < 8" | "8 \<le> n" "n < 16" | "16 \<le> n" "n < 24" | "24 \<le> n" "n < 32" by fastforce
  then show "bit (le32 (ucast v) (ucast (drop_bit 8 v)) (ucast (drop_bit 16 v)) (ucast (drop_bit 24 v))) n \<longleftrightarrow> bit v n"
    by cases (auto simp: le32_def bit_simps)
qed

text \<open>The byte and the word at an offset of the image.\<close>

definition byte_at :: "u32 \<Rightarrow> (u32 \<Rightarrow> u8) \<Rightarrow> nat \<Rightarrow> u8" where
  "byte_at a ram d = ram (a + of_nat d)"

definition word_at :: "u32 \<Rightarrow> (u32 \<Rightarrow> u8) \<Rightarrow> nat \<Rightarrow> u32" where
  "word_at a ram d = le32 (byte_at a ram d) (byte_at a ram (d + 1)) (byte_at a ram (d + 2)) (byte_at a ram (d + 3))"

lemma mem_get32_eq: "mem_get32 a sz off ram = (if off + 4 \<le> unat sz then Inr (word_at a ram off) else crash)"
proof -
  have "byte_at a ram (off + j) = ram (a + of_nat off + of_nat j)" for j by (simp add: byte_at_def ac_simps)
  from this [of 1] this [of 2] this [of 3] show ?thesis by (simp add: mem_get32_def word_at_def byte_at_def [of a ram off] Let_def)
qed

lemma unat_diff_of_nat: "d < 2 ^ 32 \<Longrightarrow> unat (a + of_nat d - (a :: u32)) = d"
  by (simp add: unat_of_nat)

lemma put_bytes_ok:
  assumes "off + length bs \<le> unat sz"
  obtains ram' where "put_bytes a sz off bs ram = Inr ram'"
    "\<And>d. d < 2 ^ 32 \<Longrightarrow> byte_at a ram' d = (if off \<le> d \<and> d < off + length bs then bs ! (d - off) else byte_at a ram d)"
    "\<And>y. unat (y - a) \<ge> off + length bs \<Longrightarrow> ram' y = ram y"
proof
  let ?r = "\<lambda>y. let d = unat (y - a) in if off \<le> d \<and> d < off + length bs then bs ! (d - off) else ram y"
  show "put_bytes a sz off bs ram = Inr ?r" using assms by (simp add: put_bytes_def)
  show "byte_at a ?r d = (if off \<le> d \<and> d < off + length bs then bs ! (d - off) else byte_at a ram d)" if "d < 2 ^ 32" for d
    using unat_diff_of_nat [OF that, of a] by (simp add: byte_at_def Let_def)
  show "?r y = ram y" if "unat (y - a) \<ge> off + length bs" for y using that by (simp add: Let_def)
qed

text \<open>The data segment as the file describes it.\<close>

definition data_byte :: "u8 list \<Rightarrow> Elf32_Phdr \<Rightarrow> nat \<Rightarrow> u8" where
  "data_byte f ds d = (if d < unat (p_filesz ds) then f ! (unat (p_offset ds) + d) else 0)"

lemma copy_data_ok:
  assumes "p_filesz ds \<le> p_memsz ds" "unat (p_offset ds) + unat (p_filesz ds) \<le> length f" "unat (p_memsz ds) \<le> unat sz"
  obtains ram' where "copy_data f a sz ds ram = Inr ram'"
    "\<And>d. d < unat (p_memsz ds) \<Longrightarrow> byte_at a ram' d = data_byte f ds d"
    "\<And>y. unat (y - a) \<ge> unat (p_memsz ds) \<Longrightarrow> ram' y = ram y"
proof -
  let ?n = "unat (p_filesz ds)" and ?bs = "take (unat (p_filesz ds)) (drop (unat (p_offset ds)) f)"
  have le: "?n \<le> unat (p_memsz ds)" using assms(1) by (simp add: word_le_nat_alt)
  have gb: "get_bytes f (unat (p_offset ds)) ?n = Inr ?bs" and lb: "length ?bs = ?n" using assms(2) by (simp_all add: get_bytes_def)
  have z: "unat (p_memsz ds - p_filesz ds) = unat (p_memsz ds) - ?n" using assms(1) by (rule unat_sub)
  obtain r1 where r1: "put_bytes a sz 0 ?bs ram = Inr r1"
    "\<And>d. d < 2 ^ 32 \<Longrightarrow> byte_at a r1 d = (if 0 \<le> d \<and> d < 0 + length ?bs then ?bs ! (d - 0) else byte_at a ram d)"
    "\<And>y. unat (y - a) \<ge> 0 + length ?bs \<Longrightarrow> r1 y = ram y"
    by (rule put_bytes_ok [of 0 ?bs sz a ram]) (use le assms(3) lb in auto)
  let ?zs = "replicate (unat (p_memsz ds - p_filesz ds)) (0 :: u8)"
  obtain r2 where r2: "put_bytes a sz ?n ?zs r1 = Inr r2"
    "\<And>d. d < 2 ^ 32 \<Longrightarrow> byte_at a r2 d = (if ?n \<le> d \<and> d < ?n + length ?zs then ?zs ! (d - ?n) else byte_at a r1 d)"
    "\<And>y. unat (y - a) \<ge> ?n + length ?zs \<Longrightarrow> r2 y = r1 y"
    by (rule put_bytes_ok [of ?n ?zs sz a r1]) (use le assms(3) z in auto)
  show ?thesis
  proof (rule that)
    show "copy_data f a sz ds ram = Inr r2" by (simp add: copy_data_def gb r1(1) r2(1))
    show "byte_at a r2 d = data_byte f ds d" if "d < unat (p_memsz ds)" for d
    proof -
      have "d < 2 ^ 32" using that unsigned_less [of "p_memsz ds"] by (rule order_less_trans [OF _ order_less_le_trans]) simp
      then show ?thesis using that r1(2) r2(2) le z lb assms(2) by (auto simp: data_byte_def nth_replicate)
    qed
    show "r2 y = ram y" if "unat (y - a) \<ge> unat (p_memsz ds)" for y using that r1(3) [of y] r2(3) [of y] le z lb by simp
  qed
qed

text \<open>The offsets of the words that the relocation table names.\<close>

fun rel_words :: "u8 list \<Rightarrow> nat \<Rightarrow> nat \<Rightarrow> nat list" where
  "rel_words f x 0 = []"
| "rel_words f x (Suc n) =
     (case (get32 f x, get32 f (x + 4)) of
        (Inr r_offset, Inr r_info) \<Rightarrow>
          (if (ucast r_info :: u8) = R_ARM_RELATIVE then [4 * unat ((r_offset - DATA_BASE) div 4)] else [])
      | _ \<Rightarrow> []) @ rel_words f (x + 8) n"

lemma rel_offset_inside:
  assumes "\<not> r < DATA_BASE" "\<not> DATA_BASE + d - 4 < r" "unat d \<le> 0x10000"
  shows "4 * unat ((r - DATA_BASE) div 4) + 4 \<le> unat d"
proof -
  have r: "0x40000000 \<le> unat r" using assms(1) by (simp add: DATA_BASE_def not_less word_le_nat_alt)
  have "unat (DATA_BASE + d) = 0x40000000 + unat d" using assms(3) by (simp add: DATA_BASE_def unat_word_ariths)
  moreover from this have "(4 :: u32) \<le> DATA_BASE + d" by (simp add: word_le_nat_alt)
  ultimately have "unat (DATA_BASE + d - 4) = 0x40000000 + unat d - 4" by (simp add: unat_sub)
  with assms(2) have "unat r \<le> 0x40000000 + unat d - 4" by (simp add: not_less word_le_nat_alt)
  moreover have "unat (r - DATA_BASE) = unat r - 0x40000000" using r by (simp add: DATA_BASE_def unat_sub word_le_nat_alt)
  moreover have "4 * unat ((r - DATA_BASE) div 4) \<le> unat (r - DATA_BASE)" by (simp add: unat_div_distrib)
  ultimately show ?thesis using r by linarith
qed

lemma rel_loop_step:
  assumes "rel_loop f d x (Suc n) = Inr True" "unat d \<le> 0x10000"
  obtains r_offset r_info where "get32 f x = Inr r_offset" "get32 f (x + 4) = Inr r_info" "rel_loop f d (x + 8) n = Inr True"
    "(ucast r_info :: u8) = R_ARM_RELATIVE \<Longrightarrow> 4 * unat ((r_offset - DATA_BASE) div 4) + 4 \<le> unat d"
proof -
  obtain i where i: "get32 f (x + 4) = Inr i" using assms(1) by (cases "get32 f (x + 4)") simp_all
  then have "x + 4 \<le> length f" by (simp add: get32_def crash_def split: if_splits)
  then obtain r where r: "get32 f x = Inr r" using get_ok(2) by blast
  have "rel_loop f d (x + 8) n = Inr True" using assms(1) i r by (auto split: if_splits)
  moreover have "4 * unat ((r - DATA_BASE) div 4) + 4 \<le> unat d" if "(ucast i :: u8) = R_ARM_RELATIVE"
  proof (rule rel_offset_inside)
    show "\<not> r < DATA_BASE" "\<not> DATA_BASE + d - 4 < r" using assms(1) i r that by (auto simp: R_ARM_NONE_def R_ARM_RELATIVE_def split: if_splits)
  qed (rule assms(2))
  ultimately show ?thesis using i r that by blast
qed

lemma rel_words_inside:
  "rel_loop f d x n = Inr True \<Longrightarrow> unat d \<le> 0x10000 \<Longrightarrow> w \<in> set (rel_words f x n) \<Longrightarrow> 4 dvd w \<and> w + 4 \<le> unat d"
proof (induction n arbitrary: x)
  case (Suc n)
  from rel_loop_step [OF Suc.prems(1,2)] obtain r i where "get32 f x = Inr r" "get32 f (x + 4) = Inr i" "rel_loop f d (x + 8) n = Inr True"
    "(ucast i :: u8) = R_ARM_RELATIVE \<Longrightarrow> 4 * unat ((r - DATA_BASE) div 4) + 4 \<le> unat d" by metis
  with Suc show ?case by (auto split: if_splits)
qed simp

lemma word_at_cong:
  assumes "4 dvd w" "\<And>d. d div 4 * 4 = w \<Longrightarrow> byte_at a r' d = byte_at a r d"
  shows "word_at a r' w = word_at a r w"
proof -
  obtain k where "w = 4 * k" using assms(1) by (auto elim: dvdE)
  then have "byte_at a r' (w + j) = byte_at a r (w + j)" if "j < 4" for j using that by (intro assms(2)) simp
  from this [of 0] this [of 1] this [of 2] this [of 3] show ?thesis by (simp add: word_at_def)
qed

lemma reloc_word_ok:
  assumes "4 dvd w" "w + 4 \<le> unat sz"
  obtains r1 where "rbind (mem_get32 a sz w ram) (\<lambda>v. put_bytes a sz w (bytes32 (relocated base a v)) ram) = Inr r1"
    "word_at a r1 w = relocated base a (word_at a ram w)"
    "\<And>d. d < 2 ^ 32 \<Longrightarrow> d div 4 * 4 \<noteq> w \<Longrightarrow> byte_at a r1 d = byte_at a ram d"
    "\<And>y. unat (y - a) \<ge> w + 4 \<Longrightarrow> r1 y = ram y"
proof -
  let ?v = "relocated base a (word_at a ram w)"
  have lb: "length (bytes32 ?v) = 4" by (simp add: bytes32_def)
  obtain r1 where r1: "put_bytes a sz w (bytes32 ?v) ram = Inr r1"
    "\<And>d. d < 2 ^ 32 \<Longrightarrow> byte_at a r1 d = (if w \<le> d \<and> d < w + length (bytes32 ?v) then bytes32 ?v ! (d - w) else byte_at a ram d)"
    "\<And>y. unat (y - a) \<ge> w + length (bytes32 ?v) \<Longrightarrow> r1 y = ram y"
    by (rule put_bytes_ok [of w "bytes32 ?v" sz a ram]) (use assms(2) lb in auto)
  have "unat sz < 2 ^ LENGTH(32)" by (rule unsigned_less)
  then have small: "w + 4 < 2 ^ 32" using assms(2) by simp
  obtain k where k: "w = 4 * k" using assms(1) by (auto elim: dvdE)
  show ?thesis
  proof (rule that)
    show "rbind (mem_get32 a sz w ram) (\<lambda>v. put_bytes a sz w (bytes32 (relocated base a v)) ram) = Inr r1"
      using assms(2) r1(1) by (simp add: mem_get32_eq)
    show "word_at a r1 w = ?v" using small by (simp add: word_at_def r1(2) lb) (simp add: bytes32_def)
    show "byte_at a r1 d = byte_at a ram d" if "d < 2 ^ 32" "d div 4 * 4 \<noteq> w" for d
    proof -
      have "\<not> (w \<le> d \<and> d < w + 4)"
      proof
        assume "w \<le> d \<and> d < w + 4"
        then have "d div 4 = k" unfolding k by (intro div_nat_eqI) simp_all
        with that(2) k show False by simp
      qed
      then show ?thesis using r1(2) [OF that(1)] lb by auto
    qed
    show "r1 y = ram y" if "unat (y - a) \<ge> w + 4" for y using r1(3) [of y] that lb by simp
  qed
qed

lemma reloc_loop_ok:
  assumes d: "unat d \<le> 0x10000" "unat d \<le> unat sz"
  shows "rel_loop f d x n = Inr True \<Longrightarrow> \<exists>ram'. reloc_loop f base a sz x n ram = Inr ram'
     \<and> (\<forall>y. unat (y - a) \<ge> unat d \<longrightarrow> ram' y = ram y)
     \<and> (\<forall>b < unat d. b div 4 * 4 \<notin> set (rel_words f x n) \<longrightarrow> byte_at a ram' b = byte_at a ram b)
     \<and> (\<forall>w \<in> set (rel_words f x n). word_at a ram' w = (relocated base a ^^ count_list (rel_words f x n) w) (word_at a ram w))"
proof (induction n arbitrary: x ram)
  case (Suc n)
  from rel_loop_step [OF Suc.prems d(1)] obtain r i where ri: "get32 f x = Inr r" "get32 f (x + 4) = Inr i"
    "rel_loop f d (x + 8) n = Inr True" "(ucast i :: u8) = R_ARM_RELATIVE \<Longrightarrow> 4 * unat ((r - DATA_BASE) div 4) + 4 \<le> unat d" by metis
  let ?w = "4 * unat ((r - DATA_BASE) div 4)" and ?ws = "rel_words f (x + 8) n"
  show ?case
  proof (cases "(ucast i :: u8) = R_ARM_RELATIVE")
    case False
    with Suc.IH [OF ri(3), of ram] show ?thesis by (simp add: ri(1,2))
  next
    case True
    have w: "4 dvd ?w" "?w + 4 \<le> unat d" "?w + 4 \<le> unat sz" using ri(4) [OF True] d(2) by simp_all
    obtain r1 where r1: "rbind (mem_get32 a sz ?w ram) (\<lambda>v. put_bytes a sz ?w (bytes32 (relocated base a v)) ram) = Inr r1"
      "word_at a r1 ?w = relocated base a (word_at a ram ?w)"
      "\<And>b. b < 2 ^ 32 \<Longrightarrow> b div 4 * 4 \<noteq> ?w \<Longrightarrow> byte_at a r1 b = byte_at a ram b" "\<And>y. unat (y - a) \<ge> ?w + 4 \<Longrightarrow> r1 y = ram y"
      by (rule reloc_word_ok [OF w(1,3), of a ram base]) blast
    from Suc.IH [OF ri(3), of r1] obtain r2 where r2: "reloc_loop f base a sz (x + 8) n r1 = Inr r2"
      "\<forall>y. unat (y - a) \<ge> unat d \<longrightarrow> r2 y = r1 y" "\<forall>b < unat d. b div 4 * 4 \<notin> set ?ws \<longrightarrow> byte_at a r2 b = byte_at a r1 b"
      "\<forall>w \<in> set ?ws. word_at a r2 w = (relocated base a ^^ count_list ?ws w) (word_at a r1 w)" by blast
    have ws: "rel_words f x (Suc n) = ?w # ?ws" using True by (simp add: ri(1,2))
    have small: "b < 2 ^ 32" if "b < unat d" for b using that d(1) by simp
    have "reloc_loop f base a sz x (Suc n) ram = Inr r2" using True r1(1) r2(1) by (simp add: ri(1,2) Let_def)
    moreover have "\<forall>y. unat (y - a) \<ge> unat d \<longrightarrow> r2 y = ram y" using r2(2) r1(4) w(2) by simp
    moreover have "\<forall>b < unat d. b div 4 * 4 \<notin> set (?w # ?ws) \<longrightarrow> byte_at a r2 b = byte_at a ram b"
      using r2(3) r1(3) small by simp
    moreover have "word_at a r2 v = (relocated base a ^^ count_list (?w # ?ws) v) (word_at a ram v)" if v: "v \<in> set (?w # ?ws)" for v
    proof -
      have vd: "4 dvd v" "v + 4 \<le> unat d" using v w rel_words_inside [OF ri(3) d(1), of v] by auto
      have in_v: "b < unat d" if "b div 4 * 4 = v" for b
        using that vd(2) div_mult_mod_eq [of b 4] by (simp add: mult.commute)
      have 2: "word_at a r2 v = (relocated base a ^^ count_list ?ws v) (word_at a r1 v)"
      proof (cases "v \<in> set ?ws")
        case False
        have "byte_at a r2 b = byte_at a r1 b" if "b div 4 * 4 = v" for b using r2(3) in_v [OF that] that False by simp
        with word_at_cong [OF vd(1), of a r2 r1] False show ?thesis by (simp add: count_list_0_iff)
      qed (use r2(4) in blast)
      have 1: "word_at a r1 v = (if v = ?w then relocated base a (word_at a ram v) else word_at a ram v)"
      proof (cases "v = ?w")
        case False
        have "byte_at a r1 b = byte_at a ram b" if "b div 4 * 4 = v" for b using r1(3) [OF small [OF in_v [OF that]]] that False by simp
        with word_at_cong [OF vd(1), of a r1 ram] False show ?thesis by simp
      qed (use r1(2) in simp)
      show ?thesis unfolding 2 1 by (simp add: funpow_swap1)
    qed
    ultimately show ?thesis unfolding ws by blast
  qed
qed simp

section \<open>Loading a validated program\<close>

text \<open>The destructor of an image gives its area back to the pool.\<close>

lemma destroyed_image_freed:
  assumes "pool_inv p" "allocatedBlocks p a = Some sz"
  shows "\<exists>p'. destroy_ProcessImage (Some a) p = Inr p' \<and> pool_inv p' \<and> allocatedBlocks p' = (allocatedBlocks p)(a := None)"
  using deallocate_ok [OF assms] unfolding destroy_ProcessImage_def by (metis option.case(2))

lemma new_ElfProgram_valid: "new_ElfProgram fpu base f = Inr q \<longleftrightarrow> validateHeader fpu base f = Inr True \<and> q = (base, f)"
  by (auto simp: new_ElfProgram_def rbind_Inr_iff)

lemma validateHeaderD:
  assumes "validateHeader fpu base f = Inr True"
  obtains eh s where "get_ehdr f = Inr eh"
    "segment_loop f (e_entry eh) (unat (e_phoff eh)) (unat (e_phnum eh))
       \<lparr>codeSegmentPresent = False, dataSegmentPresent = False, dynamicSegmentPresent = False, dataSegmentSize = 0\<rparr> = Inr (Some s)"
proof -
  obtain eh where eh: "get_ehdr f = Inr eh"
    using assms by (cases "get_ehdr f") (simp_all add: validateHeader_def Let_def split: if_splits)
  note v = assms [unfolded validateHeader_def eh rbind.simps Let_def]
  have "\<exists>s. segment_loop f (e_entry eh) (unat (e_phoff eh)) (unat (e_phnum eh))
       \<lparr>codeSegmentPresent = False, dataSegmentPresent = False, dynamicSegmentPresent = False, dataSegmentSize = 0\<rparr> = Inr (Some s)"
    using v by (auto simp: rbind_Inr_iff split: if_splits option.splits)
  with eh show ?thesis using that by blast
qed

definition fresh_loader :: "process_pool \<Rightarrow> process_loader" where
  "fresh_loader p = \<lparr>dataSegment = None, ld_dtRel = 0, ld_dtRelsz = 0, ld_hasRelocs = False, ld_image = None, ld_size = 0, ld_pool = p\<rparr>"

lemma load_validated:
  assumes v: "validateHeader fpu base f = Inr True" and "length f < 2 ^ 31" and dy: "has_dynamic f" and p: "pool_inv p"
  obtains (failed) e where "load base f None 0 p ram = Some (Inl e)" "allocate_all (image_sizes f) p = Some (Inl e)"
  | (loaded) eh l ds a ram0 where "get_ehdr f = Inr eh"
      "load_segment_loop f (unat (e_phoff eh)) (unat (e_phnum eh)) (fresh_loader p) = Some (Inr l)"
      "dataSegment l = Some ds" "ld_image l = Some a" "pool_inv (ld_pool l)" "dyn_loaded f (p_memsz ds) l"
      "copy_data f a (ld_size l) ds ram = Inr ram0"
      "\<And>d. d < unat (p_memsz ds) \<Longrightarrow> byte_at a ram0 d = data_byte f ds d"
      "\<And>y. unat (y - a) \<ge> unat (p_memsz ds) \<Longrightarrow> ram0 y = ram y"
      "load base f None 0 p ram = obind (Some (if ld_hasRelocs l
         then reloc_loop f base a (ld_size l) (unat (ld_dtRel l)) (unat (ld_dtRelsz l div sizeof_Rel)) ram0 else Inr ram0))
           (\<lambda>ram. Some (Inr (Some a, ld_size l, ld_pool l, ram)))"
      "allocate_all (image_sizes f) p = Some (Inr (ld_pool l))"
proof -
  obtain eh s where eh: "get_ehdr f = Inr eh" and s: "segment_loop f (e_entry eh) (unat (e_phoff eh)) (unat (e_phnum eh))
       \<lparr>codeSegmentPresent = False, dataSegmentPresent = False, dynamicSegmentPresent = False, dataSegmentSize = 0\<rparr> = Inr (Some s)"
    by (rule validateHeaderD [OF v])
  let ?loop = "load_segment_loop f (unat (e_phoff eh)) (unat (e_phnum eh)) (fresh_loader p)"
  have "seg_rel f \<lparr>codeSegmentPresent = False, dataSegmentPresent = False, dynamicSegmentPresent = False, dataSegmentSize = 0\<rparr> (fresh_loader p)"
    using p by (simp add: seg_rel_def data_found_def fresh_loader_def)
  moreover have "ld_pool (fresh_loader p) = p" "segment_sizes f (unat (e_phoff eh)) (unat (e_phnum eh)) = image_sizes f"
    by (simp_all add: fresh_loader_def image_sizes_def eh)
  ultimately consider
    (e) e where "?loop = Some (Inl e)" "allocate_all (image_sizes f) p = Some (Inl e)"
    | (l) l where "?loop = Some (Inr l)" "seg_rel f s l" "allocate_all (image_sizes f) p = Some (Inr (ld_pool l))"
    using segment_loop_rel [OF assms(2) s] by metis
  then show thesis
  proof cases
    case e
    show thesis by (rule failed [OF _ e(2)]) (use e(1) eh in \<open>simp add: load_def fresh_loader_def\<close>)
  next
    case l
    have "dynamicSegmentPresent s" using dy eh segment_loop_dynamic [OF s] by (auto simp: has_dynamic_def)
    with l(2) have r: "data_found f s (dataSegment l)" "pool_inv (ld_pool l)" "dataSegmentPresent s" "dyn_loaded f (dataSegmentSize s) l"
      by (simp_all add: seg_rel_def)
    from r(1,3) obtain ds where ds: "dataSegment l = Some ds" "p_memsz ds = dataSegmentSize s" "p_filesz ds \<le> p_memsz ds"
      "unat (p_offset ds) + unat (p_filesz ds) \<le> length f" by (auto simp: data_found_def split: option.splits)
    from r(4) obtain a where a: "ld_image l = Some a" and sz: "unat (p_memsz ds) \<le> unat (ld_size l)" by (auto simp: dyn_loaded_def ds(2))
    obtain ram0 where ram0: "copy_data f a (ld_size l) ds ram = Inr ram0"
      "\<And>d. d < unat (p_memsz ds) \<Longrightarrow> byte_at a ram0 d = data_byte f ds d" "\<And>y. unat (y - a) \<ge> unat (p_memsz ds) \<Longrightarrow> ram0 y = ram y"
      by (rule copy_data_ok [OF ds(3,4) sz, of a ram]) blast
    show thesis
      by (rule loaded [OF eh l(1) ds(1) a r(2) r(4) [folded ds(2)] ram0])
        (simp_all add: load_def eh l(1) [unfolded fresh_loader_def] l(3) ds(1) a ram0(1))
  qed
qed

text \<open>C19. A file that passes the validation of the constructor of \<^verbatim>\<open>ElfProgram\<close> and has a dynamic segment is loaded without an access
  outside the file or outside the memory allocated for the process. \<open>load\<close> fails if and only if the pool fails to allocate the sizes that
  the entries \<^verbatim>\<open>DT_MX_RAMSIZE\<close> of the file ask for, and then with the exception of the pool; otherwise the area the pool
  returned holds the data segment of the file followed by zeros, in which every word that the relocation table names was
  relocated, towards the file or the image, as many times as the table names it (once in a table without repetitions, which the validation
  does not require); the rest of the memory is as it was, and the pool is as after these allocations.\<close>

theorem validated_program_loads:
  assumes "new_ElfProgram fpu base f = Inr (base, f)" "length f < 2 ^ 31" "has_dynamic f" "pool_inv p"
  shows "(\<exists>e. load base f None 0 p ram = Some (Inl e) \<and> allocate_all (image_sizes f) p = Some (Inl e))
   \<or> (\<exists>a sz p' ram' ds rels. load base f None 0 p ram = Some (Inr (Some a, sz, p', ram'))
       \<and> allocate_all (image_sizes f) p = Some (Inr p') \<and> pool_inv p' \<and> allocatedBlocks p' a = Some sz \<and> unat (p_memsz ds) \<le> unat sz
       \<and> (\<exists>eh l. get_ehdr f = Inr eh
            \<and> load_segment_loop f (unat (e_phoff eh)) (unat (e_phnum eh)) (fresh_loader p) = Some (Inr l) \<and> dataSegment l = Some ds
            \<and> rels = (if ld_hasRelocs l then rel_words f (unat (ld_dtRel l)) (unat (ld_dtRelsz l div sizeof_Rel)) else []))
       \<and> (\<forall>y. unat (y - a) \<ge> unat (p_memsz ds) \<longrightarrow> ram' y = ram y)
       \<and> (\<forall>d < unat (p_memsz ds). d div 4 * 4 \<notin> set rels \<longrightarrow> byte_at a ram' d = data_byte f ds d)
       \<and> (\<forall>w \<in> set rels. w + 4 \<le> unat (p_memsz ds) \<and> word_at a ram' w = (relocated base a ^^ count_list rels w)
            (le32 (data_byte f ds w) (data_byte f ds (w + 1)) (data_byte f ds (w + 2)) (data_byte f ds (w + 3)))))"
proof -
  have v: "validateHeader fpu base f = Inr True" using assms(1) by (simp add: new_ElfProgram_valid)
  show ?thesis
    using v assms(2,3,4)
  proof (cases rule: load_validated [where ram = ram])
    case (failed e)
    then show ?thesis by blast
  next
    case (loaded eh l ds a ram0)
    let ?x = "unat (ld_dtRel l)" and ?n = "unat (ld_dtRelsz l div sizeof_Rel)"
    let ?rels = "if ld_hasRelocs l then rel_words f ?x ?n else []"
    from loaded(6) have dl: "unat (p_memsz ds) \<le> 0x10000" "unat (p_memsz ds) \<le> unat (ld_size l)" "allocatedBlocks (ld_pool l) a = Some (ld_size l)"
      "ld_hasRelocs l \<Longrightarrow> rel_loop f (p_memsz ds) ?x ?n = Inr True" using loaded(4) by (auto simp: dyn_loaded_def)
    have "\<exists>ram'. (if ld_hasRelocs l then reloc_loop f base a (ld_size l) ?x ?n ram0 else Inr ram0) = Inr ram'
       \<and> (\<forall>y. unat (y - a) \<ge> unat (p_memsz ds) \<longrightarrow> ram' y = ram0 y)
       \<and> (\<forall>b < unat (p_memsz ds). b div 4 * 4 \<notin> set ?rels \<longrightarrow> byte_at a ram' b = byte_at a ram0 b)
       \<and> (\<forall>w \<in> set ?rels. word_at a ram' w = (relocated base a ^^ count_list ?rels w) (word_at a ram0 w))"
      using reloc_loop_ok [OF dl(1,2,4), of base a ram0] by (cases "ld_hasRelocs l") simp_all
    then obtain ram' where ram': "(if ld_hasRelocs l then reloc_loop f base a (ld_size l) ?x ?n ram0 else Inr ram0) = Inr ram'"
       "\<forall>y. unat (y - a) \<ge> unat (p_memsz ds) \<longrightarrow> ram' y = ram0 y"
       "\<forall>b < unat (p_memsz ds). b div 4 * 4 \<notin> set ?rels \<longrightarrow> byte_at a ram' b = byte_at a ram0 b"
       "\<forall>w \<in> set ?rels. word_at a ram' w = (relocated base a ^^ count_list ?rels w) (word_at a ram0 w)" by blast
    have w: "w + 4 \<le> unat (p_memsz ds)" if "w \<in> set ?rels" for w
      using that rel_words_inside [OF dl(4) dl(1)] by (auto split: if_splits)
    have "load base f None 0 p ram = Some (Inr (Some a, ld_size l, ld_pool l, ram'))" unfolding loaded(10) ram'(1) by simp
    moreover have "\<forall>y. unat (y - a) \<ge> unat (p_memsz ds) \<longrightarrow> ram' y = ram y" using ram'(2) loaded(9) by simp
    moreover have "\<forall>d < unat (p_memsz ds). d div 4 * 4 \<notin> set ?rels \<longrightarrow> byte_at a ram' d = data_byte f ds d" using ram'(3) loaded(8) by simp
    moreover have "word_at a ram0 w = le32 (data_byte f ds w) (data_byte f ds (w + 1)) (data_byte f ds (w + 2)) (data_byte f ds (w + 3))"
      if "w \<in> set ?rels" for w using w [OF that] loaded(8) by (simp add: word_at_def)
    ultimately show ?thesis using loaded(1,2,3,5,11) dl(2,3) ram'(4) w by (intro disjI2 exI conjI) auto
  qed
qed

text \<open>A program with a code segment, a data segment of 8 bytes and 4 bytes of zeros, and a relocation of its first word.\<close>

definition demo_header :: "u16 \<Rightarrow> u8 list" where
  "demo_header n = [127, 69, 76, 70, 1, 1, 1, 0, 0, 0, 0, 0, 0, 0, 0, 0, 2, 0, 40, 0, 1, 0, 0, 0, 149, 0, 0, 0, 52, 0, 0, 0,
    0, 0, 0, 0, 0, 0, 0, 5, 52, 0, 32, 0]
    @ [ucast n, ucast (drop_bit 8 n), 0, 0, 0, 0, 0, 0]"

definition demo_table :: "u8 \<Rightarrow> u8 list" where
  "demo_table m = [1, 0, 0, 0, 148, 0, 0, 0, 0, 0, 0, 0, 0, 0, 0, 0, 4, 0, 0, 0, 4, 0, 0, 0, 5, 0, 0, 0, 4, 0, 0, 0, 1, 0, 0,
    0, 152, 0, 0, 0, 0, 0, 0, 0, 0, 0, 0, 0, 8, 0, 0, 0, 12, 0, 0, 0, 6, 0, 0, 0, 4, 0, 0, 0, 2, 0, 0, 0,
    160, 0, 0, 0, 0, 0, 0, 0, 0, 0, 0, 0, 48, 0, 0, 0]
    @ [m, 0, 0, 0, 4, 0, 0, 0, 4, 0, 0, 0]"

definition demo_body :: "u8 list" where
  "demo_body = [1, 2, 3, 4, 4, 0, 0, 64, 148, 0, 0, 0, 77, 105, 111, 115, 105, 120, 0, 1, 0, 0, 0, 16, 0, 4, 0, 0, 1, 0,
    0, 16, 0, 1, 0, 0, 17, 0, 0, 0, 208, 0, 0, 0, 18, 0, 0, 0, 8, 0, 0, 0, 19, 0, 0, 0, 8, 0, 0, 0, 0, 0, 0,
    64, 23, 0, 0, 0, 0, 0, 0, 0]"

definition demo_elf :: "u8 list" where
  "demo_elf = demo_header 3 @ demo_table 48 @ demo_body"

lemma demo_elf_valid: "validateHeader True 0x08000000 demo_elf = Inr True"
  by code_simp

lemma demo_elf_length: "length demo_elf = 220"
  by code_simp

lemma demo_elf_header:
  obtains eh where "get_ehdr demo_elf = Inr eh" "e_phoff eh = 52" "e_phnum eh = 3"
proof -
  have "map_sum (\<lambda>_. ()) (\<lambda>eh. (e_phoff eh, e_phnum eh)) (get_ehdr demo_elf) = Inr (52, 3)" by code_simp
  then show ?thesis using that by (cases "get_ehdr demo_elf") auto
qed

lemma demo_elf_segments:
  "map (\<lambda>x. map_sum (\<lambda>_. ()) (\<lambda>ph. (p_type ph, unat (p_offset ph) + unat (p_memsz ph))) (get_phdr demo_elf x)) [52, 84, 116] =
     [Inr (1, 152), Inr (1, 164), Inr (2, 208)]"
  by code_simp

lemma demo_elf_dynamic: "has_dynamic demo_elf" "dynamic_inside demo_elf"
proof -
  obtain eh where eh: "get_ehdr demo_elf = Inr eh" "e_phoff eh = 52" "e_phnum eh = 3" by (rule demo_elf_header)
  note seg = demo_elf_segments [simplified]
  obtain ph where "get_phdr demo_elf 116 = Inr ph" "p_type ph = 2" using seg by (cases "get_phdr demo_elf 116") auto
  then show "has_dynamic demo_elf" unfolding has_dynamic_def using eh by (intro exI [of _ eh] exI [of _ 2] exI [of _ ph]) (simp add: PT_DYNAMIC_def)
  have "unat (p_offset ph) + unat (p_memsz ph) \<le> 220" if "i < 3" "get_phdr demo_elf (52 + 32 * i) = Inr ph" for i ph
  proof -
    from that(1) consider "i = 0" | "i = 1" | "i = 2" by fastforce
    then show ?thesis by cases (use seg that(2) in auto)
  qed
  then show "dynamic_inside demo_elf" unfolding dynamic_inside_def using eh by (auto simp: demo_elf_length)
qed

theorem validated_program_loads_witness:
  "\<exists>p a sz p' ram'. new_ProcessPool 0x20000000 0x8000 = Inr p
     \<and> load 0x08000000 demo_elf None 0 p (\<lambda>_. 0xff) = Some (Inr (Some a, sz, p', ram'))
     \<and> allocatedBlocks p' a = Some sz \<and> (\<forall>y. unat (y - a) \<ge> unat sz \<longrightarrow> ram' y = 0xff)"
proof -
  let ?p = "\<lparr>bitmap = [0], poolBase = 0x20000000, poolSize = 0x8000, allocatedBlocks = (\<lambda>_. None)\<rparr>"
  have n: "new_ProcessPool 0x20000000 0x8000 = Inr ?p" by (simp add: new_ProcessPool_def blockSize_eq Let_def)
  have inv: "pool_inv ?p" by (rule new_pool_inv [of "0x20000000" "0x8000"]) (use n in simp_all)
  have ok: "map_option (map_sum (\<lambda>_. ()) (\<lambda>_. ())) (load 0x08000000 demo_elf None 0 ?p (\<lambda>_. 0xff)) = Some (Inr ())" by code_simp
  have len: "length demo_elf < 2 ^ 31" by (simp add: demo_elf_length)
  have nf: "load 0x08000000 demo_elf None 0 ?p (\<lambda>_. 0xff) \<noteq> Some (Inl e)" for e using ok by auto
  have el: "new_ElfProgram True 0x08000000 demo_elf = Inr (0x08000000, demo_elf)" by (simp add: new_ElfProgram_valid demo_elf_valid)
  from validated_program_loads [OF el len demo_elf_dynamic(1) inv, of "\<lambda>_. 0xff"]
  obtain a sz p' ram' and ds :: Elf32_Phdr where "load 0x08000000 demo_elf None 0 ?p (\<lambda>_. 0xff) = Some (Inr (Some a, sz, p', ram'))"
    "allocatedBlocks p' a = Some sz" "unat (p_memsz ds) \<le> unat sz" "\<forall>y. unat (y - a) \<ge> unat (p_memsz ds) \<longrightarrow> ram' y = 0xff"
    by (elim disjE exE conjE) (use nf in blast)+
  then show ?thesis using n by (intro exI [of _ ?p] exI [of _ a] exI [of _ sz] exI [of _ p'] exI [of _ ram']) simp
qed

text \<open>C20. 
  The validation of a file, of any content, ends with a verdict or with \<^verbatim>\<open>runtime_error\<close> and reads only the file, if the
  entries of its dynamic segments are in the file.\<close>

theorem validation_reads_only_the_file:
  assumes "length f < 2 ^ 31" "dynamic_inside f"
  shows "(\<exists>b. validateHeader fpu base f = Inr b) \<or> (\<exists>m. validateHeader fpu base f = Inl (RuntimeError m))"
  using validateHeader_no_crash [OF assms, of fpu base] by (cases "validateHeader fpu base f") (auto simp: no_crash_def)

theorem validation_reads_only_the_file_witness:
  "length demo_elf < 2 ^ 31 \<and> dynamic_inside demo_elf \<and>
     ((\<exists>b. validateHeader False 0x08000000 demo_elf = Inr b) \<or> (\<exists>m. validateHeader False 0x08000000 demo_elf = Inl (RuntimeError m)))"
  using validation_reads_only_the_file [OF _ demo_elf_dynamic(2), of False "0x08000000"] demo_elf_dynamic(2) by (simp add: demo_elf_length)

text \<open>
  Without that hypothesis it does not hold: \<^verbatim>\<open>p_memsz\<close> of the dynamic segment is the number of bytes read and is not compared
  with anything. And a program without a dynamic segment passes the validation but is loaded through a null pointer.\<close>

theorem dynamic_segment_read_past_file:
  "validateHeader True 0x08000000 (demo_header 3 @ demo_table 200 @ demo_body) = Inl (Crash OutOfBounds)"
  by code_simp

theorem code_only_program_dereferences_null:
  "validateHeader True 0x08000000 (demo_header 1 @ demo_table 48 @ demo_body) = Inr True
   \<and> load 0x08000000 (demo_header 1 @ demo_table 48 @ demo_body) None 0 p ram = Some (Inl (Crash NullDeref))"
proof
  show "validateHeader True 0x08000000 (demo_header 1 @ demo_table 48 @ demo_body) = Inr True" by code_simp
  show "load 0x08000000 (demo_header 1 @ demo_table 48 @ demo_body) None 0 p ram = Some (Inl (Crash NullDeref))" by code_simp
qed

end
