(* ===== verification/Process_Table.thy ===== *)
theory Process_Table
  imports Miosix_Prelude
begin

text \<open>
  The processes of \<^verbatim>\<open>kernel/process.cpp\<close>: the table from pids to processes, the tree of parents and children, zombies, and the
  calls that create, wait for and end a process. Processes are objects in a store; an access to an object that has been
  deleted is the fault \<open>Dangling\<close>. \<^verbatim>\<open>waitpid\<close> is cut where the thread waits on a condition variable, and \<open>pt_reach\<close>
  interleaves the parts of all threads, each of which runs under \<^verbatim>\<open>procMutex\<close>. The invariant \<open>pt_inv\<close> says that every
  process is on exactly the list of its parent where it belongs.
\<close>

section \<open>Processes\<close>

datatype pfault = PError Error | Dangling nat

text \<open>\<^verbatim>\<open>class ProcessBase\<close> and \<^verbatim>\<open>class Process\<close>; the kernel's own \<^verbatim>\<open>ProcessBase\<close> has the address 0 and the pid 0.\<close>

record process =
  p_pid :: int
  p_ppid :: int
  childs :: "nat list"
  zombies :: "nat list"
  waitCount :: int
  zombie :: bool
  exitCode :: int

definition new_process :: "int \<Rightarrow> int \<Rightarrow> process" where
  "new_process pid ppid = \<lparr>p_pid = pid, p_ppid = ppid, childs = [], zombies = [], waitCount = 0, zombie = False, exitCode = 0\<rparr>"

text \<open>Where a thread is: running, waiting in \<^verbatim>\<open>waitpid\<close> for any child or for a given process, or woken from one of the two waits.\<close>

datatype wait_state = Running | GenericWait | GenericWoken | JoinWait nat | JoinWoken nat | Ended

record proc_table =
  pidCounter :: int
  processes :: "int \<rightharpoonup> nat"
  proc :: "nat \<rightharpoonup> process"
  thr_proc :: "nat \<Rightarrow> nat"
  wstate :: "nat \<Rightarrow> wait_state"

definition pget :: "nat \<Rightarrow> (process \<Rightarrow> pfault + 'a) \<Rightarrow> proc_table \<Rightarrow> pfault + 'a" where
  "pget a f s = (case proc s a of None \<Rightarrow> Inl (Dangling a) | Some p \<Rightarrow> f p)"

definition pupd :: "nat \<Rightarrow> (process \<Rightarrow> process) \<Rightarrow> proc_table \<Rightarrow> pfault + proc_table" where
  "pupd a f s = pget a (\<lambda>p. Inr (s\<lparr>proc := (proc s)(a \<mapsto> f p)\<rparr>)) s"

definition pdelete :: "nat \<Rightarrow> proc_table \<Rightarrow> pfault + proc_table" where
  "pdelete a s = pget a (\<lambda>_. Inr (s\<lparr>proc := (proc s)(a := None)\<rparr>)) s"

definition set_wstate :: "nat \<Rightarrow> wait_state \<Rightarrow> proc_table \<Rightarrow> proc_table" where
  "set_wstate th w s = s\<lparr>wstate := (wstate s)(th := w)\<rparr>"

text \<open>\<^verbatim>\<open>pid_t\<close> has 32 bits.\<close>

definition pid_inc :: "int \<Rightarrow> int" where
  "pid_inc x = signed_take_bit 31 (x + 1)"

partial_function (option) getNewPid :: "proc_table \<Rightarrow> (proc_table \<times> int) option" where
  "getNewPid s =
     (let s = (if pidCounter s < 0 then s\<lparr>pidCounter := 1\<rparr> else s) in
      if pidCounter s = 0 \<or> processes s (pidCounter s) \<noteq> None
      then getNewPid (s\<lparr>pidCounter := pid_inc (pidCounter s)\<rparr>)
      else Some (s\<lparr>pidCounter := pid_inc (pidCounter s)\<rparr>, pidCounter s))"

declare getNewPid.simps [code]

text \<open>\<^verbatim>\<open>Process::create\<close> up to the creation of the thread, and what follows when there is a thread and when there is none. The
  new object is at \<open>a\<close>.\<close>

definition create_begin :: "nat \<Rightarrow> nat \<Rightarrow> proc_table \<Rightarrow> (pfault + (proc_table \<times> int)) option" where
  "create_begin th a s =
     (case getNewPid s of
        None \<Rightarrow> None
      | Some (s, pid) \<Rightarrow> Some (
          let parent = thr_proc s th in
          pget parent (\<lambda>pp.
          rbind (pupd parent (\<lambda>q. q\<lparr>childs := childs q @ [a]\<rparr>) (s\<lparr>proc := (proc s)(a \<mapsto> new_process pid (p_pid pp))\<rparr>)) (\<lambda>s.
          Inr (s\<lparr>processes := (processes s)(pid \<mapsto> a)\<rparr>, pid))) s))"

definition create_end :: "nat \<Rightarrow> nat \<Rightarrow> proc_table \<Rightarrow> proc_table" where
  "create_end a thr s = s\<lparr>thr_proc := (thr_proc s)(thr := a), wstate := (wstate s)(thr := Running)\<rparr>"

definition create_fail :: "nat \<Rightarrow> nat \<Rightarrow> proc_table \<Rightarrow> pfault + proc_table" where
  "create_fail th a s =
     pget a (\<lambda>p.
     rbind (pupd (thr_proc s th) (\<lambda>q. q\<lparr>childs := removeAll a (childs q)\<rparr>) (s\<lparr>processes := (processes s)(p_pid p := None)\<rparr>)) (\<lambda>s.
     pdelete a s)) s"

definition getppid :: "int \<Rightarrow> proc_table \<Rightarrow> pfault + int" where
  "getppid pid s = (case processes s pid of None \<Rightarrow> Inr (-1) | Some a \<Rightarrow> pget a (\<lambda>p. Inr (p_ppid p)) s)"

text \<open>What a part of \<^verbatim>\<open>waitpid\<close> ends with: a result with the exit code that is stored, or a wait.\<close>

datatype wait_result = Returns int "int option" | Blocks

text \<open>The body of the loop for a generic child: \<^verbatim>\<open>childs.empty()\<close>, the wait, or the reaping of the first zombie.\<close>

definition wait_generic :: "nat \<Rightarrow> proc_table \<Rightarrow> pfault + (proc_table \<times> wait_result)" where
  "wait_generic th s =
     (let self = thr_proc s th in
      pget self (\<lambda>q.
      case zombies q of
        [] \<Rightarrow> if childs q = [] then Inr (set_wstate th Running s, Returns (-1) None)
              else Inr (set_wstate th GenericWait s, Blocks)
      | joined # zs \<Rightarrow>
          rbind (pupd self (\<lambda>q. q\<lparr>zombies := zs\<rparr>) (set_wstate th Running s)) (\<lambda>s.
          pget joined (\<lambda>j.
          let s = s\<lparr>processes := (processes s)(p_pid j := None)\<rparr> in
          if waitCount j \<noteq> 0 then Inl (PError UNEXPECTED)
          else rbind (pdelete joined s) (\<lambda>s. Inr (s, Returns (p_pid j) (Some (exitCode j))))) s)) s)"

text \<open>The end of \<^verbatim>\<open>waitpid\<close> for a given process: the last of those that wait for it deletes it.\<close>

definition wait_finish :: "nat \<Rightarrow> nat \<Rightarrow> proc_table \<Rightarrow> pfault + (proc_table \<times> wait_result)" where
  "wait_finish th joined s =
     pget joined (\<lambda>j.
     if waitCount j = 0
     then rbind (pupd (thr_proc s th) (\<lambda>q. q\<lparr>zombies := removeAll joined (zombies q)\<rparr>) s) (\<lambda>s.
          rbind (pdelete joined (s\<lparr>processes := (processes s)(p_pid j := None)\<rparr>)) (\<lambda>s.
          Inr (s, Returns (p_pid j) (Some (exitCode j)))))
     else Inr (s, Returns (-1) None)) s"

definition waitpid_begin :: "nat \<Rightarrow> int \<Rightarrow> bool \<Rightarrow> proc_table \<Rightarrow> pfault + (proc_table \<times> wait_result)" where
  "waitpid_begin th pid nohang s =
     pget (thr_proc s th) (\<lambda>self.
     if pid \<le> 0
     then if zombies self = [] \<and> nohang then Inr (s, Returns 0 None) else wait_generic th s
     else case processes s pid of
            None \<Rightarrow> Inr (s, Returns (-1) None)
          | Some joined \<Rightarrow>
              pget joined (\<lambda>j.
              if p_ppid j \<noteq> p_pid self \<or> pid = p_pid self then Inr (s, Returns (-1) None)
              else if \<not> zombie j
              then if nohang then Inr (s, Returns 0 None)
                   else rbind (pupd joined (\<lambda>j. j\<lparr>waitCount := waitCount j + 1\<rparr>) s) (\<lambda>s.
                        Inr (set_wstate th (JoinWait joined) s, Blocks))
              else wait_finish th joined s) s) s"

text \<open>A woken thread, once it has \<^verbatim>\<open>procMutex\<close> again.\<close>

definition waitpid_resume :: "nat \<Rightarrow> proc_table \<Rightarrow> pfault + (proc_table \<times> wait_result)" where
  "waitpid_resume th s =
     (case wstate s th of
        JoinWoken joined \<Rightarrow>
          rbind (pupd joined (\<lambda>j. j\<lparr>waitCount := waitCount j - 1\<rparr>) (set_wstate th Running s)) (\<lambda>s.
          pget joined (\<lambda>j.
          if waitCount j < 0 \<or> \<not> zombie j then Inl (PError UNEXPECTED) else wait_finish th joined s) s)
      | _ \<Rightarrow> wait_generic th s)"

text \<open>The end of \<^verbatim>\<open>Process::start\<close>: the process becomes a zombie, its children are given to the kernel, and its parent or those that
  wait for it are told.\<close>

fun adopt :: "nat list \<Rightarrow> proc_table \<Rightarrow> pfault + proc_table" where
  "adopt [] s = Inr s"
| "adopt (c # cs) s = rbind (pupd c (\<lambda>p. p\<lparr>p_ppid := 0\<rparr>) s) (adopt cs)"

definition broadcast :: "(wait_state \<Rightarrow> wait_state) \<Rightarrow> proc_table \<Rightarrow> proc_table" where
  "broadcast f s = s\<lparr>wstate := \<lambda>th. f (wstate s th)\<rparr>"

fun wake_generic :: "wait_state \<Rightarrow> wait_state" where
  "wake_generic GenericWait = GenericWoken"
| "wake_generic w = w"

fun wake_join :: "nat \<Rightarrow> wait_state \<Rightarrow> wait_state" where
  "wake_join a (JoinWait b) = (if b = a then JoinWoken b else JoinWait b)"
| "wake_join a w = w"

definition process_exit :: "nat \<Rightarrow> int \<Rightarrow> proc_table \<Rightarrow> pfault + proc_table" where
  "process_exit th code s =
     (let a = thr_proc s th in
      rbind (pupd a (\<lambda>p. p\<lparr>exitCode := code, zombie := True\<rparr>) (set_wstate th Ended s)) (\<lambda>s.
      pget a (\<lambda>p.
      rbind (adopt (childs p) s) (\<lambda>s.
      rbind (adopt (zombies p) s) (\<lambda>s.
      case processes s 0 of
        None \<Rightarrow> Inl (PError UNEXPECTED)
      | Some krn \<Rightarrow>
          rbind (pupd krn (\<lambda>k. k\<lparr>childs := childs p @ childs k, zombies := zombies p @ zombies k\<rparr>) s) (\<lambda>s.
          rbind (pupd a (\<lambda>p. p\<lparr>childs := [], zombies := []\<rparr>) s) (\<lambda>s.
          pget a (\<lambda>p.
          case processes s (p_ppid p) of
            None \<Rightarrow> Inl (PError UNEXPECTED)
          | Some parent \<Rightarrow>
              rbind (pupd parent (\<lambda>q. q\<lparr>childs := removeAll a (childs q)\<rparr>) s) (\<lambda>s.
              if waitCount p > 0 then Inr (broadcast (wake_join a) s)
              else rbind (pupd parent (\<lambda>q. q\<lparr>zombies := zombies q @ [a]\<rparr>) s) (\<lambda>s. Inr (broadcast wake_generic s)))) s))))) s))"

text \<open>The table with the kernel and its threads.\<close>

definition pt_init :: "nat set \<Rightarrow> proc_table" where
  "pt_init K = \<lparr>pidCounter = 0, processes = [0 \<mapsto> 0], proc = [0 \<mapsto> new_process 0 0], thr_proc = (\<lambda>_. 0),
     wstate = (\<lambda>th. if th \<in> K then Running else Ended)\<rparr>"

section \<open>New pids\<close>

abbreviation PID_MAX :: int where "PID_MAX \<equiv> 2147483647"

lemma pid_inc_less: "0 \<le> x \<Longrightarrow> x < PID_MAX \<Longrightarrow> pid_inc x = x + 1"
  unfolding pid_inc_def by (rule signed_take_bit_int_eq_self) simp_all

lemma pid_inc_max: "pid_inc PID_MAX < 0"
  by (simp add: pid_inc_def)

text \<open>The counter reaches a free pid: first upwards, then, after it wrapped, from 1.\<close>

definition fresh_pid :: "proc_table \<Rightarrow> proc_table \<Rightarrow> int \<Rightarrow> bool" where
  "fresh_pid s s' pid \<longleftrightarrow> 0 < pid \<and> pid \<le> PID_MAX \<and> processes s pid = None \<and> s' = s\<lparr>pidCounter := pid_inc pid\<rparr>"

lemma getNewPid_here:
  "0 < pidCounter s \<Longrightarrow> processes s (pidCounter s) = None \<Longrightarrow> getNewPid s = Some (s\<lparr>pidCounter := pid_inc (pidCounter s)\<rparr>, pidCounter s)"
  by (subst getNewPid.simps) simp

lemma getNewPid_up:
  assumes "0 \<le> pidCounter s" "pidCounter s \<le> f" "0 < f" "f \<le> PID_MAX" "processes s f = None"
  shows "\<exists>s' pid. getNewPid s = Some (s', pid) \<and> fresh_pid s s' pid"
  using assms
proof (induction "nat (f - pidCounter s)" arbitrary: s)
  case 0
  then have "pidCounter s = f" by simp
  then show ?case using 0 by (simp add: getNewPid_here fresh_pid_def)
next
  case (Suc n)
  show ?case
  proof (cases "pidCounter s = 0 \<or> processes s (pidCounter s) \<noteq> None")
    case False
    then show ?thesis using Suc.prems by (simp add: getNewPid_here fresh_pid_def)
  next
    case True
    let ?s = "s\<lparr>pidCounter := pid_inc (pidCounter s)\<rparr>"
    have i: "pid_inc (pidCounter s) = pidCounter s + 1" using Suc by (intro pid_inc_less) simp_all
    have "n = nat (f - pidCounter ?s)" "0 \<le> pidCounter ?s" "pidCounter ?s \<le> f" "processes ?s f = None"
      using Suc i by simp_all
    from Suc.hyps(1) [OF this(1,2,3) Suc.prems(3,4) this(4)] obtain s' pid where "getNewPid ?s = Some (s', pid)" "fresh_pid ?s s' pid" by blast
    moreover have "getNewPid s = getNewPid ?s" using True Suc.prems by (subst getNewPid.simps) simp
    ultimately show ?thesis by (auto simp: fresh_pid_def)
  qed
qed

lemma getNewPid_negative:
  assumes "pidCounter s < 0" "0 < f" "f \<le> PID_MAX" "processes s f = None"
  shows "\<exists>s' pid. getNewPid s = Some (s', pid) \<and> fresh_pid s s' pid"
proof -
  have "getNewPid s = getNewPid (s\<lparr>pidCounter := 1\<rparr>)"
    using assms(1) by (subst (1 2) getNewPid.simps) (simp add: Let_def)
  with getNewPid_up [of "s\<lparr>pidCounter := 1\<rparr>" f] assms show ?thesis by (auto simp: fresh_pid_def)
qed

lemma getNewPid_down:
  assumes "f < pidCounter s" "pidCounter s \<le> PID_MAX" "0 < f" "f \<le> PID_MAX" "processes s f = None"
  shows "\<exists>s' pid. getNewPid s = Some (s', pid) \<and> fresh_pid s s' pid"
  using assms
proof (induction "nat (PID_MAX - pidCounter s)" arbitrary: s)
  case (0 s)
  then have m: "pidCounter s = PID_MAX" by simp
  show ?case
  proof (cases "processes s PID_MAX = None")
    case True
    then show ?thesis using m by (simp add: getNewPid_here fresh_pid_def)
  next
    case False
    have "getNewPid s = getNewPid (s\<lparr>pidCounter := pid_inc PID_MAX\<rparr>)" using False m by (subst getNewPid.simps) simp
    with getNewPid_negative [of "s\<lparr>pidCounter := pid_inc PID_MAX\<rparr>" f] 0 pid_inc_max show ?thesis by (auto simp: fresh_pid_def)
  qed
next
  case (Suc n)
  show ?case
  proof (cases "processes s (pidCounter s) = None")
    case True
    then show ?thesis using Suc.prems by (simp add: getNewPid_here fresh_pid_def)
  next
    case False
    let ?s = "s\<lparr>pidCounter := pid_inc (pidCounter s)\<rparr>"
    have i: "pid_inc (pidCounter s) = pidCounter s + 1" using Suc by (intro pid_inc_less) simp_all
    have "n = nat (PID_MAX - pidCounter ?s)" "f < pidCounter ?s" "pidCounter ?s \<le> PID_MAX" "processes ?s f = None"
      using Suc i by simp_all
    from Suc.hyps(1) [OF this(1,2,3) Suc.prems(3,4) this(4)] obtain s' pid where "getNewPid ?s = Some (s', pid)" "fresh_pid ?s s' pid" by blast
    moreover have "getNewPid s = getNewPid ?s" using False Suc.prems by (subst getNewPid.simps) simp
    ultimately show ?thesis by (auto simp: fresh_pid_def)
  qed
qed

lemma getNewPid_spec:
  assumes "pidCounter s \<le> PID_MAX" "0 < f" "f \<le> PID_MAX" "processes s f = None"
  shows "\<exists>s' pid. getNewPid s = Some (s', pid) \<and> fresh_pid s s' pid"
  using getNewPid_up [of s f] getNewPid_negative [of s f] getNewPid_down [of f s] assms not_le by blast

lemma pid_inc_le: "pid_inc x \<le> PID_MAX"
  using signed_take_bit_int_less_exp [of 31 "x + 1"] by (simp add: pid_inc_def)

section \<open>The tree\<close>

type_synonym store = "nat \<rightharpoonup> process"

text \<open>Process \<open>a\<close> with data \<open>p\<close> is on the list of its parent where it belongs.\<close>

definition has_parent :: "store \<Rightarrow> nat \<Rightarrow> process \<Rightarrow> bool" where
  "has_parent pr a p \<longleftrightarrow> (\<exists>b q. b \<noteq> a \<and> pr b = Some q \<and> p_pid q = p_ppid p \<and> \<not> zombie q \<and>
     (a \<in> set (childs q) \<longleftrightarrow> \<not> zombie p) \<and> (a \<in> set (zombies q) \<longleftrightarrow> zombie p \<and> waitCount p = 0))"

definition tree_inv :: "store \<Rightarrow> bool" where
  "tree_inv pr \<longleftrightarrow>
     (\<exists>k. pr 0 = Some k \<and> p_pid k = 0 \<and> \<not> zombie k) \<and>
     (\<forall>a b p q. pr a = Some p \<and> pr b = Some q \<and> p_pid p = p_pid q \<longrightarrow> a = b) \<and>
     (\<forall>a p. pr a = Some p \<and> a \<noteq> 0 \<longrightarrow> has_parent pr a p) \<and>
     (\<forall>b q a. pr b = Some q \<and> a \<in> set (childs q) \<union> set (zombies q) \<longrightarrow> a \<noteq> 0 \<and> (\<exists>p. pr a = Some p \<and> p_ppid p = p_pid q)) \<and>
     (\<forall>b q. pr b = Some q \<longrightarrow> distinct (childs q) \<and> distinct (zombies q) \<and> (zombie q \<longrightarrow> childs q = [] \<and> zombies q = []))"

lemma tree_invD:
  assumes "tree_inv pr"
  shows "\<exists>k. pr 0 = Some k \<and> p_pid k = 0 \<and> \<not> zombie k"
    "\<And>a b p q. pr a = Some p \<Longrightarrow> pr b = Some q \<Longrightarrow> p_pid p = p_pid q \<Longrightarrow> a = b"
    "\<And>a p. pr a = Some p \<Longrightarrow> a \<noteq> 0 \<Longrightarrow> has_parent pr a p"
    "\<And>b q a. pr b = Some q \<Longrightarrow> a \<in> set (childs q) \<union> set (zombies q) \<Longrightarrow> a \<noteq> 0 \<and> (\<exists>p. pr a = Some p \<and> p_ppid p = p_pid q)"
    "\<And>b q. pr b = Some q \<Longrightarrow> distinct (childs q) \<and> distinct (zombies q) \<and> (zombie q \<longrightarrow> childs q = [] \<and> zombies q = [])"
  using assms unfolding tree_inv_def by blast+

lemma tree_invI:
  assumes "\<exists>k. pr 0 = Some k \<and> p_pid k = 0 \<and> \<not> zombie k"
    "\<And>a b p q. pr a = Some p \<Longrightarrow> pr b = Some q \<Longrightarrow> p_pid p = p_pid q \<Longrightarrow> a = b"
    "\<And>a p. pr a = Some p \<Longrightarrow> a \<noteq> 0 \<Longrightarrow> has_parent pr a p"
    "\<And>b q a. pr b = Some q \<Longrightarrow> a \<in> set (childs q) \<union> set (zombies q) \<Longrightarrow> a \<noteq> 0 \<and> (\<exists>p. pr a = Some p \<and> p_ppid p = p_pid q)"
    "\<And>b q. pr b = Some q \<Longrightarrow> distinct (childs q) \<and> distinct (zombies q) \<and> (zombie q \<longrightarrow> childs q = [] \<and> zombies q = [])"
  shows "tree_inv pr"
  unfolding tree_inv_def using assms by blast

text \<open>The parent is unique, and no other process lists the child.\<close>

lemma tree_parent:
  assumes "tree_inv pr" "pr a = Some p" "a \<noteq> 0" "pr b = Some q" "p_pid q = p_ppid p"
  shows "b \<noteq> a" "\<not> zombie q" "a \<in> set (childs q) \<longleftrightarrow> \<not> zombie p" "a \<in> set (zombies q) \<longleftrightarrow> zombie p \<and> waitCount p = 0"
  using tree_invD(3) [OF assms(1-3)] tree_invD(2) [OF assms(1) assms(4)] assms(4,5) unfolding has_parent_def by (metis option.inject)+

lemma tree_other_lists:
  assumes "tree_inv pr" "pr a = Some p" "pr b = Some q" "p_pid q = p_ppid p" "pr c = Some r" "a \<in> set (childs r) \<union> set (zombies r)"
  shows "c = b"
  using tree_invD(4) [OF assms(1,5,6)] tree_invD(2) [OF assms(1,5,3)] assms(2,4) by auto

text \<open>A change of one process that keeps its place in the tree.\<close>

lemma has_parent_cong:
  assumes "has_parent pr a p" "p_ppid p' = p_ppid p" "zombie p' = zombie p" "zombie p \<Longrightarrow> (waitCount p' = 0) = (waitCount p = 0)"
    "\<And>b q. pr b = Some q \<Longrightarrow> b \<noteq> a \<Longrightarrow> p_pid q = p_ppid p \<Longrightarrow> \<not> zombie q \<Longrightarrow> \<exists>q'. pr' b = Some q' \<and> p_pid q' = p_pid q \<and> \<not> zombie q' \<and>
      (a \<in> set (childs q') \<longleftrightarrow> a \<in> set (childs q)) \<and> (a \<in> set (zombies q') \<longleftrightarrow> a \<in> set (zombies q))"
  shows "has_parent pr' a p'"
proof -
  from assms(1) obtain b q where q: "b \<noteq> a" "pr b = Some q" "p_pid q = p_ppid p" "\<not> zombie q"
    "a \<in> set (childs q) \<longleftrightarrow> \<not> zombie p" "a \<in> set (zombies q) \<longleftrightarrow> zombie p \<and> waitCount p = 0" unfolding has_parent_def by blast
  from assms(5) [OF q(2,1,3,4)] obtain q' where "pr' b = Some q'" "p_pid q' = p_pid q" "\<not> zombie q'"
    "a \<in> set (childs q') \<longleftrightarrow> a \<in> set (childs q)" "a \<in> set (zombies q') \<longleftrightarrow> a \<in> set (zombies q)" by blast
  then show ?thesis unfolding has_parent_def using q assms(2-4) by (intro exI [of _ b] exI [of _ q']) auto
qed

lemma tree_wait:
  assumes "tree_inv pr" "pr a = Some p" "zombie p \<Longrightarrow> (n = 0) = (waitCount p = 0)"
  shows "tree_inv (pr(a \<mapsto> p\<lparr>waitCount := n\<rparr>))"
proof (rule tree_invI)
  let ?pr = "pr(a \<mapsto> p\<lparr>waitCount := n\<rparr>)"
  note D = tree_invD [OF assms(1)]
  show "\<exists>k. ?pr 0 = Some k \<and> p_pid k = 0 \<and> \<not> zombie k" using D(1) assms(2) by auto
  show "c = b" if h: "?pr c = Some q" "?pr b = Some r" "p_pid q = p_pid r" for c b q r
    using h D(2) assms(2) by (auto split: if_splits)
  show "has_parent ?pr c q" if h: "?pr c = Some q" "c \<noteq> 0" for c q
  proof -
    obtain q0 where q0: "pr c = Some q0" "p_ppid q = p_ppid q0" "zombie q = zombie q0" "zombie q0 \<Longrightarrow> (waitCount q = 0) = (waitCount q0 = 0)"
      using h(1) assms(2,3) by (cases "c = a") auto
    show ?thesis by (rule has_parent_cong [OF D(3) [OF q0(1) h(2)] q0(2-4)]) (use assms(2) in \<open>auto simp: fun_upd_apply\<close>)
  qed
  show "c \<noteq> 0 \<and> (\<exists>p. ?pr c = Some p \<and> p_ppid p = p_pid q)" if h: "?pr b = Some q" "c \<in> set (childs q) \<union> set (zombies q)" for b q c
  proof -
    obtain q0 where q0: "pr b = Some q0" "p_pid q = p_pid q0" "c \<in> set (childs q0) \<union> set (zombies q0)"
      using h assms(2) by (cases "b = a") auto
    from D(4) [OF q0(1,3)] show ?thesis using assms(2) q0(2) by auto
  qed
  show "distinct (childs q) \<and> distinct (zombies q) \<and> (zombie q \<longrightarrow> childs q = [] \<and> zombies q = [])" if h: "?pr b = Some q" for b q
    using h D(5) assms(2) by (auto split: if_splits)
qed

text \<open>A new process is a child of its parent.\<close>

lemma tree_create:
  assumes "tree_inv pr" "pr a = None" "pr b = Some q" "\<not> zombie q" "\<And>c r. pr c = Some r \<Longrightarrow> p_pid r \<noteq> pid" "pid \<noteq> 0"
  shows "tree_inv (pr(a \<mapsto> new_process pid (p_pid q), b \<mapsto> q\<lparr>childs := childs q @ [a]\<rparr>))"
proof (rule tree_invI)
  let ?q = "q\<lparr>childs := childs q @ [a]\<rparr>" let ?pr = "pr(a \<mapsto> new_process pid (p_pid q), b \<mapsto> ?q)"
  note D = tree_invD [OF assms(1)]
  have ab: "a \<noteq> b" "a \<noteq> 0" using assms(2,3) D(1) by (auto intro: gr0I)
  have na: "a \<notin> set (childs r) \<union> set (zombies r)" if h: "pr c = Some r" for c r using D(4) [OF h] assms(2) by fastforce
  show "\<exists>k. ?pr 0 = Some k \<and> p_pid k = 0 \<and> \<not> zombie k" using D(1) assms(3) ab by auto
  show "c = d" if h: "?pr c = Some r" "?pr d = Some t" "p_pid r = p_pid t" for c d r t
  proof -
    have *: "(c = a \<and> p_pid r = pid) \<or> (c \<noteq> a \<and> (\<exists>r0. pr c = Some r0 \<and> p_pid r0 = p_pid r))"
      "(d = a \<and> p_pid t = pid) \<or> (d \<noteq> a \<and> (\<exists>t0. pr d = Some t0 \<and> p_pid t0 = p_pid t))"
      using h assms(3) ab by (auto simp: new_process_def split: if_splits)
    show ?thesis using * h(3) assms(5) D(2) by metis
  qed
  show "has_parent ?pr c r" if h: "?pr c = Some r" "c \<noteq> 0" for c r
  proof (cases "c = a")
    case True
    then have "r = new_process pid (p_pid q)" using h ab by simp
    then show ?thesis using True ab assms(3,4) na [OF assms(3)] unfolding has_parent_def
      by (intro exI [of _ b] exI [of _ ?q]) (simp add: new_process_def)
  next
    case False
    then obtain r0 where r0: "pr c = Some r0" "p_ppid r = p_ppid r0" "zombie r = zombie r0" "waitCount r = waitCount r0"
      using h(1) assms(3) by (cases "c = b") auto
    show ?thesis
    proof (rule has_parent_cong [OF D(3) [OF r0(1) h(2)] r0(2,3)])
      fix d t assume "pr d = Some t" "d \<noteq> c" "p_pid t = p_ppid r0" "\<not> zombie t"
      then show "\<exists>q'. ?pr d = Some q' \<and> p_pid q' = p_pid t \<and> \<not> zombie q' \<and> (c \<in> set (childs q') \<longleftrightarrow> c \<in> set (childs t)) \<and>
          (c \<in> set (zombies q') \<longleftrightarrow> c \<in> set (zombies t))"
        using False assms(2,3) by (cases "d = b") auto
    qed (simp add: r0)
  qed
  show "c \<noteq> 0 \<and> (\<exists>p. ?pr c = Some p \<and> p_ppid p = p_pid r)" if h: "?pr d = Some r" "c \<in> set (childs r) \<union> set (zombies r)" for d r c
  proof (cases "c = a")
    case True
    have "d = b \<and> r = ?q"
    proof (cases "d = b")
      case False
      then have "d = a \<and> r = new_process pid (p_pid q) \<or> pr d = Some r" using h(1) by (auto split: if_splits)
      then show ?thesis using na [of d r] h(2) True by (auto simp: new_process_def)
    qed (use h in simp)
    then show ?thesis using True ab by (simp add: new_process_def)
  next
    case False
    obtain r0 where r0: "pr d = Some r0" "p_pid r = p_pid r0" "c \<in> set (childs r0) \<union> set (zombies r0)"
      using h assms(3) False ab by (auto simp: new_process_def split: if_splits)
    from D(4) [OF r0(1,3)] show ?thesis using assms(3) r0(2) False by auto
  qed
  show "distinct (childs r) \<and> distinct (zombies r) \<and> (zombie r \<longrightarrow> childs r = [] \<and> zombies r = [])" if h: "?pr d = Some r" for d r
    using h D(5) [of d r] D(5) [OF assms(3)] na [OF assms(3)] assms(4) by (auto simp: new_process_def split: if_splits)
qed

text \<open>A process without children leaves the tree.\<close>

lemma tree_remove:
  assumes "tree_inv pr" "pr a = Some p" "a \<noteq> 0" "pr b = Some q" "p_pid q = p_ppid p"
    "\<And>c r. pr c = Some r \<Longrightarrow> c \<noteq> 0 \<Longrightarrow> p_ppid r \<noteq> p_pid p"
  shows "tree_inv (pr(b \<mapsto> q\<lparr>childs := removeAll a (childs q), zombies := removeAll a (zombies q)\<rparr>, a := None))"
proof (rule tree_invI)
  let ?q = "q\<lparr>childs := removeAll a (childs q), zombies := removeAll a (zombies q)\<rparr>" let ?pr = "pr(b \<mapsto> ?q, a := None)"
  note D = tree_invD [OF assms(1)]
  have ab: "b \<noteq> a" using tree_parent(1) [OF assms(1-5)] .
  have old: "\<exists>r0. pr c = Some r0 \<and> p_pid r0 = p_pid r \<and> p_ppid r0 = p_ppid r \<and> zombie r0 = zombie r \<and> waitCount r0 = waitCount r \<and>
      set (childs r) = set (childs r0) - {a} \<and> set (zombies r) = set (zombies r0) - {a} \<and> c \<noteq> a" if h: "?pr c = Some r" for c r
  proof (cases "c = b")
    case False
    then have "pr c = Some r" "c \<noteq> a" using h by (auto split: if_splits)
    moreover have "a \<notin> set (childs r) \<union> set (zombies r)" using tree_other_lists [OF assms(1,2,4,5) calculation(1)] False by blast
    ultimately show ?thesis by auto
  qed (use h ab assms(4) in auto)
  have lists: "\<exists>r'. ?pr c = Some r' \<and> p_pid r' = p_pid r \<and> zombie r' = zombie r \<and> set (childs r') = set (childs r) - {a} \<and>
      set (zombies r') = set (zombies r) - {a}" if h: "pr c = Some r" "c \<noteq> a" for c r
  proof (cases "c = b")
    case False
    then have "a \<notin> set (childs r) \<union> set (zombies r)" using tree_other_lists [OF assms(1,2,4,5) h(1)] by blast
    then show ?thesis using h False by auto
  qed (use h ab assms(4) in auto)
  show "\<exists>k. ?pr 0 = Some k \<and> p_pid k = 0 \<and> \<not> zombie k" using D(1) assms(3,4) by auto
  show "c = d" if h: "?pr c = Some r" "?pr d = Some t" "p_pid r = p_pid t" for c d r t
  proof -
    from old [OF h(1)] old [OF h(2)] obtain r0 t0 where "pr c = Some r0" "pr d = Some t0" "p_pid r0 = p_pid t0" using h(3) by auto
    then show ?thesis by (rule D(2))
  qed
  show "has_parent ?pr c r" if h: "?pr c = Some r" "c \<noteq> 0" for c r
  proof -
    from old [OF h(1)] obtain r0 where r0: "pr c = Some r0" "p_ppid r = p_ppid r0" "zombie r = zombie r0" "waitCount r = waitCount r0" "c \<noteq> a" by auto
    show ?thesis
    proof (rule has_parent_cong [OF D(3) [OF r0(1) h(2)] r0(2,3)])
      fix d t assume d: "pr d = Some t" "d \<noteq> c" "p_pid t = p_ppid r0" "\<not> zombie t"
      have "d \<noteq> a" using assms(6) [OF r0(1) h(2)] d(1,3) assms(2) by auto
      from lists [OF d(1) this] obtain q' where q': "?pr d = Some q'" "p_pid q' = p_pid t" "zombie q' = zombie t"
        "set (childs q') = set (childs t) - {a}" "set (zombies q') = set (zombies t) - {a}" by blast
      show "\<exists>q'. ?pr d = Some q' \<and> p_pid q' = p_pid t \<and> \<not> zombie q' \<and> (c \<in> set (childs q') \<longleftrightarrow> c \<in> set (childs t)) \<and>
          (c \<in> set (zombies q') \<longleftrightarrow> c \<in> set (zombies t))"
        by (rule exI [of _ q']) (use q' d(4) r0(5) in simp)
    qed (simp add: r0)
  qed
  show "c \<noteq> 0 \<and> (\<exists>p. ?pr c = Some p \<and> p_ppid p = p_pid r)" if h: "?pr d = Some r" "c \<in> set (childs r) \<union> set (zombies r)" for d r c
  proof -
    from old [OF h(1)] obtain r0 where r0: "pr d = Some r0" "p_pid r = p_pid r0" "c \<in> set (childs r0) \<union> set (zombies r0)" "c \<noteq> a" using h(2) by auto
    from D(4) [OF r0(1,3)] show ?thesis using assms(4) r0(2,4) by auto
  qed
  show "distinct (childs r) \<and> distinct (zombies r) \<and> (zombie r \<longrightarrow> childs r = [] \<and> zombies r = [])" if h: "?pr d = Some r" for d r
    using h D(5) [of d r] D(5) [OF assms(4)] by (auto simp: distinct_removeAll split: if_splits)
qed

text \<open>A process gives its children to the kernel.\<close>

definition adopted :: "nat set \<Rightarrow> store \<Rightarrow> store" where
  "adopted C pr = (\<lambda>x. if x \<in> C then map_option (\<lambda>p. p\<lparr>p_ppid := 0\<rparr>) (pr x) else pr x)"

lemma tree_adopt:
  assumes "tree_inv pr" "pr a = Some p" "a \<noteq> 0" "pr 0 = Some k" "C = set (childs p) \<union> set (zombies p)"
    "\<And>c r. pr c = Some r \<Longrightarrow> c \<noteq> 0 \<Longrightarrow> p_ppid r = p_pid p \<Longrightarrow> c \<in> C"
  shows "tree_inv ((adopted C pr)(0 \<mapsto> k\<lparr>childs := childs p @ childs k, zombies := zombies p @ zombies k\<rparr>, a \<mapsto> p\<lparr>childs := [], zombies := []\<rparr>))"
proof (rule tree_invI)
  let ?k = "k\<lparr>childs := childs p @ childs k, zombies := zombies p @ zombies k\<rparr>" let ?p = "p\<lparr>childs := [], zombies := []\<rparr>"
  let ?pr = "(adopted C pr)(0 \<mapsto> ?k, a \<mapsto> ?p)"
  note D = tree_invD [OF assms(1)]
  have k: "p_pid k = 0" "\<not> zombie k" using D(1) assms(4) by auto
  have pk: "p_pid p \<noteq> 0" using D(2) [OF assms(2,4)] k assms(3) by auto
  have C: "c \<noteq> 0 \<and> c \<noteq> a \<and> (\<exists>r. pr c = Some r \<and> p_ppid r = p_pid p)" if h: "c \<in> C" for c
  proof -
    from D(4) [OF assms(2), of c] h assms(5) obtain r where r: "c \<noteq> 0" "pr c = Some r" "p_ppid r = p_pid p" by auto
    moreover have "c \<noteq> a" using tree_parent(1) [OF assms(1) r(2,1) assms(2)] r(3) by auto
    ultimately show ?thesis by blast
  qed
  have val: "?pr x = (if x = a then Some ?p else if x = 0 then Some ?k else if x \<in> C then map_option (\<lambda>p. p\<lparr>p_ppid := 0\<rparr>) (pr x) else pr x)" for x
    by (simp add: adopted_def)
  have old: "\<exists>r0. pr c = Some r0 \<and> p_pid r0 = p_pid r \<and> zombie r0 = zombie r \<and> waitCount r0 = waitCount r \<and>
      p_ppid r = (if c \<in> C then 0 else p_ppid r0)" if h: "?pr c = Some r" for c r
  proof -
    have "a \<notin> C" "0 \<notin> C" using C by blast+
    then show ?thesis using h C assms(2,3,4) unfolding val by (auto split: if_splits)
  qed
  have disj: "set (childs p) \<inter> set (childs k) = {}" "set (zombies p) \<inter> set (zombies k) = {}"
    using D(4) [OF assms(2)] D(4) [OF assms(4)] k pk by fastforce+
  show "\<exists>k. ?pr 0 = Some k \<and> p_pid k = 0 \<and> \<not> zombie k" using k assms(3) by simp
  show "c = d" if h: "?pr c = Some r" "?pr d = Some t" "p_pid r = p_pid t" for c d r t
  proof -
    from old [OF h(1)] old [OF h(2)] obtain r0 t0 where "pr c = Some r0" "pr d = Some t0" "p_pid r0 = p_pid t0" using h(3) by auto
    then show ?thesis by (rule D(2))
  qed
  show "has_parent ?pr c r" if h: "?pr c = Some r" "c \<noteq> 0" for c r
  proof -
    from old [OF h(1)] obtain r0 where r0: "pr c = Some r0" "zombie r = zombie r0" "waitCount r = waitCount r0" "p_ppid r = (if c \<in> C then 0 else p_ppid r0)" by auto
    show ?thesis
    proof (cases "c \<in> C")
      case True
      then have "p_ppid r0 = p_pid p" using C [of c] r0(1) by auto
      then have "c \<in> set (childs p) \<longleftrightarrow> \<not> zombie r0" "c \<in> set (zombies p) \<longleftrightarrow> zombie r0 \<and> waitCount r0 = 0" "c \<notin> set (childs k) \<union> set (zombies k)"
        using tree_parent [OF assms(1) r0(1) h(2) assms(2)] tree_other_lists [OF assms(1) r0(1) assms(2) _ assms(4), of] assms(3) by auto
      then show ?thesis unfolding has_parent_def using True h(2) r0 k assms(3) by (intro exI [of _ 0] exI [of _ ?k]) auto
    next
      case False
      have "p_ppid r = p_ppid r0" using False r0(4) by simp
      then show ?thesis
      proof (rule has_parent_cong [OF D(3) [OF r0(1) h(2)] _ r0(2)])
        fix d t assume d: "pr d = Some t" "d \<noteq> c" "p_pid t = p_ppid r0" "\<not> zombie t"
        have "d \<noteq> a" using assms(2) assms(6) [OF r0(1) h(2)] d(1,3) False by auto
        moreover have "c \<notin> set (childs p) \<union> set (zombies p)" using False assms(5) by simp
        ultimately show "\<exists>q'. ?pr d = Some q' \<and> p_pid q' = p_pid t \<and> \<not> zombie q' \<and> (c \<in> set (childs q') \<longleftrightarrow> c \<in> set (childs t)) \<and>
          (c \<in> set (zombies q') \<longleftrightarrow> c \<in> set (zombies t))" unfolding val using d assms(4) by auto
      qed (simp add: r0)
    qed
  qed
  show "c \<noteq> 0 \<and> (\<exists>p. ?pr c = Some p \<and> p_ppid p = p_pid r)" if h: "?pr d = Some r" "c \<in> set (childs r) \<union> set (zombies r)" for d r c
  proof -
    have "d \<noteq> a" using h by (auto simp: val)
    consider "d = 0" "c \<in> C" | t where "pr d = Some t" "p_pid r = p_pid t" "c \<in> set (childs t) \<union> set (zombies t)"
      using h assms(4,5) \<open>d \<noteq> a\<close> by (auto simp: adopted_def split: if_splits)
    then show ?thesis
    proof cases
      case 1
      then have "p_pid r = 0" using h(1) k assms(3) by (auto simp: val)
      then show ?thesis using C [OF 1(2)] 1(2) by (auto simp: adopted_def)
    next
      case 2
      have "c \<notin> C"
      proof
        assume "c \<in> C"
        then have "d = a" using C [of c] D(4) [OF 2(1,3)] D(2) [OF 2(1) assms(2)] by auto
        then show False using \<open>d \<noteq> a\<close> by simp
      qed
      with D(4) [OF 2(1,3)] show ?thesis using assms(2,3,4) 2(2) by (auto simp: adopted_def)
    qed
  qed
  show "distinct (childs r) \<and> distinct (zombies r) \<and> (zombie r \<longrightarrow> childs r = [] \<and> zombies r = [])" if h: "?pr d = Some r" for d r
    using h D(5) [of d] D(5) [OF assms(2)] D(5) [OF assms(4)] disj k unfolding val by (auto split: if_splits)
qed

text \<open>A process without children ends.\<close>

lemma tree_exit:
  assumes "tree_inv pr" "pr a = Some p" "a \<noteq> 0" "pr b = Some q" "p_pid q = p_ppid p" "\<not> zombie p" "childs p = []" "zombies p = []"
    "\<And>c r. pr c = Some r \<Longrightarrow> c \<noteq> 0 \<Longrightarrow> p_ppid r \<noteq> p_pid p"
  shows "tree_inv (pr(a \<mapsto> p\<lparr>exitCode := x, zombie := True\<rparr>, b \<mapsto> q\<lparr>childs := removeAll a (childs q),
      zombies := if waitCount p = 0 then zombies q @ [a] else zombies q\<rparr>))"
proof (rule tree_invI)
  let ?p = "p\<lparr>exitCode := x, zombie := True\<rparr>"
  let ?q = "q\<lparr>childs := removeAll a (childs q), zombies := if waitCount p = 0 then zombies q @ [a] else zombies q\<rparr>"
  let ?pr = "pr(a \<mapsto> ?p, b \<mapsto> ?q)"
  note D = tree_invD [OF assms(1)] and P = tree_parent [OF assms(1-5)]
  have val: "?pr c = (if c = b then Some ?q else if c = a then Some ?p else pr c)" for c by simp
  have na: "a \<notin> set (childs r) \<union> set (zombies r)" if h: "pr c = Some r" "c \<noteq> b" for c r
    using tree_other_lists [OF assms(1,2,4,5) h(1)] h(2) by blast
  have old: "\<exists>r0. pr c = Some r0 \<and> p_pid r0 = p_pid r \<and> p_ppid r0 = p_ppid r" if h: "?pr c = Some r" for c r
    using h assms(2,4) unfolding val by (auto split: if_splits)
  show "\<exists>k. ?pr 0 = Some k \<and> p_pid k = 0 \<and> \<not> zombie k" using D(1) assms(3,4) P(2) by auto
  show "c = d" if h: "?pr c = Some r" "?pr d = Some t" "p_pid r = p_pid t" for c d r t
  proof -
    from old [OF h(1)] old [OF h(2)] obtain r0 t0 where "pr c = Some r0" "pr d = Some t0" "p_pid r0 = p_pid t0" using h(3) by auto
    then show ?thesis by (rule D(2))
  qed
  show "has_parent ?pr c r" if h: "?pr c = Some r" "c \<noteq> 0" for c r
  proof (cases "c = a")
    case True
    then have "r = ?p" using h(1) P(1) by simp
    then show ?thesis unfolding has_parent_def using True P assms(5,6) by (intro exI [of _ b] exI [of _ ?q]) auto
  next
    case False
    then obtain r0 where r0: "pr c = Some r0" "p_ppid r = p_ppid r0" "zombie r = zombie r0" "waitCount r = waitCount r0"
      using h(1) assms(4) by (cases "c = b") auto
    show ?thesis
    proof (rule has_parent_cong [OF D(3) [OF r0(1) h(2)] r0(2,3)])
      fix d t assume d: "pr d = Some t" "d \<noteq> c" "p_pid t = p_ppid r0" "\<not> zombie t"
      have "d \<noteq> a" using assms(9) [OF r0(1) h(2)] d(1,3) assms(2) by auto
      then show "\<exists>q'. ?pr d = Some q' \<and> p_pid q' = p_pid t \<and> \<not> zombie q' \<and> (c \<in> set (childs q') \<longleftrightarrow> c \<in> set (childs t)) \<and>
          (c \<in> set (zombies q') \<longleftrightarrow> c \<in> set (zombies t))" using d assms(4) False unfolding val by (cases "d = b") auto
    qed (simp add: r0)
  qed
  show "c \<noteq> 0 \<and> (\<exists>p. ?pr c = Some p \<and> p_ppid p = p_pid r)" if h: "?pr d = Some r" "c \<in> set (childs r) \<union> set (zombies r)" for d r c
  proof (cases "c = a")
    case True
    then have "p_pid r = p_pid q" using h na [of d r] assms(7,8) unfolding val by (auto split: if_splits)
    then show ?thesis using True assms(3,5) P(1) by simp
  next
    case False
    then obtain t where t: "pr d = Some t" "p_pid r = p_pid t" "c \<in> set (childs t) \<union> set (zombies t)"
      using h assms(2,4) unfolding val by (auto split: if_splits)
    from D(4) [OF t(1,3)] show ?thesis using assms(4) t(2) False unfolding val by auto
  qed
  show "distinct (childs r) \<and> distinct (zombies r) \<and> (zombie r \<longrightarrow> childs r = [] \<and> zombies r = [])" if h: "?pr d = Some r" for d r
    using h D(5) [of d r] D(5) [OF assms(4)] P assms(6,7,8) unfolding val by (auto simp: distinct_removeAll split: if_splits)
qed

section \<open>Threads and the invariant\<close>

definition waiters :: "(nat \<Rightarrow> wait_state) \<Rightarrow> nat \<Rightarrow> nat set" where
  "waiters ws a = {th. ws th = JoinWait a \<or> ws th = JoinWoken a}"

definition thread_inv :: "store \<Rightarrow> (nat \<Rightarrow> nat) \<Rightarrow> (nat \<Rightarrow> wait_state) \<Rightarrow> bool" where
  "thread_inv pr tp ws \<longleftrightarrow>
     (\<forall>th. ws th \<noteq> Ended \<longrightarrow> (\<exists>p. pr (tp th) = Some p \<and> \<not> zombie p)) \<and>
     (\<forall>th th'. ws th \<noteq> Ended \<and> ws th' \<noteq> Ended \<and> tp th = tp th' \<and> tp th \<noteq> 0 \<longrightarrow> th = th') \<and>
     (\<forall>th a. th \<in> waiters ws a \<longrightarrow> a \<noteq> 0 \<and> (\<exists>p q. pr a = Some p \<and> pr (tp th) = Some q \<and> p_ppid p = p_pid q \<and>
        (zombie p \<longleftrightarrow> ws th = JoinWoken a))) \<and>
     (\<forall>a p. pr a = Some p \<longrightarrow> finite (waiters ws a) \<and> waitCount p = int (card (waiters ws a)))"

definition pt_inv :: "proc_table \<Rightarrow> bool" where
  "pt_inv s \<longleftrightarrow> tree_inv (proc s) \<and> thread_inv (proc s) (thr_proc s) (wstate s) \<and>
     (\<forall>pid a. processes s pid = Some a \<longleftrightarrow> (\<exists>p. proc s a = Some p \<and> p_pid p = pid)) \<and> pidCounter s \<le> PID_MAX"

lemma thread_invD:
  assumes "thread_inv pr tp ws"
  shows "\<And>th. ws th \<noteq> Ended \<Longrightarrow> \<exists>p. pr (tp th) = Some p \<and> \<not> zombie p"
    "\<And>th th'. ws th \<noteq> Ended \<Longrightarrow> ws th' \<noteq> Ended \<Longrightarrow> tp th = tp th' \<Longrightarrow> tp th \<noteq> 0 \<Longrightarrow> th = th'"
    "\<And>th a. th \<in> waiters ws a \<Longrightarrow> a \<noteq> 0 \<and> (\<exists>p q. pr a = Some p \<and> pr (tp th) = Some q \<and> p_ppid p = p_pid q \<and> (zombie p \<longleftrightarrow> ws th = JoinWoken a))"
    "\<And>a p. pr a = Some p \<Longrightarrow> finite (waiters ws a) \<and> waitCount p = int (card (waiters ws a))"
  using assms unfolding thread_inv_def by blast+

lemma thread_invI:
  assumes "\<And>th. ws th \<noteq> Ended \<Longrightarrow> \<exists>p. pr (tp th) = Some p \<and> \<not> zombie p"
    "\<And>th th'. ws th \<noteq> Ended \<Longrightarrow> ws th' \<noteq> Ended \<Longrightarrow> tp th = tp th' \<Longrightarrow> tp th \<noteq> 0 \<Longrightarrow> th = th'"
    "\<And>th a. th \<in> waiters ws a \<Longrightarrow> a \<noteq> 0 \<and> (\<exists>p q. pr a = Some p \<and> pr (tp th) = Some q \<and> p_ppid p = p_pid q \<and> (zombie p \<longleftrightarrow> ws th = JoinWoken a))"
    "\<And>a p. pr a = Some p \<Longrightarrow> finite (waiters ws a) \<and> waitCount p = int (card (waiters ws a))"
  shows "thread_inv pr tp ws"
  unfolding thread_inv_def using assms by blast

lemma pt_invD:
  assumes "pt_inv s"
  shows "tree_inv (proc s)" "thread_inv (proc s) (thr_proc s) (wstate s)"
    "\<And>pid a. processes s pid = Some a \<longleftrightarrow> (\<exists>p. proc s a = Some p \<and> p_pid p = pid)" "pidCounter s \<le> PID_MAX"
  using assms unfolding pt_inv_def by blast+

lemma pt_invI:
  assumes "tree_inv (proc s)" "thread_inv (proc s) (thr_proc s) (wstate s)"
    "\<And>pid a. processes s pid = Some a \<longleftrightarrow> (\<exists>p. proc s a = Some p \<and> p_pid p = pid)" "pidCounter s \<le> PID_MAX"
  shows "pt_inv s"
  using assms unfolding pt_inv_def by blast

lemma pget_Some [simp]: "proc s a = Some p \<Longrightarrow> pget a f s = f p"
  by (simp add: pget_def)

lemma pupd_Some [simp]: "proc s a = Some p \<Longrightarrow> pupd a f s = Inr (s\<lparr>proc := (proc s)(a \<mapsto> f p)\<rparr>)"
  by (simp add: pupd_def)

lemma pdelete_Some [simp]: "proc s a = Some p \<Longrightarrow> pdelete a s = Inr (s\<lparr>proc := (proc s)(a := None)\<rparr>)"
  by (simp add: pdelete_def)

lemma set_wstate_simps [simp]:
  "proc (set_wstate th w s) = proc s" "processes (set_wstate th w s) = processes s" "thr_proc (set_wstate th w s) = thr_proc s"
  "pidCounter (set_wstate th w s) = pidCounter s" "wstate (set_wstate th w s) = (wstate s)(th := w)"
  by (simp_all add: set_wstate_def)

text \<open>A thread that is not in \<^verbatim>\<open>waitpid\<close> for a given process moves to another such state.\<close>

definition quiet :: "wait_state \<Rightarrow> bool" where
  "quiet w \<longleftrightarrow> w = Running \<or> w = GenericWait \<or> w = GenericWoken"

lemma waiters_quiet: "\<not> (\<exists>b. ws th = JoinWait b \<or> ws th = JoinWoken b) \<Longrightarrow> quiet w \<or> w = Ended \<Longrightarrow> waiters (ws(th := w)) a = waiters ws a"
  by (auto simp: waiters_def quiet_def)

lemma thread_quiet:
  assumes "thread_inv pr tp ws" "quiet (ws th)" "quiet w"
  shows "thread_inv pr tp (ws(th := w))"
proof -
  note D = thread_invD [OF assms(1)]
  have W: "waiters (ws(th := w)) a = waiters ws a" for a by (rule waiters_quiet) (use assms(2,3) in \<open>auto simp: quiet_def\<close>)
  have n: "ws th \<noteq> Ended" "w \<noteq> Ended" "th \<notin> waiters ws a" for a using assms(2,3) by (auto simp: quiet_def waiters_def)
  show ?thesis
  proof (rule thread_invI, unfold W)
    show "\<exists>p. pr (tp t) = Some p \<and> \<not> zombie p" if h: "(ws(th := w)) t \<noteq> Ended" for t using D(1) h n by (cases "t = th") auto
    show "t = t'" if h: "(ws(th := w)) t \<noteq> Ended" "(ws(th := w)) t' \<noteq> Ended" "tp t = tp t'" "tp t \<noteq> 0" for t t'
    proof -
      have "ws t \<noteq> Ended" "ws t' \<noteq> Ended" using h(1,2) n(1) by (auto split: if_splits)
      then show ?thesis using D(2) h(3,4) by blast
    qed
    show "a \<noteq> 0 \<and> (\<exists>p q. pr a = Some p \<and> pr (tp t) = Some q \<and> p_ppid p = p_pid q \<and> (zombie p \<longleftrightarrow> (ws(th := w)) t = JoinWoken a))"
      if h: "t \<in> waiters ws a" for t a using D(3) [OF h] h n(3) by (cases "t = th") auto
  qed (rule D(4))
qed

text \<open>A change of the store that keeps every process that threads look at.\<close>

lemma thread_store:
  assumes "thread_inv pr tp ws"
    "\<And>a p. pr a = Some p \<Longrightarrow> (\<exists>th. ws th \<noteq> Ended \<and> tp th = a) \<or> waiters ws a \<noteq> {} \<Longrightarrow>
       \<exists>p'. pr' a = Some p' \<and> p_pid p' = p_pid p \<and> zombie p' = zombie p \<and> (waiters ws a \<noteq> {} \<longrightarrow> p_ppid p' = p_ppid p)"
    "\<And>a p'. pr' a = Some p' \<Longrightarrow> (\<exists>p. pr a = Some p \<and> waitCount p' = waitCount p) \<or> waiters ws a = {} \<and> waitCount p' = 0"
  shows "thread_inv pr' tp ws"
proof (rule thread_invI)
  note D = thread_invD [OF assms(1)]
  show "\<exists>p. pr' (tp th) = Some p \<and> \<not> zombie p" if h: "ws th \<noteq> Ended" for th
  proof -
    from D(1) [OF h] obtain p where "pr (tp th) = Some p" "\<not> zombie p" by blast
    then show ?thesis using assms(2) [of "tp th" p] h by auto
  qed
  show "th = th'" if h: "ws th \<noteq> Ended" "ws th' \<noteq> Ended" "tp th = tp th'" "tp th \<noteq> 0" for th th' using D(2) h by blast
  show "a \<noteq> 0 \<and> (\<exists>p q. pr' a = Some p \<and> pr' (tp th) = Some q \<and> p_ppid p = p_pid q \<and> (zombie p \<longleftrightarrow> ws th = JoinWoken a))"
    if h: "th \<in> waiters ws a" for th a
  proof -
    from D(3) [OF h] obtain p q where pq: "a \<noteq> 0" "pr a = Some p" "pr (tp th) = Some q" "p_ppid p = p_pid q" "zombie p \<longleftrightarrow> ws th = JoinWoken a" by blast
    have "ws th \<noteq> Ended" using h by (auto simp: waiters_def)
    with assms(2) [OF pq(3)] obtain q' where "pr' (tp th) = Some q'" "p_pid q' = p_pid q" by blast
    moreover have "waiters ws a \<noteq> {}" using h by blast
    with assms(2) [OF pq(2)] obtain p' where "pr' a = Some p'" "zombie p' = zombie p" "p_ppid p' = p_ppid p" by blast
    ultimately show ?thesis using pq(1,4,5) by simp
  qed
  show "finite (waiters ws a) \<and> waitCount p = int (card (waiters ws a))" if h: "pr' a = Some p" for a p
    using assms(3) [OF h] D(4) [of a] by auto
qed

section \<open>Creation\<close>

lemma no_waiters: "thread_inv pr tp ws \<Longrightarrow> pr a = None \<Longrightarrow> waiters ws a = {}"
  using thread_invD(3) by fastforce

lemma create_begin_spec:
  assumes "pt_inv s" "wstate s th = Running" "proc s a = None" "0 < f" "f \<le> PID_MAX" "processes s f = None"
  shows "\<exists>s' pid. create_begin th a s = Some (Inr (s', pid)) \<and> pt_inv s' \<and> 0 < pid \<and> processes s pid = None"
proof -
  note I = pt_invD [OF assms(1)]
  from getNewPid_spec [OF I(4) assms(4-6)] obtain s1 pid where g: "getNewPid s = Some (s1, pid)" "fresh_pid s s1 pid" by blast
  then have pid: "0 < pid" "processes s pid = None" "s1 = s\<lparr>pidCounter := pid_inc pid\<rparr>" by (auto simp: fresh_pid_def)
  define b where "b = thr_proc s th"
  from thread_invD(1) [OF I(2), of th] assms(2) obtain q where q: "proc s b = Some q" "\<not> zombie q" by (auto simp: b_def)
  have fresh: "p_pid r \<noteq> pid" if h: "proc s c = Some r" for c r
  proof
    assume "p_pid r = pid"
    then have "processes s pid = Some c" using I(3) h by blast
    then show False using pid(2) by simp
  qed
  have ab: "a \<noteq> b" using assms(3) q by auto
  let ?pr = "(proc s)(a \<mapsto> new_process pid (p_pid q), b \<mapsto> q\<lparr>childs := childs q @ [a]\<rparr>)"
  define s' where "s' = s1\<lparr>proc := ?pr, processes := (processes s)(pid \<mapsto> a)\<rparr>"
  have eq: "create_begin th a s = Some (Inr (s', pid))"
    using g(1) q ab pid(3) by (simp add: create_begin_def s'_def b_def [symmetric])
  have t1: "tree_inv ?pr" by (rule tree_create [OF I(1) assms(3) q]) (use pid(1) fresh in auto)
  have t2: "thread_inv ?pr (thr_proc s) (wstate s)"
    by (rule thread_store [OF I(2)]) (use q ab assms(3) no_waiters [OF I(2) assms(3)] in \<open>auto simp: new_process_def split: if_splits\<close>)
  have t3: "processes s' i = Some c \<longleftrightarrow> (\<exists>p. proc s' c = Some p \<and> p_pid p = i)" for i c
  proof (cases "c = a")
    case True
    have "processes s i \<noteq> Some a" using I(3) [of i a] assms(3) by simp
    then have "processes s' i = Some a \<longleftrightarrow> i = pid" by (simp add: s'_def)
    moreover have "proc s' a = Some (new_process pid (p_pid q))" using ab by (simp add: s'_def)
    ultimately show ?thesis using True by (auto simp: new_process_def)
  next
    case False
    then have "(\<exists>p. proc s' c = Some p \<and> p_pid p = i) \<longleftrightarrow> (\<exists>p. proc s c = Some p \<and> p_pid p = i)"
      using q(1) by (cases "c = b") (simp_all add: s'_def)
    moreover have "processes s' i = Some c \<longleftrightarrow> processes s i = Some c"
      using False pid(2) by (cases "i = pid") (simp_all add: s'_def)
    ultimately show ?thesis using I(3) [of i c] by simp
  qed
  have "pt_inv s'"
    by (rule pt_invI [OF _ _ t3]) (use t1 t2 in \<open>simp_all add: s'_def pid(3) pid_inc_le\<close>)
  then show ?thesis using eq pid(1,2) by blast
qed

lemma create_end_spec:
  assumes "pt_inv s" "proc s a = Some p" "\<not> zombie p" "a \<noteq> 0" "\<And>t. wstate s t \<noteq> Ended \<Longrightarrow> thr_proc s t \<noteq> a" "wstate s thr = Ended"
  shows "pt_inv (create_end a thr s)"
proof -
  note I = pt_invD [OF assms(1)] and D = thread_invD [OF pt_invD(2) [OF assms(1)]]
  let ?ws = "(wstate s)(thr := Running)" let ?tp = "(thr_proc s)(thr := a)"
  have W: "waiters ?ws c = waiters (wstate s) c" for c by (rule waiters_quiet) (use assms(6) in \<open>auto simp: quiet_def\<close>)
  have n: "thr \<notin> waiters (wstate s) c" for c using assms(6) by (auto simp: waiters_def)
  have "thread_inv (proc s) ?tp ?ws"
  proof (rule thread_invI, unfold W)
    show "\<exists>p. proc s (?tp t) = Some p \<and> \<not> zombie p" if h: "?ws t \<noteq> Ended" for t using h D(1) assms(2,3) by (cases "t = thr") auto
    show "t = t'" if h: "?ws t \<noteq> Ended" "?ws t' \<noteq> Ended" "?tp t = ?tp t'" "?tp t \<noteq> 0" for t t'
      using h D(2) [of t t'] assms(5) [of t] assms(5) [of t'] by (cases "t = thr"; cases "t' = thr") auto
    show "c \<noteq> 0 \<and> (\<exists>p q. proc s c = Some p \<and> proc s (?tp t) = Some q \<and> p_ppid p = p_pid q \<and> (zombie p \<longleftrightarrow> ?ws t = JoinWoken c))"
      if h: "t \<in> waiters (wstate s) c" for t c using D(3) [OF h] h n by (cases "t = thr") auto
  qed (rule D(4))
  then show ?thesis using I unfolding pt_inv_def by (simp add: create_end_def)
qed

section \<open>Processes that leave\<close>

lemma pids_delete:
  assumes "\<And>i c. ps i = Some c \<longleftrightarrow> (\<exists>p. pr c = Some p \<and> p_pid p = i)" "pr j = Some p" "pr b = Some q" "p_pid q' = p_pid q" "b \<noteq> j"
  shows "(ps(p_pid p := None)) i = Some c \<longleftrightarrow> (\<exists>r. (pr(b \<mapsto> q', j := None)) c = Some r \<and> p_pid r = i)"
proof -
  have "ps i = Some c \<and> i \<noteq> p_pid p \<longleftrightarrow> (\<exists>r. pr c = Some r \<and> p_pid r = i) \<and> c \<noteq> j"
  proof -
    have "ps (p_pid p) = Some j" using assms(1,2) by blast
    moreover have "ps i = Some c \<longleftrightarrow> (\<exists>r. pr c = Some r \<and> p_pid r = i)" by (rule assms(1))
    ultimately show ?thesis using assms(2) by (cases "c = j") auto
  qed
  moreover have "(\<exists>r. (pr(b \<mapsto> q', j := None)) c = Some r \<and> p_pid r = i) \<longleftrightarrow> (\<exists>r. pr c = Some r \<and> p_pid r = i) \<and> c \<noteq> j"
    using assms(3-5) by (cases "c = j"; cases "c = b") simp_all
  moreover have "(ps(p_pid p := None)) i = Some c \<longleftrightarrow> ps i = Some c \<and> i \<noteq> p_pid p" by simp
  ultimately show ?thesis by (simp only:)
qed

text \<open>A process leaves the table: it is deleted and taken off the lists of its parent. No thread is in it or waits for it.\<close>

lemma thread_remove:
  assumes "thread_inv pr tp ws" "pr b = Some q" "b \<noteq> j" "waiters ws j = {}" "\<And>t. ws t \<noteq> Ended \<Longrightarrow> tp t \<noteq> j"
  shows "thread_inv (pr(b \<mapsto> q\<lparr>childs := cs, zombies := zs\<rparr>, j := None)) tp ws"
proof (rule thread_store [OF assms(1)])
  let ?pr = "pr(b \<mapsto> q\<lparr>childs := cs, zombies := zs\<rparr>, j := None)"
  fix a p assume "pr a = Some p" "(\<exists>th. ws th \<noteq> Ended \<and> tp th = a) \<or> waiters ws a \<noteq> {}"
  then show "\<exists>p'. ?pr a = Some p' \<and> p_pid p' = p_pid p \<and> zombie p' = zombie p \<and> (waiters ws a \<noteq> {} \<longrightarrow> p_ppid p' = p_ppid p)"
    using assms(2-5) by (cases "a = b") auto
next
  fix a p' assume "(pr(b \<mapsto> q\<lparr>childs := cs, zombies := zs\<rparr>, j := None)) a = Some p'"
  then show "(\<exists>p. pr a = Some p \<and> waitCount p' = waitCount p) \<or> waiters ws a = {} \<and> waitCount p' = 0"
    using assms(2) by (auto split: if_splits)
qed

lemma zombie_no_children:
  assumes "tree_inv pr" "pr j = Some p" "zombie p" "pr c = Some r" "c \<noteq> 0"
  shows "p_ppid r \<noteq> p_pid p"
  using tree_parent(2) [OF assms(1,4,5,2)] assms(3) by auto

lemma create_fail_spec:
  assumes "pt_inv s" "proc s a = Some p" "\<not> zombie p" "a \<noteq> 0" "\<And>t. wstate s t \<noteq> Ended \<Longrightarrow> thr_proc s t \<noteq> a" "waitCount p = 0"
    "childs p = []" "zombies p = []" "proc s (thr_proc s th) = Some q" "p_pid q = p_ppid p"
  shows "\<exists>s'. create_fail th a s = Inr s' \<and> pt_inv s'"
proof -
  note I = pt_invD [OF assms(1)] and P = tree_parent [OF pt_invD(1) [OF assms(1)] assms(2,4,9,10)]
  let ?b = "thr_proc s th" let ?q = "q\<lparr>childs := removeAll a (childs q), zombies := removeAll a (zombies q)\<rparr>"
  have q: "?q = q\<lparr>childs := removeAll a (childs q)\<rparr>" using P assms(3) by (simp add: removeAll_id)
  let ?pr = "(proc s)(?b \<mapsto> ?q, a := None)"
  define s' where "s' = s\<lparr>processes := (processes s)(p_pid p := None), proc := ?pr\<rparr>"
  have "create_fail th a s = Inr s'"
    using assms(2,9) P(1) unfolding q by (simp add: create_fail_def s'_def q)
  moreover have W: "waiters (wstate s) a = {}" using thread_invD(4) [OF I(2) assms(2)] assms(6) by auto
  moreover have "p_ppid r \<noteq> p_pid p" if h: "proc s c = Some r" "c \<noteq> 0" for c r
  proof
    assume e: "p_ppid r = p_pid p"
    have "c \<notin> set (childs p)" "c \<notin> set (zombies p)" using assms(7,8) by simp_all
    then have "waitCount r \<noteq> 0" using tree_parent [OF I(1) h assms(2)] e by auto
    then obtain t where t: "t \<in> waiters (wstate s) c" using thread_invD(4) [OF I(2) h(1)] by fastforce
    with thread_invD(3) [OF I(2) t] obtain u where "proc s (thr_proc s t) = Some u" "p_pid u = p_pid p" using h(1) e by auto
    then have "thr_proc s t = a" using tree_invD(2) [OF I(1)] assms(2) by blast
    moreover have "wstate s t \<noteq> Ended" using t by (auto simp: waiters_def)
    ultimately show False using assms(5) by blast
  qed
  then have "tree_inv ?pr" by (rule tree_remove [OF I(1) assms(2,4,9,10)])
  moreover have "thread_inv ?pr (thr_proc s) (wstate s)" by (rule thread_remove [OF I(2) assms(9) P(1) W assms(5)])
  moreover have "processes s' i = Some c \<longleftrightarrow> (\<exists>r. proc s' c = Some r \<and> p_pid r = i)" for i c
    using pids_delete [OF I(3) assms(2,9) _ P(1), of ?q] by (simp add: s'_def)
  ultimately show ?thesis using I(4) unfolding pt_inv_def by (auto simp: s'_def)
qed

section \<open>Waiting\<close>

lemma zombie_no_thread: "thread_inv pr tp ws \<Longrightarrow> pr j = Some p \<Longrightarrow> zombie p \<Longrightarrow> ws t \<noteq> Ended \<Longrightarrow> tp t \<noteq> j"
  using thread_invD(1) [of pr tp ws t] by auto

text \<open>The common end of the waits: \<open>pr\<close> is the store in which the tree is whole, \<open>n\<close> the count of those that still wait for the zombie \<open>j\<close>.\<close>

lemma wait_finish_spec:
  assumes "tree_inv pr" "pr j = Some p" "zombie p" "j \<noteq> 0" "pr (thr_proc s th) = Some q" "p_pid q = p_ppid p"
    "proc s = pr(j \<mapsto> p\<lparr>waitCount := n\<rparr>)" "thread_inv (proc s) (thr_proc s) (wstate s)" "n \<noteq> 0 \<Longrightarrow> waitCount p \<noteq> 0"
    "\<And>i c. processes s i = Some c \<longleftrightarrow> (\<exists>p. pr c = Some p \<and> p_pid p = i)" "pidCounter s \<le> PID_MAX"
  shows "\<exists>s'. wait_finish th j s = Inr (s', if n = 0 then Returns (p_pid p) (Some (exitCode p)) else Returns (-1) None) \<and> pt_inv s' \<and>
    (n = 0 \<longrightarrow> proc s' j = None \<and> processes s' (p_pid p) = None)"
proof (cases "n = 0")
  case False
  then have "tree_inv (proc s)" using tree_wait [OF assms(1,2), of n] assms(7,9) by simp
  moreover have "processes s i = Some c \<longleftrightarrow> (\<exists>p. proc s c = Some p \<and> p_pid p = i)" for i c
    using assms(10) [of i c] assms(2) unfolding assms(7) by (cases "c = j") auto
  ultimately have "pt_inv s" using assms(8,11) by (intro pt_invI)
  then show ?thesis using False assms(7) by (simp add: wait_finish_def)
next
  case True
  let ?b = "thr_proc s th" let ?q = "q\<lparr>childs := removeAll j (childs q), zombies := removeAll j (zombies q)\<rparr>"
  note P = tree_parent [OF assms(1,2,4,5,6)]
  have q: "?q = q\<lparr>zombies := removeAll j (zombies q)\<rparr>" using P(3) assms(3) by (simp add: removeAll_id)
  let ?pr = "pr(?b \<mapsto> ?q, j := None)"
  define s' where "s' = s\<lparr>proc := ?pr, processes := (processes s)(p_pid p := None)\<rparr>"
  have same: "(pr(j \<mapsto> p\<lparr>waitCount := n\<rparr>))(?b \<mapsto> x, j := None) = pr(?b \<mapsto> x, j := None)" for x by (auto simp: fun_eq_iff)
  have "wait_finish th j s = Inr (s', Returns (p_pid p) (Some (exitCode p)))"
    using assms(5,7) P(1) True same unfolding s'_def q by (simp add: wait_finish_def)
  moreover have "pt_inv s'"
  proof (rule pt_invI)
    show "tree_inv (proc s')" using tree_remove [OF assms(1,2,4,5,6) zombie_no_children [OF assms(1,2,3)]] by (simp add: s'_def)
    have W: "waiters (wstate s) j = {}" using thread_invD(4) [OF assms(8), of j] assms(7) True by auto
    have z: "proc s j = Some (p\<lparr>waitCount := n\<rparr>)" "zombie (p\<lparr>waitCount := n\<rparr>)" using assms(3,7) by simp_all
    have "proc s ?b = Some q" using assms(5,7) P(1) by simp
    from thread_remove [OF assms(8) this P(1) W zombie_no_thread [OF assms(8) z]]
    have "thread_inv ((proc s)(?b \<mapsto> ?q, j := None)) (thr_proc s) (wstate s)" by simp
    then show "thread_inv (proc s') (thr_proc s') (wstate s')" unfolding assms(7) same by (simp add: s'_def)
    show "processes s' i = Some c \<longleftrightarrow> (\<exists>r. proc s' c = Some r \<and> p_pid r = i)" for i c
      using pids_delete [OF assms(10,2,5) _ P(1), of ?q] by (simp add: s'_def)
  qed (simp add: s'_def assms(11))
  moreover have "proc s' j = None" "processes s' (p_pid p) = None" by (simp_all add: s'_def)
  ultimately show ?thesis using True by auto
qed

text \<open>What a part of \<^verbatim>\<open>waitpid\<close> tells its caller: a returned pid is that of a child that has ended, with its exit code; the child
  is deleted and its pid is free again.\<close>

definition wait_ok :: "proc_table \<Rightarrow> nat \<Rightarrow> proc_table \<Rightarrow> wait_result \<Rightarrow> bool" where
  "wait_ok s th s' r \<longleftrightarrow> (\<forall>pid code. r = Returns pid (Some code) \<longrightarrow>
     (\<exists>j p q. proc s j = Some p \<and> zombie p \<and> p_pid p = pid \<and> exitCode p = code \<and> proc s (thr_proc s th) = Some q \<and>
        p_ppid p = p_pid q \<and> proc s' j = None \<and> processes s' pid = None))"

lemma wait_okI:
  "proc s j = Some p \<Longrightarrow> zombie p \<Longrightarrow> proc s (thr_proc s th) = Some q \<Longrightarrow> p_ppid p = p_pid q \<Longrightarrow> proc s' j = None \<Longrightarrow>
     processes s' (p_pid p) = None \<Longrightarrow> wait_ok s th s' (Returns (p_pid p) (Some (exitCode p)))"
  unfolding wait_ok_def by blast

lemma wait_generic_spec:
  assumes "pt_inv s" "quiet (wstate s th)"
  shows "\<exists>s' r. wait_generic th s = Inr (s', r) \<and> pt_inv s' \<and> wait_ok s th s' r"
proof -
  note I = pt_invD [OF assms(1)]
  let ?b = "thr_proc s th"
  have "wstate s th \<noteq> Ended" using assms(2) by (auto simp: quiet_def)
  then obtain q where q: "proc s ?b = Some q" using thread_invD(1) [OF I(2)] by blast
  have move: "pt_inv (set_wstate th w s)" if h: "quiet w" for w
    using I thread_quiet [OF I(2) assms(2) h] unfolding pt_inv_def by simp
  show ?thesis
  proof (cases "zombies q")
    case Nil
    then show ?thesis using q move [of Running] move [of GenericWait]
      by (cases "childs q = []") (auto simp: wait_generic_def quiet_def wait_ok_def)
  next
    case (Cons j zs)
    then obtain p where p: "j \<noteq> 0" "proc s j = Some p" "p_ppid p = p_pid q" using tree_invD(4) [OF I(1) q, of j] by auto
    note P = tree_parent [OF I(1) p(2,1) q p(3) [symmetric]]
    have z: "zombie p" "waitCount p = 0" using P(4) Cons by simp_all
    let ?q = "q\<lparr>zombies := zs\<rparr>" let ?pr = "(proc s)(?b \<mapsto> ?q, j := None)"
    have eq: "q\<lparr>childs := removeAll j (childs q), zombies := removeAll j (zombies q)\<rparr> = ?q"
      using P(3) z(1) Cons tree_invD(5) [OF I(1) q] by (simp add: removeAll_id)
    define s' where "s' = (set_wstate th Running s)\<lparr>proc := ?pr, processes := (processes s)(p_pid p := None)\<rparr>"
    have r: "wait_generic th s = Inr (s', Returns (p_pid p) (Some (exitCode p)))"
      using q Cons p(2) P(1) z(2) by (simp add: wait_generic_def s'_def)
    have "pt_inv s'"
    proof (rule pt_invI)
      show "tree_inv (proc s')" using tree_remove [OF I(1) p(2,1) q p(3) [symmetric] zombie_no_children [OF I(1) p(2) z(1)]] eq by (simp add: s'_def)
      have t: "thread_inv (proc s) (thr_proc s) ((wstate s)(th := Running))" by (rule thread_quiet [OF I(2) assms(2)]) (simp add: quiet_def)
      have W: "waiters ((wstate s)(th := Running)) j = {}" using thread_invD(4) [OF t p(2)] z(2) by auto
      from thread_remove [OF t q P(1) W zombie_no_thread [OF t p(2) z(1)], where cs = "childs q" and zs = zs] show "thread_inv (proc s') (thr_proc s') (wstate s')"
        by (simp add: s'_def)
      show "processes s' i = Some c \<longleftrightarrow> (\<exists>r. proc s' c = Some r \<and> p_pid r = i)" for i c
        using pids_delete [OF I(3) p(2) q _ P(1), of ?q] by (simp add: s'_def)
    qed (simp add: s'_def I(4))
    moreover have "wait_ok s th s' (Returns (p_pid p) (Some (exitCode p)))"
      by (rule wait_okI [OF p(2) z(1) q p(3)]) (simp_all add: s'_def)
    ultimately show ?thesis using r by blast
  qed
qed

text \<open>A thread starts to wait for \<open>j\<close>, or stops to.\<close>

lemma thread_recount:
  assumes "thread_inv pr tp ws" "pr j = Some p" "ws th \<noteq> Ended" "w \<noteq> Ended"
    and W: "\<And>c. c \<noteq> j \<Longrightarrow> waiters (ws(th := w)) c = waiters ws c" "finite (waiters (ws(th := w)) j)"
    and n: "n = int (card (waiters (ws(th := w)) j))"
    and J: "\<And>t. t \<in> waiters (ws(th := w)) j \<Longrightarrow> j \<noteq> 0 \<and> (\<exists>q. pr (tp t) = Some q \<and> p_ppid p = p_pid q \<and> (zombie p \<longleftrightarrow> (ws(th := w)) t = JoinWoken j))"
    and O: "\<And>c. c \<noteq> j \<Longrightarrow> th \<notin> waiters ws c"
  shows "thread_inv (pr(j \<mapsto> p\<lparr>waitCount := n\<rparr>)) tp (ws(th := w))"
proof (rule thread_invI)
  note D = thread_invD [OF assms(1)]
  let ?ws = "ws(th := w)" let ?pr = "pr(j \<mapsto> p\<lparr>waitCount := n\<rparr>)"
  show "\<exists>p. ?pr (tp t) = Some p \<and> \<not> zombie p" if h: "?ws t \<noteq> Ended" for t
  proof -
    have "ws t \<noteq> Ended" using h assms(3) by (cases "t = th") auto
    then show ?thesis using D(1) [of t] assms(2) by (cases "tp t = j") auto
  qed
  show "t = t'" if h: "?ws t \<noteq> Ended" "?ws t' \<noteq> Ended" "tp t = tp t'" "tp t \<noteq> 0" for t t'
  proof -
    have "ws t \<noteq> Ended" "ws t' \<noteq> Ended" using h(1,2) assms(3) by (auto split: if_splits)
    then show ?thesis using D(2) h(3,4) by blast
  qed
  show "c \<noteq> 0 \<and> (\<exists>p q. ?pr c = Some p \<and> ?pr (tp t) = Some q \<and> p_ppid p = p_pid q \<and> (zombie p \<longleftrightarrow> ?ws t = JoinWoken c))"
    if h: "t \<in> waiters ?ws c" for t c
  proof (cases "c = j")
    case True
    with J [of t] h obtain q where q: "j \<noteq> 0" "pr (tp t) = Some q" "p_ppid p = p_pid q" "zombie p \<longleftrightarrow> ?ws t = JoinWoken j" by blast
    then show ?thesis using True assms(2) by (cases "tp t = j") auto
  next
    case False
    then have t: "t \<in> waiters ws c" "t \<noteq> th" using h W(1) O by auto
    from D(3) [OF t(1)] obtain p' q where "c \<noteq> 0" "pr c = Some p'" "pr (tp t) = Some q" "p_ppid p' = p_pid q" "zombie p' \<longleftrightarrow> ws t = JoinWoken c" by blast
    then show ?thesis using False t(2) assms(2) by (cases "tp t = j") auto
  qed
  show "finite (waiters ?ws c) \<and> waitCount r = int (card (waiters ?ws c))" if h: "?pr c = Some r" for c r
    using h W n D(4) [of c] by (cases "c = j") auto
qed

lemma thread_wait:
  assumes "thread_inv pr tp ws" "pr j = Some p" "ws th = Running" "\<not> zombie p" "j \<noteq> 0" "pr (tp th) = Some q" "p_ppid p = p_pid q"
  shows "thread_inv (pr(j \<mapsto> p\<lparr>waitCount := waitCount p + 1\<rparr>)) tp (ws(th := JoinWait j))"
proof -
  note D = thread_invD [OF assms(1)]
  have W: "waiters (ws(th := JoinWait j)) c = (if c = j then insert th (waiters ws j) else waiters ws c)" for c
    using assms(3) by (auto simp: waiters_def)
  have n: "th \<notin> waiters ws c" for c using assms(3) by (simp add: waiters_def)
  have c: "finite (waiters ws j)" "waitCount p = int (card (waiters ws j))" using D(4) [OF assms(2)] by simp_all
  show ?thesis
  proof (rule thread_recount [OF assms(1,2)])
    fix t assume "t \<in> waiters (ws(th := JoinWait j)) j"
    then show "j \<noteq> 0 \<and> (\<exists>q. pr (tp t) = Some q \<and> p_ppid p = p_pid q \<and> (zombie p \<longleftrightarrow> (ws(th := JoinWait j)) t = JoinWoken j))"
      using D(3) [of t j] assms(2,4-7) n unfolding W by (cases "t = th") auto
  qed (use W n c assms(3) in auto)
qed

lemma thread_unwait:
  assumes "thread_inv pr tp ws" "pr j = Some p" "ws th = JoinWoken j"
  shows "thread_inv (pr(j \<mapsto> p\<lparr>waitCount := waitCount p - 1\<rparr>)) tp (ws(th := Running))" "0 < waitCount p"
proof -
  note D = thread_invD [OF assms(1)]
  have th: "th \<in> waiters ws j" using assms(3) by (simp add: waiters_def)
  have W: "waiters (ws(th := Running)) c = (if c = j then waiters ws j - {th} else waiters ws c)" for c
    using assms(3) by (auto simp: waiters_def)
  have c: "finite (waiters ws j)" "waitCount p = int (card (waiters ws j))" using D(4) [OF assms(2)] by simp_all
  have pos: "0 < card (waiters ws j)" using th c(1) card_gt_0_iff by blast
  then show "0 < waitCount p" using c(2) by simp
  show "thread_inv (pr(j \<mapsto> p\<lparr>waitCount := waitCount p - 1\<rparr>)) tp (ws(th := Running))"
  proof (rule thread_recount [OF assms(1,2)])
    fix t assume "t \<in> waiters (ws(th := Running)) j"
    then show "j \<noteq> 0 \<and> (\<exists>q. pr (tp t) = Some q \<and> p_ppid p = p_pid q \<and> (zombie p \<longleftrightarrow> (ws(th := Running)) t = JoinWoken j))"
      using D(3) [of t j] assms(2) unfolding W by auto
  next
    show "waitCount p - 1 = int (card (waiters (ws(th := Running)) j))"
      using c th pos unfolding W by (simp add: card_Diff_singleton of_nat_diff)
  qed (use W c assms(3) in \<open>auto simp: waiters_def\<close>)
qed

lemma waitpid_begin_spec:
  assumes "pt_inv s" "wstate s th = Running"
  shows "\<exists>s' r. waitpid_begin th pid nohang s = Inr (s', r) \<and> pt_inv s' \<and> wait_ok s th s' r"
proof -
  note I = pt_invD [OF assms(1)]
  let ?b = "thr_proc s th"
  obtain q where q: "proc s ?b = Some q" using thread_invD(1) [OF I(2), of th] assms(2) by auto
  have same: "\<exists>s' r. Inr (s, Returns n None) = Inr (s', r) \<and> pt_inv s' \<and> wait_ok s th s' r" for n :: int
    using assms(1) by (simp add: wait_ok_def)
  show ?thesis
  proof (cases "pid \<le> 0")
    case True
    have "quiet (wstate s th)" using assms(2) by (simp add: quiet_def)
    from wait_generic_spec [OF assms(1) this] same show ?thesis using True q by (simp add: waitpid_begin_def)
  next
    case False
    show ?thesis
    proof (cases "processes s pid")
      case None
      then show ?thesis using False q same by (simp add: waitpid_begin_def)
    next
      case (Some j)
      then obtain p where p: "proc s j = Some p" "p_pid p = pid" using I(3) by blast
      have j0: "j \<noteq> 0"
      proof
        assume "j = 0"
        then show False using tree_invD(1) [OF I(1)] p False by auto
      qed
      show ?thesis
      proof (cases "p_ppid p \<noteq> p_pid q \<or> pid = p_pid q")
        case True
        then show ?thesis using False q Some p same by (simp add: waitpid_begin_def)
      next
        case mine: False
        then have pp: "p_ppid p = p_pid q" by simp
        show ?thesis
        proof (cases "zombie p")
          case True
          have e: "proc s = (proc s)(j \<mapsto> p\<lparr>waitCount := waitCount p\<rparr>)" using p(1) by (simp add: fun_upd_idem)
          have "waitpid_begin th pid nohang s = wait_finish th j s"
            using False q Some p(1) mine True by (simp add: waitpid_begin_def)
          moreover from wait_finish_spec [OF I(1) p(1) True j0 q pp [symmetric] e I(2) _ I(3,4)] obtain s' where
            "wait_finish th j s = Inr (s', if waitCount p = 0 then Returns (p_pid p) (Some (exitCode p)) else Returns (-1) None)"
            "pt_inv s'" "waitCount p = 0 \<longrightarrow> proc s' j = None \<and> processes s' (p_pid p) = None" by blast
          ultimately show ?thesis using wait_okI [OF p(1) True q pp] by (auto simp: wait_ok_def)
        next
          case alive: False
          show ?thesis
          proof (cases nohang)
            case True
            then show ?thesis using False q Some p(1) mine alive same by (simp add: waitpid_begin_def)
          next
            case block: False
            define s' where "s' = set_wstate th (JoinWait j) (s\<lparr>proc := (proc s)(j \<mapsto> p\<lparr>waitCount := waitCount p + 1\<rparr>)\<rparr>)"
            have "waitpid_begin th pid nohang s = Inr (s', Blocks)"
              using False q Some p(1) mine alive block by (simp add: waitpid_begin_def s'_def)
            moreover have "pt_inv s'"
            proof (rule pt_invI)
              show "tree_inv (proc s')" using tree_wait [OF I(1) p(1)] alive by (simp add: s'_def)
              show "thread_inv (proc s') (thr_proc s') (wstate s')"
                using thread_wait [OF I(2) p(1) assms(2) alive j0 q pp] by (simp add: s'_def)
              show "processes s' i = Some c \<longleftrightarrow> (\<exists>r. proc s' c = Some r \<and> p_pid r = i)" for i c
                using I(3) [of i c] p(1) by (cases "c = j") (auto simp: s'_def)
            qed (simp add: s'_def I(4))
            ultimately show ?thesis by (auto simp: wait_ok_def)
          qed
        qed
      qed
    qed
  qed
qed

lemma waitpid_resume_spec:
  assumes "pt_inv s" "wstate s th = GenericWoken \<or> (\<exists>j. wstate s th = JoinWoken j)"
  shows "\<exists>s' r. waitpid_resume th s = Inr (s', r) \<and> pt_inv s' \<and> wait_ok s th s' r"
proof (cases "wstate s th = GenericWoken")
  case True
  then show ?thesis using wait_generic_spec [OF assms(1), of th] by (simp add: waitpid_resume_def quiet_def)
next
  case False
  then obtain j where j: "wstate s th = JoinWoken j" using assms(2) by blast
  note I = pt_invD [OF assms(1)]
  have "th \<in> waiters (wstate s) j" using j by (simp add: waiters_def)
  from thread_invD(3) [OF I(2) this] j obtain p q where p: "j \<noteq> 0" "proc s j = Some p" "proc s (thr_proc s th) = Some q" "p_ppid p = p_pid q" "zombie p" by auto
  define s1 where "s1 = (set_wstate th Running s)\<lparr>proc := (proc s)(j \<mapsto> p\<lparr>waitCount := waitCount p - 1\<rparr>)\<rparr>"
  note T = thread_unwait [OF I(2) p(2) j]
  have "waitpid_resume th s = wait_finish th j s1" using j p(2,5) T(2) by (simp add: waitpid_resume_def s1_def)
  moreover have "\<exists>s'. wait_finish th j s1 = Inr (s', if waitCount p - 1 = 0 then Returns (p_pid p) (Some (exitCode p)) else Returns (-1) None) \<and>
      pt_inv s' \<and> (waitCount p - 1 = 0 \<longrightarrow> proc s' j = None \<and> processes s' (p_pid p) = None)"
    by (rule wait_finish_spec [OF I(1) p(2,5,1)]) (use p T I(3,4) in \<open>simp_all add: s1_def\<close>)
  ultimately show ?thesis using wait_okI [OF p(2,5,3,4)] by (auto simp: wait_ok_def)
qed

section \<open>The end of a process\<close>

lemma adopt_spec:
  "\<forall>c\<in>set cs. \<exists>p. proc s c = Some p \<Longrightarrow> adopt cs s = Inr (s\<lparr>proc := adopted (set cs) (proc s)\<rparr>)"
proof (induction cs arbitrary: s)
  case Nil
  then show ?case by (simp add: adopted_def)
next
  case (Cons c cs)
  then obtain p where p: "proc s c = Some p" by auto
  let ?s = "s\<lparr>proc := (proc s)(c \<mapsto> p\<lparr>p_ppid := 0\<rparr>)\<rparr>"
  have "\<forall>c\<in>set cs. \<exists>p. proc ?s c = Some p" using Cons.prems by auto
  from Cons.IH [OF this] have "adopt (c # cs) s = Inr (?s\<lparr>proc := adopted (set cs) (proc ?s)\<rparr>)" using p by (simp del: fun_upd_apply)
  moreover have "adopted (set cs) (proc ?s) = adopted (set (c # cs)) (proc s)" using p by (auto simp: adopted_def fun_eq_iff)
  ultimately show ?case by simp
qed

lemma adopted_Un: "adopted A (adopted B pr) = adopted (B \<union> A) pr"
  by (auto simp: adopted_def fun_eq_iff option.map_comp comp_def)

text \<open>The only thread of a process that ends does not wait, so nobody waits for its children.\<close>

lemma exiting_children:
  assumes "tree_inv pr" "thread_inv pr tp ws" "ws th = Running" "tp th = a" "a \<noteq> 0" "pr a = Some p" "pr c = Some r" "c \<noteq> 0" "p_ppid r = p_pid p"
  shows "c \<in> set (childs p) \<union> set (zombies p)" "waiters ws c = {}"
proof -
  show W: "waiters ws c = {}"
  proof (rule ccontr)
    assume "waiters ws c \<noteq> {}"
    then obtain t where t: "t \<in> waiters ws c" by blast
    with thread_invD(3) [OF assms(2) t] assms(7,9) obtain q where "pr (tp t) = Some q" "p_pid q = p_pid p" by auto
    then have "tp t = a" using tree_invD(2) [OF assms(1)] assms(6) by blast
    moreover have "ws t \<noteq> Ended" using t by (auto simp: waiters_def)
    ultimately have "t = th" using thread_invD(2) [OF assms(2), of t th] assms(3,4,5) by simp
    then show False using t assms(3) by (simp add: waiters_def)
  qed
  then have "waitCount r = 0" using thread_invD(4) [OF assms(2,7)] by simp
  then show "c \<in> set (childs p) \<union> set (zombies p)" using tree_parent(3,4) [OF assms(1,7,8,6)] assms(9) by auto
qed

text \<open>Threads, when process \<open>a\<close> ends: its thread is over, those that wait for it are woken if there are any, or else those that wait for any child.\<close>

lemma process_thread_inv:
  assumes T: "thread_inv pr tp ws" and "ws th = Running" "tp th = a" "a \<noteq> 0" "pr a = Some p"
    and ws': "\<And>t. ws' t = (if t = th then Ended else if ws t = JoinWait a then JoinWoken a else if ws t = GenericWait then g else ws t)" "g = GenericWait \<or> g = GenericWoken"
    and pr': "pr' a = Some p'" "zombie p'" "p_ppid p' = p_ppid p" "waitCount p' = waitCount p" "p_pid p' = p_pid p"
      "\<And>c r. pr c = Some r \<Longrightarrow> c \<noteq> a \<Longrightarrow> \<exists>r'. pr' c = Some r' \<and> p_pid r' = p_pid r \<and> zombie r' = zombie r \<and> waitCount r' = waitCount r \<and> (waiters ws c \<noteq> {} \<longrightarrow> p_ppid r' = p_ppid r)"
      "\<And>c. pr c = None \<Longrightarrow> pr' c = None"
    and nz: "\<not> zombie p"
  shows "thread_inv pr' tp ws'"
proof (rule thread_invI)
  note D = thread_invD [OF T]
  have W: "waiters ws' c = waiters ws c" for c using ws' assms(2) by (auto simp: waiters_def split: if_splits)
  have live: "ws t \<noteq> Ended \<and> t \<noteq> th" if h: "ws' t \<noteq> Ended" for t using h ws' by (auto split: if_splits)
  have out: "tp t \<noteq> a" if h: "ws' t \<noteq> Ended" for t using D(2) [of t th] live [OF h] assms(2-4) by auto
  show "\<exists>p. pr' (tp t) = Some p \<and> \<not> zombie p" if h: "ws' t \<noteq> Ended" for t
  proof -
    from D(1) live [OF h] obtain r where "pr (tp t) = Some r" "\<not> zombie r" by blast
    then show ?thesis using pr'(6) [of "tp t" r] out [OF h] by auto
  qed
  show "t = t'" if h: "ws' t \<noteq> Ended" "ws' t' \<noteq> Ended" "tp t = tp t'" "tp t \<noteq> 0" for t t'
    using D(2) live [OF h(1)] live [OF h(2)] h(3,4) by blast
  show "c \<noteq> 0 \<and> (\<exists>p q. pr' c = Some p \<and> pr' (tp t) = Some q \<and> p_ppid p = p_pid q \<and> (zombie p \<longleftrightarrow> ws' t = JoinWoken c))"
    if h: "t \<in> waiters ws' c" for t c
  proof -
    have t: "t \<in> waiters ws c" using h W by simp
    then have "t \<noteq> th" using assms(2) by (auto simp: waiters_def)
    have "ws' t \<noteq> Ended" using h by (auto simp: waiters_def)
    from D(3) [OF t] obtain r q where r: "c \<noteq> 0" "pr c = Some r" "pr (tp t) = Some q" "p_ppid r = p_pid q" "zombie r \<longleftrightarrow> ws t = JoinWoken c" by blast
    obtain q' where q': "pr' (tp t) = Some q'" "p_pid q' = p_pid q" using pr'(6) [OF r(3) out [OF \<open>ws' t \<noteq> Ended\<close>]] by auto
    show ?thesis
    proof (cases "c = a")
      case True
      then have "ws t = JoinWait a" using r(2,5) assms(5) nz t by (auto simp: waiters_def)
      then show ?thesis using True r q' pr'(1-3) assms(5) ws'(1) [of t] \<open>t \<noteq> th\<close> by auto
    next
      case False
      have "ws' t = JoinWoken c \<longleftrightarrow> ws t = JoinWoken c" using ws'(1) [of t] ws'(2) False \<open>t \<noteq> th\<close> by auto
      moreover have "waiters ws c \<noteq> {}" using t by blast
      ultimately show ?thesis using pr'(6) [OF r(2) False] r q' by auto
    qed
  qed
  show "finite (waiters ws' c) \<and> waitCount r = int (card (waiters ws' c))" if h: "pr' c = Some r" for c r
  proof (cases "pr c")
    case None
    then show ?thesis using pr'(7) h by simp
  next
    case (Some r0)
    then have "waitCount r = waitCount r0" using h pr'(1,4) pr'(6) [OF Some] assms(5) by (cases "c = a") auto
    then show ?thesis using D(4) [OF Some] W by simp
  qed
qed

lemma process_exit_spec:
  assumes "pt_inv s" "wstate s th = Running" "thr_proc s th \<noteq> 0"
  shows "\<exists>s'. process_exit th code s = Inr s' \<and> pt_inv s' \<and> (\<exists>p. proc s' (thr_proc s th) = Some p \<and> zombie p \<and> exitCode p = code)"
proof -
  note I = pt_invD [OF assms(1)]
  define a where "a = thr_proc s th"
  have a0: "a \<noteq> 0" using assms(3) by (simp add: a_def)
  obtain p where p: "proc s a = Some p" "\<not> zombie p" using thread_invD(1) [OF I(2), of th] assms(2) by (auto simp: a_def)
  obtain k where k: "proc s 0 = Some k" "p_pid k = 0" using tree_invD(1) [OF I(1)] by blast
  obtain b q where q: "b \<noteq> a" "proc s b = Some q" "p_pid q = p_ppid p" using tree_invD(3) [OF I(1) p(1) a0] by (auto simp: has_parent_def)
  define C where "C = set (childs p) \<union> set (zombies p)"
  have C: "c \<noteq> 0 \<and> c \<noteq> a \<and> (\<exists>r. proc s c = Some r \<and> p_ppid r = p_pid p)" if h: "c \<in> C" for c
  proof -
    from tree_invD(4) [OF I(1) p(1), of c] h obtain r where r: "c \<noteq> 0" "proc s c = Some r" "p_ppid r = p_pid p" by (auto simp: C_def)
    moreover have "c \<noteq> a" using tree_parent(1) [OF I(1) r(2,1) p(1)] r(3) by auto
    ultimately show ?thesis by blast
  qed
  note ch = exiting_children [OF I(1,2) assms(2) a_def [symmetric] a0 p(1)]
  let ?k = "k\<lparr>childs := childs p @ childs k, zombies := zombies p @ zombies k\<rparr>" let ?p = "p\<lparr>childs := [], zombies := []\<rparr>"
  define e where "e = (adopted C (proc s))(0 \<mapsto> ?k, a \<mapsto> ?p)"
  have te: "tree_inv e" unfolding e_def by (rule tree_adopt [OF I(1) p(1) a0 k(1) C_def]) (use ch(1) in \<open>simp add: C_def\<close>)
  have ea: "e a = Some ?p" by (simp add: e_def)
  have eval: "e x = (if x = a then Some ?p else if x = 0 then Some ?k else if x \<in> C then map_option (\<lambda>p. p\<lparr>p_ppid := 0\<rparr>) (proc s x) else proc s x)" for x
    by (simp add: e_def adopted_def)
  obtain q' where q': "e b = Some q'" "p_pid q' = p_ppid ?p"
    using q k C [of b] by (cases "b = 0"; cases "b \<in> C") (auto simp: eval)
  have gone: "p_ppid r \<noteq> p_pid ?p" if h: "e c = Some r" "c \<noteq> 0" for c r
  proof
    assume eq: "p_ppid r = p_pid ?p"
    show False
    proof (cases "c = a")
      case True
      then show False using tree_parent(1) [OF te h(1,2) ea] eq by simp
    next
      case False
      have "p_pid p \<noteq> 0" using tree_invD(2) [OF I(1) p(1) k(1)] k(2) a0 by auto
      then have "c \<notin> C" "proc s c = Some r" using h eq False C [of c] by (auto simp: eval split: if_splits)
      then show False using ch(1) [of c r] h(2) eq by (simp add: C_def)
    qed
  qed
  have z: "childs ?p = []" "zombies ?p = []" "\<not> zombie ?p" using p(2) by simp_all
  let ?z = "?p\<lparr>exitCode := code, zombie := True\<rparr>"
  let ?q = "q'\<lparr>childs := removeAll a (childs q'), zombies := if waitCount ?p = 0 then zombies q' @ [a] else zombies q'\<rparr>"
  let ?f = "e(a \<mapsto> ?z, b \<mapsto> ?q)"
  have tf: "tree_inv ?f" using tree_exit [OF te ea a0 q' z(3,1,2) gone] .
  have wc: "0 \<le> waitCount p" using thread_invD(4) [OF I(2) p(1)] by simp
  define wake where "wake = (if waitCount p > 0 then wake_join a else wake_generic)"
  define s' where "s' = broadcast wake ((set_wstate th Ended s)\<lparr>proc := ?f\<rparr>)"
  have run: "process_exit th code s = Inr s'"
  proof -
    let ?m = "(proc s)(a \<mapsto> p\<lparr>exitCode := code, zombie := True\<rparr>)"
    have aC: "a \<notin> C" "0 \<notin> C" using C by blast+
    have dom: "\<forall>c\<in>set (childs p). \<exists>r. ?m c = Some r" "\<forall>c\<in>set (zombies p). \<exists>r. adopted (set (childs p)) ?m c = Some r"
      using C by (auto simp: C_def adopted_def)
    have ad: "adopted (set (zombies p)) (adopted (set (childs p)) ?m) = adopted C ?m" by (simp only: adopted_Un C_def)
    have m4: "(adopted C ?m)(0 \<mapsto> ?k, a \<mapsto> p\<lparr>exitCode := code, zombie := True, childs := [], zombies := []\<rparr>) = e(a \<mapsto> ?z)"
      using aC by (auto simp: e_def adopted_def fun_eq_iff)
    have ps: "processes s 0 = Some 0" "processes s (p_ppid p) = Some b" using I(3) k q by blast+
    have v: "adopted C ?m 0 = Some k" "adopted C ?m a = Some (p\<lparr>exitCode := code, zombie := True\<rparr>)" using aC a0 k(1) by (simp_all add: adopted_def)
    let ?s = "\<lambda>m. (set_wstate th Ended s)\<lparr>proc := m\<rparr>"
    have 1: "adopt (childs p) (?s ?m) = Inr (?s (adopted (set (childs p)) ?m))" using adopt_spec [of "childs p" "?s ?m"] dom(1) by simp
    have 2: "adopt (zombies p) (?s (adopted (set (childs p)) ?m)) = Inr (?s (adopted C ?m))"
      using adopt_spec [of "zombies p" "?s (adopted (set (childs p)) ?m)"] dom(2) ad by simp
    have "process_exit th code s =
      rbind (pupd b (\<lambda>q. q\<lparr>childs := removeAll a (childs q)\<rparr>) (?s (e(a \<mapsto> ?z)))) (\<lambda>s.
        if waitCount p > 0 then Inr (broadcast (wake_join a) s)
        else rbind (pupd b (\<lambda>q. q\<lparr>zombies := zombies q @ [a]\<rparr>) s) (\<lambda>s. Inr (broadcast wake_generic s)))"
      using p(1) 1 2 ps v a0 m4 unfolding process_exit_def Let_def a_def [symmetric] by simp
    moreover have "(e(a \<mapsto> ?z)) b = Some q'" using q' q(1) by simp
    ultimately show ?thesis using wc by (auto simp: s'_def wake_def)
  qed
  have W: "waitCount p = int (card (waiters (wstate s) a))" "finite (waiters (wstate s) a)" using thread_invD(4) [OF I(2) p(1)] by simp_all
  have "pt_inv s'"
  proof (rule pt_invI)
    show "tree_inv (proc s')" using tf by (simp add: s'_def broadcast_def)
    have fval: "?f x = (if x = b then Some ?q else if x = a then Some ?z else e x)" for x by simp
    have f0: "\<exists>r'. ?f c = Some r' \<and> p_pid r' = p_pid r \<and> zombie r' = (if c = a then True else zombie r) \<and> waitCount r' = waitCount r \<and>
        (c \<notin> C \<longrightarrow> p_ppid r' = p_ppid r)" if h: "proc s c = Some r" for c r
    proof -
      have "\<exists>r'. e c = Some r' \<and> p_pid r' = p_pid r \<and> zombie r' = zombie r \<and> waitCount r' = waitCount r \<and> (c \<notin> C \<longrightarrow> p_ppid r' = p_ppid r)"
        using h p k by (auto simp: eval)
      then show ?thesis using q(1) q'(1) p(1) h unfolding fval by (cases "c = b"; cases "c = a") (auto simp: eval)
    qed
    have fN: "?f c = None" if h: "proc s c = None" for c using h p(1) q(2) k(1) C [of c] unfolding fval eval by auto
    have tp: "thr_proc s' = thr_proc s" by (simp add: s'_def broadcast_def)
    show "thread_inv (proc s') (thr_proc s') (wstate s')" unfolding tp
    proof (rule process_thread_inv [OF I(2) assms(2) a_def [symmetric] a0 p(1)])
      show "wstate s' t = (if t = th then Ended else if wstate s t = JoinWait a then JoinWoken a
          else if wstate s t = GenericWait then if waitCount p > 0 then GenericWait else GenericWoken else wstate s t)" for t
      proof -
        have "waitCount p > 0" if h: "wstate s t = JoinWait a"
        proof -
          have "t \<in> waiters (wstate s) a" using h by (simp add: waiters_def)
          then show ?thesis using W card_gt_0_iff by fastforce
        qed
        then show ?thesis by (cases "wstate s t") (auto simp: s'_def broadcast_def wake_def)
      qed
      show "proc s' a = Some ?z" using q(1) by (simp add: s'_def broadcast_def)
      show "\<exists>r'. proc s' c = Some r' \<and> p_pid r' = p_pid r \<and> zombie r' = zombie r \<and> waitCount r' = waitCount r \<and>
          (waiters (wstate s) c \<noteq> {} \<longrightarrow> p_ppid r' = p_ppid r)" if h: "proc s c = Some r" "c \<noteq> a" for c r
      proof -
        from f0 [OF h(1)] h(2) obtain r' where r': "?f c = Some r'" "p_pid r' = p_pid r" "zombie r' = zombie r" "waitCount r' = waitCount r"
          "c \<notin> C \<longrightarrow> p_ppid r' = p_ppid r" by auto
        moreover have "waiters (wstate s) c \<noteq> {} \<longrightarrow> c \<notin> C" using C [of c] ch(2) [of c] by blast
        moreover have "proc s' c = ?f c" by (simp add: s'_def broadcast_def)
        ultimately show ?thesis by (metis (no_types))
      qed
      show "proc s' c = None" if h: "proc s c = None" for c using fN [OF h] by (simp add: s'_def broadcast_def)
    qed (use p(2) in \<open>simp_all add: s'_def broadcast_def\<close>)
    show "processes s' i = Some c \<longleftrightarrow> (\<exists>r. proc s' c = Some r \<and> p_pid r = i)" for i c
    proof -
      have "(\<exists>r. ?f c = Some r \<and> p_pid r = i) \<longleftrightarrow> (\<exists>r. proc s c = Some r \<and> p_pid r = i)"
      proof (cases "proc s c")
        case None
        then show ?thesis using fN [OF None] by simp
      next
        case (Some r)
        then show ?thesis using f0 [OF Some] by auto
      qed
      then show ?thesis using I(3) [of i c] by (simp add: s'_def broadcast_def del: fun_upd_apply)
    qed
  qed (simp add: s'_def broadcast_def I(4))
  moreover have "proc s' a = Some ?z" using q(1) by (simp add: s'_def broadcast_def)
  ultimately show ?thesis using run by (auto simp: a_def)
qed

section \<open>Runs\<close>

text \<open>
  The states that any interleaving reaches: \<open>K\<close> are the threads of the kernel, and a process has one thread, the one \<^verbatim>\<open>create\<close> gives
  it. A process whose thread could not be created is removed before anyone was told its pid, so nobody waits for it and it has no children.
\<close>

inductive pt_reach :: "nat set \<Rightarrow> proc_table \<Rightarrow> bool" for K where
  init: "pt_reach K (pt_init K)"
| create_begin: "pt_reach K s \<Longrightarrow> wstate s th = Running \<Longrightarrow> proc s a = None \<Longrightarrow> 0 < f \<Longrightarrow> f \<le> PID_MAX \<Longrightarrow> processes s f = None \<Longrightarrow>
    create_begin th a s = Some (Inr (s', pid)) \<Longrightarrow> pt_reach K s'"
| create_end: "pt_reach K s \<Longrightarrow> proc s a = Some p \<Longrightarrow> \<not> zombie p \<Longrightarrow> a \<noteq> 0 \<Longrightarrow> (\<And>t. wstate s t \<noteq> Ended \<Longrightarrow> thr_proc s t \<noteq> a) \<Longrightarrow>
    wstate s thr = Ended \<Longrightarrow> pt_reach K (create_end a thr s)"
| create_fail: "pt_reach K s \<Longrightarrow> proc s a = Some p \<Longrightarrow> \<not> zombie p \<Longrightarrow> a \<noteq> 0 \<Longrightarrow> (\<And>t. wstate s t \<noteq> Ended \<Longrightarrow> thr_proc s t \<noteq> a) \<Longrightarrow>
    waitCount p = 0 \<Longrightarrow> childs p = [] \<Longrightarrow> zombies p = [] \<Longrightarrow> proc s (thr_proc s th) = Some q \<Longrightarrow> p_pid q = p_ppid p \<Longrightarrow>
    create_fail th a s = Inr s' \<Longrightarrow> pt_reach K s'"
| wait: "pt_reach K s \<Longrightarrow> wstate s th = Running \<Longrightarrow> waitpid_begin th pid nohang s = Inr (s', r) \<Longrightarrow> pt_reach K s'"
| resume: "pt_reach K s \<Longrightarrow> wstate s th = GenericWoken \<or> (\<exists>j. wstate s th = JoinWoken j) \<Longrightarrow> waitpid_resume th s = Inr (s', r) \<Longrightarrow> pt_reach K s'"
| exit: "pt_reach K s \<Longrightarrow> wstate s th = Running \<Longrightarrow> thr_proc s th \<noteq> 0 \<Longrightarrow> process_exit th code s = Inr s' \<Longrightarrow> pt_reach K s'"

lemma pt_inv_init: "pt_inv (pt_init K)"
proof (rule pt_invI)
  have w: "waiters (\<lambda>th. if th \<in> K then Running else Ended) a = {}" for a by (auto simp: waiters_def)
  show "thread_inv (proc (pt_init K)) (thr_proc (pt_init K)) (wstate (pt_init K))"
    by (rule thread_invI) (auto simp: pt_init_def new_process_def w split: if_splits)
  show "tree_inv (proc (pt_init K))" by (rule tree_invI) (auto simp: pt_init_def new_process_def split: if_splits)
qed (auto simp: pt_init_def new_process_def split: if_splits)

lemma pt_reach_inv: "pt_reach K s \<Longrightarrow> pt_inv s"
proof (induction rule: pt_reach.induct)
  case init
  show ?case by (rule pt_inv_init)
next
  case (create_begin s th a f s' pid)
  then show ?case using create_begin_spec [OF create_begin.IH create_begin.hyps(2-6)] by auto
next
  case (create_end s a p thr)
  then show ?case using create_end_spec by blast
next
  case (create_fail s a p th q s')
  then show ?case using create_fail_spec [OF create_fail.IH create_fail.hyps(2-10)] by auto
next
  case (wait s th pid nohang s' r)
  then show ?case using waitpid_begin_spec [OF wait.IH wait.hyps(2), of pid nohang] by auto
next
  case (resume s th s' r)
  then show ?case using waitpid_resume_spec [OF resume.IH resume.hyps(2)] by auto
next
  case (exit s th code s')
  then show ?case using process_exit_spec [OF exit.IH exit.hyps(2,3), of code] by auto
qed

section \<open>A run\<close>

text \<open>
  Threads 1 and 2 belong to the kernel. Thread 1 creates a process with pid 1, whose thread creates one with pid 2, which ends. Then
  thread 2 waits for the process 1, thread 1 for any child, and the process 1 ends.
\<close>

definition pt_proc :: "int \<Rightarrow> int \<Rightarrow> nat list \<Rightarrow> nat list \<Rightarrow> int \<Rightarrow> bool \<Rightarrow> int \<Rightarrow> process" where
 "pt_proc pid ppid cs zs n z c = \<lparr>p_pid = pid, p_ppid = ppid, childs = cs, zombies = zs, waitCount = n, zombie = z, exitCode = c\<rparr>"

definition pt_run0 :: proc_table where
  "pt_run0 = pt_init {1, 2}"
definition pt_run1 :: proc_table where
  "pt_run1 = pt_run0\<lparr>pidCounter := 2, processes := [0 \<mapsto> 0, 1 \<mapsto> 10],
     proc := [0 \<mapsto> pt_proc 0 0 [10] [] 0 False 0, 10 \<mapsto> pt_proc 1 0 [] [] 0 False 0]\<rparr>"
definition pt_run2 :: proc_table where
  "pt_run2 = create_end 10 11 pt_run1"
definition pt_run3 :: proc_table where
  "pt_run3 = pt_run2\<lparr>pidCounter := 3, processes := [0 \<mapsto> 0, 1 \<mapsto> 10, 2 \<mapsto> 20],
     proc := [0 \<mapsto> pt_proc 0 0 [10] [] 0 False 0, 10 \<mapsto> pt_proc 1 0 [20] [] 0 False 0, 20 \<mapsto> pt_proc 2 1 [] [] 0 False 0]\<rparr>"
definition pt_run4 :: proc_table where
  "pt_run4 = create_end 20 12 pt_run3"
definition pt_run5 :: proc_table where
  "pt_run5 = pt_run4\<lparr>proc := [0 \<mapsto> pt_proc 0 0 [10] [] 0 False 0, 10 \<mapsto> pt_proc 1 0 [] [20] 0 False 0, 20 \<mapsto> pt_proc 2 1 [] [] 0 True 7],
     wstate := (wstate pt_run4)(12 := Ended)\<rparr>"
definition pt_run6 :: proc_table where
  "pt_run6 = pt_run5\<lparr>proc := [0 \<mapsto> pt_proc 0 0 [10] [] 0 False 0, 10 \<mapsto> pt_proc 1 0 [] [20] 1 False 0, 20 \<mapsto> pt_proc 2 1 [] [] 0 True 7],
     wstate := (wstate pt_run5)(2 := JoinWait 10)\<rparr>"
definition pt_run7 :: proc_table where
  "pt_run7 = pt_run6\<lparr>wstate := (wstate pt_run6)(1 := GenericWait)\<rparr>"
definition pt_run8 :: proc_table where
  "pt_run8 = pt_run7\<lparr>proc := [0 \<mapsto> pt_proc 0 0 [] [20] 0 False 0, 10 \<mapsto> pt_proc 1 0 [] [] 1 True 5, 20 \<mapsto> pt_proc 2 0 [] [] 0 True 7],
     wstate := (wstate pt_run7)(11 := Ended, 2 := JoinWoken 10)\<rparr>"
definition pt_run9 :: proc_table where
  "pt_run9 = pt_run8\<lparr>processes := [0 \<mapsto> 0, 2 \<mapsto> 20],
     proc := [0 \<mapsto> pt_proc 0 0 [] [20] 0 False 0, 20 \<mapsto> pt_proc 2 0 [] [] 0 True 7],
     wstate := (wstate pt_run8)(2 := Running)\<rparr>"

lemmas pt_run_defs = pt_run0_def pt_run1_def pt_run2_def pt_run3_def pt_run4_def pt_run5_def pt_run6_def pt_run7_def pt_run8_def pt_run9_def pt_proc_def pt_init_def new_process_def create_end_def 
  pget_def pupd_def pdelete_def set_wstate_def broadcast_def
lemma getNewPid_first: "pidCounter s = 0 \<Longrightarrow> processes s 1 = None \<Longrightarrow> getNewPid s = Some (s\<lparr>pidCounter := 2\<rparr>, 1)"
  by (subst getNewPid.simps) (simp add: getNewPid_here pid_inc_less)
lemma getNewPid_next: "0 < pidCounter s \<Longrightarrow> pidCounter s < PID_MAX \<Longrightarrow> processes s (pidCounter s) = None \<Longrightarrow> getNewPid s = Some (s\<lparr>pidCounter := pidCounter s + 1\<rparr>, pidCounter s)"
  by (simp add: getNewPid_here pid_inc_less)

lemma pt_step1: "create_begin 1 10 pt_run0 = Some (Inr (pt_run1, 1))"
  by (simp add: create_begin_def getNewPid_first pt_run_defs fun_upd_twist)
lemma pt_step3: "create_begin 11 20 pt_run2 = Some (Inr (pt_run3, 2))"
  by (simp add: create_begin_def getNewPid_next pt_run_defs fun_upd_twist)
lemma pt_step5: "process_exit 12 7 pt_run4 = Inr pt_run5"
  by (simp add: process_exit_def pt_run_defs fun_eq_iff)
lemma pt_step6: "waitpid_begin 2 1 False pt_run5 = Inr (pt_run6, Blocks)"
  by (simp add: waitpid_begin_def pt_run_defs fun_eq_iff)
lemma pt_step7: "waitpid_begin 1 (-1) False pt_run6 = Inr (pt_run7, Blocks)"
  by (simp add: waitpid_begin_def wait_generic_def pt_run_defs fun_eq_iff)
lemma pt_step8: "process_exit 11 5 pt_run7 = Inr pt_run8"
  by (simp add: process_exit_def pt_run_defs fun_eq_iff)
lemma pt_step9: "waitpid_resume 2 pt_run8 = Inr (pt_run9, Returns 1 (Some 5))"
  by (simp add: waitpid_resume_def wait_finish_def pt_run_defs fun_eq_iff)

lemma pt_reach0: "pt_reach {1, 2} pt_run0"
  unfolding pt_run0_def by (rule pt_reach.init)

lemma pt_reach1: "pt_reach {1, 2} pt_run1"
  by (rule pt_reach.create_begin [OF pt_reach0 _ _ _ _ _ pt_step1, of 1]) (simp_all add: pt_run_defs)

lemma pt_reach2: "pt_reach {1, 2} pt_run2"
  unfolding pt_run2_def by (rule pt_reach.create_end [OF pt_reach1, of _ "pt_proc 1 0 [] [] 0 False 0"]) (simp_all add: pt_run_defs)

lemma pt_reach3: "pt_reach {1, 2} pt_run3"
  by (rule pt_reach.create_begin [OF pt_reach2 _ _ _ _ _ pt_step3, of 2]) (simp_all add: pt_run_defs)

lemma pt_reach4: "pt_reach {1, 2} pt_run4"
  unfolding pt_run4_def by (rule pt_reach.create_end [OF pt_reach3, of _ "pt_proc 2 1 [] [] 0 False 0"])
    (auto simp: pt_run_defs split: if_splits)

lemma pt_reach5: "pt_reach {1, 2} pt_run5"
  by (rule pt_reach.exit [OF pt_reach4 _ _ pt_step5]) (simp_all add: pt_run_defs)

lemma pt_reach6: "pt_reach {1, 2} pt_run6"
  by (rule pt_reach.wait [OF pt_reach5 _ pt_step6]) (simp add: pt_run_defs)

lemma pt_reach7: "pt_reach {1, 2} pt_run7"
  by (rule pt_reach.wait [OF pt_reach6 _ pt_step7]) (simp add: pt_run_defs)

lemma pt_reach8: "pt_reach {1, 2} pt_run8"
  by (rule pt_reach.exit [OF pt_reach7 _ _ pt_step8]) (simp_all add: pt_run_defs)

lemma pt_reach9: "pt_reach {1, 2} pt_run9"
  by (rule pt_reach.resume [OF pt_reach8 _ pt_step9]) (simp add: pt_run_defs)

section \<open>Properties\<close>

text \<open>C24. The process tree. In every state reached by any interleaving of creations, waits, wake ups and ends of processes, the
  table maps exactly the pids of the existing processes, every process other than the kernel has a parent in the table that has not ended,
  and it is on its list of children as long as it runs and on its list of zombies once it has ended and nobody waits for it in
  particular. A thread that waits for a given process waits for one that has not ended, so it is going to be woken. No operation
  uses or deletes a deleted process, and none of the checks that would stop the kernel fails.\<close>

theorem process_tree_consistent:
  assumes "pt_reach K s"
  shows "(\<forall>pid a. processes s pid = Some a \<longleftrightarrow> (\<exists>p. proc s a = Some p \<and> p_pid p = pid))
    \<and> (\<forall>a p. proc s a = Some p \<and> a \<noteq> 0 \<longrightarrow> (\<exists>b q. processes s (p_ppid p) = Some b \<and> proc s b = Some q \<and> \<not> zombie q
         \<and> (a \<in> set (childs q) \<longleftrightarrow> \<not> zombie p) \<and> (a \<in> set (zombies q) \<longleftrightarrow> zombie p \<and> waitCount p = 0)))
    \<and> (\<forall>th a. wstate s th = JoinWait a \<longrightarrow> (\<exists>p. proc s a = Some p \<and> \<not> zombie p))
    \<and> (\<forall>th. wstate s th = Running \<longrightarrow> (\<forall>pid nohang. \<exists>s' r. waitpid_begin th pid nohang s = Inr (s', r))
         \<and> (thr_proc s th \<noteq> 0 \<longrightarrow> (\<forall>code. \<exists>s'. process_exit th code s = Inr s')))
    \<and> (\<forall>th. wstate s th = GenericWoken \<or> (\<exists>a. wstate s th = JoinWoken a) \<longrightarrow> (\<exists>s' r. waitpid_resume th s = Inr (s', r)))"
proof -
  note inv = pt_reach_inv [OF assms]
  note I = pt_invD [OF inv]
  have "\<exists>b q. processes s (p_ppid p) = Some b \<and> proc s b = Some q \<and> \<not> zombie q \<and> (a \<in> set (childs q) \<longleftrightarrow> \<not> zombie p) \<and>
      (a \<in> set (zombies q) \<longleftrightarrow> zombie p \<and> waitCount p = 0)" if "proc s a = Some p" "a \<noteq> 0" for a p
    using tree_invD(3) [OF I(1) that] I(3) unfolding has_parent_def by blast
  moreover have "\<exists>p. proc s a = Some p \<and> \<not> zombie p" if "wstate s th = JoinWait a" for th a
    using thread_invD(3) [OF I(2), of th a] that by (auto simp: waiters_def)
  ultimately show ?thesis
    using I(3) waitpid_begin_spec [OF inv] waitpid_resume_spec [OF inv] process_exit_spec [OF inv] by blast
qed

theorem process_tree_consistent_witness:
  "\<exists>b q. processes pt_run8 0 = Some b \<and> proc pt_run8 b = Some q \<and> \<not> zombie q \<and> 20 \<in> set (zombies q)"
proof -
  have "proc pt_run8 20 = Some (pt_proc 2 0 [] [] 0 True 7)" by (simp add: pt_run8_def)
  then show ?thesis using process_tree_consistent [OF pt_reach8] by (fastforce simp: pt_proc_def)
qed

text \<open>C25. What \<open>waitpid\<close> returns. When a call, at once or after it was woken, returns a pid with an exit code, it is the pid and the exit code of
  a child of the calling process that has ended; that child is deleted and its pid is no longer in the table.\<close>

theorem waitpid_returns_ended_child:
  assumes "pt_reach K s"
    "wstate s th = Running \<and> waitpid_begin th pid0 nohang s = Inr (s', Returns pid (Some code))
     \<or> (wstate s th = GenericWoken \<or> (\<exists>a. wstate s th = JoinWoken a)) \<and> waitpid_resume th s = Inr (s', Returns pid (Some code))"
  shows "\<exists>a p q. processes s pid = Some a \<and> proc s a = Some p \<and> zombie p \<and> exitCode p = code
    \<and> proc s (thr_proc s th) = Some q \<and> p_ppid p = p_pid q \<and> proc s' a = None \<and> processes s' pid = None"
proof -
  note inv = pt_reach_inv [OF assms(1)]
  note I = pt_invD [OF inv]
  have "pt_inv s' \<and> wait_ok s th s' (Returns pid (Some code))"
    using assms(2) waitpid_begin_spec [OF inv, of th pid0 nohang] waitpid_resume_spec [OF inv, of th] by auto
  then have i: "pt_inv s'" and w: "wait_ok s th s' (Returns pid (Some code))" by blast+
  from w obtain a p q where a: "proc s a = Some p" "zombie p" "p_pid p = pid" "exitCode p = code"
    "proc s (thr_proc s th) = Some q" "p_ppid p = p_pid q" "proc s' a = None" "processes s' pid = None" unfolding wait_ok_def by blast
  have "processes s pid = Some a" using I(3) a by blast
  then show ?thesis using a by blast
qed

theorem waitpid_returns_ended_child_witness:
  "\<exists>a p q. processes pt_run8 1 = Some a \<and> proc pt_run8 a = Some p \<and> zombie p \<and> exitCode p = 5
    \<and> proc pt_run8 (thr_proc pt_run8 2) = Some q \<and> p_ppid p = p_pid q \<and> proc pt_run9 a = None \<and> processes pt_run9 1 = None"
  by (rule waitpid_returns_ended_child [OF pt_reach8]) (simp add: pt_step9, simp add: pt_run_defs)

text \<open>A wake up that is lost. A thread waits in \<^verbatim>\<open>waitpid\<close> for any child, and its process has a zombie that it could return: the zombie
  came from another process that ended, and since somebody waited for that one in particular, only \<^verbatim>\<open>proc->waiting\<close> was signalled. No
  process is left whose end would signal \<^verbatim>\<open>genericWaiting\<close>.\<close>

lemma generic_wait_misses_adopted_zombie:
  "\<exists>s q. pt_reach {1, 2} s \<and> wstate s 1 = GenericWait \<and> proc s (thr_proc s 1) = Some q \<and> zombies q \<noteq> []
    \<and> (\<forall>a p. proc s a = Some p \<and> \<not> zombie p \<longrightarrow> a = 0)"
proof (intro exI conjI)
  show "pt_reach {1, 2} pt_run9" by (rule pt_reach9)
  show "wstate pt_run9 1 = GenericWait" by (simp add: pt_run_defs)
  show "proc pt_run9 (thr_proc pt_run9 1) = Some (pt_proc 0 0 [] [20] 0 False 0)" by (simp add: pt_run_defs)
  show "zombies (pt_proc 0 0 [] [20] 0 False 0) \<noteq> []" by (simp add: pt_proc_def)
  show "\<forall>a p. proc pt_run9 a = Some p \<and> \<not> zombie p \<longrightarrow> a = 0" by (auto simp: pt_run9_def pt_proc_def split: if_splits)
qed

text \<open>C26. New pids. As long as a positive pid of 32 bits is free, \<open>getNewPid\<close> returns, whatever the counter and also when the counter overflows
  on the way, and it returns a positive pid that no process of the table has; it changes only the counter.\<close>

theorem getNewPid_returns_free_pid:
  assumes "pidCounter s \<le> PID_MAX" "0 < f" "f \<le> PID_MAX" "processes s f = None"
  shows "\<exists>pid. getNewPid s = Some (s\<lparr>pidCounter := pid_inc pid\<rparr>, pid) \<and> 0 < pid \<and> pid \<le> PID_MAX \<and> processes s pid = None"
  using getNewPid_spec [OF assms] unfolding fresh_pid_def by auto

theorem getNewPid_returns_free_pid_witness:
  "\<exists>pid. getNewPid (pt_run8\<lparr>pidCounter := PID_MAX\<rparr>) = Some (pt_run8\<lparr>pidCounter := pid_inc pid\<rparr>, pid) \<and> 0 < pid \<and> pid \<le> PID_MAX
    \<and> processes pt_run8 pid = None"
  using getNewPid_returns_free_pid [of "pt_run8\<lparr>pidCounter := PID_MAX\<rparr>" 3] by (simp add: pt_run_defs)

end
