(* ===== verification/Mpu_Config.thy ===== *)
theory Mpu_Config
  imports Miosix_Prelude
begin

unbundle bit_operations_syntax

text \<open>
  \<^verbatim>\<open>class MPUConfiguration\<close> (\<^verbatim>\<open>arch/common/core/mpu_cortexMx.h\<close>, \<^verbatim>\<open>mpu_cortexMx.cpp\<close>): the memory protection of a process, a region
  of code that it reads and a region of data that it reads and writes. The same registers are decoded to check the
  pointers that a process passes to the kernel. \<open>None\<close> is a failed \<^verbatim>\<open>assert\<close>.
\<close>

section \<open>The registers\<close>

type_synonym addr = u32
type_synonym mpu = "u32 list"

text \<open>\<^verbatim>\<open>__builtin_clz\<close>: the number of zero bits above the highest one.\<close>

primrec clz_from :: "nat \<Rightarrow> u32 \<Rightarrow> nat" where
  "clz_from 0 x = 0"
| "clz_from (Suc n) x = (if bit x n then 0 else Suc (clz_from n x))"

definition sizeToMpu :: "u32 \<Rightarrow> u32 option" where
  "sizeToMpu sz =
     (if sz \<ge> 32
      then let result = 30 - of_nat (clz_from 32 sz) in
           Some (if sz AND (sz - 1) \<noteq> 0 then result + 1 else result)
      else None)"

definition MPU_RBAR_VALID_Msk :: u32 where "MPU_RBAR_VALID_Msk = push_bit 4 1"
definition MPU_RASR_XN_Msk :: u32 where "MPU_RASR_XN_Msk = push_bit 28 1"
definition MPU_RASR_C_Msk :: u32 where "MPU_RASR_C_Msk = push_bit 17 1"
definition MPU_RASR_AP_Pos :: nat where "MPU_RASR_AP_Pos = 24"

definition MPUConfiguration :: "addr \<Rightarrow> u32 \<Rightarrow> addr \<Rightarrow> u32 \<Rightarrow> mpu option" where
  "MPUConfiguration elfBase elfSize imageBase imageSize =
     (case sizeToMpu elfSize of
        None \<Rightarrow> None
      | Some elf \<Rightarrow>
          (case sizeToMpu imageSize of
             None \<Rightarrow> None
           | Some img \<Rightarrow> Some
               [(elfBase AND NOT 0x1f) OR MPU_RBAR_VALID_Msk OR 6,
                push_bit MPU_RASR_AP_Pos 2 OR MPU_RASR_C_Msk OR 1 OR push_bit 1 elf,
                (imageBase AND NOT 0x1f) OR MPU_RBAR_VALID_Msk OR 7,
                push_bit MPU_RASR_AP_Pos 3 OR MPU_RASR_XN_Msk OR MPU_RASR_C_Msk OR 1 OR push_bit 1 img]))"

definition roundSizeForMPU :: "u32 \<Rightarrow> u32 option" where
  "roundSizeForMPU sz = map_option (\<lambda>r. push_bit (unat (r + 1)) 1) (sizeToMpu sz)"

text \<open>The bounds of a region, as the three checks compute them.\<close>

definition regionStart :: "u32 \<Rightarrow> u32" where
  "regionStart rbar = rbar AND NOT 0x1f"

definition regionEnd :: "u32 \<Rightarrow> u32 \<Rightarrow> u32" where
  "regionEnd rbar rasr = regionStart rbar + push_bit (unat ((drop_bit 1 rasr AND 31) + 1)) 1"

definition withinForReading :: "mpu \<Rightarrow> addr \<Rightarrow> u32 \<Rightarrow> bool" where
  "withinForReading m base sz \<longleftrightarrow>
     (let codeStart = regionStart (m ! 0); codeEnd = regionEnd (m ! 0) (m ! 1);
          dataStart = regionStart (m ! 2); dataEnd = regionEnd (m ! 2) (m ! 3)
      in (base \<ge> codeStart \<and> base + sz < codeEnd \<or> base \<ge> dataStart \<and> base + sz < dataEnd) \<and> base + sz \<ge> base)"

definition withinForWriting :: "mpu \<Rightarrow> addr \<Rightarrow> u32 \<Rightarrow> bool" where
  "withinForWriting m base sz \<longleftrightarrow>
     (let dataStart = regionStart (m ! 2); dataEnd = regionEnd (m ! 2) (m ! 3)
      in base \<ge> dataStart \<and> base + sz < dataEnd \<and> base + sz \<ge> base)"

text \<open>\<^verbatim>\<open>strnlen\<close> of the C library.\<close>

primrec strnlen :: "(addr \<Rightarrow> u8) \<Rightarrow> addr \<Rightarrow> nat \<Rightarrow> nat" where
  "strnlen mem a 0 = 0"
| "strnlen mem a (Suc n) = (if mem a = 0 then 0 else Suc (strnlen mem (a + 1) n))"

definition stringWithinForReading :: "mpu \<Rightarrow> (addr \<Rightarrow> u8) \<Rightarrow> addr \<Rightarrow> bool" where
  "stringWithinForReading m mem base \<longleftrightarrow>
     (let codeStart = regionStart (m ! 0); codeEnd = regionEnd (m ! 0) (m ! 1);
          dataStart = regionStart (m ! 2); dataEnd = regionEnd (m ! 2) (m ! 3)
      in if base \<ge> codeStart \<and> base < codeEnd then strnlen mem base (unat (codeEnd - base)) < unat (codeEnd - base)
         else if base \<ge> dataStart \<and> base < dataEnd then strnlen mem base (unat (dataEnd - base)) < unat (dataEnd - base)
         else False)"

section \<open>Sizes\<close>

lemma bit_top:
  assumes "unat (x :: u32) < 2 ^ Suc n" "n < 32"
  shows "bit x n \<longleftrightarrow> 2 ^ n \<le> unat x"
proof -
  have "bit x n \<longleftrightarrow> odd (unat x div 2 ^ n)" using assms(2) bit_unsigned_iff [of x n, where 'a = nat] by (simp add: bit_iff_odd)
  moreover have "unat x div 2 ^ n = (if 2 ^ n \<le> unat x then 1 else 0)"
    using assms(1) by (auto simp: div_nat_eqI)
  ultimately show ?thesis by simp
qed

lemma clz_bounds:
  assumes "0 < unat (x :: u32)" "unat x < 2 ^ n" "n \<le> 32"
  obtains k where "clz_from n x + Suc k = n" "2 ^ k \<le> unat x" "unat x < 2 ^ Suc k"
  using assms
proof (induction n arbitrary: thesis)
  case (Suc n)
  show ?case
  proof (cases "bit x n")
    case True
    then show ?thesis using Suc.prems bit_top [of x n] by (intro Suc.prems(1) [of n]) auto
  next
    case False
    then have lt: "unat x < 2 ^ n" using Suc.prems bit_top [of x n] by auto
    from Suc.IH [OF _ Suc.prems(2) lt] Suc.prems(4) obtain k where "clz_from n x + Suc k = n" "2 ^ k \<le> unat x" "unat x < 2 ^ Suc k"
      by auto
    then show ?thesis using False by (intro Suc.prems(1) [of k]) auto
  qed
qed simp

lemma unat_two_power: "k < 32 \<Longrightarrow> unat (2 ^ k :: u32) = 2 ^ k"
  using unat_of_nat [of "2 ^ k", where 'a = 32] power_strict_increasing [of k 32 "2 :: nat"] by simp

lemma power_of_two_test:
  assumes "2 ^ k \<le> unat (x :: u32)" "unat x < 2 ^ Suc k" "k < 32"
  shows "x AND (x - 1) = 0 \<longleftrightarrow> unat x = 2 ^ k"
proof
  assume "unat x = 2 ^ k"
  then have x: "x = 2 ^ k" using unat_two_power [OF assms(3)] by (metis unat_inject)
  have "x AND mask k = 0" unfolding x by (rule bit_word_eqI) (auto simp: bit_simps)
  then show "x AND (x - 1) = 0" unfolding x by (simp add: mask_eq_decr_exp)
next
  assume z: "x AND (x - 1) = 0"
  show "unat x = 2 ^ k"
  proof (rule ccontr)
    assume "unat x \<noteq> 2 ^ k"
    then have "2 ^ k < unat x" using assms(1) by simp
    moreover then have "x \<noteq> 0" by auto
    ultimately have "2 ^ k \<le> unat (x - 1)" "unat (x - 1) < 2 ^ Suc k" using assms(2) unat_pred [of x] by auto
    then have "bit x k" "bit (x - 1) k" using bit_top assms by auto
    then have "bit (x AND (x - 1)) k" by (simp add: bit_and_iff)
    then show False using z by simp
  qed
qed

text \<open>The size field of a region: its size is the least power of two that is not smaller.\<close>

lemma sizeToMpu_spec:
  assumes "32 \<le> unat sz"
  obtains n where "sizeToMpu sz = Some (of_nat n)" "4 \<le> n" "n \<le> 31" "2 ^ n < unat sz" "unat sz \<le> 2 ^ Suc n"
proof -
  obtain k where k: "clz_from 32 sz + Suc k = 32" "2 ^ k \<le> unat sz" "unat sz < 2 ^ Suc k"
    using clz_bounds [of sz 32] assms unsigned_less [of sz, where ?'a = nat] by auto
  have "(2 :: nat) ^ 5 < 2 ^ Suc k" using assms k(3) by simp
  then have k5: "5 \<le> k" using power_less_imp_less_exp [of "2 :: nat" 5 "Suc k"] by simp
  have c: "of_nat (clz_from 32 sz) = (31 - of_nat k :: u32)"
  proof -
    have "clz_from 32 sz = 31 - k" "k \<le> 31" using k(1) by auto
    then show ?thesis by (simp add: of_nat_diff)
  qed
  have 32: "sz \<ge> 32" using assms by (simp add: word_le_nat_alt)
  show thesis
  proof (cases "unat sz = 2 ^ k")
    case True
    show thesis
    proof (rule that [of "k - 1"])
      show "sizeToMpu sz = Some (of_nat (k - 1))"
        using 32 c k5 True power_of_two_test [OF k(2,3)] k(1) by (simp add: sizeToMpu_def of_nat_diff)
      show "2 ^ (k - 1) < unat sz" "unat sz \<le> 2 ^ Suc (k - 1)" using True k5 by (simp_all add: power_strict_increasing)
    qed (use k5 k(1) in auto)
  next
    case False
    show thesis
    proof (rule that [of k])
      show "sizeToMpu sz = Some (of_nat k)"
        using 32 c False power_of_two_test [OF k(2,3)] k(1) by (simp add: sizeToMpu_def)
    qed (use k5 k False in auto)
  qed
qed

lemma round_spec:
  assumes "32 \<le> unat sz" "unat sz \<le> 2 ^ 31"
  obtains n r where "sizeToMpu sz = Some (of_nat n)" "4 \<le> n" "n \<le> 30" "2 ^ n < unat sz" "unat sz \<le> 2 ^ Suc n"
    "roundSizeForMPU sz = Some r" "unat r = 2 ^ Suc n"
proof -
  obtain n where n: "sizeToMpu sz = Some (of_nat n)" "4 \<le> n" "n \<le> 31" "2 ^ n < unat sz" "unat sz \<le> 2 ^ Suc n"
    by (rule sizeToMpu_spec [OF assms(1)]) blast
  have "(2 :: nat) ^ n < 2 ^ 31" using n(4) assms(2) by simp
  then have n30: "n \<le> 30" using power_less_imp_less_exp [of "2 :: nat" n 31] by simp
  have "unat (of_nat n + 1 :: u32) = unat (of_nat (Suc n) :: u32)" by (simp add: add.commute)
  also have "\<dots> = Suc n" using n30 by (simp only: unat_of_nat) simp
  finally have "unat (of_nat n + 1 :: u32) = Suc n" .
  then have "roundSizeForMPU sz = Some (2 ^ Suc n)" using n(1) by (simp add: roundSizeForMPU_def push_bit_eq_mult)
  with n n30 unat_two_power [of "Suc n"] show thesis by (intro that) auto
qed

section \<open>Regions\<close>

text \<open>The bytes of the region that a process may read, and of the one that it may write.\<close>

definition region_bytes :: "addr \<Rightarrow> u32 \<Rightarrow> nat set" where
  "region_bytes base sz = {unat base..<unat base + unat (the (roundSizeForMPU sz))}"

text \<open>A region that the MPU supports: a base aligned to 32 bytes, a size it can have, and an end that is an address.\<close>

definition region_ok :: "addr \<Rightarrow> u32 \<Rightarrow> bool" where
  "region_ok base sz \<longleftrightarrow> 32 dvd unat base \<and> 32 \<le> unat sz \<and> unat sz \<le> 2 ^ 31 \<and>
     unat base + unat (the (roundSizeForMPU sz)) < 2 ^ 32"

lemma and_split: "(x :: u32) = (x AND NOT m) OR (x AND m)"
  by (rule bit_word_eqI) (auto simp: bit_simps)

lemma or_and_distrib: "((x :: u32) OR y) AND m = (x AND m) OR (y AND m)"
  by (rule bit_word_eqI) (auto simp: bit_simps)

lemma shift_back: "k \<le> 27 \<Longrightarrow> take_bit 5 (drop_bit k (push_bit k (x :: u32))) = take_bit 5 x"
  by (rule bit_word_eqI) (auto simp: bit_simps)

lemma region_start:
  assumes "32 dvd unat b" "c AND NOT 0x1f = 0"
  shows "regionStart ((b AND NOT 0x1f) OR c) = b"
proof -
  have "unat (take_bit 5 b) = 0" using assms(1) by (simp add: take_bit_eq_mod unat_mod_distrib dvd_imp_mod_0)
  then have "take_bit 5 b = 0" by (simp add: unat_eq_0)
  then have "b AND 0x1f = 0" by (simp add: take_bit_eq_mask mask_eq_exp_minus_1)
  moreover have "b = (b AND NOT 0x1f) OR (b AND 0x1f)" by (rule and_split)
  ultimately have b: "b AND NOT 0x1f = b" by simp
  have "regionStart (b OR c) = (b AND NOT 0x1f) OR (c AND NOT 0x1f)" by (simp add: regionStart_def or_and_distrib)
  then show ?thesis using assms(2) b by simp
qed


lemma region_size:
  assumes "n \<le> 30" "c AND 0x3f = 1"
  shows "unat ((drop_bit 1 (c OR push_bit 1 (of_nat n)) AND 31) + 1 :: u32) = Suc n"
proof -
  have n: "unat (of_nat n :: u32) = n" using assms(1) by (simp only: unat_of_nat) simp
  have nt: "take_bit 5 (of_nat n :: u32) = of_nat n" by (rule word_unat_eq_iff [THEN iffD2]) (use assms(1) in \<open>simp add: take_bit_eq_mod unat_mod_distrib n\<close>)
  have ct: "take_bit 5 (drop_bit 1 c) = 0"
  proof -
    have "take_bit 5 (drop_bit 1 c) = drop_bit 1 (take_bit 6 c)" by (simp add: take_bit_drop_bit)
    also have "take_bit 6 c = 1" using assms(2) by (simp add: take_bit_eq_mask mask_eq_exp_minus_1)
    finally show ?thesis by simp
  qed
  have "drop_bit 1 (c OR push_bit 1 (of_nat n)) AND 31 = take_bit 5 (drop_bit 1 (c OR push_bit 1 (of_nat n)))"
    by (simp add: take_bit_eq_mask mask_eq_exp_minus_1)
  also have "\<dots> = take_bit 5 (drop_bit 1 (push_bit 1 (of_nat n)))" using ct by (simp only: drop_bit_or take_bit_or or.left_neutral)
  also have "\<dots> = take_bit 5 (of_nat n)" by (rule shift_back) simp
  also note nt
  finally have "drop_bit 1 (c OR push_bit 1 (of_nat n)) AND 31 = (of_nat n :: u32)" .
  then have "(drop_bit 1 (c OR push_bit 1 (of_nat n)) AND 31) + 1 = (of_nat (Suc n) :: u32)" by simp
  then show ?thesis using assms(1) by (simp only: unat_of_nat) simp
qed


text \<open>The registers that the constructor writes are decoded to the regions it was given.\<close>

lemma region_decode:
  assumes "region_ok b sz" "sizeToMpu sz = Some r" "u AND NOT 0x1f = 0" "c AND 0x3f = 1"
  shows "regionStart ((b AND NOT 0x1f) OR u) = b"
    "unat (regionEnd ((b AND NOT 0x1f) OR u) (c OR push_bit 1 r)) = unat b + unat (the (roundSizeForMPU sz))"
proof -
  have ok: "32 dvd unat b" "32 \<le> unat sz" "unat sz \<le> 2 ^ 31" "unat b + unat (the (roundSizeForMPU sz)) < 2 ^ 32"
    using assms(1) unfolding region_ok_def by blast+
  from round_spec [OF ok(2,3)] obtain n t where n: "sizeToMpu sz = Some (of_nat n)" "n \<le> 30" "roundSizeForMPU sz = Some t" "unat t = 2 ^ Suc n" by metis
  show start: "regionStart ((b AND NOT 0x1f) OR u) = b" by (rule region_start [OF ok(1) assms(3)])
  have r: "r = of_nat n" using n(1) assms(2) by simp
  have "unat (push_bit (Suc n) 1 :: u32) = unat t" using n(2,4) unat_two_power [of "Suc n"] by (simp only: push_bit_eq_mult mult_1)
  then have "push_bit (Suc n) 1 = t" by (simp only: unat_inject)
  then have "regionEnd ((b AND NOT 0x1f) OR u) (c OR push_bit 1 r) = b + t" unfolding regionEnd_def start r region_size [OF n(2) assms(4)] by simp
  moreover have "unat (b + t) = unat b + unat t" using ok(4) n(3) by (subst unat_add_lem [THEN iffD1]) simp_all
  ultimately show "unat (regionEnd ((b AND NOT 0x1f) OR u) (c OR push_bit 1 r)) = unat b + unat (the (roundSizeForMPU sz))" using n(3) by simp
qed

lemma configured:
  assumes "MPUConfiguration eb es ib isz = Some m" "region_ok eb es" "region_ok ib isz"
  shows "regionStart (m ! 0) = eb" "unat (regionEnd (m ! 0) (m ! 1)) = unat eb + unat (the (roundSizeForMPU es))"
    "regionStart (m ! 2) = ib" "unat (regionEnd (m ! 2) (m ! 3)) = unat ib + unat (the (roundSizeForMPU isz))"
proof -
  from assms(1) obtain e i where e: "sizeToMpu es = Some e" and i: "sizeToMpu isz = Some i"
    and m: "m = [(eb AND NOT 0x1f) OR (MPU_RBAR_VALID_Msk OR 6), (push_bit MPU_RASR_AP_Pos 2 OR MPU_RASR_C_Msk OR 1) OR push_bit 1 e,
      (ib AND NOT 0x1f) OR (MPU_RBAR_VALID_Msk OR 7), (push_bit MPU_RASR_AP_Pos 3 OR MPU_RASR_XN_Msk OR MPU_RASR_C_Msk OR 1) OR push_bit 1 i]"
    by (auto simp: MPUConfiguration_def or.assoc split: option.splits)
  have c: "(MPU_RBAR_VALID_Msk OR 6) AND NOT 0x1f = 0" "(MPU_RBAR_VALID_Msk OR 7) AND NOT 0x1f = 0"
    "(push_bit MPU_RASR_AP_Pos 2 OR MPU_RASR_C_Msk OR 1) AND 0x3f = 1"
    "(push_bit MPU_RASR_AP_Pos 3 OR MPU_RASR_XN_Msk OR MPU_RASR_C_Msk OR 1) AND 0x3f = 1"
    by (simp_all add: MPU_RBAR_VALID_Msk_def MPU_RASR_AP_Pos_def MPU_RASR_C_Msk_def MPU_RASR_XN_Msk_def)
  show "regionStart (m ! 0) = eb" "unat (regionEnd (m ! 0) (m ! 1)) = unat eb + unat (the (roundSizeForMPU es))"
    using region_decode [OF assms(2) e c(1,3)] by (simp_all add: m)
  show "regionStart (m ! 2) = ib" "unat (regionEnd (m ! 2) (m ! 3)) = unat ib + unat (the (roundSizeForMPU isz))"
    using region_decode [OF assms(3) i c(2,4)] by (simp_all add: m)
qed


lemma no_wrap_less:
  assumes "unat (e :: u32) = unat s + n"
  shows "s \<le> b \<and> b + sz < e \<and> b \<le> b + sz \<longleftrightarrow> unat s \<le> unat b \<and> unat b + unat sz < unat s + n"
proof -
  have "unat e < 2 ^ 32" using unsigned_less [of e, where ?'a = nat] by simp
  then have "b \<le> b + sz" if "unat b + unat sz < unat s + n" using that assms by (simp add: no_olen_add_nat)
  then show ?thesis using assms by (auto simp: word_le_nat_alt word_less_nat_alt unat_plus_simple [THEN iffD1])
qed

lemma strnlen_le: "strnlen mem a n \<le> n"
  by (induction n arbitrary: a) auto

lemma strnlen_nul: "strnlen mem a n < n \<Longrightarrow> mem (a + of_nat (strnlen mem a n)) = 0"
proof (induction n arbitrary: a)
  case (Suc n)
  then show ?case using Suc.IH [of "a + 1"] by (auto simp: add.assoc)
qed simp

lemma strnlen_nonzero: "i < strnlen mem a n \<Longrightarrow> mem (a + of_nat i) \<noteq> 0"
proof (induction n arbitrary: a i)
  case (Suc n)
  then show ?case using Suc.IH [of "i - 1" "a + 1"] by (cases i) (auto simp: add.assoc split: if_splits)
qed simp

section \<open>Properties\<close>

text \<open>A string that starts at an address and ends, with its terminator, before another.\<close>

definition string_inside :: "(addr \<Rightarrow> u8) \<Rightarrow> addr \<Rightarrow> nat set \<Rightarrow> bool" where
  "string_inside mem a R \<longleftrightarrow> (\<exists>n. {unat a..unat a + n} \<subseteq> R \<and> mem (a + of_nat n) = 0)"

lemma interval_inside: "{a..a + n} \<subseteq> {s..<s + l} \<longleftrightarrow> s \<le> a \<and> a + n < s + (l :: nat)"
  by (auto simp: subset_iff)

lemma string_check:
  assumes "s \<le> a" "unat (e :: u32) = unat s + l" "a < e"
  shows "strnlen mem a (unat (e - a)) < unat (e - a) \<longleftrightarrow> string_inside mem a {unat s..<unat s + l}"
proof -
  have d: "unat (e - a) = unat e - unat a" "unat a < unat e" "unat s \<le> unat a"
    using assms(1,3) by (simp_all add: unat_sub less_imp_le word_less_nat_alt word_le_nat_alt)
  show ?thesis
  proof
    assume h: "strnlen mem a (unat (e - a)) < unat (e - a)"
    then have "{unat a..unat a + strnlen mem a (unat (e - a))} \<subseteq> {unat s..<unat s + l}" using d assms(2) unfolding interval_inside by simp
    with strnlen_nul [OF h] show "string_inside mem a {unat s..<unat s + l}" unfolding string_inside_def by blast
  next
    assume "string_inside mem a {unat s..<unat s + l}"
    then obtain n where n: "unat a + n < unat e" "mem (a + of_nat n) = 0" using assms(2) unfolding string_inside_def interval_inside by auto
    have "strnlen mem a (unat (e - a)) \<le> n" using strnlen_nonzero [of n mem a "unat (e - a)"] n(2) by (cases "n < strnlen mem a (unat (e - a))") auto
    then show "strnlen mem a (unat (e - a)) < unat (e - a)" using n(1) d by simp
  qed
qed

lemma mpu_checks:
  assumes "MPUConfiguration elfBase elfSize imageBase imageSize = Some m" "region_ok elfBase elfSize" "region_ok imageBase imageSize"
  shows "(withinForWriting m a n \<longleftrightarrow> {unat a..unat a + unat n} \<subseteq> region_bytes imageBase imageSize)
    \<and> (withinForReading m a n \<longleftrightarrow> {unat a..unat a + unat n} \<subseteq> region_bytes elfBase elfSize
         \<or> {unat a..unat a + unat n} \<subseteq> region_bytes imageBase imageSize)
    \<and> (stringWithinForReading m mem a \<longleftrightarrow> (if unat a \<in> region_bytes elfBase elfSize
         then string_inside mem a (region_bytes elfBase elfSize) else string_inside mem a (region_bytes imageBase imageSize)))"
proof -
  note c = configured [OF assms]
  have w: "withinForWriting m a n \<longleftrightarrow> {unat a..unat a + unat n} \<subseteq> region_bytes imageBase imageSize"
    using no_wrap_less [OF c(4) [folded c(3)]] c(3) unfolding withinForWriting_def Let_def region_bytes_def interval_inside by simp
  have r: "withinForReading m a n \<longleftrightarrow> {unat a..unat a + unat n} \<subseteq> region_bytes elfBase elfSize
      \<or> {unat a..unat a + unat n} \<subseteq> region_bytes imageBase imageSize"
    using no_wrap_less [OF c(4) [folded c(3)], of a n] no_wrap_less [OF c(2) [folded c(1)], of a n] c(1,3)
    unfolding withinForReading_def Let_def region_bytes_def interval_inside by auto
  have out: "\<not> string_inside mem a R" if "unat a \<notin> R" for R using that unfolding string_inside_def by (auto dest: subsetD [of _ _ "unat a"])
  have "elfBase \<le> a \<and> a < regionEnd (m ! 0) (m ! 1) \<longleftrightarrow> unat a \<in> region_bytes elfBase elfSize"
    "imageBase \<le> a \<and> a < regionEnd (m ! 2) (m ! 3) \<longleftrightarrow> unat a \<in> region_bytes imageBase imageSize"
    using c(2,4) by (simp_all add: region_bytes_def word_le_nat_alt word_less_nat_alt)
  then have "stringWithinForReading m mem a \<longleftrightarrow> (if unat a \<in> region_bytes elfBase elfSize
      then string_inside mem a (region_bytes elfBase elfSize) else string_inside mem a (region_bytes imageBase imageSize))"
    using string_check [OF _ c(2), of a mem] string_check [OF _ c(4), of a mem] out [of "region_bytes imageBase imageSize"] c(1,3)
    unfolding stringWithinForReading_def Let_def by (auto simp: region_bytes_def)
  with w r show ?thesis by blast
qed

lemma region_bytes_bound: "region_ok b l \<Longrightarrow> y \<in> region_bytes b l \<Longrightarrow> y < 2 ^ 32"
  by (simp add: region_ok_def region_bytes_def)

text \<open>C23. The check of the pointers a process passes to the kernel, for a configuration with two regions that the MPU supports.
  A buffer that is accepted for writing does not wrap around and all of it is in the region of data; one that is accepted for reading
  does not wrap around and all of it is in the region of code, or all of it in the region of data. A buffer that starts in such a
  region and ends in it before its last byte is accepted. (A buffer that ends with the last byte of the region
  is refused, although the documentation of the check promises that a buffer within the process is accepted.) A string is
  accepted exactly if it ends, with its terminator, in the region in which it starts.\<close>

theorem mpu_checks_exact:
  assumes "MPUConfiguration elfBase elfSize imageBase imageSize = Some m" "region_ok elfBase elfSize" "region_ok imageBase imageSize"
  shows "(withinForWriting m a n \<longrightarrow> unat a + unat n < 2 ^ 32 \<and> {unat a..<unat a + unat n} \<subseteq> region_bytes imageBase imageSize)
    \<and> (withinForReading m a n \<longrightarrow> unat a + unat n < 2 ^ 32 \<and> ({unat a..<unat a + unat n} \<subseteq> region_bytes elfBase elfSize
         \<or> {unat a..<unat a + unat n} \<subseteq> region_bytes imageBase imageSize))
    \<and> (unat a \<in> region_bytes imageBase imageSize \<and> unat a + unat n \<in> region_bytes imageBase imageSize \<longrightarrow>
         withinForWriting m a n \<and> withinForReading m a n)
    \<and> (unat a \<in> region_bytes elfBase elfSize \<and> unat a + unat n \<in> region_bytes elfBase elfSize \<longrightarrow> withinForReading m a n)
    \<and> (stringWithinForReading m mem a \<longleftrightarrow> (if unat a \<in> region_bytes elfBase elfSize
         then string_inside mem a (region_bytes elfBase elfSize) else string_inside mem a (region_bytes imageBase imageSize)))"
proof -
  note c = mpu_checks [OF assms, of a n mem]
  have "unat a + unat n < 2 ^ 32" if "{unat a..unat a + unat n} \<subseteq> region_bytes b l" "region_ok b l" for b l
  proof -
    have "unat a + unat n \<in> region_bytes b l" using that(1) by auto
    then show ?thesis using region_bytes_bound [OF that(2)] by blast
  qed
  moreover have "{unat a..<unat a + unat n} \<subseteq> R" if "{unat a..unat a + unat n} \<subseteq> R" for R using that by auto
  moreover have "{unat a..unat a + unat n} \<subseteq> region_bytes b l" if "unat a \<in> region_bytes b l" "unat a + unat n \<in> region_bytes b l" for b l
    using that by (auto simp: region_bytes_def)
  ultimately show ?thesis using c assms(2,3) by blast
qed

text \<open>A buffer in the region of data that ends with its last byte is refused.\<close>

lemma buffer_at_region_end_refused:
  assumes "MPUConfiguration elfBase elfSize imageBase imageSize = Some m" "region_ok elfBase elfSize" "region_ok imageBase imageSize"
    "unat imageBase \<le> unat a" "unat a + unat n = unat imageBase + unat (the (roundSizeForMPU imageSize))"
  shows "{unat a..<unat a + unat n} \<subseteq> region_bytes imageBase imageSize \<and> \<not> withinForWriting m a n"
proof
  show "{unat a..<unat a + unat n} \<subseteq> region_bytes imageBase imageSize" using assms(4,5) by (auto simp: region_bytes_def)
  have "\<not> {unat a..unat a + unat n} \<subseteq> region_bytes imageBase imageSize"
    unfolding region_bytes_def interval_inside using assms(5) by simp
  then show "\<not> withinForWriting m a n" using mpu_checks [OF assms(1-3), of a n] by blast
qed

lemma roundSize_1024: "roundSizeForMPU 1024 = Some 1024" "roundSizeForMPU 3000 = Some 4096"
  by code_simp+

text \<open>A program of 3000 bytes at \<open>0x8000\<close> and an image of one block.\<close>

theorem mpu_checks_exact_witness:
  "\<exists>m. MPUConfiguration 0x8000 3000 0x20000400 1024 = Some m \<and> withinForWriting m 0x20000400 1023 \<and> \<not> withinForWriting m 0x20000400 1025
     \<and> \<not> withinForWriting m 0x20000400 0xffffffff \<and> withinForReading m 0x8bb8 8"
proof -
  obtain m where m: "MPUConfiguration 0x8000 3000 0x20000400 1024 = Some m"
    by (auto simp: MPUConfiguration_def sizeToMpu_def)
  have ok: "region_ok 0x8000 3000" "region_ok 0x20000400 1024" by (simp_all add: region_ok_def roundSize_1024)
  note x = mpu_checks_exact [OF m ok, unfolded region_bytes_def, of _ _ "\<lambda>_. 0"]
  have "\<not> {536871936..<536872961} \<subseteq> {536871936..<536872960 :: nat}" by (simp add: ivl_subset)
  then show ?thesis using m x [of "0x20000400" 1023] x [of "0x20000400" 1025] x [of "0x20000400" "0xffffffff"] x [of "0x8bb8" 8]
    by (simp add: roundSize_1024)
qed

text \<open>\<^verbatim>\<open>roundSizeForMPU\<close>: the least power of two that is not smaller than the size.\<close>

lemma round_least_power:
  assumes "32 \<le> unat sz" "unat sz \<le> 2 ^ 31"
  shows "\<exists>r k. roundSizeForMPU sz = Some r \<and> unat r = 2 ^ k \<and> unat sz \<le> 2 ^ k \<and> (\<forall>j. unat sz \<le> 2 ^ j \<longrightarrow> k \<le> j)"
proof -
  from round_spec [OF assms] obtain n r where n: "2 ^ n < unat sz" "unat sz \<le> 2 ^ Suc n" "roundSizeForMPU sz = Some r" "unat r = 2 ^ Suc n" by metis
  have "Suc n \<le> j" if "unat sz \<le> 2 ^ j" for j
  proof -
    have "(2 :: nat) ^ n < 2 ^ j" using n(1) that by (rule less_le_trans)
    then show ?thesis using power_less_imp_less_exp [of "2 :: nat" n j] by simp
  qed
  with n show ?thesis by blast
qed

end
