(* ===== verification/System_Calls.thy ===== *)
theory System_Calls
  imports Mpu_Config Process_Pool
begin

unbundle bit_operations_syntax

text \<open>
  The system calls of a process (\<^verbatim>\<open>kernel/process.cpp\<close>, \<^verbatim>\<open>Process::handleSvc\<close> and the loop of \<^verbatim>\<open>Process::start\<close>), the registers they come in
  (\<^verbatim>\<open>SyscallParameters\<close>) and the programs that can be started by name (\<^verbatim>\<open>kernel/SystemMap.cpp\<close>). What a call does in the kernel is an
  argument, \<open>env_call\<close>; the model fixes which calls are made, with which arguments, and what the process gets back. The
  field \<open>made\<close> is the history of the calls, each with the memory at the moment it was made.
\<close>

section \<open>Programs by name\<close>

type_synonym name = "u8 list"
type_synonym programs = "(name \<times> addr \<times> u32) list"

definition addElfProgram :: "name \<Rightarrow> addr \<Rightarrow> u32 \<Rightarrow> programs \<Rightarrow> programs" where
  "addElfProgram name elf sz ps = (if map_of ps name = None then (name, elf, sz) # ps else ps)"

definition removeElfProgram :: "name \<Rightarrow> programs \<Rightarrow> programs" where
  "removeElfProgram name ps = filter (\<lambda>p. fst p \<noteq> name) ps"

definition getElfProgram :: "programs \<Rightarrow> name \<Rightarrow> addr \<times> u32" where
  "getElfProgram ps name = (case map_of ps name of None \<Rightarrow> (0, 0) | Some r \<Rightarrow> r)"

definition getElfCount :: "programs \<Rightarrow> nat" where
  "getElfCount ps = length ps"

section \<open>Calls\<close>

text \<open>The calls that the kernel makes on behalf of a process, those on \<^verbatim>\<open>fileTable\<close> first. \<open>Run_program\<close> stands for the
  construction of the \<^verbatim>\<open>ElfProgram\<close>, \<^verbatim>\<open>Process::create\<close> and \<^verbatim>\<open>Process::waitpid\<close>; its result is the exit code.\<close>

datatype svc_call =
    C_write int addr u32
  | C_read int addr u32
  | C_open addr int u32
  | C_close int
  | C_lseek int int int
  | C_fstat int addr
  | C_isatty int
  | C_stat addr addr
  | C_lstat addr addr
  | C_fcntl int int int
  | C_getdents int addr u32
  | C_getcwd addr u32
  | C_chdir addr
  | C_mkdir addr int
  | C_rmdir addr
  | C_unlink addr
  | C_rename addr addr
  | C_usleep u32
  | Run_program addr u32

record 's svc_env =
  env_call :: "svc_call \<Rightarrow> 's \<Rightarrow> (exn + u32) \<times> 's"
  env_mem :: "'s \<Rightarrow> addr \<Rightarrow> u8"
  env_programs :: "'s \<Rightarrow> programs"
  sizeof_stat :: u32

record 's svc_state =
  registers :: "u32 list"
  svc_exitCode :: u16
  world :: 's
  made :: "(svc_call \<times> (addr \<Rightarrow> u8)) list"

text \<open>\<^verbatim>\<open>class SyscallParameters\<close>: the return value replaces the first parameter.\<close>

definition getSyscallId :: "'s svc_state \<Rightarrow> int" where "getSyscallId st = sint (registers st ! 3)"
definition getFirstParameter :: "'s svc_state \<Rightarrow> u32" where "getFirstParameter st = registers st ! 0"
definition getSecondParameter :: "'s svc_state \<Rightarrow> u32" where "getSecondParameter st = registers st ! 1"
definition getThirdParameter :: "'s svc_state \<Rightarrow> u32" where "getThirdParameter st = registers st ! 2"

definition setReturnValue :: "u32 \<Rightarrow> 's svc_state \<Rightarrow> 's svc_state" where
  "setReturnValue r st = st\<lparr>registers := (registers st)[0 := r]\<rparr>"

abbreviation (input) E_FAULT :: u32 where "E_FAULT \<equiv> 14"
abbreviation (input) E_NOMEM :: u32 where "E_NOMEM \<equiv> 12"
abbreviation (input) SIG_SEGV :: u16 where "SIG_SEGV \<equiv> 11"
abbreviation (input) SIG_SYS :: u16 where "SIG_SYS \<equiv> 12"
abbreviation (input) OCREAT :: u32 where "OCREAT \<equiv> 0x200"

definition aligned_ptr :: "addr \<Rightarrow> bool" where
  "aligned_ptr x \<longleftrightarrow> x AND 3 = 0"

text \<open>A call, and a call whose result is returned to the process. The value \<open>True\<close> is a process that goes on.\<close>

definition make_call :: "'s svc_env \<Rightarrow> svc_call \<Rightarrow> 's svc_state \<Rightarrow> (exn + u32) \<times> 's svc_state" where
  "make_call K c st =
     (case env_call K c (world st) of (r, w) \<Rightarrow> (r, st\<lparr>world := w, made := made st @ [(c, env_mem K (world st))]\<rparr>))"

definition return_call :: "'s svc_env \<Rightarrow> svc_call \<Rightarrow> 's svc_state \<Rightarrow> (exn + bool) \<times> 's svc_state" where
  "return_call K c st =
     (case make_call K c st of (Inl e, st) \<Rightarrow> (Inl e, st) | (Inr r, st) \<Rightarrow> (Inr True, setReturnValue r st))"

definition guarded_call :: "'s svc_env \<Rightarrow> bool \<Rightarrow> svc_call \<Rightarrow> 's svc_state \<Rightarrow> (exn + bool) \<times> 's svc_state" where
  "guarded_call K b c st = (if b then return_call K c st else (Inr True, setReturnValue (- E_FAULT) st))"

definition mem_now :: "'s svc_env \<Rightarrow> 's svc_state \<Rightarrow> addr \<Rightarrow> u8" where
  "mem_now K st = env_mem K (world st)"

section \<open>The system calls\<close>

definition svc_exit :: "'s svc_state \<Rightarrow> (exn + bool) \<times> 's svc_state" where
  "svc_exit st = (Inr False, st\<lparr>svc_exitCode := ucast (push_bit 8 (getFirstParameter st AND 0xff))\<rparr>)"

definition svc_write :: "'s svc_env \<Rightarrow> mpu \<Rightarrow> 's svc_state \<Rightarrow> (exn + bool) \<times> 's svc_state" where
  "svc_write K m st =
     (let fd = sint (getFirstParameter st); p = getSecondParameter st; sz = getThirdParameter st
      in guarded_call K (withinForReading m p sz) (C_write fd p sz) st)"

definition svc_read :: "'s svc_env \<Rightarrow> mpu \<Rightarrow> 's svc_state \<Rightarrow> (exn + bool) \<times> 's svc_state" where
  "svc_read K m st =
     (let fd = sint (getFirstParameter st); p = getSecondParameter st; sz = getThirdParameter st
      in guarded_call K (withinForWriting m p sz) (C_read fd p sz) st)"

definition svc_usleep :: "'s svc_env \<Rightarrow> 's svc_state \<Rightarrow> (exn + bool) \<times> 's svc_state" where
  "svc_usleep K st = return_call K (C_usleep (getFirstParameter st)) st"

definition svc_open :: "'s svc_env \<Rightarrow> mpu \<Rightarrow> 's svc_state \<Rightarrow> (exn + bool) \<times> 's svc_state" where
  "svc_open K m st =
     (let str = getFirstParameter st; flags = getSecondParameter st
      in guarded_call K (stringWithinForReading m (mem_now K st) str)
           (C_open str (sint flags) (if flags AND OCREAT \<noteq> 0 then getThirdParameter st else 0)) st)"

definition svc_close :: "'s svc_env \<Rightarrow> 's svc_state \<Rightarrow> (exn + bool) \<times> 's svc_state" where
  "svc_close K st = return_call K (C_close (sint (getFirstParameter st))) st"

definition svc_lseek :: "'s svc_env \<Rightarrow> 's svc_state \<Rightarrow> (exn + bool) \<times> 's svc_state" where
  "svc_lseek K st =
     return_call K (C_lseek (sint (getFirstParameter st)) (uint (getSecondParameter st)) (sint (getThirdParameter st))) st"

text \<open>\<^verbatim>\<open>WEXITSTATUS\<close> and the name of a program in memory.\<close>

definition WEXITSTATUS :: "u32 \<Rightarrow> u32" where
  "WEXITSTATUS ret = drop_bit 8 ret AND 0xff"

definition c_string :: "(addr \<Rightarrow> u8) \<Rightarrow> addr \<Rightarrow> name" where
  "c_string mem a = map (\<lambda>i. mem (a + of_nat i)) [0..<strnlen mem a (2 ^ 32)]"

definition svc_system :: "'s svc_env \<Rightarrow> mpu \<Rightarrow> 's svc_state \<Rightarrow> (exn + bool) \<times> 's svc_state" where
  "svc_system K m st =
     (let str = getFirstParameter st in
      if stringWithinForReading m (mem_now K st) str
      then (case getElfProgram (env_programs K (world st)) (c_string (mem_now K st) str) of (elf, sz) \<Rightarrow>
              if elf = 0 \<or> sz = 0 then (Inr True, setReturnValue (- 1) st)
              else (case make_call K (Run_program elf sz) st of
                      (Inl e, st) \<Rightarrow> (Inl e, st)
                    | (Inr ret, st) \<Rightarrow> (Inr True, setReturnValue (WEXITSTATUS ret) st)))
      else (Inr True, setReturnValue (- E_FAULT) st))"

definition svc_fstat :: "'s svc_env \<Rightarrow> mpu \<Rightarrow> 's svc_state \<Rightarrow> (exn + bool) \<times> 's svc_state" where
  "svc_fstat K m st =
     (let pstat = getSecondParameter st
      in guarded_call K (withinForWriting m pstat (sizeof_stat K) \<and> aligned_ptr pstat) (C_fstat (sint (getFirstParameter st)) pstat) st)"

definition svc_isatty :: "'s svc_env \<Rightarrow> 's svc_state \<Rightarrow> (exn + bool) \<times> 's svc_state" where
  "svc_isatty K st = return_call K (C_isatty (sint (getFirstParameter st))) st"

definition svc_stat :: "'s svc_env \<Rightarrow> mpu \<Rightarrow> 's svc_state \<Rightarrow> (exn + bool) \<times> 's svc_state" where
  "svc_stat K m st =
     (let str = getFirstParameter st; pstat = getSecondParameter st
      in guarded_call K (stringWithinForReading m (mem_now K st) str \<and> withinForWriting m pstat (sizeof_stat K) \<and> aligned_ptr pstat)
           (C_stat str pstat) st)"

definition svc_lstat :: "'s svc_env \<Rightarrow> mpu \<Rightarrow> 's svc_state \<Rightarrow> (exn + bool) \<times> 's svc_state" where
  "svc_lstat K m st =
     (let str = getFirstParameter st; pstat = getSecondParameter st
      in guarded_call K (stringWithinForReading m (mem_now K st) str \<and> withinForWriting m pstat (sizeof_stat K) \<and> aligned_ptr pstat)
           (C_lstat str pstat) st)"

definition svc_fcntl :: "'s svc_env \<Rightarrow> 's svc_state \<Rightarrow> (exn + bool) \<times> 's svc_state" where
  "svc_fcntl K st =
     return_call K (C_fcntl (sint (getFirstParameter st)) (sint (getSecondParameter st)) (sint (getThirdParameter st))) st"

definition svc_getdents :: "'s svc_env \<Rightarrow> mpu \<Rightarrow> 's svc_state \<Rightarrow> (exn + bool) \<times> 's svc_state" where
  "svc_getdents K m st =
     (let fd = sint (getFirstParameter st); p = getSecondParameter st; sz = getThirdParameter st
      in guarded_call K (withinForWriting m p sz) (C_getdents fd p sz) st)"

definition svc_getcwd :: "'s svc_env \<Rightarrow> mpu \<Rightarrow> 's svc_state \<Rightarrow> (exn + bool) \<times> 's svc_state" where
  "svc_getcwd K m st =
     (let buf = getFirstParameter st; sz = getSecondParameter st
      in guarded_call K (withinForWriting m buf sz) (C_getcwd buf sz) st)"

definition svc_chdir :: "'s svc_env \<Rightarrow> mpu \<Rightarrow> 's svc_state \<Rightarrow> (exn + bool) \<times> 's svc_state" where
  "svc_chdir K m st =
     (let str = getFirstParameter st
      in guarded_call K (stringWithinForReading m (mem_now K st) str) (C_chdir str) st)"

definition svc_mkdir :: "'s svc_env \<Rightarrow> mpu \<Rightarrow> 's svc_state \<Rightarrow> (exn + bool) \<times> 's svc_state" where
  "svc_mkdir K m st =
     (let str = getFirstParameter st
      in guarded_call K (stringWithinForReading m (mem_now K st) str) (C_mkdir str (sint (getSecondParameter st))) st)"

definition svc_rmdir :: "'s svc_env \<Rightarrow> mpu \<Rightarrow> 's svc_state \<Rightarrow> (exn + bool) \<times> 's svc_state" where
  "svc_rmdir K m st =
     (let str = getFirstParameter st
      in guarded_call K (stringWithinForReading m (mem_now K st) str) (C_rmdir str) st)"

definition svc_unlink :: "'s svc_env \<Rightarrow> mpu \<Rightarrow> 's svc_state \<Rightarrow> (exn + bool) \<times> 's svc_state" where
  "svc_unlink K m st =
     (let str = getFirstParameter st
      in guarded_call K (stringWithinForReading m (mem_now K st) str) (C_unlink str) st)"

definition svc_rename :: "'s svc_env \<Rightarrow> mpu \<Rightarrow> 's svc_state \<Rightarrow> (exn + bool) \<times> 's svc_state" where
  "svc_rename K m st =
     (let oldName = getFirstParameter st; newName = getSecondParameter st
      in guarded_call K (stringWithinForReading m (mem_now K st) oldName \<and> stringWithinForReading m (mem_now K st) newName)
           (C_rename oldName newName) st)"

text \<open>A case of the \<^verbatim>\<open>switch\<close> that has no \<^verbatim>\<open>break\<close> goes on with the next one.\<close>

definition fall_through :: "('s svc_state \<Rightarrow> (exn + bool) \<times> 's svc_state) \<Rightarrow> ('s svc_state \<Rightarrow> (exn + bool) \<times> 's svc_state) \<Rightarrow>
    's svc_state \<Rightarrow> (exn + bool) \<times> 's svc_state" where
  "fall_through f g st = (case f st of (Inl e, st) \<Rightarrow> (Inl e, st) | (Inr _, st) \<Rightarrow> g st)"

definition svc_switch :: "'s svc_env \<Rightarrow> mpu \<Rightarrow> 's svc_state \<Rightarrow> (exn + bool) \<times> 's svc_state" where
  "svc_switch K m st =
     (let n = getSyscallId st in
      if n = 2 then svc_exit st
      else if n = 3 then svc_write K m st
      else if n = 4 then svc_read K m st
      else if n = 5 then svc_usleep K st
      else if n = 6 then svc_open K m st
      else if n = 7 then svc_close K st
      else if n = 8 then svc_lseek K st
      else if n = 9 then svc_system K m st
      else if n = 10 then svc_fstat K m st
      else if n = 11 then svc_isatty K st
      else if n = 12 then fall_through (svc_stat K m) (fall_through (svc_lstat K m) (svc_fcntl K)) st
      else if n = 13 then fall_through (svc_lstat K m) (svc_fcntl K) st
      else if n = 14 then svc_fcntl K st
      else if n = 15 then (Inr True, st)
      else if n = 16 then svc_getdents K m st
      else if n = 17 then svc_getcwd K m st
      else if n = 18 then svc_chdir K m st
      else if n = 19 then svc_mkdir K m st
      else if n = 20 then svc_rmdir K m st
      else if n = 21 then svc_unlink K m st
      else if n = 22 then svc_rename K m st
      else (Inr False, st\<lparr>svc_exitCode := SIG_SYS\<rparr>))"

text \<open>The whole handler: an exception becomes \<^verbatim>\<open>-ENOMEM\<close>; a fault of the kernel is not an exception.\<close>

definition handleSvc :: "'s svc_env \<Rightarrow> mpu \<Rightarrow> 's svc_state \<Rightarrow> (fault + bool) \<times> 's svc_state" where
  "handleSvc K m st =
     (case svc_switch K m st of
        (Inr b, st) \<Rightarrow> (Inr b, st)
      | (Inl (Crash f), st) \<Rightarrow> (Inl f, st)
      | (Inl (RuntimeError _), st) \<Rightarrow> (Inr True, setReturnValue (- E_NOMEM) st)
      | (Inl BadAlloc, st) \<Rightarrow> (Inr True, setReturnValue (- E_NOMEM) st))"


section \<open>Confinement\<close>

text \<open>The memory of the process that a call writes, the buffer that it reads and the strings that it reads.\<close>

definition buffer :: "addr \<Rightarrow> u32 \<Rightarrow> nat set" where
  "buffer a sz = {unat a..<unat a + unat sz}"

fun svc_writes :: "u32 \<Rightarrow> svc_call \<Rightarrow> nat set" where
  "svc_writes ss (C_read fd p sz) = buffer p sz"
| "svc_writes ss (C_fstat fd p) = buffer p ss"
| "svc_writes ss (C_stat s p) = buffer p ss"
| "svc_writes ss (C_lstat s p) = buffer p ss"
| "svc_writes ss (C_getdents fd p sz) = buffer p sz"
| "svc_writes ss (C_getcwd p sz) = buffer p sz"
| "svc_writes ss c = {}"

fun svc_reads :: "svc_call \<Rightarrow> nat set" where
  "svc_reads (C_write fd p sz) = buffer p sz"
| "svc_reads c = {}"

fun svc_strings :: "svc_call \<Rightarrow> addr list" where
  "svc_strings (C_open s f md) = [s]"
| "svc_strings (C_stat s p) = [s]"
| "svc_strings (C_lstat s p) = [s]"
| "svc_strings (C_chdir s) = [s]"
| "svc_strings (C_mkdir s md) = [s]"
| "svc_strings (C_rmdir s) = [s]"
| "svc_strings (C_unlink s) = [s]"
| "svc_strings (C_rename s t) = [s, t]"
| "svc_strings c = []"

definition call_inside :: "u32 \<Rightarrow> nat set \<Rightarrow> nat set \<Rightarrow> svc_call \<times> (addr \<Rightarrow> u8) \<Rightarrow> bool" where
  "call_inside ss code data x \<longleftrightarrow> svc_writes ss (fst x) \<subseteq> data \<and> (svc_reads (fst x) \<subseteq> code \<or> svc_reads (fst x) \<subseteq> data) \<and>
     (\<forall>a \<in> set (svc_strings (fst x)). string_inside (snd x) a code \<or> string_inside (snd x) a data)"


definition log_ok :: "'s svc_env \<Rightarrow> nat set \<Rightarrow> nat set \<Rightarrow> 's svc_state \<Rightarrow> bool" where
  "log_ok K code data st \<longleftrightarrow> (\<forall>x \<in> set (made st). call_inside (sizeof_stat K) code data x)"

lemma log_ok_simps [simp]:
  "log_ok K code data (setReturnValue r st) = log_ok K code data st"
  "log_ok K code data (st\<lparr>registers := rs\<rparr>) = log_ok K code data st"
  "log_ok K code data (st\<lparr>svc_exitCode := e\<rparr>) = log_ok K code data st"
  by (simp_all add: log_ok_def setReturnValue_def)














section \<open>Properties\<close>


text \<open>A process with a program at \<open>0x8000\<close> and an image of one block, which reads a file twice, the second time outside of its memory, and exits.\<close>

definition demo_env :: "unit svc_env" where
  "demo_env = \<lparr>env_call = (\<lambda>c w. (Inr 16, w)), env_mem = (\<lambda>w a. 0), env_programs = (\<lambda>w. []), sizeof_stat = 88\<rparr>"

definition demo_mpu :: mpu where
  "demo_mpu = [32790, 33685527, 536871959, 318898195]"


definition demo_state :: "unit svc_state" where
  "demo_state = \<lparr>registers = [0, 0, 0, 0], svc_exitCode = 0, world = (), made = []\<rparr>"

lemma demo_mpu: "MPUConfiguration 0x8000 3000 0x20000400 1024 = Some demo_mpu"
  by code_simp



text \<open>Exit codes. A process that calls \<^verbatim>\<open>exit\<close> ends, and the status that \<^verbatim>\<open>system\<close> extracts from its 16 bit exit code is the low
  byte of what it passed, also when the exit code is negative as a \<^verbatim>\<open>short\<close>.\<close>

theorem exit_status_round_trip:
  assumes "registers st = [p, b, c, 2]"
  shows "\<exists>st'. handleSvc K m st = (Inr False, st') \<and> made st' = made st \<and> WEXITSTATUS (scast (svc_exitCode st')) = p AND 0xff"
proof -
  let ?st = "st\<lparr>svc_exitCode := ucast (push_bit 8 (p AND 0xff))\<rparr>"
  have "handleSvc K m st = (Inr False, ?st)"
    using assms by (simp add: handleSvc_def svc_switch_def getSyscallId_def svc_exit_def getFirstParameter_def)
  moreover have "drop_bit 8 (scast (ucast (push_bit 8 (p AND mask 8)) :: u16)) AND mask 8 = (p :: u32) AND mask 8"
  proof (rule bit_word_eqI)
    fix n
    show "bit (drop_bit 8 (scast (ucast (push_bit 8 (p AND mask 8)) :: u16)) AND mask 8 :: u32) n \<longleftrightarrow> bit (p AND mask 8) n"
      by (cases "n < 7"; cases "n = 7") (auto simp: bit_simps)
  qed
  then have "WEXITSTATUS (scast (ucast (push_bit 8 (p AND 0xff)) :: u16)) = p AND 0xff" by (simp add: WEXITSTATUS_def mask_eq_exp_minus_1)
  ultimately show ?thesis by simp
qed

theorem exit_status_round_trip_witness:
  "\<exists>st'. handleSvc demo_env demo_mpu (demo_state\<lparr>registers := [200, 0, 0, 2]\<rparr>) = (Inr False, st') \<and> WEXITSTATUS (scast (svc_exitCode st')) = 200"
  using exit_status_round_trip [of "demo_state\<lparr>registers := [200, 0, 0, 2]\<rparr>" 200 0 0 demo_env demo_mpu] by auto

text \<open>The exit codes of a process that faulted or made an unknown system call have the status 0, the one of success.\<close>

lemma fault_status_is_success: "WEXITSTATUS (scast SIG_SEGV) = 0" "WEXITSTATUS (scast SIG_SYS) = 0"
  by code_simp+

text \<open>The case of \<^verbatim>\<open>SYS_STAT\<close> has no \<^verbatim>\<open>break\<close>. After a \<^verbatim>\<open>stat\<close> that succeeds the register of the first parameter holds its result, zero; unless
  the process can read a string at the address zero, the cases that follow replace it by \<^verbatim>\<open>-EFAULT\<close> and call \<^verbatim>\<open>fcntl\<close> with that as
  the file descriptor, and the process gets the result of \<^verbatim>\<open>fcntl\<close>.\<close>

lemma stat_returns_fcntl:
  assumes "registers st = [str, pstat, x, 12]"
    and "stringWithinForReading m (mem_now K st) str" "withinForWriting m pstat (sizeof_stat K)" "aligned_ptr pstat"
    and "env_call K (C_stat str pstat) (world st) = (Inr 0, w)" "\<And>mem. \<not> stringWithinForReading m mem 0"
    and "env_call K (C_fcntl (- 14) (sint pstat) (sint x)) w = (Inr r, w')"
  shows "\<exists>st'. handleSvc K m st = (Inr True, st') \<and> registers st' = [r, pstat, x, 12]"
proof -
  have "sint (- 14 :: u32) = - 14" by code_simp
  then show ?thesis using assms
    by (simp add: handleSvc_def svc_switch_def getSyscallId_def svc_stat_def svc_lstat_def svc_fcntl_def fall_through_def
        getFirstParameter_def getSecondParameter_def getThirdParameter_def guarded_call_def return_call_def make_call_def setReturnValue_def)
qed

text \<open>Programs by name: a name that is in use is kept, and names are unique.\<close>

lemma system_map_laws:
  assumes "distinct (map fst ps)"
  shows "distinct (map fst (addElfProgram nm elf sz ps))" "distinct (map fst (removeElfProgram nm ps))"
    "map_of (addElfProgram nm elf sz ps) = (if nm \<in> dom (map_of ps) then map_of ps else (map_of ps)(nm \<mapsto> (elf, sz)))"
    "map_of (removeElfProgram nm ps) = (map_of ps)(nm := None)"
    "getElfCount ps = card (dom (map_of ps))"
proof -
  show "distinct (map fst (addElfProgram nm elf sz ps))" using assms by (auto simp: addElfProgram_def map_of_eq_None_iff)
  show "distinct (map fst (removeElfProgram nm ps))" using assms by (simp add: removeElfProgram_def distinct_map_filter)
  show "map_of (addElfProgram nm elf sz ps) = (if nm \<in> dom (map_of ps) then map_of ps else (map_of ps)(nm \<mapsto> (elf, sz)))"
    by (auto simp: addElfProgram_def)
  show "map_of (removeElfProgram nm ps) = (map_of ps)(nm := None)"
    by (induction ps) (auto simp: removeElfProgram_def)
  show "getElfCount ps = card (dom (map_of ps))"
    using assms distinct_card [of "map fst ps"] by (simp add: getElfCount_def dom_map_of_conv_image_fst)
qed

end
