(* ===== verification/Terminal.thy ===== *)
theory Terminal
  imports Miosix_Prelude
begin

unbundle bit_operations_syntax

text \<open>
  \<^verbatim>\<open>class TerminalDevice\<close> (\<^verbatim>\<open>filesystem/console/console_device.h\<close>, \<^verbatim>\<open>console_device.cpp\<close>): a terminal on top of a character device, which
  translates the ends of lines, edits the line that is read in the buffer of the caller, and echoes. The device is
  an argument, with its two operations; memory is a list of bytes, and an access past its end a fault. The line
  editor \<open>edit\<close> and the echo \<open>echo_of\<close> are the specifications.
\<close>

section \<open>The terminal\<close>

record 'd tty =
  device :: 'd
  echo :: bool
  binary :: bool
  skipNewline :: bool
  chunkStart :: nat

definition new_TerminalDevice :: "'d \<Rightarrow> 'd tty" where
  "new_TerminalDevice d = \<lparr>device = d, echo = True, binary = False, skipNewline = False, chunkStart = 0\<rparr>"

text \<open>\<^verbatim>\<open>writeBlock\<close> and \<^verbatim>\<open>readBlock\<close> of a device: bytes to write and the result, and a number of bytes to read with an error or the bytes.\<close>

type_synonym 'd write_block = "u8 list \<Rightarrow> 'd \<Rightarrow> int \<times> 'd"
type_synonym 'd read_block = "nat \<Rightarrow> 'd \<Rightarrow> (int + u8 list) \<times> 'd"

definition block_of :: "u8 list \<Rightarrow> nat \<Rightarrow> nat \<Rightarrow> u8 list" where
  "block_of buf a b = take (b - a) (drop a buf)"

definition crlf :: "u8 list" where "crlf = [13, 10]"
definition erase_seq :: "u8 list" where "erase_seq = [27, 91, 49, 68, 32, 27, 91, 49, 68]"

function write_loop :: "'d write_block \<Rightarrow> u8 list \<Rightarrow> nat \<Rightarrow> nat \<Rightarrow> 'd \<Rightarrow> int \<times> 'd" where
  "write_loop wb data i start d =
     (if i < length data
      then if data ! i \<noteq> 10 then write_loop wb data (Suc i) start d
           else case (if i > start then wb (block_of data start i) d else (1, d)) of (r, d) \<Rightarrow>
                if r \<le> 0 then (r, d)
                else case wb crlf d of (r, d) \<Rightarrow>
                     if r \<le> 0 then (r, d) else write_loop wb data (Suc i) (Suc i) d
      else if i > start
      then case wb (block_of data start i) d of (r, d) \<Rightarrow> if r \<le> 0 then (r, d) else (int (length data), d)
      else (int (length data), d))"
  by pat_completeness auto
termination by (relation "measure (\<lambda>(wb, data, i, start, d). length data - i)") auto

definition tty_write :: "'d write_block \<Rightarrow> u8 list \<Rightarrow> 'd tty \<Rightarrow> int \<times> 'd tty" where
  "tty_write wb data s =
     (case (if binary s then wb data (device s) else write_loop wb data 0 0 (device s)) of (r, d) \<Rightarrow> (r, s\<lparr>device := d\<rparr>))"

definition echoBack :: "'d write_block \<Rightarrow> u8 list \<Rightarrow> nat \<Rightarrow> u8 list option \<Rightarrow> 'd tty \<Rightarrow> 'd tty" where
  "echoBack wb buf chunkEnd sep s =
     (if \<not> echo s then s
      else let s = (if chunkEnd > chunkStart s then s\<lparr>device := snd (wb (block_of buf (chunkStart s) chunkEnd) (device s))\<rparr> else s);
               s = s\<lparr>chunkStart := chunkEnd + 1\<rparr>
           in case sep of None \<Rightarrow> s | Some bs \<Rightarrow> s\<lparr>device := snd (wb bs (device s))\<rparr>)"

definition memmove :: "nat \<Rightarrow> nat \<Rightarrow> nat \<Rightarrow> u8 list \<Rightarrow> u8 list result" where
  "memmove dst src n buf =
     (if src + n \<le> length buf \<and> dst + n \<le> length buf
      then Inr (take dst buf @ take n (drop src buf) @ drop (dst + n) buf) else Inl OutOfBounds)"

text \<open>The loop of \<^verbatim>\<open>normalize\<close>: \<open>i\<close> is the index of the pointer \<^verbatim>\<open>buffer\<close>, which may step back before it is increased.\<close>

function normalize_loop :: "'d write_block \<Rightarrow> u8 list \<Rightarrow> nat \<Rightarrow> nat \<Rightarrow> bool \<Rightarrow> 'd tty \<Rightarrow> (u8 list \<times> nat \<times> bool \<times> 'd tty) result" where
  "normalize_loop wb buf i e newlineFound s =
     (if i < e
      then if i \<ge> length buf then Inl OutOfBounds
           else if buf ! i = 13
           then let buf = buf[i := 10] in
                normalize_loop wb buf (Suc i) e True ((echoBack wb buf i (Some crlf) s)\<lparr>skipNewline := True\<rparr>)
           else if buf ! i = 10
           then if skipNewline s
                then rbind (memmove i (i + 1) (e - i - 1) buf) (\<lambda>buf.
                     normalize_loop wb buf i (e - 1) newlineFound (s\<lparr>skipNewline := False\<rparr>))
                else normalize_loop wb buf (Suc i) e True (echoBack wb buf i (Some crlf) s)
           else if buf ! i = 0x7f \<or> buf ! i = 8
           then let s = echoBack wb buf i (Some erase_seq) s; backward = (if i = 0 then 1 else 2) in
                rbind (memmove (i + 1 - backward) (i + 1) (e - i) buf) (\<lambda>buf.
                normalize_loop wb buf (i + 1 - backward) (e - backward) newlineFound (s\<lparr>chunkStart := i + 1 - backward\<rparr>))
           else normalize_loop wb buf (Suc i) e newlineFound (s\<lparr>skipNewline := False\<rparr>)
      else Inr (buf, e, newlineFound, echoBack wb buf i None s))"
  by pat_completeness auto
termination by (relation "measure (\<lambda>(wb, buf, i, e, nl, s). e - i)") (auto split: if_splits)

declare write_loop.simps [simp del] normalize_loop.simps [simp del]

definition normalize :: "'d write_block \<Rightarrow> u8 list \<Rightarrow> nat \<Rightarrow> nat \<Rightarrow> 'd tty \<Rightarrow> (u8 list \<times> nat \<times> bool \<times> 'd tty) result" where
  "normalize wb buf b e s = normalize_loop wb buf b e False (s\<lparr>chunkStart := b\<rparr>)"

text \<open>\<^verbatim>\<open>read\<close>: \<open>len\<close> is the size of the buffer that starts the memory \<open>buf\<close>.\<close>

definition store_block :: "u8 list \<Rightarrow> nat \<Rightarrow> u8 list \<Rightarrow> u8 list result" where
  "store_block buf a bs =
     (if a + length bs \<le> length buf then Inr (take a buf @ bs @ drop (a + length bs) buf) else Inl OutOfBounds)"

partial_function (option) read_loop ::
  "'d read_block \<Rightarrow> 'd write_block \<Rightarrow> nat \<Rightarrow> nat \<Rightarrow> u8 list \<Rightarrow> 'd tty \<Rightarrow> (fault + (int \<times> u8 list \<times> 'd tty)) option" where
  "read_loop rb wb len readBytes buf s =
     (case rb (len - readBytes) (device s) of
        (Inl r, d) \<Rightarrow> Some (Inr (r, buf, s\<lparr>device := d\<rparr>))
      | (Inr bs, d) \<Rightarrow>
          (case rbind (store_block buf readBytes bs) (\<lambda>buf. normalize wb buf readBytes (readBytes + length bs) (s\<lparr>device := d\<rparr>)) of
             Inl f \<Rightarrow> Some (Inl f)
           | Inr (buf, n, newline, s) \<Rightarrow>
               if n = len \<or> newline then Some (Inr (int n, buf, s)) else read_loop rb wb len n buf s))"

declare read_loop.simps [code]

definition tty_read :: "'d read_block \<Rightarrow> 'd write_block \<Rightarrow> nat \<Rightarrow> u8 list \<Rightarrow> 'd tty \<Rightarrow> (fault + (int \<times> u8 list \<times> 'd tty)) option" where
  "tty_read rb wb len buf s =
     (if binary s
      then case rb len (device s) of
             (Inl r, d) \<Rightarrow> Some (Inr (r, buf, s\<lparr>device := d\<rparr>))
           | (Inr bs, d) \<Rightarrow>
               (case store_block buf 0 bs of
                  Inl f \<Rightarrow> Some (Inl f)
                | Inr buf \<Rightarrow>
                    let d = (if echo s \<and> bs \<noteq> [] then snd (wb bs d) else d) in
                    Some (Inr (int (length bs), buf, s\<lparr>device := d\<rparr>)))
      else read_loop rb wb len 0 buf s)"

text \<open>\<^verbatim>\<open>ioctl\<close>: the terminal has two of the flags of \<^verbatim>\<open>c_lflag\<close>. \<^verbatim>\<open>int result=device->ioctl(cmd,arg)!=0\<close> is the result of the comparison.\<close>

definition ECHO_FLAG :: u32 where "ECHO_FLAG = 8"
definition ICANON_FLAG :: u32 where "ICANON_FLAG = 2"

definition put_flag :: "bool \<Rightarrow> u32 \<Rightarrow> u32 \<Rightarrow> u32" where
  "put_flag b f w = (if b then w OR f else w AND NOT f)"

definition tty_ioctl :: "(int \<Rightarrow> u32 \<Rightarrow> 'd \<Rightarrow> int \<times> u32 \<times> 'd) \<Rightarrow> int \<Rightarrow> u32 \<Rightarrow> 'd tty \<Rightarrow> int \<times> u32 \<times> 'd tty" where
  "tty_ioctl dev_ioctl cmd c_lflag s =
     (case dev_ioctl cmd c_lflag (device s) of (r, c_lflag, d) \<Rightarrow>
        let s = s\<lparr>device := d\<rparr>; result = (if r \<noteq> 0 then 1 else 0) in
        if result \<noteq> 0 then (result, c_lflag, s)
        else if cmd = 101 then (0, put_flag (\<not> binary s) ICANON_FLAG (put_flag (echo s) ECHO_FLAG c_lflag), s)
        else if cmd \<in> {102, 103, 104}
        then (0, c_lflag, s\<lparr>echo := (c_lflag AND ECHO_FLAG \<noteq> 0), binary := (c_lflag AND ICANON_FLAG = 0)\<rparr>)
        else (0, c_lflag, s))"

section \<open>Specifications\<close>

text \<open>What is sent for a text.\<close>

definition with_crlf :: "u8 list \<Rightarrow> u8 list" where
  "with_crlf data = concat (map (\<lambda>c. if c = 10 then crlf else [c]) data)"

text \<open>The line editor: the bytes that arrive, whether a \<^verbatim>\<open>\n\<close> is to be skipped, whether there was an end of line, and the line so far.\<close>

fun edit :: "u8 list \<Rightarrow> bool \<Rightarrow> bool \<Rightarrow> u8 list \<Rightarrow> u8 list \<times> bool \<times> bool" where
  "edit [] skip nl line = (line, skip, nl)"
| "edit (c # cs) skip nl line =
     (if c = 13 then edit cs True True (line @ [10])
      else if c = 10 then if skip then edit cs False nl line else edit cs False True (line @ [10])
      else if c = 0x7f \<or> c = 8 then edit cs skip nl (butlast line)
      else edit cs False nl (line @ [c]))"

fun echo_of :: "u8 list \<Rightarrow> bool \<Rightarrow> u8 list" where
  "echo_of [] skip = []"
| "echo_of (c # cs) skip =
     (if c = 13 then crlf @ echo_of cs True
      else if c = 10 then if skip then echo_of cs False else crlf @ echo_of cs False
      else if c = 0x7f \<or> c = 8 then erase_seq @ echo_of cs skip
      else c # echo_of cs False)"

section \<open>Writing\<close>

lemma block_of_Suc: "a \<le> i \<Longrightarrow> i < length buf \<Longrightarrow> block_of buf a (Suc i) = block_of buf a i @ [buf ! i]"
  by (simp add: block_of_def Suc_diff_le take_Suc_conv_app_nth)


lemma block_of_empty [simp]: "b \<le> a \<Longrightarrow> block_of buf a b = []"
  by (simp add: block_of_def)

lemma length_block_of: "e \<le> length buf \<Longrightarrow> length (block_of buf i e) = e - i"
  by (simp add: block_of_def)

lemma with_crlf_simps [simp]:
  "with_crlf [] = []" "with_crlf (c # cs) = (if c = 10 then crlf else [c]) @ with_crlf cs" "with_crlf (xs @ ys) = with_crlf xs @ with_crlf ys"
  by (simp_all add: with_crlf_def)

text \<open>A device that takes every block: \<open>out\<close> is what it has taken.\<close>

definition takes_blocks :: "'d write_block \<Rightarrow> ('d \<Rightarrow> u8 list) \<Rightarrow> bool" where
  "takes_blocks wb out \<longleftrightarrow> (\<forall>bs d. out (snd (wb bs d)) = out d @ bs \<and> (bs \<noteq> [] \<longrightarrow> 0 < fst (wb bs d)))"

lemma with_crlf_plain: "10 \<notin> set xs \<Longrightarrow> with_crlf xs = xs"
  by (induction xs) auto

lemma drop_block: "a \<le> i \<Longrightarrow> drop a data = block_of data a i @ drop i data"
  by (metis append_take_drop_id block_of_def drop_drop le_add_diff_inverse2)

text \<open>The chunk before an end of line, which may be empty.\<close>

lemma write_chunk:
  assumes "takes_blocks wb out" "start \<le> i" "i \<le> length data"
  obtains r d' where "(if i > start then wb (block_of data start i) d else (1, d)) = (r, d')" "0 < r" "out d' = out d @ block_of data start i"
proof -
  obtain r d' where r: "(if i > start then wb (block_of data start i) d else (1, d)) = (r, d')" by fastforce
  have "block_of data start i \<noteq> []" if "start < i" using that assms(3) length_block_of [of i data start] by auto
  then have "0 < r \<and> out d' = out d @ block_of data start i"
    using r assms(1,2) unfolding takes_blocks_def by (cases "start < i") (metis fst_conv snd_conv, auto)
  then show thesis using that r by blast
qed

lemma write_loop_spec:
  assumes "takes_blocks wb out" "start \<le> i" "i \<le> length data" "10 \<notin> set (block_of data start i)"
  shows "\<exists>d'. write_loop wb data i start d = (int (length data), d') \<and> out d' = out d @ with_crlf (drop start data)"
  using assms
proof (induction "length data - i" arbitrary: i start d)
  case 0
  then have i: "i = length data" by simp
  obtain r d' where c: "(if i > start then wb (block_of data start i) d else (1, d)) = (r, d')" "0 < r" "out d' = out d @ block_of data start i"
    by (rule write_chunk [OF 0(2,3,4)])
  have "drop start data = block_of data start i" using drop_block [OF 0(3), of data] i by simp
  then show ?case using c i with_crlf_plain [OF 0(5)] by (subst write_loop.simps) (auto split: if_splits)
next
  case (Suc n)
  then have i: "i < length data" by simp
  have dr: "drop start data = block_of data start i @ data ! i # drop (Suc i) data"
    using drop_block [OF Suc.prems(2), of data] Cons_nth_drop_Suc [OF i] by simp
  show ?case
  proof (cases "data ! i = 10")
    case False
    have "\<exists>d'. write_loop wb data (Suc i) start d = (int (length data), d') \<and> out d' = out d @ with_crlf (drop start data)"
      by (rule Suc.hyps(1)) (use Suc.hyps(2) Suc.prems i False block_of_Suc in auto)
    then show ?thesis using i False by (subst write_loop.simps) simp
  next
    case True
    obtain r1 d1 where c: "(if i > start then wb (block_of data start i) d else (1, d)) = (r1, d1)" "0 < r1" "out d1 = out d @ block_of data start i"
      by (rule write_chunk [OF Suc.prems(1-3)])
    obtain r2 d2 where w: "wb crlf d1 = (r2, d2)" by fastforce
    have w2: "0 < r2" "out d2 = out d1 @ crlf" using w Suc.prems(1) unfolding takes_blocks_def crlf_def by (metis fst_conv snd_conv list.discI)+
    have "\<exists>d'. write_loop wb data (Suc i) (Suc i) d2 = (int (length data), d') \<and> out d' = out d2 @ with_crlf (drop (Suc i) data)"
      by (rule Suc.hyps(1)) (use Suc.hyps(2) Suc.prems i in auto)
    moreover have "write_loop wb data i start d = write_loop wb data (Suc i) (Suc i) d2"
      using i True c(1,2) w w2(1) by (subst write_loop.simps) simp
    ultimately show ?thesis using c(3) w2(2) with_crlf_plain [OF Suc.prems(4)] True by (auto simp: dr)
  qed
qed

section \<open>Reading\<close>



lemma echoBack_frame [simp]:
  "echo (echoBack wb buf i sep s) = echo s" "binary (echoBack wb buf i sep s) = binary s"
  "skipNewline (echoBack wb buf i sep s) = skipNewline s" "\<not> echo s \<Longrightarrow> echoBack wb buf i sep s = s"
  by (auto simp: echoBack_def Let_def split: option.split)












text \<open>A device that gives at least one and at most the requested number of the bytes \<open>inp\<close> that have arrived.\<close>

definition gives_blocks :: "'d read_block \<Rightarrow> ('d \<Rightarrow> u8 list) \<Rightarrow> ('d \<Rightarrow> u8 list) \<Rightarrow> bool" where
  "gives_blocks rb inp out \<longleftrightarrow> (\<forall>n d. 0 < n \<longrightarrow> inp d \<noteq> [] \<longrightarrow>
     (\<exists>k d'. rb n d = (Inr (take k (inp d)), d') \<and> 0 < k \<and> k \<le> n \<and> k \<le> length (inp d) \<and> inp d' = drop k (inp d) \<and> out d' = out d))"


section \<open>Properties\<close>



text \<open>A terminal on which \<^verbatim>\<open>ax\<close>, a backspace and the end of line \<^verbatim>\<open>\r\n\<close> have arrived.\<close>

definition demo_read :: "(u8 list \<times> u8 list) read_block" where
  "demo_read n d = (Inr (take n (fst d)), (drop n (fst d), snd d))"

definition demo_write :: "(u8 list \<times> u8 list) write_block" where
  "demo_write bs d = (int (length bs), (fst d, snd d @ bs))"

lemma demo_device:
  "takes_blocks demo_write snd" "fst (snd (demo_write bs d)) = fst d" "gives_blocks demo_read fst snd"
proof -
  show "takes_blocks demo_write snd" "fst (snd (demo_write bs d)) = fst d" by (simp_all add: takes_blocks_def demo_write_def)
  have "\<exists>k d'. demo_read n d = (Inr (take k (fst d)), d') \<and> 0 < k \<and> k \<le> n \<and> k \<le> length (fst d) \<and> fst d' = drop k (fst d) \<and> snd d' = snd d"
    if "0 < n" "fst d \<noteq> []" for n d
    using that by (intro exI [of _ "min n (length (fst d))"]) (simp add: demo_read_def min_def)
  then show "gives_blocks demo_read fst snd" unfolding gives_blocks_def by blast
qed


text \<open>What is read on that terminal, and what is echoed: \<^verbatim>\<open>ax\<close>, the sequence that erases a character, and the end of line.\<close>

lemma demo_line: "edit [97, 120, 8, 13, 10] False False [] = ([97, 10], False, True)"
  "echo_of [97, 120, 8, 13, 10] False = [97, 120] @ erase_seq @ crlf"
  by simp_all

text \<open>Writing. On a device that takes every block, \<^verbatim>\<open>write\<close> sends the text with every \<^verbatim>\<open>\n\<close> replaced by \<^verbatim>\<open>\r\n\<close> and nothing else, and
  returns the length of the text.\<close>

theorem terminal_write_translates_newlines:
  assumes "takes_blocks wb out" "\<not> binary s"
  shows "\<exists>d'. tty_write wb data s = (int (length data), s\<lparr>device := d'\<rparr>) \<and> out d' = out (device s) @ with_crlf data"
  using write_loop_spec [OF assms(1), of 0 0 data "device s"] assms(2) by (auto simp: tty_write_def)

theorem terminal_write_translates_newlines_witness:
  "\<exists>d'. tty_write demo_write [97, 10, 10, 98] (new_TerminalDevice ([], [])) = (4, (new_TerminalDevice ([], []))\<lparr>device := d'\<rparr>)
     \<and> snd d' = [97, 13, 10, 13, 10, 98]"
  using terminal_write_translates_newlines [OF demo_device(1), of "new_TerminalDevice ([], [])" "[97, 10, 10, 98]"]
  by (simp add: new_TerminalDevice_def crlf_def)

text \<open>A backspace copies one byte too many: with the buffer of the caller full, the byte after it is read.\<close>

lemma backspace_reads_past_buffer: "normalize wb [8] 0 1 s = Inl OutOfBounds"
  by (subst normalize_def, subst normalize_loop.simps) (simp add: Let_def memmove_def)

text \<open>A backspace after the end of line, in the same block, erases it, and \<^verbatim>\<open>read\<close> returns no byte.\<close>

lemma erased_newline_reads_nothing:
  "map_option (map_sum id fst) (tty_read demo_read demo_write 4 (replicate 5 0) (new_TerminalDevice ([10, 8], []))) = Some (Inr 0)"
  by code_simp

text \<open>An error of the device is reported as 1.\<close>

lemma ioctl_error_is_one:
  assumes "dev_ioctl cmd c_lflag (device s) = (r, c_lflag', d)" "r \<noteq> 0"
  shows "tty_ioctl dev_ioctl cmd c_lflag s = (1, c_lflag', s\<lparr>device := d\<rparr>)"
  using assms by (simp add: tty_ioctl_def)

end
