(* ===== verification/Event_Queue.thy ===== *)
theory Event_Queue
  imports Ring_Queues
begin

text \<open>
  \<^verbatim>\<open>class FixedEventQueue\<close> (\<^verbatim>\<open>e20/e20.h\<close>): a queue of events of fixed size between threads that post, threads that run the events, and
  interrupts that post. The lists of waiting threads go through variables on the stacks of the threads; they are lists of
  threads here, with the token of each. The code between two points where a thread waits runs with interrupts
  disabled and is one step of \<open>ev_step\<close>. An event is a value; a thread that took one calls it in a later step, with interrupts
  enabled, and what the event does is what the thread does next. \<open>posted\<close>, \<open>taken\<close> and \<open>called\<close> are the history of the events
  posted, taken and called, the last two with the thread.
\<close>

section \<open>The queue\<close>

text \<open>What a thread does: nothing in the queue, waiting to post an event, waiting for one, or about to call the one it took.\<close>

datatype 'a ev_pc = EvIdle | EvPosting 'a | EvGetting | EvCalling 'a

record 'a evq =
  ev_data :: "'a list"
  ev_put :: u32
  ev_get :: u32
  ev_n :: u32
  ev_size :: u32
  waitingGet :: "nat list"
  waitingPut :: "nat list"
  ev_token :: "nat \<Rightarrow> bool"
  ev_pc :: "nat \<Rightarrow> 'a ev_pc"
  posted :: "'a list"
  taken :: "(nat \<times> 'a) list"
  called :: "(nat \<times> 'a) list"

definition new_evq :: "'a list \<Rightarrow> u32 \<Rightarrow> 'a evq" where
  "new_evq buf sz = \<lparr>ev_data = buf, ev_put = 0, ev_get = 0, ev_n = 0, ev_size = sz, waitingGet = [], waitingPut = [],
     ev_token = (\<lambda>_. False), ev_pc = (\<lambda>_. EvIdle), posted = [], taken = [], called = []\<rparr>"

text \<open>The first waiting thread gets the token and leaves the list.\<close>

definition wake_getter :: "'a evq \<Rightarrow> 'a evq" where
  "wake_getter q = (case waitingGet q of [] \<Rightarrow> q | t # ts \<Rightarrow> q\<lparr>ev_token := (ev_token q)(t := True), waitingGet := ts\<rparr>)"

definition wake_putter :: "'a evq \<Rightarrow> 'a evq" where
  "wake_putter q = (case waitingPut q of [] \<Rightarrow> q | t # ts \<Rightarrow> q\<lparr>ev_token := (ev_token q)(t := True), waitingPut := ts\<rparr>)"

text \<open>\<^verbatim>\<open>IRQpostImpl\<close>: whether there was room, and whether the thread woken has a higher priority than the current one.\<close>

definition IRQpostImpl :: "(nat \<Rightarrow> int) \<Rightarrow> nat \<Rightarrow> 'a \<Rightarrow> 'a evq \<Rightarrow> ('a evq \<times> bool \<times> bool) result" where
  "IRQpostImpl prio me event q =
     (if ev_n q \<ge> ev_size q then Inr (q, False, False)
      else rbind (arr_set (ev_data q) (unat (ev_put q)) event) (\<lambda>d.
        let q = q\<lparr>ev_data := d, ev_put := ev_put q + 1\<rparr>;
            q = (if ev_put q \<ge> ev_size q then q\<lparr>ev_put := 0\<rparr> else q);
            q = q\<lparr>ev_n := ev_n q + 1, posted := posted q @ [event]\<rparr>;
            hppw = (case waitingGet q of [] \<Rightarrow> False | t # ts \<Rightarrow> prio t > prio me)
        in Inr (wake_getter q, True, hppw)))"

text \<open>A thread puts itself at the head of one of the lists.\<close>

definition wait_get :: "nat \<Rightarrow> 'a evq \<Rightarrow> 'a evq" where
  "wait_get th q = q\<lparr>ev_token := (ev_token q)(th := False), waitingGet := th # waitingGet q, ev_pc := (ev_pc q)(th := EvGetting)\<rparr>"

definition wait_put :: "nat \<Rightarrow> 'a \<Rightarrow> 'a evq \<Rightarrow> 'a evq" where
  "wait_put th event q = q\<lparr>ev_token := (ev_token q)(th := False), waitingPut := th # waitingPut q, ev_pc := (ev_pc q)(th := EvPosting event)\<rparr>"

text \<open>\<^verbatim>\<open>postImpl\<close> from its start or from the end of a wait, up to the next wait or to its end.\<close>

definition post_turn :: "nat \<Rightarrow> 'a \<Rightarrow> 'a evq \<Rightarrow> 'a evq result" where
  "post_turn th event q =
     (if ev_n q \<ge> ev_size q
      then Inr (wait_put th event q)
      else rbind (IRQpostImpl (\<lambda>_. 0) th event (q\<lparr>ev_pc := (ev_pc q)(th := EvIdle)\<rparr>)) (\<lambda>(q, ok, hppw). Inr q))"

text \<open>The removal of an event, in \<^verbatim>\<open>runImpl\<close> and \<^verbatim>\<open>runOneImpl\<close>, and the call of the event after it.\<close>

definition take_event :: "nat \<Rightarrow> 'a evq \<Rightarrow> 'a evq result" where
  "take_event th q =
     rbind (arr_get (ev_data q) (unat (ev_get q))) (\<lambda>f.
       let q = q\<lparr>ev_get := ev_get q + 1\<rparr>;
           q = (if ev_get q \<ge> ev_size q then q\<lparr>ev_get := 0\<rparr> else q);
           q = q\<lparr>ev_n := ev_n q - 1, taken := taken q @ [(th, f)], ev_pc := (ev_pc q)(th := EvCalling f)\<rparr>
       in Inr (wake_putter q))"

definition call_event :: "nat \<Rightarrow> 'a \<Rightarrow> 'a evq \<Rightarrow> 'a evq" where
  "call_event th f q = q\<lparr>called := called q @ [(th, f)], ev_pc := (ev_pc q)(th := EvIdle)\<rparr>"

text \<open>\<^verbatim>\<open>runImpl\<close> from the head of its loop, or from the end of a wait, up to the next wait or to the call.\<close>

definition run_turn :: "nat \<Rightarrow> 'a evq \<Rightarrow> 'a evq result" where
  "run_turn th q = (if ev_n q \<le> 0 then Inr (wait_get th q) else take_event th q)"

definition runOneImpl :: "nat \<Rightarrow> 'a evq \<Rightarrow> 'a evq result" where
  "runOneImpl th q = (if ev_n q \<le> 0 then Inr q else take_event th q)"

inductive ev_step :: "'a evq \<Rightarrow> 'a evq result \<Rightarrow> bool" where
  post: "ev_pc q th = EvIdle \<Longrightarrow> ev_step q (post_turn th event q)"
| post_resume: "ev_pc q th = EvPosting event \<Longrightarrow> ev_token q th \<Longrightarrow> ev_step q (post_turn th event q)"
| run: "ev_pc q th = EvIdle \<Longrightarrow> ev_step q (run_turn th q)"
| run_resume: "ev_pc q th = EvGetting \<Longrightarrow> ev_token q th \<Longrightarrow> ev_step q (run_turn th q)"
| run_one: "ev_pc q th = EvIdle \<Longrightarrow> ev_step q (runOneImpl th q)"
| call: "ev_pc q th = EvCalling f \<Longrightarrow> ev_step q (Inr (call_event th f q))"
| irq_post: "ev_step q (rbind (IRQpostImpl prio me event q) (\<lambda>(q, ok, hppw). Inr q))"

inductive ev_reach :: "'a list \<Rightarrow> u32 \<Rightarrow> 'a evq \<Rightarrow> bool" for buf sz where
  init: "ev_reach buf sz (new_evq buf sz)"
| step: "ev_reach buf sz q \<Longrightarrow> ev_step q (Inr q') \<Longrightarrow> ev_reach buf sz q'"

section \<open>The invariant\<close>

definition ev_contents :: "'a evq \<Rightarrow> 'a list" where
  "ev_contents q = ring (ev_data q) (unat (ev_get q)) (unat (ev_n q))"

definition woken_getters :: "'a evq \<Rightarrow> nat set" where
  "woken_getters q = {t. ev_pc q t = EvGetting \<and> ev_token q t}"

definition woken_putters :: "'a evq \<Rightarrow> nat set" where
  "woken_putters q = {t. (\<exists>x. ev_pc q t = EvPosting x) \<and> ev_token q t}"

definition ev_waits :: "'a evq \<Rightarrow> bool" where
  "ev_waits q \<longleftrightarrow> distinct (waitingGet q) \<and> distinct (waitingPut q) \<and>
     set (waitingGet q) = {t. ev_pc q t = EvGetting \<and> \<not> ev_token q t} \<and>
     set (waitingPut q) = {t. (\<exists>x. ev_pc q t = EvPosting x) \<and> \<not> ev_token q t} \<and>
     finite (woken_getters q) \<and> finite (woken_putters q)"

definition ev_ring :: "'a evq \<Rightarrow> bool" where
  "ev_ring q \<longleftrightarrow> ring_ok (ev_data q) (ev_put q) (ev_get q) (ev_n q) (ev_size q) \<and> posted q = map snd (taken q) @ ev_contents q"

definition ev_inv :: "'a evq \<Rightarrow> bool" where
  "ev_inv q \<longleftrightarrow> ev_ring q \<and> ev_waits q \<and>
     (waitingGet q \<noteq> [] \<longrightarrow> unat (ev_n q) \<le> card (woken_getters q)) \<and>
     (waitingPut q \<noteq> [] \<longrightarrow> unat (ev_size q) \<le> unat (ev_n q) + card (woken_putters q))"

section \<open>Waking and waiting\<close>

lemma ev_waitsD:
  assumes "ev_waits q"
  shows "distinct (waitingGet q)" "distinct (waitingPut q)" "t \<in> set (waitingGet q) \<longleftrightarrow> ev_pc q t = EvGetting \<and> \<not> ev_token q t"
    "t \<in> set (waitingPut q) \<longleftrightarrow> (\<exists>x. ev_pc q t = EvPosting x) \<and> \<not> ev_token q t" "finite (woken_getters q)" "finite (woken_putters q)"
  using assms by (auto simp: ev_waits_def)

lemma ev_waitsI:
  assumes "distinct (waitingGet q)" "distinct (waitingPut q)" "\<And>t. t \<in> set (waitingGet q) \<longleftrightarrow> ev_pc q t = EvGetting \<and> \<not> ev_token q t"
    "\<And>t. t \<in> set (waitingPut q) \<longleftrightarrow> (\<exists>x. ev_pc q t = EvPosting x) \<and> \<not> ev_token q t" "finite (woken_getters q)" "finite (woken_putters q)"
  shows "ev_waits q"
  using assms unfolding ev_waits_def by blast

lemma wake_getter_spec:
  assumes "ev_waits q"
  shows "ev_waits (wake_getter q)" "woken_putters (wake_getter q) = woken_putters q" "waitingPut (wake_getter q) = waitingPut q"
    "waitingGet q \<noteq> [] \<Longrightarrow> card (woken_getters (wake_getter q)) = Suc (card (woken_getters q))"
    "waitingGet q = [] \<Longrightarrow> wake_getter q = q"
proof -
  note D = ev_waitsD [OF assms]
  have "ev_waits (wake_getter q) \<and> woken_putters (wake_getter q) = woken_putters q \<and> waitingPut (wake_getter q) = waitingPut q \<and>
    card (woken_getters (wake_getter q)) = Suc (card (woken_getters q))" if "waitingGet q = t # ts" for t ts
  proof -
    have t: "ev_pc q t = EvGetting" "\<not> ev_token q t" "t \<notin> set ts" using D(1) D(3) [of t] that by auto
    have g: "woken_getters (wake_getter q) = insert t (woken_getters q)" using t that by (auto simp: woken_getters_def wake_getter_def)
    have p: "woken_putters (wake_getter q) = woken_putters q" using t that by (auto simp: woken_putters_def wake_getter_def)
    have "ev_waits (wake_getter q)"
    proof (rule ev_waitsI)
      show "u \<in> set (waitingGet (wake_getter q)) \<longleftrightarrow> ev_pc (wake_getter q) u = EvGetting \<and> \<not> ev_token (wake_getter q) u" for u
        using D(3) [of u] t that by (auto simp: wake_getter_def)
      show "u \<in> set (waitingPut (wake_getter q)) \<longleftrightarrow> (\<exists>x. ev_pc (wake_getter q) u = EvPosting x) \<and> \<not> ev_token (wake_getter q) u" for u
        using D(4) [of u] t that by (auto simp: wake_getter_def)
    qed (use D that g p in \<open>auto simp: wake_getter_def\<close>)
    moreover have "t \<notin> woken_getters q" using t by (simp add: woken_getters_def)
    ultimately show ?thesis using g p D(5) that by (simp add: wake_getter_def)
  qed
  then show "ev_waits (wake_getter q)" "woken_putters (wake_getter q) = woken_putters q" "waitingPut (wake_getter q) = waitingPut q"
    "waitingGet q \<noteq> [] \<Longrightarrow> card (woken_getters (wake_getter q)) = Suc (card (woken_getters q))" "waitingGet q = [] \<Longrightarrow> wake_getter q = q"
    using assms by (cases "waitingGet q"; simp add: wake_getter_def)+
qed

lemma wake_putter_spec:
  assumes "ev_waits q"
  shows "ev_waits (wake_putter q)" "woken_getters (wake_putter q) = woken_getters q" "waitingGet (wake_putter q) = waitingGet q"
    "waitingPut q \<noteq> [] \<Longrightarrow> card (woken_putters (wake_putter q)) = Suc (card (woken_putters q))"
    "waitingPut q = [] \<Longrightarrow> wake_putter q = q"
proof -
  note D = ev_waitsD [OF assms]
  have "ev_waits (wake_putter q) \<and> woken_getters (wake_putter q) = woken_getters q \<and> waitingGet (wake_putter q) = waitingGet q \<and>
    card (woken_putters (wake_putter q)) = Suc (card (woken_putters q))" if "waitingPut q = t # ts" for t ts
  proof -
    have t: "\<exists>x. ev_pc q t = EvPosting x" "\<not> ev_token q t" "t \<notin> set ts" using D(2) D(4) [of t] that by auto
    have g: "woken_putters (wake_putter q) = insert t (woken_putters q)" using t that by (auto simp: woken_putters_def wake_putter_def)
    have p: "woken_getters (wake_putter q) = woken_getters q" using t that by (auto simp: woken_getters_def wake_putter_def)
    have "ev_waits (wake_putter q)"
    proof (rule ev_waitsI)
      show "u \<in> set (waitingGet (wake_putter q)) \<longleftrightarrow> ev_pc (wake_putter q) u = EvGetting \<and> \<not> ev_token (wake_putter q) u" for u
        using D(3) [of u] t that by (auto simp: wake_putter_def)
      show "u \<in> set (waitingPut (wake_putter q)) \<longleftrightarrow> (\<exists>x. ev_pc (wake_putter q) u = EvPosting x) \<and> \<not> ev_token (wake_putter q) u" for u
        using D(4) [of u] t that by (auto simp: wake_putter_def)
    qed (use D that g p in \<open>auto simp: wake_putter_def\<close>)
    moreover have "t \<notin> woken_putters q" using t by (simp add: woken_putters_def)
    ultimately show ?thesis using g p D(6) that by (simp add: wake_putter_def)
  qed
  then show "ev_waits (wake_putter q)" "woken_getters (wake_putter q) = woken_getters q" "waitingGet (wake_putter q) = waitingGet q"
    "waitingPut q \<noteq> [] \<Longrightarrow> card (woken_putters (wake_putter q)) = Suc (card (woken_putters q))" "waitingPut q = [] \<Longrightarrow> wake_putter q = q"
    using assms by (cases "waitingPut q"; simp add: wake_putter_def)+
qed

lemma wake_frame_ev [simp]:
  "ev_n (wake_getter q) = ev_n q" "ev_size (wake_getter q) = ev_size q" "ev_ring (wake_getter q) = ev_ring q"
  "ev_n (wake_putter q) = ev_n q" "ev_size (wake_putter q) = ev_size q" "ev_ring (wake_putter q) = ev_ring q"
  by (auto simp: wake_getter_def wake_putter_def ev_ring_def ev_contents_def split: list.split)

text \<open>The threads that run: those that do not wait, and those that were woken; they do something else than wait.\<close>

definition runs :: "'a evq \<Rightarrow> nat \<Rightarrow> bool" where
  "runs q th \<longleftrightarrow> ev_pc q th = EvIdle \<or> (\<exists>x. ev_pc q th = EvCalling x) \<or> ev_token q th"

definition outside_pc :: "'a ev_pc \<Rightarrow> bool" where
  "outside_pc c \<longleftrightarrow> c = EvIdle \<or> (\<exists>x. c = EvCalling x)"

lemma outside_simps [simp]: "outside_pc EvIdle" "outside_pc (EvCalling x)"
  by (simp_all add: outside_pc_def)

lemma runs_spec:
  assumes "ev_waits q" "runs q th" "outside_pc c"
  shows "ev_waits (q\<lparr>ev_pc := (ev_pc q)(th := c)\<rparr>)"
    "woken_getters (q\<lparr>ev_pc := (ev_pc q)(th := c)\<rparr>) = woken_getters q - {th}"
    "woken_putters (q\<lparr>ev_pc := (ev_pc q)(th := c)\<rparr>) = woken_putters q - {th}"
proof -
  note D = ev_waitsD [OF assms(1)]
  have c: "c \<noteq> EvGetting" "c \<noteq> EvPosting x" for x using assms(3) by (auto simp: outside_pc_def)
  let ?q = "q\<lparr>ev_pc := (ev_pc q)(th := c)\<rparr>"
  show g: "woken_getters ?q = woken_getters q - {th}" and p: "woken_putters ?q = woken_putters q - {th}"
    using c by (auto simp: woken_getters_def woken_putters_def)
  have n: "th \<notin> set (waitingGet q)" "th \<notin> set (waitingPut q)" using assms(2) D(3,4) by (auto simp: runs_def)
  show "ev_waits ?q"
  proof (rule ev_waitsI)
    show "u \<in> set (waitingGet ?q) \<longleftrightarrow> ev_pc ?q u = EvGetting \<and> \<not> ev_token ?q u" for u using D(3) n c by auto
    show "u \<in> set (waitingPut ?q) \<longleftrightarrow> (\<exists>x. ev_pc ?q u = EvPosting x) \<and> \<not> ev_token ?q u" for u using D(4) n c by auto
  qed (use D g p in simp_all)
qed

lemma blocks_spec:
  assumes "ev_waits q" "runs q th"
  shows "ev_waits (wait_get th q)" "ev_waits (wait_put th x q)"
    "woken_getters (wait_get th q) = woken_getters q - {th}" "woken_putters (wait_get th q) = woken_putters q - {th}"
    "woken_getters (wait_put th x q) = woken_getters q - {th}" "woken_putters (wait_put th x q) = woken_putters q - {th}"
proof -
  note D = ev_waitsD [OF assms(1)]
  show w: "woken_getters (wait_get th q) = woken_getters q - {th}" "woken_putters (wait_get th q) = woken_putters q - {th}"
    "woken_getters (wait_put th x q) = woken_getters q - {th}" "woken_putters (wait_put th x q) = woken_putters q - {th}"
    by (auto simp: woken_getters_def woken_putters_def wait_get_def wait_put_def)
  have n: "th \<notin> set (waitingGet q)" "th \<notin> set (waitingPut q)" using assms(2) D(3,4) by (auto simp: runs_def)
  show "ev_waits (wait_get th q)"
  proof (rule ev_waitsI)
    show "u \<in> set (waitingGet (wait_get th q)) \<longleftrightarrow> ev_pc (wait_get th q) u = EvGetting \<and> \<not> ev_token (wait_get th q) u" for u
      using D(3) n by (auto simp: wait_get_def wait_put_def)
    show "u \<in> set (waitingPut (wait_get th q)) \<longleftrightarrow> (\<exists>x. ev_pc (wait_get th q) u = EvPosting x) \<and> \<not> ev_token (wait_get th q) u" for u
      using D(4) n by (auto simp: wait_get_def wait_put_def)
  qed (use D n w in \<open>simp_all add: wait_get_def wait_put_def\<close>)
  show "ev_waits (wait_put th x q)"
  proof (rule ev_waitsI)
    show "u \<in> set (waitingGet (wait_put th x q)) \<longleftrightarrow> ev_pc (wait_put th x q) u = EvGetting \<and> \<not> ev_token (wait_put th x q) u" for u
      using D(3) n by (auto simp: wait_get_def wait_put_def)
    show "u \<in> set (waitingPut (wait_put th x q)) \<longleftrightarrow> (\<exists>y. ev_pc (wait_put th x q) u = EvPosting y) \<and> \<not> ev_token (wait_put th x q) u" for u
      using D(4) n by (auto simp: wait_get_def wait_put_def)
  qed (use D n w in \<open>simp_all add: wait_get_def wait_put_def\<close>)
qed

section \<open>Steps\<close>

lemma ev_invI:
  assumes "ev_ring q" "ev_waits q" "waitingGet q \<noteq> [] \<Longrightarrow> unat (ev_n q) \<le> card (woken_getters q)"
    "waitingPut q \<noteq> [] \<Longrightarrow> unat (ev_size q) \<le> unat (ev_n q) + card (woken_putters q)"
  shows "ev_inv q"
  using assms by (simp add: ev_inv_def)

lemma ev_invD:
  assumes "ev_inv q"
  shows "ev_ring q" "ev_waits q" "waitingGet q \<noteq> [] \<Longrightarrow> unat (ev_n q) \<le> card (woken_getters q)"
    "waitingPut q \<noteq> [] \<Longrightarrow> unat (ev_size q) \<le> unat (ev_n q) + card (woken_putters q)"
  using assms by (simp_all add: ev_inv_def)

lemma ev_waits_cong:
  assumes "waitingGet q' = waitingGet q" "waitingPut q' = waitingPut q" "ev_pc q' = ev_pc q" "ev_token q' = ev_token q"
  shows "ev_waits q' = ev_waits q" "woken_getters q' = woken_getters q" "woken_putters q' = woken_putters q"
  using assms by (simp_all add: ev_waits_def woken_getters_def woken_putters_def)

text \<open>An event is posted, by a thread that was woken or by an interrupt.\<close>

lemma IRQpostImpl_spec:
  assumes "ev_ring q" "ev_waits q" "ev_n q < ev_size q"
    and G: "waitingGet q \<noteq> [] \<Longrightarrow> unat (ev_n q) \<le> card (woken_getters q)"
    and P: "waitingPut q \<noteq> [] \<Longrightarrow> unat (ev_size q) \<le> Suc (unat (ev_n q)) + card (woken_putters q)"
  obtains q' hppw where "IRQpostImpl prio me event q = Inr (q', True, hppw)" "ev_inv q'"
    "hppw \<longleftrightarrow> waitingGet q \<noteq> [] \<and> prio (hd (waitingGet q)) > prio me" "posted q' = posted q @ [event]"
proof -
  have r: "ring_ok (ev_data q) (ev_put q) (ev_get q) (ev_n q) (ev_size q)" "posted q = map snd (taken q) @ ev_contents q" using assms(1) by (simp_all add: ev_ring_def)
  have room: "ev_n q \<noteq> ev_size q" using assms(3) by simp
  note put = ring_ok_put [OF r(1) room]
  let ?p = "if ev_size q \<le> ev_put q + 1 then 0 else ev_put q + 1"
  define q1 where "q1 = q\<lparr>ev_data := (ev_data q)[unat (ev_put q) := event], ev_put := ?p, ev_n := ev_n q + 1, posted := posted q @ [event]\<rparr>"
  have w: "ev_waits q1" "woken_getters q1 = woken_getters q" "woken_putters q1 = woken_putters q" "waitingGet q1 = waitingGet q" "waitingPut q1 = waitingPut q"
    using ev_waits_cong [of q1 q] assms(2) by (simp_all add: q1_def)
  have ring: "ev_ring q1" using put(4) [OF word_advance(2) [OF put(2)], of event] put(5) [of event] r(2)
    by (simp add: ev_ring_def q1_def ev_contents_def)
  have n: "unat (ev_n q1) = Suc (unat (ev_n q))" "ev_size q1 = ev_size q" using put(3) by (simp_all add: q1_def)
  note K = wake_getter_spec [OF w(1)]
  have "ev_inv (wake_getter q1)"
  proof (rule ev_invI)
    show "unat (ev_n (wake_getter q1)) \<le> card (woken_getters (wake_getter q1))" if "waitingGet (wake_getter q1) \<noteq> []"
    proof -
      have "waitingGet q1 \<noteq> []" using that K(5) by auto
      then show ?thesis using K(4) G w n by simp
    qed
    show "unat (ev_size (wake_getter q1)) \<le> unat (ev_n (wake_getter q1)) + card (woken_putters (wake_getter q1))" if "waitingPut (wake_getter q1) \<noteq> []"
      using that K(2,3) P w n by simp
  qed (use K(1) ring in simp_all)
  moreover have "IRQpostImpl prio me event q = Inr (wake_getter q1, True, waitingGet q \<noteq> [] \<and> prio (hd (waitingGet q)) > prio me)"
    using assms(3) put(1) by (auto simp: IRQpostImpl_def arr_set_def Let_def q1_def split: list.split)
  moreover have "posted (wake_getter q1) = posted q @ [event]" by (simp add: wake_getter_def q1_def split: list.split)
  ultimately show thesis using that by blast
qed

text \<open>An event is taken, by a thread that was woken or by one that only looks.\<close>

lemma take_event_spec:
  assumes "ev_ring q" "ev_waits q" "runs q th" "ev_n q \<noteq> 0"
    and G: "waitingGet q \<noteq> [] \<Longrightarrow> unat (ev_n q) \<le> Suc (card (woken_getters q - {th}))"
    and P: "waitingPut q \<noteq> [] \<Longrightarrow> unat (ev_size q) \<le> unat (ev_n q) + card (woken_putters q - {th})"
  obtains q' where "take_event th q = Inr q'" "ev_inv q'"
proof -
  have r: "ring_ok (ev_data q) (ev_put q) (ev_get q) (ev_n q) (ev_size q)" "posted q = map snd (taken q) @ ev_contents q"
    using assms(1) by (simp_all add: ev_ring_def)
  note get = ring_ok_get [OF r(1) assms(4)]
  let ?g = "if ev_size q \<le> ev_get q + 1 then 0 else ev_get q + 1" and ?f = "ev_data q ! unat (ev_get q)"
  define q0 where "q0 = q\<lparr>ev_pc := (ev_pc q)(th := EvCalling ?f)\<rparr>"
  note R = runs_spec [OF assms(2,3), of "EvCalling ?f", folded q0_def]
  define q1 where "q1 = q\<lparr>ev_get := ?g, ev_n := ev_n q - 1, taken := taken q @ [(th, ?f)], ev_pc := (ev_pc q)(th := EvCalling ?f)\<rparr>"
  have w: "ev_waits q1" "woken_getters q1 = woken_getters q - {th}" "woken_putters q1 = woken_putters q - {th}"
    "waitingGet q1 = waitingGet q" "waitingPut q1 = waitingPut q"
    using ev_waits_cong [of q1 q0] R by (simp_all add: q1_def q0_def)
  have ring: "ev_ring q1" using get(4) [OF word_advance(2) [OF get(2)]] get(5) [OF word_advance(2) [OF get(2)]] r(2)
    by (simp add: ev_ring_def q1_def q0_def ev_contents_def)
  have n: "unat (ev_n q) = Suc (unat (ev_n q1))" "ev_size q1 = ev_size q" using get(3) by (simp_all add: q1_def q0_def)
  note K = wake_putter_spec [OF w(1)]
  have "ev_inv (wake_putter q1)"
  proof (rule ev_invI)
    show "unat (ev_size (wake_putter q1)) \<le> unat (ev_n (wake_putter q1)) + card (woken_putters (wake_putter q1))" if "waitingPut (wake_putter q1) \<noteq> []"
    proof -
      have "waitingPut q1 \<noteq> []" using that K(5) by auto
      then show ?thesis using K(4) P w n by simp
    qed
    show "unat (ev_n (wake_putter q1)) \<le> card (woken_getters (wake_putter q1))" if "waitingGet (wake_putter q1) \<noteq> []"
      using that K(2,3) G w n by simp
  qed (use K(1) ring in simp_all)
  moreover have "take_event th q = Inr (wake_putter q1)"
    using get(1) by (auto simp: take_event_def arr_get_def Let_def q1_def q0_def)
  ultimately show thesis using that by blast
qed

text \<open>A thread that runs is counted at most once among those that were woken.\<close>

lemma card_others: "finite A \<Longrightarrow> card A \<le> Suc (card (A - {a}))"
  by (metis card_Diff1_le card_Suc_Diff1 Diff_empty Diff_insert0 le_SucI order_refl)

lemma post_turn_spec:
  assumes "ev_inv q" "runs q th" "ev_pc q th \<noteq> EvGetting"
  obtains q' where "post_turn th event q = Inr q'" "ev_inv q'"
proof -
  note I = ev_invD [OF assms(1)]
  have g: "woken_getters q - {th} = woken_getters q" using assms(3) by (auto simp: woken_getters_def)
  show thesis
  proof (cases "ev_n q \<ge> ev_size q")
    case True
    have "ev_inv (wait_put th event q)"
    proof (rule ev_invI)
      show "ev_ring (wait_put th event q)" using I(1) by (simp add: ev_ring_def wait_put_def ev_contents_def)
      show "unat (ev_n (wait_put th event q)) \<le> card (woken_getters (wait_put th event q))" if "waitingGet (wait_put th event q) \<noteq> []"
        using that I(3) g blocks_spec(5) [OF I(2) assms(2), of event] by (simp add: wait_put_def)
      show "unat (ev_size (wait_put th event q)) \<le> unat (ev_n (wait_put th event q)) + card (woken_putters (wait_put th event q))"
        using True by (simp add: wait_put_def word_le_nat_alt)
    qed (rule blocks_spec [OF I(2) assms(2)])
    then show thesis using that True by (simp add: post_turn_def)
  next
    case False
    let ?q = "q\<lparr>ev_pc := (ev_pc q)(th := EvIdle)\<rparr>"
    note R = runs_spec [OF I(2) assms(2), of EvIdle]
    have c: "card (woken_putters q) \<le> Suc (card (woken_putters q - {th}))" by (rule card_others) (rule ev_waitsD(6) [OF I(2)])
    obtain q' h where "IRQpostImpl (\<lambda>_. 0) th event ?q = Inr (q', True, h)" "ev_inv q'"
    proof (rule IRQpostImpl_spec [of ?q, where prio = "\<lambda>_. 0" and me = th and event = event])
      show "ev_ring ?q" using I(1) by (simp add: ev_ring_def ev_contents_def)
      show "unat (ev_size ?q) \<le> Suc (unat (ev_n ?q)) + card (woken_putters ?q)" if "waitingPut ?q \<noteq> []" using that I(4) R(3) c by simp
    qed (use R False I(3) g in simp_all)
    then show thesis using that False by (simp add: post_turn_def)
  qed
qed

lemma run_turn_spec:
  assumes "ev_inv q" "runs q th" "\<nexists>x. ev_pc q th = EvPosting x"
  obtains q' where "run_turn th q = Inr q'" "ev_inv q'"
proof -
  note I = ev_invD [OF assms(1)]
  have g: "woken_putters q - {th} = woken_putters q" using assms(3) by (auto simp: woken_putters_def)
  show thesis
  proof (cases "ev_n q = 0")
    case True
    have "ev_inv (wait_get th q)"
    proof (rule ev_invI)
      show "ev_ring (wait_get th q)" using I(1) by (simp add: ev_ring_def wait_get_def ev_contents_def)
      show "unat (ev_size (wait_get th q)) \<le> unat (ev_n (wait_get th q)) + card (woken_putters (wait_get th q))" if "waitingPut (wait_get th q) \<noteq> []"
        using that I(4) g blocks_spec(4) [OF I(2) assms(2)] by (simp add: wait_get_def)
      show "unat (ev_n (wait_get th q)) \<le> card (woken_getters (wait_get th q))"
        using True by (simp add: wait_get_def)
    qed (rule blocks_spec [OF I(2) assms(2)])
    then show thesis using that True by (simp add: run_turn_def)
  next
    case False
    have c: "card (woken_getters q) \<le> Suc (card (woken_getters q - {th}))" by (rule card_others) (rule ev_waitsD(5) [OF I(2)])
    obtain q' where "take_event th q = Inr q'" "ev_inv q'"
      by (rule take_event_spec [OF I(1,2) assms(2) False]) (use I(3,4) g c in fastforce)+
    then show thesis using that False by (simp add: run_turn_def)
  qed
qed

lemma runOneImpl_spec:
  assumes "ev_inv q" "ev_pc q th = EvIdle"
  obtains q' where "runOneImpl th q = Inr q'" "ev_inv q'"
proof (cases "ev_n q = 0")
  case True
  then show thesis using that assms by (simp add: runOneImpl_def)
next
  case False
  have "runs q th" "\<nexists>x. ev_pc q th = EvPosting x" using assms(2) by (simp_all add: runs_def)
  from run_turn_spec [OF assms(1) this] obtain q' where "run_turn th q = Inr q'" "ev_inv q'" .
  then show thesis using that False by (simp add: runOneImpl_def run_turn_def)
qed

lemma call_event_spec:
  assumes "ev_inv q" "ev_pc q th = EvCalling f"
  shows "ev_inv (call_event th f q)"
proof -
  note I = ev_invD [OF assms(1)]
  have r: "runs q th" using assms(2) by (simp add: runs_def)
  let ?q = "q\<lparr>ev_pc := (ev_pc q)(th := EvIdle)\<rparr>"
  have "woken_getters q - {th} = woken_getters q" "woken_putters q - {th} = woken_putters q"
    using assms(2) by (auto simp: woken_getters_def woken_putters_def)
  with runs_spec [OF I(2) r, of EvIdle] have "ev_waits ?q" "woken_getters ?q = woken_getters q" "woken_putters ?q = woken_putters q" by simp_all
  moreover have "ev_waits (call_event th f q) = ev_waits ?q" "woken_getters (call_event th f q) = woken_getters ?q"
    "woken_putters (call_event th f q) = woken_putters ?q"
    by (rule ev_waits_cong; simp add: call_event_def)+
  ultimately show ?thesis using I by (intro ev_invI) (simp_all add: call_event_def ev_ring_def ev_contents_def)
qed

lemma irq_post_spec:
  assumes "ev_inv q"
  obtains q' ok hppw where "IRQpostImpl prio me event q = Inr (q', ok, hppw)" "ev_inv q'"
proof (cases "ev_n q < ev_size q")
  case True
  note I = ev_invD [OF assms]
  show thesis by (rule IRQpostImpl_spec [OF I(1,2) True I(3), of prio me event]) (use I(4) that in auto)
next
  case False
  show thesis by (rule that [of q False False]) (use False assms in \<open>simp_all add: IRQpostImpl_def not_less\<close>)
qed

lemma ev_step_spec:
  assumes "ev_step q r" "ev_inv q"
  shows "\<exists>q'. r = Inr q' \<and> ev_inv q'"
  using assms
proof cases
  case (post th event)
  then show ?thesis using post_turn_spec [OF assms(2), of th event] by (auto simp: runs_def)
next
  case (post_resume th event)
  then show ?thesis using post_turn_spec [OF assms(2), of th event] by (auto simp: runs_def)
next
  case (run th)
  then show ?thesis using run_turn_spec [OF assms(2), of th] by (auto simp: runs_def)
next
  case (run_resume th)
  then show ?thesis using run_turn_spec [OF assms(2), of th] by (auto simp: runs_def)
next
  case (run_one th)
  then show ?thesis using runOneImpl_spec [OF assms(2)] by metis
next
  case (call th f)
  then show ?thesis using call_event_spec [OF assms(2)] by simp
next
  case (irq_post prio me event)
  obtain q' ok h where "IRQpostImpl prio me event q = Inr (q', ok, h)" "ev_inv q'" by (rule irq_post_spec [OF assms(2)])
  then show ?thesis using irq_post by simp
qed

lemma IRQpostImpl_size: "IRQpostImpl prio me event q = Inr (q', r) \<Longrightarrow> ev_size q' = ev_size q"
  by (auto simp: IRQpostImpl_def Let_def rbind_Inr_iff split: if_splits)

lemma take_event_size: "take_event th q = Inr q' \<Longrightarrow> ev_size q' = ev_size q"
  by (auto simp: take_event_def Let_def rbind_Inr_iff)

lemma ev_step_size:
  assumes "ev_step q (Inr q')"
  shows "ev_size q' = ev_size q"
  using assms
proof cases
  case (post th event)
  then show ?thesis by (auto simp: post_turn_def wait_put_def rbind_Inr_iff eq_commute [of "Inr q'"] dest!: IRQpostImpl_size split: if_splits)
next
  case (post_resume th event)
  then show ?thesis by (auto simp: post_turn_def wait_put_def rbind_Inr_iff eq_commute [of "Inr q'"] dest!: IRQpostImpl_size split: if_splits)
next
  case (run th)
  then show ?thesis by (auto simp: run_turn_def wait_get_def eq_commute [of "Inr q'"] dest!: take_event_size split: if_splits)
next
  case (run_resume th)
  then show ?thesis by (auto simp: run_turn_def wait_get_def eq_commute [of "Inr q'"] dest!: take_event_size split: if_splits)
next
  case (run_one th)
  then show ?thesis by (auto simp: runOneImpl_def eq_commute [of "Inr q'"] dest!: take_event_size split: if_splits)
next
  case (call th f)
  then show ?thesis by (simp add: call_event_def)
next
  case (irq_post prio me event)
  then show ?thesis by (auto simp: rbind_Inr_iff eq_commute [of "Inr q'"] dest!: IRQpostImpl_size)
qed

lemma ev_reach_inv:
  assumes "ev_reach buf sz q" "length buf = unat sz"
  shows "ev_inv q \<and> ev_size q = sz"
  using assms
proof (induction rule: ev_reach.induct)
  case init
  have "ev_inv (new_evq buf sz)"
    using init by (intro ev_invI ev_waitsI) (auto simp: new_evq_def ev_ring_def ring_ok_def ev_contents_def woken_getters_def woken_putters_def word_neq_0_conv)
  then show ?case by (simp add: new_evq_def)
next
  case (step q q')
  then show ?case using ev_step_spec [OF step.hyps(2)] ev_step_size [OF step.hyps(2)] by auto
qed

section \<open>Calls\<close>

text \<open>The events of a thread in a history, and the event a thread is about to call.\<close>

definition events_of :: "nat \<Rightarrow> (nat \<times> 'a) list \<Rightarrow> 'a list" where
  "events_of t xs = map snd (filter (\<lambda>(u, _). u = t) xs)"

definition calling :: "'a evq \<Rightarrow> nat \<Rightarrow> 'a list" where
  "calling q t = (case ev_pc q t of EvCalling x \<Rightarrow> [x] | _ \<Rightarrow> [])"

definition calls_ok :: "'a evq \<Rightarrow> bool" where
  "calls_ok q \<longleftrightarrow> (\<forall>t. events_of t (taken q) = events_of t (called q) @ calling q t)"

lemma events_of_simps [simp]:
  "events_of t [] = []" "events_of t (xs @ ys) = events_of t xs @ events_of t ys" "events_of t [(u, x)] = (if u = t then [x] else [])"
  by (simp_all add: events_of_def)

lemma events_of_one: "\<forall>(t, x)\<in>set xs. t = c \<Longrightarrow> events_of c xs = map snd xs"
  by (induction xs) (auto simp: events_of_def)

lemma events_of_none: "events_of t xs = [] \<Longrightarrow> (t, x) \<notin> set xs"
  by (auto simp: events_of_def filter_empty_conv)

lemma calls_same:
  assumes "calls_ok q" "taken q' = taken q" "called q' = called q" "\<And>t. calling q' t = calling q t"
  shows "calls_ok q'"
  using assms by (simp add: calls_ok_def)

lemma wake_calls [simp]:
  "taken (wake_getter q) = taken q" "called (wake_getter q) = called q" "ev_pc (wake_getter q) = ev_pc q"
  "taken (wake_putter q) = taken q" "called (wake_putter q) = called q" "ev_pc (wake_putter q) = ev_pc q"
  by (simp_all add: wake_getter_def wake_putter_def split: list.split)

lemma IRQpostImpl_calls:
  assumes "IRQpostImpl prio me event q = Inr (q', r)"
  shows "taken q' = taken q \<and> called q' = called q \<and> ev_pc q' = ev_pc q"
  using assms by (auto simp: IRQpostImpl_def Let_def rbind_Inr_iff split: if_splits)

lemma post_turn_calls:
  assumes "calls_ok q" "calling q th = []" "post_turn th event q = Inr q'"
  shows "calls_ok q'"
proof (cases "ev_n q \<ge> ev_size q")
  case True
  then have "q' = wait_put th event q" using assms(3) by (simp add: post_turn_def)
  then show ?thesis using assms(1,2) by - (rule calls_same [of q], auto simp: wait_put_def calling_def)
next
  case False
  then obtain r where "IRQpostImpl (\<lambda>_. 0) th event (q\<lparr>ev_pc := (ev_pc q)(th := EvIdle)\<rparr>) = Inr (q', r)"
    using assms(3) by (auto simp: post_turn_def rbind_Inr_iff)
  from IRQpostImpl_calls [OF this] show ?thesis using assms(1,2) by - (rule calls_same [of q], auto simp: calling_def)
qed

lemma take_event_calls:
  assumes "calls_ok q" "calling q th = []" "take_event th q = Inr q'"
  shows "calls_ok q'"
proof -
  obtain f where f: "taken q' = taken q @ [(th, f)]" "called q' = called q" "ev_pc q' = (ev_pc q)(th := EvCalling f)"
    using assms(3) by (auto simp: take_event_def Let_def rbind_Inr_iff split: if_splits)
  have "calling q' t = (if t = th then [f] else calling q t)" for t using f(3) by (simp add: calling_def)
  then show ?thesis using assms(1,2) f(1,2) by (simp add: calls_ok_def)
qed

lemma run_turn_calls:
  assumes "calls_ok q" "calling q th = []" "run_turn th q = Inr q'"
  shows "calls_ok q'"
proof (cases "ev_n q \<le> 0")
  case True
  then have "q' = wait_get th q" using assms(3) by (simp add: run_turn_def)
  then show ?thesis using assms(1,2) by - (rule calls_same [of q], auto simp: wait_get_def calling_def)
next
  case False
  then show ?thesis using take_event_calls [OF assms(1,2)] assms(3) by (simp add: run_turn_def)
qed

lemma ev_step_calls:
  assumes "ev_step q (Inr q')" "calls_ok q"
  shows "calls_ok q'"
  using assms(1)
proof cases
  case (post th event)
  then show ?thesis using post_turn_calls [OF assms(2), of th event] by (simp add: calling_def)
next
  case (post_resume th event)
  then show ?thesis using post_turn_calls [OF assms(2), of th event] by (simp add: calling_def)
next
  case (run th)
  then show ?thesis using run_turn_calls [OF assms(2), of th] by (simp add: calling_def)
next
  case (run_resume th)
  then show ?thesis using run_turn_calls [OF assms(2), of th] by (simp add: calling_def)
next
  case (run_one th)
  then show ?thesis using take_event_calls [OF assms(2), of th] assms(2) by (auto simp: calling_def runOneImpl_def split: if_splits)
next
  case (call th f)
  have "calling q' t = (if t = th then [] else calling q t)" for t using call by (simp add: call_event_def calling_def)
  moreover have "calling q th = [f]" using call(2) by (simp add: calling_def)
  ultimately show ?thesis using assms(2) call(1) by (auto simp: calls_ok_def call_event_def)
next
  case (irq_post prio me event)
  then obtain r where "IRQpostImpl prio me event q = Inr (q', r)" by (auto simp: rbind_Inr_iff eq_commute [of "Inr q'"])
  from IRQpostImpl_calls [OF this] show ?thesis using assms(2) by - (rule calls_same [of q], auto simp: calling_def)
qed

lemma ev_reach_calls: "ev_reach buf sz q \<Longrightarrow> calls_ok q"
proof (induction rule: ev_reach.induct)
  case init
  then show ?case by (simp add: calls_ok_def new_evq_def calling_def)
qed (rule ev_step_calls)

section \<open>Properties\<close>

text \<open>C34. The event queue. Under any interleaving of threads that post, threads that run events and interrupts that post, events are
  removed in the order in which they were posted and none is lost or removed twice; every thread calls exactly the events it
  removed, each once and in that order, but for the one it may be about to call. So when only one thread runs events, they are called in
  the order in which they were posted; with several, a thread may call its event after another one called a later event. The
  queue never holds more than its size. No wake up is lost: if a thread still waits for an event, at least as many
  threads were woken and are about to run as there are events, and if one still waits for room, at least as many were woken as there are free
  places. No access is out of bounds.\<close>

theorem event_queue_loses_nothing:
  assumes "length buf = unat sz" "ev_reach buf sz q"
  shows "posted q = map snd (taken q) @ ev_contents q \<and> length (ev_contents q) \<le> unat sz
    \<and> (\<forall>t. events_of t (taken q) = events_of t (called q) @ (case ev_pc q t of EvCalling x \<Rightarrow> [x] | _ \<Rightarrow> []))
    \<and> (\<forall>c. (\<forall>(t, x)\<in>set (taken q). t = c) \<longrightarrow>
         posted q = map snd (called q) @ (case ev_pc q c of EvCalling x \<Rightarrow> [x] | _ \<Rightarrow> []) @ ev_contents q)
    \<and> (\<forall>t. ev_pc q t = EvGetting \<and> \<not> ev_token q t \<longrightarrow> length (ev_contents q) \<le> card (woken_getters q))
    \<and> (\<forall>t x. ev_pc q t = EvPosting x \<and> \<not> ev_token q t \<longrightarrow> unat sz - length (ev_contents q) \<le> card (woken_putters q))
    \<and> (\<forall>r. ev_step q r \<longrightarrow> (\<exists>q'. r = Inr q'))"
proof -
  from ev_reach_inv [OF assms(2,1)] have inv: "ev_inv q" and sz: "ev_size q = sz" by blast+
  note I = ev_invD [OF inv] and D = ev_waitsD [OF I(2)]
  have len: "length (ev_contents q) = unat (ev_n q)" by (simp add: ev_contents_def)
  have fifo: "posted q = map snd (taken q) @ ev_contents q" and le: "length (ev_contents q) \<le> unat sz"
    using I(1) sz len by (simp_all add: ev_ring_def ring_ok_def word_le_nat_alt)
  have calls: "events_of t (taken q) = events_of t (called q) @ calling q t" for t
    using ev_reach_calls [OF assms(2)] by (simp add: calls_ok_def)
  have one: "posted q = map snd (called q) @ calling q c @ ev_contents q" if h: "\<forall>(t, x)\<in>set (taken q). t = c" for c
  proof -
    have "t = c" if tx: "(t, x) \<in> set (called q)" for t x
    proof (rule ccontr)
      assume "t \<noteq> c"
      then have "events_of t (taken q) = []" using h by (auto simp: events_of_def filter_empty_conv)
      then have "events_of t (called q) = []" using calls [of t] by simp
      then show False using events_of_none tx by fast
    qed
    then have "events_of c (called q) = map snd (called q)" by (intro events_of_one) blast
    then show ?thesis using calls [of c] events_of_one [OF h] fifo by simp
  qed
  have "length (ev_contents q) \<le> card (woken_getters q)" if "ev_pc q t = EvGetting" "\<not> ev_token q t" for t
    using that D(3) [of t] I(3) len by (cases "waitingGet q") auto
  moreover have "unat sz - length (ev_contents q) \<le> card (woken_putters q)" if "ev_pc q t = EvPosting x" "\<not> ev_token q t" for t x
    using that D(4) [of t] I(4) len sz by (cases "waitingPut q") auto
  ultimately show ?thesis
    using ev_step_spec [OF _ inv] fifo le calls [unfolded calling_def] one [unfolded calling_def] by (intro conjI allI impI) (simp | blast)+
qed

text \<open>Two threads wait for an event, and an interrupt posts one.\<close>

theorem event_queue_loses_nothing_witness:
  "\<exists>q. ev_reach [0 :: nat] 1 q \<and> posted q = [5] \<and> ev_contents q = [5] \<and> ev_pc q 1 = EvGetting \<and> \<not> ev_token q 1 \<and> 0 < card (woken_getters q)"
proof -
  define q0 where "q0 = new_evq [0 :: nat] 1"
  define q1 where "q1 = wait_get 1 q0"
  define q2 where "q2 = wait_get 2 q1"
  define q3 where "q3 = wake_getter (q2\<lparr>ev_data := [5], ev_n := 1, posted := [5]\<rparr>)"
  have r0: "ev_reach [0] 1 q0" unfolding q0_def by (rule ev_reach.init)
  have "ev_step q0 (run_turn 1 q0)" by (rule ev_step.run) (simp add: q0_def new_evq_def)
  moreover have "run_turn 1 q0 = Inr q1" by (simp add: run_turn_def q1_def q0_def new_evq_def)
  ultimately have r1: "ev_reach [0] 1 q1" using ev_reach.step [OF r0] by simp
  have "ev_step q1 (run_turn 2 q1)" by (rule ev_step.run) (simp add: q1_def wait_get_def q0_def new_evq_def)
  moreover have "run_turn 2 q1 = Inr q2" by (simp add: run_turn_def q2_def q1_def wait_get_def q0_def new_evq_def)
  ultimately have r2: "ev_reach [0] 1 q2" using ev_reach.step [OF r1] by simp
  have "IRQpostImpl (\<lambda>_. 0) 3 5 q2 = Inr (q3, True, False)"
    by (simp add: IRQpostImpl_def arr_set_def q3_def q2_def q1_def q0_def wait_get_def new_evq_def wake_getter_def)
  then have "ev_step q2 (Inr q3)" using ev_step.irq_post [of q2 "\<lambda>_. 0" 3 5] by simp
  from ev_reach.step [OF r2 this] have r3: "ev_reach [0] 1 q3" .
  have p: "posted q3 = [5]" "taken q3 = []" "ev_pc q3 1 = EvGetting" "\<not> ev_token q3 1"
    by (simp_all add: q3_def q2_def q1_def q0_def wait_get_def new_evq_def wake_getter_def)
  from event_queue_loses_nothing [OF _ r3] p have "ev_contents q3 = [5]" "length (ev_contents q3) \<le> card (woken_getters q3)" by auto
  then show ?thesis using r3 p by (intro exI [of _ q3]) simp
qed

end
