(* ===== verification/Spec2Isabelle.thy ===== *)
theory Spec2Isabelle
  imports Intrusive_List Ref_Ptr Kernel_State Ring_Queues Sleeping_List Priority_Scheduler Edf_Scheduler Control_Scheduler Kernel_Core
    Std_Heap Mutex_Sync Pthread_Sync Time_Conversion Os_Timer Unicode
    Path_Resolution Mountpoint_Fs File_Access Dev_Fs Process_Pool Elf_Program Process_Table Mpu_Config System_Calls Terminal Event_Queue
begin

text \<open>
  A verification development for the kernel of Miosix, a real time operating system for microcontrollers. The names
  of files are relative to \<^verbatim>\<open>src/miosix\<close>.

  \<^bold>\<open>The program.\<close> The kernel (\<^verbatim>\<open>kernel/\<close>) schedules threads. A thread has flags that say what it waits for; a
  scheduler (priority, EDF or control based, chosen when the kernel is built) picks the thread to run from the threads
  whose flags are clear; the list of sleeping threads and the hardware timer wake the threads that sleep and end the
  time slices; mutexes (with priority inheritance), POSIX mutexes, condition variables, joins and queues set and clear
  the flags. The kernel is protected by nested locks that disable interrupts or pause the scheduler. On top of it there
  are filesystems (\<^verbatim>\<open>filesystem/\<close>): a table of mounted filesystems, the resolution of paths across them, the file
  descriptors of each process, the filesystem of mount points and the one of devices. Processes have their memory in
  an own pool, are loaded from ELF files and form a tree in which parents wait for their children;
  the kernel checks the pointers of their system calls against the regions that the memory protection unit gives them.

  \<^bold>\<open>How it is modelled.\<close> Every theory has the state of a component as a record, its operations as functions on it with
  the guards and early returns of the source, then the invariant and the properties. Pointers are optional addresses
  into a store (\<^theory_text>\<open>ptr\<close>, \<open>None\<close> is null), so lists are linked in the model the way they are in memory. A call to
  \<^verbatim>\<open>errorHandler\<close> (which reboots), a null dereference and an access out of bounds are values (\<^typ>\<open>fault\<close>) that stop the
  routine; POSIX errors are the negative numbers of the source; C++ exceptions are values (\<^typ>\<open>exn\<close>). A loop that follows
  pointers is a \<open>partial_function (option)\<close>, so that not returning is the value \<open>None\<close>; the properties say that the
  loops return. No fuel is used. Code that blocks is cut at the points where another thread can run: the part before and the part
  after are two functions, and a step relation (\<open>mutex_step\<close>, \<open>pthread_step\<close>, \<open>join_step\<close>, \<open>queue_step\<close>, \<open>once_step\<close>, \<open>rp_step\<close>,
  \<open>timer_step\<close>, \<open>pt_reach\<close>, \<open>ev_step\<close>) interleaves the parts of all threads and of the interrupts in any order.
  Integers are words where the source relies on their width (flags, time conversion, timers, queues, sizes in bytes)
  and \<open>int\<close> or \<open>nat\<close> where they are counters that the invariants bound.

  \<^bold>\<open>The theories.\<close>
  \<^item> \<open>Miosix_Prelude\<close>: machine integers, pointers, faults and their sequencing; the locale \<open>simulation\<close>, in which a
    component refines a specification, with every run of requests as its consequence. Interpreted by the list, the
    locks, the sleeping list, the priority scheduler and, through \<open>bounded_fifo\<close>, the queues.
  \<^item> \<open>Intrusive_List\<close> (\<^verbatim>\<open>kernel/intrusive.h\<close>): the doubly linked list refines a sequence.
  \<^item> \<open>Ref_Ptr\<close> (\<^verbatim>\<open>kernel/intrusive.h\<close>): reference counted pointers under any interleaving of the threads: no object is used after it
    is deleted, deleted twice or forgotten.
  \<^item> \<open>Kernel_State\<close> (\<^verbatim>\<open>kernel/kernel.h\<close>, \<^verbatim>\<open>kernel.cpp\<close>): threads, their flags, the state of the kernel.
  \<^item> \<open>Sleeping_List\<close> (\<^verbatim>\<open>kernel/kernel.cpp\<close>): the sorted list of sleeping threads refines a map from threads to times.
  \<^item> \<open>Priority_Scheduler\<close> (\<^verbatim>\<open>kernel/scheduler/priority\<close>, \<^verbatim>\<open>timer_interrupt.h\<close>): the circular lists per priority refine a
    list of lists; the highest priority ready thread runs, in round robin; dead threads are freed once; the timer is
    never set later than the next wakeup.
  \<^item> \<open>Edf_Scheduler\<close> (\<^verbatim>\<open>kernel/scheduler/edf\<close>): the ready thread with the earliest deadline runs.
  \<^item> \<open>Control_Scheduler\<close> (\<^verbatim>\<open>kernel/scheduler/control\<close>): the list of active threads is the list of the ready ones, and they run in the
    order of that list, into which a thread that wakes up is put by its realtime priority, in bursts within the bounds; floating point arithmetic is an argument.
  \<^item> \<open>Kernel_Core\<close> (\<^verbatim>\<open>kernel/kernel.cpp\<close>): nesting of the locks, creation, termination, join and detach.
  \<^item> \<open>Std_Heap\<close>: the heap algorithms of the C++ library, with the laws of a priority queue as the locale \<open>priority_heap\<close>.
  \<^item> \<open>Mutex_Sync\<close> (\<^verbatim>\<open>kernel/sync.cpp\<close>): recursive mutexes and priority inheritance: mutual exclusion, what a blocked lock
    does to the priorities of the owners, to whom unlock hands the mutex; condition variables.
  \<^item> \<open>Pthread_Sync\<close> (\<^verbatim>\<open>kernel/pthread.cpp\<close>, \<^verbatim>\<open>pthread_private.h\<close>): the waiting lists on the stacks of the threads (locale
    \<open>waiting_fifo\<close>), POSIX mutexes, condition variables and \<^verbatim>\<open>pthread_once\<close>.
  \<^item> \<open>Ring_Queues\<close> (\<^verbatim>\<open>kernel/queue.h\<close>): the queues, refined to bounded FIFOs (locale \<open>bounded_fifo\<close>); no lost wakeup between
    a thread and an interrupt.
  \<^item> \<open>Event_Queue\<close> (\<^verbatim>\<open>e20/e20.h\<close>): the queue of events between threads and interrupts: events are removed in the order they were
    posted in and called once by the thread that removed them, no wake up is lost.
  \<^item> \<open>Time_Conversion\<close> (\<^verbatim>\<open>kernel/timeconversion.h\<close>): fixed point conversion between ticks and nanoseconds: the product is
    exact, the round trip is within two ticks.
  \<^item> \<open>Os_Timer\<close> (\<^verbatim>\<open>interfaces/os_timer.h\<close>): a hardware timer extended to 64 bits with the pending bit; no interrupt is lost, and
    none is early unless a request was late when it was made, which a later request does not cancel.
  \<^item> \<open>Unicode\<close> (\<^verbatim>\<open>util/unicode.cpp\<close>): UTF-8 and UTF-16 decoding and encoding, with round trips.
  \<^item> \<open>Path_Resolution\<close> (\<^verbatim>\<open>filesystem/file_access.cpp\<close>): the in place normalisation of a path across mounted filesystems and
    symbolic links refines a walk over a stack of names.
  \<^item> \<open>Mountpoint_Fs\<close>, \<open>Dev_Fs\<close> (\<^verbatim>\<open>filesystem/mountpointfs\<close>, \<^verbatim>\<open>filesystem/devfs\<close>): the two filesystems of the kernel, the first with the
    laws of a filesystem of directories (locale \<open>directory_fs\<close>).
  \<^item> \<open>Terminal\<close> (\<^verbatim>\<open>filesystem/console\<close>): the terminal on top of a character device; the editing of a line in the buffer of the caller
    is equivalent to a line editor.
  \<^item> \<open>File_Access\<close> (\<^verbatim>\<open>filesystem/file_access.h\<close>, \<^verbatim>\<open>.cpp\<close>): file descriptor tables, mounting and unmounting, the calls on paths over any
    filesystem that satisfies the locale \<open>fs_provider\<close>, interpreted on the filesystem of mount points.
  \<^item> \<open>Process_Pool\<close> (\<^verbatim>\<open>kernel/process_pool.cpp\<close>): the allocator of process memory: areas are aligned, inside and disjoint (locale
    \<open>area_allocator\<close>).
  \<^item> \<open>Elf_Program\<close> (\<^verbatim>\<open>kernel/elf_program.cpp\<close>): validation of a program and construction of its image: a validated program is
    loaded inside the area the pool returned, and its image is the data segment of the file, relocated.
  \<^item> \<open>Process_Table\<close> (\<^verbatim>\<open>kernel/process.cpp\<close>): the tree of processes, their pids, \<^verbatim>\<open>waitpid\<close> and the end of a process under any
    interleaving: every process is on the list of its parent where it belongs, none is used after it was deleted, and \<^verbatim>\<open>waitpid\<close>
    returns the exit code of a child that has ended.
  \<^item> \<open>Mpu_Config\<close> (\<^verbatim>\<open>arch/common/core/mpu_cortexMx.cpp\<close>): the regions of a process and the checks of pointers: what they accept is
    inside the regions, and they accept what is inside and ends before the last byte of its region.
  \<^item> \<open>System_Calls\<close> (\<^verbatim>\<open>kernel/process.cpp\<close>, \<^verbatim>\<open>SystemMap.cpp\<close>): the dispatch of system calls: every call that the kernel makes for a process is
    given only memory of that process. The property \<open>processes_isolated\<close> of this theory puts the allocator of process memory, the
    memory protection and the system calls together: no call for a process touches the memory of another.

  \<^bold>\<open>Bounds.\<close> Deadlines, wakeup times and priorities are \<open>int\<close>: the sums with time the source makes are those of 64 bit
  numbers that a clock in nanoseconds reaches after 292 years. Descriptor numbers are below \<open>MAX_OPEN_FILES\<close>. The sizes of
  the queues, of the pool of processes and of the transfers on device files keep their width, because their overflow is
  what the properties are about. The name of a program to start is read up to its terminator or 2^32 bytes, the whole memory.

  \<^bold>\<open>Not modelled.\<close> The drivers, the boot code and the code for the boards (\<^verbatim>\<open>arch/\<close>) write to registers of the hardware; FatFs
  (\<^verbatim>\<open>filesystem/fat32/ff.cpp\<close>), the CMSIS headers and the files of the C library are third party code; a filesystem other than
  the two above is an argument of the definitions, and so are the device under a terminal and what a system call does once its pointers were
  checked. Callbacks, and the unbounded \<^verbatim>\<open>EventQueue\<close> of \<^verbatim>\<open>e20.cpp\<close>, store functions of any type and are not modelled. Context switches and stack frames are not modelled: a thread is where the
  step relations say it is.
\<close>

unbundle bit_operations_syntax

section \<open>Processes and their memory\<close>









end
